(* ===== verification/Prelude.thy ===== *)
theory Prelude
  imports
    Complex_Main
    "HOL-Library.AList"
    "HOL-Library.Multiset"
    "HOL-Library.Product_Lexorder"
    "HOL-Library.Sublist"
    "HOL-Library.Word"
begin

text \<open>
  Shared vocabulary of the development.

  \<^item> Names for the scalar types of the Rust sources. \<open>f64\<close> quantities (milliseconds,
    rates, fractions) are real numbers: rounding, signed zero and NaN are abstracted, and
    \<open>f64::INFINITY\<close>, where the code stores it, is the constructor \<open>Infinite\<close> of
    \<open>ext\<close>. Counters and indices (\<open>usize\<close>, \<open>u32\<close>, \<open>u64\<close>) are \<open>nat\<close>; a
    saturating or wrapping operation of the source is written out, and values whose bits
    matter are words.
  \<^item> \<open>std::collections::HashMap\<close> as an association list with distinct keys: the list
    order is one possible iteration order. Its contract is the locale \<open>hash_map\<close>.
  \<^item> \<open>slice::sort_by\<close>: a stable sort by a key. The locale \<open>total_key\<close> states when its
    result does not depend on the order of the input.
  \<^item> Invariants of step relations: the locale \<open>invariant_system\<close>.
\<close>

named_theorems hm_simps \<open>rewriting of hash map operations\<close>
named_theorems keeps \<open>preservation of a component's invariant by its operations\<close>

subsection \<open>Scalars\<close>

type_synonym millis = real
type_synonym request_id = nat
type_synonym worker_id = nat
type_synonym block_id = nat
type_synonym token_id = "32 word"

definition u32_max :: nat where
  "u32_max = 4294967295"

definition u64_max :: nat where
  "u64_max = 18446744073709551615"

text \<open>\<open>u32::saturating_add\<close> and \<open>u64::saturating_add\<close>. Saturating subtraction on an
  unsigned type is subtraction on \<open>nat\<close>.\<close>

definition saturating_add_u32 :: "nat \<Rightarrow> nat \<Rightarrow> nat" where
  "saturating_add_u32 a b = min (a + b) u32_max"

definition saturating_add_u64 :: "nat \<Rightarrow> nat \<Rightarrow> nat" where
  "saturating_add_u64 a b = min (a + b) u64_max"

text \<open>\<open>f64::clamp\<close> for a lower bound below the upper one.\<close>

definition clamp :: "real \<Rightarrow> real \<Rightarrow> real \<Rightarrow> real" where
  "clamp x lo hi = (if x < lo then lo else if x > hi then hi else x)"

lemma clamp_bounds: "lo \<le> hi \<Longrightarrow> lo \<le> clamp x lo hi \<and> clamp x lo hi \<le> hi"
  by (simp add: clamp_def)

text \<open>\<open>f64::round\<close> of a non-negative number, as an index: half is rounded up.\<close>

definition round_index :: "real \<Rightarrow> nat" where
  "round_index x = nat \<lfloor>x + 1 / 2\<rfloor>"

text \<open>Decimal digits of a number, as \<open>format!\<close> prints an unsigned integer.\<close>

fun nat_str :: "nat \<Rightarrow> string" where
  "nat_str n = (if n < 10 then [char_of (48 + n)] else nat_str (n div 10) @ [char_of (48 + n mod 10)])"

declare nat_str.simps [simp del]

subsection \<open>A real number or \<open>f64::INFINITY\<close>\<close>

datatype ext = Fin real | Infinite

fun ext_le :: "ext \<Rightarrow> ext \<Rightarrow> bool" where
  "ext_le _ Infinite = True"
| "ext_le Infinite (Fin _) = False"
| "ext_le (Fin a) (Fin b) = (a \<le> b)"

instantiation ext :: linorder
begin

definition less_eq_ext :: "ext \<Rightarrow> ext \<Rightarrow> bool" where
  "less_eq_ext a b = ext_le a b"

definition less_ext :: "ext \<Rightarrow> ext \<Rightarrow> bool" where
  "less_ext a b = (ext_le a b \<and> \<not> ext_le b a)"

instance
proof
  fix x y z :: ext
  show "x < y \<longleftrightarrow> x \<le> y \<and> \<not> y \<le> x"
    by (simp add: less_eq_ext_def less_ext_def)
  show "x \<le> x"
    by (cases x) (simp_all add: less_eq_ext_def)
  show "x \<le> y \<Longrightarrow> y \<le> z \<Longrightarrow> x \<le> z"
    by (cases x; cases y; cases z) (simp_all add: less_eq_ext_def)
  show "x \<le> y \<Longrightarrow> y \<le> x \<Longrightarrow> x = y"
    by (cases x; cases y) (simp_all add: less_eq_ext_def)
  show "x \<le> y \<or> y \<le> x"
    by (cases x; cases y) (auto simp: less_eq_ext_def)
qed

end

lemma ext_le_simps [simp]:
  "x \<le> Infinite" "\<not> Infinite \<le> Fin a" "Fin a \<le> Fin b \<longleftrightarrow> a \<le> b"
  by (cases x) (simp_all add: less_eq_ext_def)

lemma ext_less_simps [simp]:
  "\<not> Infinite < x" "Fin a < Infinite" "Fin a < Fin b \<longleftrightarrow> a < b"
  by (cases x) (auto simp: less_ext_def)

lemma min_ext_simps [simp]:
  "min Infinite x = x" "min x Infinite = x" "min (Fin a) (Fin b) = Fin (min a b)"
  by (cases x) (auto simp: min_def)

fun is_finite :: "ext \<Rightarrow> bool" where
  "is_finite (Fin _) = True"
| "is_finite Infinite = False"

subsection \<open>Hash maps\<close>

type_synonym ('k, 'v) hmap = "('k \<times> 'v) list"

abbreviation hm_get :: "('k, 'v) hmap \<Rightarrow> 'k \<Rightarrow> 'v option" where
  "hm_get m \<equiv> map_of m"

abbreviation hm_insert :: "'k \<Rightarrow> 'v \<Rightarrow> ('k, 'v) hmap \<Rightarrow> ('k, 'v) hmap" where
  "hm_insert k v m \<equiv> AList.update k v m"

abbreviation hm_remove :: "'k \<Rightarrow> ('k, 'v) hmap \<Rightarrow> ('k, 'v) hmap" where
  "hm_remove k m \<equiv> AList.delete k m"

abbreviation hm_keys :: "('k, 'v) hmap \<Rightarrow> 'k list" where
  "hm_keys m \<equiv> map fst m"

abbreviation hm_values :: "('k, 'v) hmap \<Rightarrow> 'v list" where
  "hm_values m \<equiv> map snd m"

abbreviation hm_wf :: "('k, 'v) hmap \<Rightarrow> bool" where
  "hm_wf m \<equiv> distinct (map fst m)"

text \<open>An in-place update through \<open>get_mut\<close>: nothing happens when the key is absent.\<close>

definition hm_modify :: "'k \<Rightarrow> ('v \<Rightarrow> 'v) \<Rightarrow> ('k, 'v) hmap \<Rightarrow> ('k, 'v) hmap" where
  "hm_modify k f m = (case hm_get m k of None \<Rightarrow> m | Some v \<Rightarrow> hm_insert k (f v) m)"

locale hash_map =
  fixes get :: "'m \<Rightarrow> 'k \<Rightarrow> 'v option"
    and put :: "'k \<Rightarrow> 'v \<Rightarrow> 'm \<Rightarrow> 'm"
    and del :: "'k \<Rightarrow> 'm \<Rightarrow> 'm"
    and keys :: "'m \<Rightarrow> 'k list"
    and valid :: "'m \<Rightarrow> bool"
  assumes get_put: "get (put k v m) = (get m)(k \<mapsto> v)"
    and get_del: "get (del k m) = (get m)(k := None)"
    and keys_get: "set (keys m) = dom (get m)"
    and valid_distinct: "valid m \<Longrightarrow> distinct (keys m)"
    and valid_put: "valid m \<Longrightarrow> valid (put k v m)"
    and valid_del: "valid m \<Longrightarrow> valid (del k m)"
begin

lemma len_card: "valid m \<Longrightarrow> length (keys m) = card (dom (get m))"
  using valid_distinct keys_get by (metis distinct_card)

lemma finite_dom: "finite (dom (get m))"
  by (metis List.finite_set keys_get)

lemma len_put:
  assumes "valid m"
  shows "length (keys (put k v m)) = (if get m k = None then Suc (length (keys m)) else length (keys m))"
proof -
  have "length (keys (put k v m)) = card (insert k (dom (get m)))"
    using len_card [OF valid_put [OF assms]] by (simp add: get_put)
  also have "\<dots> = (if get m k = None then Suc (card (dom (get m))) else card (dom (get m)))"
    using finite_dom by (auto simp: card_insert_if domIff)
  finally show ?thesis
    using len_card [OF assms] by simp
qed

lemma len_del:
  assumes "valid m"
  shows "length (keys (del k m)) = (if get m k = None then length (keys m) else length (keys m) - 1)"
proof -
  have "length (keys (del k m)) = card (dom (get m) - {k})"
    using len_card [OF valid_del [OF assms]] by (simp add: get_del)
  also have "\<dots> = (if get m k = None then card (dom (get m)) else card (dom (get m)) - 1)"
    using finite_dom by (auto simp: domIff)
  finally show ?thesis
    using len_card [OF assms] by simp
qed

lemma put_del_commute: "k \<noteq> k' \<Longrightarrow> get (put k v (del k' m)) = get (del k' (put k v m))"
  by (auto simp: get_put get_del)

end

interpretation hm: hash_map "map_of" "AList.update" "AList.delete" "map fst" "\<lambda>m. distinct (map fst m)"
  by unfold_locales
    (simp_all add: update_conv' delete_conv' dom_map_of_conv_image_fst distinct_update distinct_delete)

text \<open>Lookups stay lookups: membership of a pair in the list is an artefact of the model.\<close>

declare map_of_eq_Some_iff [simp del] Some_eq_map_of_iff [simp del]

lemmas [hm_simps] = hm.get_put hm.get_del
lemmas hm_wf_intros [intro, simp] = hm.valid_put hm.valid_del

lemma hm_modify_get [hm_simps]:
  "hm_get (hm_modify k f m) = (hm_get m)(k := map_option f (hm_get m k))"
  by (auto simp: hm_modify_def hm_simps split: option.splits)

lemma hm_modify_keys [simp]: "hm_keys (hm_modify k f m) = hm_keys m"
proof (cases "hm_get m k")
  case None
  then show ?thesis by (simp add: hm_modify_def)
next
  case (Some v)
  then have "k \<in> set (map fst m)" by (metis domI dom_map_of_conv_image_fst image_set)
  then show ?thesis using Some by (simp add: hm_modify_def update_keys)
qed

lemma hm_values_get: "hm_wf m \<Longrightarrow> v \<in> set (hm_values m) \<longleftrightarrow> (\<exists>k. hm_get m k = Some v)"
  by (force simp: map_of_eq_Some_iff)

lemma count_list_distinct: "distinct xs \<Longrightarrow> count_list xs k = (if k \<in> set xs then 1 else 0)"
  by (induction xs) auto

subsection \<open>Stable sorting by a key\<close>

text \<open>
  Rust's \<open>sort_by\<close> with a comparator that compares a tuple of keys is \<open>sort_key\<close> of the
  library, a stable sort. Where the key determines the element, the result is a function
  of the multiset of elements: this is what makes a scheduling decision independent of
  hash iteration order.
\<close>

locale total_key =
  fixes key :: "'a \<Rightarrow> 'k::linorder"
    and good :: "'a set \<Rightarrow> bool"
  assumes key_inj: "good A \<Longrightarrow> inj_on key A"
begin

lemma sort_unique:
  assumes "mset xs = mset ys" "good (set xs)"
  shows "sort_key key xs = sort_key key ys"
proof -
  have "inj_on key (set (sort_key key ys))"
    using assms by (metis key_inj set_sort mset_eq_setD)
  then show ?thesis
    using assms properties_for_sort_key [of "sort_key key ys" xs key]
    by (metis filter_cong mset_sort sorted_sort_key sort_key_inj_key_eq)
qed

end

subsection \<open>Invariants of step relations\<close>

locale invariant_system =
  fixes init :: "'s \<Rightarrow> bool"
    and step :: "'s \<Rightarrow> 's \<Rightarrow> bool"
    and inv :: "'s \<Rightarrow> bool"
  assumes init_inv: "init s \<Longrightarrow> inv s"
    and step_inv: "inv s \<Longrightarrow> step s t \<Longrightarrow> inv t"
begin

lemma steps_inv: "step\<^sup>*\<^sup>* s t \<Longrightarrow> inv s \<Longrightarrow> inv t"
  by (induction rule: rtranclp_induct) (auto intro: step_inv)

lemma reachable_inv: "init s \<Longrightarrow> step\<^sup>*\<^sup>* s t \<Longrightarrow> inv t"
  using steps_inv init_inv by blast

end

end
