(* ===== verification/Block_Pool.thy ===== *)
theory Block_Pool
  imports Prelude
begin

text \<open>
  \<open>crates/kvcache/src/lib.rs\<close> and \<open>crates/kvcache/src/pool.rs\<close>: the paged KV allocator.

  A pool is a record of the fields of \<open>BlockPool\<close>; the \<open>Vec\<close> used as a stack and the
  \<open>VecDeque\<close> are lists (a push appends, \<open>Vec::pop\<close> takes the last element,
  \<open>VecDeque::pop_front\<close> the first). An operation that indexes \<open>refcount\<close> panics out of
  range: its result is an option, \<open>None\<close> for the panic. A reference count is a \<open>u32\<close>: \<open>incref\<close> and \<open>reacquire\<close> wrap as a release build
  does, and what is proved of them assumes that no page is referenced \<open>2\<^sup>3\<^sup>2\<close> times.

  The invariant \<open>pool_inv\<close> says that every page is in exactly one place: free, cached, or
  referenced. It is kept by every operation (for \<open>release\<close>, when the caller gives back no
  more references than are held), allocation hands out pages nobody holds, and admission
  control leaves the watermark untouched.
\<close>

subsection \<open>Errors of the core crate\<close>

datatype error =
    NoWorker string
  | UnknownWorker worker_id
  | UnknownRequest request_id
  | KvExhausted nat nat
  | Rejected request_id string
  | Engine string
  | Transfer string
  | Config string
  | Json string

subsection \<open>The model\<close>

definition blocks_for :: "nat \<Rightarrow> nat \<Rightarrow> nat" where
  "blocks_for tokens block_size = (let bs = max block_size 1 in (tokens + bs - 1) div bs)"

record sequence_blocks =
  sb_blocks :: "block_id list"
  sb_num_tokens :: nat

definition capacity_tokens :: "sequence_blocks \<Rightarrow> nat \<Rightarrow> nat" where
  "capacity_tokens s block_size = length (sb_blocks s) * block_size"

record pool_stats =
  st_total :: nat
  st_free :: nat
  st_in_use :: nat
  st_cached :: nat

definition utilisation :: "pool_stats \<Rightarrow> real" where
  "utilisation s = (if st_total s = 0 then 0 else real (st_in_use s) / real (st_total s))"

record block_pool =
  bp_block_size :: nat
  refcount :: "nat list"
  free :: "block_id list"
  cached :: "block_id list"
  watermark :: real

definition pool_new :: "nat \<Rightarrow> nat \<Rightarrow> real \<Rightarrow> block_pool" where
  "pool_new num_blocks bs wm =
    \<lparr>bp_block_size = bs, refcount = replicate num_blocks 0, free = rev [0..<num_blocks],
     cached = [], watermark = clamp wm 0 1\<rparr>"

definition total :: "block_pool \<Rightarrow> nat" where
  "total p = length (refcount p)"

definition available :: "block_pool \<Rightarrow> nat" where
  "available p = length (free p) + length (cached p)"

definition stats :: "block_pool \<Rightarrow> pool_stats" where
  "stats p = \<lparr>st_total = total p, st_free = length (free p),
     st_in_use = length (filter (\<lambda>c. c > 0) (refcount p)), st_cached = length (cached p)\<rparr>"

definition reserve :: "block_pool \<Rightarrow> nat" where
  "reserve p = nat \<lceil>real (total p) * watermark p\<rceil>"

definition can_admit :: "block_pool \<Rightarrow> nat \<Rightarrow> bool" where
  "can_admit p blocks = (available p \<ge> blocks + reserve p)"

text \<open>One turn of the loop in \<open>alloc\<close>: the free stack first, then the oldest cached page.\<close>

definition take_block :: "block_pool \<Rightarrow> (block_id \<times> block_pool) option" where
  "take_block p =
    (if free p \<noteq> [] then Some (last (free p), p\<lparr>free := butlast (free p)\<rparr>)
     else case cached p of [] \<Rightarrow> None | b # bs \<Rightarrow> Some (b, p\<lparr>cached := bs\<rparr>))"

fun alloc_loop :: "nat \<Rightarrow> block_pool \<Rightarrow> block_id list \<Rightarrow> (block_id list \<times> block_pool) option" where
  "alloc_loop 0 p out = Some (out, p)"
| "alloc_loop (Suc n) p out =
     (case take_block p of
        None \<Rightarrow> None
      | Some (b, p') \<Rightarrow>
          if b < length (refcount p')
          then alloc_loop n (p'\<lparr>refcount := (refcount p')[b := 1]\<rparr>) (out @ [b])
          else None)"

definition alloc :: "block_pool \<Rightarrow> nat \<Rightarrow> (error + block_id list \<times> block_pool) option" where
  "alloc p n =
    (if available p < n then Some (Inl (KvExhausted n (available p)))
     else map_option Inr (alloc_loop n p []))"

fun incref :: "block_pool \<Rightarrow> block_id list \<Rightarrow> block_pool option" where
  "incref p [] = Some p"
| "incref p (b # bs) =
     (if b < length (refcount p)
      then incref (p\<lparr>refcount := (refcount p)[b := (refcount p ! b + 1) mod 2 ^ 32]\<rparr>) bs
      else None)"

text \<open>The body shared by \<open>release\<close> and \<open>release_to_cache\<close>: drop a reference unless there
  is none, then report whether the page is now unreferenced.\<close>

definition drop_ref :: "block_pool \<Rightarrow> block_id \<Rightarrow> (bool \<times> block_pool) option" where
  "drop_ref p b =
    (if b < length (refcount p)
     then let rc = refcount p ! b; rc' = (if rc > 0 then rc - 1 else rc)
          in Some (rc' = 0, p\<lparr>refcount := (refcount p)[b := rc']\<rparr>)
     else None)"

fun release :: "block_pool \<Rightarrow> block_id list \<Rightarrow> block_pool option" where
  "release p [] = Some p"
| "release p (b # bs) =
     (case drop_ref p b of
        None \<Rightarrow> None
      | Some (z, p') \<Rightarrow> release (if z then p'\<lparr>free := free p' @ [b]\<rparr> else p') bs)"

fun release_to_cache :: "block_pool \<Rightarrow> block_id list \<Rightarrow> block_pool option" where
  "release_to_cache p [] = Some p"
| "release_to_cache p (b # bs) =
     (case drop_ref p b of
        None \<Rightarrow> None
      | Some (z, p') \<Rightarrow> release_to_cache (if z then p'\<lparr>cached := cached p' @ [b]\<rparr> else p') bs)"

definition reacquire :: "block_pool \<Rightarrow> block_id \<Rightarrow> (bool \<times> block_pool) option" where
  "reacquire p b =
    (if b \<in> set (cached p)
     then (if b < length (refcount p)
           then Some (True, p\<lparr>cached := remove1 b (cached p),
                              refcount := (refcount p)[b := (refcount p ! b + 1) mod 2 ^ 32]\<rparr>)
           else None)
     else if b < length (refcount p)
     then (if refcount p ! b > 0
           then Some (True, p\<lparr>refcount := (refcount p)[b := (refcount p ! b + 1) mod 2 ^ 32]\<rparr>)
           else Some (False, p))
     else None)"

fun evict_cached :: "nat \<Rightarrow> block_pool \<Rightarrow> block_id list \<times> block_pool" where
  "evict_cached 0 p = ([], p)"
| "evict_cached (Suc n) p =
     (case cached p of
        [] \<Rightarrow> ([], p)
      | b # bs \<Rightarrow>
          let (out, p') = evict_cached n (p\<lparr>cached := bs, free := free p @ [b]\<rparr>)
          in (b # out, p'))"

subsection \<open>Block counts\<close>

lemma blocks_for_enough: "tokens \<le> blocks_for tokens bs * max bs 1"
proof -
  let ?b = "max bs 1"
  have "(tokens + ?b - 1) mod ?b < ?b" by simp
  moreover have "blocks_for tokens bs * ?b + (tokens + ?b - 1) mod ?b = tokens + ?b - 1"
    unfolding blocks_for_def Let_def by (rule div_mult_mod_eq)
  ultimately show ?thesis by linarith
qed

lemma blocks_for_least:
  assumes "tokens \<le> n * max bs 1"
  shows "blocks_for tokens bs \<le> n"
proof -
  let ?b = "max bs 1"
  have "tokens + ?b - 1 < (n + 1) * ?b" using assms by (simp add: algebra_simps)
  then have "(tokens + ?b - 1) div ?b < n + 1" by (rule less_mult_imp_div_less)
  then show ?thesis by (simp add: blocks_for_def Let_def)
qed

subsection \<open>The pool invariant\<close>

definition pool_inv :: "block_pool \<Rightarrow> bool" where
  "pool_inv p \<longleftrightarrow> distinct (free p @ cached p) \<and>
     set (free p @ cached p) = set (filter (\<lambda>b. refcount p ! b = 0) [0..<total p])"

lemma pool_inv_unreferenced:
  "pool_inv p \<Longrightarrow> b \<in> set (free p) \<or> b \<in> set (cached p) \<longleftrightarrow> b < total p \<and> refcount p ! b = 0"
  unfolding pool_inv_def by auto

lemma pool_invI:
  assumes "distinct (free p)" "distinct (cached p)" "set (free p) \<inter> set (cached p) = {}"
    and "\<And>b. b \<in> set (free p) \<or> b \<in> set (cached p) \<longleftrightarrow> b < total p \<and> refcount p ! b = 0"
  shows "pool_inv p"
  using assms unfolding pool_inv_def by auto

lemma pool_inv_new [keeps]: "pool_inv (pool_new n bs wm)"
  by (rule pool_invI) (auto simp: pool_new_def total_def)

lemma in_use_count:
  "length (filter (\<lambda>c. c > 0) (refcount p)) + length (filter (\<lambda>b. refcount p ! b = 0) [0..<total p])
     = total p"
proof -
  have "length (filter (\<lambda>c. c > 0) (refcount p)) = length (filter (\<lambda>b. refcount p ! b > 0) [0..<total p])"
    using length_filter_map [of "\<lambda>c. c > 0" "\<lambda>b. refcount p ! b" "[0..<total p]"]
    by (simp add: total_def map_nth comp_def)
  moreover have "length (filter (\<lambda>b. refcount p ! b > 0) [0..<total p])
      + length (filter (\<lambda>b. \<not> refcount p ! b > 0) [0..<total p]) = length [0..<total p]"
    by (rule sum_length_filter_compl)
  ultimately show ?thesis by simp
qed

lemma available_count:
  assumes "pool_inv p"
  shows "available p = length (filter (\<lambda>b. refcount p ! b = 0) [0..<total p])"
proof -
  have "available p = card (set (free p @ cached p))"
    using assms unfolding pool_inv_def by (metis available_def distinct_card length_append)
  also have "\<dots> = card (set (filter (\<lambda>b. refcount p ! b = 0) [0..<total p]))"
    using assms unfolding pool_inv_def by metis
  finally show ?thesis
    by (metis distinct_card distinct_filter distinct_upt)
qed

subsection \<open>Allocation\<close>

lemma pool_inv_hand_out:
  assumes inv: "pool_inv p" and b: "b < total p" "k > 0"
    and d: "distinct (fs @ cs)" "set (fs @ cs) = set (free p @ cached p) - {b}"
  shows "pool_inv (p\<lparr>free := fs, cached := cs, refcount := (refcount p)[b := k]\<rparr>)"
proof (rule pool_invI)
  fix c
  have "c \<in> set (fs @ cs) \<longleftrightarrow> c \<in> set (free p @ cached p) - {b}" by (simp only: d(2))
  then have "c \<in> set fs \<or> c \<in> set cs \<longleftrightarrow> (c < total p \<and> refcount p ! c = 0) \<and> c \<noteq> b"
    using pool_inv_unreferenced [OF inv, of c] by simp
  then show "c \<in> set (free (p\<lparr>free := fs, cached := cs, refcount := (refcount p)[b := k]\<rparr>)) \<or>
      c \<in> set (cached (p\<lparr>free := fs, cached := cs, refcount := (refcount p)[b := k]\<rparr>)) \<longleftrightarrow>
      c < total (p\<lparr>free := fs, cached := cs, refcount := (refcount p)[b := k]\<rparr>) \<and>
      refcount (p\<lparr>free := fs, cached := cs, refcount := (refcount p)[b := k]\<rparr>) ! c = 0"
    using b by (cases "c = b") (simp_all add: total_def)
qed (use d in auto)

text \<open>What taking one page does: it was unreferenced, and it leaves both queues.\<close>

lemma take_block_Some:
  assumes inv: "pool_inv p" and av: "0 < available p"
  obtains b p' where "take_block p = Some (b, p')" "b < total p" "refcount p ! b = 0"
    "total p' = total p" "refcount p' = refcount p" "available p' = available p - 1"
    "bp_block_size p' = bp_block_size p" "watermark p' = watermark p"
    "pool_inv (p'\<lparr>refcount := (refcount p')[b := 1]\<rparr>)"
proof (cases "free p = []")
  case True
  then obtain b bs where bs: "cached p = b # bs"
    using av by (cases "cached p") (auto simp: available_def)
  have b: "b < total p" "refcount p ! b = 0"
    using pool_inv_unreferenced [OF inv, of b] bs by auto
  have "distinct ([] @ bs)" "set ([] @ bs) = set (free p @ cached p) - {b}"
    using inv bs True unfolding pool_inv_def by auto
  from pool_inv_hand_out [OF inv b(1) zero_less_one this] True
  have "pool_inv ((p\<lparr>cached := bs\<rparr>)\<lparr>refcount := (refcount p)[b := 1]\<rparr>)"
    by (simp add: pool_inv_def total_def)
  then show ?thesis
    using that [of b "p\<lparr>cached := bs\<rparr>"] b bs True
    by (simp add: take_block_def available_def total_def)
next
  case False
  obtain fs b where fb: "free p = fs @ [b]" using False by (metis rev_exhaust)
  have b: "b < total p" "refcount p ! b = 0"
    using pool_inv_unreferenced [OF inv, of b] fb by auto
  have "distinct (fs @ cached p)" "set (fs @ cached p) = set (free p @ cached p) - {b}"
    using inv fb unfolding pool_inv_def by auto
  from pool_inv_hand_out [OF inv b(1) zero_less_one this]
  have "pool_inv ((p\<lparr>free := fs\<rparr>)\<lparr>refcount := (refcount p)[b := 1]\<rparr>)" by simp
  then show ?thesis
    using that [of b "p\<lparr>free := fs\<rparr>"] b fb
    by (simp add: take_block_def available_def total_def)
qed

text \<open>The references after an operation, as an update of the references before it.\<close>

definition refs_set_to :: "nat list \<Rightarrow> block_id list \<Rightarrow> nat \<Rightarrow> nat list" where
  "refs_set_to rc bs k = map (\<lambda>b. if b \<in> set bs then k else rc ! b) [0..<length rc]"

lemma alloc_loop_correct:
  assumes "pool_inv p" "n \<le> available p"
  shows "\<exists>bs p'. alloc_loop n p out = Some (out @ bs, p') \<and> pool_inv p' \<and> length bs = n
    \<and> distinct bs \<and> (\<forall>b \<in> set bs. b < total p \<and> refcount p ! b = 0)
    \<and> refcount p' = refs_set_to (refcount p) bs 1
    \<and> available p' = available p - n \<and> bp_block_size p' = bp_block_size p \<and> watermark p' = watermark p"
  using assms
proof (induction n arbitrary: p out)
  case 0
  then show ?case by (auto simp: refs_set_to_def map_nth intro!: nth_equalityI)
next
  case (Suc n)
  obtain b p1 where p1: "take_block p = Some (b, p1)" "b < total p" "refcount p ! b = 0"
    "total p1 = total p" "refcount p1 = refcount p" "available p1 = available p - 1"
    "bp_block_size p1 = bp_block_size p" "watermark p1 = watermark p"
    "pool_inv (p1\<lparr>refcount := (refcount p1)[b := 1]\<rparr>)"
    using take_block_Some [OF Suc.prems(1)] Suc.prems(2) by auto
  let ?q = "p1\<lparr>refcount := (refcount p1)[b := 1]\<rparr>"
  have q: "available ?q = available p - 1" "total ?q = total p"
    using p1 by (simp_all add: available_def total_def)
  have nq: "n \<le> available ?q" using q Suc.prems(2) by simp
  obtain bs p' where IH: "alloc_loop n ?q (out @ [b]) = Some ((out @ [b]) @ bs, p')" "pool_inv p'"
    "length bs = n" "distinct bs" "\<forall>c \<in> set bs. c < total ?q \<and> refcount ?q ! c = 0"
    "refcount p' = refs_set_to (refcount ?q) bs 1" "available p' = available ?q - n"
    "bp_block_size p' = bp_block_size ?q" "watermark p' = watermark ?q"
    using Suc.IH [OF p1(9) nq, of "out @ [b]"] by blast
  have nb: "b \<notin> set bs" using IH(5) p1 by (auto simp: total_def)
  have "refcount p' = refs_set_to (refcount p) (b # bs) 1"
    using IH(6) p1 by (auto simp: refs_set_to_def total_def nth_list_update)
  moreover have "\<forall>c \<in> set (b # bs). c < total p \<and> refcount p ! c = 0"
  proof
    fix c assume c: "c \<in> set (b # bs)"
    show "c < total p \<and> refcount p ! c = 0"
      using IH(5) nb p1(2,3,5) q(2) c by (cases "c = b") auto
  qed
  ultimately show ?case
    using IH nb p1 q by (intro exI [of _ "b # bs"] exI [of _ p']) (simp add: total_def)
qed

lemma alloc_correct:
  assumes "pool_inv p" "n \<le> available p"
  obtains bs p' where "alloc p n = Some (Inr (bs, p'))" "pool_inv p'" "length bs = n" "distinct bs"
    "\<forall>b \<in> set bs. b < total p \<and> refcount p ! b = 0" "refcount p' = refs_set_to (refcount p) bs 1"
    "available p' = available p - n" "bp_block_size p' = bp_block_size p" "watermark p' = watermark p"
  using alloc_loop_correct [OF assms, of "[]"] assms that by (auto simp: alloc_def)

subsection \<open>Taking and dropping references\<close>

lemma refcount_update_inv:
  assumes "pool_inv p" "b < total p" "refcount p ! b > 0" "k > 0"
  shows "pool_inv (p\<lparr>refcount := (refcount p)[b := k]\<rparr>)"
proof -
  have "set (free p @ cached p) = set (free p @ cached p) - {b}"
    using pool_inv_unreferenced [OF assms(1), of b] assms by auto
  then show ?thesis
    using pool_inv_hand_out [OF assms(1,2,4), of "free p" "cached p"] assms(1)
    unfolding pool_inv_def by simp
qed

lemma incref_correct:
  assumes "pool_inv p" "\<forall>b \<in> set bs. b < total p \<and> refcount p ! b > 0"
    "\<forall>b < total p. refcount p ! b + count_list bs b < 2 ^ 32"
  shows "\<exists>p'. incref p bs = Some p' \<and> pool_inv p' \<and> free p' = free p \<and> cached p' = cached p
    \<and> total p' = total p \<and> (\<forall>b < total p. refcount p' ! b = refcount p ! b + count_list bs b)"
  using assms
proof (induction bs arbitrary: p)
  case Nil
  then show ?case by simp
next
  case (Cons b bs)
  let ?q = "p\<lparr>refcount := (refcount p)[b := refcount p ! b + 1]\<rparr>"
  have b: "b < total p" "refcount p ! b > 0" using Cons.prems by auto
  have w: "(refcount p ! b + 1) mod 2 ^ 32 = refcount p ! b + 1"
    using Cons.prems(3) b(1) by (intro mod_less) (metis add_lessD1 add.assoc add.commute count_list.simps(2))
  have room: "\<forall>c < total ?q. refcount ?q ! c + count_list bs c < 2 ^ 32"
  proof (intro allI impI)
    fix c assume c: "c < total ?q"
    then have "refcount p ! c + count_list (b # bs) c < 2 ^ 32" using Cons.prems(3) by (simp add: total_def)
    then show "refcount ?q ! c + count_list bs c < 2 ^ 32" using c by (cases "c = b") (simp_all add: total_def)
  qed
  have "pool_inv ?q" using refcount_update_inv [OF Cons.prems(1) b] by simp
  moreover have "\<forall>c \<in> set bs. c < total ?q \<and> refcount ?q ! c > 0"
    using Cons.prems by (auto simp: total_def nth_list_update)
  ultimately obtain p' where "incref ?q bs = Some p'" "pool_inv p'" "free p' = free p"
    "cached p' = cached p" "total p' = total p"
    "\<forall>c < total p. refcount p' ! c = refcount ?q ! c + count_list bs c"
    using Cons.IH [OF _ _ room] by (auto simp: total_def)
  then show ?case using b w by (auto simp: total_def nth_list_update)
qed

text \<open>Dropping one of the references held keeps the invariant once an unreferenced page
  has been queued, in either queue.\<close>

definition requeue :: "bool \<Rightarrow> bool \<Rightarrow> block_id \<Rightarrow> block_pool \<Rightarrow> block_pool" where
  "requeue to_cache z b p =
    (if z then (if to_cache then p\<lparr>cached := cached p @ [b]\<rparr> else p\<lparr>free := free p @ [b]\<rparr>) else p)"

lemma drop_ref_correct:
  assumes inv: "pool_inv p" and b: "b < total p" "refcount p ! b > 0"
  obtains q where "drop_ref p b = Some (refcount p ! b = 1, q)"
    "pool_inv (requeue to_cache (refcount p ! b = 1) b q)"
    "refcount q = (refcount p)[b := refcount p ! b - 1]" "watermark q = watermark p"
proof -
  let ?q = "p\<lparr>refcount := (refcount p)[b := refcount p ! b - 1]\<rparr>"
  have "drop_ref p b = Some (refcount p ! b = 1, ?q)"
    using b by (auto simp: drop_ref_def total_def Let_def)
  moreover have "pool_inv (requeue to_cache (refcount p ! b = 1) b ?q)"
  proof (cases "refcount p ! b = 1")
    case True
    have nb: "b \<notin> set (free p) \<and> b \<notin> set (cached p)"
      using pool_inv_unreferenced [OF inv, of b] b by auto
    show ?thesis
    proof (rule pool_invI)
      fix c
      show "c \<in> set (free (requeue to_cache (refcount p ! b = 1) b ?q)) \<or>
          c \<in> set (cached (requeue to_cache (refcount p ! b = 1) b ?q)) \<longleftrightarrow>
          c < total (requeue to_cache (refcount p ! b = 1) b ?q) \<and>
          refcount (requeue to_cache (refcount p ! b = 1) b ?q) ! c = 0"
        using True b nb pool_inv_unreferenced [OF inv, of c]
        by (cases "c = b") (auto simp: requeue_def total_def)
    qed (use True nb inv in \<open>auto simp: requeue_def pool_inv_def\<close>)
  next
    case False
    then show ?thesis
      using refcount_update_inv [OF inv b, of "refcount p ! b - 1"] b by (simp add: requeue_def)
  qed
  ultimately show ?thesis using that [of ?q] by simp
qed

text \<open>\<open>release\<close> and \<open>release_to_cache\<close> are the same loop with a different queue.\<close>

fun release_all :: "bool \<Rightarrow> block_pool \<Rightarrow> block_id list \<Rightarrow> block_pool option" where
  "release_all to_cache p [] = Some p"
| "release_all to_cache p (b # bs) =
     (case drop_ref p b of
        None \<Rightarrow> None
      | Some (z, p') \<Rightarrow> release_all to_cache (requeue to_cache z b p') bs)"

lemma release_eq: "release p bs = release_all False p bs"
  by (induction bs arbitrary: p) (auto simp: requeue_def split: option.splits)

lemma release_to_cache_eq: "release_to_cache p bs = release_all True p bs"
  by (induction bs arbitrary: p) (auto simp: requeue_def split: option.splits)

lemma requeue_simps [simp]:
  "refcount (requeue c z b p) = refcount p" "total (requeue c z b p) = total p"
  "watermark (requeue c z b p) = watermark p"
  by (simp_all add: requeue_def total_def)

lemma release_all_correct:
  assumes "pool_inv p" "\<forall>b. count_list bs b \<le> (if b < total p then refcount p ! b else 0)"
  shows "\<exists>p'. release_all to_cache p bs = Some p' \<and> pool_inv p' \<and> total p' = total p
    \<and> watermark p' = watermark p
    \<and> (\<forall>b < total p. refcount p' ! b = refcount p ! b - count_list bs b)"
  using assms
proof (induction bs arbitrary: p)
  case Nil
  then show ?case by simp
next
  case (Cons b bs)
  have b: "b < total p" "refcount p ! b > 0"
    using spec [OF Cons.prems(2), of b] by (auto split: if_splits)
  obtain q where q: "drop_ref p b = Some (refcount p ! b = 1, q)"
    "pool_inv (requeue to_cache (refcount p ! b = 1) b q)"
    "refcount q = (refcount p)[b := refcount p ! b - 1]" "watermark q = watermark p"
    using drop_ref_correct [OF Cons.prems(1) b] by blast
  let ?q = "requeue to_cache (refcount p ! b = 1) b q"
  have t: "total ?q = total p" using q(3) by (simp add: total_def)
  have "count_list bs c \<le> (if c < total ?q then refcount ?q ! c else 0)" for c
    using spec [OF Cons.prems(2), of c] q(3) t b by (cases "c = b") (auto simp: total_def)
  then obtain p' where "release_all to_cache ?q bs = Some p'" "pool_inv p'" "total p' = total p"
    "watermark p' = watermark p" "\<forall>c < total p. refcount p' ! c = refcount ?q ! c - count_list bs c"
    using Cons.IH [OF q(2)] t q(4) by auto
  then show ?case using q b by (auto simp: total_def nth_list_update)
qed

lemma reacquire_correct:
  assumes inv: "pool_inv p" and b: "b < total p" and room: "refcount p ! b + 1 < 2 ^ 32"
  obtains r p' where "reacquire p b = Some (r, p')" "pool_inv p'" "total p' = total p"
    "watermark p' = watermark p"
    "refcount p' = (if r then (refcount p)[b := refcount p ! b + 1] else refcount p)"
    "r \<longleftrightarrow> b \<notin> set (free p)" "\<not> r \<Longrightarrow> p' = p"
proof (cases "b \<in> set (cached p)")
  case True
  have rc: "refcount p ! b = 0" "b \<notin> set (free p)"
    using True pool_inv_unreferenced [OF inv, of b] inv by (auto simp: pool_inv_def)
  have "distinct (free p @ remove1 b (cached p))"
    "set (free p @ remove1 b (cached p)) = set (free p @ cached p) - {b}"
    using inv rc unfolding pool_inv_def by auto
  from pool_inv_hand_out [OF inv b _ this, of 1]
  have "pool_inv (p\<lparr>cached := remove1 b (cached p), refcount := (refcount p)[b := 1]\<rparr>)"
    by (simp add: pool_inv_def total_def)
  then show ?thesis
    using that [of True "p\<lparr>cached := remove1 b (cached p), refcount := (refcount p)[b := 1]\<rparr>"]
      True b rc by (simp add: reacquire_def total_def)
next
  case False
  show ?thesis
  proof (cases "refcount p ! b > 0")
    case True
    have "b \<notin> set (free p)" using True pool_inv_unreferenced [OF inv, of b] by auto
    then show ?thesis
      using that [of True "p\<lparr>refcount := (refcount p)[b := refcount p ! b + 1]\<rparr>"] False b True
        refcount_update_inv [OF inv b True] room by (simp add: reacquire_def total_def)
  next
    case F: False
    then show ?thesis
      using that [of False p] False b inv pool_inv_unreferenced [OF inv, of b]
      by (simp add: reacquire_def total_def)
  qed
qed

lemma evict_cached_correct:
  assumes "pool_inv p"
  shows "pool_inv (snd (evict_cached n p)) \<and> fst (evict_cached n p) = take n (cached p)
    \<and> free (snd (evict_cached n p)) = free p @ take n (cached p)
    \<and> cached (snd (evict_cached n p)) = drop n (cached p)
    \<and> refcount (snd (evict_cached n p)) = refcount p"
  using assms
proof (induction n arbitrary: p)
  case 0
  then show ?case by simp
next
  case (Suc n)
  show ?case
  proof (cases "cached p")
    case Nil
    then show ?thesis using Suc.prems by simp
  next
    case (Cons b bs)
    have "pool_inv (p\<lparr>cached := bs, free := free p @ [b]\<rparr>)"
      using Suc.prems Cons by (auto simp: pool_inv_def total_def)
    from Suc.IH [OF this] show ?thesis using Cons by (simp add: split_beta Let_def)
  qed
qed

subsection \<open>Disciplined use: a step relation with the references the callers hold\<close>

text \<open>
  The state is the pool and the multiset of references its callers hold. A caller releases
  only references it holds and shares only pages it holds, and nobody takes the \<open>2\<^sup>3\<^sup>2\<close>-th reference to a page, where the \<open>u32\<close> counter
  would wrap; everything else is as the code.
\<close>

inductive pool_step :: "block_pool \<times> block_id multiset \<Rightarrow> block_pool \<times> block_id multiset \<Rightarrow> bool" where
  step_alloc: "alloc p n = Some (Inr (bs, p')) \<Longrightarrow> pool_step (p, h) (p', h + mset bs)"
| step_incref: "set bs \<subseteq> set_mset h \<Longrightarrow> \<forall>b. count h b + count_list bs b < 2 ^ 32 \<Longrightarrow> incref p bs = Some p' \<Longrightarrow> pool_step (p, h) (p', h + mset bs)"
| step_release: "mset bs \<subseteq># h \<Longrightarrow> release p bs = Some p' \<Longrightarrow> pool_step (p, h) (p', h - mset bs)"
| step_release_to_cache:
    "mset bs \<subseteq># h \<Longrightarrow> release_to_cache p bs = Some p' \<Longrightarrow> pool_step (p, h) (p', h - mset bs)"
| step_reacquire: "b < total p \<Longrightarrow> count h b + 1 < 2 ^ 32 \<Longrightarrow> reacquire p b = Some (True, p') \<Longrightarrow> pool_step (p, h) (p', h + {#b#})"
| step_evict: "evict_cached n p = (bs, p') \<Longrightarrow> pool_step (p, h) (p', h)"

inductive_cases pool_step_cases: "pool_step (p, h) s"

definition refs_match :: "block_pool \<times> block_id multiset \<Rightarrow> bool" where
  "refs_match s \<longleftrightarrow> (\<forall>b. count (snd s) b = (if b < total (fst s) then refcount (fst s) ! b else 0))"

definition pool_sys_inv :: "block_pool \<times> block_id multiset \<Rightarrow> bool" where
  "pool_sys_inv s \<longleftrightarrow> pool_inv (fst s) \<and> refs_match s"

lemma refs_match_held: "refs_match (p, h) \<Longrightarrow> b \<in># h \<longleftrightarrow> b < total p \<and> refcount p ! b > 0"
  using count_greater_zero_iff [of h b] unfolding refs_match_def by (auto split: if_splits)

lemma refs_match_release:
  "refs_match (p, h) \<Longrightarrow> mset bs \<subseteq># h \<Longrightarrow> count_list bs b \<le> (if b < total p then refcount p ! b else 0)"
  using mset_subset_eq_count [of "mset bs" h b] unfolding refs_match_def by (auto simp: count_mset split: if_splits)

lemma pool_step_release_inv:
  assumes "pool_sys_inv (p, h)" "mset bs \<subseteq># h" "release_all c p bs = Some p'"
  shows "pool_sys_inv (p', h - mset bs)"
proof -
  have inv: "pool_inv p" and m: "refs_match (p, h)" using assms(1) by (auto simp: pool_sys_inv_def)
  have "\<forall>b. count_list bs b \<le> (if b < total p then refcount p ! b else 0)"
    using refs_match_release [OF m assms(2)] by blast
  from release_all_correct [OF inv this, of c] assms(3)
  have "pool_inv p'" "total p' = total p"
    "\<forall>b < total p. refcount p' ! b = refcount p ! b - count_list bs b" by auto
  then show ?thesis using m by (auto simp: pool_sys_inv_def refs_match_def count_mset)
qed

lemma pool_step_inv [keeps]:
  assumes "pool_sys_inv s" "pool_step s t"
  shows "pool_sys_inv t"
  using assms(2,1)
proof (induction rule: pool_step.induct)
  case (step_alloc p n bs p' h)
  have inv: "pool_inv p" and m: "refs_match (p, h)" using step_alloc.prems by (auto simp: pool_sys_inv_def)
  have "n \<le> available p" using step_alloc by (auto simp: alloc_def split: if_splits)
  from alloc_correct [OF inv this] step_alloc.hyps
  have r: "pool_inv p'" "distinct bs" "\<forall>b \<in> set bs. b < total p \<and> refcount p ! b = 0"
    "refcount p' = refs_set_to (refcount p) bs 1" by auto
  have "count (h + mset bs) b = (if b < total p' then refcount p' ! b else 0)" for b
    using m r(2,3) unfolding r(4) refs_match_def
    by (cases "b \<in> set bs") (auto simp: total_def r(4) refs_set_to_def distinct_count_atmost_1 count_mset)
  then show ?case using r(1) by (simp add: pool_sys_inv_def refs_match_def)
next
  case (step_incref bs h p p')
  have inv: "pool_inv p" and m: "refs_match (p, h)" using step_incref.prems by (auto simp: pool_sys_inv_def)
  have "\<forall>b \<in> set bs. b < total p \<and> refcount p ! b > 0"
    using refs_match_held [OF m] step_incref.hyps(1) by blast
  moreover have "\<forall>b < total p. refcount p ! b + count_list bs b < 2 ^ 32"
  proof (intro allI impI)
    fix b assume "b < total p"
    then show "refcount p ! b + count_list bs b < 2 ^ 32"
      using spec [OF step_incref.hyps(2), of b] m by (simp add: refs_match_def)
  qed
  ultimately obtain q where "incref p bs = Some q" "pool_inv q" "total q = total p"
    "\<forall>b < total p. refcount q ! b = refcount p ! b + count_list bs b" using incref_correct [OF inv] by blast
  with step_incref.hyps(3) \<open>\<forall>b \<in> set bs. b < total p \<and> refcount p ! b > 0\<close>
  show ?case using m by (force simp: pool_sys_inv_def refs_match_def count_mset)
next
  case (step_release bs h p p')
  then show ?case using pool_step_release_inv by (simp add: release_eq)
next
  case (step_release_to_cache bs h p p')
  then show ?case using pool_step_release_inv by (simp add: release_to_cache_eq)
next
  case (step_reacquire b p h p')
  have inv: "pool_inv p" and m: "refs_match (p, h)" using step_reacquire.prems by (auto simp: pool_sys_inv_def)
  have "refcount p ! b + 1 < 2 ^ 32" using m step_reacquire.hyps(1,2) by (simp add: refs_match_def)
  from reacquire_correct [OF inv step_reacquire.hyps(1) this] step_reacquire.hyps
  have "pool_inv p'" "total p' = total p" "refcount p' = (refcount p)[b := refcount p ! b + 1]" by auto
  then show ?case using m step_reacquire.hyps(1)
    by (auto simp: pool_sys_inv_def refs_match_def total_def nth_list_update)
next
  case (step_evict n p bs p' h)
  then show ?case using evict_cached_correct [of p n]
    by (auto simp: pool_sys_inv_def refs_match_def total_def)
qed

interpretation pool_sys: invariant_system
  "\<lambda>s. \<exists>n bs wm. s = (pool_new n bs wm, {#})" pool_step pool_sys_inv
proof
  fix s :: "block_pool \<times> block_id multiset"
  assume "\<exists>n bs wm. s = (pool_new n bs wm, {#})"
  then obtain n bs wm where s: "s = (pool_new n bs wm, {#})" by blast
  have "refs_match s" by (simp add: s refs_match_def pool_new_def total_def)
  then show "pool_sys_inv s" using s pool_inv_new by (simp add: pool_sys_inv_def)
qed (rule pool_step_inv)

subsection \<open>Properties\<close>

text \<open>C1. In every state the pool can reach from a fresh one under callers that give back
  only references they hold, with fewer than \<open>2\<^sup>3\<^sup>2\<close> references to any one page, every page is in exactly one of the free list, the reclaim
  queue and the set of referenced pages, and its reference count is the number of
  references the callers hold.\<close>

theorem pool_reachable_inv:
  assumes "pool_step\<^sup>*\<^sup>* (pool_new n bs wm, {#}) (p, h)"
  shows "pool_inv p \<and> (\<forall>b < total p. refcount p ! b = count h b)
    \<and> st_free (stats p) + st_cached (stats p) + st_in_use (stats p) = st_total (stats p)"
proof -
  have "pool_sys_inv (p, h)" using pool_sys.reachable_inv [OF _ assms] by blast
  then have inv: "pool_inv p" and m: "refs_match (p, h)" by (auto simp: pool_sys_inv_def)
  have "available p + length (filter (\<lambda>c. c > 0) (refcount p)) = total p"
    using available_count [OF inv] in_use_count [of p] by simp
  then show ?thesis using inv m by (simp add: refs_match_def stats_def available_def)
qed

theorem pool_reachable_inv_witness:
  "pool_inv (the (release (snd (projr (the (alloc (pool_new 2 128 0) 1)))) [0]))"
proof -
  have a: "alloc (pool_new 2 128 0) 1 = Some (Inr ([0], snd (projr (the (alloc (pool_new 2 128 0) 1)))))"
    by code_simp
  have r: "release (snd (projr (the (alloc (pool_new 2 128 0) 1)))) [0]
      = Some (the (release (snd (projr (the (alloc (pool_new 2 128 0) 1)))) [0]))"
    by code_simp
  have "pool_step\<^sup>*\<^sup>* (pool_new 2 128 0, {#})
      (the (release (snd (projr (the (alloc (pool_new 2 128 0) 1)))) [0]), {#} + mset [0] - mset [0])"
    using pool_step.step_alloc [OF a, of "{#}"] pool_step.step_release [OF _ r, of "{#} + mset [0]"]
    by (meson rtranclp.rtrancl_into_rtrancl rtranclp.rtrancl_refl subset_mset.le_add_same_cancel2 subset_mset.zero_le)
  from pool_reachable_inv [OF this] show ?thesis by simp
qed

text \<open>Allocation. When enough pages are available, \<open>alloc\<close> returns exactly \<open>n\<close>
  distinct pages, all previously unreferenced, with one reference each; every other page
  keeps its count and the number of available pages falls by \<open>n\<close>. Otherwise it reports
  exhaustion (and, returning no pool, consumes nothing).\<close>

theorem alloc_spec:
  assumes "pool_inv p"
  shows "if n \<le> available p
    then (\<exists>bs p'. alloc p n = Some (Inr (bs, p')) \<and> pool_inv p' \<and> length bs = n \<and> distinct bs
      \<and> (\<forall>b \<in> set bs. b < total p \<and> refcount p ! b = 0)
      \<and> (\<forall>b < total p. refcount p' ! b = (if b \<in> set bs then 1 else refcount p ! b))
      \<and> total p' = total p \<and> available p' = available p - n)
    else alloc p n = Some (Inl (KvExhausted n (available p)))"
proof (cases "n \<le> available p")
  case True
  obtain bs p' where "alloc p n = Some (Inr (bs, p'))" "pool_inv p'" "length bs = n" "distinct bs"
    "\<forall>b \<in> set bs. b < total p \<and> refcount p ! b = 0" "refcount p' = refs_set_to (refcount p) bs 1"
    "available p' = available p - n"
    using alloc_correct [OF assms True] by blast
  then show ?thesis
    using True by (intro if_P [THEN iffD2] exI [of _ bs] exI [of _ p']) (auto simp: refs_set_to_def total_def)
next
  case False
  then show ?thesis by (simp add: alloc_def)
qed

theorem alloc_spec_witness: "pool_inv (pool_new 8 128 0) \<and> available (pool_new 8 128 0) = 8
   \<and> (\<exists>bs p'. alloc (pool_new 8 128 0) 3 = Some (Inr (bs, p')) \<and> length bs = 3 \<and> available p' = 5)
   \<and> alloc (pool_new 8 128 0) 9 = Some (Inl (KvExhausted 9 8))"
proof -
  have i: "pool_inv (pool_new 8 128 0)" by (rule pool_inv_new)
  have a: "available (pool_new 8 128 0) = 8" by code_simp
  show ?thesis using i a alloc_spec [OF i, of 3] alloc_spec [OF i, of 9] by fastforce
qed

text \<open>Admission control. When \<open>can_admit\<close> accepts a request for \<open>n\<close> pages, the
  allocation that follows succeeds and leaves at least the watermark reserve available.\<close>

theorem can_admit_then_alloc:
  assumes "pool_inv p" "can_admit p n"
  shows "\<exists>bs p'. alloc p n = Some (Inr (bs, p')) \<and> length bs = n \<and> reserve p \<le> available p'
    \<and> can_admit p' 0"
proof -
  have n: "n \<le> available p" "reserve p + n \<le> available p" using assms(2) by (auto simp: can_admit_def)
  obtain bs p' where r: "alloc p n = Some (Inr (bs, p'))" "length bs = n"
    "refcount p' = refs_set_to (refcount p) bs 1" "available p' = available p - n"
    "watermark p' = watermark p"
    using alloc_correct [OF assms(1) n(1)] by blast
  have "reserve p' = reserve p" using r by (simp add: reserve_def total_def refs_set_to_def)
  then show ?thesis using r n by (intro exI [of _ bs] exI [of _ p']) (simp add: can_admit_def)
qed

theorem can_admit_then_alloc_witness:
  "\<exists>bs p'. alloc (pool_new 100 128 (5 / 100)) 95 = Some (Inr (bs, p')) \<and> length bs = 95 \<and> 5 \<le> available p'"
proof -
  have c: "can_admit (pool_new 100 128 (5 / 100)) 95" and r: "reserve (pool_new 100 128 (5 / 100)) = 5"
    by (simp_all add: can_admit_def reserve_def available_def total_def pool_new_def clamp_def)
  show ?thesis using can_admit_then_alloc [OF pool_inv_new c] r by fastforce
qed

text \<open>Shared pages. Releasing references that are held (with multiplicity) never
  panics, lowers each count by the number of references given back, keeps the invariant,
  and frees exactly the pages whose last reference was given back.\<close>

theorem release_spec:
  assumes "pool_inv p" "\<forall>b. count_list bs b \<le> (if b < total p then refcount p ! b else 0)"
  shows "\<exists>p'. release p bs = Some p' \<and> pool_inv p' \<and> total p' = total p
    \<and> (\<forall>b < total p. refcount p' ! b = refcount p ! b - count_list bs b)
    \<and> (\<forall>b < total p. b \<in> set (free p') \<or> b \<in> set (cached p') \<longleftrightarrow> refcount p ! b = count_list bs b)"
proof -
  obtain p' where r: "release p bs = Some p'" "pool_inv p'" "total p' = total p"
    "\<forall>b < total p. refcount p' ! b = refcount p ! b - count_list bs b"
    using release_all_correct [OF assms, of False] unfolding release_eq by blast
  moreover have "b \<in> set (free p') \<or> b \<in> set (cached p') \<longleftrightarrow> refcount p ! b = count_list bs b"
    if b: "b < total p" for b
    using pool_inv_unreferenced [OF r(2), of b] r(3,4) b spec [OF assms(2), of b] by auto
  ultimately show ?thesis by blast
qed

theorem release_spec_witness:
  "\<exists>p'. release (the (incref (snd (projr (the (alloc (pool_new 2 128 0) 2)))) [0])) [0, 1] = Some p'
     \<and> pool_inv p' \<and> 1 \<in> set (free p') \<union> set (cached p') \<and> 0 \<notin> set (free p') \<union> set (cached p')"
proof -
  define p where "p = the (incref (snd (projr (the (alloc (pool_new 2 128 0) 2)))) [0])"
  have a: "alloc (pool_new 2 128 0) 2 = Some (Inr ([0, 1], \<lparr>bp_block_size = 128, refcount = [1, 1], free = [], cached = [], watermark = 0\<rparr>))"
    by (simp add: alloc_def available_def pool_new_def take_block_def clamp_def numeral_2_eq_2)
  then have p: "p = \<lparr>bp_block_size = 128, refcount = [2, 1], free = [], cached = [], watermark = 0\<rparr>" by (simp add: p_def)
  then have v: "total p = 2" "refcount p = [2, 1]" by (simp_all add: total_def)
  have i: "pool_inv p" by (simp add: p pool_inv_def total_def numeral_2_eq_2)
  have "\<forall>b. count_list [0, 1] b \<le> (if b < total p then refcount p ! b else 0)"
    using v by (auto simp: less_Suc_eq numeral_2_eq_2)
  from release_spec [OF i this] show ?thesis using v unfolding p_def by (force simp: nth_Cons')
qed

text \<open>Releasing a page that holds no reference is not rejected: the page enters the
  free list a second time, and two later allocations are handed the same page.\<close>

theorem double_release_double_allocates:
  "\<exists>p. pool_inv p \<and> (\<exists>p' p'' bs. release p [0] = Some p' \<and> \<not> pool_inv p'
     \<and> alloc p' 2 = Some (Inr (bs, p'')) \<and> \<not> distinct bs)"
proof -
  have "pool_inv (pool_new 1 128 0)" by (rule pool_inv_new)
  moreover have "release (pool_new 1 128 0) [0] = Some (pool_new 1 128 0\<lparr>free := [0, 0]\<rparr>)"
    by (simp add: pool_new_def drop_ref_def Let_def)
  moreover have "\<not> pool_inv (pool_new 1 128 0\<lparr>free := [0, 0]\<rparr>)"
    by (simp add: pool_inv_def pool_new_def)
  moreover have "alloc (pool_new 1 128 0\<lparr>free := [0, 0]\<rparr>) 2
      = Some (Inr ([0, 0], pool_new 1 128 0\<lparr>free := [], refcount := [1]\<rparr>))"
    by (simp add: alloc_def available_def pool_new_def numeral_2_eq_2 take_block_def)
  ultimately show ?thesis by (intro exI [of _ "pool_new 1 128 0"]) auto
qed

end
