(* ===== verification/Prefix_Cache.thy ===== *)
theory Prefix_Cache
  imports Block_Pool
begin

text \<open>
  \<open>crates/kvcache/src/prefix.rs\<close>: the per-worker prefix reuse index over the block pool.

  Hashes are 64-bit words and the FNV-1a step is the source's byte loop, so that what the
  chain distinguishes is a theorem about the code's arithmetic: a step is injective in the
  running hash, hence equal blocks after different prefixes stay different. The two maps of
  \<open>PrefixCache\<close> are hash maps; \<open>lookup\<close> threads the cache and the pool through its loop and
  is \<open>None\<close> where \<open>BlockPool::reacquire\<close> would panic.

  What \<open>lookup\<close> needs of the pool is the interface \<open>page_store\<close>, interpreted by
  \<open>BlockPool\<close> under its invariant while its 32-bit reference counts have room.

  \<open>lookup\<close> trusts its index: a page that was given to another sequence and is in use is not
  noticed. The index is right under a discipline of its owner, the step relation \<open>cache_step\<close>: the pages of an
  allocation are forgotten before they are filled anew.
\<close>

unbundle bit_operations_syntax

subsection \<open>The hash chain\<close>

type_synonym block_hash = "64 word"

definition FNV_OFFSET :: "64 word" where
  "FNV_OFFSET = 0xcbf29ce484222325"

definition FNV_PRIME :: "64 word" where
  "FNV_PRIME = 0x00000100000001b3"

definition to_le_bytes :: "64 word \<Rightarrow> 64 word list" where
  "to_le_bytes v = map (\<lambda>i. drop_bit (8 * i) v AND 255) [0..<8]"

definition fnv1a_byte :: "64 word \<Rightarrow> 64 word \<Rightarrow> 64 word" where
  "fnv1a_byte h byte = (h XOR byte) * FNV_PRIME"

definition fnv1a_u64 :: "64 word \<Rightarrow> 64 word \<Rightarrow> 64 word" where
  "fnv1a_u64 h v = foldl fnv1a_byte h (to_le_bytes v)"

definition hash_chunk :: "64 word \<Rightarrow> token_id list \<Rightarrow> 64 word" where
  "hash_chunk h chunk = foldl (\<lambda>h t. fnv1a_u64 h (ucast t)) h chunk"

function hash_chunks :: "nat \<Rightarrow> 64 word \<Rightarrow> token_id list \<Rightarrow> block_hash list" where
  "hash_chunks bs h tokens =
    (if bs = 0 \<or> length tokens < bs then []
     else let h' = hash_chunk h (take bs tokens) in h' # hash_chunks bs h' (drop bs tokens))"
  by pat_completeness auto
termination
  by (relation "measure (\<lambda>(bs, h, tokens). length tokens)") auto

declare hash_chunks.simps [simp del]

definition block_hashes :: "token_id list \<Rightarrow> nat \<Rightarrow> block_hash list" where
  "block_hashes tokens block_size = hash_chunks (max block_size 1) FNV_OFFSET tokens"

subsection \<open>The cache\<close>

record prefix_match =
  pm_num_tokens :: nat
  pm_blocks :: "block_id list"

definition empty_match :: prefix_match where
  "empty_match = \<lparr>pm_num_tokens = 0, pm_blocks = []\<rparr>"

record prefix_cache =
  pc_block_size :: nat
  by_hash :: "(block_hash, block_id) hmap"
  by_block :: "(block_id, block_hash) hmap"
  hits :: nat
  misses :: nat
  enabled :: bool

definition cache_new :: "nat \<Rightarrow> bool \<Rightarrow> prefix_cache" where
  "cache_new bs en = \<lparr>pc_block_size = bs, by_hash = [], by_block = [], hits = 0, misses = 0, enabled = en\<rparr>"

definition cache_len :: "prefix_cache \<Rightarrow> nat" where
  "cache_len c = length (by_hash c)"

definition hit_rate :: "prefix_cache \<Rightarrow> real" where
  "hit_rate c = (let t = hits c + misses c in if t = 0 then 0 else real (hits c) / real t)"

text \<open>The loop of \<open>lookup\<close>, over the reacquire operation of the store that owns the pages.\<close>

fun lookup_loop :: "('p \<Rightarrow> block_id \<Rightarrow> (bool \<times> 'p) option) \<Rightarrow> block_hash list \<Rightarrow>
    prefix_cache \<Rightarrow> 'p \<Rightarrow> prefix_match \<Rightarrow> (prefix_match \<times> prefix_cache \<times> 'p) option" where
  "lookup_loop reacq [] c p m = Some (m, c, p)"
| "lookup_loop reacq (h # hs) c p m =
     (case hm_get (by_hash c) h of
        None \<Rightarrow> Some (m, c\<lparr>misses := misses c + 1\<rparr>, p)
      | Some block \<Rightarrow>
          (case reacq p block of
             None \<Rightarrow> None
           | Some (True, p') \<Rightarrow>
               lookup_loop reacq hs (c\<lparr>hits := hits c + 1\<rparr>) p'
                 (m\<lparr>pm_blocks := pm_blocks m @ [block],
                    pm_num_tokens := pm_num_tokens m + pc_block_size c\<rparr>)
           | Some (False, p') \<Rightarrow>
               Some (m, c\<lparr>by_hash := hm_remove h (by_hash c), by_block := hm_remove block (by_block c),
                          misses := misses c + 1\<rparr>, p')))"

definition lookup :: "prefix_cache \<Rightarrow> token_id list \<Rightarrow> block_pool \<Rightarrow>
    (prefix_match \<times> prefix_cache \<times> block_pool) option" where
  "lookup c tokens p =
    (if \<not> enabled c
     then Some (empty_match, c\<lparr>misses := misses c + length tokens div max (pc_block_size c) 1\<rparr>, p)
     else lookup_loop reacquire (block_hashes tokens (pc_block_size c)) c p empty_match)"

definition insert_one :: "prefix_cache \<Rightarrow> block_hash \<times> block_id \<Rightarrow> prefix_cache" where
  "insert_one c hb =
    (let h = fst hb; b = snd hb; prev = hm_get (by_hash c) h;
         bb = (case prev of Some q \<Rightarrow> if q \<noteq> b then hm_remove q (by_block c) else by_block c
                | None \<Rightarrow> by_block c)
     in c\<lparr>by_hash := hm_insert h b (by_hash c), by_block := hm_insert b h bb\<rparr>)"

definition cache_insert :: "prefix_cache \<Rightarrow> token_id list \<Rightarrow> block_id list \<Rightarrow> prefix_cache" where
  "cache_insert c tokens blocks =
    (if \<not> enabled c then c
     else foldl insert_one c (zip (block_hashes tokens (pc_block_size c)) blocks))"

definition forget_one :: "prefix_cache \<Rightarrow> block_id \<Rightarrow> prefix_cache" where
  "forget_one c b =
    (case hm_get (by_block c) b of
       None \<Rightarrow> c
     | Some h \<Rightarrow> c\<lparr>by_block := hm_remove b (by_block c), by_hash := hm_remove h (by_hash c)\<rparr>)"

definition forget :: "prefix_cache \<Rightarrow> block_id list \<Rightarrow> prefix_cache" where
  "forget c blocks = foldl forget_one c blocks"

subsection \<open>The chain hashes whole prefixes\<close>

lemma hash_chunk_append: "hash_chunk h (xs @ ys) = hash_chunk (hash_chunk h xs) ys"
  by (simp add: hash_chunk_def)

lemma hash_chunks_length: "0 < bs \<Longrightarrow> length (hash_chunks bs h ts) = length ts div bs"
proof (induction bs h ts rule: hash_chunks.induct)
  case (1 bs h ts)
  show ?case
  proof (cases "length ts < bs")
    case True
    then show ?thesis using "1.prems" by (simp add: hash_chunks.simps [of bs h ts])
  next
    case False
    have "length ts div bs = Suc ((length ts - bs) div bs)"
      using False "1.prems" by (simp add: le_div_geq)
    then show ?thesis
      using "1.IH" [OF _ refl] False "1.prems" by (simp add: hash_chunks.simps [of bs h ts] Let_def)
  qed
qed

lemma hash_chunks_nth:
  "0 < bs \<Longrightarrow> i < length ts div bs \<Longrightarrow> hash_chunks bs h ts ! i = hash_chunk h (take (Suc i * bs) ts)"
proof (induction i arbitrary: h ts)
  case 0
  then have "\<not> length ts < bs" by (metis div_less not_less_zero)
  then show ?case using 0 by (simp add: hash_chunks.simps [of bs h ts] Let_def)
next
  case (Suc i)
  then have len: "\<not> length ts < bs" by (metis div_less not_less_zero)
  have "length ts div bs = Suc ((length ts - bs) div bs)"
    using len Suc.prems by (simp add: le_div_geq)
  then have "hash_chunks bs (hash_chunk h (take bs ts)) (drop bs ts) ! i
      = hash_chunk (hash_chunk h (take bs ts)) (take (Suc i * bs) (drop bs ts))"
    using Suc.IH Suc.prems by simp
  then show ?case
    using len Suc.prems take_add [of bs "Suc i * bs" ts]
    by (simp add: hash_chunks.simps [of bs h ts] Let_def hash_chunk_append [symmetric])
qed

subsection \<open>A step is injective in the running hash\<close>

lemma fnv_prime_mult_inj: "a * FNV_PRIME = b * FNV_PRIME \<Longrightarrow> a = b"
proof -
  assume eq: "a * FNV_PRIME = b * FNV_PRIME"
  have "FNV_PRIME * 0xce965057aff6957b = 1" by (simp add: FNV_PRIME_def)
  then have "\<And>x::64 word. x * FNV_PRIME * 0xce965057aff6957b = x"
    by (simp add: mult.assoc)
  then show ?thesis using eq by metis
qed

lemma fnv1a_byte_inj: "fnv1a_byte h b = fnv1a_byte h' b \<Longrightarrow> h = h'"
proof -
  assume "fnv1a_byte h b = fnv1a_byte h' b"
  then have "h XOR b = h' XOR b" unfolding fnv1a_byte_def by (rule fnv_prime_mult_inj)
  then have "(h XOR b) XOR b = (h' XOR b) XOR b" by simp
  then show ?thesis by (simp add: xor.assoc)
qed

lemma fnv1a_u64_inj: "fnv1a_u64 h v = fnv1a_u64 h' v \<Longrightarrow> h = h'"
proof -
  have "foldl fnv1a_byte h bs = foldl fnv1a_byte h' bs \<Longrightarrow> h = h'" for bs h h'
    by (induction bs arbitrary: h h') (auto dest: fnv1a_byte_inj)
  then show "fnv1a_u64 h v = fnv1a_u64 h' v \<Longrightarrow> h = h'" by (simp add: fnv1a_u64_def)
qed

lemma hash_chunk_inj: "hash_chunk h ts = hash_chunk h' ts \<Longrightarrow> h = h'"
proof (induction ts arbitrary: h h')
  case Nil
  then show ?case by (simp add: hash_chunk_def)
next
  case (Cons t ts)
  then show ?case by (auto simp: hash_chunk_def dest: fnv1a_u64_inj)
qed

subsection \<open>What a lookup needs of the page store\<close>

locale page_store =
  fixes reacq :: "'p \<Rightarrow> block_id \<Rightarrow> (bool \<times> 'p) option"
    and refs :: "'p \<Rightarrow> block_id \<Rightarrow> nat"
    and owns :: "'p \<Rightarrow> block_id \<Rightarrow> bool"
    and live :: "'p \<Rightarrow> block_id \<Rightarrow> bool"
    and valid :: "nat \<Rightarrow> 'p \<Rightarrow> bool"
  assumes valid_less: "valid (Suc n) p \<Longrightarrow> valid n p"
    and reacq_law: "valid (Suc n) p \<Longrightarrow> owns p b \<Longrightarrow>
      \<exists>p'. reacq p b = Some (live p b, p') \<and> valid n p'
        \<and> owns p' = owns p \<and> live p' = live p
        \<and> refs p' = (if live p b then (refs p)(b := refs p b + 1) else refs p)"
begin

lemma valid_zero: "valid n p \<Longrightarrow> valid 0 p"
  by (induction n) (auto dest: valid_less)

lemma lookup_loop_spec:
  assumes "valid (length hs) p" "\<forall>h b. hm_get (by_hash c) h = Some b \<longrightarrow> owns p b"
  shows "\<exists>m' c' p'. lookup_loop reacq hs c p m = Some (m', c', p') \<and> valid 0 p' \<and> owns p' = owns p
    \<and> live p' = live p
    \<and> (let good = takeWhile (\<lambda>h. \<exists>b. hm_get (by_hash c) h = Some b \<and> live p b) hs;
           bs = map (\<lambda>h. the (hm_get (by_hash c) h)) good
       in pm_blocks m' = pm_blocks m @ bs
        \<and> pm_num_tokens m' = pm_num_tokens m + length bs * pc_block_size c
        \<and> hits c' = hits c + length bs
        \<and> misses c' = misses c + (if length bs < length hs then 1 else 0)
        \<and> (\<forall>b. refs p' b = refs p b + count_list bs b))"
  using assms
proof (induction hs arbitrary: c p m)
  case Nil
  then show ?case by simp
next
  case (Cons h hs)
  show ?case
  proof (cases "hm_get (by_hash c) h")
    case None
    then show ?thesis using Cons.prems valid_zero [of "Suc (length hs)" p] by simp
  next
    case (Some b)
    then have "owns p b" using Cons.prems(2) by blast
    then obtain p1 where p1: "reacq p b = Some (live p b, p1)" "valid (length hs) p1" "owns p1 = owns p"
      "live p1 = live p" "refs p1 = (if live p b then (refs p)(b := refs p b + 1) else refs p)"
      using reacq_law Cons.prems(1) by (metis length_Cons)
    show ?thesis
    proof (cases "live p b")
      case False
      then show ?thesis using Some p1 valid_zero [OF p1(2)] by simp
    next
      case True
      let ?c = "c\<lparr>hits := hits c + 1\<rparr>"
      let ?m = "m\<lparr>pm_blocks := pm_blocks m @ [b], pm_num_tokens := pm_num_tokens m + pc_block_size c\<rparr>"
      have "\<forall>h b. hm_get (by_hash ?c) h = Some b \<longrightarrow> owns p1 b" using Cons.prems(2) p1(3) by simp
      from Cons.IH [OF p1(2) this, of ?m] obtain m' c' p' where
        "lookup_loop reacq hs ?c p1 ?m = Some (m', c', p')" "valid 0 p'" "owns p' = owns p1" "live p' = live p1"
        "let good = takeWhile (\<lambda>h. \<exists>b. hm_get (by_hash ?c) h = Some b \<and> live p1 b) hs;
             bs = map (\<lambda>h. the (hm_get (by_hash ?c) h)) good
         in pm_blocks m' = pm_blocks ?m @ bs
          \<and> pm_num_tokens m' = pm_num_tokens ?m + length bs * pc_block_size ?c
          \<and> hits c' = hits ?c + length bs
          \<and> misses c' = misses ?c + (if length bs < length hs then 1 else 0)
          \<and> (\<forall>b. refs p' b = refs p1 b + count_list bs b)"
        by blast
      then show ?thesis using Some True p1 by (simp add: Let_def)
    qed
  qed
qed

end

definition pool_refs :: "block_pool \<Rightarrow> block_id \<Rightarrow> nat" where
  "pool_refs p b = (if b < total p then refcount p ! b else 0)"

text \<open>Room for \<open>n\<close> more references to any page.\<close>

definition ref_room :: "nat \<Rightarrow> block_pool \<Rightarrow> bool" where
  "ref_room n p \<longleftrightarrow> (\<forall>b < total p. refcount p ! b + n < 2 ^ 32)"

interpretation pages: page_store reacquire pool_refs "\<lambda>p b. b < total p" "\<lambda>p b. b \<notin> set (free p)" "\<lambda>n p. pool_inv p \<and> ref_room n p"
proof
  fix p :: block_pool and b :: block_id and n :: nat
  show "pool_inv p \<and> ref_room (Suc n) p \<Longrightarrow> pool_inv p \<and> ref_room n p" by (auto simp: ref_room_def)
  assume inv: "pool_inv p \<and> ref_room (Suc n) p" and b: "b < total p"
  have one: "refcount p ! b + 1 < 2 ^ 32" using inv b by (auto simp: ref_room_def)
  obtain r p' where r: "reacquire p b = Some (r, p')" "pool_inv p'" "total p' = total p"
    "refcount p' = (if r then (refcount p)[b := refcount p ! b + 1] else refcount p)"
    "r \<longleftrightarrow> b \<notin> set (free p)"
    using reacquire_correct [OF conjunct1 [OF inv] b one] by blast
  have "ref_room n p'" using inv r(3,4) b by (auto simp: ref_room_def total_def nth_list_update split: if_splits)
  moreover have "free p' = free p" using r(1) by (auto simp: reacquire_def split: if_splits)
  moreover have "pool_refs p' = (if r then (pool_refs p)(b := pool_refs p b + 1) else pool_refs p)"
    using r(3,4) b by (auto simp: pool_refs_def total_def)
  ultimately show "\<exists>p'. reacquire p b = Some (b \<notin> set (free p), p') \<and> (pool_inv p' \<and> ref_room n p')
      \<and> (\<lambda>b. b < total p') = (\<lambda>b. b < total p) \<and> (\<lambda>b. b \<notin> set (free p')) = (\<lambda>b. b \<notin> set (free p))
      \<and> pool_refs p' = (if b \<notin> set (free p) then (pool_refs p)(b := pool_refs p b + 1) else pool_refs p)"
    using r by (intro exI [of _ p']) simp
qed

subsection \<open>The two maps are inverse to each other\<close>

definition cache_wf :: "prefix_cache \<Rightarrow> bool" where
  "cache_wf c \<longleftrightarrow> hm_wf (by_hash c) \<and> hm_wf (by_block c)
     \<and> (\<forall>(h, b) \<in> set (by_hash c). hm_get (by_block c) b = Some h)
     \<and> (\<forall>(b, h) \<in> set (by_block c). hm_get (by_hash c) h = Some b)"

lemma cache_wf_iff:
  "cache_wf c \<longleftrightarrow> hm_wf (by_hash c) \<and> hm_wf (by_block c)
     \<and> (\<forall>h b. hm_get (by_hash c) h = Some b \<longleftrightarrow> hm_get (by_block c) b = Some h)"
  unfolding cache_wf_def by (auto simp: map_of_eq_Some_iff split: prod.splits)

lemma cache_wf_new: "cache_wf (cache_new bs en)"
  by (simp add: cache_wf_def cache_new_def)

text \<open>Publishing keeps them inverse as long as a page is not already published under
  another hash.\<close>

lemma cache_wf_inj:
  "cache_wf c \<Longrightarrow> hm_get (by_block c) b = Some h \<Longrightarrow> hm_get (by_block c) b' = Some h \<Longrightarrow> b = b'"
  unfolding cache_wf_iff by (metis option.inject)

lemma insert_one_wf:
  assumes w: "cache_wf c" and nb: "hm_get (by_block c) b = None \<or> hm_get (by_block c) b = Some h"
  shows "cache_wf (insert_one c (h, b))"
proof -
  let ?H = "hm_get (by_hash c)" and ?B = "hm_get (by_block c)"
  let ?B' = "\<lambda>x. if x = b then Some h else if ?H h = Some x then None else ?B x"
  have W: "\<And>h b. ?H h = Some b \<longleftrightarrow> ?B b = Some h" and d: "hm_wf (by_hash c)" "hm_wf (by_block c)"
    using w by (auto simp: cache_wf_iff)
  have H': "hm_get (by_hash (insert_one c (h, b))) = ?H(h \<mapsto> b)"
    by (simp add: insert_one_def Let_def hm_simps)
  have B': "hm_get (by_block (insert_one c (h, b))) = ?B'"
    by (rule ext) (auto simp: insert_one_def Let_def hm_simps split: option.splits)
  have "(?H(h \<mapsto> b)) x = Some y \<longleftrightarrow> ?B' y = Some x" for x y
    using W [of x y] W [of h y] nb by (cases "x = h"; cases "y = b") auto
  moreover have "hm_wf (by_hash (insert_one c (h, b)))" "hm_wf (by_block (insert_one c (h, b)))"
    using d by (auto simp: insert_one_def Let_def split: option.splits)
  ultimately show ?thesis unfolding cache_wf_iff H' B' by blast
qed

lemma forget_one_wf: "cache_wf c \<Longrightarrow> cache_wf (forget_one c b)"
  using cache_wf_inj [of c b] unfolding cache_wf_iff forget_one_def
  by (auto simp: hm_simps split: option.splits; blast)

lemma forget_one_gone: "cache_wf c \<Longrightarrow> hm_get (by_hash (forget_one c b)) h \<noteq> Some b"
  unfolding cache_wf_iff forget_one_def by (auto simp: hm_simps split: option.splits)

lemma forget_one_other:
  "cache_wf c \<Longrightarrow> b' \<noteq> b \<Longrightarrow> hm_get (by_hash (forget_one c b)) h = Some b' \<longleftrightarrow> hm_get (by_hash c) h = Some b'"
  using cache_wf_inj [of c b h b'] unfolding cache_wf_iff forget_one_def
  by (auto simp: hm_simps split: option.splits)

lemma forget_spec:
  "cache_wf c \<Longrightarrow> cache_wf (forget c bs)
     \<and> (\<forall>h b. hm_get (by_hash (forget c bs)) h = Some b \<longleftrightarrow> hm_get (by_hash c) h = Some b \<and> b \<notin> set bs)"
proof (induction bs arbitrary: c)
  case Nil
  then show ?case by (simp add: forget_def)
next
  case (Cons x bs)
  have w: "cache_wf (forget_one c x)" using Cons.prems by (rule forget_one_wf)
  have "forget c (x # bs) = forget (forget_one c x) bs" by (simp add: forget_def)
  then show ?case
    using Cons.IH [OF w] forget_one_gone [OF Cons.prems, of x] forget_one_other [OF Cons.prems, of _ x]
    by (metis list.set_intros(1) set_ConsD list.set_intros(2))
qed

text \<open>Publishing distinct hashes makes each of them resolve to its page.\<close>

lemma insert_one_get: "hm_get (by_hash (insert_one c (h, b))) = (hm_get (by_hash c))(h \<mapsto> b)"
  by (simp add: insert_one_def Let_def hm_simps)

lemma insert_all_get:
  "distinct hs \<Longrightarrow> length hs \<le> length bs \<Longrightarrow>
   hm_get (by_hash (foldl insert_one c (zip hs bs))) h =
     (if h \<in> set hs then map_of (zip hs bs) h else hm_get (by_hash c) h)"
proof (induction hs arbitrary: c bs)
  case Nil
  then show ?case by simp
next
  case (Cons x hs)
  then obtain y ys where "bs = y # ys" by (cases bs) auto
  then show ?case using Cons by (auto simp: insert_one_get)
qed

lemma insert_one_frame [simp]:
  "pc_block_size (insert_one c hb) = pc_block_size c" "enabled (insert_one c hb) = enabled c"
  "hits (insert_one c hb) = hits c" "misses (insert_one c hb) = misses c"
  by (simp_all add: insert_one_def Let_def)

lemma insert_all_frame [simp]:
  "pc_block_size (foldl insert_one c hbs) = pc_block_size c" "enabled (foldl insert_one c hbs) = enabled c"
  by (induction hbs arbitrary: c) simp_all

lemma lookup_spec:
  assumes "enabled c" "pool_inv p" "\<forall>h b. hm_get (by_hash c) h = Some b \<longrightarrow> b < total p"
    "ref_room (length (block_hashes ts (pc_block_size c))) p"
  shows "\<exists>m c' p'. lookup c ts p = Some (m, c', p') \<and> pool_inv p' \<and> total p' = total p
    \<and> (let hs = block_hashes ts (pc_block_size c);
           good = takeWhile (\<lambda>h. \<exists>b. hm_get (by_hash c) h = Some b \<and> b \<notin> set (free p)) hs;
           bs = map (\<lambda>h. the (hm_get (by_hash c) h)) good
       in pm_blocks m = bs \<and> pm_num_tokens m = length bs * pc_block_size c
        \<and> hits c' = hits c + length bs
        \<and> misses c' = misses c + (if length bs < length hs then 1 else 0)
        \<and> (\<forall>b < total p. refcount p' ! b = refcount p ! b + count_list bs b))"
proof -
  from pages.lookup_loop_spec [OF conjI [OF assms(2,4)] assms(3), of empty_match]
  obtain m c' p' where
    l: "lookup_loop reacquire (block_hashes ts (pc_block_size c)) c p empty_match = Some (m, c', p')" "pool_inv p' \<and> ref_room 0 p'"
    and t: "(\<lambda>b. b < total p') = (\<lambda>b. b < total p)"
    and q: "let good = takeWhile (\<lambda>h. \<exists>b. hm_get (by_hash c) h = Some b \<and> b \<notin> set (free p))
          (block_hashes ts (pc_block_size c));
         bs = map (\<lambda>h. the (hm_get (by_hash c) h)) good
       in pm_blocks m = pm_blocks empty_match @ bs
        \<and> pm_num_tokens m = pm_num_tokens empty_match + length bs * pc_block_size c
        \<and> hits c' = hits c + length bs
        \<and> misses c' = misses c + (if length bs < length (block_hashes ts (pc_block_size c)) then 1 else 0)
        \<and> (\<forall>b. pool_refs p' b = pool_refs p b + count_list bs b)"
    by blast
  define bs where "bs = map (\<lambda>h. the (hm_get (by_hash c) h))
    (takeWhile (\<lambda>h. \<exists>b. hm_get (by_hash c) h = Some b \<and> b \<notin> set (free p)) (block_hashes ts (pc_block_size c)))"
  have q': "\<forall>b. pool_refs p' b = pool_refs p b + count_list bs b" using q unfolding Let_def bs_def by blast
  have "\<forall>b < total p. refcount p' ! b = refcount p ! b + count_list bs b"
  proof (intro allI impI)
    fix b assume "b < total p"
    then show "refcount p' ! b = refcount p ! b + count_list bs b"
      using fun_cong [OF t, of b] spec [OF q', of b] by (simp add: pool_refs_def)
  qed
  moreover have "total p' = total p" using fun_cong [OF t] by (metis nat_neq_iff)
  ultimately show ?thesis
    using q l assms(1) unfolding Let_def bs_def [symmetric] by (auto simp: lookup_def empty_match_def)
qed

subsection \<open>Disciplined use\<close>

text \<open>The state is the cache, the pool, the references its callers hold and, as a ghost, what every page was last filled with: the hash of
  a prompt up to the end of the block. An owner forgets the pages it allocates, fills pages that it holds and that are not published, and
  publishes pages under what they hold. Sharing, releasing, evicting, looking up and forgetting are unrestricted, up to the 32-bit counts.\<close>

type_synonym cache_state = "prefix_cache \<times> block_pool \<times> block_id multiset \<times> (block_id \<rightharpoonup> block_hash)"

inductive cache_step :: "cache_state \<Rightarrow> cache_state \<Rightarrow> bool" where
  cs_alloc: "alloc p n = Some (Inr (bs, p')) \<Longrightarrow> cache_step (c, p, h, k) (forget c bs, p', h + mset bs, k |` (- set bs))"
| cs_fill: "b \<in># h \<Longrightarrow> hm_get (by_block c) b = None \<Longrightarrow> cache_step (c, p, h, k) (c, p, h, k(b \<mapsto> x))"
| cs_publish: "\<forall>(x, b) \<in> set (zip (block_hashes ts (pc_block_size c)) bs). b < total p \<and> k b = Some x \<Longrightarrow>
    cache_step (c, p, h, k) (cache_insert c ts bs, p, h, k)"
| cs_lookup: "ref_room (length (block_hashes ts (pc_block_size c))) p \<Longrightarrow> lookup c ts p = Some (m, c', p') \<Longrightarrow>
    cache_step (c, p, h, k) (c', p', h + mset (pm_blocks m), k)"
| cs_incref: "set bs \<subseteq> set_mset h \<Longrightarrow> \<forall>b. count h b + count_list bs b < 2 ^ 32 \<Longrightarrow> incref p bs = Some p' \<Longrightarrow>
    cache_step (c, p, h, k) (c, p', h + mset bs, k)"
| cs_release: "mset bs \<subseteq># h \<Longrightarrow> release p bs = Some p' \<Longrightarrow> cache_step (c, p, h, k) (c, p', h - mset bs, k)"
| cs_release_to_cache: "mset bs \<subseteq># h \<Longrightarrow> release_to_cache p bs = Some p' \<Longrightarrow> cache_step (c, p, h, k) (c, p', h - mset bs, k)"
| cs_evict: "evict_cached n p = (bs, p') \<Longrightarrow> cache_step (c, p, h, k) (c, p', h, k)"
| cs_forget: "cache_step (c, p, h, k) (forget c bs, p, h, k)"

definition index_ok :: "nat \<Rightarrow> (block_id \<rightharpoonup> block_hash) \<Rightarrow> prefix_cache \<Rightarrow> bool" where
  "index_ok n k c \<longleftrightarrow> cache_wf c \<and> (\<forall>x b. hm_get (by_hash c) x = Some b \<longrightarrow> b < n \<and> k b = Some x)"

fun cache_sys_inv :: "nat \<Rightarrow> nat \<Rightarrow> cache_state \<Rightarrow> bool" where
  "cache_sys_inv n bsz (c, p, h, k) \<longleftrightarrow> enabled c \<and> pc_block_size c = bsz \<and> index_ok n k c \<and> pool_sys_inv (p, h) \<and> total p = n"

lemma forget_index_frame [simp]:
  "pc_block_size (forget c bs) = pc_block_size c" "enabled (forget c bs) = enabled c"
  by (induction bs arbitrary: c) (simp_all add: forget_def forget_one_def split: option.splits)

lemma insert_one_index_ok:
  assumes "index_ok n k c" "b < n" "k b = Some x"
  shows "index_ok n k (insert_one c (x, b))"
proof -
  have "hm_get (by_block c) b = None \<or> hm_get (by_block c) b = Some x"
    using assms unfolding index_ok_def cache_wf_iff by (metis option.exhaust option.inject)
  then show ?thesis using assms insert_one_wf unfolding index_ok_def by (auto simp: insert_one_get)
qed

lemma insert_all_index_ok:
  "index_ok n k c \<Longrightarrow> \<forall>(x, b) \<in> set hbs. b < n \<and> k b = Some x \<Longrightarrow> index_ok n k (foldl insert_one c hbs)"
  by (induction hbs arbitrary: c) (auto intro: insert_one_index_ok)

text \<open>A lookup changes the index by at most one entry, which it drops from both maps.\<close>

lemma lookup_loop_cache:
  assumes "lookup_loop reacq hs c p m = Some (m', c', p')" "cache_wf c"
  shows "cache_wf c' \<and> enabled c' = enabled c \<and> pc_block_size c' = pc_block_size c
    \<and> (\<forall>x b. hm_get (by_hash c') x = Some b \<longrightarrow> hm_get (by_hash c) x = Some b)"
  using assms
proof (induction reacq hs c p m arbitrary: m' c' p' rule: lookup_loop.induct)
  case (2 reacq h hs c p m)
  have same: "cache_wf (c\<lparr>hits := x\<rparr>)" "cache_wf (c\<lparr>misses := x\<rparr>)" for x using "2.prems"(2) by (simp_all add: cache_wf_def)
  show ?case
  proof (cases "hm_get (by_hash c) h")
    case None
    then show ?thesis using "2.prems" same by auto
  next
    case (Some b)
    then obtain r q where r: "reacq p b = Some (r, q)" using "2.prems"(1) by (cases "reacq p b") auto
    show ?thesis
    proof (cases r)
      case True
      let ?c = "c\<lparr>hits := hits c + 1\<rparr>"
      have "lookup_loop reacq hs ?c q (m\<lparr>pm_blocks := pm_blocks m @ [b], pm_num_tokens := pm_num_tokens m + pc_block_size c\<rparr>) = Some (m', c', p')"
        using "2.prems"(1) Some r True by simp
      from "2.IH" [OF Some r refl _ this] True same(1) show ?thesis by simp
    next
      case False
      have bb: "hm_get (by_block c) b = Some h" using Some "2.prems"(2) by (simp add: cache_wf_iff)
      have c': "c' = (forget_one c b)\<lparr>misses := misses c + 1\<rparr>"
        using "2.prems"(1) Some r False bb by (intro prefix_cache.equality) (auto simp: forget_one_def)
      have "cache_wf (forget_one c b)" by (rule forget_one_wf [OF "2.prems"(2)])
      moreover have "hm_get (by_hash c) x = Some b'" if "hm_get (by_hash (forget_one c b)) x = Some b'" for x b'
        using that forget_one_gone [OF "2.prems"(2), of b x] forget_one_other [OF "2.prems"(2), of b' b x] by (cases "b' = b") auto
      ultimately show ?thesis unfolding c' using bb by (auto simp: cache_wf_def forget_one_def)
    qed
  qed
qed simp

lemma lookup_frame:
  assumes "enabled c" "pool_sys_inv (p, h)" "\<forall>x b. hm_get (by_hash c) x = Some b \<longrightarrow> b < total p"
    "ref_room (length (block_hashes ts (pc_block_size c))) p" "lookup c ts p = Some (m, c', p')"
  shows "pool_sys_inv (p', h + mset (pm_blocks m))" "total p' = total p"
proof -
  define bs where "bs = map (\<lambda>x. the (hm_get (by_hash c) x))
    (takeWhile (\<lambda>x. \<exists>b. hm_get (by_hash c) x = Some b \<and> b \<notin> set (free p)) (block_hashes ts (pc_block_size c)))"
  have inv: "pool_inv p" "refs_match (p, h)" using assms(2) by (auto simp: pool_sys_inv_def)
  have l: "pool_inv p'" "total p' = total p" "pm_blocks m = bs" "\<forall>b < total p. refcount p' ! b = refcount p ! b + count_list bs b"
    using lookup_spec [OF assms(1) inv(1) assms(3,4)] assms(5) unfolding Let_def bs_def [symmetric] by auto
  have "b < total p" if "b \<in> set bs" for b using that assms(3) unfolding bs_def by (auto dest!: set_takeWhileD)
  then have "count_list bs b = 0" if "\<not> b < total p" for b using that by (simp add: count_list_0_iff) blast
  then have "refs_match (p', h + mset bs)" using inv(2) l(2,4) by (auto simp: refs_match_def count_mset)
  then show "pool_sys_inv (p', h + mset (pm_blocks m))" using l(1,3) by (simp add: pool_sys_inv_def)
  show "total p' = total p" by (rule l(2))
qed

lemma pool_ops_total:
  "incref p bs = Some p' \<Longrightarrow> total p' = total p"
  "release p bs = Some p' \<Longrightarrow> total p' = total p"
  "release_to_cache p bs = Some p' \<Longrightarrow> total p' = total p"
  "alloc_loop n p out = Some (bs, p') \<Longrightarrow> total p' = total p"
  "evict_cached n p = (bs, p') \<Longrightarrow> total p' = total p"
proof -
  show "incref p bs = Some p' \<Longrightarrow> total p' = total p"
    by (induction p bs rule: incref.induct) (auto simp: total_def split: if_splits)
  show "release p bs = Some p' \<Longrightarrow> total p' = total p"
    by (induction bs arbitrary: p) (auto simp: total_def drop_ref_def Let_def split: option.splits if_splits)
  show "release_to_cache p bs = Some p' \<Longrightarrow> total p' = total p"
    by (induction bs arbitrary: p) (auto simp: total_def drop_ref_def Let_def split: option.splits if_splits)
  show "alloc_loop n p out = Some (bs, p') \<Longrightarrow> total p' = total p"
    by (induction n arbitrary: p out) (auto simp: total_def take_block_def split: option.splits if_splits list.splits)
  show "evict_cached n p = (bs, p') \<Longrightarrow> total p' = total p"
    by (induction n arbitrary: p bs p') (auto simp: total_def split: list.splits prod.splits)
qed

lemma cache_step_inv:
  assumes "cache_step s t" "cache_sys_inv n bsz s"
  shows "cache_sys_inv n bsz t"
  using assms
proof (induction rule: cache_step.induct)
  case (cs_alloc p m bs p' c h k)
  then have "index_ok n (k |` (- set bs)) (forget c bs)"
    using forget_spec [of c bs] by (auto simp: index_ok_def)
  moreover have "total p' = total p" using cs_alloc(1) by (auto simp: alloc_def pool_ops_total(4) split: if_splits)
  ultimately show ?case using cs_alloc pool_step_inv [OF _ step_alloc] by auto
next
  case (cs_fill b h c k p x)
  have "hm_get (by_hash c) y \<noteq> Some b" for y using cs_fill by (auto simp: index_ok_def cache_wf_iff)
  then show ?case using cs_fill by (auto simp: index_ok_def)
next
  case (cs_publish ts c bs p k h)
  then show ?case using insert_all_index_ok [of n k c "zip (block_hashes ts (pc_block_size c)) bs"] by (auto simp: cache_insert_def)
next
  case (cs_lookup ts c p m c' p' h k)
  have own: "\<forall>x b. hm_get (by_hash c) x = Some b \<longrightarrow> b < total p" using cs_lookup by (auto simp: index_ok_def)
  have l: "lookup_loop reacquire (block_hashes ts (pc_block_size c)) c p empty_match = Some (m, c', p')"
    using cs_lookup by (simp add: lookup_def)
  have "cache_wf c" using cs_lookup by (simp add: index_ok_def)
  note c' = lookup_loop_cache [OF l this]
  have "index_ok n k c'" using c' cs_lookup(3) unfolding index_ok_def cache_sys_inv.simps by blast
  then show ?case using c' lookup_frame [OF _ _ own cs_lookup(1,2)] cs_lookup(3) by auto
next
  case (cs_incref bs h p p' c k)
  then show ?case using pool_step_inv [OF _ step_incref] pool_ops_total(1) by auto
next
  case (cs_release bs h p p' c k)
  then show ?case using pool_step_inv [OF _ step_release] pool_ops_total(2) by auto
next
  case (cs_release_to_cache bs h p p' c k)
  then show ?case using pool_step_inv [OF _ step_release_to_cache] pool_ops_total(3) by auto
next
  case (cs_evict m p bs p' c h k)
  then show ?case using pool_step_inv [OF _ step_evict] pool_ops_total(5) by auto
next
  case (cs_forget c p h k bs)
  then show ?case using forget_spec [of c bs] by (auto simp: index_ok_def)
qed

definition cache_start :: "nat \<Rightarrow> nat \<Rightarrow> real \<Rightarrow> cache_state" where
  "cache_start n bsz wm = (cache_new bsz True, pool_new n bsz wm, {#}, Map.empty)"

interpretation cache_sys: invariant_system "\<lambda>s. \<exists>wm. s = cache_start n bsz wm" cache_step "cache_sys_inv n bsz" for n bsz
proof
  fix s assume "\<exists>wm. s = cache_start n bsz wm"
  then obtain wm where s: "s = cache_start n bsz wm" by blast
  have "pool_sys_inv (pool_new n bsz wm, {#})" by (rule pool_sys.init_inv) blast
  then show "cache_sys_inv n bsz s" using cache_wf_new [of bsz True]
    by (simp add: s cache_start_def index_ok_def cache_new_def pool_new_def total_def)
qed (rule cache_step_inv)

subsection \<open>Properties\<close>

text \<open>The hash chain covers whole prefixes. There is one hash per complete block, and
  the hash of block \<open>i\<close> is the FNV-1a hash of all tokens up to and including that block.\<close>

theorem block_hashes_cover_prefixes:
  "length (block_hashes ts bs) = length ts div max bs 1 \<and>
   (\<forall>i < length (block_hashes ts bs).
      block_hashes ts bs ! i = hash_chunk FNV_OFFSET (take (Suc i * max bs 1) ts))"
  by (simp add: block_hashes_def hash_chunks_length hash_chunks_nth del: mult_Suc)

theorem block_hashes_cover_prefixes_witness:
  "block_hashes [1, 2, 3, 4, 5, 6, 7, 8, 9] 4 ! 1 = hash_chunk FNV_OFFSET [1, 2, 3, 4, 5, 6, 7, 8]"
  using block_hashes_cover_prefixes [of "[1, 2, 3, 4, 5, 6, 7, 8, 9]" 4] by simp

text \<open>Identical block content after different prefixes never shares a hash: if the
  chains of two sequences differ at some block, they differ after any common continuation.\<close>

theorem chained_blocks_differ:
  assumes "hash_chunk FNV_OFFSET xs \<noteq> hash_chunk FNV_OFFSET ys"
  shows "hash_chunk FNV_OFFSET (xs @ zs) \<noteq> hash_chunk FNV_OFFSET (ys @ zs)"
  using assms hash_chunk_inj by (metis hash_chunk_append)

theorem chained_blocks_differ_witness:
  "hash_chunk FNV_OFFSET ([0] @ [7]) \<noteq> hash_chunk FNV_OFFSET ([1] @ [7])"
proof -
  have "hash_chunk FNV_OFFSET [0] \<noteq> hash_chunk FNV_OFFSET [1]"
    by code_simp
  then show ?thesis by (rule chained_blocks_differ)
qed

text \<open>C20. Under an owner that forgets the pages it reallocates, a lookup hands back the longest cached prefix and only pages that hold it. In every
  state reached from a new pool and an enabled cache (\<open>cache_step\<close>), and while the 32-bit reference counts have room, \<open>lookup\<close> does not
  panic; it returns the pages of the longest prefix of blocks that are recorded and not yet given back to the free list; each page it
  returns still holds the block that the prompt asks for; it takes exactly one reference on every page it
  returns and none on any other, and counts one hit per returned block and one miss if it stopped early. The discipline
  is needed: the comment in \<open>lookup\<close> says that a page the pool has given away is dropped, but \<open>reacquire\<close> notices only pages on
  the free list, so without \<open>forget\<close> a page that belongs to another sequence counts as a hit (\<open>reclaimed_page_is_a_hit\<close>).\<close>

theorem lookup_longest_live_prefix:
  assumes "cache_step\<^sup>*\<^sup>* (cache_start n bsz wm) (c, p, h, k)" "ref_room (length (block_hashes ts bsz)) p"
  shows "\<exists>m c' p'. lookup c ts p = Some (m, c', p') \<and> pool_inv p'
    \<and> (let hs = block_hashes ts bsz;
           good = takeWhile (\<lambda>x. \<exists>b. hm_get (by_hash c) x = Some b \<and> b \<notin> set (free p)) hs;
           bs = map (\<lambda>x. the (hm_get (by_hash c) x)) good
       in pm_blocks m = bs \<and> map k bs = map Some good \<and> pm_num_tokens m = length bs * bsz
        \<and> hits c' = hits c + length bs
        \<and> misses c' = misses c + (if length bs < length hs then 1 else 0)
        \<and> (\<forall>b < total p. refcount p' ! b = refcount p ! b + count_list bs b))"
proof -
  have "cache_sys_inv n bsz (c, p, h, k)" using cache_sys.reachable_inv [OF _ assms(1)] by blast
  then have inv: "enabled c" "pc_block_size c = bsz" "pool_inv p" "total p = n" "index_ok n k c" by (auto simp: pool_sys_inv_def)
  have own: "\<forall>x b. hm_get (by_hash c) x = Some b \<longrightarrow> b < total p" using inv(4,5) by (auto simp: index_ok_def)
  let ?good = "takeWhile (\<lambda>x. \<exists>b. hm_get (by_hash c) x = Some b \<and> b \<notin> set (free p)) (block_hashes ts bsz)"
  have "\<forall>x \<in> set ?good. k (the (hm_get (by_hash c) x)) = Some x"
    using inv(5) by (auto simp: index_ok_def dest!: set_takeWhileD)
  then have held: "map k (map (\<lambda>x. the (hm_get (by_hash c) x)) ?good) = map Some ?good" by simp
  show ?thesis using lookup_spec [OF inv(1,3) own, of ts] assms(2) unfolding inv(2) Let_def held by blast
qed

text \<open>Two pages are allocated, filled with the two blocks of a prompt, published and released to the cache; a longer prompt then finds both.\<close>

definition filled_state :: "cache_state" where
  "filled_state = (cache_insert (cache_new 1 True) [7, 8] [0, 1],
     \<lparr>bp_block_size = 1, refcount = [0, 0], free = [], cached = [0, 1], watermark = 0\<rparr>, {#},
     [0 \<mapsto> block_hashes [7, 8] 1 ! 0, 1 \<mapsto> block_hashes [7, 8] 1 ! 1])"

lemma filled_state_reached: "cache_step\<^sup>*\<^sup>* (cache_start 2 1 0) filled_state"
proof -
  obtain x y where bh: "block_hashes [7, 8] 1 = [x, y]" by (simp add: block_hashes_def hash_chunks.simps Let_def)
  let ?h = "{#} + mset [0, 1 :: block_id]" and ?x = x and ?y = y
  let ?p = "\<lparr>bp_block_size = 1, refcount = [1, 1], free = [], cached = [], watermark = 0\<rparr>"
  let ?q = "\<lparr>bp_block_size = 1, refcount = [0, 0], free = [], cached = [0, 1], watermark = 0\<rparr>"
  have a: "alloc (pool_new 2 1 0) 2 = Some (Inr ([0, 1], ?p))"
    by (simp add: alloc_def available_def pool_new_def take_block_def clamp_def numeral_2_eq_2)
  have f: "forget (cache_new 1 True) [0, 1] = cache_new 1 True" by (simp add: forget_def forget_one_def cache_new_def)
  have "cache_step (cache_start 2 1 0) (cache_new 1 True, ?p, ?h, Map.empty)"
    using cs_alloc [OF a, of "cache_new 1 True" "{#}" Map.empty] unfolding f cache_start_def by simp
  moreover have "cache_step (cache_new 1 True, ?p, ?h, Map.empty) (cache_new 1 True, ?p, ?h, [0 \<mapsto> ?x])"
    by (rule cs_fill) (simp_all add: cache_new_def)
  moreover have "cache_step (cache_new 1 True, ?p, ?h, [0 \<mapsto> ?x]) (cache_new 1 True, ?p, ?h, [0 \<mapsto> ?x, 1 \<mapsto> ?y])"
    by (rule cs_fill) (simp_all add: cache_new_def)
  moreover have "cache_step (cache_new 1 True, ?p, ?h, [0 \<mapsto> ?x, 1 \<mapsto> ?y]) (cache_insert (cache_new 1 True) [7, 8] [0, 1], ?p, ?h, [0 \<mapsto> ?x, 1 \<mapsto> ?y])"
  proof (rule cs_publish)
    have "zip (block_hashes [7, 8] (pc_block_size (cache_new 1 True))) [0, 1] = [(x, 0), (y, 1 :: block_id)]"
      using bh by (simp del: One_nat_def add: cache_new_def)
    then show "\<forall>(v, b) \<in> set (zip (block_hashes [7, 8] (pc_block_size (cache_new 1 True))) [0, 1]). b < total ?p \<and> [0 \<mapsto> x, 1 \<mapsto> y] b = Some v"
      by (simp add: total_def)
  qed
  moreover have "release_to_cache ?p [0, 1] = Some ?q" by (simp add: drop_ref_def Let_def)
  then have "cache_step (cache_insert (cache_new 1 True) [7, 8] [0, 1], ?p, ?h, [0 \<mapsto> ?x, 1 \<mapsto> ?y]) filled_state"
    using cs_release_to_cache [of "[0, 1]" ?h ?p ?q] by (simp del: One_nat_def add: filled_state_def bh)
  ultimately show ?thesis by (meson rtranclp.rtrancl_into_rtrancl rtranclp.rtrancl_refl)
qed

theorem lookup_longest_live_prefix_witness:
  "\<exists>m c' p'. lookup (fst filled_state) [7, 8, 9] (fst (snd filled_state)) = Some (m, c', p')
     \<and> pm_blocks m = [0, 1] \<and> pm_num_tokens m = 2 \<and> refcount p' ! 0 = 1"
proof -
  let ?c = "fst filled_state" and ?p = "fst (snd filled_state)" and ?k = "snd (snd (snd filled_state))"
  have r: "cache_step\<^sup>*\<^sup>* (cache_start 2 1 0) (?c, ?p, {#}, ?k)" using filled_state_reached by (simp add: filled_state_def)
  have room: "ref_room (length (block_hashes [7, 8, 9] 1)) ?p"
  proof -
    have "refcount ?p = replicate 2 0" by (simp add: filled_state_def numeral_2_eq_2)
    then show ?thesis by (simp add: ref_room_def total_def block_hashes_def hash_chunks_length)
  qed
  have d: "distinct (block_hashes [7, 8, 9] 1)" by code_simp
  obtain x y z where h: "block_hashes [7, 8, 9] 1 = [x, y, z]" "block_hashes [7, 8] 1 = [x, y]"
    by (simp add: block_hashes_def hash_chunks.simps Let_def)
  have get: "hm_get (by_hash ?c) v = (if v = y then Some 1 else if v = x then Some 0 else None)" for v
    using d by (simp del: One_nat_def add: filled_state_def cache_insert_def cache_new_def h insert_one_get)
  have tw: "takeWhile (\<lambda>v. \<exists>b. hm_get (by_hash ?c) v = Some b \<and> b \<notin> set (free ?p)) [x, y, z] = [x, y]"
  proof -
    have "free ?p = []" by (simp add: filled_state_def)
    then show ?thesis using d unfolding h by (auto simp del: One_nat_def simp: get)
  qed
  from lookup_longest_live_prefix [OF r room]
  obtain m c' p' where "lookup ?c [7, 8, 9] ?p = Some (m, c', p')" "pm_blocks m = [0, 1]" "pm_num_tokens m = 2"
    "\<forall>b < total ?p. refcount p' ! b = refcount ?p ! b + count_list [0, 1] b"
    using d unfolding h Let_def tw by (auto simp del: One_nat_def simp: get h)
  then show ?thesis by (intro exI [of _ m] exI [of _ c'] exI [of _ p']) (simp add: filled_state_def total_def)
qed

text \<open>C36. Round trip. In an enabled cache, after publishing the complete blocks of a prompt under pairwise
  distinct hashes, with one page per block and no page on the free list, a lookup of that
  prompt (which takes as many references as there are blocks, the counts having room for them) returns exactly those pages and counts every block as a hit.\<close>

theorem insert_lookup_round_trip:
  assumes "enabled c" "pool_inv p" "\<forall>h b. hm_get (by_hash c) h = Some b \<longrightarrow> b < total p"
    and d: "distinct (block_hashes ts (pc_block_size c))"
    and l: "length bs = length (block_hashes ts (pc_block_size c))"
    and b: "\<forall>b \<in> set bs. b < total p \<and> b \<notin> set (free p)" and room: "ref_room (length bs) p"
  shows "\<exists>m c' p'. lookup (cache_insert c ts bs) ts p = Some (m, c', p')
    \<and> pm_blocks m = bs \<and> pm_num_tokens m = length bs * pc_block_size c
    \<and> misses c' = misses (cache_insert c ts bs)"
proof -
  let ?hs = "block_hashes ts (pc_block_size c)"
  let ?c = "cache_insert c ts bs"
  have c: "?c = foldl insert_one c (zip ?hs bs)" "enabled ?c" "pc_block_size ?c = pc_block_size c"
    using assms(1) by (simp_all add: cache_insert_def)
  have get: "hm_get (by_hash ?c) h = (if h \<in> set ?hs then map_of (zip ?hs bs) h else hm_get (by_hash c) h)" for h
    unfolding c(1) by (rule insert_all_get [OF d]) (simp add: l)
  have own: "\<forall>h b. hm_get (by_hash ?c) h = Some b \<longrightarrow> b < total p"
    using assms(3) b unfolding get by (auto dest!: map_of_SomeD set_zip_rightD split: if_splits)
  have hit: "hm_get (by_hash ?c) (?hs ! i) = Some (bs ! i)" if "i < length ?hs" for i
    using that d l unfolding get by (simp add: map_of_zip_nth)
  have tw: "takeWhile (\<lambda>h. \<exists>b. hm_get (by_hash ?c) h = Some b \<and> b \<notin> set (free p)) ?hs = ?hs"
  proof (rule takeWhile_eq_all_conv [THEN iffD2], rule ballI)
    fix h assume "h \<in> set ?hs"
    then obtain i where i: "i < length ?hs" "h = ?hs ! i" by (metis in_set_conv_nth)
    then have "bs ! i \<notin> set (free p)" using b l by (simp add: nth_mem)
    then show "\<exists>b. hm_get (by_hash ?c) h = Some b \<and> b \<notin> set (free p)" using hit i by blast
  qed
  have bs: "map (\<lambda>h. the (hm_get (by_hash ?c) h)) ?hs = bs"
    using hit l by (intro nth_equalityI) auto
  from lookup_spec [OF c(2) assms(2) own, of ts] room show ?thesis
    unfolding c(3) Let_def tw bs l by auto
qed

theorem insert_lookup_round_trip_witness:
  "\<exists>m c' p'. lookup (cache_insert (cache_new 2 True) [1, 2, 3, 4] [1, 0]) [1, 2, 3, 4]
       (pool_new 2 2 0\<lparr>free := [], cached := [1, 0]\<rparr>) = Some (m, c', p')
     \<and> pm_blocks m = [1, 0] \<and> pm_num_tokens m = 4"
proof -
  let ?c = "cache_new 2 True" and ?p = "pool_new 2 2 0\<lparr>free := [], cached := [1, 0]\<rparr>"
  have en: "enabled ?c" and bs: "pc_block_size ?c = 2" and e: "by_hash ?c = []"
    by (simp_all add: cache_new_def)
  have inv: "pool_inv ?p" by (rule pool_invI) (auto simp: pool_new_def total_def less_Suc_eq numeral_2_eq_2)
  have t: "total ?p = 2" by (simp add: pool_new_def total_def)
  have own: "\<forall>h b. hm_get (by_hash ?c) h = Some b \<longrightarrow> b < total ?p" by (simp add: e)
  have d: "distinct (block_hashes [1, 2, 3, 4] (pc_block_size ?c))"
    unfolding bs by code_simp
  have l: "length [1, 0] = length (block_hashes [1, 2, 3, 4] (pc_block_size ?c))"
    unfolding bs by code_simp
  have b: "\<forall>b \<in> set [1, 0 :: block_id]. b < total ?p \<and> b \<notin> set (free ?p)" unfolding t by simp
  have room: "ref_room (length [1, 0 :: block_id]) ?p"
    by (simp add: ref_room_def pool_new_def total_def)
  from insert_lookup_round_trip [OF en inv own d l b room] show ?thesis unfolding bs by auto
qed

text \<open>Forgetting pages removes exactly their entries: afterwards no hash resolves to a
  forgotten page, every other entry is untouched, and the two maps stay inverse.\<close>

theorem forget_removes_exactly:
  assumes "cache_wf c"
  shows "cache_wf (forget c bs) \<and>
    (\<forall>h b. hm_get (by_hash (forget c bs)) h = Some b \<longleftrightarrow> hm_get (by_hash c) h = Some b \<and> b \<notin> set bs)"
  using forget_spec [OF assms] .

theorem forget_removes_exactly_witness:
  "cache_wf (insert_one (cache_new 4 True) (7, 3))
   \<and> hm_get (by_hash (forget (insert_one (cache_new 4 True) (7, 3)) [3])) 7 \<noteq> Some 3"
proof -
  have w: "cache_wf (insert_one (cache_new 4 True) (7, 3))"
    by (rule insert_one_wf [OF cache_wf_new]) (simp add: cache_new_def)
  then show ?thesis using forget_removes_exactly [OF w, of "[3]"] by auto
qed

text \<open>A stale entry is not always detected. After a cached page has been reclaimed by
  an allocation, a lookup of the prompt it used to hold reports a hit on that page, which
  now belongs to the allocating sequence: \<open>reacquire\<close> succeeds on any referenced page.\<close>

theorem reclaimed_page_is_a_hit:
  "\<exists>p0 p1 p2 m c' p3. alloc (pool_new 1 1 0) 1 = Some (Inr ([0], p0))
     \<and> release_to_cache p0 [0] = Some p1
     \<and> alloc p1 1 = Some (Inr ([0], p2)) \<and> refcount p2 ! 0 = 1
     \<and> lookup (cache_insert (cache_new 1 True) [42] [0]) [42] p2 = Some (m, c', p3)
     \<and> pm_blocks m = [0] \<and> refcount p3 ! 0 = 2"
proof -
  let ?c = "cache_new 1 True" and ?p = "pool_new 1 1 0\<lparr>free := [], refcount := [1]\<rparr>"
  let ?r = "pool_new 1 1 0\<lparr>free := [], cached := [0]\<rparr>"
  have a: "alloc (pool_new 1 1 0) 1 = Some (Inr ([0], ?p))"
    by (simp add: alloc_def available_def pool_new_def take_block_def)
  have r: "release_to_cache ?p [0] = Some ?r"
    by (simp add: drop_ref_def Let_def pool_new_def)
  have a2: "alloc ?r 1 = Some (Inr ([0], ?p))"
    by (simp add: alloc_def available_def pool_new_def take_block_def)
  obtain h where h: "block_hashes [42] 1 = [h]"
    by (simp add: block_hashes_def hash_chunks.simps Let_def)
  have "lookup (cache_insert ?c [42] [0]) [42] ?p
      = Some (\<lparr>pm_num_tokens = 1, pm_blocks = [0]\<rparr>,
          (insert_one ?c (h, 0))\<lparr>hits := 1\<rparr>, ?p\<lparr>refcount := [2]\<rparr>)"
    using h by (simp add: lookup_def cache_insert_def cache_new_def insert_one_get insert_one_frame
        reacquire_def pool_new_def empty_match_def)
  then show ?thesis using a r a2 by (intro exI conjI) (assumption | simp add: pool_new_def)+
qed

end
