(* ===== verification/Job_Policy.thy ===== *)
theory Job_Policy
  imports Prelude
begin

text \<open>
  \<open>crates/sched/src/policy.rs\<close>: the order in which queued prefill work runs.

  \<open>order_jobs\<close> is translated policy by policy; the three comparators are lexicographic keys
  and \<open>sort_by\<close> is the stable sort of the library. The main results are about
  \<open>moore_hodgson\<close>: every job comes back exactly once, the accepted jobs all meet their
  deadlines when run in the returned order, and no schedule of the same jobs, in any order,
  meets more deadlines (optimality for \<open>1 || sum U_j\<close>, which the source's comment claims).
\<close>

record job =
  job_id :: request_id
  arrival_ms :: millis
  deadline_ms :: millis
  service_ms :: real

record job_ordering =
  on_time :: "request_id list"
  demoted :: "request_id list"

datatype prefill_policy = Fcfs | Edf | MooreHodgson

definition all_jobs :: "job_ordering \<Rightarrow> request_id list" where
  "all_jobs o' = on_time o' @ demoted o'"

definition fcfs_key :: "job \<Rightarrow> real \<times> nat" where
  "fcfs_key j = (arrival_ms j, job_id j)"

definition edf_key :: "job \<Rightarrow> real \<times> nat" where
  "edf_key j = (deadline_ms j, job_id j)"

text \<open>The comparator of \<open>max_by\<close>: the longest job, ties to the later deadline, then the
  larger id.\<close>

definition victim_key :: "job \<Rightarrow> real \<times> real \<times> nat" where
  "victim_key j = (service_ms j, deadline_ms j, job_id j)"

text \<open>\<open>Iterator::max_by\<close> over the enumerated list: the index of the last maximum.\<close>

fun max_index_by :: "('a \<Rightarrow> 'k::linorder) \<Rightarrow> 'a list \<Rightarrow> nat" where
  "max_index_by key [] = 0"
| "max_index_by key [x] = 0"
| "max_index_by key (x # y # ys) =
     (let i = max_index_by key (y # ys) in if key x > key ((y # ys) ! i) then 0 else Suc i)"

definition remove_at :: "nat \<Rightarrow> 'a list \<Rightarrow> 'a list" where
  "remove_at i xs = take i xs @ drop (Suc i) xs"

text \<open>One turn of the loop: the state is the accepted jobs, the demoted jobs and the clock.\<close>

definition mh_step :: "job list \<times> job list \<times> real \<Rightarrow> job \<Rightarrow> job list \<times> job list \<times> real" where
  "mh_step s j = (case s of (acc, dem, clock) \<Rightarrow>
    (let acc' = acc @ [j]; clock' = clock + service_ms j
     in if clock' > deadline_ms j
        then let v = max_index_by victim_key acc'; removed = acc' ! v
             in (remove_at v acc', dem @ [removed], clock' - service_ms removed)
        else (acc', dem, clock')))"

definition mh_loop :: "job list \<Rightarrow> millis \<Rightarrow> job list \<times> job list \<times> real" where
  "mh_loop jobs now = foldl mh_step ([], [], now) (sort_key edf_key jobs)"

definition moore_hodgson :: "job list \<Rightarrow> millis \<Rightarrow> job_ordering" where
  "moore_hodgson jobs now =
    (case mh_loop jobs now of (acc, dem, _) \<Rightarrow>
      \<lparr>on_time = map job_id acc, demoted = map job_id (sort_key edf_key dem)\<rparr>)"

fun order_jobs :: "job list \<Rightarrow> millis \<Rightarrow> prefill_policy \<Rightarrow> job_ordering" where
  "order_jobs jobs now Fcfs = \<lparr>on_time = map job_id (sort_key fcfs_key jobs), demoted = []\<rparr>"
| "order_jobs jobs now Edf = \<lparr>on_time = map job_id (sort_key edf_key jobs), demoted = []\<rparr>"
| "order_jobs jobs now MooreHodgson = moore_hodgson jobs now"

subsection \<open>The victim\<close>

lemma max_index_by_less: "xs \<noteq> [] \<Longrightarrow> max_index_by key xs < length xs"
  by (induction key xs rule: max_index_by.induct) (auto simp: Let_def)

lemma max_index_by_max: "x \<in> set xs \<Longrightarrow> key x \<le> key (xs ! max_index_by key xs)"
proof (induction key xs rule: max_index_by.induct)
  case (3 key x' y ys)
  then show ?case by (auto simp: Let_def not_less intro: order_trans less_imp_le)
qed auto

lemma remove_at_mset: "i < length xs \<Longrightarrow> mset xs = add_mset (xs ! i) (mset (remove_at i xs))"
  unfolding remove_at_def by (metis Cons_nth_drop_Suc append_take_drop_id mset.simps(2) mset_append union_mset_add_mset_right)

lemma victim_longest: "x \<in> set xs \<Longrightarrow> service_ms x \<le> service_ms (xs ! max_index_by victim_key xs)"
  using max_index_by_max [of x xs victim_key] by (auto simp: victim_key_def)

lemma remove_at_split:
  assumes "i < length xs"
  obtains us vs where "xs = us @ xs ! i # vs" "remove_at i xs = us @ vs"
  using assms id_take_nth_drop [OF assms] that unfolding remove_at_def by blast

subsection \<open>Schedules\<close>

text \<open>Completion times of jobs run one after the other, and the number that meet their
  deadline.\<close>

fun all_on_time :: "real \<Rightarrow> job list \<Rightarrow> bool" where
  "all_on_time t [] = True"
| "all_on_time t (j # js) = (t + service_ms j \<le> deadline_ms j \<and> all_on_time (t + service_ms j) js)"

fun on_time_jobs :: "real \<Rightarrow> job list \<Rightarrow> job list" where
  "on_time_jobs t [] = []"
| "on_time_jobs t (j # js) =
     (let t' = t + service_ms j
      in if t' \<le> deadline_ms j then j # on_time_jobs t' js else on_time_jobs t' js)"

definition total_service :: "job list \<Rightarrow> real" where
  "total_service js = sum_list (map service_ms js)"

lemma total_service_simps [simp]:
  "total_service [] = 0" "total_service (j # js) = service_ms j + total_service js"
  "total_service (xs @ ys) = total_service xs + total_service ys"
  by (simp_all add: total_service_def)

lemma all_on_time_append:
  "all_on_time t (xs @ ys) \<longleftrightarrow> all_on_time t xs \<and> all_on_time (t + total_service xs) ys"
  by (induction xs arbitrary: t) (auto simp: add.assoc)

lemma all_on_time_earlier: "all_on_time t xs \<Longrightarrow> t' \<le> t \<Longrightarrow> all_on_time t' xs"
proof (induction xs arbitrary: t t')
  case (Cons j js)
  then show ?case using Cons.IH [of "t + service_ms j" "t' + service_ms j"] by auto
qed simp

subsection \<open>The loop invariant\<close>

text \<open>\<open>dominates S F\<close>: for every bound, \<open>S\<close> has at least as many jobs of at most that
  length as \<open>F\<close>.\<close>

definition count_le :: "real \<Rightarrow> job list \<Rightarrow> nat" where
  "count_le x js = length (filter (\<lambda>j. service_ms j \<le> x) js)"

definition dominates :: "job list \<Rightarrow> job list \<Rightarrow> bool" where
  "dominates S F \<longleftrightarrow> (\<forall>x. count_le x F \<le> count_le x S)"

lemma count_le_mset: "mset xs = mset ys \<Longrightarrow> count_le x xs = count_le x ys"
  unfolding count_le_def by (metis mset_filter size_mset)

lemma count_le_simps [simp]:
  "count_le x [] = 0" "count_le x (j # js) = (if service_ms j \<le> x then 1 else 0) + count_le x js"
  "count_le x (as @ bs) = count_le x as + count_le x bs"
  by (simp_all add: count_le_def)

lemma count_le_all: "(\<And>j. j \<in> set js \<Longrightarrow> service_ms j \<le> x) \<Longrightarrow> count_le x js = length js"
  by (simp add: count_le_def)

lemma count_le_length: "count_le x js \<le> length js"
  by (simp add: count_le_def)

lemma dominates_length: "dominates S F \<Longrightarrow> length F \<le> length S"
proof -
  assume d: "dominates S F"
  obtain x where x: "\<And>j. j \<in> set F \<Longrightarrow> service_ms j \<le> x"
    using Max_ge [of "service_ms ` set F"] by (meson List.finite_set finite_imageI imageI)
  then show ?thesis
    using d count_le_all [of F x] count_le_length [of x S] unfolding dominates_def
    by (metis le_trans)
qed

text \<open>On sorted lists of times, domination with equal lengths is pointwise, hence the sums
  compare.\<close>

lemma sorted_dominates_sum:
  fixes fs ss :: "real list"
  assumes "length fs = length ss" "sorted fs" "sorted ss"
    and "\<And>x. length (filter (\<lambda>a. a \<le> x) fs) \<le> length (filter (\<lambda>a. a \<le> x) ss)"
  shows "sum_list ss \<le> sum_list fs"
  using assms
proof (induction fs ss rule: list_induct2)
  case Nil
  then show ?case by simp
next
  case (Cons f fs s ss)
  have sf: "s \<le> f"
  proof (rule ccontr)
    assume "\<not> s \<le> f"
    then have "filter (\<lambda>a. a \<le> f) (s # ss) = []" using Cons.prems(2) by (auto simp: filter_empty_conv)
    then show False using Cons.prems(3) [of f] by simp
  qed
  have "length (filter (\<lambda>a. a \<le> x) fs) \<le> length (filter (\<lambda>a. a \<le> x) ss)" for x
  proof (cases "f \<le> x")
    case True
    then show ?thesis using Cons.prems(3) [of x] sf by simp
  next
    case False
    then have "filter (\<lambda>a. a \<le> x) fs = []" using Cons.prems(1) by (auto simp: filter_empty_conv)
    then show ?thesis by simp
  qed
  then have "sum_list ss \<le> sum_list fs" using Cons.IH Cons.prems by simp
  then show ?case using sf by simp
qed

lemma dominates_sum:
  assumes "dominates S F" "length F = length S"
  shows "total_service S \<le> total_service F"
proof -
  let ?f = "sort (map service_ms F)" and ?s = "sort (map service_ms S)"
  have c: "length (filter (\<lambda>a. a \<le> x) (sort (map service_ms js))) = count_le x js" for x js
  proof -
    have "length (filter (\<lambda>a. a \<le> x) (sort (map service_ms js))) = length (filter (\<lambda>a. a \<le> x) (map service_ms js))"
      by (metis mset_filter mset_sort size_mset)
    then show ?thesis by (simp add: count_le_def filter_map comp_def)
  qed
  have "sum_list ?s \<le> sum_list ?f"
    by (rule sorted_dominates_sum) (use assms in \<open>auto simp: c dominates_def\<close>)
  then show ?thesis unfolding total_service_def by (metis mset_sort sum_mset_sum_list)
qed

definition mh_inv :: "millis \<Rightarrow> job list \<Rightarrow> job list \<times> job list \<times> real \<Rightarrow> bool" where
  "mh_inv now P s = (case s of (acc, dem, clock) \<Rightarrow>
     mset acc + mset dem = mset P \<and> clock = now + total_service acc \<and> all_on_time now acc
     \<and> (\<forall>F. subseq F P \<longrightarrow> all_on_time now F \<longrightarrow> dominates acc F))"

lemma all_on_time_last:
  "all_on_time t xs \<Longrightarrow> xs \<noteq> [] \<Longrightarrow> t + total_service xs \<le> deadline_ms (last xs)"
proof (induction xs arbitrary: t)
  case (Cons j js)
  then show ?case using Cons.IH [of "t + service_ms j"] by (cases "js = []") (auto simp: add.assoc)
qed simp

text \<open>Dropping the longest job of a late schedule makes it timely again.\<close>

lemma evict_on_time:
  assumes split: "acc @ [j] = us @ r # vs" and ok: "all_on_time now acc"
    and longest: "service_ms j \<le> service_ms r" "0 \<le> service_ms r"
    and dl: "\<forall>i \<in> set acc. deadline_ms i \<le> deadline_ms j"
  shows "all_on_time now (us @ vs)"
proof (cases "vs = []")
  case True
  then show ?thesis using split ok by simp
next
  case False
  then obtain ws where ws: "vs = ws @ [j]" "acc = us @ r # ws"
    using split by (metis append_butlast_last_id butlast_append butlast.simps(2) butlast_snoc last_appendR
        last_snoc list.distinct(1) last_ConsR)
  have "all_on_time (now + total_service us) ws"
    using ok ws all_on_time_earlier [of "now + total_service us + service_ms r" ws] longest(2)
    by (auto simp: all_on_time_append)
  moreover have "now + total_service acc \<le> deadline_ms j"
    using all_on_time_last [OF ok] dl ws(2) by (metis append_is_Nil_conv last_in_set list.distinct(1) order_trans)
  ultimately show ?thesis
    using ok ws longest by (auto simp: all_on_time_append algebra_simps)
qed

text \<open>A subsequence of a list extended by a job either avoids it or ends with it.\<close>

lemma subseq_snoc_cases:
  assumes "subseq F (P @ [j])"
  obtains "subseq F P" | us where "F = us @ [j]" "subseq us P"
proof -
  obtain us vs where "F = us @ vs" "subseq us P" "subseq vs [j]"
    using assms unfolding subseq_append_iff by blast
  moreover from this have "vs = [] \<or> vs = [j]"
    by (cases vs) (auto simp: subseq_Cons' elim: list_emb.cases split: if_splits)
  ultimately show ?thesis using that by auto
qed

lemma dominates_snoc:
  assumes d: "\<And>F. subseq F P \<Longrightarrow> all_on_time now F \<Longrightarrow> dominates acc F"
    and F: "subseq F (P @ [j])" "all_on_time now F"
  shows "dominates (acc @ [j]) F"
  using F(1)
proof (cases rule: subseq_snoc_cases)
  case 1
  then have "dominates acc F" using d F(2) by blast
  then show ?thesis by (auto simp: dominates_def intro: le_SucI)
next
  case (2 us)
  then show ?thesis using d [of us] F(2) by (auto simp: dominates_def all_on_time_append)
qed

lemma dominates_evict:
  assumes d: "\<And>F. subseq F P \<Longrightarrow> all_on_time now F \<Longrightarrow> dominates acc F"
    and late: "now + total_service acc + service_ms j > deadline_ms j"
    and m: "mset (acc @ [j]) = add_mset r (mset acc')"
    and longest: "\<And>i. i \<in> set (acc @ [j]) \<Longrightarrow> service_ms i \<le> service_ms r"
    and F: "subseq F (P @ [j])" "all_on_time now F"
  shows "dominates acc' F"
proof -
  have full: "dominates (acc @ [j]) F" and short: "length F \<le> length acc'"
  proof -
    have len: "length acc' = length acc" using m by (metis add_mset_add_single length_append_singleton mset_append
          size_add_mset size_mset Suc_inject)
    show "dominates (acc @ [j]) F" by (rule dominates_snoc [OF d F])
    from F(1) show "length F \<le> length acc'"
    proof (cases rule: subseq_snoc_cases)
      case 1
      then show ?thesis using d F(2) dominates_length len by fastforce
    next
      case (2 us)
      have "length F \<noteq> length (acc @ [j])"
      proof
        assume "length F = length (acc @ [j])"
        then have "total_service (acc @ [j]) \<le> total_service F"
          by (rule dominates_sum [OF \<open>dominates (acc @ [j]) F\<close>])
        moreover have "now + total_service F \<le> deadline_ms j"
          using all_on_time_last [OF F(2)] 2(1) by simp
        ultimately show False using late by simp
      qed
      then show ?thesis using dominates_length [OF \<open>dominates (acc @ [j]) F\<close>] len by simp
    qed
  qed
  have "count_le x F \<le> count_le x acc'" for x
  proof (cases "service_ms r \<le> x")
    case True
    then have "count_le x acc' = length acc'"
    proof (intro count_le_all)
      fix i assume "i \<in> set acc'"
      then have "i \<in># mset (acc @ [j])" unfolding m by simp
      then show "service_ms i \<le> x" using longest [of i] True by simp
    qed
    then show ?thesis using short count_le_length [of x F] by simp
  next
    case False
    then have "count_le x (acc @ [j]) = count_le x acc'"
      using count_le_mset [of "acc @ [j]" "r # acc'" x] m by simp
    then show ?thesis using full unfolding dominates_def by metis
  qed
  then show ?thesis unfolding dominates_def by blast
qed

lemma mh_step_inv [keeps]:
  assumes inv: "mh_inv now P s" and dl: "\<forall>i \<in> set P. deadline_ms i \<le> deadline_ms j"
    and pos: "\<forall>i \<in> set (P @ [j]). 0 \<le> service_ms i"
  shows "mh_inv now (P @ [j]) (mh_step s j)"
proof -
  obtain acc dem clock where s: "s = (acc, dem, clock)" by (cases s) auto
  have m: "mset acc + mset dem = mset P" and c: "clock = now + total_service acc"
    and ok: "all_on_time now acc"
    and d: "\<And>F. subseq F P \<Longrightarrow> all_on_time now F \<Longrightarrow> dominates acc F"
    using inv by (auto simp: mh_inv_def s)
  have sub: "set acc \<subseteq> set P" using m by (metis mset_subset_eq_add_left set_mset_mono set_mset_mset)
  show ?thesis
  proof (cases "clock + service_ms j > deadline_ms j")
    case False
    then show ?thesis
      using m c ok dominates_snoc [OF d] unfolding mh_inv_def s
      by (auto simp: mh_step_def Let_def all_on_time_append add.assoc)
  next
    case True
    define v where "v = max_index_by victim_key (acc @ [j])"
    define r where "r = (acc @ [j]) ! v"
    have v: "v < length (acc @ [j])" unfolding v_def by (rule max_index_by_less) simp
    obtain us vs where us: "acc @ [j] = us @ r # vs" "remove_at v (acc @ [j]) = us @ vs"
      using remove_at_split [OF v] unfolding r_def by metis
    have longest: "\<And>i. i \<in> set (acc @ [j]) \<Longrightarrow> service_ms i \<le> service_ms r"
      unfolding r_def v_def by (rule victim_longest)
    have rm: "mset (acc @ [j]) = add_mset r (mset (us @ vs))" using us(1) by simp
    have "r \<in> set (P @ [j])" 
    proof -
      have "r \<in> set (acc @ [j])" unfolding us(1) by simp
      then show ?thesis using sub by auto
    qed
    then have "0 \<le> service_ms r" using pos by blast
    then have "all_on_time now (us @ vs)"
      using evict_on_time [OF us(1) ok] longest dl sub by auto
    moreover have "\<forall>F. subseq F (P @ [j]) \<longrightarrow> all_on_time now F \<longrightarrow> dominates (us @ vs) F"
      using dominates_evict [OF d _ rm longest] True c by blast
    moreover have "total_service (us @ vs) = total_service acc + service_ms j - service_ms r"
      using arg_cong [OF us(1), of total_service] by simp
    moreover have "mset (us @ vs) + mset (dem @ [r]) = mset (P @ [j])"
    proof -
      have "mset (us @ vs) + mset (dem @ [r]) = mset (acc @ [j]) + mset dem" using rm by simp
      then show ?thesis using m by simp
    qed
    ultimately show ?thesis
      using True c us(2) unfolding mh_inv_def s
      by (simp add: mh_step_def Let_def v_def [symmetric] r_def [symmetric])
  qed
qed

lemma mh_fold_inv:
  assumes "mh_inv now P s" "sorted_wrt (\<lambda>i j. deadline_ms i \<le> deadline_ms j) (P @ js)"
    "\<forall>i \<in> set (P @ js). 0 \<le> service_ms i"
  shows "mh_inv now (P @ js) (foldl mh_step s js)"
  using assms
proof (induction js arbitrary: P s)
  case (Cons j js)
  have "mh_inv now (P @ [j]) (mh_step s j)"
    by (rule mh_step_inv) (use Cons.prems in \<open>auto simp: sorted_wrt_append\<close>)
  then show ?case using Cons.IH [of "P @ [j]" "mh_step s j"] Cons.prems by simp
qed simp

lemma edf_sorted: "sorted_wrt (\<lambda>i j. deadline_ms i \<le> deadline_ms j) (sort_key edf_key js)"
proof -
  have "sorted_wrt (\<lambda>i j. edf_key i \<le> edf_key j) (sort_key edf_key js)"
    using sorted_sort_key [of edf_key js] by (simp add: sorted_map)
  then show ?thesis by (rule sorted_wrt_mono_rel [rotated]) (auto simp: edf_key_def less_eq_prod_def)
qed

lemma mh_loop_inv:
  "\<forall>j \<in> set js. 0 \<le> service_ms j \<Longrightarrow> mh_inv now (sort_key edf_key js) (mh_loop js now)"
proof -
  assume pos: "\<forall>j \<in> set js. 0 \<le> service_ms j"
  have "mh_inv now [] ([], [], now)" by (auto simp: mh_inv_def dominates_def dest: list_emb_Nil2)
  then show ?thesis
    using mh_fold_inv [of now "[]" "([], [], now)" "sort_key edf_key js"] edf_sorted [of js] pos
    unfolding mh_loop_def by simp
qed

subsection \<open>From any schedule to one in deadline order\<close>

lemma all_on_time_prefix:
  "(\<And>A j B. F = A @ j # B \<Longrightarrow> t + total_service (A @ [j]) \<le> deadline_ms j) \<Longrightarrow> all_on_time t F"
proof (induction F arbitrary: t)
  case (Cons i F)
  have "all_on_time (t + service_ms i) F"
  proof (rule Cons.IH)
    fix A j B assume "F = A @ j # B"
    then show "t + service_ms i + total_service (A @ [j]) \<le> deadline_ms j"
      using Cons.prems [of "i # A" j B] by (simp add: algebra_simps)
  qed
  then show ?case using Cons.prems [of "[]" i F] by simp
qed simp

lemma on_time_jobs_subset: "set (on_time_jobs t ys) \<subseteq> set ys"
  by (induction ys arbitrary: t) (auto simp: Let_def)

lemma on_time_jobs_distinct: "distinct ys \<Longrightarrow> distinct (on_time_jobs t ys)"
  by (induction ys arbitrary: t) (auto simp: Let_def dest: subsetD [OF on_time_jobs_subset])

lemma on_time_jobs_completion:
  "distinct (X @ l # Y) \<Longrightarrow> l \<in> set (on_time_jobs t (X @ l # Y)) \<Longrightarrow> t + total_service (X @ [l]) \<le> deadline_ms l"
proof (induction X arbitrary: t)
  case Nil
  then show ?case by (auto simp: Let_def dest: subsetD [OF on_time_jobs_subset] split: if_splits)
next
  case (Cons x X)
  then have "l \<in> set (on_time_jobs (t + service_ms x) (X @ l # Y))"
    by (auto simp: Let_def split: if_splits)
  then show ?case using Cons.IH [of "t + service_ms x"] Cons.prems by (simp add: algebra_simps)
qed

lemma total_service_mono:
  assumes "distinct xs" "distinct ys" "set xs \<subseteq> set ys" "\<forall>j \<in> set ys. 0 \<le> service_ms j"
  shows "total_service xs \<le> total_service ys"
  unfolding total_service_def
  using assms by (simp add: sum_list_distinct_conv_sum_set) (rule sum_mono2, auto)

lemma on_time_jobs_edf:
  assumes d: "distinct ys" and pos: "\<forall>j \<in> set ys. 0 \<le> service_ms j"
    and S: "sorted_wrt (\<lambda>i j. deadline_ms i \<le> deadline_ms j) S" "distinct S"
  shows "all_on_time t (filter (\<lambda>j. j \<in> set (on_time_jobs t ys)) S)"
proof (rule all_on_time_prefix)
  let ?G = "set (on_time_jobs t ys)"
  fix A j B assume F: "filter (\<lambda>j. j \<in> ?G) S = A @ j # B"
  have G: "set (A @ [j]) \<subseteq> ?G"
  proof
    fix i assume "i \<in> set (A @ [j])"
    then have "i \<in> set (filter (\<lambda>j. j \<in> ?G) S)" unfolding F by auto
    then show "i \<in> ?G" by simp
  qed
  have dA: "distinct (A @ [j])" using F S(2) by (metis append.assoc append_Cons append_Nil distinct_append distinct_filter)
  have dl: "\<forall>i \<in> set (A @ [j]). deadline_ms i \<le> deadline_ms j"
    using sorted_wrt_filter [OF S(1), of "\<lambda>j. j \<in> ?G"] unfolding F by (auto simp: sorted_wrt_append)
  have "\<exists>x \<in> set ys. x \<in> set (A @ [j])" using G on_time_jobs_subset by fastforce
  then obtain X l Y where Y: "ys = X @ l # Y" "l \<in> set (A @ [j])" "\<forall>z \<in> set Y. z \<notin> set (A @ [j])"
    using split_list_last_prop [of ys "\<lambda>x. x \<in> set (A @ [j])"] by blast
  have sub: "set (A @ [j]) \<subseteq> set (X @ [l])"
  proof
    fix i assume i: "i \<in> set (A @ [j])"
    then have "i \<in> set ys" using G on_time_jobs_subset by blast
    then show "i \<in> set (X @ [l])" using Y i by auto
  qed
  have "distinct (X @ [l])" "\<forall>j \<in> set (X @ [l]). 0 \<le> service_ms j" using d pos Y(1) by auto
  then have "t + total_service (A @ [j]) \<le> t + total_service (X @ [l])"
    using total_service_mono [OF dA _ sub] by auto
  also have "\<dots> \<le> deadline_ms l"
    by (rule on_time_jobs_completion [of X l Y]) (use d Y G in auto)
  also have "\<dots> \<le> deadline_ms j" using dl Y(2) by blast
  finally show "t + total_service (A @ [j]) \<le> deadline_ms j" .
qed

subsection \<open>Every job is accepted or demoted\<close>

lemma mh_step_mset:
  assumes "mh_step (acc, dem, clock) j = (acc', dem', clock')"
  shows "mset acc' + mset dem' = add_mset j (mset acc + mset dem)"
proof (cases "clock + service_ms j > deadline_ms j")
  case True
  define v where "v = max_index_by victim_key (acc @ [j])"
  have "v < length (acc @ [j])" unfolding v_def by (rule max_index_by_less) simp
  from remove_at_mset [OF this]
  have r: "add_mset ((acc @ [j]) ! v) (mset (remove_at v (acc @ [j]))) = add_mset j (mset acc)" by simp
  have "acc' = remove_at v (acc @ [j])" "dem' = dem @ [(acc @ [j]) ! v]"
    using True assms by (simp_all add: mh_step_def Let_def v_def)
  then have "mset acc' + mset dem' = add_mset ((acc @ [j]) ! v) (mset (remove_at v (acc @ [j]))) + mset dem"
    by simp
  then show ?thesis unfolding r by simp
next
  case False
  then show ?thesis using assms by (auto simp: mh_step_def Let_def)
qed

lemma mh_fold_mset:
  "foldl mh_step (acc, dem, clock) js = (acc', dem', clock') \<Longrightarrow>
   mset acc' + mset dem' = mset acc + mset dem + mset js"
proof (induction js arbitrary: acc dem clock)
  case (Cons j js)
  obtain a d c where "mh_step (acc, dem, clock) j = (a, d, c)" by (cases "mh_step (acc, dem, clock) j") auto
  then show ?case using Cons mh_step_mset by fastforce
qed simp

lemma moore_hodgson_split:
  obtains acc dem clock where "mh_loop jobs now = (acc, dem, clock)" "mset acc + mset dem = mset jobs"
    "on_time (moore_hodgson jobs now) = map job_id acc"
    "demoted (moore_hodgson jobs now) = map job_id (sort_key edf_key dem)"
proof -
  obtain acc dem clock where m: "mh_loop jobs now = (acc, dem, clock)" by (cases "mh_loop jobs now") auto
  then have "mset acc + mset dem = mset jobs"
    using mh_fold_mset [of "[]" "[]" now "sort_key edf_key jobs"] by (simp add: mh_loop_def)
  then show ?thesis using that m by (simp add: moore_hodgson_def)
qed

interpretation fcfs: total_key fcfs_key "\<lambda>A. inj_on job_id A"
  by unfold_locales (auto simp: fcfs_key_def inj_on_def)

interpretation edf: total_key edf_key "\<lambda>A. inj_on job_id A"
  by unfold_locales (auto simp: edf_key_def inj_on_def)

lemma order_jobs_mset:
  "mset (all_jobs (order_jobs jobs now pol)) = mset (map job_id jobs)"
proof (cases pol)
  case MooreHodgson
  obtain acc dem where "mset acc + mset dem = mset jobs"
    "on_time (moore_hodgson jobs now) = map job_id acc"
    "demoted (moore_hodgson jobs now) = map job_id (sort_key edf_key dem)"
    using moore_hodgson_split by metis
  then show ?thesis
    using MooreHodgson by (simp add: all_jobs_def) (metis image_mset_union)
qed (simp_all add: all_jobs_def)

subsection \<open>Properties\<close>

text \<open>Nothing is lost: under every policy, each queued job appears exactly once in the
  ordering, on time or demoted.\<close>

theorem order_jobs_complete:
  "mset (all_jobs (order_jobs jobs now pol)) = mset (map job_id jobs)"
  by (rule order_jobs_mset)

text \<open>C2. Moore-Hodgson is optimal. For jobs with pairwise different entries and
  non-negative service times, the accepted jobs run in the returned order from \<open>now\<close> all
  finish by their deadlines, and no order of all the jobs makes more of them finish by
  theirs.\<close>

theorem moore_hodgson_optimal:
  assumes "distinct jobs" "\<forall>j \<in> set jobs. 0 \<le> service_ms j"
  shows "\<exists>acc dem. on_time (moore_hodgson jobs now) = map job_id acc
    \<and> demoted (moore_hodgson jobs now) = map job_id dem \<and> mset (acc @ dem) = mset jobs
    \<and> all_on_time now acc
    \<and> (\<forall>ys. mset ys = mset jobs \<longrightarrow> length (on_time_jobs now ys) \<le> length acc)"
proof -
  obtain acc dem clock where m: "mh_loop jobs now = (acc, dem, clock)" "mset acc + mset dem = mset jobs"
    "on_time (moore_hodgson jobs now) = map job_id acc"
    "demoted (moore_hodgson jobs now) = map job_id (sort_key edf_key dem)"
    by (rule moore_hodgson_split)
  let ?S = "sort_key edf_key jobs"
  have inv: "all_on_time now acc" "\<And>F. subseq F ?S \<Longrightarrow> all_on_time now F \<Longrightarrow> dominates acc F"
    using mh_loop_inv [OF assms(2), of now] m(1) by (auto simp: mh_inv_def)
  have "length (on_time_jobs now ys) \<le> length acc" if ys: "mset ys = mset jobs" for ys
  proof -
    have d: "distinct ys" "distinct ?S" "set ys = set jobs"
      using ys assms(1) by (auto dest: mset_eq_setD mset_eq_imp_distinct_iff)
    define F where "F = filter (\<lambda>j. j \<in> set (on_time_jobs now ys)) ?S"
    have "all_on_time now F" unfolding F_def
      by (rule on_time_jobs_edf) (use d assms edf_sorted in auto)
    moreover have "subseq F ?S" unfolding F_def by (rule subseq_filter_left)
    ultimately have "length F \<le> length acc" using inv(2) dominates_length by blast
    moreover have "set F = set (on_time_jobs now ys)"
      unfolding F_def using d(3) on_time_jobs_subset [of now ys] by auto
    then have "length F = length (on_time_jobs now ys)"
      using d on_time_jobs_distinct [OF d(1), of now] unfolding F_def
      by (metis distinct_card distinct_filter)
    ultimately show ?thesis by simp
  qed
  then show ?thesis
    using m inv(1) by (intro exI [of _ acc] exI [of _ "sort_key edf_key dem"]) simp
qed

definition hog_jobs :: "job list" where
  "hog_jobs = [\<lparr>job_id = 0, arrival_ms = 0, deadline_ms = 100, service_ms = 100\<rparr>,
     \<lparr>job_id = 1, arrival_ms = 0, deadline_ms = 150, service_ms = 100\<rparr>,
     \<lparr>job_id = 2, arrival_ms = 0, deadline_ms = 160, service_ms = 10\<rparr>,
     \<lparr>job_id = 3, arrival_ms = 0, deadline_ms = 170, service_ms = 10\<rparr>]"

lemma hog_jobs_order: "moore_hodgson hog_jobs 0 = \<lparr>on_time = [0, 2, 3], demoted = [1]\<rparr>"
  by (simp add: hog_jobs_def moore_hodgson_def mh_loop_def mh_step_def edf_key_def victim_key_def
      remove_at_def Let_def less_eq_prod_def less_prod_def)

theorem moore_hodgson_optimal_witness:
  "distinct hog_jobs \<and> length (on_time_jobs 0 (rev hog_jobs)) \<le> 3"
proof -
  have d: "distinct hog_jobs" and p: "\<forall>j \<in> set hog_jobs. 0 \<le> service_ms j" by (simp_all add: hog_jobs_def)
  obtain acc :: "job list" where "on_time (moore_hodgson hog_jobs 0) = map job_id acc"
    "\<forall>ys. mset ys = mset hog_jobs \<longrightarrow> length (on_time_jobs 0 ys) \<le> length acc"
    using moore_hodgson_optimal [OF d p, of 0] by blast
  moreover from this(1) have "length acc = 3"
    using hog_jobs_order by (metis job_ordering.select_convs(1) length_map length_Cons list.size(3) numeral_3_eq_3)
  ultimately show ?thesis using d by (metis mset_rev)
qed

text \<open>A turn of the loop that is not late only appends.\<close>

lemma mh_fold_all_fit:
  "clock = now + total_service acc \<Longrightarrow> all_on_time now (acc @ js) \<Longrightarrow>
   foldl mh_step (acc, dem, clock) js = (acc @ js, dem, now + total_service (acc @ js))"
proof (induction js arbitrary: acc clock)
  case (Cons j js)
  have "clock + service_ms j \<le> deadline_ms j" using Cons.prems by (simp add: all_on_time_append)
  then have "mh_step (acc, dem, clock) j = (acc @ [j], dem, clock + service_ms j)"
    by (simp add: mh_step_def Let_def)
  then show ?case using Cons.IH [of "clock + service_ms j" "acc @ [j]"] Cons.prems by (simp add: add.assoc)
qed simp

text \<open>When every job meets its deadline in deadline order, nothing is demoted and
  Moore-Hodgson returns exactly the earliest-deadline-first order.\<close>

theorem nothing_demoted_when_all_fit:
  assumes "all_on_time now (sort_key edf_key jobs)"
  shows "order_jobs jobs now MooreHodgson = order_jobs jobs now Edf"
  using mh_fold_all_fit [of now now "[]" "sort_key edf_key jobs" "[]"] assms
  by (simp add: moore_hodgson_def mh_loop_def)

theorem nothing_demoted_when_all_fit_witness:
  "order_jobs [\<lparr>job_id = 4, arrival_ms = 0, deadline_ms = 50, service_ms = 10\<rparr>] 0 MooreHodgson
   = \<lparr>on_time = [4], demoted = []\<rparr>"
proof -
  have "all_on_time 0 (sort_key edf_key [\<lparr>job_id = 4, arrival_ms = 0, deadline_ms = 50, service_ms = 10\<rparr>])"
    by simp
  from nothing_demoted_when_all_fit [OF this] show ?thesis by simp
qed

text \<open>Ordering is deterministic: for jobs with pairwise different ids the result does
  not depend on the order in which the queue was enumerated.\<close>

theorem order_jobs_deterministic:
  assumes "mset jobs = mset jobs'" "inj_on job_id (set jobs)"
  shows "order_jobs jobs now pol = order_jobs jobs' now pol"
  using edf.sort_unique [OF assms] fcfs.sort_unique [OF assms]
  by (cases pol) (simp_all add: moore_hodgson_def mh_loop_def)

theorem order_jobs_deterministic_witness:
  "order_jobs hog_jobs 0 MooreHodgson = order_jobs (rev hog_jobs) 0 MooreHodgson"
proof -
  have "mset hog_jobs = mset (rev hog_jobs)" "inj_on job_id (set hog_jobs)"
    by (simp, auto simp: hog_jobs_def)
  then show ?thesis by (rule order_jobs_deterministic)
qed

end
