(* ===== verification/Prefill_Sched.thy ===== *)
theory Prefill_Sched
  imports Job_Policy
begin

text \<open>
  \<open>crates/sched/src/prefill.rs\<close>: the prefill queue and batch assembly.

  The scheduler is the record of its fields; \<open>plan\<close> and \<open>complete\<close> return the updated
  scheduler beside their result. The two passes of \<open>plan\<close> are one recursive function whose
  base cases are the source's \<open>break\<close>s. The lemmas give the batch's budget and shape, the
  deadline-feasibility rule of the module comment, progress, and conservation of the queued
  work by a plan that is completed.
\<close>

record pending_prefill =
  pp_id :: request_id
  pp_arrival_ms :: millis
  pp_deadline_ms :: millis
  compute_tokens :: nat
  done_tokens :: nat

definition remaining :: "pending_prefill \<Rightarrow> nat" where
  "remaining p = compute_tokens p - done_tokens p"

definition is_complete :: "pending_prefill \<Rightarrow> bool" where
  "is_complete p = (remaining p = 0)"

record prefill_chunk =
  ch_id :: request_id
  ch_start :: nat
  ch_tokens :: nat
  ch_completes :: bool

record prefill_batch =
  chunks :: "prefill_chunk list"
  total_tokens :: nat
  est_service_ms :: real
  deadline_limited :: bool

definition empty_batch :: prefill_batch where
  "empty_batch = \<lparr>chunks = [], total_tokens = 0, est_service_ms = 0, deadline_limited = False\<rparr>"

record prefill_tuning =
  chunk_tokens :: nat
  max_seqs :: nat
  policy :: prefill_policy
  demote_hopeless :: bool
  tokens_per_ms :: real
  rate_alpha :: real

definition default_tuning :: prefill_tuning where
  "default_tuning = \<lparr>chunk_tokens = 16384, max_seqs = 8, policy = MooreHodgson,
     demote_hopeless = True, tokens_per_ms = 68, rate_alpha = 1 / 5\<rparr>"

record prefill_scheduler =
  tuning :: prefill_tuning
  queue :: "(request_id, pending_prefill) hmap"
  order :: "request_id list"
  demoted_ids :: "request_id set"

definition sched_new :: "prefill_tuning \<Rightarrow> prefill_scheduler" where
  "sched_new t = \<lparr>tuning = t, queue = [], order = [], demoted_ids = {}\<rparr>"

definition queue_depth :: "prefill_scheduler \<Rightarrow> nat" where
  "queue_depth s = length (queue s)"

definition queued_tokens :: "prefill_scheduler \<Rightarrow> nat" where
  "queued_tokens s = sum_list (map remaining (hm_values (queue s)))"

definition rate :: "prefill_scheduler \<Rightarrow> real" where
  "rate s = tokens_per_ms (tuning s)"

definition enqueue :: "prefill_scheduler \<Rightarrow> pending_prefill \<Rightarrow> prefill_scheduler" where
  "enqueue s p =
    (let was = hm_get (queue s) (pp_id p); s' = s\<lparr>queue := hm_insert (pp_id p) p (queue s)\<rparr>
     in if was = None then s'\<lparr>order := order s' @ [pp_id p]\<rparr> else s')"

definition remove :: "prefill_scheduler \<Rightarrow> request_id \<Rightarrow> pending_prefill option \<times> prefill_scheduler" where
  "remove s rid =
    (hm_get (queue s) rid,
     s\<lparr>order := filter (\<lambda>x. x \<noteq> rid) (order s), demoted_ids := demoted_ids s - {rid},
       queue := hm_remove rid (queue s)\<rparr>)"

definition demoted_count :: "prefill_scheduler \<Rightarrow> nat" where
  "demoted_count s = card (demoted_ids s)"

definition is_demoted :: "prefill_scheduler \<Rightarrow> request_id \<Rightarrow> bool" where
  "is_demoted s rid = (rid \<in> demoted_ids s)"

subsection \<open>Completing a batch\<close>

definition observe_rate :: "prefill_scheduler \<Rightarrow> prefill_batch \<Rightarrow> real \<Rightarrow> prefill_scheduler" where
  "observe_rate s b elapsed_ms =
    (if elapsed_ms > 0 \<and> total_tokens b > 0
     then let observed = real (total_tokens b) / elapsed_ms; a = clamp (rate_alpha (tuning s)) 0 1
          in s\<lparr>tuning := (tuning s)\<lparr>tokens_per_ms := (1 - a) * tokens_per_ms (tuning s) + a * observed\<rparr>\<rparr>
     else s)"

definition advance :: "nat \<Rightarrow> pending_prefill \<Rightarrow> pending_prefill" where
  "advance n p = p\<lparr>done_tokens := min (done_tokens p + n) (compute_tokens p)\<rparr>"

fun credit :: "prefill_chunk list \<Rightarrow> (request_id, pending_prefill) hmap \<Rightarrow>
    request_id list \<times> (request_id, pending_prefill) hmap" where
  "credit [] q = ([], q)"
| "credit (c # cs) q =
     (case hm_get q (ch_id c) of
        None \<Rightarrow> credit cs q
      | Some p \<Rightarrow>
          let p' = advance (ch_tokens c) p; (fin, q') = credit cs (hm_insert (ch_id c) p' q)
          in (if is_complete p' then ch_id c # fin else fin, q'))"

definition complete :: "prefill_scheduler \<Rightarrow> prefill_batch \<Rightarrow> real \<Rightarrow> request_id list \<times> prefill_scheduler" where
  "complete s b elapsed_ms =
    (let s1 = observe_rate s b elapsed_ms; (fin, q) = credit (chunks b) (queue s1)
     in (fin, foldl (\<lambda>s rid. snd (remove s rid)) (s1\<lparr>queue := q\<rparr>) fin))"

subsection \<open>Planning a batch\<close>

text \<open>\<open>f64::MIN_POSITIVE\<close>, the floor of the rate.\<close>

definition MIN_POSITIVE :: real where
  "MIN_POSITIVE = 1 / 2 ^ 1022"

definition effective_rate :: "prefill_scheduler \<Rightarrow> real" where
  "effective_rate s = max (tokens_per_ms (tuning s)) MIN_POSITIVE"

definition job_of :: "real \<Rightarrow> pending_prefill \<Rightarrow> job" where
  "job_of r p = \<lparr>job_id = pp_id p, arrival_ms = pp_arrival_ms p, deadline_ms = pp_deadline_ms p,
     service_ms = real (remaining p) / r\<rparr>"

definition queue_jobs :: "prefill_scheduler \<Rightarrow> job list" where
  "queue_jobs s = map (job_of (effective_rate s)) (List.map_filter (hm_get (queue s)) (order s))"

text \<open>One pass over candidate ids. The flag is the source's \<open>pass\<close>: true for the demoted
  candidates, which do not tighten the binding deadline.\<close>

fun plan_pass :: "prefill_scheduler \<Rightarrow> millis \<Rightarrow> bool \<Rightarrow> request_id list \<Rightarrow>
    prefill_batch \<times> ext \<Rightarrow> prefill_batch \<times> ext" where
  "plan_pass s now pass [] st = st"
| "plan_pass s now pass (rid # ids) (b, binding) =
     (if length (chunks b) \<ge> max_seqs (tuning s) then (b, binding)
      else let budget_left = chunk_tokens (tuning s) - total_tokens b
      in if budget_left = 0 then (b, binding)
      else case hm_get (queue s) rid of
        None \<Rightarrow> plan_pass s now pass ids (b, binding)
      | Some p \<Rightarrow>
          let want = min (remaining p) budget_left
          in if want = 0 then plan_pass s now pass ids (b, binding)
          else
            let cand_deadline = (if pass then binding else min binding (Fin (pp_deadline_ms p)));
                cand_tokens = total_tokens b + want;
                finish = now + real cand_tokens / effective_rate s
            in if chunks b \<noteq> [] \<and> Fin finish > cand_deadline
               then (if pass then (b\<lparr>deadline_limited := True\<rparr>, binding)
                     else plan_pass s now pass ids (b\<lparr>deadline_limited := True\<rparr>, binding))
               else plan_pass s now pass ids
                 (b\<lparr>chunks := chunks b @ [\<lparr>ch_id = rid, ch_start = done_tokens p, ch_tokens = want,
                                           ch_completes = (want = remaining p)\<rparr>],
                    total_tokens := cand_tokens\<rparr>, cand_deadline))"

definition plan_ordering :: "prefill_scheduler \<Rightarrow> millis \<Rightarrow> job_ordering" where
  "plan_ordering s now = order_jobs (queue_jobs s) now (policy (tuning s))"

definition plan :: "prefill_scheduler \<Rightarrow> millis \<Rightarrow> prefill_batch \<times> prefill_scheduler" where
  "plan s now =
    (if queue s = [] then (empty_batch, s)
     else let ordering = plan_ordering s now;
              hopeless = (if demote_hopeless (tuning s) then demoted ordering else []);
              st1 = plan_pass s now False (on_time ordering) (empty_batch, Infinite);
              (b, _) = plan_pass s now True hopeless st1
          in (b\<lparr>est_service_ms := real (total_tokens b) / effective_rate s\<rparr>,
              s\<lparr>demoted_ids := set hopeless\<rparr>))"

subsection \<open>Well-formed schedulers\<close>

definition sched_wf :: "prefill_scheduler \<Rightarrow> bool" where
  "sched_wf s \<longleftrightarrow> hm_wf (queue s) \<and> distinct (order s) \<and> set (order s) = set (hm_keys (queue s))
     \<and> (\<forall>(k, p) \<in> set (queue s). pp_id p = k \<and> done_tokens p \<le> compute_tokens p)"

lemma sched_wf_get:
  "sched_wf s \<Longrightarrow> hm_get (queue s) k = Some p \<Longrightarrow> pp_id p = k \<and> done_tokens p \<le> compute_tokens p"
  unfolding sched_wf_def by (auto dest: map_of_SomeD)

lemma sched_wfI:
  assumes "hm_wf (queue s)" "distinct (order s)" "set (order s) = dom (hm_get (queue s))"
    and "\<And>k p. hm_get (queue s) k = Some p \<Longrightarrow> pp_id p = k \<and> done_tokens p \<le> compute_tokens p"
  shows "sched_wf s"
  unfolding sched_wf_def using assms by (auto simp: hm.keys_get dom_map_of_conv_image_fst map_of_eq_Some_iff)

lemma sched_wf_order: "sched_wf s \<Longrightarrow> set (order s) = dom (hm_get (queue s))"
  unfolding sched_wf_def by (simp add: dom_map_of_conv_image_fst)

lemma sched_wf_parts: "sched_wf s \<Longrightarrow> hm_wf (queue s) \<and> distinct (order s)"
  unfolding sched_wf_def by simp

lemma enqueue_wf [keeps]:
  assumes "sched_wf s" "done_tokens p \<le> compute_tokens p"
  shows "sched_wf (enqueue s p)"
  using sched_wf_parts [OF assms(1)] sched_wf_order [OF assms(1)] sched_wf_get [OF assms(1)] assms(2)
  by (intro sched_wfI) (auto simp: enqueue_def Let_def hm_simps domIff split: if_splits)

lemma remove_wf [keeps]: "sched_wf s \<Longrightarrow> sched_wf (snd (remove s rid))"
  using sched_wf_parts [of s] sched_wf_order [of s] sched_wf_get [of s]
  by (intro sched_wfI) (auto simp: remove_def hm_simps split: if_splits)

subsection \<open>The batch invariant\<close>

definition chunk_ok :: "prefill_scheduler \<Rightarrow> prefill_chunk \<Rightarrow> bool" where
  "chunk_ok s c = (case hm_get (queue s) (ch_id c) of None \<Rightarrow> False
     | Some p \<Rightarrow> ch_start c = done_tokens p \<and> 0 < ch_tokens c \<and> ch_tokens c \<le> remaining p
         \<and> ch_completes c = (ch_tokens c = remaining p))"

definition deadline_of :: "prefill_scheduler \<Rightarrow> request_id \<Rightarrow> ext" where
  "deadline_of s rid = (case hm_get (queue s) rid of None \<Rightarrow> Infinite | Some p \<Rightarrow> Fin (pp_deadline_ms p))"

definition finish_ms :: "prefill_scheduler \<Rightarrow> millis \<Rightarrow> prefill_batch \<Rightarrow> millis" where
  "finish_ms s now b = now + real (total_tokens b) / effective_rate s"

definition batch_inv :: "prefill_scheduler \<Rightarrow> millis \<Rightarrow> request_id set \<Rightarrow> prefill_batch \<times> ext \<Rightarrow> bool" where
  "batch_inv s now pri st = (case st of (b, binding) \<Rightarrow>
     length (chunks b) \<le> max_seqs (tuning s)
     \<and> total_tokens b = sum_list (map ch_tokens (chunks b)) \<and> total_tokens b \<le> chunk_tokens (tuning s)
     \<and> (\<forall>c \<in> set (chunks b). chunk_ok s c)
     \<and> (\<forall>c \<in> set (chunks b). ch_id c \<in> pri \<longrightarrow> binding \<le> deadline_of s (ch_id c))
     \<and> (2 \<le> length (chunks b) \<longrightarrow> Fin (finish_ms s now b) \<le> binding))"

lemma batch_inv_empty: "batch_inv s now pri (empty_batch, Infinite)"
  by (simp add: batch_inv_def empty_batch_def)

lemma batch_inv_limited [simp]:
  "batch_inv s now pri (b\<lparr>deadline_limited := x\<rparr>, binding) = batch_inv s now pri (b, binding)"
  by (simp add: batch_inv_def finish_ms_def)

lemma batch_inv_est [simp]:
  "batch_inv s now pri (b\<lparr>est_service_ms := x\<rparr>, binding) = batch_inv s now pri (b, binding)"
  by (simp add: batch_inv_def finish_ms_def)

lemma batch_inv_push:
  assumes inv: "batch_inv s now pri (b, binding)"
    and room: "length (chunks b) < max_seqs (tuning s)" "want \<le> chunk_tokens (tuning s) - total_tokens b"
    and p: "hm_get (queue s) rid = Some p" "0 < want" "want \<le> remaining p"
    and dl: "d \<le> binding" "rid \<in> pri \<Longrightarrow> d \<le> Fin (pp_deadline_ms p)"
    and fin: "chunks b \<noteq> [] \<Longrightarrow> Fin (now + real (total_tokens b + want) / effective_rate s) \<le> d"
  shows "batch_inv s now pri
    (b\<lparr>chunks := chunks b @ [\<lparr>ch_id = rid, ch_start = done_tokens p, ch_tokens = want,
         ch_completes = (want = remaining p)\<rparr>], total_tokens := total_tokens b + want\<rparr>, d)"
proof -
  have "2 \<le> length (chunks b @ [x]) \<Longrightarrow> chunks b \<noteq> []" for x by (cases "chunks b") auto
  then show ?thesis
    using inv room p dl fin unfolding batch_inv_def
    by (auto simp: chunk_ok_def deadline_of_def finish_ms_def intro: order_trans)
qed

text \<open>What a pass does with its first candidate: stop, skip it, or take it.\<close>

definition push_chunk :: "request_id \<Rightarrow> pending_prefill \<Rightarrow> nat \<Rightarrow> prefill_batch \<Rightarrow> prefill_batch" where
  "push_chunk rid p want b =
    b\<lparr>chunks := chunks b @ [\<lparr>ch_id = rid, ch_start = done_tokens p, ch_tokens = want,
        ch_completes = (want = remaining p)\<rparr>], total_tokens := total_tokens b + want\<rparr>"

lemma plan_pass_cases:
  fixes s now pass rid ids b binding
  defines "r \<equiv> plan_pass s now pass (rid # ids) (b, binding)"
    and "left \<equiv> chunk_tokens (tuning s) - total_tokens b"
  obtains (stop) x where "r = (b\<lparr>deadline_limited := x\<rparr>, binding)"
      "max_seqs (tuning s) \<le> length (chunks b) \<or> left = 0 \<or> chunks b \<noteq> []"
  | (skip) x where "r = plan_pass s now pass ids (b\<lparr>deadline_limited := x\<rparr>, binding)"
      "hm_get (queue s) rid = None \<or> (\<exists>p. hm_get (queue s) rid = Some p \<and> min (remaining p) left = 0)
         \<or> chunks b \<noteq> []"
  | (push) p want d where "r = plan_pass s now pass ids (push_chunk rid p want b, d)"
      "length (chunks b) < max_seqs (tuning s)" "hm_get (queue s) rid = Some p" "0 < want"
      "want = min (remaining p) left" "d = (if pass then binding else min binding (Fin (pp_deadline_ms p)))"
      "chunks b \<noteq> [] \<Longrightarrow> Fin (now + real (total_tokens b + want) / effective_rate s) \<le> d"
proof -
  have same: "(b, binding) = (b\<lparr>deadline_limited := deadline_limited b\<rparr>, binding)" by simp
  show thesis
  proof (cases "max_seqs (tuning s) \<le> length (chunks b) \<or> left = 0")
    case True
    then show thesis using stop [of "deadline_limited b"] unfolding r_def left_def by auto
  next
    case room: False
    show thesis
    proof (cases "hm_get (queue s) rid")
      case None
      then show thesis using skip [of "deadline_limited b"] room unfolding r_def left_def by auto
    next
      case (Some p)
      define want where "want = min (remaining p) left"
      define d where "d = (if pass then binding else min binding (Fin (pp_deadline_ms p)))"
      define fin where "fin = now + real (total_tokens b + want) / effective_rate s"
      have n: "\<not> max_seqs (tuning s) \<le> length (chunks b)" "\<not> chunk_tokens (tuning s) - total_tokens b = 0"
        using room unfolding left_def by auto
      have r: "r = (if want = 0 then plan_pass s now pass ids (b, binding)
          else if chunks b \<noteq> [] \<and> Fin fin > d
          then (if pass then (b\<lparr>deadline_limited := True\<rparr>, binding)
                else plan_pass s now pass ids (b\<lparr>deadline_limited := True\<rparr>, binding))
          else plan_pass s now pass ids (push_chunk rid p want b, d))"
        unfolding r_def plan_pass.simps Let_def Some option.case if_not_P [OF n(1)] if_not_P [OF n(2)]
          push_chunk_def want_def d_def fin_def left_def by (rule refl)
      show thesis
      proof (cases "want = 0")
        case True
        then have "r = plan_pass s now pass ids (b\<lparr>deadline_limited := deadline_limited b\<rparr>, binding)"
          using r by simp
        moreover have "\<exists>p. hm_get (queue s) rid = Some p \<and> min (remaining p) left = 0"
          using True Some unfolding want_def by blast
        ultimately show thesis by (intro skip) blast+
      next
        case want: False
        show thesis
        proof (cases "chunks b \<noteq> [] \<and> Fin fin > d")
          case True
          then show thesis using r want stop [of True] skip [of True] by (cases pass) auto
        next
          case False
          then show thesis using r want Some room push [of p want d] unfolding want_def d_def fin_def by auto
        qed
      qed
    qed
  qed
qed

declare plan_pass.simps(2) [simp del]

lemma plan_pass_inv:
  "batch_inv s now pri st \<Longrightarrow> (pass \<Longrightarrow> set ids \<inter> pri = {}) \<Longrightarrow>
   batch_inv s now pri (plan_pass s now pass ids st)"
proof (induction ids arbitrary: st)
  case (Cons rid ids)
  obtain b binding where st: "st = (b, binding)" by (cases st)
  show ?case
  proof (cases rule: plan_pass_cases [of s now pass rid ids b binding])
    case (push p want d)
    have "batch_inv s now pri (push_chunk rid p want b, d)" unfolding push_chunk_def
      by (rule batch_inv_push) (use Cons.prems st push in auto)
    then show ?thesis using Cons push(1) st by auto
  qed (use Cons st in auto)
qed simp

lemma plan_pass_ids:
  "\<exists>ys. map ch_id (chunks (fst (plan_pass s now pass ids st))) = map ch_id (chunks (fst st)) @ ys \<and> subseq ys ids"
proof (induction ids arbitrary: st)
  case (Cons rid ids)
  obtain b binding where st: "st = (b, binding)" by (cases st)
  show ?case
  proof (cases rule: plan_pass_cases [of s now pass rid ids b binding])
    case (stop x)
    then show ?thesis using st by (intro exI [of _ "[]"]) auto
  next
    case (skip x)
    then show ?thesis using Cons.IH [of "(b\<lparr>deadline_limited := x\<rparr>, binding)"] st by (auto intro: subseq_Cons2 list_emb_Cons)
  next
    case (push p want d)
    then show ?thesis using Cons.IH [of "(push_chunk rid p want b, d)"] st by (auto simp: push_chunk_def)
  qed
qed auto

text \<open>A pass over a candidate with work left yields at least one chunk.\<close>

lemma plan_pass_progress:
  assumes "chunks (fst st) \<noteq> [] \<or> (\<exists>rid \<in> set ids. \<exists>p. hm_get (queue s) rid = Some p \<and> 0 < remaining p)"
    and "0 < max_seqs (tuning s)" "0 < chunk_tokens (tuning s)"
    and "chunks (fst st) = [] \<Longrightarrow> total_tokens (fst st) = 0"
  shows "chunks (fst (plan_pass s now pass ids st)) \<noteq> []"
  using assms(1,4)
proof (induction ids arbitrary: st)
  case (Cons rid ids)
  obtain b binding where st: "st = (b, binding)" by (cases st)
  show ?case
  proof (cases rule: plan_pass_cases [of s now pass rid ids b binding])
    case (stop x)
    then show ?thesis using st Cons.prems assms(2,3) by auto
  next
    case (skip x)
    then show ?thesis
      using Cons.IH [of "(b\<lparr>deadline_limited := x\<rparr>, binding)"] Cons.prems st assms(3) by (cases "chunks b = []") auto
  next
    case (push p want d)
    then show ?thesis using Cons.IH [of "(push_chunk rid p want b, d)"] st by (auto simp: push_chunk_def)
  qed
qed simp

subsection \<open>What is planned\<close>

lemma subseq_distinct: "subseq xs ys \<Longrightarrow> distinct ys \<Longrightarrow> distinct xs"
  by (induction rule: list_emb.induct) (auto dest: list_emb_set)

lemma queue_jobs_ids: "sched_wf s \<Longrightarrow> map job_id (queue_jobs s) = order s"
proof -
  assume w: "sched_wf s"
  have "set xs \<subseteq> dom (hm_get (queue s)) \<Longrightarrow>
      map job_id (map (job_of (effective_rate s)) (List.map_filter (hm_get (queue s)) xs)) = xs" for xs
    by (induction xs) (auto simp: map_filter_simps job_of_def dest: sched_wf_get [OF w])
  then show ?thesis using sched_wf_order [OF w] by (simp add: queue_jobs_def)
qed

lemma plan_ordering_ids:
  assumes "sched_wf s"
  shows "mset (on_time (plan_ordering s now) @ demoted (plan_ordering s now)) = mset (order s)"
  using order_jobs_mset [of "queue_jobs s" now "policy (tuning s)"] queue_jobs_ids [OF assms]
  by (simp add: plan_ordering_def all_jobs_def)

lemma plan_ordering_distinct:
  assumes "sched_wf s"
  shows "distinct (on_time (plan_ordering s now) @ demoted (plan_ordering s now))"
  using plan_ordering_ids [OF assms, of now] sched_wf_parts [OF assms] mset_eq_imp_distinct_iff by blast

lemma plan_frame [simp]:
  "queue (snd (plan s now)) = queue s" "order (snd (plan s now)) = order s" "tuning (snd (plan s now)) = tuning s"
  by (auto simp: plan_def Let_def split: prod.splits)

lemma plan_wf [keeps]: "sched_wf s \<Longrightarrow> sched_wf (snd (plan s now))"
  unfolding sched_wf_def by simp

definition hopeless_ids :: "prefill_scheduler \<Rightarrow> millis \<Rightarrow> request_id list" where
  "hopeless_ids s now = (if demote_hopeless (tuning s) then demoted (plan_ordering s now) else [])"

lemma plan_fst:
  assumes "queue s \<noteq> []"
  obtains x where "fst (plan s now) = (fst (plan_pass s now True (hopeless_ids s now)
    (plan_pass s now False (on_time (plan_ordering s now)) (empty_batch, Infinite))))\<lparr>est_service_ms := x\<rparr>"
  using assms that unfolding plan_def Let_def hopeless_ids_def split_beta by simp

text \<open>Both passes together.\<close>

lemma plan_result:
  assumes "sched_wf s"
  obtains binding where "batch_inv s now (set (on_time (plan_ordering s now))) (fst (plan s now), binding)"
    "distinct (map ch_id (chunks (fst (plan s now))))"
proof (cases "queue s = []")
  case True
  then show ?thesis using that [of Infinite] batch_inv_empty by (simp add: plan_def empty_batch_def)
next
  case False
  let ?o = "plan_ordering s now"
  let ?h = "hopeless_ids s now"
  define st1 where "st1 = plan_pass s now False (on_time ?o) (empty_batch, Infinite)"
  define st2 where "st2 = plan_pass s now True ?h st1"
  have d: "distinct (on_time ?o @ demoted ?o)" by (rule plan_ordering_distinct [OF assms])
  have "batch_inv s now (set (on_time ?o)) st1"
    unfolding st1_def by (rule plan_pass_inv [OF batch_inv_empty]) simp
  then have i: "batch_inv s now (set (on_time ?o)) st2"
    unfolding st2_def by (rule plan_pass_inv) (use d in \<open>auto simp: hopeless_ids_def\<close>)
  obtain ys1 where y1: "map ch_id (chunks (fst st1)) = ys1" "subseq ys1 (on_time ?o)"
    using plan_pass_ids [of s now False "on_time ?o" "(empty_batch, Infinite)"]
    by (auto simp: st1_def empty_batch_def)
  obtain ys2 where y2: "map ch_id (chunks (fst st2)) = ys1 @ ys2" "subseq ys2 ?h"
    using plan_pass_ids [of s now True ?h st1] y1 by (auto simp: st2_def)
  have "subseq (ys1 @ ys2) (on_time ?o @ demoted ?o)"
    using y1(2) y2(2) by (intro list_emb_append_mono) (auto simp: hopeless_ids_def split: if_splits dest: list_emb_Nil2)
  then have "distinct (ys1 @ ys2)" using d subseq_distinct by blast
  moreover obtain x where "fst (plan s now) = (fst st2)\<lparr>est_service_ms := x\<rparr>"
    using plan_fst [OF False, of now] unfolding st1_def st2_def by blast
  ultimately show ?thesis
    using that [of "snd st2"] i y2(1) by simp
qed

subsection \<open>Completing what was planned conserves the work\<close>

lemma sum_values_update:
  assumes "hm_wf q" "hm_get q k = Some p"
  shows "sum_list (map f (hm_values (hm_insert k p' q))) + f p = sum_list (map f (hm_values q)) + (f p' :: nat)"
  using assms
proof (induction q)
  case (Cons kv q)
  obtain k' v where kv: "kv = (k', v)" by (cases kv)
  show ?case
  proof (cases "k' = k")
    case True
    then show ?thesis using Cons.prems kv by auto
  next
    case False
    then show ?thesis using Cons kv by auto
  qed
qed simp

lemma sum_values_delete:
  assumes "hm_wf q" "hm_get q k = Some p"
  shows "sum_list (map f (hm_values (hm_remove k q))) + f p = sum_list (map f (hm_values q :: 'v list) :: nat list)"
  using assms
proof (induction q)
  case (Cons kv q)
  obtain k' v where kv: "kv = (k', v)" by (cases kv)
  show ?case
  proof (cases "k' = k")
    case True
    then have "k \<notin> fst ` set q" using Cons.prems kv by auto
    then show ?thesis using Cons.prems kv True by simp
  next
    case False
    then show ?thesis using Cons kv by auto
  qed
qed simp

lemma remaining_advance: "n \<le> remaining p \<Longrightarrow> remaining (advance n p) + n = remaining p"
  by (auto simp: remaining_def advance_def)

lemma credit_conserves:
  assumes "hm_wf q" "distinct (map ch_id cs)"
    and "\<forall>c \<in> set cs. \<exists>p. hm_get q (ch_id c) = Some p \<and> ch_tokens c \<le> remaining p"
  shows "sum_list (map remaining (hm_values (snd (credit cs q)))) + sum_list (map ch_tokens cs)
      = sum_list (map remaining (hm_values q))
    \<and> hm_wf (snd (credit cs q)) \<and> hm_keys (snd (credit cs q)) = hm_keys q
    \<and> (\<forall>rid \<in> set (fst (credit cs q)). \<exists>p. hm_get (snd (credit cs q)) rid = Some p \<and> remaining p = 0)
    \<and> distinct (fst (credit cs q)) \<and> set (fst (credit cs q)) \<subseteq> ch_id ` set cs
    \<and> (\<forall>k. k \<notin> ch_id ` set cs \<longrightarrow> hm_get (snd (credit cs q)) k = hm_get q k)"
  using assms
proof (induction cs arbitrary: q)
  case Nil
  then show ?case by simp
next
  case (Cons c cs)
  obtain p where p: "hm_get q (ch_id c) = Some p" "ch_tokens c \<le> remaining p" using Cons.prems(3) by auto
  let ?p = "advance (ch_tokens c) p"
  let ?q = "hm_insert (ch_id c) ?p q"
  have nc: "ch_id c \<notin> ch_id ` set cs" using Cons.prems(2) by auto
  have "\<forall>c' \<in> set cs. \<exists>p. hm_get ?q (ch_id c') = Some p \<and> ch_tokens c' \<le> remaining p"
  proof
    fix c' assume c': "c' \<in> set cs"
    then have "ch_id c' \<noteq> ch_id c" using nc by (metis imageI)
    then show "\<exists>p. hm_get ?q (ch_id c') = Some p \<and> ch_tokens c' \<le> remaining p"
      using Cons.prems(3) c' by (simp add: hm_simps)
  qed
  from Cons.IH [OF _ _ this] Cons.prems
  have IH: "sum_list (map remaining (hm_values (snd (credit cs ?q)))) + sum_list (map ch_tokens cs)
      = sum_list (map remaining (hm_values ?q))" "hm_wf (snd (credit cs ?q))"
    "hm_keys (snd (credit cs ?q)) = hm_keys ?q"
    "\<forall>rid \<in> set (fst (credit cs ?q)). \<exists>p. hm_get (snd (credit cs ?q)) rid = Some p \<and> remaining p = 0"
    "distinct (fst (credit cs ?q))" "set (fst (credit cs ?q)) \<subseteq> ch_id ` set cs"
    "\<forall>k. k \<notin> ch_id ` set cs \<longrightarrow> hm_get (snd (credit cs ?q)) k = hm_get ?q k" by auto
  have "sum_list (map remaining (hm_values ?q)) + ch_tokens c = sum_list (map remaining (hm_values q))"
    using sum_values_update [OF Cons.prems(1) p(1), of remaining ?p] remaining_advance [OF p(2)] by linarith
  moreover have "hm_keys ?q = hm_keys q"
    using hm_modify_keys [of "ch_id c" "advance (ch_tokens c)" q] p(1) by (simp add: hm_modify_def)
  moreover have "hm_get (snd (credit cs ?q)) (ch_id c) = Some ?p" using IH(7) nc by (simp add: hm_simps)
  ultimately show ?case
    using IH p nc by (auto simp: split_beta Let_def is_complete_def hm_simps)
qed

lemma credit_entries:
  assumes "hm_get (snd (credit cs q)) k = Some p"
    and "\<And>k p. hm_get q k = Some p \<Longrightarrow> pp_id p = k \<and> done_tokens p \<le> compute_tokens p"
  shows "pp_id p = k \<and> done_tokens p \<le> compute_tokens p"
  using assms
proof (induction cs arbitrary: q)
  case (Cons c cs)
  show ?case
  proof (cases "hm_get q (ch_id c)")
    case None
    then show ?thesis using Cons by auto
  next
    case (Some p')
    have "hm_get (snd (credit cs (hm_insert (ch_id c) (advance (ch_tokens c) p') q))) k = Some p"
      using Cons.prems(1) Some by (simp add: split_beta Let_def)
    then show ?thesis
      by (rule Cons.IH) (use Cons.prems(2) Some in \<open>auto simp: hm_simps advance_def split: if_splits\<close>)
  qed
qed simp

lemma credit_finished:
  assumes "distinct (map ch_id cs)"
    and "\<forall>c \<in> set cs. \<exists>p. hm_get q (ch_id c) = Some p \<and> ch_tokens c \<le> remaining p
           \<and> ch_completes c = (ch_tokens c = remaining p)"
  shows "fst (credit cs q) = map ch_id (filter ch_completes cs)"
  using assms
proof (induction cs arbitrary: q)
  case (Cons c cs)
  obtain p where p: "hm_get q (ch_id c) = Some p" "ch_tokens c \<le> remaining p"
    "ch_completes c = (ch_tokens c = remaining p)" using Cons.prems(2) by auto
  let ?q = "hm_insert (ch_id c) (advance (ch_tokens c) p) q"
  have "fst (credit cs ?q) = map ch_id (filter ch_completes cs)"
  proof (rule Cons.IH)
    show "\<forall>c' \<in> set cs. \<exists>p. hm_get ?q (ch_id c') = Some p \<and> ch_tokens c' \<le> remaining p
        \<and> ch_completes c' = (ch_tokens c' = remaining p)"
    proof
      fix c' assume c': "c' \<in> set cs"
      then have "ch_id c' \<noteq> ch_id c" using Cons.prems(1) by (metis distinct.simps(2) imageI list.set_map list.simps(9))
      then show "\<exists>p. hm_get ?q (ch_id c') = Some p \<and> ch_tokens c' \<le> remaining p
          \<and> ch_completes c' = (ch_tokens c' = remaining p)"
        using Cons.prems(2) c' by (simp add: hm_simps)
    qed
  qed (use Cons.prems in simp)
  moreover have "is_complete (advance (ch_tokens c) p) = ch_completes c"
    using remaining_advance [OF p(2)] p by (auto simp: is_complete_def)
  ultimately show ?case using p(1) by (simp add: split_beta Let_def)
qed simp

lemma remove_finished:
  assumes "sched_wf s" "distinct fin"
    and "\<forall>rid \<in> set fin. \<exists>p. hm_get (queue s) rid = Some p \<and> remaining p = 0"
  shows "sched_wf (foldl (\<lambda>s rid. snd (remove s rid)) s fin)
    \<and> queued_tokens (foldl (\<lambda>s rid. snd (remove s rid)) s fin) = queued_tokens s
    \<and> tuning (foldl (\<lambda>s rid. snd (remove s rid)) s fin) = tuning s
    \<and> hm_get (queue (foldl (\<lambda>s rid. snd (remove s rid)) s fin)) = (hm_get (queue s)) |` (- set fin)"
  using assms
proof (induction fin arbitrary: s)
  case Nil
  then show ?case by (simp add: restrict_map_def)
next
  case (Cons rid fin)
  let ?s = "snd (remove s rid)"
  obtain p where p: "hm_get (queue s) rid = Some p" "remaining p = 0" using Cons.prems by auto
  have q: "queued_tokens ?s = queued_tokens s"
    using sum_values_delete [of "queue s" rid p remaining] p sched_wf_parts [OF Cons.prems(1)]
    by (simp add: remove_def queued_tokens_def)
  have "\<forall>r \<in> set fin. \<exists>p. hm_get (queue ?s) r = Some p \<and> remaining p = 0"
    using Cons.prems by (auto simp: remove_def hm_simps)
  from Cons.IH [OF remove_wf [OF Cons.prems(1)] _ this] Cons.prems(2) q show ?case
    by (auto simp: remove_def hm_simps restrict_map_def fun_eq_iff)
qed

lemma batch_chunk:
  "batch_inv s now pri (b, d) \<Longrightarrow> c \<in> set (chunks b) \<Longrightarrow>
   \<exists>p. hm_get (queue s) (ch_id c) = Some p \<and> ch_start c = done_tokens p \<and> 0 < ch_tokens c
     \<and> ch_tokens c \<le> remaining p \<and> ch_completes c = (ch_tokens c = remaining p)"
  by (auto simp: batch_inv_def chunk_ok_def split: option.splits)

lemma observe_rate_frame [simp]:
  "queue (observe_rate s b e) = queue s" "order (observe_rate s b e) = order s"
  "chunk_tokens (tuning (observe_rate s b e)) = chunk_tokens (tuning s)"
  "max_seqs (tuning (observe_rate s b e)) = max_seqs (tuning s)"
  "policy (tuning (observe_rate s b e)) = policy (tuning s)"
  "demote_hopeless (tuning (observe_rate s b e)) = demote_hopeless (tuning s)"
  by (simp_all add: observe_rate_def Let_def)

text \<open>A request with tokens left to compute.\<close>

definition has_work :: "prefill_scheduler \<Rightarrow> request_id \<Rightarrow> bool" where
  "has_work s rid \<longleftrightarrow> (\<exists>p. hm_get (queue s) rid = Some p \<and> 0 < remaining p)"

lemma credit_get:
  assumes "distinct (map ch_id cs)" "c \<in> set cs" "hm_get q (ch_id c) = Some p"
  shows "hm_get (snd (credit cs q)) (ch_id c) = Some (advance (ch_tokens c) p)"
  using assms
proof (induction cs arbitrary: q)
  case (Cons x cs)
  have other: "hm_get (snd (credit cs q')) (ch_id x) = hm_get q' (ch_id x)" for q'
  proof -
    have "ch_id x \<notin> ch_id ` set cs" using Cons.prems(1) by auto
    then show ?thesis
      by (induction cs arbitrary: q') (auto simp: split_beta Let_def hm_simps split: option.split)
  qed
  show ?case
  proof (cases "c = x")
    case True
    then show ?thesis using Cons.prems(3) other by (simp add: split_beta Let_def hm_simps)
  next
    case False
    then have c: "c \<in> set cs" "ch_id c \<noteq> ch_id x" using Cons.prems(1,2) by (auto simp: image_iff)
    then show ?thesis using Cons.IH [OF _ c(1)] Cons.prems(1,3) by (auto simp: split_beta Let_def hm_simps split: option.split)
  qed
qed simp

text \<open>Parameters of the scheduler that no operation changes.\<close>

definition same_limits :: "prefill_scheduler \<Rightarrow> prefill_scheduler \<Rightarrow> bool" where
  "same_limits s t \<longleftrightarrow> chunk_tokens (tuning s) = chunk_tokens (tuning t)
     \<and> max_seqs (tuning s) = max_seqs (tuning t) \<and> policy (tuning s) = policy (tuning t)
     \<and> demote_hopeless (tuning s) = demote_hopeless (tuning t)"

lemma plan_complete_round:
  fixes now elapsed :: real
  assumes w: "sched_wf s"
  defines "b \<equiv> fst (plan s now)" and "r \<equiv> complete (snd (plan s now)) (fst (plan s now)) elapsed"
  shows "queued_tokens (snd r) + total_tokens b = queued_tokens s \<and> sched_wf (snd r)
    \<and> fst r = map ch_id (filter ch_completes (chunks b)) \<and> same_limits (snd r) s
    \<and> hm_get (queue (snd r)) = hm_get (snd (credit (chunks b) (queue s))) |` (- set (fst r))"
proof -
  obtain d where i: "batch_inv s now (set (on_time (plan_ordering s now))) (b, d)"
    and dis: "distinct (map ch_id (chunks b))"
    using plan_result [OF w] unfolding b_def by metis
  define s1 where "s1 = observe_rate (snd (plan s now)) b elapsed"
  define c where "c = credit (chunks b) (queue s1)"
  have q1: "queue s1 = queue s" "order s1 = order s" by (simp_all add: s1_def)
  have ok: "\<forall>c \<in> set (chunks b). \<exists>p. hm_get (queue s1) (ch_id c) = Some p \<and> ch_tokens c \<le> remaining p"
    "\<forall>c \<in> set (chunks b). \<exists>p. hm_get (queue s1) (ch_id c) = Some p \<and> ch_tokens c \<le> remaining p
       \<and> ch_completes c = (ch_tokens c = remaining p)"
    using batch_chunk [OF i] unfolding q1 by blast+
  have hw: "hm_wf (queue s1)" using sched_wf_parts [OF w] q1 by simp
  note C = credit_conserves [OF hw dis ok(1), folded c_def]
  have fin: "fst c = map ch_id (filter ch_completes (chunks b))"
    unfolding c_def by (rule credit_finished [OF dis ok(2)])
  have w2: "sched_wf (s1\<lparr>queue := snd c\<rparr>)"
  proof (rule sched_wfI)
    show "set (order (s1\<lparr>queue := snd c\<rparr>)) = dom (hm_get (queue (s1\<lparr>queue := snd c\<rparr>)))"
      using sched_wf_order [OF w] C q1 by (metis hm.keys_get prefill_scheduler.ext_inject
          prefill_scheduler.surjective prefill_scheduler.update_convs(2))
    show "pp_id p = k \<and> done_tokens p \<le> compute_tokens p" if "hm_get (queue (s1\<lparr>queue := snd c\<rparr>)) k = Some p" for k p
      using that credit_entries [of "chunks b" "queue s1" k p] sched_wf_get [OF w] q1 by (simp add: c_def)
  qed (use C sched_wf_parts [OF w] q1 in auto)
  have r: "r = (fst c, foldl (\<lambda>s rid. snd (remove s rid)) (s1\<lparr>queue := snd c\<rparr>) (fst c))"
    unfolding r_def complete_def c_def s1_def b_def by (simp add: Let_def split_beta)
  have "\<forall>rid \<in> set (fst c). \<exists>p. hm_get (queue (s1\<lparr>queue := snd c\<rparr>)) rid = Some p \<and> remaining p = 0"
    using C by simp
  from remove_finished [OF w2 _ this] C
  have R: "sched_wf (snd r)" "queued_tokens (snd r) = queued_tokens (s1\<lparr>queue := snd c\<rparr>)"
    "tuning (snd r) = tuning s1" "hm_get (queue (snd r)) = hm_get (snd c) |` (- set (fst r))" unfolding r by auto
  have "total_tokens b = sum_list (map ch_tokens (chunks b))" using i by (simp add: batch_inv_def)
  then show ?thesis
    using R C fin q1 unfolding r by (auto simp: queued_tokens_def same_limits_def s1_def c_def)
qed

text \<open>What a round does to a request: it is reported when its last token was computed, and then it is gone; otherwise it has work exactly when it
  had work, and an entry without work is not touched.\<close>

lemma round_queue:
  fixes now elapsed :: real
  assumes w: "sched_wf s"
  defines "r \<equiv> complete (snd (plan s now)) (fst (plan s now)) elapsed"
  shows "distinct (fst r)" "rid \<in> set (fst r) \<Longrightarrow> has_work s rid \<and> hm_get (queue (snd r)) rid = None"
    "rid \<notin> set (fst r) \<Longrightarrow> has_work (snd r) rid = has_work s rid"
    "\<not> has_work s rid \<Longrightarrow> hm_get (queue (snd r)) rid = hm_get (queue s) rid"
proof -
  let ?b = "fst (plan s now)"
  obtain d where i: "batch_inv s now (set (on_time (plan_ordering s now))) (?b, d)" and dis: "distinct (map ch_id (chunks ?b))"
    using plan_result [OF w] by metis
  have fin: "fst r = map ch_id (filter ch_completes (chunks ?b))"
    and q: "hm_get (queue (snd r)) = hm_get (snd (credit (chunks ?b) (queue s))) |` (- set (fst r))"
    using plan_complete_round [OF w, of now elapsed] by (simp_all add: r_def)
  have ok: "\<exists>p. hm_get (queue s) (ch_id c) = Some p \<and> 0 < ch_tokens c \<and> ch_tokens c \<le> remaining p \<and> ch_completes c = (ch_tokens c = remaining p)"
    if "c \<in> set (chunks ?b)" for c using batch_chunk [OF i that] by blast
  have same: "hm_get (snd (credit (chunks ?b) (queue s))) rid = hm_get (queue s) rid" if "rid \<notin> ch_id ` set (chunks ?b)"
    using credit_conserves [OF _ dis, of "queue s"] sched_wf_parts [OF w] ok that by blast
  show "distinct (fst r)" unfolding fin by (rule distinct_map_filter [OF dis])
  have gone: "has_work s rid" if "rid \<in> ch_id ` set (chunks ?b)" using that ok by (fastforce simp: has_work_def)
  then show "rid \<in> set (fst r) \<Longrightarrow> has_work s rid \<and> hm_get (queue (snd r)) rid = None"
    unfolding q fin by (auto simp: restrict_map_def)
  show "hm_get (queue (snd r)) rid = hm_get (queue s) rid" if "\<not> has_work s rid"
  proof -
    have "rid \<notin> ch_id ` set (chunks ?b)" using gone that by blast
    then show ?thesis using same unfolding q fin by (auto simp: restrict_map_def)
  qed
  show "has_work (snd r) rid = has_work s rid" if n: "rid \<notin> set (fst r)"
  proof (cases "rid \<in> ch_id ` set (chunks ?b)")
    case True
    then obtain c where c: "c \<in> set (chunks ?b)" "rid = ch_id c" by blast
    obtain p where p: "hm_get (queue s) rid = Some p" "0 < ch_tokens c" "ch_tokens c \<le> remaining p" "ch_completes c = (ch_tokens c = remaining p)"
      using ok [OF c(1)] c(2) by blast
    have "ch_tokens c < remaining p" using n c p(3,4) unfolding fin by auto
    moreover have "hm_get (queue (snd r)) rid = Some (advance (ch_tokens c) p)"
      using credit_get [OF dis c(1)] p(1) c(2) n unfolding q by simp
    ultimately show ?thesis using p(1) remaining_advance [OF p(3)] by (simp add: has_work_def)
  next
    case False
    then show ?thesis using same n unfolding has_work_def q by simp
  qed
qed

subsection \<open>Draining the queue\<close>

text \<open>Rounds of planning and completing at given times, as the worker loop performs them.\<close>

fun drain :: "(millis \<times> real) list \<Rightarrow> prefill_scheduler \<Rightarrow> prefill_scheduler" where
  "drain [] s = s"
| "drain ((now, elapsed) # ts) s = drain ts (snd (complete (snd (plan s now)) (fst (plan s now)) elapsed))"

text \<open>The requests those rounds report as finished, in order.\<close>

fun drained :: "(millis \<times> real) list \<Rightarrow> prefill_scheduler \<Rightarrow> request_id list" where
  "drained [] s = []"
| "drained ((now, elapsed) # ts) s =
     (let r = complete (snd (plan s now)) (fst (plan s now)) elapsed in fst r @ drained ts (snd r))"

lemma drain_account:
  assumes "sched_wf s"
  shows "distinct (drained ts s)
    \<and> (\<forall>rid. if rid \<in> set (drained ts s) then has_work s rid \<and> hm_get (queue (drain ts s)) rid = None
        else has_work (drain ts s) rid = has_work s rid \<and> (\<not> has_work s rid \<longrightarrow> hm_get (queue (drain ts s)) rid = hm_get (queue s) rid))"
  using assms
proof (induction ts arbitrary: s)
  case (Cons t ts)
  obtain now el where t: "t = (now, el)" by (cases t)
  let ?r = "complete (snd (plan s now)) (fst (plan s now)) el"
  have wf: "sched_wf (snd ?r)" using plan_complete_round [OF Cons.prems, of now el] by simp
  note IH = Cons.IH [OF wf] and R = round_queue [OF Cons.prems, where now = now and elapsed = el]
  have no: "\<not> has_work (snd ?r) rid" if "rid \<in> set (fst ?r)" for rid using R(2) [OF that] by (simp add: has_work_def)
  have "set (fst ?r) \<inter> set (drained ts (snd ?r)) = {}" using IH no by (metis disjoint_iff)
  then have d: "distinct (drained (t # ts) s)" using R(1) IH by (simp add: t Let_def)
  have "if rid \<in> set (drained (t # ts) s) then has_work s rid \<and> hm_get (queue (drain (t # ts) s)) rid = None
        else has_work (drain (t # ts) s) rid = has_work s rid
          \<and> (\<not> has_work s rid \<longrightarrow> hm_get (queue (drain (t # ts) s)) rid = hm_get (queue s) rid)" for rid
  proof (cases "rid \<in> set (fst ?r)")
    case True
    then have "rid \<notin> set (drained ts (snd ?r))" using IH no by metis
    then have "hm_get (queue (drain ts (snd ?r))) rid = None" using IH no [OF True] R(2) [OF True] by metis
    then show ?thesis using True R(2) [OF True] by (simp add: t Let_def)
  next
    case False
    then show ?thesis using IH [THEN conjunct2, rule_format, of rid] R(3) [OF False] R(4) [of rid]
      by (auto simp: t Let_def split: if_splits)
  qed
  then show ?case using d by blast
qed simp

text \<open>The configurations in which every queued id is a candidate.\<close>

definition runs_everything :: "prefill_scheduler \<Rightarrow> bool" where
  "runs_everything s \<longleftrightarrow> 0 < max_seqs (tuning s) \<and> 0 < chunk_tokens (tuning s)
     \<and> (demote_hopeless (tuning s) \<or> policy (tuning s) \<noteq> MooreHodgson)"

lemma plan_nonempty:
  assumes w: "sched_wf s" and c: "runs_everything s" and q: "hm_get (queue s) rid = Some p" "0 < remaining p"
  shows "chunks (fst (plan s now)) \<noteq> []"
proof -
  let ?o = "plan_ordering s now"
  let ?h = "hopeless_ids s now"
  define st1 where "st1 = plan_pass s now False (on_time ?o) (empty_batch, Infinite)"
  have ne: "queue s \<noteq> []" using q by auto
  have "rid \<in> set (order s)" using q sched_wf_order [OF w] by blast
  then have "rid \<in> set (on_time ?o @ demoted ?o)" using plan_ordering_ids [OF w, of now] by (metis mset_eq_setD)
  moreover have "policy (tuning s) \<noteq> MooreHodgson \<Longrightarrow> demoted ?o = []"
    by (cases "policy (tuning s)") (simp_all add: plan_ordering_def)
  ultimately have rid: "rid \<in> set (on_time ?o) \<or> rid \<in> set ?h"
    using c by (auto simp: runs_everything_def hopeless_ids_def)
  have pos: "0 < max_seqs (tuning s)" "0 < chunk_tokens (tuning s)" using c by (auto simp: runs_everything_def)
  have inv: "batch_inv s now {} st1" unfolding st1_def by (rule plan_pass_inv [OF batch_inv_empty]) simp
  have t: "chunks (fst st1) = [] \<Longrightarrow> total_tokens (fst st1) = 0"
    using inv by (cases st1) (simp add: batch_inv_def)
  have "chunks (fst st1) \<noteq> [] \<or> (\<exists>rid \<in> set ?h. \<exists>p. hm_get (queue s) rid = Some p \<and> 0 < remaining p)"
  proof (cases "rid \<in> set (on_time ?o)")
    case True
    then have "chunks (fst st1) \<noteq> []" unfolding st1_def
      by (intro plan_pass_progress) (use q pos in \<open>auto simp: empty_batch_def\<close>)
    then show ?thesis by blast
  next
    case False
    then show ?thesis using rid q by blast
  qed
  then have "chunks (fst (plan_pass s now True ?h st1)) \<noteq> []" by (rule plan_pass_progress) (use pos t in auto)
  then show ?thesis using plan_fst [OF ne, of now] unfolding st1_def by (metis prefill_batch.ext_inject
        prefill_batch.surjective prefill_batch.update_convs(3))
qed

lemma plan_positive:
  assumes "sched_wf s" "runs_everything s" "0 < queued_tokens s"
  shows "0 < total_tokens (fst (plan s now))"
proof -
  have "\<exists>p \<in> set (hm_values (queue s)). 0 < remaining p"
  proof (rule ccontr)
    assume "\<not> ?thesis"
    then have "map remaining (hm_values (queue s)) = map (\<lambda>_. 0) (hm_values (queue s))" by auto
    then have "queued_tokens s = sum_list (map (\<lambda>_. 0 :: nat) (hm_values (queue s)))"
      unfolding queued_tokens_def by (rule arg_cong)
    moreover have "sum_list (map (\<lambda>_. 0 :: nat) xs) = 0" for xs :: "pending_prefill list" by (induction xs) simp_all
    ultimately have "queued_tokens s = 0" by simp
    then show False using assms(3) by simp
  qed
  then obtain rid p where "hm_get (queue s) rid = Some p" "0 < remaining p"
    using hm_values_get sched_wf_parts [OF assms(1)] by metis
  then have ne: "chunks (fst (plan s now)) \<noteq> []" by (rule plan_nonempty [OF assms(1,2)])
  obtain d where i: "batch_inv s now (set (on_time (plan_ordering s now))) (fst (plan s now), d)"
    using plan_result [OF assms(1)] by metis
  obtain c where "c \<in> set (chunks (fst (plan s now)))" using ne by (meson last_in_set)
  then have "0 < ch_tokens c" "ch_tokens c \<in> set (map ch_tokens (chunks (fst (plan s now))))"
    using batch_chunk [OF i] by auto
  then show ?thesis using i member_le_sum_list [of "ch_tokens c"] by (fastforce simp: batch_inv_def)
qed

lemma same_limits_runs: "same_limits s t \<Longrightarrow> runs_everything t \<Longrightarrow> runs_everything s"
  by (simp add: same_limits_def runs_everything_def)

lemma drain_empties:
  "sched_wf s \<Longrightarrow> runs_everything s \<Longrightarrow> queued_tokens s \<le> length ts \<Longrightarrow> queued_tokens (drain ts s) = 0"
proof (induction ts arbitrary: s)
  case (Cons t ts)
  obtain now el where t: "t = (now, el)" by (cases t)
  let ?s = "snd (complete (snd (plan s now)) (fst (plan s now)) el)"
  have r: "queued_tokens ?s + total_tokens (fst (plan s now)) = queued_tokens s" "sched_wf ?s" "same_limits ?s s"
    using plan_complete_round [OF Cons.prems(1), of now el] by auto
  have "queued_tokens s = 0 \<or> 0 < total_tokens (fst (plan s now))"
    using plan_positive [OF Cons.prems(1,2), of now] by (cases "queued_tokens s = 0") simp_all
  then have "queued_tokens ?s \<le> length ts" using r(1) Cons.prems(3) by auto
  then show ?case using Cons.IH [OF r(2) same_limits_runs [OF r(3) Cons.prems(2)]] t by simp
qed simp

subsection \<open>Properties\<close>

text \<open>C3. The planned batch is within its budgets: at most \<open>max_seqs\<close> chunks of distinct
  requests, at most \<open>chunk_tokens\<close> tokens in total, and every chunk starts where its
  request left off, computes at least one and at most the remaining tokens, and is marked
  as completing exactly when it takes all of them. The queue is unchanged.\<close>

theorem plan_within_budget:
  assumes "sched_wf s"
  shows "length (chunks (fst (plan s now))) \<le> max_seqs (tuning s)
    \<and> total_tokens (fst (plan s now)) = sum_list (map ch_tokens (chunks (fst (plan s now))))
    \<and> total_tokens (fst (plan s now)) \<le> chunk_tokens (tuning s)
    \<and> distinct (map ch_id (chunks (fst (plan s now))))
    \<and> (\<forall>c \<in> set (chunks (fst (plan s now))). \<exists>p. hm_get (queue s) (ch_id c) = Some p
         \<and> ch_start c = done_tokens p \<and> 0 < ch_tokens c \<and> ch_tokens c \<le> remaining p
         \<and> ch_completes c = (ch_tokens c = remaining p))
    \<and> queue (snd (plan s now)) = queue s"
proof -
  obtain d where i: "batch_inv s now (set (on_time (plan_ordering s now))) (fst (plan s now), d)"
    and dis: "distinct (map ch_id (chunks (fst (plan s now))))"
    using plan_result [OF assms] by metis
  have "length (chunks (fst (plan s now))) \<le> max_seqs (tuning s)"
    "total_tokens (fst (plan s now)) = sum_list (map ch_tokens (chunks (fst (plan s now))))"
    "total_tokens (fst (plan s now)) \<le> chunk_tokens (tuning s)"
    using i by (simp_all add: batch_inv_def)
  then show ?thesis using batch_chunk [OF i] dis plan_frame(1) by blast
qed

definition slack_queue :: prefill_scheduler where
  "slack_queue = foldl enqueue (sched_new default_tuning)
     (map (\<lambda>i. \<lparr>pp_id = i, pp_arrival_ms = 0, pp_deadline_ms = 3000, compute_tokens = 4000, done_tokens = 0\<rparr>)
       [0, 1, 2, 3])"

lemma sched_wf_new: "sched_wf (sched_new t)"
  by (simp add: sched_wf_def sched_new_def)

lemma slack_queue_wf: "sched_wf slack_queue"
  unfolding slack_queue_def by (simp add: enqueue_wf sched_wf_new)

theorem plan_within_budget_witness: "total_tokens (fst (plan slack_queue 0)) \<le> 16384"
  using plan_within_budget [OF slack_queue_wf, of 0]
  by (simp add: slack_queue_def enqueue_def Let_def sched_new_def default_tuning_def)

text \<open>The batch refuses to fill up when deadlines are tight: a batch of two or more
  chunks is estimated to finish no later than the deadline of every member the ordering
  still considers on time.\<close>

theorem plan_deadline_feasible:
  assumes "sched_wf s" "2 \<le> length (chunks (fst (plan s now)))"
    and "c \<in> set (chunks (fst (plan s now)))" "ch_id c \<in> set (on_time (plan_ordering s now))"
    and "hm_get (queue s) (ch_id c) = Some p"
  shows "finish_ms s now (fst (plan s now)) \<le> pp_deadline_ms p"
proof -
  obtain d where i: "batch_inv s now (set (on_time (plan_ordering s now))) (fst (plan s now), d)"
    using plan_result [OF assms(1)] by metis
  then have "Fin (finish_ms s now (fst (plan s now))) \<le> d" "d \<le> deadline_of s (ch_id c)"
    using assms by (auto simp: batch_inv_def)
  then have "Fin (finish_ms s now (fst (plan s now))) \<le> Fin (pp_deadline_ms p)"
    using assms(5) order_trans [of "Fin (finish_ms s now (fst (plan s now)))" d "Fin (pp_deadline_ms p)"]
    by (simp add: deadline_of_def)
  then show ?thesis by simp
qed

definition pair_queue :: prefill_scheduler where
  "pair_queue = foldl enqueue (sched_new (default_tuning\<lparr>tokens_per_ms := 100\<rparr>))
     [\<lparr>pp_id = 1, pp_arrival_ms = 0, pp_deadline_ms = 300, compute_tokens = 4000, done_tokens = 0\<rparr>,
      \<lparr>pp_id = 2, pp_arrival_ms = 5, pp_deadline_ms = 200, compute_tokens = 6000, done_tokens = 1000\<rparr>]"

lemma pair_queue_wf: "sched_wf pair_queue"
  unfolding pair_queue_def by (simp add: enqueue_wf sched_wf_new)

lemma pair_queue_unfold:
  "pair_queue = \<lparr>tuning = default_tuning\<lparr>tokens_per_ms := 100\<rparr>,
     queue = [(1, \<lparr>pp_id = 1, pp_arrival_ms = 0, pp_deadline_ms = 300, compute_tokens = 4000, done_tokens = 0\<rparr>),
       (2, \<lparr>pp_id = 2, pp_arrival_ms = 5, pp_deadline_ms = 200, compute_tokens = 6000, done_tokens = 1000\<rparr>)],
     order = [1, 2], demoted_ids = {}\<rparr>"
  by (simp add: pair_queue_def enqueue_def sched_new_def Let_def)

lemma pair_queue_rate: "effective_rate pair_queue = 100"
  by (simp add: effective_rate_def pair_queue_unfold MIN_POSITIVE_def)

lemma pair_queue_ordering: "plan_ordering pair_queue 0 = \<lparr>on_time = [2, 1], demoted = []\<rparr>"
  by (simp add: plan_ordering_def queue_jobs_def pair_queue_rate) (simp add: pair_queue_unfold
      default_tuning_def moore_hodgson_def mh_loop_def mh_step_def job_of_def edf_key_def remaining_def Let_def)

lemma pair_queue_fields:
  "max_seqs (tuning pair_queue) = 8" "chunk_tokens (tuning pair_queue) = 16384" "queue pair_queue \<noteq> []"
  "hm_get (queue pair_queue) 1 =
     Some \<lparr>pp_id = 1, pp_arrival_ms = 0, pp_deadline_ms = 300, compute_tokens = 4000, done_tokens = 0\<rparr>"
  "hm_get (queue pair_queue) 2 =
     Some \<lparr>pp_id = 2, pp_arrival_ms = 5, pp_deadline_ms = 200, compute_tokens = 6000, done_tokens = 1000\<rparr>"
  by (simp_all add: pair_queue_unfold default_tuning_def)

lemma pair_queue_plan:
  "fst (plan pair_queue 0) = \<lparr>chunks = [\<lparr>ch_id = 2, ch_start = 1000, ch_tokens = 5000, ch_completes = True\<rparr>,
       \<lparr>ch_id = 1, ch_start = 0, ch_tokens = 4000, ch_completes = True\<rparr>],
     total_tokens = 9000, est_service_ms = 90, deadline_limited = False\<rparr>"
  unfolding plan_def pair_queue_ordering
  by (simp add: pair_queue_rate plan_pass.simps Let_def pair_queue_fields empty_batch_def remaining_def del: One_nat_def)

theorem plan_deadline_feasible_witness: "finish_ms pair_queue 0 (fst (plan pair_queue 0)) \<le> 200"
proof -
  let ?c = "\<lparr>ch_id = 2, ch_start = 1000, ch_tokens = 5000, ch_completes = True\<rparr>"
  let ?p = "\<lparr>pp_id = 2, pp_arrival_ms = 5, pp_deadline_ms = 200, compute_tokens = 6000, done_tokens = 1000\<rparr>"
  have "finish_ms pair_queue 0 (fst (plan pair_queue 0)) \<le> pp_deadline_ms ?p"
    by (rule plan_deadline_feasible [OF pair_queue_wf, where c = ?c])
      (simp_all add: pair_queue_plan pair_queue_ordering, simp add: pair_queue_unfold)
  then show ?thesis by simp
qed

text \<open>C22. Work is conserved. Completing the batch that was just planned takes exactly the
  batch's tokens off the queued work, reports as finished exactly the requests whose chunk
  was marked as completing, and keeps the queue and its order consistent.\<close>

theorem plan_then_complete_conserves_work:
  assumes "sched_wf s" "plan s now = (b, s')" "complete s' b elapsed = (fin, s'')"
  shows "queued_tokens s'' + total_tokens b = queued_tokens s
    \<and> fin = map ch_id (filter ch_completes (chunks b)) \<and> sched_wf s''"
  using plan_complete_round [OF assms(1), of now elapsed] assms(2,3) by simp

theorem plan_then_complete_conserves_work_witness:
  "queued_tokens (snd (complete (snd (plan pair_queue 0)) (fst (plan pair_queue 0)) 90)) = 0
   \<and> fst (complete (snd (plan pair_queue 0)) (fst (plan pair_queue 0)) 90) = [2, 1]"
proof -
  have "queued_tokens pair_queue = 9000"
    by (simp add: queued_tokens_def pair_queue_unfold remaining_def)
  then show ?thesis
    using plan_then_complete_conserves_work [OF pair_queue_wf prod.collapse [symmetric] prod.collapse [symmetric], of 0 90]
    by (simp add: pair_queue_plan)
qed

text \<open>C31. The queue drains. Assume that the batch budgets are positive and that hopeless requests are demoted rather than dropped, or that the policy
  demotes nothing (\<open>runs_everything\<close>; without it a hopeless request starves, \<open>hopeless_starves_without_demotion\<close>). Then, whatever the clock readings and measured
  times, over as many rounds of planning and completing as there are queued tokens, every request that had a token left to compute is
  reported as finished exactly once and leaves the queue, and nothing else is reported. What stays in the queue are exactly the requests
  without a token left to compute, untouched: they are never planned (\<open>nothing_left_is_never_planned\<close>).\<close>

theorem drain_leaves_no_work:
  assumes "sched_wf s" "runs_everything s" "queued_tokens s \<le> length ts"
  shows "queued_tokens (drain ts s) = 0 \<and> distinct (drained ts s)
    \<and> set (drained ts s) = {rid. \<exists>p. hm_get (queue s) rid = Some p \<and> 0 < remaining p}
    \<and> (\<forall>rid. hm_get (queue (drain ts s)) rid = (if rid \<in> set (drained ts s) then None else hm_get (queue s) rid))"
proof -
  have z: "queued_tokens (drain ts s) = 0" using assms by (rule drain_empties)
  have none: "\<not> has_work (drain ts s) rid" for rid
  proof
    assume "has_work (drain ts s) rid"
    then obtain p where p: "hm_get (queue (drain ts s)) rid = Some p" "0 < remaining p" by (auto simp: has_work_def)
    have "remaining p \<in> set (map remaining (hm_values (queue (drain ts s))))"
      using map_of_SomeD [OF p(1)] by force
    then have "remaining p \<le> queued_tokens (drain ts s)" unfolding queued_tokens_def by (intro member_le_sum_list) simp_all
    then show False using z p(2) by simp
  qed
  note A = drain_account [OF assms(1), of ts]
  have fin: "rid \<in> set (drained ts s) \<longleftrightarrow> has_work s rid" for rid using A none by (metis (no_types, lifting))
  then have "set (drained ts s) = {rid. \<exists>p. hm_get (queue s) rid = Some p \<and> 0 < remaining p}" unfolding has_work_def by blast
  moreover have "hm_get (queue (drain ts s)) rid = (if rid \<in> set (drained ts s) then None else hm_get (queue s) rid)" for rid
    using A [THEN conjunct2, rule_format, of rid] fin [of rid] by (cases "has_work s rid") simp_all
  ultimately show ?thesis using z A by blast
qed

theorem drain_leaves_no_work_witness:
  "queued_tokens (drain (replicate 16000 (0, 1)) slack_queue) = 0
   \<and> set (drained (replicate 16000 (0, 1)) slack_queue) = {0, 1, 2, 3} \<and> hm_get (queue (drain (replicate 16000 (0, 1)) slack_queue)) 2 = None"
proof -
  have q: "hm_get (queue slack_queue) rid
      = (if rid \<in> {0, 1, 2, 3} then Some \<lparr>pp_id = rid, pp_arrival_ms = 0, pp_deadline_ms = 3000, compute_tokens = 4000, done_tokens = 0\<rparr> else None)" for rid
    by (simp add: slack_queue_def enqueue_def Let_def sched_new_def)
  have "runs_everything slack_queue" "queued_tokens slack_queue \<le> length (replicate 16000 (0, 1))"
    by (simp_all add: runs_everything_def queued_tokens_def slack_queue_def enqueue_def Let_def sched_new_def
        default_tuning_def remaining_def)
  from drain_leaves_no_work [OF slack_queue_wf this] show ?thesis by (auto simp: q remaining_def)
qed

definition lone_request :: "nat \<Rightarrow> millis \<Rightarrow> prefill_scheduler" where
  "lone_request n deadline = enqueue (sched_new (default_tuning\<lparr>demote_hopeless := False, tokens_per_ms := 1\<rparr>))
     \<lparr>pp_id = 7, pp_arrival_ms = 0, pp_deadline_ms = deadline, compute_tokens = n, done_tokens = 0\<rparr>"

lemma lone_request_unfold:
  "lone_request n deadline = \<lparr>tuning = default_tuning\<lparr>demote_hopeless := False, tokens_per_ms := 1\<rparr>,
     queue = [(7, \<lparr>pp_id = 7, pp_arrival_ms = 0, pp_deadline_ms = deadline, compute_tokens = n, done_tokens = 0\<rparr>)],
     order = [7], demoted_ids = {}\<rparr>"
  by (simp add: lone_request_def enqueue_def sched_new_def Let_def)

lemma lone_request_rate: "effective_rate (lone_request n deadline) = 1"
  by (simp add: effective_rate_def lone_request_unfold MIN_POSITIVE_def)

text \<open>Without demotion a hopeless request starves. With \<open>demote_hopeless\<close> off and the
  Moore-Hodgson policy, a lone request that can no longer meet its deadline is in no batch,
  at any later time: the scheduler reports an empty batch while its queue is not empty.\<close>

theorem hopeless_starves_without_demotion:
  assumes "deadline < now + real n"
  shows "chunks (fst (plan (lone_request n deadline) now)) = [] \<and> queue_depth (lone_request n deadline) = 1"
proof -
  have "plan_ordering (lone_request n deadline) now = \<lparr>on_time = [], demoted = [7]\<rparr>"
    using assms by (simp add: plan_ordering_def queue_jobs_def lone_request_rate)
      (simp add: lone_request_unfold default_tuning_def moore_hodgson_def mh_loop_def mh_step_def job_of_def
        remaining_def Let_def remove_at_def)
  then show ?thesis
    by (simp add: plan_def Let_def) (simp add: lone_request_unfold empty_batch_def queue_depth_def)
qed

theorem hopeless_starves_without_demotion_witness:
  "chunks (fst (plan (lone_request 1000 10) 0)) = [] \<and> queue_depth (lone_request 1000 10) = 1"
  by (rule hopeless_starves_without_demotion) simp

text \<open>A fully cached request is never planned: an entry whose \<open>compute_tokens\<close> is already
  covered is in no batch, so no completion ever reports it finished.\<close>

theorem nothing_left_is_never_planned:
  assumes "sched_wf s" "hm_get (queue s) rid = Some p" "remaining p = 0"
  shows "rid \<notin> ch_id ` set (chunks (fst (plan s now)))"
proof
  obtain d where i: "batch_inv s now (set (on_time (plan_ordering s now))) (fst (plan s now), d)"
    using plan_result [OF assms(1)] by metis
  assume "rid \<in> ch_id ` set (chunks (fst (plan s now)))"
  then show False using batch_chunk [OF i] assms(2,3) by fastforce
qed

theorem nothing_left_is_never_planned_witness:
  "7 \<notin> ch_id ` set (chunks (fst (plan (lone_request 0 100) 0)))"
  by (rule nothing_left_is_never_planned)
     (simp add: lone_request_def enqueue_wf sched_wf_new, simp add: lone_request_unfold, simp add: remaining_def)

end
