(* ===== verification/Decode_Sched.thy ===== *)
theory Decode_Sched
  imports Prelude
begin

text \<open>
  \<open>crates/sched/src/decode.rs\<close>: decode admission control.

  A running sequence, the AIMD controller over the concurrency cap, and the scheduler that
  combines them are records; \<open>observe\<close>, \<open>note\<close>, \<open>on_step\<close> and the other methods return the
  updated record. \<open>f64::INFINITY\<close>, which the source stores in \<open>ewma_at_decrease\<close> and returns
  from \<open>tolerable_itl_ms\<close>, is the constructor \<open>Infinite\<close>. The panic of \<open>f64::clamp\<close> in the
  controller's constructor is \<open>None\<close>.
\<close>

subsection \<open>Running sequences\<close>

record running_seq =
  rs_id :: request_id
  admitted_ms :: millis
  first_token_ms :: millis
  last_token_ms :: millis
  tokens_emitted :: nat
  requested_tokens :: nat

definition seq_new :: "request_id \<Rightarrow> millis \<Rightarrow> nat \<Rightarrow> running_seq" where
  "seq_new rid first requested = \<lparr>rs_id = rid, admitted_ms = first, first_token_ms = first,
     last_token_ms = first, tokens_emitted = 1, requested_tokens = requested\<rparr>"

definition remaining_tokens :: "running_seq \<Rightarrow> nat" where
  "remaining_tokens s = requested_tokens s - tokens_emitted s"

definition is_done :: "running_seq \<Rightarrow> bool" where
  "is_done s \<longleftrightarrow> tokens_emitted s \<ge> requested_tokens s"

definition elapsed_ms :: "running_seq \<Rightarrow> real" where
  "elapsed_ms s = last_token_ms s - first_token_ms s"

definition mean_itl_so_far_ms :: "running_seq \<Rightarrow> real" where
  "mean_itl_so_far_ms s =
    (if tokens_emitted s \<le> 1 then 0 else elapsed_ms s / real (tokens_emitted s - 1))"

definition tolerable_itl_ms :: "running_seq \<Rightarrow> real \<Rightarrow> ext" where
  "tolerable_itl_ms s budget_ms =
    (if remaining_tokens s = 0 then Infinite
     else Fin ((budget_ms * real (requested_tokens s - 1) - elapsed_ms s) / real (remaining_tokens s)))"

subsection \<open>The controller\<close>

record itl_controller =
  target_ms :: real
  ewma_ms :: real
  ctl_alpha :: real
  cap :: real
  min_cap :: real
  max_cap :: real
  increase_step :: real
  decrease_factor :: real
  low_water :: real
  high_water :: real
  utilisation_gate :: real
  samples :: nat
  concurrency_not_binding :: bool
  ewma_at_decrease :: ext
  observations_since_decrease :: nat
  probe_window :: nat
  improvement_threshold :: real

definition itl_new :: "real \<Rightarrow> real \<Rightarrow> real \<Rightarrow> real \<Rightarrow> itl_controller option" where
  "itl_new target initial lo hi =
    (if lo > hi then None
     else Some \<lparr>target_ms = target, ewma_ms = 0, ctl_alpha = 1 / 10, cap = clamp initial lo hi,
       min_cap = lo, max_cap = hi, increase_step = 1, decrease_factor = 9 / 10,
       low_water = 90 / 100, high_water = 98 / 100, utilisation_gate = 9 / 10, samples = 0,
       concurrency_not_binding = False, ewma_at_decrease = Infinite, observations_since_decrease = 0,
       probe_window = 15, improvement_threshold = 2 / 100\<rparr>)"

definition give_up :: "itl_controller \<Rightarrow> itl_controller" where
  "give_up c = c\<lparr>concurrency_not_binding := True, cap := max_cap c, ewma_at_decrease := Infinite,
     observations_since_decrease := 0\<rparr>"

definition back_off :: "itl_controller \<Rightarrow> itl_controller" where
  "back_off c = c\<lparr>cap := max (cap c * decrease_factor c) (min_cap c)\<rparr>"

text \<open>The end of the over-target branch: back off from what is running, and give up at the
  floor.\<close>

definition decrease :: "itl_controller \<Rightarrow> nat \<Rightarrow> itl_controller" where
  "decrease c concurrency =
    (let binding = (if concurrency > 0 then min (cap c) (real concurrency) else cap c);
         c' = c\<lparr>cap := max (binding * decrease_factor c) (min_cap c)\<rparr>
     in if cap c' \<le> min_cap c' * (101 / 100) then give_up c' else c')"

text \<open>Comparison with \<open>ewma_at_decrease * (1.0 - improvement_threshold)\<close>.\<close>

definition improved :: "itl_controller \<Rightarrow> bool" where
  "improved c = (case ewma_at_decrease c of Infinite \<Rightarrow> True
     | Fin e \<Rightarrow> ewma_ms c \<le> e * (1 - improvement_threshold c))"

text \<open>The branch for an average above the high water mark: count the observation in the
  current probe window, opening one if none is open, and judge the window at its end.\<close>

definition count_over :: "itl_controller \<Rightarrow> itl_controller" where
  "count_over c =
    (let c1 = (if is_finite (ewma_at_decrease c) then c
               else c\<lparr>ewma_at_decrease := Fin (ewma_ms c), observations_since_decrease := 0\<rparr>)
     in c1\<lparr>observations_since_decrease := observations_since_decrease c1 + 1\<rparr>)"

definition over_target :: "itl_controller \<Rightarrow> nat \<Rightarrow> itl_controller" where
  "over_target c concurrency =
    (if concurrency_not_binding c then c
     else
       let c2 = count_over c
       in if observations_since_decrease c2 \<ge> probe_window c2
          then (if \<not> improved c2 then give_up c2
                else decrease (c2\<lparr>ewma_at_decrease := Fin (ewma_ms c2), observations_since_decrease := 0\<rparr>) concurrency)
          else decrease c2 concurrency)"

definition record_sample :: "itl_controller \<Rightarrow> real \<Rightarrow> itl_controller" where
  "record_sample c itl_ms =
    (let n = samples c + 1
     in c\<lparr>samples := n,
          ewma_ms := (if n = 1 then itl_ms else (1 - ctl_alpha c) * ewma_ms c + ctl_alpha c * itl_ms)\<rparr>)"

text \<open>Steering resumes once the average is below the low water mark.\<close>

definition resume :: "itl_controller \<Rightarrow> itl_controller" where
  "resume c =
    (if concurrency_not_binding c \<and> ewma_ms c < target_ms c * low_water c
     then c\<lparr>concurrency_not_binding := False, ewma_at_decrease := Infinite, observations_since_decrease := 0\<rparr>
     else c)"

definition observe :: "itl_controller \<Rightarrow> real \<Rightarrow> nat \<Rightarrow> itl_controller" where
  "observe c itl_ms concurrency =
    (let c1 = record_sample c itl_ms
     in if samples c1 < 8 then c1
     else let c2 = resume c1
     in if ewma_ms c2 > target_ms c2 * high_water c2 then over_target c2 concurrency
     else if ewma_ms c2 < target_ms c2 * low_water c2 \<and> real concurrency \<ge> cap c2 * utilisation_gate c2
     then c2\<lparr>cap := min (cap c2 + increase_step c2) (max_cap c2), ewma_at_decrease := Infinite,
             observations_since_decrease := 0\<rparr>
     else c2)"

subsection \<open>The scheduler\<close>

datatype admit_decision = Admit | AtCap | WouldSpoilRunning | NoKvHeadroom

definition is_admit :: "admit_decision \<Rightarrow> bool" where
  "is_admit d \<longleftrightarrow> d = Admit"

fun decision_str :: "admit_decision \<Rightarrow> string" where
  "decision_str Admit = ''admit''"
| "decision_str AtCap = ''at-cap''"
| "decision_str WouldSpoilRunning = ''would-spoil-running''"
| "decision_str NoKvHeadroom = ''no-kv-headroom''"

record decode_scheduler =
  running :: "(request_id, running_seq) hmap"
  controller :: itl_controller
  itl_budget_ms :: real
  risk_margin :: real
  tokens_per_step :: nat
  admitted :: nat
  refused :: nat
  finish_disagreements :: nat
  flagged :: "request_id set"
  unknown_finish_reports :: nat

definition decode_new :: "real \<Rightarrow> itl_controller \<Rightarrow> decode_scheduler" where
  "decode_new budget c = \<lparr>running = [], controller = c, itl_budget_ms = budget, risk_margin = 105 / 100,
     tokens_per_step = 1, admitted = 0, refused = 0, finish_disagreements = 0, flagged = {},
     unknown_finish_reports = 0\<rparr>"

definition concurrency :: "decode_scheduler \<Rightarrow> nat" where
  "concurrency d = length (running d)"

definition tightest_tolerance_ms :: "decode_scheduler \<Rightarrow> ext" where
  "tightest_tolerance_ms d =
    foldl min Infinite (map (\<lambda>s. tolerable_itl_ms s (itl_budget_ms d)) (hm_values (running d)))"

definition decode_can_admit :: "decode_scheduler \<Rightarrow> bool \<Rightarrow> admit_decision" where
  "decode_can_admit d kv_headroom =
    (if \<not> kv_headroom then NoKvHeadroom
     else if real (concurrency d) \<ge> cap (controller d) then AtCap
     else if samples (controller d) \<ge> 8 \<and> is_finite (tightest_tolerance_ms d)
       \<and> tightest_tolerance_ms d < Fin (ewma_ms (controller d) * risk_margin d)
     then WouldSpoilRunning
     else Admit)"

definition note_decision :: "decode_scheduler \<Rightarrow> admit_decision \<Rightarrow> decode_scheduler" where
  "note_decision d dec =
    (if is_admit dec then d\<lparr>admitted := admitted d + 1\<rparr>
     else let d' = d\<lparr>refused := refused d + 1\<rparr>
          in if dec = WouldSpoilRunning then d'\<lparr>controller := back_off (controller d')\<rparr> else d')"

definition admit :: "decode_scheduler \<Rightarrow> running_seq \<Rightarrow> decode_scheduler" where
  "admit d s = d\<lparr>running := hm_insert (rs_id s) s (running d)\<rparr>"

definition admit_at :: "decode_scheduler \<Rightarrow> running_seq \<Rightarrow> millis \<Rightarrow> decode_scheduler" where
  "admit_at d s now = admit d (s\<lparr>admitted_ms := now, last_token_ms := max (last_token_ms s) now\<rparr>)"

definition set_tokens_per_step :: "decode_scheduler \<Rightarrow> nat \<Rightarrow> decode_scheduler" where
  "set_tokens_per_step d n = d\<lparr>tokens_per_step := max n 1\<rparr>"

definition waiting_ms :: "millis \<Rightarrow> running_seq \<Rightarrow> real" where
  "waiting_ms now s = now - max (last_token_ms s) (admitted_ms s)"

text \<open>The 90th percentile of the ages. Times are finite, so the ages compare: the \<open>expect\<close> in the comparison, which would fail
  on a \<open>NaN\<close>, is never reached with one.\<close>

definition steering_itl_ms :: "decode_scheduler \<Rightarrow> millis \<Rightarrow> real option" where
  "steering_itl_ms d now =
    (let ages = sort (map (waiting_ms now) (hm_values (running d)))
     in if ages = [] then None
        else Some (ages ! round_index (real (length ages - 1) * (90 / 100))))"

definition book_tokens :: "millis \<Rightarrow> nat \<Rightarrow> running_seq \<Rightarrow> running_seq" where
  "book_tokens now per_step s = s\<lparr>tokens_emitted :=
       min (saturating_add_u32 (tokens_emitted s) per_step) (requested_tokens s), last_token_ms := now\<rparr>"

fun book_advanced :: "millis \<Rightarrow> nat \<Rightarrow> request_id list \<Rightarrow> (request_id, running_seq) hmap \<Rightarrow>
    (request_id, running_seq) hmap" where
  "book_advanced now per_step [] m = m"
| "book_advanced now per_step (rid # ids) m =
     book_advanced now per_step ids (hm_modify rid (book_tokens now per_step) m)"

text \<open>The loop over the engine's \<open>finished\<close> list.\<close>

fun retire :: "request_id list \<Rightarrow> decode_scheduler \<Rightarrow> running_seq list \<times> decode_scheduler" where
  "retire [] d = ([], d)"
| "retire (rid # ids) d =
     (case hm_get (running d) rid of
        Some s \<Rightarrow>
          let (fin, d') = retire ids (d\<lparr>running := hm_remove rid (running d), flagged := flagged d - {rid}\<rparr>)
          in (s # fin, d')
      | None \<Rightarrow> retire ids (d\<lparr>unknown_finish_reports := unknown_finish_reports d + 1\<rparr>))"

fun flag_done :: "running_seq list \<Rightarrow> decode_scheduler \<Rightarrow> decode_scheduler" where
  "flag_done [] d = d"
| "flag_done (s # ss) d =
     flag_done ss (if is_done s \<and> rs_id s \<notin> flagged d
       then d\<lparr>flagged := insert (rs_id s) (flagged d), finish_disagreements := finish_disagreements d + 1\<rparr>
       else d)"

definition on_step :: "decode_scheduler \<Rightarrow> millis \<Rightarrow> real \<Rightarrow> request_id list \<Rightarrow> request_id list \<Rightarrow>
    running_seq list \<times> decode_scheduler" where
  "on_step d now step_ms adv fin =
    (let steer = (case steering_itl_ms d now of Some x \<Rightarrow> x | None \<Rightarrow> step_ms);
         d1 = d\<lparr>controller := observe (controller d) steer (concurrency d)\<rparr>;
         per_step = max (tokens_per_step d1) 1;
         d2 = d1\<lparr>running := book_advanced now per_step adv (running d1)\<rparr>;
         (out, d3) = retire fin d2
     in (out, flag_done (hm_values (running d3)) d3))"

definition on_step_synthetic :: "decode_scheduler \<Rightarrow> millis \<Rightarrow> real \<Rightarrow> running_seq list \<times> decode_scheduler" where
  "on_step_synthetic d now step_ms =
    on_step d now step_ms (hm_keys (running d))
      (map rs_id (filter (\<lambda>s. tokens_emitted s + 1 \<ge> requested_tokens s) (hm_values (running d))))"

definition decode_remove :: "decode_scheduler \<Rightarrow> request_id \<Rightarrow> running_seq option \<times> decode_scheduler" where
  "decode_remove d rid =
    (hm_get (running d) rid, d\<lparr>flagged := flagged d - {rid}, running := hm_remove rid (running d)\<rparr>)"

subsection \<open>Tolerance\<close>

lemma foldl_min_le: "x \<le> foldl min a xs \<longleftrightarrow> x \<le> a \<and> (\<forall>y \<in> set xs. x \<le> (y :: 'a::linorder))"
  by (induction xs arbitrary: a) auto

lemma foldl_min_less: "foldl min a xs < x \<longleftrightarrow> a < x \<or> (\<exists>y \<in> set xs. y < (x :: 'a::linorder))"
  using foldl_min_le [of x a xs] by (auto simp: not_le [symmetric])

lemma tolerable_ge:
  "Fin r \<le> tolerable_itl_ms s b \<longleftrightarrow>
     (0 < remaining_tokens s \<longrightarrow> elapsed_ms s + r * real (remaining_tokens s) \<le> b * real (requested_tokens s - 1))"
  by (auto simp: tolerable_itl_ms_def pos_le_divide_eq algebra_simps)

lemma less_Fin_finite: "x < Fin a \<Longrightarrow> is_finite x"
  by (cases x) auto

lemma tightest_less:
  "tightest_tolerance_ms d < Fin r \<longleftrightarrow>
     (\<exists>s \<in> set (hm_values (running d)). \<not> Fin r \<le> tolerable_itl_ms s (itl_budget_ms d))"
  unfolding tightest_tolerance_ms_def foldl_min_less by (auto simp: not_le)

subsection \<open>The controller's invariant\<close>

text \<open>The tuning that the constructor fixes and no method changes.\<close>

definition ctl_tuned :: "itl_controller \<Rightarrow> bool" where
  "ctl_tuned c \<longleftrightarrow> ctl_alpha c = 1 / 10 \<and> increase_step c = 1 \<and> decrease_factor c = 9 / 10
     \<and> low_water c = 9 / 10 \<and> high_water c = 98 / 100 \<and> utilisation_gate c = 9 / 10
     \<and> probe_window c = 15 \<and> improvement_threshold c = 2 / 100"

lemma ctl_tuned_frame [simp]:
  "ctl_tuned (c\<lparr>cap := x\<rparr>) = ctl_tuned c" "ctl_tuned (c\<lparr>ewma_ms := x\<rparr>) = ctl_tuned c"
  "ctl_tuned (c\<lparr>samples := n\<rparr>) = ctl_tuned c" "ctl_tuned (c\<lparr>concurrency_not_binding := b\<rparr>) = ctl_tuned c"
  "ctl_tuned (c\<lparr>ewma_at_decrease := e\<rparr>) = ctl_tuned c"
  "ctl_tuned (c\<lparr>observations_since_decrease := n\<rparr>) = ctl_tuned c"
  by (simp_all add: ctl_tuned_def)

lemma ctl_tunedD [simp]:
  assumes "ctl_tuned c"
  shows "ctl_alpha c = 1 / 10" "increase_step c = 1" "decrease_factor c = 9 / 10" "low_water c = 9 / 10"
    "high_water c = 98 / 100" "utilisation_gate c = 9 / 10" "probe_window c = 15" "improvement_threshold c = 2 / 100"
  using assms by (auto simp: ctl_tuned_def)

definition ctl_inv :: "itl_controller \<Rightarrow> bool" where
  "ctl_inv c \<longleftrightarrow> ctl_tuned c \<and> 0 \<le> min_cap c \<and> min_cap c \<le> cap c \<and> cap c \<le> max_cap c
     \<and> observations_since_decrease c < 15
     \<and> (concurrency_not_binding c \<longrightarrow> ewma_at_decrease c = Infinite \<and> observations_since_decrease c = 0)"

lemma itl_new_inv: "0 \<le> lo \<Longrightarrow> itl_new t i lo hi = Some c \<Longrightarrow> ctl_inv c"
  using clamp_bounds [of lo hi i] by (auto simp: itl_new_def ctl_inv_def ctl_tuned_def
      simp del: ctl_tunedD split: if_splits)

lemma back_off_inv [keeps]: "ctl_inv c \<Longrightarrow> ctl_inv (back_off c)"
  unfolding back_off_def by (auto simp: ctl_inv_def)

lemma give_up_inv:
  "ctl_tuned c \<Longrightarrow> 0 \<le> min_cap c \<Longrightarrow> min_cap c \<le> max_cap c \<Longrightarrow> ctl_inv (give_up c)"
  by (simp add: ctl_inv_def give_up_def)

lemma decrease_cap_bounds:
  assumes "0 \<le> min_cap c" "min_cap c \<le> cap c" "cap c \<le> max_cap c"
  shows "max ((if n > 0 then min (cap c) (real n) else cap c) * (9 / 10)) (min_cap c) \<le> max_cap c"
  using assms by auto

lemma decrease_inv:
  assumes "ctl_tuned c" "0 \<le> min_cap c" "min_cap c \<le> cap c" "cap c \<le> max_cap c"
    "observations_since_decrease c < 15" "\<not> concurrency_not_binding c"
  shows "ctl_inv (decrease c n)"
proof -
  define x where "x = max ((if n > 0 then min (cap c) (real n) else cap c) * (9 / 10)) (min_cap c)"
  have x: "min_cap c \<le> x" "x \<le> max_cap c"
    using decrease_cap_bounds [OF assms(2-4), of n] unfolding x_def by auto
  have "decrease c n = (if x \<le> min_cap c * (101 / 100) then give_up (c\<lparr>cap := x\<rparr>) else c\<lparr>cap := x\<rparr>)"
    unfolding decrease_def Let_def ctl_tunedD [OF assms(1)] x_def by simp
  moreover have "ctl_inv (give_up (c\<lparr>cap := x\<rparr>))" by (rule give_up_inv) (use assms x in simp_all)
  moreover have "ctl_inv (c\<lparr>cap := x\<rparr>)" using assms x by (simp add: ctl_inv_def)
  ultimately show ?thesis by simp
qed

lemma count_over_simps [simp]:
  "ewma_ms (count_over c) = ewma_ms c" "target_ms (count_over c) = target_ms c" "cap (count_over c) = cap c"
  "min_cap (count_over c) = min_cap c" "max_cap (count_over c) = max_cap c" "samples (count_over c) = samples c"
  "concurrency_not_binding (count_over c) = concurrency_not_binding c" "ctl_tuned (count_over c) = ctl_tuned c"
  "observations_since_decrease (count_over c) =
     Suc (if is_finite (ewma_at_decrease c) then observations_since_decrease c else 0)"
  "ewma_at_decrease (count_over c) = (if is_finite (ewma_at_decrease c) then ewma_at_decrease c else Fin (ewma_ms c))"
  by (simp_all add: count_over_def Let_def)

lemma over_target_inv [keeps]:
  assumes "ctl_inv c"
  shows "ctl_inv (over_target c n)"
proof (cases "concurrency_not_binding c")
  case False
  let ?c2 = "count_over c"
  have c: "ctl_tuned c" "0 \<le> min_cap c" "min_cap c \<le> cap c" "cap c \<le> max_cap c"
    "observations_since_decrease c < 15" using assms by (simp_all add: ctl_inv_def)
  have "ctl_inv (give_up ?c2)" by (rule give_up_inv) (use c in simp_all)
  moreover have "ctl_inv (decrease (?c2\<lparr>ewma_at_decrease := Fin (ewma_ms ?c2), observations_since_decrease := 0\<rparr>) n)"
    by (rule decrease_inv) (use c False in simp_all)
  moreover have "\<not> observations_since_decrease ?c2 \<ge> probe_window ?c2 \<Longrightarrow> ctl_inv (decrease ?c2 n)"
    by (rule decrease_inv) (use c False in simp_all)
  ultimately show ?thesis
    using False unfolding over_target_def Let_def by (simp del: count_over_simps)
qed (use assms in \<open>simp add: over_target_def\<close>)

lemma record_sample_inv [keeps]: "ctl_inv c \<Longrightarrow> ctl_inv (record_sample c x)"
  by (simp add: record_sample_def ctl_inv_def Let_def)

lemma resume_inv [keeps]: "ctl_inv c \<Longrightarrow> ctl_inv (resume c)"
  by (simp add: resume_def ctl_inv_def)

lemma observe_inv [keeps]:
  assumes "ctl_inv c"
  shows "ctl_inv (observe c x n)"
proof -
  define c2 where "c2 = resume (record_sample c x)"
  have i: "ctl_inv (record_sample c x)" "ctl_inv c2"
    using assms unfolding c2_def by (auto intro: keeps)
  define c3 where "c3 = c2\<lparr>cap := min (cap c2 + increase_step c2) (max_cap c2), ewma_at_decrease := Infinite,
             observations_since_decrease := 0\<rparr>"
  have "ctl_inv c3" using i(2) by (simp add: c3_def ctl_inv_def)
  then show ?thesis
    using i over_target_inv [OF i(2), of n]
    unfolding observe_def Let_def c2_def [symmetric] c3_def [symmetric] by simp
qed

subsection \<open>Every branch of an observation\<close>

lemma give_up_simps [simp]:
  "concurrency_not_binding (give_up c)" "cap (give_up c) = max_cap c" "ewma_ms (give_up c) = ewma_ms c"
  "target_ms (give_up c) = target_ms c" "min_cap (give_up c) = min_cap c" "max_cap (give_up c) = max_cap c"
  "samples (give_up c) = samples c" "ewma_at_decrease (give_up c) = Infinite"
  by (simp_all add: give_up_def)

lemma decrease_simps [simp]:
  "ewma_ms (decrease c n) = ewma_ms c" "target_ms (decrease c n) = target_ms c"
  "min_cap (decrease c n) = min_cap c" "max_cap (decrease c n) = max_cap c" "samples (decrease c n) = samples c"
  by (simp_all add: decrease_def Let_def)

lemma over_target_simps [simp]:
  "ewma_ms (over_target c n) = ewma_ms c" "target_ms (over_target c n) = target_ms c"
  "min_cap (over_target c n) = min_cap c" "max_cap (over_target c n) = max_cap c"
  "samples (over_target c n) = samples c"
  by (simp_all add: over_target_def Let_def)

lemma resume_simps [simp]:
  "ewma_ms (resume c) = ewma_ms c" "target_ms (resume c) = target_ms c" "min_cap (resume c) = min_cap c"
  "max_cap (resume c) = max_cap c" "samples (resume c) = samples c" "cap (resume c) = cap c"
  by (simp_all add: resume_def)

lemma record_sample_simps [simp]:
  "target_ms (record_sample c x) = target_ms c" "min_cap (record_sample c x) = min_cap c"
  "max_cap (record_sample c x) = max_cap c" "samples (record_sample c x) = samples c + 1"
  "cap (record_sample c x) = cap c" "concurrency_not_binding (record_sample c x) = concurrency_not_binding c"
  "ewma_at_decrease (record_sample c x) = ewma_at_decrease c"
  "observations_since_decrease (record_sample c x) = observations_since_decrease c"
  by (simp_all add: record_sample_def Let_def)

lemma observe_simps [simp]:
  "target_ms (observe c x n) = target_ms c" "min_cap (observe c x n) = min_cap c"
  "max_cap (observe c x n) = max_cap c" "samples (observe c x n) = samples c + 1"
  "ewma_ms (observe c x n) = ewma_ms (record_sample c x)"
  by (simp_all add: observe_def Let_def)

text \<open>The cap that a decrease aims at: nine tenths of what is running, not below the floor.\<close>

definition backed_off_cap :: "itl_controller \<Rightarrow> nat \<Rightarrow> real" where
  "backed_off_cap c n = max ((if n > 0 then min (cap c) (real n) else cap c) * (9 / 10)) (min_cap c)"

lemma decrease_outcome:
  assumes "ctl_tuned c" "\<not> concurrency_not_binding c"
  shows "(concurrency_not_binding (decrease c n) \<and> cap (decrease c n) = max_cap c)
    \<or> (\<not> concurrency_not_binding (decrease c n) \<and> cap (decrease c n) = backed_off_cap c n
        \<and> min_cap c * (101 / 100) < cap (decrease c n))"
  using assms by (simp add: decrease_def Let_def backed_off_cap_def)

lemma over_target_outcome:
  assumes "ctl_tuned c" "\<not> concurrency_not_binding c"
  shows "(concurrency_not_binding (over_target c n) \<and> cap (over_target c n) = max_cap c)
    \<or> (\<not> concurrency_not_binding (over_target c n) \<and> cap (over_target c n) = backed_off_cap c n
        \<and> min_cap c * (101 / 100) < cap (over_target c n))"
proof -
  let ?c2 = "count_over c"
  define c3 where "c3 = ?c2\<lparr>ewma_at_decrease := Fin (ewma_ms ?c2), observations_since_decrease := 0\<rparr>"
  have t: "ctl_tuned ?c2" "ctl_tuned c3" "\<not> concurrency_not_binding ?c2" "\<not> concurrency_not_binding c3"
    "min_cap c3 = min_cap c" "max_cap c3 = max_cap c" "cap c3 = cap c"
    using assms by (simp_all add: c3_def)
  then have "backed_off_cap ?c2 n = backed_off_cap c n" "backed_off_cap c3 n = backed_off_cap c n"
    by (simp_all add: backed_off_cap_def)
  then show ?thesis
    using decrease_outcome [OF t(1,3), of n] decrease_outcome [OF t(2,4), of n] t assms(2)
    unfolding over_target_def Let_def c3_def [symmetric] by simp
qed

lemma observe_warm:
  fixes x :: real and n :: nat
  assumes "8 \<le> samples c + 1"
  defines "c2 \<equiv> resume (record_sample c x)"
  shows "observe c x n =
    (if ewma_ms c2 > target_ms c2 * high_water c2 then over_target c2 n
     else if ewma_ms c2 < target_ms c2 * low_water c2 \<and> real n \<ge> cap c2 * utilisation_gate c2
     then c2\<lparr>cap := min (cap c2 + increase_step c2) (max_cap c2), ewma_at_decrease := Infinite,
             observations_since_decrease := 0\<rparr>
     else c2)"
  using assms(1) by (simp add: observe_def Let_def c2_def del: resume_simps)

lemma observe_cold: "samples c + 1 < 8 \<Longrightarrow> observe c x n = record_sample c x"
  by (simp add: observe_def Let_def)

subsection \<open>Sustained overload\<close>

definition feed :: "itl_controller \<Rightarrow> real \<Rightarrow> nat list \<Rightarrow> itl_controller" where
  "feed c x ns = foldl (\<lambda>c n. observe c x n) c ns"

definition overload_inv :: "real \<Rightarrow> real \<Rightarrow> nat \<Rightarrow> itl_controller \<Rightarrow> bool" where
  "overload_inv t x k c \<longleftrightarrow> target_ms c = t \<and> ctl_tuned c \<and> samples c = k \<and> (0 < k \<longrightarrow> ewma_ms c = x)
     \<and> (if k < 8 then \<not> concurrency_not_binding c \<and> ewma_at_decrease c = Infinite
        else concurrency_not_binding c \<and> cap c = max_cap c
          \<or> k < 22 \<and> \<not> concurrency_not_binding c \<and> ewma_at_decrease c = Fin x \<and> observations_since_decrease c = k - 7)"

lemma decrease_keeps:
  assumes "\<not> concurrency_not_binding c"
  shows "concurrency_not_binding (decrease c n) \<and> cap (decrease c n) = max_cap (decrease c n)
    \<or> \<not> concurrency_not_binding (decrease c n) \<and> ewma_at_decrease (decrease c n) = ewma_at_decrease c
      \<and> observations_since_decrease (decrease c n) = observations_since_decrease c"
  using assms by (simp add: decrease_def Let_def)

lemma ctl_tuned_ops [simp]:
  "ctl_tuned (give_up c) = ctl_tuned c" "ctl_tuned (decrease c n) = ctl_tuned c"
  "ctl_tuned (over_target c n) = ctl_tuned c" "ctl_tuned (record_sample c x) = ctl_tuned c"
  "ctl_tuned (resume c) = ctl_tuned c"
  by (simp_all add: give_up_def decrease_def over_target_def record_sample_def resume_def Let_def)

lemma ctl_tuned_observe [simp]: "ctl_tuned (observe c x n) = ctl_tuned c"
  by (simp add: observe_def Let_def)

lemma overload_ewma:
  assumes "overload_inv t x k c"
  shows "ewma_ms (record_sample c x) = x"
  using assms by (auto simp: overload_inv_def record_sample_def Let_def)

lemma overload_over_target:
  fixes n :: nat
  assumes i: "overload_inv t x k c" and k: "8 \<le> k + 1" and x: "0 < x"
  defines "r \<equiv> over_target (record_sample c x) n"
  shows "concurrency_not_binding r \<and> cap r = max_cap r
    \<or> k + 1 < 22 \<and> \<not> concurrency_not_binding r \<and> ewma_at_decrease r = Fin x \<and> observations_since_decrease r = k + 1 - 7"
proof -
  let ?c = "record_sample c x"
  have e: "ewma_ms ?c = x" by (rule overload_ewma [OF i])
  have t: "ctl_tuned ?c" using i by (simp add: overload_inv_def)
  show ?thesis
  proof (cases "concurrency_not_binding c")
    case True
    then show ?thesis using i k by (auto simp: r_def over_target_def overload_inv_def split: if_splits)
  next
    case nb: False
    have "k < 8 \<and> ewma_at_decrease c = Infinite \<or> 8 \<le> k \<and> k < 22 \<and> ewma_at_decrease c = Fin x \<and> observations_since_decrease c = k - 7"
      using i nb by (auto simp: overload_inv_def split: if_splits)
    then have c2: "ewma_at_decrease (count_over ?c) = Fin x" "observations_since_decrease (count_over ?c) = k + 1 - 7"
      and le: "k < 22" using e k by auto
    have "\<not> improved (count_over ?c)" using e t x c2 by (simp add: improved_def del: count_over_simps(10))
    then have "r = (if 15 \<le> k + 1 - 7 then give_up (count_over ?c) else decrease (count_over ?c) n)"
      using nb t c2 unfolding r_def over_target_def Let_def by (simp del: count_over_simps(9))
    then show ?thesis
      using le nb c2 decrease_keeps [of "count_over ?c" n] by (cases "k + 1 < 22") (auto simp del: count_over_simps(9,10))
  qed
qed

lemma overload_step:
  assumes "overload_inv t x k c" "0 < t" "t * (98 / 100) < x"
  shows "overload_inv t x (Suc k) (observe c x n)"
proof (cases "k + 1 < 8")
  case True
  then show ?thesis
    using assms(1) observe_cold [of c x n] overload_ewma [OF assms(1)] by (auto simp: overload_inv_def)
next
  case False
  have p: "0 < x" using assms(2,3) by (meson divide_pos_pos mult_pos_pos order_less_trans zero_less_numeral)
  have t: "ctl_tuned (record_sample c x)" "target_ms c = t" "samples c = k" using assms(1) by (simp_all add: overload_inv_def)
  have e: "ewma_ms (record_sample c x) = x" by (rule overload_ewma [OF assms(1)])
  have r: "resume (record_sample c x) = record_sample c x"
    using assms(2,3) e t by (simp add: resume_def)
  have "observe c x n = over_target (record_sample c x) n"
    using observe_warm [of c x n] False t e assms(3) unfolding r by simp
  then show ?thesis
    using overload_over_target [OF assms(1) _ p, of n] False t e by (simp add: overload_inv_def)
qed

lemma overload_feed:
  assumes "0 < t" "t * (98 / 100) < x"
  shows "overload_inv t x k c \<Longrightarrow> overload_inv t x (k + length ns) (feed c x ns)"
proof (induction ns arbitrary: c k)
  case (Cons n ns)
  then show ?case using overload_step [OF Cons.prems assms, of n] by (fastforce simp: feed_def)
qed (simp add: feed_def)

subsection \<open>One engine step\<close>

lemma book_advanced_get:
  "hm_get (book_advanced now n ids m) k = map_option (book_tokens now n ^^ count_list ids k) (hm_get m k)"
proof (induction ids arbitrary: m)
  case (Cons rid ids)
  then show ?case
    by (simp add: hm_simps option.map_comp comp_def funpow_swap1)
qed (simp add: option.map_id)

lemma book_advanced_keys [simp]: "hm_keys (book_advanced now n ids m) = hm_keys m"
  by (induction ids arbitrary: m) simp_all

lemma book_tokens_id [simp]:
  "rs_id (book_tokens now n s) = rs_id s" "requested_tokens (book_tokens now n s) = requested_tokens s"
  by (simp_all add: book_tokens_def)

lemma book_tokens_pow_id [simp]:
  "rs_id ((book_tokens now n ^^ k) s) = rs_id s" "requested_tokens ((book_tokens now n ^^ k) s) = requested_tokens s"
  by (induction k) simp_all

lemma retire_frame [simp]:
  "controller (snd (retire ids d)) = controller d" "itl_budget_ms (snd (retire ids d)) = itl_budget_ms d"
  "risk_margin (snd (retire ids d)) = risk_margin d" "tokens_per_step (snd (retire ids d)) = tokens_per_step d"
  "admitted (snd (retire ids d)) = admitted d" "refused (snd (retire ids d)) = refused d"
  "finish_disagreements (snd (retire ids d)) = finish_disagreements d"
  by (induction ids arbitrary: d) (simp_all add: split_beta Let_def split: option.splits)

lemma retire_running:
  "hm_get (running (snd (retire ids d))) k = (if k \<in> set ids then None else hm_get (running d) k)"
  by (induction ids arbitrary: d) (auto simp: split_beta Let_def hm_simps split: option.splits)

lemma retire_wf: "hm_wf (running d) \<Longrightarrow> hm_wf (running (snd (retire ids d)))"
  by (induction ids arbitrary: d) (simp_all add: split_beta Let_def split: option.splits)

lemma retire_flagged:
  "flagged d \<subseteq> dom (hm_get (running d)) \<Longrightarrow> flagged (snd (retire ids d)) = flagged d - set ids"
proof (induction ids arbitrary: d)
  case (Cons rid ids)
  show ?case
  proof (cases "hm_get (running d) rid")
    case None
    then have "rid \<notin> flagged d" using Cons.prems by auto
    then show ?thesis using Cons.IH [of "d\<lparr>unknown_finish_reports := unknown_finish_reports d + 1\<rparr>"] Cons.prems None by auto
  next
    case (Some s)
    let ?d = "d\<lparr>running := hm_remove rid (running d), flagged := flagged d - {rid}\<rparr>"
    have "flagged ?d \<subseteq> dom (hm_get (running ?d))" using Cons.prems by (auto simp: hm_simps)
    from Cons.IH [OF this] Some show ?thesis by (auto simp: split_beta Let_def)
  qed
qed simp

lemma retire_out:
  assumes "distinct ids"
  shows "fst (retire ids d) = List.map_filter (hm_get (running d)) ids
    \<and> unknown_finish_reports (snd (retire ids d)) =
       unknown_finish_reports d + length (filter (\<lambda>k. hm_get (running d) k = None) ids)"
  using assms
proof (induction ids arbitrary: d)
  case (Cons rid ids)
  show ?case
  proof (cases "hm_get (running d) rid")
    case None
    then show ?thesis
      using Cons.IH [of "d\<lparr>unknown_finish_reports := unknown_finish_reports d + 1\<rparr>"] Cons.prems
      by (simp add: map_filter_simps)
  next
    case (Some s)
    let ?d = "d\<lparr>running := hm_remove rid (running d), flagged := flagged d - {rid}\<rparr>"
    have same: "hm_get (running ?d) k = hm_get (running d) k" if "k \<in> set ids" for k
      using that Cons.prems by (auto simp: hm_simps)
    then have "List.map_filter (hm_get (running ?d)) ids = List.map_filter (hm_get (running d)) ids"
      "filter (\<lambda>k. hm_get (running ?d) k = None) ids = filter (\<lambda>k. hm_get (running d) k = None) ids"
      unfolding map_filter_def by (simp_all cong: filter_cong map_cong)
    with Cons.IH [of ?d] Cons.prems Some show ?thesis
      by (simp add: map_filter_simps split_beta Let_def)
  qed
qed (simp add: map_filter_simps)

lemma flag_done_frame [simp]:
  "running (flag_done ss d) = running d" "controller (flag_done ss d) = controller d"
  "tokens_per_step (flag_done ss d) = tokens_per_step d" "itl_budget_ms (flag_done ss d) = itl_budget_ms d"
  "unknown_finish_reports (flag_done ss d) = unknown_finish_reports d"
  by (induction ss arbitrary: d) simp_all

lemma flag_done_flagged: "flagged (flag_done ss d) = flagged d \<union> rs_id ` {s \<in> set ss. is_done s}"
  by (induction ss arbitrary: d) auto

lemma flag_done_count:
  assumes "distinct (map rs_id ss)"
  shows "finish_disagreements (flag_done ss d)
    = finish_disagreements d + card (rs_id ` {s \<in> set ss. is_done s} - flagged d)"
  using assms
proof (induction ss arbitrary: d)
  case (Cons s ss)
  let ?D = "rs_id ` {s \<in> set ss. is_done s}"
  have fin: "finite ?D" by simp
  have n: "rs_id s \<notin> ?D" using Cons.prems by auto
  show ?case
  proof (cases "is_done s \<and> rs_id s \<notin> flagged d")
    case True
    let ?d = "d\<lparr>flagged := insert (rs_id s) (flagged d), finish_disagreements := finish_disagreements d + 1\<rparr>"
    have "rs_id ` {x \<in> set (s # ss). is_done x} - flagged d = insert (rs_id s) (?D - flagged ?d)"
      using True n by auto
    then have "card (rs_id ` {x \<in> set (s # ss). is_done x} - flagged d) = Suc (card (?D - flagged ?d))"
      using fin by (simp add: card_insert_disjoint)
    then show ?thesis using Cons.IH [of ?d] Cons.prems True by simp
  next
    case False
    have "rs_id ` {x \<in> set (s # ss). is_done x} - flagged d = ?D - flagged d" using False by auto
    then show ?thesis using Cons.IH [of d] Cons.prems False by (auto simp del: image_Collect)
  qed
qed simp

subsection \<open>The scheduler's invariant\<close>

definition decode_inv :: "decode_scheduler \<Rightarrow> bool" where
  "decode_inv d \<longleftrightarrow> hm_wf (running d) \<and> (\<forall>k s. hm_get (running d) k = Some s \<longrightarrow> rs_id s = k)
     \<and> flagged d \<subseteq> dom (hm_get (running d)) \<and> ctl_inv (controller d)"

definition booked :: "decode_scheduler \<Rightarrow> millis \<Rightarrow> request_id list \<Rightarrow> request_id \<Rightarrow> running_seq option" where
  "booked d now adv k =
    map_option (book_tokens now (max (tokens_per_step d) 1) ^^ count_list adv k) (hm_get (running d) k)"

definition overdue :: "decode_scheduler \<Rightarrow> request_id set" where
  "overdue d = {k. \<exists>s. hm_get (running d) k = Some s \<and> is_done s}"

lemma running_ids:
  assumes "hm_wf m" "\<forall>k s. hm_get m k = Some s \<longrightarrow> rs_id s = k"
  shows "map rs_id (hm_values m) = hm_keys m"
proof -
  have "rs_id (snd x) = fst x" if "x \<in> set m" for x
  proof -
    have "hm_get m (fst x) = Some (snd x)" using that assms(1) by simp
    then show ?thesis using assms(2) by blast
  qed
  then show ?thesis by simp
qed

lemma overdue_values:
  assumes "hm_wf (running d)" "\<forall>k s. hm_get (running d) k = Some s \<longrightarrow> rs_id s = k"
  shows "rs_id ` {s \<in> set (hm_values (running d)). is_done s} = overdue d"
proof (intro equalityI subsetI)
  fix k assume "k \<in> rs_id ` {s \<in> set (hm_values (running d)). is_done s}"
  then obtain s where s: "s \<in> set (hm_values (running d))" "is_done s" "k = rs_id s" by blast
  then obtain k' where "hm_get (running d) k' = Some s" using hm_values_get [OF assms(1)] by blast
  then show "k \<in> overdue d" using s assms(2) by (auto simp: overdue_def)
next
  fix k assume "k \<in> overdue d"
  then obtain s where s: "hm_get (running d) k = Some s" "is_done s" by (auto simp: overdue_def)
  then have "s \<in> set (hm_values (running d))" using hm_values_get [OF assms(1)] by blast
  then show "k \<in> rs_id ` {s \<in> set (hm_values (running d)). is_done s}" using s assms(2) by blast
qed

lemma on_step_effect:
  fixes now :: millis and step_ms :: real and adv fin :: "request_id list" and d :: decode_scheduler
  assumes "decode_inv d"
  defines "d' \<equiv> snd (on_step d now step_ms adv fin)"
  shows "hm_get (running d') k = (if k \<in> set fin then None else booked d now adv k)"
    and "flagged d' = (flagged d - set fin) \<union> overdue d'"
    and "finish_disagreements d' = finish_disagreements d + card (overdue d' - flagged d)"
    and "hm_wf (running d')" and "\<forall>k s. hm_get (running d') k = Some s \<longrightarrow> rs_id s = k"
    and "controller d' = observe (controller d)
      (case steering_itl_ms d now of Some x \<Rightarrow> x | None \<Rightarrow> step_ms) (concurrency d)"
    and "distinct fin \<Longrightarrow> fst (on_step d now step_ms adv fin) = List.map_filter (booked d now adv) fin"
    and "distinct fin \<Longrightarrow> unknown_finish_reports d'
      = unknown_finish_reports d + length (filter (\<lambda>k. hm_get (running d) k = None) fin)"
proof -
  define c where "c = observe (controller d) (case steering_itl_ms d now of Some x \<Rightarrow> x | None \<Rightarrow> step_ms) (concurrency d)"
  define d2 where "d2 = d\<lparr>controller := c, running := book_advanced now (max (tokens_per_step d) 1) adv (running d)\<rparr>"
  define d3 where "d3 = snd (retire fin d2)"
  have w: "hm_wf (running d)" "\<forall>k s. hm_get (running d) k = Some s \<longrightarrow> rs_id s = k"
    "flagged d \<subseteq> dom (hm_get (running d))" using assms(1) by (simp_all add: decode_inv_def)
  have os: "on_step d now step_ms adv fin = (fst (retire fin d2), flag_done (hm_values (running d3)) d3)"
    by (simp add: on_step_def Let_def split_beta d3_def d2_def c_def)
  have d': "d' = flag_done (hm_values (running d3)) d3" by (simp add: d'_def os)
  have g2: "hm_get (running d2) k = booked d now adv k" for k
    by (simp add: d2_def book_advanced_get booked_def)
  have g3: "hm_get (running d3) k = (if k \<in> set fin then None else booked d now adv k)" for k
    by (simp add: d3_def retire_running g2)
  have w3: "hm_wf (running d3)" unfolding d3_def by (rule retire_wf) (use w in \<open>simp add: d2_def\<close>)
  have id3: "\<forall>k s. hm_get (running d3) k = Some s \<longrightarrow> rs_id s = k"
    using w(2) by (auto simp: g3 booked_def)
  have f2: "flagged d2 \<subseteq> dom (hm_get (running d2))" using w(3) g2 by (auto simp: d2_def booked_def)
  have f3: "flagged d3 = flagged d - set fin" using retire_flagged [OF f2, of fin] by (simp add: d3_def d2_def)
  have run: "running d' = running d3" by (simp add: d')
  then have od: "overdue d' = overdue d3" by (simp add: overdue_def)
  show "hm_get (running d') k = (if k \<in> set fin then None else booked d now adv k)" by (simp add: run g3)
  show "hm_wf (running d')" "\<forall>k s. hm_get (running d') k = Some s \<longrightarrow> rs_id s = k" using w3 id3 run by simp_all
  show "controller d' = observe (controller d) (case steering_itl_ms d now of Some x \<Rightarrow> x | None \<Rightarrow> step_ms) (concurrency d)"
    by (simp add: d' d3_def d2_def c_def)
  show "flagged d' = (flagged d - set fin) \<union> overdue d'"
    unfolding d' flag_done_flagged overdue_values [OF w3 id3] f3 od [unfolded d'] by (rule refl)
  have "distinct (map rs_id (hm_values (running d3)))" unfolding running_ids [OF w3 id3] by (rule w3)
  from flag_done_count [OF this, of d3] have "finish_disagreements d' = finish_disagreements d3 + card (overdue d3 - flagged d3)"
    unfolding d' overdue_values [OF w3 id3] .
  moreover have "overdue d3 - flagged d3 = overdue d' - flagged d" unfolding od f3 by (auto simp: overdue_def g3)
  ultimately show "finish_disagreements d' = finish_disagreements d + card (overdue d' - flagged d)"
    by (simp add: d3_def d2_def)
  have "hm_get (running d2) = booked d now adv" using g2 by blast
  then show "fst (on_step d now step_ms adv fin) = List.map_filter (booked d now adv) fin" if "distinct fin"
    using retire_out [OF that, of d2] by (simp add: os)
  have "(hm_get (running d2) k = None) = (hm_get (running d) k = None)" for k by (simp add: g2 booked_def)
  then show "unknown_finish_reports d' = unknown_finish_reports d + length (filter (\<lambda>k. hm_get (running d) k = None) fin)"
    if "distinct fin" using retire_out [OF that, of d2] by (simp add: d' d3_def d2_def)
qed

lemma on_step_inv [keeps]:
  assumes "decode_inv d"
  shows "decode_inv (snd (on_step d now step_ms adv fin))"
proof -
  let ?d = "snd (on_step d now step_ms adv fin)"
  note E = on_step_effect [OF assms, where now = now and step_ms = step_ms and adv = adv and fin = fin]
  have "flagged d - set fin \<subseteq> dom (hm_get (running ?d))"
    using assms unfolding decode_inv_def by (auto simp: E(1) booked_def)
  moreover have "overdue ?d \<subseteq> dom (hm_get (running ?d))" by (auto simp: overdue_def)
  moreover have "ctl_inv (controller ?d)"
    unfolding E(6) by (rule observe_inv) (use assms in \<open>simp add: decode_inv_def\<close>)
  ultimately show ?thesis unfolding decode_inv_def using E(2,4,5) by (metis Un_least)
qed

lemma admit_inv [keeps]: "decode_inv d \<Longrightarrow> decode_inv (admit d s)"
  by (auto simp: decode_inv_def admit_def hm_simps split: if_splits)

lemma admit_at_inv [keeps]: "decode_inv d \<Longrightarrow> decode_inv (admit_at d s now)"
  unfolding admit_at_def by (rule admit_inv)

lemma note_inv [keeps]: "decode_inv d \<Longrightarrow> decode_inv (note_decision d x)"
  by (auto simp: decode_inv_def note_decision_def Let_def back_off_inv)

lemma decode_remove_inv [keeps]: "decode_inv d \<Longrightarrow> decode_inv (snd (decode_remove d rid))"
  by (auto simp: decode_inv_def decode_remove_def hm_simps split: if_splits)

lemma set_tokens_inv [keeps]: "decode_inv d \<Longrightarrow> decode_inv (set_tokens_per_step d n)"
  by (simp add: decode_inv_def set_tokens_per_step_def)

text \<open>The calls a decode worker makes, in any order.\<close>

inductive decode_step :: "decode_scheduler \<Rightarrow> decode_scheduler \<Rightarrow> bool" where
  ds_note: "decode_step d (note_decision d (decode_can_admit d kv))"
| ds_admit: "decode_step d (admit_at d s now)"
| ds_step: "decode_step d (snd (on_step d now step_ms adv fin))"
| ds_synthetic: "decode_step d (snd (on_step_synthetic d now step_ms))"
| ds_remove: "decode_step d (snd (decode_remove d rid))"
| ds_tokens: "decode_step d (set_tokens_per_step d n)"

inductive_cases decode_step_cases: "decode_step d d'"

lemma decode_step_inv: "decode_inv d \<Longrightarrow> decode_step d d' \<Longrightarrow> decode_inv d'"
  by (erule decode_step_cases) (auto simp: on_step_synthetic_def intro: keeps)

lemma decode_new_inv: "ctl_inv c \<Longrightarrow> decode_inv (decode_new b c)"
  by (simp add: decode_inv_def decode_new_def)

definition decode_init :: "decode_scheduler \<Rightarrow> bool" where
  "decode_init d \<longleftrightarrow> (\<exists>b t i lo hi c. 0 \<le> lo \<and> itl_new t i lo hi = Some c \<and> d = decode_new b c)"

interpretation decode_sys: invariant_system decode_init decode_step decode_inv
  by unfold_locales (auto simp: decode_init_def intro: decode_new_inv itl_new_inv decode_step_inv)

lemma controller_bounds_fixed:
  "decode_step d d' \<Longrightarrow> min_cap (controller d') = min_cap (controller d) \<and> max_cap (controller d') = max_cap (controller d)"
  by (erule decode_step_cases)
    (simp_all add: note_decision_def back_off_def admit_at_def admit_def on_step_synthetic_def on_step_def
      decode_remove_def set_tokens_per_step_def Let_def split_beta)

lemma controller_bounds_steps:
  "decode_step\<^sup>*\<^sup>* d d' \<Longrightarrow> min_cap (controller d') = min_cap (controller d) \<and> max_cap (controller d') = max_cap (controller d)"
  by (induction rule: rtranclp_induct) (auto dest: controller_bounds_fixed)

subsection \<open>Steering\<close>

lemma round_index_le: "0 < n \<Longrightarrow> round_index (real (n - 1) * (90 / 100)) < n"
  unfolding round_index_def by linarith

lemma round_index_ge: "9 * n \<le> 10 * Suc (round_index (real (n - 1) * (90 / 100))) + 4"
proof -
  define y where "y = real (n - 1) * (90 / 100) + 1 / 2"
  define k where "k = real (nat \<lfloor>y\<rfloor>)"
  have "y - 1 < real_of_int \<lfloor>y\<rfloor>" by linarith
  moreover have "real_of_int \<lfloor>y\<rfloor> \<le> k" by (simp add: k_def)
  ultimately have "y - 1 < k" by (rule less_le_trans)
  moreover have "10 * y = 9 * real (n - 1) + 5" by (simp add: y_def)
  moreover have "real n \<le> real (n - 1) + 1" by linarith
  ultimately have "9 * real n \<le> 10 * (k + 1) + 4" by (simp add: algebra_simps)
  then have "9 * real n \<le> 10 * (real (nat \<lfloor>y\<rfloor>) + 1) + 4" unfolding k_def .
  then have "real (9 * n) \<le> real (10 * Suc (nat \<lfloor>y\<rfloor>) + 4)" by simp
  then show ?thesis unfolding round_index_def y_def of_nat_le_iff .
qed

lemma sorted_prefix_count:
  assumes "sorted xs" "i < length xs"
  shows "Suc i \<le> length (filter (\<lambda>x. x \<le> xs ! i) (xs :: real list))"
proof -
  have "filter (\<lambda>x. x \<le> xs ! i) (take (Suc i) xs) = take (Suc i) xs"
    using assms by (auto simp: filter_id_conv in_set_conv_nth less_Suc_eq_le sorted_iff_nth_mono)
  then have "Suc i \<le> length (filter (\<lambda>x. x \<le> xs ! i) (take (Suc i) xs))" using assms(2) by simp
  also have "\<dots> \<le> length (filter (\<lambda>x. x \<le> xs ! i) (take (Suc i) xs @ drop (Suc i) xs))"
    unfolding filter_append length_append by (rule le_add1)
  finally show ?thesis by simp
qed

lemma steering_p90:
  assumes "steering_itl_ms d now = Some x"
  defines "ages \<equiv> map (waiting_ms now) (hm_values (running d))"
  shows "x \<in> set ages \<and> 9 * length ages \<le> 10 * length (filter (\<lambda>a. a \<le> x) ages) + 4"
proof -
  let ?i = "round_index (real (length ages - 1) * (90 / 100))"
  have x: "ages \<noteq> []" "x = sort ages ! ?i"
    using assms by (auto simp: steering_itl_ms_def Let_def split: if_splits)
  have "0 < length ages" using x(1) by simp
  then have i: "?i < length (sort ages)" unfolding length_sort by (rule round_index_le)
  have c: "Suc ?i \<le> length (filter (\<lambda>a. a \<le> x) (sort ages))"
    unfolding x(2) by (rule sorted_prefix_count [OF _ i]) simp
  have "length (filter (\<lambda>a. a \<le> x) (sort ages)) = length (filter (\<lambda>a. a \<le> x) ages)"
    by (metis mset_filter mset_sort size_mset)
  moreover have "9 * length ages \<le> 10 * Suc ?i + 4" by (rule round_index_ge)
  moreover have "x \<in> set ages" unfolding x(2) using nth_mem [OF i] by simp
  ultimately show ?thesis using c by auto
qed

lemma steering_step_time:
  assumes "running d \<noteq> []" "\<forall>s \<in> set (hm_values (running d)). last_token_ms s = prev \<and> admitted_ms s \<le> prev"
  shows "steering_itl_ms d now = Some (now - prev)"
proof -
  have "length (sort (map (waiting_ms now) (hm_values (running d)))) \<noteq> 0" using assms(1) by simp
  then obtain x where x: "steering_itl_ms d now = Some x"
    unfolding steering_itl_ms_def Let_def by (metis length_0_conv)
  have "x \<in> set (map (waiting_ms now) (hm_values (running d)))" using steering_p90 [OF x] by simp
  then show ?thesis using x assms(2) by (auto simp: waiting_ms_def max_def)
qed

subsection \<open>Properties\<close>

text \<open>C4. Whatever the worker calls, in whatever order, and whatever the engine reports, the
  concurrency cap stays between its configured bounds, the running map is keyed by the
  sequences' own ids, and the ids already counted as disagreements are running sequences,
  so that set is bounded by the concurrency.\<close>

theorem decode_reachable_inv:
  assumes "decode_init d" "decode_step\<^sup>*\<^sup>* d d'"
  shows "min_cap (controller d) \<le> cap (controller d') \<and> cap (controller d') \<le> max_cap (controller d)
    \<and> distinct (hm_keys (running d')) \<and> map rs_id (hm_values (running d')) = hm_keys (running d')
    \<and> flagged d' \<subseteq> set (hm_keys (running d')) \<and> card (flagged d') \<le> concurrency d'"
proof -
  have i: "decode_inv d'" using decode_sys.reachable_inv [OF assms] .
  then have w: "hm_wf (running d')" "\<forall>k s. hm_get (running d') k = Some s \<longrightarrow> rs_id s = k"
    and f: "flagged d' \<subseteq> set (hm_keys (running d'))"
    by (simp_all add: decode_inv_def dom_map_of_conv_image_fst)
  then have "card (flagged d') \<le> concurrency d'"
    by (metis List.finite_set card_mono card_length concurrency_def length_map order_trans)
  then show ?thesis
    using i w f controller_bounds_steps [OF assms(2)] running_ids [OF w] by (simp add: decode_inv_def ctl_inv_def)
qed

definition sample_controller :: itl_controller where
  "sample_controller = the (itl_new 20 64 1 128)"

lemma sample_controller_new: "itl_new 20 64 1 128 = Some sample_controller"
  by (simp add: sample_controller_def itl_new_def)

lemma sample_controller_inv: "ctl_inv sample_controller"
  by (rule itl_new_inv [OF _ sample_controller_new]) simp

lemma sample_controller_fields:
  "min_cap sample_controller = 1" "max_cap sample_controller = 128" "cap sample_controller = 64"
  "target_ms sample_controller = 20" "samples sample_controller = 0" "\<not> concurrency_not_binding sample_controller"
  "ewma_at_decrease sample_controller = Infinite" "ewma_ms sample_controller = 0"
  by (simp_all add: sample_controller_def itl_new_def clamp_def)

theorem decode_reachable_inv_witness:
  "cap (controller (note_decision (decode_new 20 sample_controller) (decode_can_admit (decode_new 20 sample_controller) True))) \<le> 128"
proof -
  let ?d = "decode_new 20 sample_controller"
  have i: "decode_init ?d" unfolding decode_init_def using sample_controller_new zero_le_one by blast
  have s: "decode_step\<^sup>*\<^sup>* ?d (note_decision ?d (decode_can_admit ?d True))" by (intro r_into_rtranclp ds_note)
  from decode_reachable_inv [OF i s] show ?thesis by (simp add: decode_new_def sample_controller_fields)
qed

text \<open>What one observation does to the cap, on every branch. Nothing before the eighth
  sample. Above the high water mark, a controller that has given up holds its cap; one that
  has not either gives up and restores the ceiling, or backs off to nine tenths of what is
  actually running, and then stays clear of the floor. Below the low water mark the cap
  grows by one, up to the ceiling, if the batch used nine tenths of it. Otherwise it stays.\<close>

theorem observe_moves_cap:
  fixes x :: real and n :: nat
  assumes "ctl_inv c" "0 < target_ms c"
  defines "e \<equiv> ewma_ms (record_sample c x)" and "c' \<equiv> observe c x n"
  shows "if samples c + 1 < 8 then cap c' = cap c
    else if e > target_ms c * (98 / 100) then
      (if concurrency_not_binding c then cap c' = cap c \<and> concurrency_not_binding c'
       else concurrency_not_binding c' \<and> cap c' = max_cap c
         \<or> \<not> concurrency_not_binding c' \<and> cap c' = backed_off_cap c n \<and> min_cap c * (101 / 100) < cap c')
    else if e < target_ms c * (9 / 10) \<and> real n \<ge> cap c * (9 / 10)
      then cap c' = min (cap c + 1) (max_cap c) \<and> \<not> concurrency_not_binding c'
    else cap c' = cap c"
proof (cases "samples c + 1 < 8")
  case True
  then show ?thesis using observe_cold [OF True, of x n] by (simp add: c'_def)
next
  case False
  define c2 where "c2 = resume (record_sample c x)"
  have t: "ctl_tuned c2" "ctl_tuned c" using assms(1) by (simp_all add: c2_def ctl_inv_def)
  have f: "ewma_ms c2 = e" "target_ms c2 = target_ms c" "cap c2 = cap c" "max_cap c2 = max_cap c" "min_cap c2 = min_cap c"
    by (simp_all add: c2_def e_def)
  have b: "backed_off_cap c2 n = backed_off_cap c n" by (simp add: backed_off_cap_def f)
  have nb: "concurrency_not_binding c2 \<longleftrightarrow> concurrency_not_binding c \<and> \<not> e < target_ms c * (9 / 10)"
  proof -
    have "ctl_tuned (record_sample c x)" using t(2) by simp
    then show ?thesis by (auto simp: c2_def resume_def e_def)
  qed
  have c': "c' = (if e > target_ms c * (98 / 100) then over_target c2 n
     else if e < target_ms c * (9 / 10) \<and> real n \<ge> cap c * (9 / 10)
     then c2\<lparr>cap := min (cap c + 1) (max_cap c), ewma_at_decrease := Infinite, observations_since_decrease := 0\<rparr>
     else c2)"
    using observe_warm [of c x n] False unfolding c2_def [symmetric] c'_def ctl_tunedD [OF t(1)] f by simp
  have "e > target_ms c * (98 / 100) \<Longrightarrow> \<not> e < target_ms c * (9 / 10)" using assms(2) by simp
  then show ?thesis
    using False over_target_outcome [OF t(1), of n] nb f b
    by (cases "concurrency_not_binding c") (simp_all add: c' over_target_def)
qed

theorem observe_moves_cap_witness: "cap (observe sample_controller 30 40) = 64"
  using observe_moves_cap [OF sample_controller_inv, of 30 40] by (simp add: sample_controller_fields)

text \<open>A latency that concurrency does not move ends the throttling. Under a constant
  latency above the high water mark the controller has given up after at most 22
  observations, whatever the concurrency, and the cap is back at its ceiling.\<close>

theorem sustained_overload_gives_up:
  assumes "itl_new t i lo hi = Some c" "0 < t" "t * (98 / 100) < x" "22 \<le> length ns"
  shows "concurrency_not_binding (feed c x ns) \<and> cap (feed c x ns) = hi"
proof -
  have "overload_inv t x 0 c"
    using assms(1) by (auto simp: itl_new_def overload_inv_def ctl_tuned_def simp del: ctl_tunedD split: if_splits)
  from overload_feed [OF assms(2,3) this, of ns] assms(4)
  have r: "concurrency_not_binding (feed c x ns)" "cap (feed c x ns) = max_cap (feed c x ns)"
    by (auto simp: overload_inv_def)
  have "max_cap (feed c x ns) = max_cap c" unfolding feed_def by (induction ns arbitrary: c) simp_all
  then show ?thesis using r assms(1) by (auto simp: itl_new_def split: if_splits)
qed

theorem sustained_overload_gives_up_witness: "cap (feed sample_controller 92 (replicate 22 40)) = 128"
  using sustained_overload_gives_up [OF sample_controller_new, of 92 "replicate 22 40"] by simp

text \<open>C32. Exactly when a sequence is admitted. It is admitted iff there is KV headroom, the cap is not reached and, in addition, either fewer than
  eight latency samples have been taken (during this warm-up the running sequences do not block an admission, however
  late they are), or every running sequence with tokens left would still finish within its mean-latency budget if each of its
  remaining tokens took the observed latency times the risk margin.\<close>

theorem admit_iff_nobody_is_spoiled:
  "decode_can_admit d kv = Admit \<longleftrightarrow> kv \<and> real (concurrency d) < cap (controller d)
    \<and> (samples (controller d) < 8 \<or>
       (\<forall>s \<in> set (hm_values (running d)). 0 < remaining_tokens s \<longrightarrow>
          elapsed_ms s + ewma_ms (controller d) * risk_margin d * real (remaining_tokens s)
            \<le> itl_budget_ms d * real (requested_tokens s - 1)))"
  unfolding decode_can_admit_def using tightest_less [of d "ewma_ms (controller d) * risk_margin d"]
  by (auto simp: tolerable_ge dest: less_Fin_finite)

theorem admit_iff_nobody_is_spoiled_witness:
  "decode_can_admit (admit_at (decode_new 20 (sample_controller\<lparr>samples := 8, ewma_ms := 30\<rparr>)) (seq_new 5 0 200) 0) True
   \<noteq> Admit"
proof
  let ?s = "seq_new 5 0 200"
  let ?d = "admit_at (decode_new 20 (sample_controller\<lparr>samples := 8, ewma_ms := 30\<rparr>)) ?s 0"
  have f: "controller ?d = sample_controller\<lparr>samples := 8, ewma_ms := 30\<rparr>" "risk_margin ?d = 105 / 100"
    "itl_budget_ms ?d = 20" "hm_values (running ?d) = [?s]"
    by (simp_all add: admit_at_def admit_def decode_new_def seq_new_def)
  assume "decode_can_admit ?d True = Admit"
  then have "elapsed_ms ?s + 30 * (105 / 100) * real (remaining_tokens ?s) \<le> 20 * real (requested_tokens ?s - 1)"
    unfolding admit_iff_nobody_is_spoiled [of ?d True] f by (simp add: remaining_tokens_def seq_new_def)
  then show False by (simp add: remaining_tokens_def seq_new_def elapsed_ms_def)
qed

text \<open>C23. The engine is the sole authority on a step. Exactly the sequences it reports as
  finished are retired and returned, in its order and with this step's tokens booked; every
  other running sequence stays, advanced once per appearance in the engine's list and
  untouched otherwise; a finished id that is not running is only counted. A sequence that
  has emitted its budget but was not reported is left running and counted once.\<close>

theorem on_step_engine_authority:
  assumes "decode_inv d" "distinct fin" "on_step d now step_ms adv fin = (out, d')"
  shows "out = List.map_filter (booked d now adv) fin
    \<and> hm_get (running d') = (booked d now adv) |` (- set fin)
    \<and> unknown_finish_reports d' = unknown_finish_reports d + length (filter (\<lambda>k. hm_get (running d) k = None) fin)
    \<and> finish_disagreements d' = finish_disagreements d + card (overdue d' - flagged d)
    \<and> overdue d' \<subseteq> flagged d'"
proof -
  note E = on_step_effect [OF assms(1), where now = now and step_ms = step_ms and adv = adv and fin = fin, unfolded assms(3) snd_conv fst_conv]
  have "hm_get (running d') k = ((booked d now adv) |` (- set fin)) k" for k by (simp add: E(1) restrict_map_def)
  then show ?thesis using E(2,3,7,8) assms(2) by blast
qed

theorem on_step_engine_authority_witness:
  "fst (on_step (admit_at (decode_new 20 sample_controller) (seq_new 5 0 2) 0) 15 15 [5] [5, 9])
     = [book_tokens 15 1 (seq_new 5 0 2)]"
proof -
  let ?d = "admit_at (decode_new 20 sample_controller) (seq_new 5 0 2) 0"
  have i: "decode_inv ?d" by (intro admit_at_inv decode_new_inv sample_controller_inv)
  have "distinct [5, 9 :: nat]" by simp
  from on_step_engine_authority [OF i this surjective_pairing, of 15 15 "[5]"]
  have "fst (on_step ?d 15 15 [5] [5, 9]) = List.map_filter (booked ?d 15 [5]) [5, 9]" by blast
  then show ?thesis
    by (simp add: map_filter_simps booked_def admit_at_def admit_def decode_new_def seq_new_def)
qed

text \<open>The synthetic step agrees with the bookkeeping without speculation: with one token
  per step, no sequence left running has emitted its budget, and no disagreement is counted.\<close>

theorem synthetic_step_agrees:
  assumes "decode_inv d" "tokens_per_step d = 1"
  shows "overdue (snd (on_step_synthetic d now step_ms)) = {}
    \<and> finish_disagreements (snd (on_step_synthetic d now step_ms)) = finish_disagreements d"
proof -
  let ?fin = "map rs_id (filter (\<lambda>s. tokens_emitted s + 1 \<ge> requested_tokens s) (hm_values (running d)))"
  let ?d = "snd (on_step d now step_ms (hm_keys (running d)) ?fin)"
  have w: "hm_wf (running d)" "\<forall>k s. hm_get (running d) k = Some s \<longrightarrow> rs_id s = k"
    using assms(1) by (simp_all add: decode_inv_def)
  note E = on_step_effect [OF assms(1), where now = now and step_ms = step_ms and adv = "hm_keys (running d)" and fin = ?fin]
  have "\<not> is_done s" if s: "hm_get (running ?d) k = Some s" for k s
  proof -
    obtain s0 where s0: "hm_get (running d) k = Some s0" "k \<notin> set ?fin"
      "s = (book_tokens now 1 ^^ count_list (hm_keys (running d)) k) s0"
      using s unfolding E(1) by (auto simp: booked_def assms(2) split: if_splits)
    have "s0 \<in> set (hm_values (running d))" "rs_id s0 = k" using s0(1) hm_values_get [OF w(1)] w(2) by blast+
    then have n: "tokens_emitted s0 + 1 < requested_tokens s0" using s0(2) by force
    have "k \<in> set (hm_keys (running d))" using s0(1) by (metis domI hm.keys_get)
    then have "count_list (hm_keys (running d)) k = 1" using w(1) by (simp add: count_list_distinct)
    then show ?thesis using n s0(3) by (simp add: is_done_def book_tokens_def saturating_add_u32_def)
  qed
  then have o: "overdue ?d = {}" by (auto simp: overdue_def)
  then show ?thesis using E(3) by (simp add: on_step_synthetic_def)
qed

text \<open>With speculation the synthetic step does not: at two tokens per step, a sequence two
  tokens short of its budget reaches it, is not reported as finished, and is left running
  and counted as a disagreement.\<close>

theorem synthetic_step_misses_speculation:
  "\<exists>d. tokens_per_step d = 2 \<and> decode_inv d
     \<and> fst (on_step_synthetic d 15 15) = []
     \<and> finish_disagreements (snd (on_step_synthetic d 15 15)) = finish_disagreements d + 1
     \<and> overdue (snd (on_step_synthetic d 15 15)) = {5}"
proof (intro exI conjI)
  let ?d = "set_tokens_per_step (admit_at (decode_new 20 sample_controller) (seq_new 5 0 3) 0) 2"
  have r: "running ?d = [(5, seq_new 5 0 3)]" "tokens_per_step ?d = 2" "flagged ?d = {}"
    by (simp_all add: set_tokens_per_step_def admit_at_def admit_def decode_new_def seq_new_def)
  show i: "decode_inv ?d" by (intro set_tokens_inv admit_at_inv decode_new_inv sample_controller_inv)
  show "tokens_per_step ?d = 2" by (rule r)
  let ?s = "seq_new 5 0 3"
  have m: "max (tokens_per_step ?d) 1 = 2" unfolding r by simp
  have syn: "on_step_synthetic ?d 15 15 = on_step ?d 15 15 [5] []"
    by (simp add: on_step_synthetic_def r) (simp add: seq_new_def)
  note E = on_step_effect [OF i, where now = 15 and step_ms = 15 and adv = "[5]" and fin = "[]"]
  show "fst (on_step_synthetic ?d 15 15) = []" using E(7) unfolding syn by (simp add: map_filter_simps)
  have g: "hm_get (running (snd (on_step ?d 15 15 [5] []))) k = (if k = 5 then Some (book_tokens 15 2 ?s) else None)" for k
    using E(1) [of k] unfolding booked_def m by (simp add: r)
  have "is_done (book_tokens 15 2 ?s)"
    by (simp add: is_done_def book_tokens_def seq_new_def saturating_add_u32_def u32_max_def)
  then show o: "overdue (snd (on_step_synthetic ?d 15 15)) = {5}" unfolding syn by (auto simp: overdue_def g)
  then show "finish_disagreements (snd (on_step_synthetic ?d 15 15)) = finish_disagreements ?d + 1"
    using E(3) r(3) unfolding syn by simp
qed

text \<open>Giving up does not end the throttling for good: refusals noted as
  \<open>WouldSpoilRunning\<close> keep multiplying the cap of a controller that has given up by nine
  tenths, down to the floor, while the controller still counts as having given up.\<close>

theorem given_up_cap_decays:
  fixes n :: nat
  assumes "decode_inv d" "concurrency_not_binding (controller d)"
  defines "d' \<equiv> ((\<lambda>d. note_decision d WouldSpoilRunning) ^^ n) d"
  shows "concurrency_not_binding (controller d')
    \<and> cap (controller d') = max (cap (controller d) * (9 / 10) ^ n) (min_cap (controller d))"
proof -
  have c: "ctl_tuned (controller d)" "0 \<le> min_cap (controller d)" "min_cap (controller d) \<le> cap (controller d)"
    using assms(1) by (simp_all add: decode_inv_def ctl_inv_def)
  have "ctl_tuned (controller d') \<and> min_cap (controller d') = min_cap (controller d)
    \<and> concurrency_not_binding (controller d')
    \<and> cap (controller d') = max (cap (controller d) * (9 / 10) ^ n) (min_cap (controller d))"
    unfolding d'_def
  proof (induction n)
    case 0
    then show ?case using c assms(2) by simp
  next
    case (Suc n)
    let ?e = "((\<lambda>d. note_decision d WouldSpoilRunning) ^^ n) d"
    have "max (max a m * (9 / 10)) m = max (a * (9 / 10)) m" if "0 \<le> (m :: real)" for a m using that by (auto simp: max_def)
    then show ?case
      using Suc c(2) by (simp add: note_decision_def is_admit_def back_off_def mult.assoc)
  qed
  then show ?thesis by blast
qed

theorem given_up_cap_decays_witness:
  "cap (controller (((\<lambda>d. note_decision d WouldSpoilRunning) ^^ 2) (decode_new 20 (give_up sample_controller)))) = 128 * (9 / 10) ^ 2"
proof -
  let ?d = "decode_new 20 (give_up sample_controller)"
  have c: "controller ?d = give_up sample_controller" by (simp add: decode_new_def)
  have "ctl_inv (give_up sample_controller)"
    by (rule give_up_inv) (use sample_controller_inv in \<open>simp_all add: ctl_inv_def sample_controller_fields\<close>)
  then have i: "decode_inv ?d" by (rule decode_new_inv)
  have "concurrency_not_binding (controller ?d)" by (simp add: c)
  from given_up_cap_decays [OF i this, of 2] show ?thesis
    by (simp add: c sample_controller_fields power2_eq_square)
qed

theorem synthetic_step_agrees_witness:
  "overdue (snd (on_step_synthetic (admit_at (decode_new 20 sample_controller) (seq_new 5 0 2) 0) 15 15)) = {}"
proof -
  let ?d = "admit_at (decode_new 20 sample_controller) (seq_new 5 0 2) 0"
  have i: "decode_inv ?d" by (intro admit_at_inv decode_new_inv sample_controller_inv)
  have "tokens_per_step ?d = 1" by (simp add: admit_at_def admit_def decode_new_def)
  from synthetic_step_agrees [OF i this] show ?thesis by blast
qed

end
