(* ===== verification/Decide.thy ===== *)
theory Decide
  imports Decode_Sched
begin

text \<open>
  \<open>crates/pyext/src/decide.rs\<close> and the state of \<open>RustScheduler\<close> in \<open>crates/pyext/src/lib.rs\<close>:
  the capacity decision that TensorRT-LLM's scheduler asks for once per step.

  The parallel arrays of a call are lists of the record \<open>decide_input\<close>; \<open>decide\<close> rejects a call
  whose arrays differ in length, so \<open>decide_indices\<close> only ever sees lists of one length. The
  environment variable that chooses the decode order is an argument of the constructor.
\<close>

datatype decode_order = Arrival | Slack

record decide_input =
  ids :: "int list"
  is_context :: "bool list"
  prompt_lens :: "nat list"
  context_done_tokens :: "nat list"
  arrivals_ms :: "real list"
  inflight :: "int list"
  max_batch_size :: nat
  max_num_tokens :: nat
  tokens_generated :: "nat list"
  max_new_tokens :: "nat list"
  now_ms :: real
  budget_ms :: real
  decode_policy :: decode_order
  kv_free_blocks :: nat
  kv_watermark_blocks :: nat
  generation_cap :: nat

definition stall_tolerance :: "real \<Rightarrow> real \<Rightarrow> nat \<Rightarrow> nat \<Rightarrow> real \<Rightarrow> ext" where
  "stall_tolerance now arrival generated max_new budget =
    (let gaps_total = real (max_new - 1); gaps_done = real (generated - 1); left = gaps_total - gaps_done
     in if left \<le> 0 then Infinite
        else let el = max (now - arrival) 0 in Fin ((budget * gaps_total - el) / left))"

text \<open>The error carries what the message of the source prints.\<close>

fun validate_lengths :: "nat \<Rightarrow> (string \<times> nat) list \<Rightarrow> (string \<times> nat \<times> nat) + nat" where
  "validate_lengths n [] = Inr n"
| "validate_lengths n ((name, len) # ls) = (if len \<noteq> n then Inl (name, len, n) else validate_lengths n ls)"

definition by_arrival_then_id :: "decide_input \<Rightarrow> nat \<Rightarrow> real \<times> int" where
  "by_arrival_then_id x i = (arrivals_ms x ! i, ids x ! i)"

definition by_slack_then_id :: "decide_input \<Rightarrow> nat \<Rightarrow> ext \<times> int" where
  "by_slack_then_id x i =
    (stall_tolerance (now_ms x) (arrivals_ms x ! i) (tokens_generated x ! i) (max_new_tokens x ! i) (budget_ms x),
     ids x ! i)"

definition candidates :: "decide_input \<Rightarrow> bool \<Rightarrow> nat list" where
  "candidates x ctx = filter (\<lambda>i. ids x ! i \<notin> set (inflight x) \<and> is_context x ! i = ctx) [0..<length (ids x)]"

definition generation_order :: "decide_input \<Rightarrow> nat list" where
  "generation_order x = (case decode_policy x of
     Arrival \<Rightarrow> sort_key (by_arrival_then_id x) (candidates x False)
   | Slack \<Rightarrow> sort_key (by_slack_then_id x) (candidates x False))"

record packing =
  fitting :: "nat list"
  paused :: "nat list"
  batch_used :: nat
  token_used :: nat
  gen_admitted :: nat

definition pack_generation :: "decide_input \<Rightarrow> packing \<Rightarrow> nat \<Rightarrow> packing" where
  "pack_generation x p i =
    (if gen_admitted p < generation_cap x \<and> batch_used p < max_batch_size x
        \<and> saturating_add_u64 (token_used p) 1 \<le> max_num_tokens x
     then p\<lparr>fitting := fitting p @ [i], gen_admitted := gen_admitted p + 1, batch_used := batch_used p + 1,
            token_used := token_used p + 1\<rparr>
     else p\<lparr>paused := paused p @ [i]\<rparr>)"

definition context_charge :: "decide_input \<Rightarrow> nat \<Rightarrow> nat" where
  "context_charge x i = prompt_lens x ! i - context_done_tokens x ! i"

definition pack_context :: "decide_input \<Rightarrow> bool \<Rightarrow> packing \<Rightarrow> nat \<Rightarrow> packing" where
  "pack_context x stalled p i =
    (if stalled then p\<lparr>paused := paused p @ [i]\<rparr>
     else if context_done_tokens x ! i = 0 \<and> kv_free_blocks x < kv_watermark_blocks x
     then p\<lparr>paused := paused p @ [i]\<rparr>
     else if batch_used p < max_batch_size x
        \<and> saturating_add_u64 (token_used p) (context_charge x i) \<le> max_num_tokens x
     then p\<lparr>fitting := fitting p @ [i], batch_used := batch_used p + 1,
            token_used := token_used p + context_charge x i\<rparr>
     else p\<lparr>paused := paused p @ [i]\<rparr>)"

definition empty_packing :: packing where
  "empty_packing = \<lparr>fitting = [], paused = [], batch_used = 0, token_used = 0, gen_admitted = 0\<rparr>"

definition packed_generation :: "decide_input \<Rightarrow> packing" where
  "packed_generation x = foldl (pack_generation x) empty_packing (generation_order x)"

definition packed :: "decide_input \<Rightarrow> packing" where
  "packed x = (let p = packed_generation x
     in foldl (pack_context x (paused p \<noteq> [])) p (sort_key (by_arrival_then_id x) (candidates x True)))"

definition decide_indices :: "decide_input \<Rightarrow> nat list \<times> nat list" where
  "decide_indices x = (fitting (packed x), paused (packed x))"

subsection \<open>The scheduler object\<close>

record ledger_entry =
  last_seen_ms :: real
  steps_absent :: nat

definition LEDGER_FORGET_STEPS :: nat where
  "LEDGER_FORGET_STEPS = 10000"

record rust_scheduler =
  rs_max_batch_size :: nat
  rs_max_num_tokens :: nat
  kv_total_blocks :: nat
  rs_itl_budget_ms :: real
  rs_decode_order :: decode_order
  ledger :: "(int, ledger_entry) hmap"
  rs_kv_watermark_blocks :: nat
  rs_controller :: itl_controller
  admitted_total :: nat
  paused_total :: nat
  steps_observed :: nat
  last_kv_free_blocks :: nat
  last_now_ms :: real

definition rust_new :: "nat \<Rightarrow> nat \<Rightarrow> real \<Rightarrow> nat \<Rightarrow> decode_order \<Rightarrow> rust_scheduler option" where
  "rust_new batch tokens budget blocks dorder =
    (let hi = real (max batch 1)
     in map_option (\<lambda>c. \<lparr>rs_max_batch_size = batch, rs_max_num_tokens = tokens, kv_total_blocks = blocks,
          rs_itl_budget_ms = budget, rs_decode_order = dorder, ledger = [],
          rs_kv_watermark_blocks = blocks div 20, rs_controller = c, admitted_total = 0, paused_total = 0,
          steps_observed = 0, last_kv_free_blocks = blocks, last_now_ms = 0\<rparr>) (itl_new budget hi 1 hi))"

text \<open>\<open>present\<close> is the set of ids of the call. Entries are stamped, the others aged, and an entry
  absent for too long is dropped by \<open>retain\<close>.\<close>

fun stamp :: "real \<Rightarrow> int list \<Rightarrow> (int, ledger_entry) hmap \<Rightarrow> (int, ledger_entry) hmap" where
  "stamp now [] m = m"
| "stamp now (i # is) m = stamp now is (hm_insert i \<lparr>last_seen_ms = now, steps_absent = 0\<rparr> m)"

fun age :: "int list \<Rightarrow> (int, ledger_entry) hmap \<Rightarrow> (int, ledger_entry) hmap" where
  "age present [] = []"
| "age present ((i, e) # m) =
     (if i \<in> set present then (i, e) # age present m
      else let e' = e\<lparr>steps_absent := steps_absent e + 1\<rparr>
           in if steps_absent e' \<le> LEDGER_FORGET_STEPS then (i, e') # age present m else age present m)"

definition update_ledger :: "rust_scheduler \<Rightarrow> int list \<Rightarrow> real \<Rightarrow> rust_scheduler" where
  "update_ledger s present now = s\<lparr>ledger := age present (stamp now present (ledger s))\<rparr>"

definition absent :: "rust_scheduler \<Rightarrow> real \<Rightarrow> nat \<times> real" where
  "absent s now = foldl (\<lambda>(n, oldest) e. if steps_absent e > 0 then (n + 1, max oldest (now - last_seen_ms e)) else (n, oldest))
     (0, 0) (hm_values (ledger s))"

definition decide :: "rust_scheduler \<Rightarrow> int list \<Rightarrow> bool list \<Rightarrow> nat list \<Rightarrow> nat list \<Rightarrow> nat list \<Rightarrow> nat list \<Rightarrow>
    real list \<Rightarrow> int list \<Rightarrow> nat \<Rightarrow> real \<Rightarrow>
    (string \<times> nat \<times> nat) + ((nat list \<times> nat list) \<times> rust_scheduler)" where
  "decide s is ctx plens cdone gen maxnew arr infl kv now =
    (case validate_lengths (length is)
        [(''is_context'', length ctx), (''prompt_lens'', length plens), (''context_done_tokens'', length cdone),
         (''tokens_generated'', length gen), (''max_new_tokens'', length maxnew), (''arrival_ms'', length arr)] of
      Inl e \<Rightarrow> Inl e
    | Inr _ \<Rightarrow>
       let x = \<lparr>ids = is, is_context = ctx, prompt_lens = plens, context_done_tokens = cdone, arrivals_ms = arr,
             inflight = infl, max_batch_size = rs_max_batch_size s, max_num_tokens = rs_max_num_tokens s,
             tokens_generated = gen, max_new_tokens = maxnew, now_ms = now, budget_ms = rs_itl_budget_ms s,
             decode_policy = rs_decode_order s, kv_free_blocks = kv,
             kv_watermark_blocks = rs_kv_watermark_blocks s,
             generation_cap = nat \<lfloor>max (cap (rs_controller s)) 0\<rfloor>\<rparr>;
           (fit, pau) = decide_indices x;
           s1 = update_ledger s is now
       in Inr ((fit, pau), s1\<lparr>admitted_total := admitted_total s1 + length fit,
            paused_total := paused_total s1 + length pau, last_kv_free_blocks := kv, last_now_ms := now\<rparr>))"

definition rust_observe :: "rust_scheduler \<Rightarrow> real \<Rightarrow> nat \<Rightarrow> rust_scheduler" where
  "rust_observe s step_ms n = s\<lparr>rs_controller := observe (rs_controller s) step_ms n, steps_observed := steps_observed s + 1\<rparr>"

definition rust_stats :: "rust_scheduler \<Rightarrow> (string, real) hmap" where
  "rust_stats s = (let (n, oldest) = absent s (last_now_ms s) in
    [(''admitted'', real (admitted_total s)), (''refused'', real (paused_total s)), (''cap'', cap (rs_controller s)),
     (''finish_disagreements'', 0), (''observed_itl_ms'', ewma_ms (rs_controller s)),
     (''samples'', real (samples (rs_controller s))), (''absent'', real n), (''absent_max_ms'', oldest),
     (''tracked'', real (length (ledger s))),
     (''concurrency_not_binding'', if concurrency_not_binding (rs_controller s) then 1 else 0),
     (''steps_observed'', real (steps_observed s)), (''kv_total_blocks'', real (kv_total_blocks s)),
     (''kv_free_blocks_last'', real (last_kv_free_blocks s)), (''last_now_ms'', last_now_ms s)])"

subsection \<open>The two packing loops\<close>

definition generation_room :: "decide_input \<Rightarrow> nat" where
  "generation_room x = min (generation_cap x) (min (max_batch_size x) (max_num_tokens x))"

lemma saturating_le: "m < u64_max \<Longrightarrow> saturating_add_u64 a b \<le> m \<longleftrightarrow> a + b \<le> m"
  by (auto simp: saturating_add_u64_def)

text \<open>Generation requests are admitted in order until the first of the three limits is met.\<close>

lemma generation_loop:
  assumes "max_num_tokens x < u64_max"
  shows "foldl (pack_generation x) \<lparr>fitting = f, paused = q, batch_used = k, token_used = k, gen_admitted = k\<rparr> is
    = (let n = min (generation_room x - k) (length is)
       in \<lparr>fitting = f @ take n is, paused = q @ drop n is, batch_used = k + n, token_used = k + n, gen_admitted = k + n\<rparr>)"
proof (induction "is" arbitrary: f q k)
  case (Cons i "is")
  show ?case
  proof (cases "k < generation_room x")
    case True
    then have "pack_generation x \<lparr>fitting = f, paused = q, batch_used = k, token_used = k, gen_admitted = k\<rparr> i
      = \<lparr>fitting = f @ [i], paused = q, batch_used = Suc k, token_used = Suc k, gen_admitted = Suc k\<rparr>"
      by (simp add: pack_generation_def generation_room_def saturating_le [OF assms])
    moreover have "min (generation_room x - k) (length (i # is)) = Suc (min (generation_room x - Suc k) (length is))"
      using True by auto
    ultimately show ?thesis by (simp add: Cons Let_def)
  next
    case False
    then have "pack_generation x \<lparr>fitting = f, paused = q, batch_used = k, token_used = k, gen_admitted = k\<rparr> i
      = \<lparr>fitting = f, paused = q @ [i], batch_used = k, token_used = k, gen_admitted = k\<rparr>"
      by (auto simp: pack_generation_def generation_room_def saturating_le [OF assms])
    then show ?thesis using False by (simp add: Cons Let_def)
  qed
qed simp

lemma packed_generation_eq:
  assumes "max_num_tokens x < u64_max"
  shows "packed_generation x = (let n = min (generation_room x) (length (generation_order x))
     in \<lparr>fitting = take n (generation_order x), paused = drop n (generation_order x),
         batch_used = n, token_used = n, gen_admitted = n\<rparr>)"
  using generation_loop [OF assms, of "[]" "[]" 0 "generation_order x"]
  by (simp add: packed_generation_def empty_packing_def Let_def)

text \<open>What packing context candidates \<open>is\<close> on top of \<open>p\<close> may admit (\<open>ys\<close>) and pause (\<open>zs\<close>).\<close>

definition context_split :: "decide_input \<Rightarrow> bool \<Rightarrow> packing \<Rightarrow> nat list \<Rightarrow> nat list \<Rightarrow> nat list \<Rightarrow> bool" where
  "context_split x st p is ys zs \<longleftrightarrow> mset ys + mset zs = mset is \<and> (st \<longrightarrow> ys = [])
     \<and> batch_used p + length ys \<le> max_batch_size x
     \<and> token_used p + sum_list (map (context_charge x) ys) \<le> max_num_tokens x
     \<and> (\<forall>i \<in> set ys. context_done_tokens x ! i = 0 \<longrightarrow> kv_watermark_blocks x \<le> kv_free_blocks x)"

lemma pack_context_cases:
  assumes "max_num_tokens x < u64_max"
  obtains (admit) "pack_context x st p i = p\<lparr>fitting := fitting p @ [i], batch_used := batch_used p + 1,
        token_used := token_used p + context_charge x i\<rparr>"
      "\<not> st" "context_done_tokens x ! i = 0 \<Longrightarrow> kv_watermark_blocks x \<le> kv_free_blocks x"
      "batch_used p < max_batch_size x" "token_used p + context_charge x i \<le> max_num_tokens x"
  | (pause) "pack_context x st p i = p\<lparr>paused := paused p @ [i]\<rparr>"
  unfolding pack_context_def saturating_le [OF assms] by (metis not_le)

lemma context_loop:
  assumes m: "max_num_tokens x < u64_max"
  shows "batch_used p \<le> max_batch_size x \<Longrightarrow> token_used p \<le> max_num_tokens x \<Longrightarrow>
    \<exists>ys zs. fitting (foldl (pack_context x st) p is) = fitting p @ ys
      \<and> paused (foldl (pack_context x st) p is) = paused p @ zs \<and> context_split x st p is ys zs"
proof (induction "is" arbitrary: p)
  case Nil
  then show ?case by (simp add: context_split_def)
next
  case (Cons i "is")
  show ?case
    using m
  proof (cases rule: pack_context_cases [where st = st and p = p and i = i])
    case admit
    define q where "q = p\<lparr>fitting := fitting p @ [i], batch_used := batch_used p + 1,
        token_used := token_used p + context_charge x i\<rparr>"
    have "batch_used q \<le> max_batch_size x" "token_used q \<le> max_num_tokens x" using admit by (simp_all add: q_def)
    from Cons.IH [OF this] obtain ys zs where r: "fitting (foldl (pack_context x st) q is) = fitting q @ ys"
      "paused (foldl (pack_context x st) q is) = paused q @ zs" "context_split x st q is ys zs" by blast
    have "context_split x st p (i # is) (i # ys) zs" using r(3) admit by (auto simp: context_split_def q_def)
    moreover have "fitting (foldl (pack_context x st) p (i # is)) = fitting p @ (i # ys)"
      "paused (foldl (pack_context x st) p (i # is)) = paused p @ zs"
      using r admit(1) by (simp_all add: q_def)
    ultimately show ?thesis by blast
  next
    case pause
    define q where "q = p\<lparr>paused := paused p @ [i]\<rparr>"
    have "batch_used q \<le> max_batch_size x" "token_used q \<le> max_num_tokens x" using Cons.prems by (simp_all add: q_def)
    from Cons.IH [OF this] obtain ys zs where r: "fitting (foldl (pack_context x st) q is) = fitting q @ ys"
      "paused (foldl (pack_context x st) q is) = paused q @ zs" "context_split x st q is ys zs" by blast
    have "context_split x st p (i # is) ys (i # zs)" using r(3) by (auto simp: context_split_def q_def)
    moreover have "fitting (foldl (pack_context x st) p (i # is)) = fitting p @ ys"
      "paused (foldl (pack_context x st) p (i # is)) = paused p @ (i # zs)"
      using r pause by (simp_all add: q_def)
    ultimately show ?thesis by blast
  qed
qed

lemma generation_order_mset: "mset (generation_order x) = mset (candidates x False)"
  by (simp add: generation_order_def split: decode_order.split)

text \<open>The decision in one piece: the first \<open>n\<close> generation candidates, then some context
  candidates; everything else is paused.\<close>

lemma decide_shape:
  assumes "max_num_tokens x < u64_max"
  obtains n ys zs where
    "n = min (generation_room x) (length (generation_order x))"
    "decide_indices x = (take n (generation_order x) @ ys, drop n (generation_order x) @ zs)"
    "mset ys + mset zs = mset (candidates x True)"
    "n < length (generation_order x) \<Longrightarrow> ys = []"
    "n + length ys \<le> max_batch_size x" "n + sum_list (map (context_charge x) ys) \<le> max_num_tokens x"
    "\<forall>i \<in> set ys. context_done_tokens x ! i = 0 \<longrightarrow> kv_watermark_blocks x \<le> kv_free_blocks x"
proof -
  define n where "n = min (generation_room x) (length (generation_order x))"
  define p where "p = packed_generation x"
  have p: "p = \<lparr>fitting = take n (generation_order x), paused = drop n (generation_order x),
         batch_used = n, token_used = n, gen_admitted = n\<rparr>"
    unfolding p_def packed_generation_eq [OF assms] n_def Let_def by (rule refl)
  have "batch_used p \<le> max_batch_size x" "token_used p \<le> max_num_tokens x"
    by (simp_all add: p n_def generation_room_def)
  from context_loop [OF assms this, of "paused p \<noteq> []" "sort_key (by_arrival_then_id x) (candidates x True)"]
  obtain ys zs where q: "fitting (packed x) = fitting p @ ys" "paused (packed x) = paused p @ zs"
    "context_split x (paused p \<noteq> []) p (sort_key (by_arrival_then_id x) (candidates x True)) ys zs"
    unfolding packed_def Let_def p_def [symmetric] by blast
  show thesis
    by (rule that [of n ys zs]) (use q in \<open>simp_all add: p n_def decide_indices_def context_split_def\<close>)
qed

subsection \<open>The ledger\<close>

lemma stamp_get:
  "hm_get (stamp now is m) i = (if i \<in> set is then Some \<lparr>last_seen_ms = now, steps_absent = 0\<rparr> else hm_get m i)"
  by (induction "is" arbitrary: m) (auto simp: hm_simps)

lemma stamp_wf [keeps]: "hm_wf m \<Longrightarrow> hm_wf (stamp now is m)"
  by (induction "is" arbitrary: m) simp_all

lemma age_keys: "set (hm_keys (age present m)) \<subseteq> set (hm_keys m)"
  by (induction present m rule: age.induct) (auto simp: Let_def)

lemma age_wf [keeps]: "hm_wf m \<Longrightarrow> hm_wf (age present m)"
proof (induction m)
  case (Cons ie m)
  obtain i e where "ie = (i, e)" by (cases ie)
  then show ?case using Cons age_keys [of present m] by (auto simp: Let_def)
qed simp

lemma age_get:
  assumes "hm_wf m"
  shows "hm_get (age present m) i = (case hm_get m i of None \<Rightarrow> None
    | Some e \<Rightarrow> if i \<in> set present then Some e
        else if steps_absent e + 1 \<le> LEDGER_FORGET_STEPS then Some (e\<lparr>steps_absent := steps_absent e + 1\<rparr>) else None)"
  using assms
proof (induction m)
  case (Cons je m)
  obtain j e where j: "je = (j, e)" by (cases je)
  have "hm_get (age present m) j = None" if "j \<notin> fst ` set m"
    using that age_keys [of present m] by (auto simp: map_of_eq_None_iff)
  then show ?case using Cons j by (auto simp: Let_def map_of_eq_None_iff)
qed simp

lemma update_ledger_get:
  assumes "hm_wf (ledger s)"
  shows "hm_get (ledger (update_ledger s present now)) i =
    (if i \<in> set present then Some \<lparr>last_seen_ms = now, steps_absent = 0\<rparr>
     else case hm_get (ledger s) i of None \<Rightarrow> None
       | Some e \<Rightarrow> if steps_absent e + 1 \<le> LEDGER_FORGET_STEPS then Some (e\<lparr>steps_absent := steps_absent e + 1\<rparr>) else None)"
  by (simp add: update_ledger_def age_get [OF stamp_wf [OF assms]] stamp_get split: option.split)

lemma update_ledger_wf [keeps]: "hm_wf (ledger s) \<Longrightarrow> hm_wf (ledger (update_ledger s present now))"
  by (simp add: update_ledger_def age_wf stamp_wf)

definition ledger_run :: "rust_scheduler \<Rightarrow> (int list \<times> real) list \<Rightarrow> rust_scheduler" where
  "ledger_run s steps = foldl (\<lambda>s (present, now). update_ledger s present now) s steps"

lemma ledger_run_wf: "hm_wf (ledger s) \<Longrightarrow> hm_wf (ledger (ledger_run s steps))"
  unfolding ledger_run_def by (induction steps arbitrary: s) (auto intro: update_ledger_wf)

lemma ledger_run_snoc: "ledger_run s (steps @ [(present, now)]) = update_ledger (ledger_run s steps) present now"
  by (simp add: ledger_run_def)

lemma ledger_absence:
  assumes "hm_wf (ledger s)" "i \<in> set seen" "\<forall>(present, t) \<in> set steps. i \<notin> set present"
  shows "hm_get (ledger (ledger_run s ((seen, now) # steps))) i =
    (if length steps \<le> LEDGER_FORGET_STEPS then Some \<lparr>last_seen_ms = now, steps_absent = length steps\<rparr> else None)"
  using assms(3)
proof (induction steps rule: rev_induct)
  case Nil
  then show ?case using assms(1,2) by (simp add: ledger_run_def update_ledger_get)
next
  case (snoc st steps)
  obtain present t where st: "st = (present, t)" by (cases st)
  have w: "hm_wf (ledger (ledger_run s ((seen, now) # steps)))" by (rule ledger_run_wf [OF assms(1)])
  have "hm_get (ledger (ledger_run s ((seen, now) # steps))) i =
    (if length steps \<le> LEDGER_FORGET_STEPS then Some \<lparr>last_seen_ms = now, steps_absent = length steps\<rparr> else None)"
    using snoc by simp
  moreover have "i \<notin> set present" using snoc.prems st by simp
  ultimately show ?case
    using ledger_run_snoc [of s "(seen, now) # steps" present t] st by (simp add: update_ledger_get [OF w])
qed

subsection \<open>Properties\<close>

definition charge :: "decide_input \<Rightarrow> nat \<Rightarrow> nat" where
  "charge x i = (if is_context x ! i then context_charge x i else 1)"

lemma candidates_iff: "i \<in> set (candidates x c) \<longleftrightarrow> i < length (ids x) \<and> ids x ! i \<notin> set (inflight x) \<and> is_context x ! i = c"
  by (auto simp: candidates_def)

lemma generation_order_set: "set (generation_order x) = set (candidates x False)"
  using generation_order_mset mset_eq_setD by blast

text \<open>C40. Every request that is not in flight is either admitted or paused, exactly once, and
  no request in flight is in either list.\<close>

theorem decide_partitions_requests:
  assumes "max_num_tokens x < u64_max" "decide_indices x = (fit, pau)"
  shows "distinct (fit @ pau) \<and> set (fit @ pau) = {i. i < length (ids x) \<and> ids x ! i \<notin> set (inflight x)}"
proof -
  obtain n ys zs where d: "(fit, pau) = (take n (generation_order x) @ ys, drop n (generation_order x) @ zs)"
    "mset ys + mset zs = mset (candidates x True)"
    using decide_shape [OF assms(1)] assms(2) by metis
  have "mset (fit @ pau) = mset (take n (generation_order x) @ drop n (generation_order x)) + (mset ys + mset zs)"
    using d(1) by (simp only: prod.inject mset_append ac_simps)
  also have "\<dots> = mset (candidates x False @ candidates x True)"
    unfolding append_take_drop_id d(2) generation_order_mset by simp
  finally have e: "mset (fit @ pau) = mset (candidates x False @ candidates x True)" .
  have "distinct (candidates x False @ candidates x True)"
    using candidates_iff [of _ x False] candidates_iff [of _ x True] by (auto simp: candidates_def)
  then have "distinct (fit @ pau)" using mset_eq_imp_distinct_iff [OF e] by blast
  moreover have "set (fit @ pau) = set (candidates x False) \<union> set (candidates x True)"
    using mset_eq_setD [OF e] by simp
  ultimately show ?thesis by (auto simp: candidates_iff)
qed

definition two_requests :: decide_input where
  "two_requests = \<lparr>ids = [10, 11], is_context = [False, True], prompt_lens = [100, 400], context_done_tokens = [100, 0],
     arrivals_ms = [0, 5], inflight = [], max_batch_size = 8, max_num_tokens = 256, tokens_generated = [3, 0],
     max_new_tokens = [200, 200], now_ms = 50, budget_ms = 20, decode_policy = Slack, kv_free_blocks = 90,
     kv_watermark_blocks = 10, generation_cap = 4\<rparr>"

lemma two_requests_small: "max_num_tokens two_requests < u64_max"
  by (simp add: two_requests_def u64_max_def)

theorem decide_partitions_requests_witness:
  "set (fst (decide_indices two_requests) @ snd (decide_indices two_requests)) = {i. i < 2}"
  using decide_partitions_requests [OF two_requests_small prod.collapse [symmetric]]
  by (auto simp: two_requests_def)

text \<open>C21. The admitted requests respect every budget: the batch size, the controller's cap on
  generation requests, and the shared token budget, to which a generation request is charged
  one token and a context request what is left of its prompt. If a running sequence is
  paused no context request is admitted, and a prompt that has not started is admitted only
  while the free pages reach the watermark.\<close>

theorem decide_within_budgets:
  assumes "max_num_tokens x < u64_max" "decide_indices x = (fit, pau)"
  shows "length fit \<le> max_batch_size x
    \<and> length (filter (\<lambda>i. \<not> is_context x ! i) fit) \<le> generation_cap x
    \<and> sum_list (map (charge x) fit) \<le> max_num_tokens x
    \<and> ((\<exists>i \<in> set pau. \<not> is_context x ! i) \<longrightarrow> (\<forall>i \<in> set fit. \<not> is_context x ! i))
    \<and> (\<forall>i \<in> set fit. is_context x ! i \<and> context_done_tokens x ! i = 0 \<longrightarrow> kv_watermark_blocks x \<le> kv_free_blocks x)"
proof -
  obtain n ys zs where n: "n = min (generation_room x) (length (generation_order x))"
    and d: "(fit, pau) = (take n (generation_order x) @ ys, drop n (generation_order x) @ zs)"
    and m: "mset ys + mset zs = mset (candidates x True)" and st: "n < length (generation_order x) \<Longrightarrow> ys = []"
    and b: "n + length ys \<le> max_batch_size x" "n + sum_list (map (context_charge x) ys) \<le> max_num_tokens x"
    and w: "\<forall>i \<in> set ys. context_done_tokens x ! i = 0 \<longrightarrow> kv_watermark_blocks x \<le> kv_free_blocks x"
    using decide_shape [OF assms(1)] assms(2) by metis
  let ?g = "take n (generation_order x)"
  have fit: "fit = ?g @ ys" and pau: "pau = drop n (generation_order x) @ zs" using d by simp_all
  have len: "length ?g = n" using n by simp
  have g: "\<not> is_context x ! i" if "i \<in> set (generation_order x)" for i using that by (simp add: generation_order_set candidates_iff)
  have c: "is_context x ! i" if "i \<in> set ys \<or> i \<in> set zs" for i
  proof -
    have "set ys \<union> set zs = set (candidates x True)" using m by (metis set_mset_mset set_mset_union)
    then show ?thesis using that candidates_iff [of i x True] by blast
  qed
  have gg: "\<not> is_context x ! i" if "i \<in> set ?g" for i using that g by (meson in_set_takeD)
  have "filter (\<lambda>i. \<not> is_context x ! i) fit = ?g" unfolding fit using c gg by (simp add: filter_id_conv filter_empty_conv)
  then have cap: "length (filter (\<lambda>i. \<not> is_context x ! i) fit) \<le> generation_cap x"
    using len n by (simp add: generation_room_def)
  have "map (charge x) ?g = map (\<lambda>_. 1) ?g" using gg by (simp add: charge_def)
  then have "sum_list (map (charge x) ?g) = sum_list (map (\<lambda>_. 1) ?g)" by (rule arg_cong)
  then have "sum_list (map (charge x) ?g) = n" unfolding sum_list_triv len by simp
  moreover have "sum_list (map (charge x) ys) = sum_list (map (context_charge x) ys)"
    using c by (intro arg_cong [of _ _ sum_list]) (simp add: charge_def)
  ultimately have tok: "sum_list (map (charge x) fit) \<le> max_num_tokens x" using b(2) unfolding fit by simp
  have len2: "length fit \<le> max_batch_size x" using b(1) len unfolding fit by simp
  have stall: "\<forall>i \<in> set fit. \<not> is_context x ! i" if "\<exists>i \<in> set pau. \<not> is_context x ! i"
  proof -
    have "set (drop n (generation_order x)) \<noteq> {}" using that c unfolding pau by auto
    then have "ys = []" using st by auto
    then show ?thesis unfolding fit using gg by auto
  qed
  have "\<forall>i \<in> set fit. is_context x ! i \<and> context_done_tokens x ! i = 0 \<longrightarrow> kv_watermark_blocks x \<le> kv_free_blocks x"
    unfolding fit using gg w by auto
  then show ?thesis using len2 cap tok stall by blast
qed

theorem decide_within_budgets_witness: "sum_list (map (charge two_requests) (fst (decide_indices two_requests))) \<le> 256"
  using decide_within_budgets [OF two_requests_small prod.collapse [symmetric]] by (simp add: two_requests_def)

text \<open>Under the slack order, the sequences that are paused are those that can best afford
  it: no paused generation request tolerates less latency per remaining token than an
  admitted one.\<close>

theorem decide_pauses_most_tolerant:
  assumes "max_num_tokens x < u64_max" "decide_indices x = (fit, pau)" "decode_policy x = Slack"
    and "i \<in> set fit" "\<not> is_context x ! i" "j \<in> set pau" "\<not> is_context x ! j"
  shows "stall_tolerance (now_ms x) (arrivals_ms x ! i) (tokens_generated x ! i) (max_new_tokens x ! i) (budget_ms x)
     \<le> stall_tolerance (now_ms x) (arrivals_ms x ! j) (tokens_generated x ! j) (max_new_tokens x ! j) (budget_ms x)"
proof -
  obtain n ys zs where d: "(fit, pau) = (take n (generation_order x) @ ys, drop n (generation_order x) @ zs)"
    and m: "mset ys + mset zs = mset (candidates x True)"
    using decide_shape [OF assms(1)] assms(2) by metis
  have "set ys \<union> set zs = set (candidates x True)" using m by (metis set_mset_mset set_mset_union)
  then have ij: "i \<in> set (take n (generation_order x))" "j \<in> set (drop n (generation_order x))"
    using d assms(4-7) candidates_iff [of i x True] candidates_iff [of j x True] by auto
  have "sorted (map (by_slack_then_id x) (generation_order x))"
    using assms(3) by (simp add: generation_order_def)
  then have "sorted (map (by_slack_then_id x) (take n (generation_order x)) @ map (by_slack_then_id x) (drop n (generation_order x)))"
    by (simp flip: map_append)
  then have "by_slack_then_id x i \<le> by_slack_then_id x j" using ij by (auto simp: sorted_append)
  then show ?thesis by (auto simp: by_slack_then_id_def less_eq_prod_def)
qed

definition two_sequences :: decide_input where
  "two_sequences = two_requests\<lparr>is_context := [False, False], tokens_generated := [3, 190], generation_cap := 1\<rparr>"

lemma two_sequences_decision: "decide_indices two_sequences = ([0], [1])"
proof -
  have m: "max_num_tokens two_sequences < u64_max" by (simp add: two_sequences_def two_requests_def u64_max_def)
  have c: "candidates two_sequences False = [0, 1]" "candidates two_sequences True = []"
    by (simp_all add: candidates_def two_sequences_def two_requests_def)
  have "generation_order two_sequences = sort_key (by_slack_then_id two_sequences) [0, 1]"
    unfolding generation_order_def c by (simp add: two_sequences_def two_requests_def)
  also have "\<dots> = [0, 1]"
    by (simp add: by_slack_then_id_def two_sequences_def two_requests_def stall_tolerance_def)
  finally have g: "generation_order two_sequences = [0, 1]" .
  have r: "generation_room two_sequences = 1" by (simp add: generation_room_def two_sequences_def two_requests_def)
  obtain n :: nat and ys zs :: "nat list" where "n = min (generation_room two_sequences) (length (generation_order two_sequences))"
    "decide_indices two_sequences = (take n (generation_order two_sequences) @ ys, drop n (generation_order two_sequences) @ zs)"
    "mset ys + mset zs = mset (candidates two_sequences True)"
    using decide_shape [OF m] by metis
  then show ?thesis by (simp add: g r c)
qed

theorem decide_pauses_most_tolerant_witness:
  "stall_tolerance 50 0 3 200 20 \<le> stall_tolerance 50 5 190 200 20"
proof -
  have m: "max_num_tokens two_sequences < u64_max" by (simp add: two_sequences_def two_requests_def u64_max_def)
  have "decode_policy two_sequences = Slack" by (simp add: two_sequences_def two_requests_def)
  from decide_pauses_most_tolerant [OF m two_sequences_decision this, of 0 1] show ?thesis
    by (simp add: two_sequences_def two_requests_def)
qed

text \<open>A context request is charged its whole remaining prompt, so one longer than the token
  budget is never admitted, however empty the step is.\<close>

theorem oversized_prompt_never_admitted:
  assumes "max_num_tokens x < u64_max" "decide_indices x = (fit, pau)"
    and "is_context x ! i" "max_num_tokens x < context_charge x i"
  shows "i \<notin> set fit"
proof
  assume "i \<in> set fit"
  obtain n ys zs where d: "(fit, pau) = (take n (generation_order x) @ ys, drop n (generation_order x) @ zs)"
    and b: "n + sum_list (map (context_charge x) ys) \<le> max_num_tokens x"
    using decide_shape [OF assms(1)] assms(2) by metis
  have "i \<notin> set (take n (generation_order x))"
    using assms(3) in_set_takeD [of i n "generation_order x"] by (auto simp: generation_order_set candidates_iff)
  then have "i \<in> set ys" using \<open>i \<in> set fit\<close> d by simp
  then have "context_charge x i \<le> sum_list (map (context_charge x) ys)" by (simp add: member_le_sum_list)
  then show False using b assms(4) by simp
qed

theorem oversized_prompt_never_admitted_witness: "1 \<notin> set (fst (decide_indices two_requests))"
  by (rule oversized_prompt_never_admitted [OF two_requests_small prod.collapse [symmetric]])
    (simp_all add: two_requests_def context_charge_def)

text \<open>The ledger sees absences and forgets them in the end. A request offered at one step
  and in none of the following \<open>k\<close> steps is recorded with the time it was last seen and its
  \<open>k\<close> absent steps while \<open>k\<close> is at most ten thousand, and is gone from the ledger afterwards.\<close>

theorem ledger_records_absence:
  assumes "hm_wf (ledger s)" "i \<in> set seen" "\<forall>(present, t) \<in> set steps. i \<notin> set present"
  shows "hm_get (ledger (ledger_run s ((seen, now) # steps))) i =
    (if length steps \<le> LEDGER_FORGET_STEPS then Some \<lparr>last_seen_ms = now, steps_absent = length steps\<rparr> else None)"
  using assms by (rule ledger_absence)

theorem ledger_records_absence_witness:
  "hm_get (ledger (ledger_run (the (rust_new 96 16384 20 4096 Slack)) [([1, 2, 3], 0), ([1, 3], 12)])) 2
     = Some \<lparr>last_seen_ms = 0, steps_absent = 1\<rparr>"
proof -
  have "hm_wf (ledger (the (rust_new 96 16384 20 4096 Slack)))" by (simp add: rust_new_def itl_new_def)
  from ledger_records_absence [OF this, of 2 "[1, 2, 3]" "[([1, 3], 12)]" 0] show ?thesis
    by (simp add: LEDGER_FORGET_STEPS_def)
qed

end
