(* ===== verification/Float64.thy ===== *)
theory Float64
  imports Prelude
begin

text \<open>
  The \<open>f64\<close> of the planner (\<open>crates/core/src/capacity.rs\<close>), whose quotients are not guarded: a rate may come
  out as an infinity or as no number at all, and the code then panics or ranks it.

  A number is a real, one of the two infinities, the negative zero or \<open>NaN\<close>. The special cases of addition,
  multiplication, division, \<open>max\<close>, \<open>clamp\<close> and of both comparisons are those of IEEE 754 and of
  Rust's \<open>f64\<close>. What is abstracted is rounding, overflow and underflow (finite results are exact), and the sign and the payload
  of a \<open>NaN\<close>, which is unspecified in Rust and which only \<open>total_cmp\<close> could observe; here a \<open>NaN\<close> is above every number.
\<close>

subsection \<open>Numbers\<close>

datatype f64 = NegInf | NegZero | Num real | PosInf | NaN

fun f_inf :: "f64 \<Rightarrow> bool" where
  "f_inf NegInf = True"
| "f_inf PosInf = True"
| "f_inf _ = False"

fun f_zero :: "f64 \<Rightarrow> bool" where
  "f_zero NegZero = True"
| "f_zero (Num x) = (x = 0)"
| "f_zero _ = False"

text \<open>The sign bit.\<close>

fun f_neg :: "f64 \<Rightarrow> bool" where
  "f_neg NegInf = True"
| "f_neg NegZero = True"
| "f_neg (Num x) = (x < 0)"
| "f_neg _ = False"

text \<open>The value of a finite number.\<close>

fun f_val :: "f64 \<Rightarrow> real" where
  "f_val (Num x) = x"
| "f_val _ = 0"

fun f_of_ext :: "ext \<Rightarrow> f64" where
  "f_of_ext (Fin x) = Num x"
| "f_of_ext Infinite = PosInf"

subsection \<open>Arithmetic\<close>

definition signed_inf :: "bool \<Rightarrow> f64" where
  "signed_inf neg = (if neg then NegInf else PosInf)"

definition signed_zero :: "bool \<Rightarrow> f64" where
  "signed_zero neg = (if neg then NegZero else Num 0)"

definition f_add :: "f64 \<Rightarrow> f64 \<Rightarrow> f64" where
  "f_add a b =
    (if a = NaN \<or> b = NaN \<or> f_inf a \<and> f_inf b \<and> a \<noteq> b then NaN
     else if f_inf a then a else if f_inf b then b
     else if a = NegZero \<and> b = NegZero then NegZero else Num (f_val a + f_val b))"

definition f_mul :: "f64 \<Rightarrow> f64 \<Rightarrow> f64" where
  "f_mul a b =
    (let neg = (f_neg a \<noteq> f_neg b)
     in if a = NaN \<or> b = NaN then NaN
        else if f_inf a \<or> f_inf b then (if f_zero a \<or> f_zero b then NaN else signed_inf neg)
        else if f_zero a \<or> f_zero b then signed_zero neg else Num (f_val a * f_val b))"

definition f_div :: "f64 \<Rightarrow> f64 \<Rightarrow> f64" where
  "f_div a b =
    (let neg = (f_neg a \<noteq> f_neg b)
     in if a = NaN \<or> b = NaN \<or> f_inf a \<and> f_inf b \<or> f_zero a \<and> f_zero b then NaN
        else if f_inf a \<or> f_zero b then signed_inf neg
        else if f_inf b \<or> f_zero a then signed_zero neg else Num (f_val a / f_val b))"

subsection \<open>Comparison\<close>

text \<open>\<open>total_cmp\<close>: the negative zero is below the positive one.\<close>

fun f_class :: "f64 \<Rightarrow> nat" where
  "f_class NegInf = 0"
| "f_class NegZero = 2"
| "f_class (Num x) = (if x < 0 then 1 else 3)"
| "f_class PosInf = 4"
| "f_class NaN = 5"

instantiation f64 :: linorder
begin

definition less_eq_f64 :: "f64 \<Rightarrow> f64 \<Rightarrow> bool" where
  "less_eq_f64 a b \<longleftrightarrow> f_class a < f_class b \<or> f_class a = f_class b \<and> f_val a \<le> f_val b"

definition less_f64 :: "f64 \<Rightarrow> f64 \<Rightarrow> bool" where
  "less_f64 a b \<longleftrightarrow> f_class a < f_class b \<or> f_class a = f_class b \<and> f_val a < f_val b"

instance
proof
  fix x y z :: f64
  show "x < y \<longleftrightarrow> x \<le> y \<and> \<not> y \<le> x" by (auto simp: less_eq_f64_def less_f64_def)
  show "x \<le> x" by (simp add: less_eq_f64_def)
  show "x \<le> y \<Longrightarrow> y \<le> z \<Longrightarrow> x \<le> z" by (auto simp: less_eq_f64_def)
  show "x \<le> y \<Longrightarrow> y \<le> x \<Longrightarrow> x = y" by (cases x; cases y) (auto simp: less_eq_f64_def split: if_splits)
  show "x \<le> y \<or> y \<le> x" by (auto simp: less_eq_f64_def)
qed

end

text \<open>The operators \<open><\<close> and \<open><=\<close> and \<open>partial_cmp\<close>: the two zeros are equal, and nothing compares with
  a \<open>NaN\<close>.\<close>

fun f_plain :: "f64 \<Rightarrow> f64" where
  "f_plain NegZero = Num 0"
| "f_plain x = x"

definition f_le :: "f64 \<Rightarrow> f64 \<Rightarrow> bool" where
  "f_le a b \<longleftrightarrow> a \<noteq> NaN \<and> b \<noteq> NaN \<and> f_plain a \<le> f_plain b"

definition f_lt :: "f64 \<Rightarrow> f64 \<Rightarrow> bool" where
  "f_lt a b \<longleftrightarrow> a \<noteq> NaN \<and> b \<noteq> NaN \<and> f_plain a < f_plain b"

text \<open>\<open>f64::max\<close> and \<open>f64::min\<close> prefer the number to a \<open>NaN\<close>.\<close>

definition f_max :: "f64 \<Rightarrow> f64 \<Rightarrow> f64" where
  "f_max a b = (if a = NaN then b else if b = NaN then a else max a b)"

text \<open>\<open>f64::clamp\<close> between finite bounds: it panics when they are crossed, and a \<open>NaN\<close> stays one.\<close>

definition f_clamp :: "f64 \<Rightarrow> real \<Rightarrow> real \<Rightarrow> f64 option" where
  "f_clamp x lo hi =
    (if \<not> lo \<le> hi then None else Some (if f_lt x (Num lo) then Num lo else if f_lt (Num hi) x then Num hi else x))"

subsection \<open>Facts\<close>

named_theorems f64_eval

lemma f_arith [f64_eval]:
  "f_add (Num a) (Num b) = Num (a + b)"
  "a * b \<noteq> 0 \<Longrightarrow> f_mul (Num a) (Num b) = Num (a * b)"
  "0 \<le> a \<Longrightarrow> 0 \<le> b \<Longrightarrow> f_mul (Num a) (Num b) = Num (a * b)"
  "a \<noteq> 0 \<Longrightarrow> b \<noteq> 0 \<Longrightarrow> f_div (Num a) (Num b) = Num (a / b)"
  "0 \<le> a \<Longrightarrow> 0 < b \<Longrightarrow> f_div (Num a) (Num b) = Num (a / b)"
  by (auto simp: f_add_def f_mul_def f_div_def signed_zero_def)

lemma f_num_le [simp]: "Num a \<le> Num b \<longleftrightarrow> a \<le> b"
  by (auto simp: less_eq_f64_def)

lemma f_num_less [simp]: "Num a < Num b \<longleftrightarrow> a < b"
  by (auto simp: less_f64_def)

lemma f_le_num [simp]: "f_le (Num a) (Num b) \<longleftrightarrow> a \<le> b" "f_lt (Num a) (Num b) \<longleftrightarrow> a < b"
  by (simp_all add: f_le_def f_lt_def)

lemma f_le_inf [simp]: "f_le a PosInf \<longleftrightarrow> a \<noteq> NaN" "f_lt PosInf a = False" "f_le NegInf a \<longleftrightarrow> a \<noteq> NaN"
  by (cases a; simp add: f_le_def f_lt_def less_eq_f64_def less_f64_def)+

lemma f_max_num [simp]: "f_max (Num a) (Num b) = Num (max a b)"
  by (simp add: f_max_def max_def)

text \<open>Where neither operand is out of range a quotient is never \<open>NaN\<close>.\<close>

lemma f_div_nan_iff:
  "f_div a b = NaN \<longleftrightarrow> a = NaN \<or> b = NaN \<or> f_inf a \<and> f_inf b \<or> f_zero a \<and> f_zero b"
  by (simp add: f_div_def Let_def signed_inf_def signed_zero_def)

lemma f_mul_nan_iff:
  "f_mul a b = NaN \<longleftrightarrow> a = NaN \<or> b = NaN \<or> f_inf a \<and> f_zero b \<or> f_zero a \<and> f_inf b"
  by (cases a; cases b) (auto simp: f_mul_def Let_def signed_inf_def signed_zero_def)

lemma f_le_trans: "f_le a b \<Longrightarrow> f_le b c \<Longrightarrow> f_le a c"
  by (auto simp: f_le_def)

lemma f_le_total: "a \<noteq> NaN \<Longrightarrow> b \<noteq> NaN \<Longrightarrow> f_le a b \<or> f_le b a"
  by (auto simp: f_le_def)

lemma f_lt_iff: "f_lt a b \<longleftrightarrow> a \<noteq> NaN \<and> b \<noteq> NaN \<and> \<not> f_le b a"
  by (auto simp: f_le_def f_lt_def)

end
