(* ===== verification/Kv_Transfer.thy ===== *)
theory Kv_Transfer
  imports Block_Pool Float64
begin

text \<open>
  \<open>crates/transfer/src\<close>: resharding of KV heads between tensor-parallel layouts
  (\<open>reshard.rs\<close>), the in-process transfer (\<open>local.rs\<close>) and the transfer types (\<open>lib.rs\<close>).

  \<open>plan\<close> is the nested loop of the source as a list of edges. The specification is the
  layout itself: which rank holds which head, with a head replicated over consecutive ranks
  when there are more ranks than heads. Byte counts are \<open>u64\<close> and wrap as a release build does; the wire time is an \<open>f64\<close>, infinite or not a
  number when the bandwidth is zero.
\<close>

record reshard =
  num_kv_heads :: nat
  src_tp :: nat
  dst_tp :: nat

record reshard_edge =
  edge_head :: nat
  src_rank :: nat
  dst_rank :: nat

record reshard_plan =
  plan_reshard :: reshard
  edges :: "reshard_edge list"

definition reshard_identity :: "nat \<Rightarrow> nat \<Rightarrow> reshard" where
  "reshard_identity heads tp = \<lparr>num_kv_heads = heads, src_tp = tp, dst_tp = tp\<rparr>"

definition is_identity :: "reshard \<Rightarrow> bool" where
  "is_identity r \<longleftrightarrow> src_tp r = dst_tp r"

text \<open>\<open>checked_div(..).unwrap_or(0)\<close>: division by zero is zero on \<open>nat\<close>.\<close>

definition heads_per_rank :: "reshard \<Rightarrow> nat \<Rightarrow> nat" where
  "heads_per_rank r tp = num_kv_heads r div tp"

definition dst_replication :: "reshard \<Rightarrow> nat" where
  "dst_replication r = max (if num_kv_heads r = 0 then 1 else dst_tp r div num_kv_heads r) 1"

definition head_src_rank :: "reshard \<Rightarrow> nat \<Rightarrow> nat" where
  "head_src_rank r h =
    (if src_tp r \<le> num_kv_heads r then h div (num_kv_heads r div src_tp r)
     else h * (src_tp r div num_kv_heads r))"

definition head_edges :: "reshard \<Rightarrow> nat \<Rightarrow> reshard_edge list" where
  "head_edges r h =
    (if dst_tp r \<le> num_kv_heads r
     then [\<lparr>edge_head = h, src_rank = head_src_rank r h, dst_rank = h div (num_kv_heads r div dst_tp r)\<rparr>]
     else let rep = dst_tp r div num_kv_heads r
          in map (\<lambda>i. \<lparr>edge_head = h, src_rank = head_src_rank r h, dst_rank = h * rep + i\<rparr>) [0..<rep])"

definition reshard_plan_of :: "reshard \<Rightarrow> error + reshard_plan" where
  "reshard_plan_of r =
    (if num_kv_heads r = 0 \<or> src_tp r = 0 \<or> dst_tp r = 0
     then Inl (Transfer ''reshard needs non-zero heads and TP degrees'')
     else if src_tp r > num_kv_heads r \<and> src_tp r mod num_kv_heads r \<noteq> 0
     then Inl (Transfer (''src TP '' @ nat_str (src_tp r) @ '' does not divide evenly into ''
       @ nat_str (num_kv_heads r) @ '' kv heads''))
     else if dst_tp r > num_kv_heads r \<and> dst_tp r mod num_kv_heads r \<noteq> 0
     then Inl (Transfer (''dst TP '' @ nat_str (dst_tp r) @ '' does not divide evenly into ''
       @ nat_str (num_kv_heads r) @ '' kv heads''))
     else Inr \<lparr>plan_reshard = r, edges = concat (map (head_edges r) [0..<num_kv_heads r])\<rparr>)"

definition amplification :: "reshard_plan \<Rightarrow> real" where
  "amplification p = real (length (edges p)) / real (max (num_kv_heads (plan_reshard p)) 1)"

subsection \<open>Transfers\<close>

record transfer_request =
  tr_id :: request_id
  src_blocks :: "block_id list"
  dst_blocks :: "block_id list"
  num_tokens :: nat
  tr_reshard :: reshard

record transfer_stats =
  bytes :: nat
  transfer_elapsed_ms :: f64

definition moved_data :: "transfer_stats \<Rightarrow> bool" where
  "moved_data s \<longleftrightarrow> bytes s > 0"

definition gib_per_s :: "transfer_stats \<Rightarrow> f64" where
  "gib_per_s s = (if f_le (transfer_elapsed_ms s) (Num 0) then Num 0
     else f_div (Num (real (bytes s) / 1024 / 1024 / 1024)) (f_div (transfer_elapsed_ms s) (Num 1000)))"

record local_transfer =
  bytes_per_token :: nat
  bandwidth_gib_s :: real
  latency_ms :: real

definition kv_bytes_per_token :: "nat \<Rightarrow> nat \<Rightarrow> nat \<Rightarrow> nat \<Rightarrow> nat" where
  "kv_bytes_per_token layers kv_heads head_dim dtype_bytes = 2 * layers * kv_heads * head_dim * dtype_bytes mod 2 ^ 64"

definition default_transfer :: local_transfer where
  "default_transfer = \<lparr>bytes_per_token = kv_bytes_per_token 94 4 128 1, bandwidth_gib_s = 40, latency_ms = 1 / 2\<rparr>"

definition transfer :: "local_transfer \<Rightarrow> transfer_request \<Rightarrow> error + transfer_stats" where
  "transfer t req = (case reshard_plan_of (tr_reshard req) of
     Inl e \<Rightarrow> Inl e
   | Inr p \<Rightarrow>
       let n = num_tokens req * bytes_per_token t mod 2 ^ 64;
           on_wire = real n * amplification p;
           secs = f_div (Num on_wire) (Num (bandwidth_gib_s t * 1024 * 1024 * 1024))
       in Inr \<lparr>bytes = n, transfer_elapsed_ms = f_add (Num (latency_ms t)) (f_mul secs (Num 1000))\<rparr>)"

subsection \<open>Layouts\<close>

text \<open>Rank \<open>k\<close> of \<open>tp\<close> holds head \<open>h\<close> of \<open>n\<close>: blocks of \<open>n / tp\<close> heads, or \<open>tp / n\<close> replicas.\<close>

definition holds :: "nat \<Rightarrow> nat \<Rightarrow> nat \<Rightarrow> nat \<Rightarrow> bool" where
  "holds n tp h k \<longleftrightarrow> h < n \<and> k < tp \<and>
     (if tp \<le> n then h div (n div tp) = k else k div (tp div n) = h)"

definition even_layout :: "nat \<Rightarrow> nat \<Rightarrow> bool" where
  "even_layout n tp \<longleftrightarrow> 0 < n \<and> 0 < tp \<and> (tp dvd n \<or> n dvd tp)"

lemma block_rank_less: "tp dvd n \<Longrightarrow> 0 < n \<Longrightarrow> h < n \<Longrightarrow> h div (n div tp) < (tp :: nat)"
  by (metis div_less_iff_less_mult dvd_div_mult_self dvd_div_eq_0_iff neq0_conv mult.commute)

lemma even_small: "even_layout n tp \<Longrightarrow> tp \<le> n \<Longrightarrow> tp dvd n"
  using dvd_imp_le [of n tp] by (auto simp: even_layout_def)

lemma even_large: "even_layout n tp \<Longrightarrow> \<not> tp \<le> n \<Longrightarrow> n dvd tp"
  using dvd_imp_le [of tp n] by (auto simp: even_layout_def)

lemma replica_rank:
  assumes "n dvd tp" "h < n" "i < tp div n"
  shows "h * (tp div n) + i < (tp :: nat) \<and> (h * (tp div n) + i) div (tp div n) = h"
proof -
  have "h * (tp div n) + i < Suc h * (tp div n)" using assms(3) by simp
  also have "\<dots> \<le> n * (tp div n)" using assms(2) by (intro mult_le_mono1) simp
  also have "\<dots> = tp" using assms(1) by simp
  finally show ?thesis using assms(3) by simp
qed

lemma src_holds:
  assumes "even_layout (num_kv_heads r) (src_tp r)" "h < num_kv_heads r"
  shows "holds (num_kv_heads r) (src_tp r) h (head_src_rank r h)"
proof (cases "src_tp r \<le> num_kv_heads r")
  case True
  then show ?thesis
    using assms block_rank_less [OF even_small [OF assms(1) True] _ assms(2)]
    by (simp add: holds_def head_src_rank_def even_layout_def)
next
  case False
  have d: "num_kv_heads r dvd src_tp r" by (rule even_large [OF assms(1) False])
  have "0 < src_tp r div num_kv_heads r" using False assms by (simp add: div_greater_zero_iff even_layout_def)
  then show ?thesis using replica_rank [OF d assms(2), of 0] False assms(2) by (simp add: holds_def head_src_rank_def)
qed

lemma head_edges_dst:
  assumes "even_layout (num_kv_heads r) (dst_tp r)" "h < num_kv_heads r"
  shows "distinct (map dst_rank (head_edges r h)) \<and>
    dst_rank ` set (head_edges r h) = {k. holds (num_kv_heads r) (dst_tp r) h k}"
proof (cases "dst_tp r \<le> num_kv_heads r")
  case True
  then show ?thesis
    using assms block_rank_less [OF even_small [OF assms(1) True] _ assms(2)]
    by (auto simp: head_edges_def holds_def even_layout_def)
next
  case False
  let ?rep = "dst_tp r div num_kv_heads r"
  have d: "num_kv_heads r dvd dst_tp r" by (rule even_large [OF assms(1) False])
  have e: "map dst_rank (head_edges r h) = map (\<lambda>i. h * ?rep + i) [0..<?rep]"
    using False by (simp add: head_edges_def Let_def comp_def)
  have "(\<lambda>i. h * ?rep + i) ` {0..<?rep} = {k. holds (num_kv_heads r) (dst_tp r) h k}"
  proof (intro equalityI subsetI)
    fix k assume "k \<in> (\<lambda>i. h * ?rep + i) ` {0..<?rep}"
    then obtain i where i: "i < ?rep" "k = h * ?rep + i" unfolding image_iff by (metis atLeastLessThan_iff)
    then show "k \<in> {k. holds (num_kv_heads r) (dst_tp r) h k}"
      using replica_rank [OF d assms(2) i(1)] False assms(2) by (simp add: holds_def)
  next
    fix k assume "k \<in> {k. holds (num_kv_heads r) (dst_tp r) h k}"
    then have k: "k div ?rep = h" "k < dst_tp r" using False by (simp_all add: holds_def)
    have "0 < ?rep" using False assms by (simp add: div_greater_zero_iff even_layout_def)
    then have "k = h * ?rep + k mod ?rep" "k mod ?rep < ?rep" using k(1) by (auto simp: mult.commute)
    then show "k \<in> (\<lambda>i. h * ?rep + i) ` {0..<?rep}" by (auto intro!: image_eqI [of _ _ "k mod ?rep"])
  qed
  then have "dst_rank ` set (head_edges r h) = {k. holds (num_kv_heads r) (dst_tp r) h k}"
    using arg_cong [OF e, of set] by simp
  moreover have "distinct (map dst_rank (head_edges r h))" unfolding e by (simp add: distinct_map inj_on_def)
  ultimately show ?thesis by blast
qed

lemma head_edges_parts: "e \<in> set (head_edges r h) \<Longrightarrow> edge_head e = h \<and> src_rank e = head_src_rank r h"
  by (auto simp: head_edges_def Let_def split: if_splits)

lemma plan_ok:
  assumes "even_layout (num_kv_heads r) (src_tp r)" "even_layout (num_kv_heads r) (dst_tp r)"
  shows "reshard_plan_of r = Inr \<lparr>plan_reshard = r, edges = concat (map (head_edges r) [0..<num_kv_heads r])\<rparr>"
proof -
  have "src_tp r > num_kv_heads r \<Longrightarrow> src_tp r mod num_kv_heads r = 0"
    "dst_tp r > num_kv_heads r \<Longrightarrow> dst_tp r mod num_kv_heads r = 0"
    using even_large [OF assms(1)] even_large [OF assms(2)] by auto
  then show ?thesis using assms unfolding reshard_plan_of_def even_layout_def by auto
qed

lemma distinct_concat_edges:
  assumes "even_layout (num_kv_heads r) (dst_tp r)"
  shows "k \<le> num_kv_heads r \<Longrightarrow> distinct (concat (map (\<lambda>h. map (\<lambda>e. (edge_head e, dst_rank e)) (head_edges r h)) [0..<k]))"
proof (induction k)
  case (Suc k)
  let ?f = "\<lambda>h. map (\<lambda>e. (edge_head e, dst_rank e)) (head_edges r h)"
  have "map snd (?f k) = map dst_rank (head_edges r k)" by simp
  then have "distinct (?f k)"
    using head_edges_dst [OF assms, of k] Suc.prems by (metis Suc_le_eq distinct_map)
  moreover have "set (concat (map ?f [0..<k])) \<inter> set (?f k) = {}"
  proof -
    have "fst x < k" if "x \<in> set (concat (map ?f [0..<k]))" for x using that by (auto dest: head_edges_parts)
    moreover have "fst x = k" if "x \<in> set (?f k)" for x using that by (auto dest: head_edges_parts)
    ultimately show ?thesis by (intro equals0I) force
  qed
  ultimately show ?case using Suc by simp
qed simp

lemma plan_edge_iff:
  assumes "even_layout (num_kv_heads r) (src_tp r)" "even_layout (num_kv_heads r) (dst_tp r)"
    "reshard_plan_of r = Inr p"
  shows "(\<exists>e \<in> set (edges p). edge_head e = h \<and> dst_rank e = k) \<longleftrightarrow> holds (num_kv_heads r) (dst_tp r) h k"
proof -
  have e: "edges p = concat (map (head_edges r) [0..<num_kv_heads r])" using plan_ok [OF assms(1,2)] assms(3) by simp
  have "holds (num_kv_heads r) (dst_tp r) h k \<Longrightarrow> h < num_kv_heads r" by (simp add: holds_def)
  then have "holds (num_kv_heads r) (dst_tp r) h k \<longleftrightarrow> h < num_kv_heads r \<and> k \<in> dst_rank ` set (head_edges r h)"
    using head_edges_dst [OF assms(2), of h] by blast
  moreover have "(\<exists>e \<in> set (edges p). edge_head e = h \<and> dst_rank e = k)
      \<longleftrightarrow> h < num_kv_heads r \<and> k \<in> dst_rank ` set (head_edges r h)"
    unfolding e using head_edges_parts [of _ r] by fastforce
  ultimately show ?thesis by blast
qed

subsection \<open>Properties\<close>

text \<open>C37. Between layouts in which the tensor-parallel degree and the head count divide one
  another, the plan sends every head to exactly the ranks that hold it, once each, from a
  rank that holds it.\<close>

theorem reshard_plan_correct:
  assumes "even_layout (num_kv_heads r) (src_tp r)" "even_layout (num_kv_heads r) (dst_tp r)"
  shows "\<exists>p. reshard_plan_of r = Inr p
    \<and> distinct (map (\<lambda>e. (edge_head e, dst_rank e)) (edges p))
    \<and> (\<forall>h k. (\<exists>e \<in> set (edges p). edge_head e = h \<and> dst_rank e = k) \<longleftrightarrow> holds (num_kv_heads r) (dst_tp r) h k)
    \<and> (\<forall>e \<in> set (edges p). holds (num_kv_heads r) (src_tp r) (edge_head e) (src_rank e))"
proof -
  let ?p = "\<lparr>plan_reshard = r, edges = concat (map (head_edges r) [0..<num_kv_heads r])\<rparr>"
  have ok: "reshard_plan_of r = Inr ?p" by (rule plan_ok [OF assms])
  moreover have "distinct (map (\<lambda>e. (edge_head e, dst_rank e)) (edges ?p))"
    using distinct_concat_edges [OF assms(2) order_refl] by (simp add: map_concat comp_def)
  moreover have "\<forall>e \<in> set (edges ?p). holds (num_kv_heads r) (src_tp r) (edge_head e) (src_rank e)"
    using src_holds [OF assms(1)] by (auto dest: head_edges_parts)
  ultimately show ?thesis using plan_edge_iff [OF assms ok] by blast
qed

theorem reshard_plan_correct_witness:
  "\<exists>p. reshard_plan_of \<lparr>num_kv_heads = 4, src_tp = 2, dst_tp = 8\<rparr> = Inr p
     \<and> (\<exists>e \<in> set (edges p). edge_head e = 3 \<and> dst_rank e = 7)"
proof -
  let ?r = "\<lparr>num_kv_heads = 4, src_tp = 2, dst_tp = 8\<rparr>"
  have "even_layout (num_kv_heads ?r) (src_tp ?r)" "even_layout (num_kv_heads ?r) (dst_tp ?r)"
    by (simp_all add: even_layout_def)
  moreover have "holds (num_kv_heads ?r) (dst_tp ?r) 3 7" by (simp add: holds_def)
  ultimately show ?thesis using reshard_plan_correct [of ?r] by blast
qed

text \<open>A degree below the head count that does not divide it is not rejected, and the plan
  then names a rank that does not exist: with four heads, a destination of three ranks is
  sent a head for rank three.\<close>

theorem uneven_reshard_out_of_range:
  "\<exists>p. reshard_plan_of \<lparr>num_kv_heads = 4, src_tp = 2, dst_tp = 3\<rparr> = Inr p
     \<and> (\<exists>e \<in> set (edges p). dst_rank e = 3)"
  by (simp add: reshard_plan_of_def head_edges_def)

text \<open>A local transfer fails exactly when the layouts cannot be planned. Otherwise, over a link of positive bandwidth and for a payload that fits
  64 bits, it reports the payload, which does not depend on the layouts, and a finite wire time of the fixed
  latency plus the payload once per replica.\<close>

theorem transfer_reports_payload:
  assumes "0 < bandwidth_gib_s t" "num_tokens req * bytes_per_token t < 2 ^ 64"
  shows "case transfer t req of
      Inl e \<Rightarrow> reshard_plan_of (tr_reshard req) = Inl e
    | Inr s \<Rightarrow> (\<exists>p. reshard_plan_of (tr_reshard req) = Inr p
          \<and> transfer_elapsed_ms s = Num (latency_ms t + real (bytes s) * amplification p / (bandwidth_gib_s t * 1024 * 1024 * 1024) * 1000))
        \<and> bytes s = num_tokens req * bytes_per_token t \<and> (moved_data s \<longleftrightarrow> 0 < num_tokens req \<and> 0 < bytes_per_token t)"
proof -
  have "0 \<le> amplification p" for p by (simp add: amplification_def)
  then show ?thesis using assms by (auto simp: transfer_def moved_data_def Let_def f64_eval split: sum.splits)
qed

theorem transfer_reports_payload_witness:
  "\<exists>s. transfer default_transfer \<lparr>tr_id = 1, src_blocks = [], dst_blocks = [], num_tokens = 4000,
       tr_reshard = reshard_identity 4 8\<rparr> = Inr s \<and> moved_data s"
proof -
  let ?req = "\<lparr>tr_id = 1, src_blocks = [], dst_blocks = [], num_tokens = 4000, tr_reshard = reshard_identity 4 8\<rparr>"
  have "\<exists>s. transfer default_transfer ?req = Inr s" by (simp add: transfer_def reshard_plan_of_def reshard_identity_def Let_def)
  then obtain s where s: "transfer default_transfer ?req = Inr s" ..
  have "0 < bandwidth_gib_s default_transfer" "num_tokens ?req * bytes_per_token default_transfer < 2 ^ 64"
    by (simp_all add: default_transfer_def kv_bytes_per_token_def)
  from transfer_reports_payload [OF this] have "moved_data s"
    unfolding s by (simp add: default_transfer_def kv_bytes_per_token_def)
  then show ?thesis using s by blast
qed

end
