(* ===== verification/Scoring.thy ===== *)
theory Scoring
  imports Prelude
begin

text \<open>
  \<open>crates/core/src/{ids,slo,request,stats}.rs\<close>: requests, the service-level objective a
  request is judged against, and the scored report of a benchmark window.

  The free-form \<open>extra\<close> map of the sampling parameters (a JSON value that no core code reads)
  is a type parameter. The atomic counter of \<open>RequestIdSource\<close> wraps at 64 bits, as
  \<open>fetch_add\<close> does.
\<close>

subsection \<open>Identifiers\<close>

definition next_id :: "nat \<Rightarrow> request_id \<times> nat" where
  "next_id counter = (counter, (counter + 1) mod 2 ^ 64)"

fun take_ids :: "nat \<Rightarrow> nat \<Rightarrow> request_id list" where
  "take_ids 0 c = []"
| "take_ids (Suc n) c = (let (i, c') = next_id c in i # take_ids n c')"

definition request_id_str :: "request_id \<Rightarrow> string" where
  "request_id_str i = ''req-'' @ nat_str i"

definition worker_id_str :: "worker_id \<Rightarrow> string" where
  "worker_id_str i = ''w'' @ nat_str i"

subsection \<open>Objectives and verdicts\<close>

record slo =
  slo_ttft_ms :: real
  slo_itl_ms :: real
  good_frac_target :: real

definition default_slo :: slo where
  "default_slo = \<lparr>slo_ttft_ms = 3000, slo_itl_ms = 20, good_frac_target = 90 / 100\<rparr>"

definition decode_slot_seconds :: "slo \<Rightarrow> nat \<Rightarrow> real" where
  "decode_slot_seconds s osl = real osl * slo_itl_ms s / 1000"

definition decode_req_per_s :: "slo \<Rightarrow> real \<Rightarrow> nat \<Rightarrow> real" where
  "decode_req_per_s s conc osl = conc / decode_slot_seconds s osl"

datatype verdict = Good | LateFirstToken | SlowTokens | LateAndSlow | Incomplete

definition is_good :: "verdict \<Rightarrow> bool" where
  "is_good v \<longleftrightarrow> v = Good"

subsection \<open>Requests\<close>

record 'x sampling_params =
  max_tokens :: nat
  temperature :: real
  top_p :: real
  top_k :: int
  ignore_eos :: bool
  seed :: "nat option"
  extra :: 'x

definition default_params :: "'x \<Rightarrow> 'x sampling_params" where
  "default_params empty_map = \<lparr>max_tokens = 200, temperature = 0, top_p = 1, top_k = - 1, ignore_eos = True,
     seed = None, extra = empty_map\<rparr>"

datatype phase = Prefill | Decode

fun phase_str :: "phase \<Rightarrow> string" where
  "phase_str Prefill = ''prefill''"
| "phase_str Decode = ''decode''"

record 'x request =
  req_id :: request_id
  prompt :: "token_id list"
  params :: "'x sampling_params"
  req_arrival_ms :: millis
  ttft_deadline_ms :: millis
  prefill_worker :: "worker_id option"
  decode_worker :: "worker_id option"

definition request_new :: "request_id \<Rightarrow> token_id list \<Rightarrow> 'x sampling_params \<Rightarrow> millis \<Rightarrow> slo \<Rightarrow> 'x request" where
  "request_new i toks ps arrival s = \<lparr>req_id = i, prompt = toks, params = ps, req_arrival_ms = arrival,
     ttft_deadline_ms = arrival + slo_ttft_ms s, prefill_worker = None, decode_worker = None\<rparr>"

definition prompt_len :: "'x request \<Rightarrow> nat" where
  "prompt_len r = length (prompt r)"

definition slack_ms :: "'x request \<Rightarrow> millis \<Rightarrow> millis" where
  "slack_ms r now = ttft_deadline_ms r - now"

record request_outcome =
  out_id :: request_id
  out_arrival_ms :: millis
  out_first_token_ms :: millis
  out_last_token_ms :: millis
  prompt_tokens :: nat
  output_tokens :: nat
  out_requested_tokens :: nat

definition ttft_ms :: "request_outcome \<Rightarrow> real" where
  "ttft_ms o' = out_first_token_ms o' - out_arrival_ms o'"

definition mean_itl_ms :: "request_outcome \<Rightarrow> real" where
  "mean_itl_ms o' = (if output_tokens o' \<le> 1 then 0
     else (out_last_token_ms o' - out_first_token_ms o') / real (output_tokens o' - 1))"

definition verdict_of :: "request_outcome \<Rightarrow> slo \<Rightarrow> verdict" where
  "verdict_of o' s =
    (if output_tokens o' < out_requested_tokens o' then Incomplete
     else case (ttft_ms o' > slo_ttft_ms s, mean_itl_ms o' > slo_itl_ms s) of
       (False, False) \<Rightarrow> Good
     | (True, False) \<Rightarrow> LateFirstToken
     | (False, True) \<Rightarrow> SlowTokens
     | (True, True) \<Rightarrow> LateAndSlow)"

subsection \<open>Statistics\<close>

record latency_stats =
  ls_count :: nat
  ls_mean :: real
  p50 :: real
  p90 :: real
  p95 :: real
  p99 :: real
  ls_max :: real

definition no_latency :: latency_stats where
  "no_latency = \<lparr>ls_count = 0, ls_mean = 0, p50 = 0, p90 = 0, p95 = 0, p99 = 0, ls_max = 0\<rparr>"

definition percentile :: "real list \<Rightarrow> real \<Rightarrow> real" where
  "percentile xs q =
    (if xs = [] then 0
     else let rank = nat \<lceil>q * real (length xs)\<rceil>
          in xs ! (min (max rank 1) (length xs) - 1))"

definition from_samples :: "real list \<Rightarrow> latency_stats" where
  "from_samples samples =
    (if samples = [] then no_latency
     else let v = sort samples
          in \<lparr>ls_count = length v, ls_mean = sum_list v / real (length v), p50 = percentile v (50 / 100),
              p90 = percentile v (90 / 100), p95 = percentile v (95 / 100), p99 = percentile v (99 / 100),
              ls_max = last v\<rparr>)"

record goodput_report =
  window_s :: real
  total_requests :: nat
  good_requests :: nat
  good_frac :: real
  req_per_s :: real
  goodput_req_s :: real
  good_output_tok_s :: real
  late_first_token :: nat
  slow_tokens :: nat
  late_and_slow :: nat
  incomplete :: nat
  ttft_stats :: latency_stats
  itl_stats :: latency_stats
  passed :: bool

text \<open>One turn of the loop: the report and the tokens of good requests.\<close>

definition tally :: "slo \<Rightarrow> goodput_report \<times> nat \<Rightarrow> request_outcome \<Rightarrow> goodput_report \<times> nat" where
  "tally s st o' = (case st of (r, toks) \<Rightarrow>
     (case verdict_of o' s of
        Good \<Rightarrow> (r\<lparr>good_requests := good_requests r + 1\<rparr>, toks + output_tokens o')
      | LateFirstToken \<Rightarrow> (r\<lparr>late_first_token := late_first_token r + 1\<rparr>, toks)
      | SlowTokens \<Rightarrow> (r\<lparr>slow_tokens := slow_tokens r + 1\<rparr>, toks)
      | LateAndSlow \<Rightarrow> (r\<lparr>late_and_slow := late_and_slow r + 1\<rparr>, toks)
      | Incomplete \<Rightarrow> (r\<lparr>incomplete := incomplete r + 1\<rparr>, toks)))"

definition blank_report :: "real \<Rightarrow> nat \<Rightarrow> goodput_report" where
  "blank_report w n = \<lparr>window_s = w, total_requests = n, good_requests = 0, good_frac = 0, req_per_s = 0,
     goodput_req_s = 0, good_output_tok_s = 0, late_first_token = 0, slow_tokens = 0, late_and_slow = 0,
     incomplete = 0, ttft_stats = no_latency, itl_stats = no_latency, passed = False\<rparr>"

definition from_outcomes :: "request_outcome list \<Rightarrow> real \<Rightarrow> slo \<Rightarrow> goodput_report" where
  "from_outcomes outs w s =
    (let (r, toks) = foldl (tally s) (blank_report w (length outs), 0) outs;
         r1 = (if total_requests r > 0
               then r\<lparr>good_frac := real (good_requests r) / real (total_requests r)\<rparr> else r);
         r2 = (if w > 0
               then r1\<lparr>req_per_s := real (total_requests r1) / w, goodput_req_s := real (good_requests r1) / w,
                       good_output_tok_s := real toks / w\<rparr> else r1);
         r3 = r2\<lparr>ttft_stats := from_samples (map ttft_ms outs), itl_stats := from_samples (map mean_itl_ms outs)\<rparr>
     in r3\<lparr>passed := good_frac r3 \<ge> good_frac_target s\<rparr>)"

subsection \<open>Lemmas\<close>

lemma take_ids_range:
  "c < 2 ^ 64 \<Longrightarrow> c + n \<le> 2 ^ 64 \<Longrightarrow> take_ids n c = [c..<c + n]"
proof (induction n arbitrary: c)
  case (Suc n)
  show ?case
  proof (cases "n = 0")
    case True
    then show ?thesis by (simp add: next_id_def upt_rec)
  next
    case False
    then have "c + 1 < 2 ^ 64" using Suc.prems by linarith
    then have "take_ids n (Suc c mod 2 ^ 64) = [Suc c..<Suc c + n]" using Suc.IH [of "Suc c"] Suc.prems by simp
    then show ?thesis by (simp add: next_id_def upt_rec [of c])
  qed
qed simp

lemma mean_itl_le:
  "0 \<le> b \<Longrightarrow> mean_itl_ms o' \<le> b \<longleftrightarrow> output_tokens o' \<le> 1 \<or>
     out_last_token_ms o' - out_first_token_ms o' \<le> b * real (output_tokens o' - 1)"
  by (auto simp: mean_itl_ms_def pos_divide_le_eq)

lemma verdict_good_iff:
  "verdict_of o' s = Good \<longleftrightarrow> out_requested_tokens o' \<le> output_tokens o'
     \<and> ttft_ms o' \<le> slo_ttft_ms s \<and> mean_itl_ms o' \<le> slo_itl_ms s"
  by (auto simp: verdict_of_def split: bool.splits)

definition with_verdict :: "slo \<Rightarrow> verdict \<Rightarrow> request_outcome list \<Rightarrow> request_outcome list" where
  "with_verdict s v outs = filter (\<lambda>o'. verdict_of o' s = v) outs"

lemma tally_foldl:
  "foldl (tally s) (r, t) outs =
    (r\<lparr>good_requests := good_requests r + length (with_verdict s Good outs),
       late_first_token := late_first_token r + length (with_verdict s LateFirstToken outs),
       slow_tokens := slow_tokens r + length (with_verdict s SlowTokens outs),
       late_and_slow := late_and_slow r + length (with_verdict s LateAndSlow outs),
       incomplete := incomplete r + length (with_verdict s Incomplete outs)\<rparr>,
     t + sum_list (map output_tokens (with_verdict s Good outs)))"
proof (induction outs arbitrary: r t)
  case (Cons o' outs)
  show ?case
    by (cases "verdict_of o' s") (simp_all add: tally_def [of s "(r, t)" o'] Cons with_verdict_def)
qed (simp add: with_verdict_def)

lemma verdict_counts:
  "length (with_verdict s Good outs) + length (with_verdict s LateFirstToken outs) + length (with_verdict s SlowTokens outs)
     + length (with_verdict s LateAndSlow outs) + length (with_verdict s Incomplete outs) = length outs"
proof (induction outs)
  case (Cons o' outs)
  then show ?case by (cases "verdict_of o' s") (simp_all add: with_verdict_def)
qed (simp add: with_verdict_def)

lemma from_outcomes_fields:
  fixes outs w s
  defines "r \<equiv> from_outcomes outs w s" and "g \<equiv> length (with_verdict s Good outs)"
  shows "total_requests r = length outs" "good_requests r = g"
    "late_first_token r = length (with_verdict s LateFirstToken outs)"
    "slow_tokens r = length (with_verdict s SlowTokens outs)"
    "late_and_slow r = length (with_verdict s LateAndSlow outs)"
    "incomplete r = length (with_verdict s Incomplete outs)"
    "good_frac r = real g / real (length outs)"
    "passed r \<longleftrightarrow> good_frac_target s \<le> good_frac r"
    "0 < w \<Longrightarrow> good_output_tok_s r = real (sum_list (map output_tokens (with_verdict s Good outs))) / w"
    "0 < w \<Longrightarrow> goodput_req_s r = real g / w"
  unfolding r_def g_def from_outcomes_def tally_foldl
  by (simp_all add: Let_def blank_report_def with_verdict_def)

lemma rank_bounds:
  assumes "0 < q" "q \<le> 1" "0 < n"
  shows "1 \<le> nat \<lceil>q * real n\<rceil>" "nat \<lceil>q * real n\<rceil> \<le> n" "q * real n \<le> real (nat \<lceil>q * real n\<rceil>)"
    "real (nat \<lceil>q * real n\<rceil>) < q * real n + 1"
proof -
  have p: "0 < q * real n" using assms by simp
  then show "1 \<le> nat \<lceil>q * real n\<rceil>" by (simp add: Suc_le_eq)
  have "q * real n \<le> real n" using assms by (simp add: mult_le_cancel_right1)
  then show "nat \<lceil>q * real n\<rceil> \<le> n" by (simp add: ceiling_le_iff nat_le_iff)
  have "real (nat \<lceil>q * real n\<rceil>) = of_int \<lceil>q * real n\<rceil>" using p by simp
  then show "q * real n \<le> real (nat \<lceil>q * real n\<rceil>)" "real (nat \<lceil>q * real n\<rceil>) < q * real n + 1"
    using ceiling_correct [of "q * real n"] by linarith+
qed

lemma sorted_count_le:
  assumes "sorted xs" "i < length xs"
  shows "Suc i \<le> length (filter (\<lambda>x. x \<le> xs ! i) (xs :: real list))"
    and "length (filter (\<lambda>x. x < xs ! i) xs) \<le> i"
proof -
  have t: "\<forall>x \<in> set (take (Suc i) xs). x \<le> xs ! i"
    using assms by (auto simp: in_set_conv_nth less_Suc_eq_le sorted_iff_nth_mono)
  have d: "\<forall>x \<in> set (drop i xs). xs ! i \<le> x"
    using assms by (auto simp: in_set_conv_nth sorted_iff_nth_mono)
  have "filter (\<lambda>x. x \<le> xs ! i) xs = take (Suc i) xs @ filter (\<lambda>x. x \<le> xs ! i) (drop (Suc i) xs)"
    using t by (metis append_take_drop_id filter_append filter_True)
  then show "Suc i \<le> length (filter (\<lambda>x. x \<le> xs ! i) xs)" using assms(2) by simp
  have "filter (\<lambda>x. x < xs ! i) (drop i xs) = []" using d by (auto simp: filter_empty_conv not_less)
  then have "filter (\<lambda>x. x < xs ! i) xs = filter (\<lambda>x. x < xs ! i) (take i xs)"
    by (metis append_Nil2 append_take_drop_id filter_append)
  then show "length (filter (\<lambda>x. x < xs ! i) xs) \<le> i"
    by (metis length_filter_le length_take min.cobounded2 order_trans)
qed

lemma percentile_rank:
  assumes "xs \<noteq> []" "0 < q" "q \<le> 1"
  shows "\<exists>i < length xs. percentile (sort xs) q = sort xs ! i \<and> q * real (length xs) \<le> real (Suc i)
    \<and> real i < q * real (length xs)"
proof -
  let ?k = "nat \<lceil>q * real (length xs)\<rceil>"
  note b = rank_bounds [OF assms(2,3), of "length xs"]
  have n: "0 < length xs" using assms(1) by simp
  have k: "min (max ?k 1) (length xs) - 1 = ?k - 1" using b(1,2) [OF n] by simp
  have "sort xs \<noteq> []" using n by (metis length_0_conv length_sort less_irrefl)
  then have "percentile (sort xs) q = sort xs ! (?k - 1)"
    unfolding percentile_def Let_def length_sort k by simp
  moreover have "?k - 1 < length xs" "q * real (length xs) \<le> real (Suc (?k - 1))" "real (?k - 1) < q * real (length xs)"
    using b [OF n] by linarith+
  ultimately show ?thesis by blast
qed

subsection \<open>Properties\<close>

text \<open>A request is good exactly when it emitted every requested token, its first token came
  within the time-to-first-token budget, and the time between its first and last token is
  within the latency budget once per gap between tokens, one fewer than the tokens.\<close>

theorem good_iff_within_budgets:
  assumes "0 \<le> slo_itl_ms s"
  shows "verdict_of o' s = Good \<longleftrightarrow> out_requested_tokens o' \<le> output_tokens o'
    \<and> out_first_token_ms o' \<le> out_arrival_ms o' + slo_ttft_ms s
    \<and> (output_tokens o' \<le> 1 \<or>
       out_last_token_ms o' \<le> out_first_token_ms o' + slo_itl_ms s * real (output_tokens o' - 1))"
  using mean_itl_le [OF assms, of o'] by (auto simp: verdict_good_iff ttft_ms_def)

theorem good_iff_within_budgets_witness:
  "verdict_of \<lparr>out_id = 1, out_arrival_ms = 0, out_first_token_ms = 3000, out_last_token_ms = 6980, prompt_tokens = 4000,
     output_tokens = 200, out_requested_tokens = 200\<rparr> default_slo = Good"
proof -
  have "0 \<le> slo_itl_ms default_slo" by (simp add: default_slo_def)
  from good_iff_within_budgets [OF this] show ?thesis by (simp add: default_slo_def)
qed

text \<open>The report accounts for every request: the five verdict counts are the numbers of
  outcomes with that verdict and add up to the total, the good fraction is a fraction, the
  scored rate counts the output tokens of the good requests only, and the run passes exactly
  when the good requests reach the target share of all requests.\<close>

theorem report_accounts_for_every_request:
  fixes s :: slo
  assumes "outs \<noteq> []" "0 < w"
  defines "r \<equiv> from_outcomes outs w s"
  shows "good_requests r + late_first_token r + slow_tokens r + late_and_slow r + incomplete r = total_requests r
    \<and> total_requests r = length outs \<and> good_requests r = length (with_verdict s Good outs)
    \<and> 0 \<le> good_frac r \<and> good_frac r \<le> 1
    \<and> good_output_tok_s r = real (sum_list (map output_tokens (with_verdict s Good outs))) / w
    \<and> (passed r \<longleftrightarrow> good_frac_target s * real (length outs) \<le> real (length (with_verdict s Good outs)))"
proof -
  note F = from_outcomes_fields [where outs = outs and w = w and s = s, folded r_def]
  have n: "0 < real (length outs)" using assms(1) by simp
  have "length (with_verdict s Good outs) \<le> length outs" by (simp add: with_verdict_def)
  then have g: "0 \<le> good_frac r" "good_frac r \<le> 1" unfolding F(7) using n by simp_all
  have p: "passed r \<longleftrightarrow> good_frac_target s * real (length outs) \<le> real (length (with_verdict s Good outs))"
    unfolding F(7,8) using n by (simp add: pos_le_divide_eq)
  have c: "good_requests r + late_first_token r + slow_tokens r + late_and_slow r + incomplete r = total_requests r"
    unfolding F(1-6) by (rule verdict_counts)
  show ?thesis by (intro conjI c g p F(1,2) F(9) assms(2))
qed

theorem report_accounts_for_every_request_witness:
  "passed (from_outcomes [\<lparr>out_id = 1, out_arrival_ms = 0, out_first_token_ms = 500, out_last_token_ms = 520,
     prompt_tokens = 8, output_tokens = 2, out_requested_tokens = 2\<rparr>] 10 default_slo)"
  using report_accounts_for_every_request [of "[\<lparr>out_id = 1, out_arrival_ms = 0, out_first_token_ms = 500,
      out_last_token_ms = 520, prompt_tokens = 8, output_tokens = 2, out_requested_tokens = 2\<rparr>]" 10 default_slo]
  by (simp add: default_slo_def with_verdict_def verdict_good_iff ttft_ms_def mean_itl_ms_def)

text \<open>Percentiles are nearest-rank: the reported value is one of the samples, at least the
  requested fraction of the samples is at or below it, and less than that fraction is
  strictly below it.\<close>

theorem percentile_nearest_rank:
  assumes "xs \<noteq> []" "0 < q" "q \<le> 1"
  defines "x \<equiv> percentile (sort xs) q"
  shows "x \<in> set xs \<and> q * real (length xs) \<le> real (length (filter (\<lambda>y. y \<le> x) xs))
    \<and> real (length (filter (\<lambda>y. y < x) xs)) < q * real (length xs)"
proof -
  obtain i where i: "i < length xs" "x = sort xs ! i" "q * real (length xs) \<le> real (Suc i)" "real i < q * real (length xs)"
    using percentile_rank [OF assms(1-3)] unfolding x_def by blast
  have c: "length (filter P (sort xs)) = length (filter P xs)" for P by (metis mset_filter mset_sort size_mset)
  have "Suc i \<le> length (filter (\<lambda>y. y \<le> x) xs)" "length (filter (\<lambda>y. y < x) xs) \<le> i"
    using sorted_count_le [of "sort xs" i] i(1) unfolding i(2) c by simp_all
  moreover have "x \<in> set xs" unfolding i(2) using i(1) by (metis length_sort nth_mem set_sort)
  ultimately show ?thesis using i(3,4) by linarith
qed

theorem percentile_nearest_rank_witness: "percentile (sort [5, 9, 7]) (1 / 2) \<in> set [5, 9, 7]"
  using percentile_nearest_rank [of "[5, 9, 7]" "1 / 2"] by simp

end
