(* ===== verification/Radix_Index.thy ===== *)
theory Radix_Index
  imports Prelude
begin

text \<open>
  \<open>crates/kvcache/src/radix.rs\<close>: the router's approximate prefix index.

  The arena of nodes is a list and children are indices into it, as in the source. An index
  outside the arena (a panic) and a loop that runs out of fuel are \<open>None\<close>; on a well-formed
  arena neither happens. The abstraction of an index is the relation \<open>knows\<close>, the set of
  prefixes each worker holds: \<open>insert\<close> adds the prefixes of the inserted prompt for one worker,
  \<open>forget_worker\<close> empties one worker's set, and \<open>match_workers\<close> returns the length of the longest
  known prefix of a prompt.
\<close>

record node =
  edge :: "token_id list"
  children :: "(token_id, nat) hmap"
  workers :: "worker_id list"
  last_access_ms :: millis

definition node_new :: "token_id list \<Rightarrow> millis \<Rightarrow> node" where
  "node_new e now = \<lparr>edge = e, children = [], workers = [], last_access_ms = now\<rparr>"

definition touch :: "worker_id \<Rightarrow> millis \<Rightarrow> node \<Rightarrow> node" where
  "touch w now n = (let n' = n\<lparr>last_access_ms := now\<rparr>
     in if w \<in> set (workers n') then n' else n'\<lparr>workers := workers n' @ [w]\<rparr>)"

record radix_index =
  nodes :: "node list"
  min_prefix_tokens :: nat
  max_nodes :: nat

definition index_new :: "nat \<Rightarrow> nat \<Rightarrow> radix_index" where
  "index_new lo hi = \<lparr>nodes = [node_new [] 0], min_prefix_tokens = lo, max_nodes = max hi 1\<rparr>"

definition node_count :: "radix_index \<Rightarrow> nat" where
  "node_count r = length (nodes r)"

definition index_is_empty :: "radix_index \<Rightarrow> bool" where
  "index_is_empty r \<longleftrightarrow> length (nodes r) \<le> 1"

definition index_clear :: "radix_index \<Rightarrow> radix_index" where
  "index_clear r = r\<lparr>nodes := [node_new [] 0]\<rparr>"

fun common_prefix_len :: "token_id list \<Rightarrow> token_id list \<Rightarrow> nat" where
  "common_prefix_len (x # xs) (y # ys) = (if x = y then Suc (common_prefix_len xs ys) else 0)"
| "common_prefix_len _ _ = 0"

definition split_node :: "nat \<Rightarrow> nat \<Rightarrow> millis \<Rightarrow> node list \<Rightarrow> node list" where
  "split_node child k now ns =
    (let n = ns ! child; tail_edge = drop k (edge n);
         tail = (node_new tail_edge now)\<lparr>children := children n, workers := workers n\<rparr>
     in (ns @ [tail]) [child := n\<lparr>edge := take k (edge n), children := hm_insert (hd tail_edge) (length ns) []\<rparr>])"

text \<open>The \<open>while\<close> loop of \<open>insert\<close>: \<open>toks\<close> is the part of the prompt still to be placed below
  \<open>cur\<close>.\<close>

fun insert_loop :: "nat \<Rightarrow> worker_id \<Rightarrow> millis \<Rightarrow> nat \<Rightarrow> token_id list \<Rightarrow> node list \<Rightarrow> node list option" where
  "insert_loop fuel w now cur [] ns = Some ns"
| "insert_loop 0 w now cur (t # ts) ns = None"
| "insert_loop (Suc fuel) w now cur (t # ts) ns =
     (case hm_get (children (ns ! cur)) t of
        None \<Rightarrow>
          (let leaf = touch w now (node_new (t # ts) now); ns' = ns @ [leaf]
           in Some (ns' [cur := (ns' ! cur)\<lparr>children := hm_insert t (length ns) (children (ns' ! cur))\<rparr>]))
      | Some child \<Rightarrow>
          if child \<ge> length ns then None
          else
            let common = common_prefix_len (edge (ns ! child)) (t # ts);
                ns1 = (if common < length (edge (ns ! child)) then split_node child common now ns else ns)
            in insert_loop fuel w now child (drop common (t # ts)) (ns1 [child := touch w now (ns1 ! child)]))"

definition index_insert :: "worker_id \<Rightarrow> token_id list \<Rightarrow> millis \<Rightarrow> radix_index \<Rightarrow> radix_index option" where
  "index_insert w toks now r =
    (if length toks < min_prefix_tokens r \<or> length (nodes r) \<ge> max_nodes r then Some r
     else map_option (\<lambda>ns. r\<lparr>nodes := ns\<rparr>)
       (insert_loop (length toks) w now 0 toks ((nodes r) [0 := touch w now (nodes r ! 0)])))"

fun record_match :: "worker_id list \<Rightarrow> nat \<Rightarrow> (worker_id, nat) hmap \<Rightarrow> (worker_id, nat) hmap" where
  "record_match [] m out = out"
| "record_match (w # ws) m out =
     record_match ws m (hm_insert w (max (case hm_get out w of Some k \<Rightarrow> k | None \<Rightarrow> 0) m) out)"

fun match_loop :: "nat \<Rightarrow> node list \<Rightarrow> nat \<Rightarrow> nat \<Rightarrow> token_id list \<Rightarrow> (worker_id, nat) hmap \<Rightarrow>
    (worker_id, nat) hmap option" where
  "match_loop 0 ns cur matched toks out = None"
| "match_loop (Suc fuel) ns cur matched toks out =
     (let out1 = record_match (workers (ns ! cur)) matched out
      in if matched \<ge> length toks then Some out1
      else case hm_get (children (ns ! cur)) (toks ! matched) of
        None \<Rightarrow> Some out1
      | Some child \<Rightarrow>
          if child \<ge> length ns then None
          else
            let common = common_prefix_len (edge (ns ! child)) (drop matched toks); matched' = matched + common
            in if common < length (edge (ns ! child))
               then Some (record_match (workers (ns ! child)) matched' out1)
               else match_loop fuel ns child matched' toks out1)"

definition match_workers :: "radix_index \<Rightarrow> token_id list \<Rightarrow> (worker_id, nat) hmap option" where
  "match_workers r toks = match_loop (Suc (length toks)) (nodes r) 0 0 toks []"

definition match_worker :: "radix_index \<Rightarrow> worker_id \<Rightarrow> token_id list \<Rightarrow> nat option" where
  "match_worker r w toks =
    map_option (\<lambda>m. case hm_get m w of Some k \<Rightarrow> k | None \<Rightarrow> 0) (match_workers r toks)"

definition forget_worker :: "worker_id \<Rightarrow> radix_index \<Rightarrow> radix_index" where
  "forget_worker w r = r\<lparr>nodes := map (\<lambda>n. n\<lparr>workers := filter (\<lambda>x. x \<noteq> w) (workers n)\<rparr>) (nodes r)\<rparr>"

subsection \<open>Pruning\<close>

fun find_key :: "nat \<Rightarrow> (token_id, nat) hmap \<Rightarrow> token_id option" where
  "find_key c [] = None"
| "find_key c ((k, x) # m) = (if x = c then Some k else find_key c m)"

fun find_parent_from :: "nat \<Rightarrow> nat \<Rightarrow> node list \<Rightarrow> (nat \<times> token_id) option" where
  "find_parent_from i c [] = None"
| "find_parent_from i c (n # ns) =
     (case find_key c (children n) of Some k \<Rightarrow> Some (i, k) | None \<Rightarrow> find_parent_from (Suc i) c ns)"

definition find_parent :: "nat \<Rightarrow> node list \<Rightarrow> (nat \<times> token_id) option" where
  "find_parent c ns = find_parent_from 0 c ns"

definition set_children :: "((token_id, nat) hmap \<Rightarrow> (token_id, nat) hmap) \<Rightarrow> nat \<Rightarrow> node list \<Rightarrow> node list" where
  "set_children f i ns = ns [i := (ns ! i)\<lparr>children := f (children (ns ! i))\<rparr>]"

definition detach :: "nat \<Rightarrow> node list \<Rightarrow> node list" where
  "detach victim ns =
    (let ns1 = (case find_parent victim ns of Some (p, k) \<Rightarrow> set_children (hm_remove k) p ns | None \<Rightarrow> ns);
         final = length ns1 - 1
     in if victim \<noteq> final
        then let ns2 = (case find_parent final ns1 of
                    Some (p, k) \<Rightarrow> set_children (hm_insert k victim) p ns1 | None \<Rightarrow> ns1)
             in butlast (ns2 [victim := ns2 ! final, final := ns2 ! victim])
        else butlast ns1)"

definition cold_leaf :: "millis \<Rightarrow> real \<Rightarrow> nat \<times> node \<Rightarrow> bool" where
  "cold_leaf now ttl_ms x \<longleftrightarrow> fst x \<noteq> 0 \<and> children (snd x) = [] \<and> now - last_access_ms (snd x) > ttl_ms"

fun prune_loop :: "nat \<Rightarrow> millis \<Rightarrow> real \<Rightarrow> node list \<Rightarrow> (nat \<times> node list) option" where
  "prune_loop fuel now ttl_ms ns =
     (case find (cold_leaf now ttl_ms) (zip [0..<length ns] ns) of
        None \<Rightarrow> Some (0, ns)
      | Some (v, _) \<Rightarrow>
          (case fuel of 0 \<Rightarrow> None
           | Suc f \<Rightarrow> map_option (\<lambda>(n, ns'). (Suc n, ns')) (prune_loop f now ttl_ms (detach v ns))))"

definition prune :: "millis \<Rightarrow> real \<Rightarrow> radix_index \<Rightarrow> (nat \<times> radix_index) option" where
  "prune now ttl_ms r = map_option (\<lambda>(n, ns). (n, r\<lparr>nodes := ns\<rparr>)) (prune_loop (length (nodes r)) now ttl_ms (nodes r))"

subsection \<open>Paths through the arena\<close>

text \<open>\<open>walk ns i u j p\<close>: from node \<open>i\<close>, whose prefix is \<open>u\<close>, child pointers lead to node \<open>j\<close> with
  prefix \<open>p\<close>.\<close>

inductive walk :: "node list \<Rightarrow> nat \<Rightarrow> token_id list \<Rightarrow> nat \<Rightarrow> token_id list \<Rightarrow> bool" for ns i u where
  here: "walk ns i u i u"
| down: "walk ns i u j p \<Longrightarrow> hm_get (children (ns ! j)) t = Some c \<Longrightarrow> walk ns i u c (p @ edge (ns ! c))"

abbreviation at_node :: "node list \<Rightarrow> nat \<Rightarrow> token_id list \<Rightarrow> bool" where
  "at_node ns \<equiv> walk ns 0 []"

definition knows :: "node list \<Rightarrow> worker_id \<Rightarrow> token_id list \<Rightarrow> bool" where
  "knows ns w p \<longleftrightarrow> (\<exists>j q. at_node ns j q \<and> w \<in> set (workers (ns ! j)) \<and> prefix p q)"

definition links_ok :: "node list \<Rightarrow> bool" where
  "links_ok ns \<longleftrightarrow> ns \<noteq> [] \<and> (\<forall>i < length ns. \<forall>t c. hm_get (children (ns ! i)) t = Some c \<longrightarrow>
     0 < c \<and> c < length ns \<and> edge (ns ! c) \<noteq> [] \<and> hd (edge (ns ! c)) = t
     \<and> set (workers (ns ! c)) \<subseteq> set (workers (ns ! i)))"

definition single_parent :: "node list \<Rightarrow> bool" where
  "single_parent ns \<longleftrightarrow> (\<forall>i < length ns. \<forall>i' < length ns. \<forall>t t' c. hm_get (children (ns ! i)) t = Some c \<longrightarrow>
     hm_get (children (ns ! i')) t' = Some c \<longrightarrow> i = i')"

definition radix_wf :: "node list \<Rightarrow> bool" where
  "radix_wf ns \<longleftrightarrow> links_ok ns \<and> single_parent ns \<and> (\<forall>j p q. at_node ns j p \<longrightarrow> at_node ns j q \<longrightarrow> p = q)"

lemma links_okD:
  assumes "links_ok ns" "i < length ns" "hm_get (children (ns ! i)) t = Some c"
  shows "0 < c" "c < length ns" "edge (ns ! c) \<noteq> []" "hd (edge (ns ! c)) = t"
    "set (workers (ns ! c)) \<subseteq> set (workers (ns ! i))"
  using assms unfolding links_ok_def by blast+

lemma walk_bound: "walk ns i u j p \<Longrightarrow> links_ok ns \<Longrightarrow> i < length ns \<Longrightarrow> j < length ns"
  by (induction rule: walk.induct) (auto dest: links_okD)

lemma at_bound: "at_node ns j p \<Longrightarrow> links_ok ns \<Longrightarrow> j < length ns"
  by (rule walk_bound) (auto simp: links_ok_def)

lemma walk_prefix: "walk ns i u j p \<Longrightarrow> prefix u p"
  by (induction rule: walk.induct) auto

lemma walk_workers: "walk ns i u j p \<Longrightarrow> links_ok ns \<Longrightarrow> i < length ns \<Longrightarrow> set (workers (ns ! j)) \<subseteq> set (workers (ns ! i))"
proof (induction rule: walk.induct)
  case (down j p t c)
  have "j < length ns" using walk_bound down.hyps(1) down.prems by blast
  then show ?case using down links_okD(5) [OF down.prems(1), of j t c] by blast
qed simp

lemma walk_trans: "walk ns j p k q \<Longrightarrow> walk ns i u j p \<Longrightarrow> walk ns i u k q"
  by (induction rule: walk.induct) (auto intro: walk.intros)

text \<open>A non-trivial walk starts with one child, chosen by the next token.\<close>

lemma walk_first:
  assumes "walk ns i u j p" "links_ok ns" "i < length ns"
  shows "(j = i \<and> p = u) \<or> (\<exists>c. length u < length p \<and> hm_get (children (ns ! i)) (p ! length u) = Some c
    \<and> walk ns c (u @ edge (ns ! c)) j p)"
  using assms
proof (induction rule: walk.induct)
  case (down j p t c)
  have j: "j < length ns" using walk_bound down.hyps(1) down.prems by blast
  note l = links_okD [OF down.prems(1) j down.hyps(2)]
  from down.IH [OF down.prems] show ?case
  proof
    assume h: "j = i \<and> p = u"
    then have "(p @ edge (ns ! c)) ! length u = t" using l(3,4) by (simp add: nth_append hd_conv_nth)
    then show ?thesis using h down.hyps(2) l(3) walk.here by auto
  next
    assume "\<exists>c. length u < length p \<and> hm_get (children (ns ! i)) (p ! length u) = Some c
      \<and> walk ns c (u @ edge (ns ! c)) j p"
    then obtain c' where "length u < length p" "hm_get (children (ns ! i)) (p ! length u) = Some c'"
      "walk ns c' (u @ edge (ns ! c')) j p" by blast
    then show ?thesis using walk.down [OF _ down.hyps(2)] by (auto simp: nth_append)
  qed
qed simp

text \<open>Nodes are found by their prefix: a node whose prefix extends that of \<open>i\<close> lies below \<open>i\<close>.\<close>

lemma walk_below:
  assumes "at_node ns i u" "at_node ns j p" "prefix u p" "links_ok ns"
  shows "walk ns i u j p"
  using assms
proof (induction rule: walk.induct)
  case (down i u t c)
  have i: "i < length ns" using at_bound down by blast
  note l = links_okD [OF down.prems(3) i down.hyps(2)]
  have "walk ns i u j p" using down.IH down.prems by (simp add: append_prefixD)
  from walk_first [OF this down.prems(3) i] show ?case
  proof
    assume "j = i \<and> p = u"
    then show ?thesis using down.prems(2) l(3) by (auto simp: prefix_def)
  next
    assume "\<exists>c. length u < length p \<and> hm_get (children (ns ! i)) (p ! length u) = Some c
      \<and> walk ns c (u @ edge (ns ! c)) j p"
    then obtain c' where c': "hm_get (children (ns ! i)) (p ! length u) = Some c'" "walk ns c' (u @ edge (ns ! c')) j p"
      by blast
    have "p ! length u = t" using down.prems(2) l(3,4) by (auto simp: prefix_def nth_append hd_conv_nth)
    then show ?thesis using c' down.hyps(2) by simp
  qed
qed simp

subsection \<open>Common prefixes\<close>

lemma common_prefix_take: "take (common_prefix_len xs ys) xs = take (common_prefix_len xs ys) ys"
  by (induction xs ys rule: common_prefix_len.induct) simp_all

lemma common_prefix_bound: "common_prefix_len xs ys \<le> length xs" "common_prefix_len xs ys \<le> length ys"
  by (induction xs ys rule: common_prefix_len.induct) simp_all

lemma common_prefix_max: "prefix p xs \<Longrightarrow> prefix p ys \<Longrightarrow> length p \<le> common_prefix_len xs ys"
proof (induction xs ys arbitrary: p rule: common_prefix_len.induct)
  case (1 x xs y ys)
  then show ?case by (cases p) auto
qed auto

lemma common_prefix_pos: "xs \<noteq> [] \<Longrightarrow> hd xs = t \<Longrightarrow> 0 < common_prefix_len xs (t # ts)"
  by (cases xs) auto

subsection \<open>Matching\<close>

definition longest :: "node list \<Rightarrow> worker_id \<Rightarrow> token_id list \<Rightarrow> nat" where
  "longest ns w q = Max {k. k \<le> length q \<and> knows ns w (take k q)}"

lemma longestI:
  assumes "k \<le> length q" "knows ns w (take k q)" "\<And>k'. k < k' \<Longrightarrow> k' \<le> length q \<Longrightarrow> \<not> knows ns w (take k' q)"
  shows "longest ns w q = k"
  unfolding longest_def
proof (rule Max_eqI)
  show "finite {k. k \<le> length q \<and> knows ns w (take k q)}" by simp
  show "y \<le> k" if "y \<in> {k. k \<le> length q \<and> knows ns w (take k q)}" for y using that assms(3) [of y] by fastforce
qed (use assms in simp)

lemma record_match_get:
  "hm_get (record_match ws m out) w =
    (if w \<in> set ws then Some (max (case hm_get out w of Some k \<Rightarrow> k | None \<Rightarrow> 0) m) else hm_get out w)"
  by (induction ws arbitrary: out) (auto simp: hm_simps)

lemma knows_here: "at_node ns j p \<Longrightarrow> w \<in> set (workers (ns ! j)) \<Longrightarrow> prefix q p \<Longrightarrow> knows ns w q"
  unfolding knows_def by blast

text \<open>What is known beyond the prefix of a node is known through one of its children.\<close>

lemma knows_beyond:
  assumes ok: "links_ok ns" and cur: "at_node ns cur (take m q)" and k: "m < k" "k \<le> length q"
    and kn: "knows ns w (take k q)"
  obtains c p where "hm_get (children (ns ! cur)) (q ! m) = Some c" "w \<in> set (workers (ns ! c))"
    "prefix (take m q @ edge (ns ! c)) p" "prefix (take k q) p"
proof -
  obtain j p where j: "at_node ns j p" "w \<in> set (workers (ns ! j))" "prefix (take k q) p"
    using kn by (auto simp: knows_def)
  have cb: "cur < length ns" by (rule at_bound [OF cur ok])
  have len: "length (take m q) = m" "m < length (take k q)" using k by simp_all
  have "prefix (take m q) (take k q)" using take_is_prefix [of m "take k q"] k(1) by simp
  then have "prefix (take m q) p" using j(3) by (meson prefix_order.trans)
  from walk_below [OF cur j(1) this ok] have w: "walk ns cur (take m q) j p" .
  have lp: "k \<le> length p" using j(3) k(2) by (metis length_take min.absorb2 prefix_length_le)
  have "p \<noteq> take m q" using lp len k by auto
  with walk_first [OF w ok cb] obtain c where
    c: "hm_get (children (ns ! cur)) (p ! m) = Some c" "walk ns c (take m q @ edge (ns ! c)) j p"
    unfolding len(1) by blast
  have "p ! m = take k q ! m" using j(3) len(2) by (auto simp: prefix_def nth_append)
  then have "p ! m = q ! m" using k by simp
  moreover have "w \<in> set (workers (ns ! c))"
    using walk_workers [OF c(2) ok links_okD(2) [OF ok cb c(1)]] j(2) by blast
  ultimately show thesis using that [of c p] c walk_prefix [OF c(2)] j(3) by auto
qed

lemma match_loop_spec:
  assumes ok: "links_ok ns"
  shows "at_node ns cur (take m q) \<Longrightarrow> m \<le> length q \<Longrightarrow> length q - m < fuel \<Longrightarrow>
    \<exists>out'. match_loop fuel ns cur m q out = Some out' \<and> (\<forall>w. hm_get out' w =
      (if w \<in> set (workers (ns ! cur)) then Some (max (case hm_get out w of Some k \<Rightarrow> k | None \<Rightarrow> 0) (longest ns w q))
       else hm_get out w))"
proof (induction fuel arbitrary: cur m out)
  case (Suc fuel)
  have cb: "cur < length ns" by (rule at_bound [OF Suc.prems(1) ok])
  let ?ws = "set (workers (ns ! cur))" and ?out = "record_match (workers (ns ! cur)) m out"
  note get1 = record_match_get [of "workers (ns ! cur)" m out]
  have known: "knows ns w (take m q)" if "w \<in> ?ws" for w using knows_here [OF Suc.prems(1) that] by simp
  have stop: "longest ns w q = m"
    if "w \<in> ?ws" "\<And>c. hm_get (children (ns ! cur)) (q ! m) = Some c \<Longrightarrow> m < length q \<Longrightarrow> w \<notin> set (workers (ns ! c))" for w
  proof (rule longestI [OF Suc.prems(2) known [OF that(1)]])
    fix k' assume k': "m < k'" "k' \<le> length q"
    show "\<not> knows ns w (take k' q)"
    proof
      assume "knows ns w (take k' q)"
      then obtain c where "hm_get (children (ns ! cur)) (q ! m) = Some c" "w \<in> set (workers (ns ! c))"
        by (rule knows_beyond [OF ok Suc.prems(1) k'])
      then show False using that(2) k' by simp
    qed
  qed
  show ?case
  proof (cases "m < length q \<and> hm_get (children (ns ! cur)) (q ! m) \<noteq> None")
    case False
    then have "match_loop (Suc fuel) ns cur m q out = Some ?out"
      by (cases "m < length q") (auto simp: Let_def)
    moreover have "longest ns w q = m" if "w \<in> ?ws" for w using stop [OF that] False by auto
    ultimately show ?thesis by (simp add: get1)
  next
    case True
    then obtain c where mq: "m < length q" and c: "hm_get (children (ns ! cur)) (q ! m) = Some c" by auto
    note l = links_okD [OF ok cb c]
    define k where "k = common_prefix_len (edge (ns ! c)) (drop m q)"
    have dq: "drop m q = q ! m # drop (Suc m) q" using mq by (simp add: Cons_nth_drop_Suc)
    have kpos: "0 < k" unfolding k_def dq by (rule common_prefix_pos [OF l(3,4)])
    have kb: "k \<le> length (edge (ns ! c))" "m + k \<le> length q"
      using common_prefix_bound [of "edge (ns ! c)" "drop m q"] mq unfolding k_def by simp_all
    have atc: "at_node ns c (take m q @ edge (ns ! c))" by (rule walk.down [OF Suc.prems(1) c])
    have tk: "take (m + k) q = take m q @ take k (edge (ns ! c))"
      using common_prefix_take [of "edge (ns ! c)" "drop m q"] by (simp add: take_add k_def)
    have nochild: "longest ns w q = m" if "w \<in> ?ws" "w \<notin> set (workers (ns ! c))" for w
      by (rule stop [OF that(1)]) (use c that(2) in simp)
    have step: "match_loop (Suc fuel) ns cur m q out =
        (if k < length (edge (ns ! c)) then Some (record_match (workers (ns ! c)) (m + k) ?out)
         else match_loop fuel ns c (m + k) q ?out)"
      using mq c l(2) by (simp add: Let_def k_def)
    show ?thesis
    proof (cases "k < length (edge (ns ! c))")
      case short: True
      have "longest ns w q = m + k" if w: "w \<in> set (workers (ns ! c))" for w
      proof (rule longestI)
        show "knows ns w (take (m + k) q)"
          unfolding tk by (rule knows_here [OF atc w]) (simp add: take_is_prefix)
        show "\<not> knows ns w (take k' q)" if k': "m + k < k'" "k' \<le> length q" for k'
        proof
          assume "knows ns w (take k' q)"
          then obtain c' p where c': "hm_get (children (ns ! cur)) (q ! m) = Some c'"
            "prefix (take m q @ edge (ns ! c')) p" "prefix (take k' q) p"
            using knows_beyond [OF ok Suc.prems(1) _ k'(2)] k'(1) kpos by (metis add_lessD1)
          obtain zs where zs: "p = (take m q @ edge (ns ! c)) @ zs" using c'(1,2) c by (auto simp: prefix_def)
          have "take (Suc (m + k)) p = take m q @ take (Suc k) (edge (ns ! c))"
            unfolding zs using short mq by simp
          moreover have "take (Suc (m + k)) p = take (Suc (m + k)) q"
            using c'(3) k' by (auto simp: prefix_def min_def)
          ultimately have "take (Suc k) (edge (ns ! c)) = take (Suc k) (drop m q)"
            by (metis add_Suc_right append_eq_append_conv take_add)
          then have "Suc k \<le> k"
            using common_prefix_max [of "take (Suc k) (edge (ns ! c))" "edge (ns ! c)" "drop m q"] short
            unfolding k_def by (metis Suc_leI length_take min.absorb2 take_is_prefix)
          then show False by simp
        qed
      qed (use kb in simp)
      then show ?thesis
        using step short nochild l(5) by (auto simp: record_match_get max.assoc)
    next
      case False
      then have full: "k = length (edge (ns ! c))" using kb(1) by simp
      have "at_node ns c (take (m + k) q)" unfolding tk using atc full by simp
      moreover have "length q - (m + k) < fuel" using Suc.prems(3) kpos mq by linarith
      ultimately obtain out' where
        o: "match_loop fuel ns c (m + k) q ?out = Some out'"
        "\<forall>w. hm_get out' w = (if w \<in> set (workers (ns ! c))
           then Some (max (case hm_get ?out w of Some k \<Rightarrow> k | None \<Rightarrow> 0) (longest ns w q)) else hm_get ?out w)"
        using Suc.IH [OF _ kb(2)] by blast
      have "m \<le> longest ns w q" if w: "w \<in> ?ws" for w
        unfolding longest_def by (rule Max_ge) (use known [OF w] mq in simp_all)
      then show ?thesis using step False o nochild l(5) by (auto simp: record_match_get max.assoc max.absorb2)
    qed
  qed
qed simp

subsection \<open>Splitting a node\<close>

lemma split_node_length [simp]: "length (split_node c k now ns) = Suc (length ns)"
  by (simp add: split_node_def Let_def)

lemma split_node_nth:
  assumes "c < length ns"
  shows "j < length ns \<Longrightarrow> j \<noteq> c \<Longrightarrow> split_node c k now ns ! j = ns ! j"
    and "split_node c k now ns ! c =
      (ns ! c)\<lparr>edge := take k (edge (ns ! c)), children := hm_insert (hd (drop k (edge (ns ! c)))) (length ns) []\<rparr>"
    and "split_node c k now ns ! length ns =
      \<lparr>edge = drop k (edge (ns ! c)), children = children (ns ! c), workers = workers (ns ! c), last_access_ms = now\<rparr>"
  using assms by (simp_all add: split_node_def Let_def node_new_def nth_append)

lemma no_self_child:
  assumes "radix_wf ns" "at_node ns c p" "hm_get (children (ns ! c)) t = Some c'"
  shows "c' \<noteq> c"
proof
  assume "c' = c"
  have ok: "links_ok ns" using assms(1) by (simp add: radix_wf_def)
  have "at_node ns c (p @ edge (ns ! c))" using walk.down [OF assms(2,3)] \<open>c' = c\<close> by simp
  then have "p = p @ edge (ns ! c)" using assms(1,2) unfolding radix_wf_def by blast
  moreover have "edge (ns ! c) \<noteq> []" using links_okD(3) [OF ok at_bound [OF assms(2) ok] assms(3)] \<open>c' = c\<close> by simp
  ultimately show False by simp
qed

text \<open>Prefixes after a split: the node itself is cut, its former prefix moves to the new node.\<close>

lemma split_paths_old:
  fixes k :: nat and now :: millis
  assumes wf: "radix_wf ns" and c: "0 < c" "c < length ns" and "at_node ns j p"
  defines "ns' \<equiv> split_node c k now ns"
  shows "if j = c then \<exists>p0. p = p0 @ edge (ns ! c) \<and> at_node ns' c (p0 @ take k (edge (ns ! c))) \<and> at_node ns' (length ns) p
    else at_node ns' j p"
  using assms(4)
proof (induction rule: walk.induct)
  case here
  then show ?case using c walk.here by simp
next
  case (down j p t c')
  have ok: "links_ok ns" using wf by (simp add: radix_wf_def)
  have j: "j < length ns" by (rule at_bound [OF down.hyps(1) ok])
  note l = links_okD [OF ok j down.hyps(2)] and sn = split_node_nth [OF c(2)]
  have via: "at_node ns' i u \<Longrightarrow> hm_get (children (ns' ! i)) t = Some c' \<Longrightarrow>
      if c' = c then \<exists>p0. u @ edge (ns ! c) = p0 @ edge (ns ! c) \<and> at_node ns' c (p0 @ take k (edge (ns ! c)))
        \<and> at_node ns' (length ns) (u @ edge (ns ! c)) else at_node ns' c' (u @ edge (ns ! c'))" for i u
  proof -
    assume i: "at_node ns' i u" "hm_get (children (ns' ! i)) t = Some c'"
    from walk.down [OF this] have a: "at_node ns' c' (u @ edge (ns' ! c'))" .
    show ?thesis
    proof (cases "c' = c")
      case True
      then have b: "at_node ns' c (u @ take k (edge (ns ! c)))" using a sn(2) unfolding ns'_def by simp
      have "hm_get (children (ns' ! c)) (hd (drop k (edge (ns ! c)))) = Some (length ns)"
        unfolding ns'_def sn(2) by simp
      from walk.down [OF b this] have "at_node ns' (length ns) (u @ edge (ns ! c))"
        unfolding ns'_def sn(3) by simp
      then show ?thesis using True b by auto
    next
      case False
      then show ?thesis using a sn(1) [OF l(2) False] unfolding ns'_def by simp
    qed
  qed
  show ?case
  proof (cases "j = c")
    case True
    then obtain p0 where "at_node ns' (length ns) p" using down.IH by auto
    moreover have "hm_get (children (ns' ! length ns)) t = Some c'" unfolding ns'_def sn(3) using down.hyps(2) True by simp
    moreover have "c' \<noteq> c" using no_self_child [OF wf] down.hyps True by blast
    ultimately show ?thesis using via by auto
  next
    case False
    then have "at_node ns' j p" using down.IH by simp
    moreover have "hm_get (children (ns' ! j)) t = Some c'" unfolding ns'_def sn(1) [OF j False] by (rule down.hyps)
    ultimately show ?thesis using via by metis
  qed
qed

lemma split_paths_new:
  assumes wf: "radix_wf ns" and c: "0 < c" "c < length ns" and a: "at_node (split_node c k now ns) j p"
  shows "if j = c then at_node ns c (p @ drop k (edge (ns ! c)))
    else if j = length ns then at_node ns c p else j < length ns \<and> at_node ns j p"
  using a
proof (induction rule: walk.induct)
  case here
  then show ?case using c walk.here by auto
next
  case (down j p t c')
  have ok: "links_ok ns" using wf by (simp add: radix_wf_def)
  note sn = split_node_nth [OF c(2)]
  have via: "at_node ns i u \<Longrightarrow> hm_get (children (ns ! i)) t = Some c' \<Longrightarrow> c' < length ns \<and>
     (if c' = c then at_node ns c ((u @ take k (edge (ns ! c))) @ drop k (edge (ns ! c))) else at_node ns c' (u @ edge (ns ! c')))" for i u
    using walk.down [of ns 0 "[]" i u t c'] links_okD(2) [OF ok at_bound [OF _ ok], of i u t c'] by auto
  consider "j = c" | "j = length ns" | "j \<noteq> c" "j < length ns" using down.IH by (auto split: if_splits)
  then show ?case
  proof cases
    case 1
    then have "c' = length ns" using down.hyps(2) sn(2) by (simp split: if_splits)
    then show ?thesis using 1 down.IH c(2) sn(3) by simp
  next
    case 2
    then have a: "at_node ns c p" "hm_get (children (ns ! c)) t = Some c'" using down.IH down.hyps(2) c(2) sn(3) by simp_all
    have "c' \<noteq> c" by (rule no_self_child [OF wf a])
    then show ?thesis using via [OF a] sn(1) [of c'] by auto
  next
    case 3
    then have a: "at_node ns j p" "hm_get (children (ns ! j)) t = Some c'" using down.IH down.hyps(2) sn(1) by simp_all
    show ?thesis using via [OF a] sn(1) [of c'] sn(2) by (cases "c' = c") auto
  qed
qed

lemma radix_wfI:
  assumes "links_ok ns" "single_parent ns" "\<And>j p q. at_node ns j p \<Longrightarrow> at_node ns j q \<Longrightarrow> p = q"
  shows "radix_wf ns"
  using assms unfolding radix_wf_def by blast

lemma radix_wfD:
  assumes "radix_wf ns"
  shows "links_ok ns" "single_parent ns" "at_node ns j p \<Longrightarrow> at_node ns j q \<Longrightarrow> p = q"
  using assms unfolding radix_wf_def by blast+

lemma single_parentD:
  "single_parent ns \<Longrightarrow> i < length ns \<Longrightarrow> i' < length ns \<Longrightarrow> hm_get (children (ns ! i)) t = Some c \<Longrightarrow>
   hm_get (children (ns ! i')) t' = Some c \<Longrightarrow> i = i'"
  unfolding single_parent_def by blast

lemma split_children:
  assumes c: "c < length ns" and i: "i < length (split_node c k now ns)"
    and t: "hm_get (children (split_node c k now ns ! i)) t = Some c'"
  obtains (moved) "i = length ns" "hm_get (children (ns ! c)) t = Some c'"
  | (tail) "i = c" "c' = length ns" "t = hd (drop k (edge (ns ! c)))"
  | (kept) "i < length ns" "i \<noteq> c" "hm_get (children (ns ! i)) t = Some c'"
proof -
  note sn = split_node_nth [OF c, where k = k and now = now]
  consider "i = length ns" | "i = c" | "i < length ns" "i \<noteq> c" using i by fastforce
  then show thesis
  proof cases
    case 1
    then show thesis using moved t sn(3) by simp
  next
    case 2
    then show thesis using tail t sn(2) by (simp split: if_splits)
  next
    case 3
    then show thesis using kept t sn(1) by simp
  qed
qed

lemma split_wf:
  assumes wf: "radix_wf ns" and c: "0 < c" "c < length ns" and k: "0 < k" "k < length (edge (ns ! c))"
  shows "radix_wf (split_node c k now ns)"
proof (rule radix_wfI)
  let ?ns = "split_node c k now ns"
  note ok = radix_wfD(1) [OF wf] and sp = radix_wfD(2) [OF wf] and sn = split_node_nth [OF c(2), where k = k and now = now]
  have hd': "hd (take k (edge (ns ! c))) = hd (edge (ns ! c))" "take k (edge (ns ! c)) \<noteq> []" "drop k (edge (ns ! c)) \<noteq> []"
    using k by (auto simp: hd_take)
  have old: "0 < c' \<and> c' < length ?ns \<and> edge (?ns ! c') \<noteq> [] \<and> hd (edge (?ns ! c')) = t
      \<and> set (workers (?ns ! c')) \<subseteq> set (workers (ns ! i))"
    if "i < length ns" "hm_get (children (ns ! i)) t = Some c'" for i t c'
    using links_okD [OF ok that] sn(1) [of c'] sn(2) hd' by (cases "c' = c") auto
  show "links_ok ?ns"
    unfolding links_ok_def
  proof (intro conjI allI impI)
    show "?ns \<noteq> []" by (metis length_0_conv nat.distinct(1) split_node_length)
  next
    fix i t c'
    assume i: "i < length ?ns" and t: "hm_get (children (?ns ! i)) t = Some c'"
    show "0 < c'" "c' < length ?ns" "edge (?ns ! c') \<noteq> []" "hd (edge (?ns ! c')) = t"
        "set (workers (?ns ! c')) \<subseteq> set (workers (?ns ! i))"
      using split_children [OF c(2) i t] old [of c t c'] old [of i t c'] sn c hd' by (metis (no_types, lifting)
          lessI node.select_convs(1) node.select_convs(3) node.surjective node.update_convs(1) node.update_convs(2)
          not_gr_zero not_less0 split_node_length subset_refl)+
  qed
  show "single_parent ?ns"
    unfolding single_parent_def
  proof (intro allI impI)
    fix i i' t t' c'
    assume i: "i < length ?ns" "i' < length ?ns" and t: "hm_get (children (?ns ! i)) t = Some c'"
      and t': "hm_get (children (?ns ! i')) t' = Some c'"
    have lt: "c' < length ns" if "j < length ns" "hm_get (children (ns ! j)) u = Some c'" for j u
      using links_okD(2) [OF ok that] .
    show "i = i'"
      by (rule split_children [OF c(2) i(1) t]; rule split_children [OF c(2) i(2) t'])
        (use lt c(2) single_parentD [OF sp] in \<open>metis less_irrefl\<close>)+
  qed
  show "p = q" if "at_node ?ns j p" "at_node ?ns j q" for j p q
    using split_paths_new [OF wf c that(1)] split_paths_new [OF wf c that(2)] radix_wfD(3) [OF wf]
    by (auto split: if_splits dest: radix_wfD(3) [OF wf])
qed

lemma split_knows:
  assumes wf: "radix_wf ns" and c: "0 < c" "c < length ns"
  shows "knows (split_node c k now ns) w p \<longleftrightarrow> knows ns w p"
proof
  note sn = split_node_nth [OF c(2), where k = k and now = now]
  assume "knows (split_node c k now ns) w p"
  then obtain j q where j: "at_node (split_node c k now ns) j q" "w \<in> set (workers (split_node c k now ns ! j))" "prefix p q"
    by (auto simp: knows_def)
  from split_paths_new [OF wf c j(1)] show "knows ns w p"
  proof (cases "j = c")
    case True
    then have "at_node ns c (q @ drop k (edge (ns ! c)))" "w \<in> set (workers (ns ! c))"
      using split_paths_new [OF wf c j(1)] j(2) sn(2) by simp_all
    then show ?thesis using j(3) by (auto intro: knows_here)
  next
    case False
    then show ?thesis using split_paths_new [OF wf c j(1)] j(2,3) sn(1) [of j] sn(3) by (auto split: if_splits intro: knows_here)
  qed
next
  note sn = split_node_nth [OF c(2), where k = k and now = now]
  assume "knows ns w p"
  then obtain j q where j: "at_node ns j q" "w \<in> set (workers (ns ! j))" "prefix p q" by (auto simp: knows_def)
  have jb: "j < length ns" by (rule at_bound [OF j(1) radix_wfD(1) [OF wf]])
  show "knows (split_node c k now ns) w p"
    using split_paths_old [OF wf c j(1), of k now] j(2,3) sn(1) [OF jb] sn(3)
    by (cases "j = c") (auto intro: knows_here)
qed

subsection \<open>Touching a node and adding a leaf\<close>

lemma touch_simps [simp]:
  "edge (touch w now n) = edge n" "children (touch w now n) = children n"
  "set (workers (touch w now n)) = insert w (set (workers n))"
  by (auto simp: touch_def Let_def)

lemma walk_cong:
  assumes "\<And>i. edge (ns' ! i) = edge (ns ! i)" "\<And>i. children (ns' ! i) = children (ns ! i)"
  shows "walk ns' i u j p \<longleftrightarrow> walk ns i u j p"
proof
  show "walk ns' i u j p \<Longrightarrow> walk ns i u j p"
    by (induction rule: walk.induct) (use walk.intros assms in metis)+
  show "walk ns i u j p \<Longrightarrow> walk ns' i u j p"
    by (induction rule: walk.induct) (use walk.intros assms in metis)+
qed

lemma touched_nth:
  assumes "c < length ns"
  shows "edge (ns [c := touch w now (ns ! c)] ! i) = edge (ns ! i)"
    "children (ns [c := touch w now (ns ! c)] ! i) = children (ns ! i)"
    "set (workers (ns [c := touch w now (ns ! c)] ! i)) = (if i = c then insert w (set (workers (ns ! c))) else set (workers (ns ! i)))"
  using assms by (simp_all add: nth_list_update)

lemma touched_walk: "c < length ns \<Longrightarrow> walk (ns [c := touch w now (ns ! c)]) i u j p \<longleftrightarrow> walk ns i u j p"
  by (rule walk_cong) (simp_all add: touched_nth)

lemma touched_wf:
  assumes wf: "radix_wf ns" and c: "c < length ns"
    and par: "\<And>i t. i < length ns \<Longrightarrow> hm_get (children (ns ! i)) t = Some c \<Longrightarrow> w \<in> set (workers (ns ! i))"
  shows "radix_wf (ns [c := touch w now (ns ! c)])"
proof (rule radix_wfI)
  let ?ns = "ns [c := touch w now (ns ! c)]"
  note tn = touched_nth [OF c, of w now]
  show "links_ok ?ns"
    unfolding links_ok_def tn(1,2) length_list_update
  proof (intro conjI allI impI)
    show "?ns \<noteq> []" using c by auto
  next
    fix i t c'
    assume i: "i < length ns" "hm_get (children (ns ! i)) t = Some c'"
    note l = links_okD [OF radix_wfD(1) [OF wf] i]
    show "0 < c'" "c' < length ns" "edge (ns ! c') \<noteq> []" "hd (edge (ns ! c')) = t" by (rule l)+
    show "set (workers (?ns ! c')) \<subseteq> set (workers (?ns ! i))"
      using l(5) par [of i t] i unfolding tn(3) by auto
  qed
  show "single_parent ?ns" using radix_wfD(2) [OF wf] unfolding single_parent_def tn(2) length_list_update .
  show "p = q" if "at_node ?ns j p" "at_node ?ns j q" for j p q
    using that radix_wfD(3) [OF wf] unfolding touched_walk [OF c] by blast
qed

lemma touched_knows:
  assumes wf: "radix_wf ns" and c: "at_node ns c u"
  shows "knows (ns [c := touch w now (ns ! c)]) w' p \<longleftrightarrow> knows ns w' p \<or> (w' = w \<and> prefix p u)"
proof -
  have cb: "c < length ns" by (rule at_bound [OF c radix_wfD(1) [OF wf]])
  let ?ns = "ns [c := touch w now (ns ! c)]"
  note tw = touched_walk [OF cb, of w now] and tn = touched_nth(3) [OF cb, of w now]
  show ?thesis
  proof
    assume "knows ?ns w' p"
    then obtain j q where j: "at_node ns j q" "w' \<in> set (workers (?ns ! j))" "prefix p q"
      unfolding knows_def tw by blast
    show "knows ns w' p \<or> (w' = w \<and> prefix p u)"
    proof (cases "j = c \<and> w' = w")
      case True
      then show ?thesis using j radix_wfD(3) [OF wf c] by blast
    next
      case False
      then have "w' \<in> set (workers (ns ! j))" using j(2) unfolding tn by (auto split: if_splits)
      then show ?thesis using j knows_here by blast
    qed
  next
    assume "knows ns w' p \<or> (w' = w \<and> prefix p u)"
    then show "knows ?ns w' p"
    proof
      assume "knows ns w' p"
      then obtain j q where j: "at_node ns j q" "w' \<in> set (workers (ns ! j))" "prefix p q" unfolding knows_def by blast
      then have "w' \<in> set (workers (?ns ! j))" unfolding tn by (cases "j = c") auto
      then show ?thesis using j knows_here [of ?ns j q w' p] tw by blast
    next
      assume a: "w' = w \<and> prefix p u"
      then have "w' \<in> set (workers (?ns ! c))" unfolding tn by simp
      then show ?thesis using a c knows_here [of ?ns c u w' p] tw by blast
    qed
  qed
qed

definition add_leaf :: "worker_id \<Rightarrow> millis \<Rightarrow> nat \<Rightarrow> token_id list \<Rightarrow> node list \<Rightarrow> node list" where
  "add_leaf w now cur toks ns = (let ns' = ns @ [touch w now (node_new toks now)]
     in ns' [cur := (ns' ! cur)\<lparr>children := hm_insert (hd toks) (length ns) (children (ns' ! cur))\<rparr>])"

lemma add_leaf_length [simp]: "length (add_leaf w now cur toks ns) = Suc (length ns)"
  by (simp add: add_leaf_def Let_def)

lemma add_leaf_nth:
  assumes "cur < length ns"
  shows "j < length ns \<Longrightarrow> edge (add_leaf w now cur toks ns ! j) = edge (ns ! j)"
    and "j < length ns \<Longrightarrow> workers (add_leaf w now cur toks ns ! j) = workers (ns ! j)"
    and "j < length ns \<Longrightarrow> children (add_leaf w now cur toks ns ! j) =
      (if j = cur then hm_insert (hd toks) (length ns) (children (ns ! cur)) else children (ns ! j))"
    and "add_leaf w now cur toks ns ! length ns = \<lparr>edge = toks, children = [], workers = [w], last_access_ms = now\<rparr>"
  using assms by (auto simp: add_leaf_def Let_def nth_list_update nth_append touch_def node_new_def)

lemma add_leaf_children:
  assumes "cur < length ns" "i < length (add_leaf w now cur toks ns)"
    and "hm_get (children (add_leaf w now cur toks ns ! i)) t = Some c"
  obtains (new) "i = cur" "t = hd toks" "c = length ns"
  | (kept) "i < length ns" "hm_get (children (ns ! i)) t = Some c"
proof (cases "i = length ns")
  case True
  then show thesis using assms add_leaf_nth(4) [OF assms(1)] by simp
next
  case False
  then have i: "i < length ns" using assms(2) by simp
  have c: "hm_get (if i = cur then hm_insert (hd toks) (length ns) (children (ns ! cur)) else children (ns ! i)) t = Some c"
    using assms(3) unfolding add_leaf_nth(3) [OF assms(1) i] .
  show thesis
  proof (cases "i = cur \<and> t = hd toks")
    case True
    then show thesis using c new by (simp add: hm_simps)
  next
    case False
    then have "hm_get (children (ns ! i)) t = Some c" using c by (auto simp: hm_simps split: if_splits)
    then show thesis by (rule kept [OF i])
  qed
qed

lemma add_leaf_paths:
  assumes wf: "radix_wf ns" and cur: "at_node ns cur u" and none: "hm_get (children (ns ! cur)) (hd toks) = None"
  shows "at_node (add_leaf w now cur toks ns) j p \<longleftrightarrow> at_node ns j p \<or> (j = length ns \<and> p = u @ toks)"
proof -
  note ok = radix_wfD(1) [OF wf]
  have cb: "cur < length ns" by (rule at_bound [OF cur ok])
  note an = add_leaf_nth [OF cb]
  have 1: "at_node ns j p \<Longrightarrow> at_node (add_leaf w now cur toks ns) j p" for j p
  proof (induction rule: walk.induct)
    case (down j p t c)
    have jb: "j < length ns" by (rule at_bound [OF down.hyps(1) ok])
    have "hm_get (children (add_leaf w now cur toks ns ! j)) t = Some c"
      using down.hyps(2) none unfolding an(3) [OF jb] by (auto simp: hm_simps)
    from walk.down [OF down.IH this] show ?case using an(1) [OF links_okD(2) [OF ok jb down.hyps(2)]] by simp
  qed (rule walk.here)
  have "hm_get (children (add_leaf w now cur toks ns ! cur)) (hd toks) = Some (length ns)"
    unfolding an(3) [OF cb] by (simp add: hm_simps)
  from walk.down [OF 1 [OF cur] this] have 2: "at_node (add_leaf w now cur toks ns) (length ns) (u @ toks)"
    by (simp add: an(4))
  have 3: "at_node (add_leaf w now cur toks ns) j p \<Longrightarrow> at_node ns j p \<or> (j = length ns \<and> p = u @ toks)" for j p
  proof (induction rule: walk.induct)
    case (down j p t c)
    from down.IH show ?case
    proof
      assume a: "at_node ns j p"
      have jb: "j < length ns" by (rule at_bound [OF a ok])
      then have jb': "j < length (add_leaf w now cur toks ns)" by simp
      from cb jb' down.hyps(2) show ?thesis
      proof (cases rule: add_leaf_children)
        case new
        then show ?thesis using a cur radix_wfD(3) [OF wf a] by (simp add: an(4))
      next
        case kept
        then show ?thesis using walk.down [OF a kept(2)] an(1) [OF links_okD(2) [OF ok kept]] by simp
      qed
    next
      assume "j = length ns \<and> p = u @ toks"
      then show ?thesis using down.hyps(2) by (simp add: an(4))
    qed
  qed (simp add: walk.here)
  show ?thesis using 1 2 3 by blast
qed

lemma add_leaf_wf:
  assumes wf: "radix_wf ns" and cur: "at_node ns cur u" "w \<in> set (workers (ns ! cur))"
    and none: "hm_get (children (ns ! cur)) (hd toks) = None" and toks: "toks \<noteq> []"
  shows "radix_wf (add_leaf w now cur toks ns)"
proof (rule radix_wfI)
  let ?ns = "add_leaf w now cur toks ns"
  note ok = radix_wfD(1) [OF wf] and sp = radix_wfD(2) [OF wf]
  have cb: "cur < length ns" by (rule at_bound [OF cur(1) ok])
  note an = add_leaf_nth [OF cb]
  show "links_ok ?ns"
    unfolding links_ok_def
  proof (intro conjI allI impI)
    show "?ns \<noteq> []" by (metis add_leaf_length length_0_conv nat.distinct(1))
  next
    fix i t c
    assume i: "i < length ?ns" and t: "hm_get (children (?ns ! i)) t = Some c"
    have "0 < c \<and> c < length ?ns \<and> edge (?ns ! c) \<noteq> [] \<and> hd (edge (?ns ! c)) = t
        \<and> set (workers (?ns ! c)) \<subseteq> set (workers (?ns ! i))"
      using cb i t
    proof (cases rule: add_leaf_children)
      case new
      then show ?thesis using cb cur(2) toks an(2) [OF cb] by (auto simp: an(4))
    next
      case kept
      note l = links_okD [OF ok kept]
      then show ?thesis by (simp add: an(1) [OF l(2)] an(2) [OF l(2)] an(2) [OF kept(1)])
    qed
    then show "0 < c" "c < length ?ns" "edge (?ns ! c) \<noteq> []" "hd (edge (?ns ! c)) = t"
      "set (workers (?ns ! c)) \<subseteq> set (workers (?ns ! i))" by blast+
  qed
  show "single_parent ?ns"
    unfolding single_parent_def
  proof (intro allI impI)
    fix i i' t t' c
    assume i: "i < length ?ns" "i' < length ?ns" and t: "hm_get (children (?ns ! i)) t = Some c"
      and t': "hm_get (children (?ns ! i')) t' = Some c"
    have lt: "c < length ns" if "j < length ns" "hm_get (children (ns ! j)) v = Some c" for j v
      using links_okD(2) [OF ok that] .
    show "i = i'"
      by (rule add_leaf_children [OF cb i(1) t]; rule add_leaf_children [OF cb i(2) t'])
        (use lt single_parentD [OF sp] in \<open>metis less_irrefl\<close>)+
  qed
  show "p = q" if "at_node ?ns j p" "at_node ?ns j q" for j p q
  proof -
    note pq = that [unfolded add_leaf_paths [OF wf cur(1) none]]
    show ?thesis
    proof (cases "j = length ns")
      case True
      then have "\<not> at_node ns j r" for r using at_bound [OF _ ok] by blast
      then show ?thesis using pq by blast
    next
      case False
      then show ?thesis using pq radix_wfD(3) [OF wf] by blast
    qed
  qed
qed

lemma add_leaf_knows:
  assumes wf: "radix_wf ns" and cur: "at_node ns cur u" and none: "hm_get (children (ns ! cur)) (hd toks) = None"
  shows "knows (add_leaf w now cur toks ns) w' p \<longleftrightarrow> knows ns w' p \<or> (w' = w \<and> prefix p (u @ toks))"
proof -
  note ok = radix_wfD(1) [OF wf] and ap = add_leaf_paths [OF wf cur none, of w now]
  have cb: "cur < length ns" by (rule at_bound [OF cur ok])
  note an = add_leaf_nth [OF cb, where w = w and now = now and toks = toks]
  have old: "workers (add_leaf w now cur toks ns ! j) = workers (ns ! j)" if "at_node ns j q" for j q
    by (rule an(2) [OF at_bound [OF that ok]])
  show ?thesis
  proof
    assume "knows (add_leaf w now cur toks ns) w' p"
    then obtain j q where "at_node ns j q \<or> (j = length ns \<and> q = u @ toks)"
      "w' \<in> set (workers (add_leaf w now cur toks ns ! j))" "prefix p q" unfolding knows_def ap by blast
    then show "knows ns w' p \<or> (w' = w \<and> prefix p (u @ toks))" using old an(4) by (auto intro: knows_here)
  next
    assume "knows ns w' p \<or> (w' = w \<and> prefix p (u @ toks))"
    then show "knows (add_leaf w now cur toks ns) w' p"
    proof
      assume "knows ns w' p"
      then obtain j q where "at_node ns j q" "w' \<in> set (workers (ns ! j))" "prefix p q" unfolding knows_def by blast
      then show ?thesis using old ap knows_here by metis
    next
      assume "w' = w \<and> prefix p (u @ toks)"
      then show ?thesis using ap [of "length ns" "u @ toks"] an(4) by (auto intro: knows_here)
    qed
  qed
qed

subsection \<open>Inserting\<close>

lemma split_at_child:
  assumes wf: "radix_wf ns" and c: "0 < c" "c < length ns" "at_node ns c (u @ edge (ns ! c))"
  shows "at_node (split_node c k now ns) c (u @ take k (edge (ns ! c)))"
  using split_paths_old [OF wf c, of k now] by simp

lemma insert_step:
  fixes ts :: "token_id list" and now :: millis
  assumes wf: "radix_wf ns" and cur: "at_node ns cur u" "w \<in> set (workers (ns ! cur))"
    and c: "hm_get (children (ns ! cur)) t = Some c"
  defines "k \<equiv> common_prefix_len (edge (ns ! c)) (t # ts)"
  defines "ns1 \<equiv> (if k < length (edge (ns ! c)) then split_node c k now ns else ns)"
  defines "ns2 \<equiv> ns1 [c := touch w now (ns1 ! c)]"
  shows "radix_wf ns2" "at_node ns2 c (u @ take k (t # ts))" "w \<in> set (workers (ns2 ! c))"
    "0 < k" "knows ns2 w' p \<longleftrightarrow> knows ns w' p \<or> (w' = w \<and> prefix p (u @ take k (t # ts)))"
    "length ns2 = length ns + (if k < length (edge (ns ! c)) then 1 else 0)"
    "k < length (edge (ns ! c)) \<Longrightarrow> drop k (t # ts) = [] \<or> hm_get (children (ns2 ! c)) (hd (drop k (t # ts))) = None"
proof -
  note ok = radix_wfD(1) [OF wf]
  have curb: "cur < length ns" by (rule at_bound [OF cur(1) ok])
  note l = links_okD [OF ok curb c]
  have atc: "at_node ns c (u @ edge (ns ! c))" by (rule walk.down [OF cur(1) c])
  show kpos: "0 < k" unfolding k_def by (rule common_prefix_pos [OF l(3,4)])
  have tk: "take k (edge (ns ! c)) = take k (t # ts)" unfolding k_def by (rule common_prefix_take)
  have kb: "k \<le> length (edge (ns ! c))" unfolding k_def by (rule common_prefix_bound)
  have w1: "radix_wf ns1" using split_wf [OF wf l(1,2) kpos, of now] wf by (simp add: ns1_def)
  have at1: "at_node ns1 c (u @ take k (t # ts))"
    using split_at_child [OF wf l(1,2) atc, of k now] atc kb tk by (auto simp: ns1_def)
  have cb: "c < length ns1" using l(2) by (simp add: ns1_def)
  have kn1: "knows ns1 w' p \<longleftrightarrow> knows ns w' p" using split_knows [OF wf l(1,2)] by (simp add: ns1_def)
  have par: "w \<in> set (workers (ns1 ! i))" if i: "i < length ns1" "hm_get (children (ns1 ! i)) t' = Some c" for i t'
  proof -
    have "i < length ns \<and> i \<noteq> c \<and> hm_get (children (ns ! i)) t' = Some c"
    proof (cases "k < length (edge (ns ! c))")
      case True
      have i': "i < length (split_node c k now ns)" "hm_get (children (split_node c k now ns ! i)) t' = Some c"
        using i True by (simp_all add: ns1_def)
      from l(2) i' show ?thesis
      proof (cases rule: split_children)
        case moved
        then show ?thesis using no_self_child [OF wf atc] by blast
      qed (use l(2) in simp_all)
    next
      case False
      then have "i < length ns" "hm_get (children (ns ! i)) t' = Some c" using i by (simp_all add: ns1_def)
      then show ?thesis using no_self_child [OF wf atc] by blast
    qed
    moreover from this have "i = cur" using single_parentD [OF radix_wfD(2) [OF wf] _ curb _ c] by blast
    ultimately show ?thesis using cur(2) split_node_nth(1) [OF l(2), of cur] curb by (auto simp: ns1_def)
  qed
  show "radix_wf ns2" unfolding ns2_def by (rule touched_wf [OF w1 cb par])
  show "at_node ns2 c (u @ take k (t # ts))" unfolding ns2_def touched_walk [OF cb] by (rule at1)
  show "w \<in> set (workers (ns2 ! c))" unfolding ns2_def touched_nth(3) [OF cb] by simp
  show "knows ns2 w' p \<longleftrightarrow> knows ns w' p \<or> (w' = w \<and> prefix p (u @ take k (t # ts)))"
    unfolding ns2_def touched_knows [OF w1 at1] kn1 by (rule refl)
  show "length ns2 = length ns + (if k < length (edge (ns ! c)) then 1 else 0)" by (simp add: ns2_def ns1_def)
  show "drop k (t # ts) = [] \<or> hm_get (children (ns2 ! c)) (hd (drop k (t # ts))) = None" if short: "k < length (edge (ns ! c))"
  proof (rule ccontr)
    assume "\<not> ?thesis"
    then have d: "drop k (t # ts) \<noteq> []" "hm_get (children (ns2 ! c)) (hd (drop k (t # ts))) \<noteq> None" by auto
    then have "hd (drop k (edge (ns ! c))) = hd (drop k (t # ts))"
      unfolding ns2_def touched_nth(2) [OF cb] using short split_node_nth(2) [OF l(2), of k now]
      by (simp add: ns1_def split: if_splits)
    then have e: "edge (ns ! c) ! k = (t # ts) ! k" using d(1) short by (metis hd_drop_conv_nth not_le drop_eq_Nil)
    have "take (Suc k) (edge (ns ! c)) = take (Suc k) (t # ts)"
      using tk e short d(1) by (metis drop_eq_Nil not_le take_Suc_conv_app_nth)
    then have "Suc k \<le> k"
      using common_prefix_max [of "take (Suc k) (edge (ns ! c))" "edge (ns ! c)" "t # ts"] short
      unfolding k_def by (metis Suc_leI length_take min.absorb2 take_is_prefix)
    then show False by simp
  qed
qed

lemma insert_loop_spec:
  "radix_wf ns \<Longrightarrow> at_node ns cur u \<Longrightarrow> w \<in> set (workers (ns ! cur)) \<Longrightarrow> length toks \<le> fuel \<Longrightarrow>
   \<exists>ns'. insert_loop fuel w now cur toks ns = Some ns' \<and> radix_wf ns'
     \<and> (\<forall>w' p. knows ns' w' p \<longleftrightarrow> knows ns w' p \<or> (w' = w \<and> prefix p (u @ toks)))
     \<and> length ns' \<le> length ns + (if toks = [] \<or> hm_get (children (ns ! cur)) (hd toks) = None then 1 else 2)"
proof (induction fuel w now cur toks ns arbitrary: u rule: insert_loop.induct)
  case (1 fuel w now cur ns)
  then show ?case using knows_here [of ns cur u w] by auto
next
  case (2 w now cur t ts ns)
  then show ?case by simp
next
  case (3 fuel w now cur t ts ns)
  note wf = "3.prems"(1) and cur = "3.prems"(2,3)
  have cb: "cur < length ns" by (rule at_bound [OF cur(1) radix_wfD(1) [OF wf]])
  show ?case
  proof (cases "hm_get (children (ns ! cur)) t")
    case None
    then have "insert_loop (Suc fuel) w now cur (t # ts) ns = Some (add_leaf w now cur (t # ts) ns)"
      by (simp add: add_leaf_def Let_def)
    moreover have "radix_wf (add_leaf w now cur (t # ts) ns)" by (rule add_leaf_wf [OF wf cur]) (use None in simp_all)
    moreover have "knows (add_leaf w now cur (t # ts) ns) w' p \<longleftrightarrow> knows ns w' p \<or> (w' = w \<and> prefix p (u @ t # ts))" for w' p
      by (rule add_leaf_knows [OF wf cur(1)]) (use None in simp)
    ultimately show ?thesis by simp
  next
    case (Some c)
    have clt: "\<not> length ns \<le> c" using links_okD(2) [OF radix_wfD(1) [OF wf] cb Some] by simp
    define k where "k = common_prefix_len (edge (ns ! c)) (t # ts)"
    define ns1 where "ns1 = (if k < length (edge (ns ! c)) then split_node c k now ns else ns)"
    define ns2 where "ns2 = ns1 [c := touch w now (ns1 ! c)]"
    have S: "radix_wf ns2" "at_node ns2 c (u @ take k (t # ts))" "w \<in> set (workers (ns2 ! c))" "0 < k"
      "length ns2 = length ns + (if k < length (edge (ns ! c)) then 1 else 0)"
      unfolding ns2_def ns1_def k_def by (rule insert_step [OF wf cur Some])+
    have S5: "knows ns2 w' p \<longleftrightarrow> knows ns w' p \<or> (w' = w \<and> prefix p (u @ take k (t # ts)))" for w' p
      unfolding ns2_def ns1_def k_def by (rule insert_step [OF wf cur Some])
    have S7: "drop k (t # ts) = [] \<or> hm_get (children (ns2 ! c)) (hd (drop k (t # ts))) = None"
      if "k < length (edge (ns ! c))"
      using that unfolding ns2_def ns1_def k_def by (rule insert_step [OF wf cur Some])
    have il: "insert_loop (Suc fuel) w now cur (t # ts) ns = insert_loop fuel w now c (drop k (t # ts)) ns2"
      using Some clt by (simp add: Let_def k_def ns1_def ns2_def)
    have "length (drop k (t # ts)) \<le> fuel" using S(4) "3.prems"(4) by simp
    from "3.IH" [OF Some clt k_def ns1_def, folded ns2_def, OF S(1-3) this]
    obtain ns' where ns': "insert_loop fuel w now c (drop k (t # ts)) ns2 = Some ns'" "radix_wf ns'"
      "\<forall>w' p. knows ns' w' p \<longleftrightarrow> knows ns2 w' p \<or> (w' = w \<and> prefix p ((u @ take k (t # ts)) @ drop k (t # ts)))"
      "length ns' \<le> length ns2 + (if drop k (t # ts) = [] \<or> hm_get (children (ns2 ! c)) (hd (drop k (t # ts))) = None then 1 else 2)"
      by blast
    have full: "(u @ take k (t # ts)) @ drop k (t # ts) = u @ t # ts" by simp
    have "prefix (u @ take k (t # ts)) (u @ t # ts)" by (simp add: take_is_prefix)
    then have sub: "prefix p (u @ take k (t # ts)) \<Longrightarrow> prefix p (u @ t # ts)" for p using prefix_order.trans by blast
    have "knows ns' w' p \<longleftrightarrow> knows ns w' p \<or> (w' = w \<and> prefix p (u @ t # ts))" for w' p
      using ns'(3) [unfolded full] S5 [of w' p] sub [of p] by blast
    moreover have "length ns' \<le> length ns + 2"
      using ns'(4) S(5) S7 by (cases "k < length (edge (ns ! c))") (auto split: if_splits)
    ultimately show ?thesis using il ns'(1,2) Some by simp
  qed
qed

subsection \<open>The operations of the index\<close>

lemma new_wf: "radix_wf [node_new [] now]"
proof (rule radix_wfI)
  show "links_ok [node_new [] now]" "single_parent [node_new [] now]"
    by (simp_all add: links_ok_def single_parent_def node_new_def)
  have "p = []" if "at_node [node_new [] now] j p" for j p
    using that
  proof (induction rule: walk.induct)
    case (down j p t c)
    have "links_ok [node_new [] now]" by (simp add: links_ok_def node_new_def)
    then have "j = 0" using at_bound [OF down.hyps(1)] by simp
    then show ?case using down.hyps(2) by (simp add: node_new_def)
  qed simp
  then show "p = q" if "at_node [node_new [] now] j p" "at_node [node_new [] now] j q" for j p q using that by blast
qed

lemma root_knows:
  assumes "radix_wf ns"
  shows "w \<in> set (workers (ns ! 0)) \<longleftrightarrow> knows ns w []"
proof
  assume "w \<in> set (workers (ns ! 0))"
  then show "knows ns w []" using knows_here [OF walk.here] by blast
next
  assume "knows ns w []"
  then obtain j q where j: "at_node ns j q" "w \<in> set (workers (ns ! j))" by (auto simp: knows_def)
  have "0 < length ns" using radix_wfD(1) [OF assms] by (simp add: links_ok_def)
  then show "w \<in> set (workers (ns ! 0))" using walk_workers [OF j(1) radix_wfD(1) [OF assms]] j(2) by blast
qed

lemma match_workers_spec:
  assumes "radix_wf (nodes r)"
  shows "\<exists>m. match_workers r q = Some m \<and>
    (\<forall>w. hm_get m w = (if knows (nodes r) w [] then Some (longest (nodes r) w q) else None))"
proof -
  have "at_node (nodes r) 0 (take 0 q)" by (simp add: walk.here)
  from match_loop_spec [OF radix_wfD(1) [OF assms] this, of "Suc (length q)" "[]"]
  obtain m where "match_workers r q = Some m" "\<forall>w. hm_get m w = (if knows (nodes r) w []
      then Some (max (case hm_get [] w of Some k \<Rightarrow> k | None \<Rightarrow> 0) (longest (nodes r) w q)) else hm_get [] w)"
    unfolding match_workers_def root_knows [OF assms] by (metis less_Suc_eq minus_nat.diff_0 zero_le)
  then show ?thesis by auto
qed

lemma match_worker_spec:
  assumes "radix_wf (nodes r)"
  shows "match_worker r w q = Some (if knows (nodes r) w [] then longest (nodes r) w q else 0)"
  using match_workers_spec [OF assms, of q] by (auto simp: match_worker_def)

lemma index_insert_spec:
  assumes wf: "radix_wf (nodes r)" and ok: "min_prefix_tokens r \<le> length toks" "length (nodes r) < max_nodes r"
  shows "\<exists>r'. index_insert w toks now r = Some r' \<and> radix_wf (nodes r')
    \<and> (\<forall>w' p. knows (nodes r') w' p \<longleftrightarrow> knows (nodes r) w' p \<or> (w' = w \<and> prefix p toks))
    \<and> length (nodes r') \<le> length (nodes r) + 2 \<and> max_nodes r' = max_nodes r \<and> min_prefix_tokens r' = min_prefix_tokens r"
proof -
  let ?ns = "(nodes r) [0 := touch w now (nodes r ! 0)]"
  have z: "0 < length (nodes r)" using radix_wfD(1) [OF wf] by (simp add: links_ok_def)
  have wf0: "radix_wf ?ns"
    by (rule touched_wf [OF wf z]) (use links_okD(1) [OF radix_wfD(1) [OF wf]] in blast)
  have kn: "knows ?ns w' p \<longleftrightarrow> knows (nodes r) w' p \<or> (w' = w \<and> prefix p [])" for w' p
    by (rule touched_knows [OF wf walk.here])
  have "w \<in> set (workers (?ns ! 0))" unfolding touched_nth(3) [OF z] by simp
  from insert_loop_spec [OF wf0 walk.here this order_refl, of toks now] obtain ns' where
    i: "insert_loop (length toks) w now 0 toks ?ns = Some ns'" "radix_wf ns'"
      "\<forall>w' p. knows ns' w' p \<longleftrightarrow> knows ?ns w' p \<or> (w' = w \<and> prefix p ([] @ toks))"
      "length ns' \<le> length ?ns + (if toks = [] \<or> hm_get (children (?ns ! 0)) (hd toks) = None then 1 else 2)" by blast
  have "knows ns' w' p \<longleftrightarrow> knows (nodes r) w' p \<or> (w' = w \<and> prefix p toks)" for w' p
    using i(3) kn by auto
  moreover have "length ns' \<le> length (nodes r) + 2" using i(4) by (auto split: if_splits)
  ultimately show ?thesis using i(1,2) ok by (simp add: index_insert_def)
qed

lemma forget_nth:
  assumes "k < length (nodes r)"
  shows "edge (nodes (forget_worker w r) ! k) = edge (nodes r ! k)"
    "children (nodes (forget_worker w r) ! k) = children (nodes r ! k)"
    "set (workers (nodes (forget_worker w r) ! k)) = set (workers (nodes r ! k)) - {w}"
  using assms by (auto simp: forget_worker_def)

lemma forget_walk:
  assumes "links_ok (nodes r)"
  shows "at_node (nodes (forget_worker w r)) j p \<longleftrightarrow> at_node (nodes r) j p"
proof
  assume "at_node (nodes (forget_worker w r)) j p"
  then show "at_node (nodes r) j p"
  proof (induction rule: walk.induct)
    case (down j p t c)
    have jb: "j < length (nodes r)" by (rule at_bound [OF down.IH assms])
    have t: "hm_get (children (nodes r ! j)) t = Some c" using down.hyps(2) forget_nth(2) [OF jb] by simp
    then show ?case using walk.down [OF down.IH t] forget_nth(1) [OF links_okD(2) [OF assms jb t]] by simp
  qed (rule walk.here)
next
  assume "at_node (nodes r) j p"
  then show "at_node (nodes (forget_worker w r)) j p"
  proof (induction rule: walk.induct)
    case (down j p t c)
    have jb: "j < length (nodes r)" by (rule at_bound [OF down.hyps(1) assms])
    have t: "hm_get (children (nodes (forget_worker w r) ! j)) t = Some c" using down.hyps(2) forget_nth(2) [OF jb] by simp
    then show ?case using walk.down [OF down.IH t] forget_nth(1) [OF links_okD(2) [OF assms jb down.hyps(2)]] by simp
  qed (rule walk.here)
qed

lemma forget_wf:
  assumes wf: "radix_wf (nodes r)"
  shows "radix_wf (nodes (forget_worker w r))"
proof (rule radix_wfI)
  have len: "length (nodes (forget_worker w r)) = length (nodes r)" by (simp add: forget_worker_def)
  show "links_ok (nodes (forget_worker w r))"
    unfolding links_ok_def len
  proof (intro conjI allI impI)
    show "nodes (forget_worker w r) \<noteq> []" using radix_wfD(1) [OF wf] by (simp add: links_ok_def forget_worker_def)
  next
    fix i t c
    assume i: "i < length (nodes r)" "hm_get (children (nodes (forget_worker w r) ! i)) t = Some c"
    then have "hm_get (children (nodes r ! i)) t = Some c" by (simp add: forget_nth)
    note l = links_okD [OF radix_wfD(1) [OF wf] i(1) this]
    show "0 < c" "c < length (nodes r)" "edge (nodes (forget_worker w r) ! c) \<noteq> []" "hd (edge (nodes (forget_worker w r) ! c)) = t"
      "set (workers (nodes (forget_worker w r) ! c)) \<subseteq> set (workers (nodes (forget_worker w r) ! i))"
      using l by (auto simp: forget_nth i)
  qed
  show "single_parent (nodes (forget_worker w r))"
    using radix_wfD(2) [OF wf] unfolding single_parent_def len by (simp add: forget_nth)
  show "p = q" if "at_node (nodes (forget_worker w r)) j p" "at_node (nodes (forget_worker w r)) j q" for j p q
    using that radix_wfD(3) [OF wf] unfolding forget_walk [OF radix_wfD(1) [OF wf]] by blast
qed

lemma forget_knows:
  assumes "radix_wf (nodes r)"
  shows "knows (nodes (forget_worker w r)) w' p \<longleftrightarrow> knows (nodes r) w' p \<and> w' \<noteq> w"
proof -
  note ok = radix_wfD(1) [OF assms]
  have "w' \<in> set (workers (nodes (forget_worker w r) ! j)) \<longleftrightarrow> w' \<in> set (workers (nodes r ! j)) \<and> w' \<noteq> w"
    if "at_node (nodes r) j q" for j q using forget_nth(3) [OF at_bound [OF that ok]] by simp
  then show ?thesis unfolding knows_def forget_walk [OF ok] by blast
qed

subsection \<open>The contract of a prefix index\<close>

text \<open>The contract the router relies on: insertion adds, forgetting removes, matching measures.\<close>

locale prefix_index =
  fixes add :: "worker_id \<Rightarrow> token_id list \<Rightarrow> 'i \<Rightarrow> 'i option"
    and drop_worker :: "worker_id \<Rightarrow> 'i \<Rightarrow> 'i"
    and score :: "'i \<Rightarrow> worker_id \<Rightarrow> token_id list \<Rightarrow> nat option"
    and valid :: "'i \<Rightarrow> bool"
    and has :: "'i \<Rightarrow> worker_id \<Rightarrow> token_id list \<Rightarrow> bool"
    and accepts :: "'i \<Rightarrow> token_id list \<Rightarrow> bool"
  assumes has_prefix: "has i w p \<Longrightarrow> prefix q p \<Longrightarrow> has i w q"
    and add_has: "valid i \<Longrightarrow> accepts i ts \<Longrightarrow> \<exists>i'. add w ts i = Some i' \<and> valid i'
      \<and> (\<forall>w' p. has i' w' p \<longleftrightarrow> has i w' p \<or> (w' = w \<and> prefix p ts))"
    and drop_has: "valid i \<Longrightarrow> valid (drop_worker w i) \<and> (\<forall>w' p. has (drop_worker w i) w' p \<longleftrightarrow> has i w' p \<and> w' \<noteq> w)"
    and score_has: "valid i \<Longrightarrow> \<exists>k \<le> length q. score i w q = Some k \<and> (0 < k \<longrightarrow> has i w (take k q))
      \<and> (\<forall>k'. k < k' \<longrightarrow> k' \<le> length q \<longrightarrow> \<not> has i w (take k' q))"
begin

lemma score_eqI:
  assumes "valid i" "k \<le> length q" "0 < k \<Longrightarrow> has i w (take k q)"
    "\<And>k'. k < k' \<Longrightarrow> k' \<le> length q \<Longrightarrow> \<not> has i w (take k' q)"
  shows "score i w q = Some k"
proof -
  obtain k0 where k0: "k0 \<le> length q" "score i w q = Some k0" "0 < k0 \<longrightarrow> has i w (take k0 q)"
    "\<forall>k'. k0 < k' \<longrightarrow> k' \<le> length q \<longrightarrow> \<not> has i w (take k' q)" using score_has [OF assms(1)] by blast
  have "k0 = k" using k0 assms(2-4) by (metis gr_zeroI less_nat_zero_code linorder_neqE_nat)
  then show ?thesis using k0 by simp
qed

lemma score_after_add:
  assumes "valid i" "accepts i ts" "add w ts i = Some i'"
  shows "score i' w ts = Some (length ts)" "w' \<noteq> w \<Longrightarrow> score i' w' q = score i w' q"
proof -
  have i': "valid i'" "\<forall>w' p. has i' w' p \<longleftrightarrow> has i w' p \<or> (w' = w \<and> prefix p ts)"
    using add_has [OF assms(1,2), of w] assms(3) by auto
  show "score i' w ts = Some (length ts)" by (rule score_eqI [OF i'(1)]) (use i'(2) in auto)
  assume "w' \<noteq> w"
  then have same: "has i' w' p \<longleftrightarrow> has i w' p" for p using i'(2) by blast
  obtain k0 where "k0 \<le> length q" "score i w' q = Some k0" "0 < k0 \<longrightarrow> has i w' (take k0 q)"
    "\<forall>k'. k0 < k' \<longrightarrow> k' \<le> length q \<longrightarrow> \<not> has i w' (take k' q)" using score_has [OF assms(1)] by blast
  then show "score i' w' q = score i w' q" using score_eqI [OF i'(1), of k0 q w'] same by simp
qed

lemma score_after_drop: "valid i \<Longrightarrow> score (drop_worker w i) w q = Some 0"
  by (rule score_eqI) (use drop_has in auto)

end

lemma longest_props:
  assumes "knows ns w []"
  shows "longest ns w q \<le> length q" "knows ns w (take (longest ns w q) q)"
    "longest ns w q < k' \<Longrightarrow> k' \<le> length q \<Longrightarrow> \<not> knows ns w (take k' q)"
proof -
  let ?S = "{k. k \<le> length q \<and> knows ns w (take k q)}"
  have f: "finite ?S" "?S \<noteq> {}" using assms by (auto intro!: exI [of _ 0])
  show "longest ns w q \<le> length q" "knows ns w (take (longest ns w q) q)"
    using Max_in [OF f] by (simp_all add: longest_def)
  show "\<not> knows ns w (take k' q)" if "longest ns w q < k'" "k' \<le> length q"
  proof
    assume "knows ns w (take k' q)"
    then have "k' \<le> longest ns w q" unfolding longest_def by (intro Max_ge f) (use that in simp)
    then show False using that(1) by simp
  qed
qed

definition index_accepts :: "radix_index \<Rightarrow> token_id list \<Rightarrow> bool" where
  "index_accepts r ts \<longleftrightarrow> min_prefix_tokens r \<le> length ts \<and> node_count r < max_nodes r"

interpretation radix: prefix_index "\<lambda>w ts. index_insert w ts now" forget_worker match_worker
  "\<lambda>r. radix_wf (nodes r)" "\<lambda>r. knows (nodes r)" index_accepts
proof
  show "knows (nodes i) w p \<Longrightarrow> prefix q p \<Longrightarrow> knows (nodes i) w q" for i w p q
    unfolding knows_def by (meson prefix_order.trans)
  show "radix_wf (nodes i) \<Longrightarrow> index_accepts i ts \<Longrightarrow> \<exists>i'. index_insert w ts now i = Some i' \<and> radix_wf (nodes i')
      \<and> (\<forall>w' p. knows (nodes i') w' p \<longleftrightarrow> knows (nodes i) w' p \<or> (w' = w \<and> prefix p ts))" for i w ts
    using index_insert_spec [of i ts w now] by (auto simp: index_accepts_def node_count_def)
  show "radix_wf (nodes i) \<Longrightarrow> radix_wf (nodes (forget_worker w i))
      \<and> (\<forall>w' p. knows (nodes (forget_worker w i)) w' p \<longleftrightarrow> knows (nodes i) w' p \<and> w' \<noteq> w)" for i w
    using forget_wf forget_knows by blast
  show "radix_wf (nodes i) \<Longrightarrow> \<exists>k \<le> length q. match_worker i w q = Some k \<and> (0 < k \<longrightarrow> knows (nodes i) w (take k q))
      \<and> (\<forall>k'. k < k' \<longrightarrow> k' \<le> length q \<longrightarrow> \<not> knows (nodes i) w (take k' q))" for i q w
  proof (cases "knows (nodes i) w []")
    case True
    assume "radix_wf (nodes i)"
    then show ?thesis using match_worker_spec [of i w q] True longest_props [OF True] by auto
  next
    case False
    assume "radix_wf (nodes i)"
    moreover have "\<not> knows (nodes i) w p" for p using False unfolding knows_def by auto
    ultimately show ?thesis using match_worker_spec [of i w q] False by auto
  qed
qed

subsection \<open>Detaching a leaf\<close>

definition keys_ok :: "node list \<Rightarrow> bool" where
  "keys_ok ns \<longleftrightarrow> (\<forall>n \<in> set ns. hm_wf (children n))"

lemma keys_ok_update: "keys_ok ns \<Longrightarrow> hm_wf (children n) \<Longrightarrow> keys_ok (ns [i := n])"
  using set_update_subset_insert [of ns i n] unfolding keys_ok_def by blast

lemma keys_ok_nth: "keys_ok ns \<Longrightarrow> i < length ns \<Longrightarrow> hm_wf (children (ns ! i))"
  unfolding keys_ok_def by simp

lemma keys_ok_split: "keys_ok ns \<Longrightarrow> c < length ns \<Longrightarrow> keys_ok (split_node c k now ns)"
  unfolding split_node_def Let_def
  by (rule keys_ok_update) (auto simp: keys_ok_def node_new_def)

lemma keys_ok_leaf: "keys_ok ns \<Longrightarrow> cur < length ns \<Longrightarrow> keys_ok (add_leaf w now cur toks ns)"
  unfolding add_leaf_def Let_def
  by (rule keys_ok_update) (auto simp: keys_ok_def node_new_def nth_append)

lemma keys_ok_insert_loop:
  "insert_loop fuel w now cur toks ns = Some ns' \<Longrightarrow> cur < length ns \<Longrightarrow> keys_ok ns \<Longrightarrow> keys_ok ns'"
proof (induction fuel w now cur toks ns rule: insert_loop.induct)
  case (3 fuel w now cur t ts ns)
  show ?case
  proof (cases "hm_get (children (ns ! cur)) t")
    case None
    then have "ns' = add_leaf w now cur (t # ts) ns" using "3.prems"(1) by (simp add: add_leaf_def Let_def)
    then show ?thesis using keys_ok_leaf "3.prems" by simp
  next
    case (Some c)
    then have c: "\<not> length ns \<le> c" using "3.prems"(1) by (auto split: if_splits)
    define k where "k = common_prefix_len (edge (ns ! c)) (t # ts)"
    define ns1 where "ns1 = (if k < length (edge (ns ! c)) then split_node c k now ns else ns)"
    have "insert_loop (Suc fuel) w now cur (t # ts) ns
        = insert_loop fuel w now c (drop k (t # ts)) (ns1 [c := touch w now (ns1 ! c)])"
      using Some c by (simp add: Let_def k_def ns1_def)
    then have "insert_loop fuel w now c (drop k (t # ts)) (ns1 [c := touch w now (ns1 ! c)]) = Some ns'"
      using "3.prems"(1) by simp
    moreover have k1: "keys_ok ns1" "c < length ns1" using "3.prems"(3) c keys_ok_split [of ns c k now] by (auto simp: ns1_def)
    moreover have "keys_ok (ns1 [c := touch w now (ns1 ! c)])"
      by (rule keys_ok_update [OF k1(1)]) (use keys_ok_nth [OF k1] in simp)
    ultimately show ?thesis using "3.IH" [OF Some c k_def ns1_def] by simp
  qed
qed auto

lemma find_key_Some: "find_key c m = Some k \<Longrightarrow> hm_wf m \<Longrightarrow> hm_get m k = Some c"
proof (induction c m rule: find_key.induct)
  case (2 c k' x m)
  show ?case
  proof (cases "x = c")
    case False
    then have "hm_get m k = Some c" using 2 by simp
    moreover from this have "k \<in> set (hm_keys m)" by (metis domI hm.keys_get)
    ultimately show ?thesis using 2(3) by auto
  qed (use 2 in simp)
qed simp

lemma find_key_None: "find_key c m = None \<Longrightarrow> hm_get m k \<noteq> Some c"
  by (induction c m rule: find_key.induct) (auto split: if_splits)

lemma find_parent_from_Some:
  "find_parent_from i c ns = Some (p, k) \<Longrightarrow> keys_ok ns \<Longrightarrow>
   i \<le> p \<and> p < i + length ns \<and> hm_get (children (ns ! (p - i))) k = Some c"
proof (induction i c ns rule: find_parent_from.induct)
  case (2 i c n ns)
  show ?case
  proof (cases "find_key c (children n)")
    case None
    then have "Suc i \<le> p \<and> p < Suc i + length ns \<and> hm_get (children (ns ! (p - Suc i))) k = Some c"
      using 2 by (simp add: keys_ok_def)
    then show ?thesis by (auto simp: nth_Cons' Suc_diff_Suc)
  next
    case (Some k')
    then show ?thesis using 2 find_key_Some [OF Some] by (simp add: keys_ok_def)
  qed
qed simp

lemma find_parent_from_None:
  "find_parent_from i c ns = None \<Longrightarrow> j < length ns \<Longrightarrow> hm_get (children (ns ! j)) k \<noteq> Some c"
proof (induction i c ns arbitrary: j rule: find_parent_from.induct)
  case (2 i c n ns)
  then have n: "find_key c (children n) = None" by (auto split: option.splits)
  show ?case
  proof (cases j)
    case 0
    then show ?thesis using find_key_None [OF n] by simp
  next
    case (Suc j')
    then show ?thesis using 2 n by simp
  qed
qed simp

definition unique_links :: "node list \<Rightarrow> bool" where
  "unique_links ns \<longleftrightarrow> (\<forall>i < length ns. \<forall>i' < length ns. \<forall>t t' c. hm_get (children (ns ! i)) t = Some c \<longrightarrow>
     hm_get (children (ns ! i')) t' = Some c \<longrightarrow> i = i' \<and> t = t')"

lemma radix_unique_links:
  assumes "radix_wf ns"
  shows "unique_links ns"
  unfolding unique_links_def
proof (intro allI impI)
  fix i i' t t' c
  assume i: "i < length ns" "i' < length ns" and t: "hm_get (children (ns ! i)) t = Some c"
    and t': "hm_get (children (ns ! i')) t' = Some c"
  have "i = i'" using single_parentD [OF radix_wfD(2) [OF assms] i t t'] .
  moreover have "t = t'"
    using links_okD(4) [OF radix_wfD(1) [OF assms] i(1) t] links_okD(4) [OF radix_wfD(1) [OF assms] i(2) t'] by simp
  ultimately show "i = i' \<and> t = t'" by simp
qed

text \<open>Pointers to \<open>c\<close> in \<open>ns\<close>: one at \<open>find_parent\<close>, or none.\<close>

lemma find_parent_cases:
  assumes "unique_links ns" "keys_ok ns"
  obtains (orphan) "find_parent c ns = None" "\<And>i t. i < length ns \<Longrightarrow> hm_get (children (ns ! i)) t \<noteq> Some c"
  | (parent) p k where "find_parent c ns = Some (p, k)" "p < length ns" "hm_get (children (ns ! p)) k = Some c"
      "\<And>i t. i < length ns \<Longrightarrow> hm_get (children (ns ! i)) t = Some c \<Longrightarrow> i = p \<and> t = k"
proof (cases "find_parent c ns")
  case None
  then show thesis using orphan find_parent_from_None unfolding find_parent_def by blast
next
  case (Some pk)
  obtain p k where pk: "pk = (p, k)" by (cases pk)
  have p: "p < length ns" "hm_get (children (ns ! p)) k = Some c"
    using find_parent_from_Some [of 0 c ns p k] Some pk assms(2) by (auto simp: find_parent_def)
  have "i = p \<and> t = k" if "i < length ns" "hm_get (children (ns ! i)) t = Some c" for i t
    using assms(1) that p unfolding unique_links_def by blast
  then show thesis using parent Some pk p by blast
qed

lemma set_children_nth:
  assumes "p < length ns"
  shows "edge (set_children f p ns ! i) = edge (ns ! i)" "workers (set_children f p ns ! i) = workers (ns ! i)"
    "last_access_ms (set_children f p ns ! i) = last_access_ms (ns ! i)"
    "children (set_children f p ns ! i) = (if i = p then f (children (ns ! p)) else children (ns ! i))"
    "length (set_children f p ns) = length ns"
  using assms by (simp_all add: set_children_def nth_list_update)

text \<open>\<open>ns'\<close> is \<open>ns\<close> with the leaf \<open>v\<close> taken out and the other nodes renamed by \<open>f\<close>.\<close>

definition without :: "nat \<Rightarrow> (nat \<Rightarrow> nat) \<Rightarrow> node list \<Rightarrow> node list \<Rightarrow> bool" where
  "without v f ns ns' \<longleftrightarrow> length ns = Suc (length ns') \<and> f 0 = 0
     \<and> bij_betw f ({..<length ns} - {v}) {..<length ns'}
     \<and> (\<forall>i < length ns. i \<noteq> v \<longrightarrow> edge (ns' ! f i) = edge (ns ! i) \<and> workers (ns' ! f i) = workers (ns ! i)
          \<and> last_access_ms (ns' ! f i) = last_access_ms (ns ! i)
          \<and> (\<forall>t. hm_get (children (ns' ! f i)) t =
               (case hm_get (children (ns ! i)) t of None \<Rightarrow> None | Some c \<Rightarrow> if c = v then None else Some (f c))))"

lemma withoutD:
  assumes "without v f ns ns'" "i < length ns" "i \<noteq> v"
  shows "f i < length ns'" "edge (ns' ! f i) = edge (ns ! i)" "workers (ns' ! f i) = workers (ns ! i)"
    "last_access_ms (ns' ! f i) = last_access_ms (ns ! i)"
    "hm_get (children (ns' ! f i)) t = (case hm_get (children (ns ! i)) t of None \<Rightarrow> None | Some c \<Rightarrow> if c = v then None else Some (f c))"
  using assms unfolding without_def bij_betw_def by auto

lemma without_surj:
  assumes "without v f ns ns'" "j < length ns'"
  shows "\<exists>i < length ns. i \<noteq> v \<and> f i = j"
proof -
  have "f ` ({..<length ns} - {v}) = {..<length ns'}" using assms(1) unfolding without_def bij_betw_def by blast
  then have "j \<in> f ` ({..<length ns} - {v})" using assms(2) by simp
  then show ?thesis by auto
qed

lemma without_inj: "without v f ns ns' \<Longrightarrow> i < length ns \<Longrightarrow> i \<noteq> v \<Longrightarrow> k < length ns \<Longrightarrow> k \<noteq> v \<Longrightarrow> f i = f k \<Longrightarrow> i = k"
  unfolding without_def bij_betw_def inj_on_def by auto

lemma without_walk:
  assumes wf: "radix_wf ns" and v: "0 < v" "children (ns ! v) = []" and x: "without v f ns ns'"
  shows "at_node ns i p \<Longrightarrow> i \<noteq> v \<Longrightarrow> at_node ns' (f i) p"
    and "at_node ns' j p \<Longrightarrow> \<exists>i. i \<noteq> v \<and> f i = j \<and> at_node ns i p"
proof -
  note ok = radix_wfD(1) [OF wf]
  have f0: "f 0 = 0" using x by (simp add: without_def)
  have "i \<noteq> v \<longrightarrow> at_node ns' (f i) p" if "at_node ns i p" for i p
    using that
  proof (induction rule: walk.induct)
    case here
    then show ?case using f0 walk.here [of ns' 0 "[]"] by simp
  next
    case (down j p t c)
    have jb: "j < length ns" by (rule at_bound [OF down.hyps(1) ok])
    have jv: "j \<noteq> v" using down.hyps(2) v(2) by auto
    have cb: "c < length ns" by (rule links_okD(2) [OF ok jb down.hyps(2)])
    show ?case
    proof
      assume "c \<noteq> v"
      then have "hm_get (children (ns' ! f j)) t = Some (f c)" using withoutD(5) [OF x jb jv] down.hyps(2) by simp
      from walk.down [OF _ this] down.IH jv withoutD(2) [OF x cb \<open>c \<noteq> v\<close>]
      show "at_node ns' (f c) (p @ edge (ns ! c))" by simp
    qed
  qed
  then show "at_node ns i p \<Longrightarrow> i \<noteq> v \<Longrightarrow> at_node ns' (f i) p" by blast
  show "at_node ns' j p \<Longrightarrow> \<exists>i. i \<noteq> v \<and> f i = j \<and> at_node ns i p"
  proof (induction rule: walk.induct)
    case here
    then show ?case using f0 v(1) walk.here [of ns 0 "[]"] by (intro exI [of _ 0]) auto
  next
    case (down j p t c)
    then obtain i where i: "i \<noteq> v" "f i = j" "at_node ns i p" by blast
    have ib: "i < length ns" by (rule at_bound [OF i(3) ok])
    have "hm_get (children (ns' ! f i)) t = Some c" using down.hyps(2) i(2) by simp
    then obtain c0 where c0: "hm_get (children (ns ! i)) t = Some c0" "c0 \<noteq> v" "c = f c0"
      unfolding withoutD(5) [OF x ib i(1)] by (auto split: option.splits if_splits)
    have "c0 < length ns" by (rule links_okD(2) [OF ok ib c0(1)])
    then show ?case using walk.down [OF i(3) c0(1)] c0 withoutD(2) [OF x _ c0(2)] by auto
  qed
qed

lemma without_wf:
  assumes wf: "radix_wf ns" and v: "0 < v" "v < length ns" "children (ns ! v) = []" and x: "without v f ns ns'"
  shows "radix_wf ns'"
proof (rule radix_wfI)
  note ok = radix_wfD(1) [OF wf]
  have link: "\<exists>i0 c0. i0 < length ns \<and> i0 \<noteq> v \<and> f i0 = i \<and> c0 < length ns \<and> c0 \<noteq> v \<and> f c0 = c
      \<and> hm_get (children (ns ! i0)) t = Some c0" if h: "i < length ns'" "hm_get (children (ns' ! i)) t = Some c" for i t c
  proof -
    obtain i0 where i0: "i0 < length ns" "i0 \<noteq> v" "f i0 = i" using without_surj [OF x h(1)] by blast
    then obtain c0 where "hm_get (children (ns ! i0)) t = Some c0" "c0 \<noteq> v" "c = f c0"
      using h(2) withoutD(5) [OF x i0(1,2)] by (auto split: option.splits if_splits)
    then show ?thesis using i0 links_okD(2) [OF ok i0(1)] by blast
  qed
  have "length ns = Suc (length ns')" using x unfolding without_def by blast
  then have z: "0 < length ns'" using v by linarith
  show "links_ok ns'"
    unfolding links_ok_def
  proof (intro conjI allI impI)
    show "ns' \<noteq> []" using z by simp
  next
    fix i t c
    assume "i < length ns'" "hm_get (children (ns' ! i)) t = Some c"
    then obtain i0 c0 where c0: "i0 < length ns" "i0 \<noteq> v" "f i0 = i" "c0 < length ns" "c0 \<noteq> v" "f c0 = c"
      "hm_get (children (ns ! i0)) t = Some c0" using link by blast
    note l = links_okD [OF ok c0(1,7)] and wi = withoutD [OF x c0(1,2)] and wc = withoutD [OF x c0(4,5)]
    have "f c0 \<noteq> f 0" using without_inj [OF x c0(4,5) _ v(1) [THEN less_imp_neq]] l(1) v(2) by fastforce
    then show "0 < c" using c0(6) x by (simp add: without_def)
    show "c < length ns'" "edge (ns' ! c) \<noteq> []" "hd (edge (ns' ! c)) = t" using wc(1,2) l c0(6) by simp_all
    show "set (workers (ns' ! c)) \<subseteq> set (workers (ns' ! i))" using wc(3) wi(3) l(5) c0(3,6) by simp
  qed
  show "single_parent ns'"
    unfolding single_parent_def
  proof (intro allI impI)
    fix i i' t t' c
    assume "i < length ns'" "i' < length ns'" "hm_get (children (ns' ! i)) t = Some c" "hm_get (children (ns' ! i')) t' = Some c"
    then obtain i0 c0 i1 c1 where
      "i0 < length ns" "f i0 = i" "c0 < length ns" "c0 \<noteq> v" "f c0 = c" "hm_get (children (ns ! i0)) t = Some c0"
      "i1 < length ns" "f i1 = i'" "c1 < length ns" "c1 \<noteq> v" "f c1 = c" "hm_get (children (ns ! i1)) t' = Some c1"
      using link by metis
    moreover from this have "c0 = c1" using without_inj [OF x] by metis
    ultimately show "i = i'" using single_parentD [OF radix_wfD(2) [OF wf]] by metis
  qed
  show "p = q" if pq: "at_node ns' j p" "at_node ns' j q" for j p q
  proof -
    obtain i k where i: "i \<noteq> v" "f i = j" "at_node ns i p" "k \<noteq> v" "f k = j" "at_node ns k q"
      using without_walk(2) [OF wf v(1,3) x pq(1)] without_walk(2) [OF wf v(1,3) x pq(2)] by blast
    then have "i = k" using without_inj [OF x] at_bound [OF _ ok] by metis
    then show ?thesis using i radix_wfD(3) [OF wf] by blast
  qed
qed

definition unlink :: "nat \<Rightarrow> node list \<Rightarrow> node list" where
  "unlink v ns = (case find_parent v ns of Some (p, k) \<Rightarrow> set_children (hm_remove k) p ns | None \<Rightarrow> ns)"

definition relink :: "nat \<Rightarrow> nat \<Rightarrow> node list \<Rightarrow> node list" where
  "relink c v ns = (case find_parent c ns of Some (p, k) \<Rightarrow> set_children (hm_insert k v) p ns | None \<Rightarrow> ns)"

lemma detach_eq:
  "detach v ns = (let ns1 = unlink v ns; z = length ns1 - 1
     in if v \<noteq> z then let ns2 = relink z v ns1 in butlast (ns2 [v := ns2 ! z, z := ns2 ! v]) else butlast ns1)"
  unfolding detach_def unlink_def relink_def Let_def by (rule refl)

lemma unlink_spec:
  assumes u: "unique_links ns" "keys_ok ns"
  shows "length (unlink v ns) = length ns" "keys_ok (unlink v ns)"
    "edge (unlink v ns ! i) = edge (ns ! i)" "workers (unlink v ns ! i) = workers (ns ! i)"
    "last_access_ms (unlink v ns ! i) = last_access_ms (ns ! i)"
    "i < length ns \<Longrightarrow> hm_get (children (unlink v ns ! i)) t =
      (case hm_get (children (ns ! i)) t of None \<Rightarrow> None | Some c \<Rightarrow> if c = v then None else Some c)"
proof -
  have "length (unlink v ns) = length ns \<and> keys_ok (unlink v ns) \<and> edge (unlink v ns ! i) = edge (ns ! i)
    \<and> workers (unlink v ns ! i) = workers (ns ! i) \<and> last_access_ms (unlink v ns ! i) = last_access_ms (ns ! i)
    \<and> (i < length ns \<longrightarrow> hm_get (children (unlink v ns ! i)) t =
      (case hm_get (children (ns ! i)) t of None \<Rightarrow> None | Some c \<Rightarrow> if c = v then None else Some c))"
    using u
  proof (cases rule: find_parent_cases [where c = v])
    case orphan
    then show ?thesis using u(2) by (auto simp: unlink_def split: option.splits)
  next
    case (parent p k)
    note sn = set_children_nth [OF parent(2), of "hm_remove k"]
    have e: "unlink v ns = set_children (hm_remove k) p ns" by (simp add: unlink_def parent(1))
    have "keys_ok (unlink v ns)"
      unfolding e set_children_def by (rule keys_ok_update [OF u(2)]) (use keys_ok_nth [OF u(2) parent(2)] in auto)
    moreover have "hm_get (children (unlink v ns ! i)) t =
        (case hm_get (children (ns ! i)) t of None \<Rightarrow> None | Some c \<Rightarrow> if c = v then None else Some c)" if i: "i < length ns"
    proof (cases "i = p \<and> t = k")
      case True
      then show ?thesis unfolding e sn(4) using parent(3) by (simp add: hm_simps)
    next
      case False
      then have "hm_get (children (unlink v ns ! i)) t = hm_get (children (ns ! i)) t"
        unfolding e sn(4) by (auto simp: hm_simps)
      moreover have "hm_get (children (ns ! i)) t \<noteq> Some v" using False parent(4) [OF i] by blast
      ultimately show ?thesis by (cases "hm_get (children (ns ! i)) t") auto
    qed
    ultimately show ?thesis using sn e by simp
  qed
  then show "length (unlink v ns) = length ns" "keys_ok (unlink v ns)"
    "edge (unlink v ns ! i) = edge (ns ! i)" "workers (unlink v ns ! i) = workers (ns ! i)"
    "last_access_ms (unlink v ns ! i) = last_access_ms (ns ! i)"
    "i < length ns \<Longrightarrow> hm_get (children (unlink v ns ! i)) t =
      (case hm_get (children (ns ! i)) t of None \<Rightarrow> None | Some c \<Rightarrow> if c = v then None else Some c)" by blast+
qed

lemma relink_spec:
  assumes u: "unique_links ns" "keys_ok ns"
  shows "length (relink z v ns) = length ns" "keys_ok (relink z v ns)"
    "edge (relink z v ns ! i) = edge (ns ! i)" "workers (relink z v ns ! i) = workers (ns ! i)"
    "last_access_ms (relink z v ns ! i) = last_access_ms (ns ! i)"
    "i < length ns \<Longrightarrow> hm_get (children (relink z v ns ! i)) t =
      map_option (\<lambda>c. if c = z then v else c) (hm_get (children (ns ! i)) t)"
proof -
  have "length (relink z v ns) = length ns \<and> keys_ok (relink z v ns) \<and> edge (relink z v ns ! i) = edge (ns ! i)
    \<and> workers (relink z v ns ! i) = workers (ns ! i) \<and> last_access_ms (relink z v ns ! i) = last_access_ms (ns ! i)
    \<and> (i < length ns \<longrightarrow> hm_get (children (relink z v ns ! i)) t =
      map_option (\<lambda>c. if c = z then v else c) (hm_get (children (ns ! i)) t))"
    using u
  proof (cases rule: find_parent_cases [where c = z])
    case orphan
    then have "map_option (\<lambda>c. if c = z then v else c) (hm_get (children (ns ! i)) t) = hm_get (children (ns ! i)) t"
      if "i < length ns" using that by (cases "hm_get (children (ns ! i)) t") auto
    then show ?thesis using u(2) orphan(1) by (simp add: relink_def)
  next
    case (parent p k)
    note sn = set_children_nth [OF parent(2), of "hm_insert k v"]
    have e: "relink z v ns = set_children (hm_insert k v) p ns" by (simp add: relink_def parent(1))
    have "keys_ok (relink z v ns)"
      unfolding e set_children_def by (rule keys_ok_update [OF u(2)]) (use keys_ok_nth [OF u(2) parent(2)] in auto)
    moreover have "hm_get (children (relink z v ns ! i)) t =
        map_option (\<lambda>c. if c = z then v else c) (hm_get (children (ns ! i)) t)" if i: "i < length ns"
    proof (cases "i = p \<and> t = k")
      case True
      then show ?thesis unfolding e sn(4) using parent(3) by (simp add: hm_simps)
    next
      case False
      then have "hm_get (children (relink z v ns ! i)) t = hm_get (children (ns ! i)) t"
        unfolding e sn(4) by (auto simp: hm_simps)
      moreover have "hm_get (children (ns ! i)) t \<noteq> Some z" using False parent(4) [OF i] by blast
      ultimately show ?thesis by (cases "hm_get (children (ns ! i)) t") auto
    qed
    ultimately show ?thesis using sn e by simp
  qed
  then show "length (relink z v ns) = length ns" "keys_ok (relink z v ns)"
    "edge (relink z v ns ! i) = edge (ns ! i)" "workers (relink z v ns ! i) = workers (ns ! i)"
    "last_access_ms (relink z v ns ! i) = last_access_ms (ns ! i)"
    "i < length ns \<Longrightarrow> hm_get (children (relink z v ns ! i)) t =
      map_option (\<lambda>c. if c = z then v else c) (hm_get (children (ns ! i)) t)" by blast+
qed

lemma keys_ok_butlast: "keys_ok ns \<Longrightarrow> keys_ok (butlast ns)"
  unfolding keys_ok_def by (meson in_set_butlastD)

lemma detach_without:
  assumes wf: "radix_wf ns" "keys_ok ns" and v: "0 < v" "v < length ns"
  shows "\<exists>f. without v f ns (detach v ns)" "keys_ok (detach v ns)"
proof -
  note u = radix_unique_links [OF wf(1)]
  define ns1 where "ns1 = unlink v ns"
  define z where "z = length ns - 1"
  note s1 = unlink_spec [OF u wf(2), where v = v, folded ns1_def]
  have sub: "hm_get (children (ns ! i)) t = Some c" if "i < length ns" "hm_get (children (ns1 ! i)) t = Some c" for i t c
    using that(2) unfolding s1(6) [OF that(1)] by (auto split: option.splits if_splits)
  have u1: "unique_links ns1"
    unfolding unique_links_def s1(1) using u [unfolded unique_links_def] sub by blast
  have "(\<exists>f. without v f ns (detach v ns)) \<and> keys_ok (detach v ns)"
  proof (cases "v = z")
    case True
    have d: "detach v ns = butlast ns1"
      using True s1(1) unfolding detach_eq ns1_def [symmetric] Let_def z_def by simp
    have "bij_betw (\<lambda>i. i) ({..<length ns} - {v}) {..<length (butlast ns1)}"
      using True v s1(1) by (auto simp: bij_betw_def z_def)
    then have "without v (\<lambda>i. i) ns (butlast ns1)"
      using True v s1 by (auto simp: without_def z_def nth_butlast split: option.splits)
    then show ?thesis using d keys_ok_butlast [OF s1(2)] by auto
  next
    case False
    define f where "f i = (if i = z then v else i)" for i
    define ns2 where "ns2 = relink z v ns1"
    define ns3 where "ns3 = butlast (ns2 [v := ns2 ! z, z := ns2 ! v])"
    note s2 = relink_spec [OF u1 s1(2), where z = z and v = v, folded ns2_def]
    have d: "detach v ns = ns3"
      using False s1(1) unfolding detach_eq ns1_def [symmetric] Let_def z_def ns3_def ns2_def by simp
    have len: "length ns2 = length ns" "length ns3 = z" "z < length ns" "v < z"
      using v False s1(1) s2(1) by (simp_all add: ns3_def z_def)
    have nth: "ns3 ! f i = ns2 ! i" if "i < length ns" "i \<noteq> v" for i
      using that len by (auto simp: ns3_def f_def nth_butlast nth_list_update z_def)
    have "bij_betw f ({..<length ns} - {v}) {..<length ns3}"
      unfolding len(2)
    proof (rule bij_betw_byWitness [where f' = "\<lambda>j. if j = v then z else j"])
    qed (use len in \<open>auto simp: f_def z_def\<close>)
    moreover have "hm_get (children (ns3 ! f i)) t =
        (case hm_get (children (ns ! i)) t of None \<Rightarrow> None | Some c \<Rightarrow> if c = v then None else Some (f c))"
      if "i < length ns" "i \<noteq> v" for i t
      using that nth s1(1) by (simp add: s2(6) s1(6) f_def split: option.splits)
    ultimately have "without v f ns ns3"
      using v len nth by (auto simp: without_def s1 s2 f_def z_def)
    moreover have "keys_ok ns3"
      unfolding ns3_def
      by (intro keys_ok_butlast keys_ok_update s2) (use keys_ok_nth [OF s2(2)] len in auto)
    ultimately show ?thesis using d by blast
  qed
  then show "\<exists>f. without v f ns (detach v ns)" "keys_ok (detach v ns)" by blast+
qed

subsection \<open>Pruning\<close>

declare prune_loop.simps [simp del]

text \<open>Known through a node that was touched within the last \<open>ttl_ms\<close>.\<close>

definition warm :: "millis \<Rightarrow> real \<Rightarrow> node list \<Rightarrow> worker_id \<Rightarrow> token_id list \<Rightarrow> bool" where
  "warm now ttl_ms ns w p \<longleftrightarrow> (\<exists>j q. at_node ns j q \<and> w \<in> set (workers (ns ! j)) \<and> prefix p q
     \<and> now - last_access_ms (ns ! j) \<le> ttl_ms)"

lemma without_knows:
  assumes wf: "radix_wf ns" and v: "0 < v" "children (ns ! v) = []" and x: "without v f ns ns'"
  shows "knows ns' w p \<Longrightarrow> knows ns w p"
    and "now - last_access_ms (ns ! v) > ttl_ms \<Longrightarrow> warm now ttl_ms ns w p \<Longrightarrow> warm now ttl_ms ns' w p"
proof -
  note ok = radix_wfD(1) [OF wf]
  assume "knows ns' w p"
  then obtain j q where j: "at_node ns' j q" "w \<in> set (workers (ns' ! j))" "prefix p q" by (auto simp: knows_def)
  then obtain i where "i \<noteq> v" "f i = j" "at_node ns i q" using without_walk(2) [OF wf v x] by blast
  then show "knows ns w p" using j withoutD(3) [OF x at_bound [OF _ ok]] by (metis knows_here)
next
  note ok = radix_wfD(1) [OF wf]
  assume cold: "now - last_access_ms (ns ! v) > ttl_ms" and "warm now ttl_ms ns w p"
  then obtain j q where j: "at_node ns j q" "w \<in> set (workers (ns ! j))" "prefix p q" "now - last_access_ms (ns ! j) \<le> ttl_ms"
    by (auto simp: warm_def)
  then have "j \<noteq> v" using cold by auto
  then show "warm now ttl_ms ns' w p"
    unfolding warm_def using j without_walk(1) [OF wf v x j(1)] withoutD(3,4) [OF x at_bound [OF j(1) ok]]
    by (intro exI [of _ "f j"] exI [of _ q]) simp
qed

lemma find_cold_leaf:
  "find (cold_leaf now ttl_ms) (zip [0..<length ns] ns) = Some (v, n) \<Longrightarrow>
   0 < v \<and> v < length ns \<and> children (ns ! v) = [] \<and> now - last_access_ms (ns ! v) > ttl_ms"
  by (auto simp: find_Some_iff cold_leaf_def)

lemma find_no_cold_leaf:
  assumes "find (cold_leaf now ttl_ms) (zip [0..<length ns] ns) = None" "0 < i" "i < length ns" "children (ns ! i) = []"
  shows "now - last_access_ms (ns ! i) \<le> ttl_ms"
proof -
  have "(i, ns ! i) \<in> set (zip [0..<length ns] ns)" using assms(3) by (auto simp: in_set_zip intro!: exI [of _ i])
  then have "\<not> cold_leaf now ttl_ms (i, ns ! i)" using assms(1) unfolding find_None_iff by blast
  then show ?thesis using assms(2,4) by (simp add: cold_leaf_def)
qed

lemma prune_loop_spec:
  "radix_wf ns \<Longrightarrow> keys_ok ns \<Longrightarrow> length ns \<le> Suc fuel \<Longrightarrow>
   \<exists>n ns'. prune_loop fuel now ttl_ms ns = Some (n, ns') \<and> radix_wf ns' \<and> keys_ok ns' \<and> length ns' + n = length ns
     \<and> (\<forall>w p. knows ns' w p \<longrightarrow> knows ns w p) \<and> (\<forall>w p. warm now ttl_ms ns w p \<longrightarrow> warm now ttl_ms ns' w p)
     \<and> (\<forall>i. 0 < i \<longrightarrow> i < length ns' \<longrightarrow> children (ns' ! i) = [] \<longrightarrow> now - last_access_ms (ns' ! i) \<le> ttl_ms)"
proof (induction fuel arbitrary: ns)
  case 0
  have "find (cold_leaf now ttl_ms) (zip [0..<length ns] ns) = None"
  proof (cases "find (cold_leaf now ttl_ms) (zip [0..<length ns] ns)")
    case (Some vn)
    then show ?thesis using find_cold_leaf [of now ttl_ms ns "fst vn" "snd vn"] 0 by auto
  qed
  then show ?case using 0 find_no_cold_leaf [of now ttl_ms ns] by (auto simp: prune_loop.simps)
next
  case (Suc fuel)
  show ?case
  proof (cases "find (cold_leaf now ttl_ms) (zip [0..<length ns] ns)")
    case None
    then show ?thesis using Suc.prems find_no_cold_leaf [OF None] by (auto simp: prune_loop.simps)
  next
    case (Some vn)
    obtain v m where vn: "vn = (v, m)" by (cases vn)
    have v: "0 < v" "v < length ns" "children (ns ! v) = []" "now - last_access_ms (ns ! v) > ttl_ms"
      using find_cold_leaf Some vn by blast+
    obtain f where f: "without v f ns (detach v ns)" using detach_without(1) [OF Suc.prems(1,2) v(1,2)] by blast
    have len: "length ns = Suc (length (detach v ns))" using f unfolding without_def by blast
    have wf: "radix_wf (detach v ns)" by (rule without_wf [OF Suc.prems(1) v(1-3) f])
    have "length (detach v ns) \<le> Suc fuel" using len Suc.prems(3) by simp
    from Suc.IH [OF wf detach_without(2) [OF Suc.prems(1,2) v(1,2)] this] obtain n ns' where
      r: "prune_loop fuel now ttl_ms (detach v ns) = Some (n, ns')" "radix_wf ns'" "keys_ok ns'"
        "length ns' + n = length (detach v ns)" "\<forall>w p. knows ns' w p \<longrightarrow> knows (detach v ns) w p"
        "\<forall>w p. warm now ttl_ms (detach v ns) w p \<longrightarrow> warm now ttl_ms ns' w p"
        "\<forall>i. 0 < i \<longrightarrow> i < length ns' \<longrightarrow> children (ns' ! i) = [] \<longrightarrow> now - last_access_ms (ns' ! i) \<le> ttl_ms" by blast
    have "prune_loop (Suc fuel) now ttl_ms ns = Some (Suc n, ns')"
      using Some vn r(1) by (simp add: prune_loop.simps [of "Suc fuel"])
    moreover have "knows ns' w p \<longrightarrow> knows ns w p" "warm now ttl_ms ns w p \<longrightarrow> warm now ttl_ms ns' w p" for w p
      using r(5,6) without_knows [OF Suc.prems(1) v(1,3) f] v(4) by blast+
    ultimately show ?thesis using r len by auto
  qed
qed

lemma prune_spec:
  assumes "radix_wf (nodes r)" "keys_ok (nodes r)"
  shows "\<exists>n r'. prune now ttl_ms r = Some (n, r') \<and> radix_wf (nodes r') \<and> keys_ok (nodes r')
     \<and> node_count r' + n = node_count r \<and> max_nodes r' = max_nodes r
     \<and> (\<forall>w p. knows (nodes r') w p \<longrightarrow> knows (nodes r) w p)
     \<and> (\<forall>w p. warm now ttl_ms (nodes r) w p \<longrightarrow> warm now ttl_ms (nodes r') w p)
     \<and> (\<forall>i. 0 < i \<longrightarrow> i < node_count r' \<longrightarrow> children (nodes r' ! i) = [] \<longrightarrow> now - last_access_ms (nodes r' ! i) \<le> ttl_ms)"
proof -
  have "length (nodes r) \<le> Suc (length (nodes r))" by simp
  from prune_loop_spec [OF assms this, of now ttl_ms] obtain n ns' where
    r: "prune_loop (length (nodes r)) now ttl_ms (nodes r) = Some (n, ns')" "radix_wf ns'" "keys_ok ns'"
      "length ns' + n = length (nodes r)" "\<forall>w p. knows ns' w p \<longrightarrow> knows (nodes r) w p"
      "\<forall>w p. warm now ttl_ms (nodes r) w p \<longrightarrow> warm now ttl_ms ns' w p"
      "\<forall>i. 0 < i \<longrightarrow> i < length ns' \<longrightarrow> children (ns' ! i) = [] \<longrightarrow> now - last_access_ms (ns' ! i) \<le> ttl_ms" by blast
  then show ?thesis by (intro exI [of _ n] exI [of _ "r\<lparr>nodes := ns'\<rparr>"]) (simp add: prune_def node_count_def)
qed

subsection \<open>Reachable indexes\<close>

text \<open>The calls the router makes.\<close>

inductive radix_step :: "radix_index \<Rightarrow> radix_index \<Rightarrow> bool" where
  rx_insert: "index_insert w ts now r = Some r' \<Longrightarrow> radix_step r r'"
| rx_forget: "radix_step r (forget_worker w r)"
| rx_clear: "radix_step r (index_clear r)"
| rx_prune: "prune now ttl_ms r = Some (n, r') \<Longrightarrow> radix_step r r'"

inductive_cases radix_step_cases: "radix_step r r'"

definition radix_inv :: "radix_index \<Rightarrow> bool" where
  "radix_inv r \<longleftrightarrow> radix_wf (nodes r) \<and> keys_ok (nodes r) \<and> 0 < max_nodes r \<and> node_count r \<le> max_nodes r + 1"

lemma keys_ok_insert:
  assumes "keys_ok (nodes r)" "nodes r \<noteq> []" "index_insert w ts now r = Some r'"
  shows "keys_ok (nodes r')"
proof (cases "index_accepts r ts")
  case True
  let ?ns = "(nodes r) [0 := touch w now (nodes r ! 0)]"
  obtain ns' where "insert_loop (length ts) w now 0 ts ?ns = Some ns'" "r' = r\<lparr>nodes := ns'\<rparr>"
    using assms(3) True by (auto simp: index_insert_def index_accepts_def node_count_def split: if_splits)
  moreover have "keys_ok ?ns" by (rule keys_ok_update [OF assms(1)]) (use keys_ok_nth [OF assms(1), of 0] assms(2) in simp)
  ultimately show ?thesis using keys_ok_insert_loop [of "length ts" w now 0 ts ?ns ns'] assms(2) by simp
next
  case False
  then show ?thesis using assms by (auto simp: index_insert_def index_accepts_def node_count_def split: if_splits)
qed

lemma radix_insert_inv:
  assumes "radix_inv r" "index_insert w ts now r = Some r'"
  shows "radix_inv r'"
proof (cases "index_accepts r ts")
  case True
  have "keys_ok (nodes r')"
    using keys_ok_insert assms radix_wfD(1) [of "nodes r"] by (auto simp: radix_inv_def links_ok_def)
  then show ?thesis
    using assms True index_insert_spec [of r ts w now] by (auto simp: radix_inv_def index_accepts_def node_count_def)
next
  case False
  then have "r' = r" using assms(2) by (auto simp: index_insert_def index_accepts_def node_count_def split: if_splits)
  then show ?thesis using assms(1) by simp
qed

lemma radix_forget_inv: "radix_inv r \<Longrightarrow> radix_inv (forget_worker w r)"
  using forget_wf [of r w] by (simp add: radix_inv_def) (simp add: forget_worker_def node_count_def keys_ok_def)

lemma radix_clear_inv: "radix_inv r \<Longrightarrow> radix_inv (index_clear r)"
  by (simp add: radix_inv_def index_clear_def node_count_def new_wf keys_ok_def) (simp add: node_new_def)

lemma radix_prune_inv: "radix_inv r \<Longrightarrow> prune now ttl_ms r = Some (n, r') \<Longrightarrow> radix_inv r'"
  using prune_spec [of r now ttl_ms] by (auto simp: radix_inv_def)

lemma radix_step_inv: "radix_inv r \<Longrightarrow> radix_step r r' \<Longrightarrow> radix_inv r'"
  by (erule radix_step_cases) (auto intro: radix_insert_inv radix_forget_inv radix_clear_inv radix_prune_inv)

lemma radix_new_inv: "radix_inv (index_new lo hi)"
  by (simp add: radix_inv_def index_new_def node_count_def new_wf keys_ok_def) (simp add: node_new_def)

definition radix_init :: "radix_index \<Rightarrow> bool" where
  "radix_init r \<longleftrightarrow> (\<exists>lo hi. r = index_new lo hi)"

interpretation radix_sys: invariant_system radix_init radix_step radix_inv
  by unfold_locales (auto simp: radix_init_def intro: radix_new_inv radix_step_inv)

subsection \<open>Properties\<close>

lemma knows_nil: "knows ns w p \<Longrightarrow> knows ns w []"
  by (auto simp: knows_def)

text \<open>C5. The index answers the router's question. On every index reached by inserting,
  forgetting, pruning and clearing, \<open>match_workers\<close> returns, with no panic and within its
  fuel, a map with three kinds of worker: one that is known to hold a non-empty prefix of the prompt is mapped to the length of the longest
  such prefix; one that the index has an entry for but that holds no non-empty prefix of this prompt is mapped to 0; one without any
  entry is absent. The comment of \<open>match_workers\<close> says of the second kind that it is "simply absent", which the code
  does not do: \<open>insert\<close> marks the worker at the root, and the root is recorded with length 0
  (\<open>worker_without_overlap_is_returned\<close>).\<close>

theorem match_returns_longest_known_prefix:
  assumes "radix_init r0" "radix_step\<^sup>*\<^sup>* r0 r"
  shows "\<exists>m. match_workers r q = Some m
    \<and> (\<forall>w k. 0 < k \<longrightarrow> (hm_get m w = Some k) = (k \<le> length q \<and> knows (nodes r) w (take k q)
          \<and> (\<forall>k'. k < k' \<longrightarrow> k' \<le> length q \<longrightarrow> \<not> knows (nodes r) w (take k' q))))
    \<and> (\<forall>w. (hm_get m w = Some 0) = ((\<exists>p. knows (nodes r) w p) \<and> (\<forall>k. 0 < k \<longrightarrow> k \<le> length q \<longrightarrow> \<not> knows (nodes r) w (take k q))))
    \<and> (\<forall>w. (hm_get m w = None) = (\<forall>p. \<not> knows (nodes r) w p))"
proof -
  have wf: "radix_wf (nodes r)" using radix_sys.reachable_inv [OF assms] by (simp add: radix_inv_def)
  obtain m where m: "match_workers r q = Some m"
    "\<forall>w. hm_get m w = (if knows (nodes r) w [] then Some (longest (nodes r) w q) else None)"
    using match_workers_spec [OF wf] by blast
  have pos: "(hm_get m w = Some k) = (k \<le> length q \<and> knows (nodes r) w (take k q)
      \<and> (\<forall>k'. k < k' \<longrightarrow> k' \<le> length q \<longrightarrow> \<not> knows (nodes r) w (take k' q)))" for w k
    using m(2) longest_props [of "nodes r" w q] knows_nil [of "nodes r" w] by (metis linorder_neqE_nat option.inject option.distinct(1))
  have zero: "(hm_get m w = Some 0) = ((\<exists>p. knows (nodes r) w p) \<and> (\<forall>k. 0 < k \<longrightarrow> k \<le> length q \<longrightarrow> \<not> knows (nodes r) w (take k q)))" for w
    unfolding pos using knows_nil [of "nodes r" w] by auto
  have none: "(hm_get m w = None) = (\<forall>p. \<not> knows (nodes r) w p)" for w using m(2) knows_nil [of "nodes r" w] by auto
  show ?thesis by (intro exI [of _ m] conjI m(1) allI impI pos zero none)
qed

definition two_worker_index :: "radix_index option" where
  "two_worker_index = Option.bind (index_insert 1 [1, 2, 3] 0 (index_new 1 8)) (index_insert 2 [1, 2, 5, 6] 1)"

lemma new_index_knows_nothing: "\<not> knows (nodes (index_new lo hi)) w p"
proof
  have ok: "links_ok (nodes (index_new lo hi))" using radix_new_inv [of lo hi] radix_wfD(1) by (auto simp: radix_inv_def)
  assume "knows (nodes (index_new lo hi)) w p"
  then obtain j q where j: "at_node (nodes (index_new lo hi)) j q" "w \<in> set (workers (nodes (index_new lo hi) ! j))" by (auto simp: knows_def)
  then show False using at_bound [OF j(1) ok] by (simp add: index_new_def node_new_def)
qed

lemma two_worker_index_reached:
  obtains r where "two_worker_index = Some r" "radix_step\<^sup>*\<^sup>* (index_new 1 8) r"
    "\<forall>w p. knows (nodes r) w p \<longleftrightarrow> w = 1 \<and> prefix p [1, 2, 3] \<or> w = 2 \<and> prefix p [1, 2, 5, 6]"
proof -
  have i: "radix_inv (index_new 1 8)" by (rule radix_new_inv)
  obtain r1 where r1: "index_insert 1 [1, 2, 3] 0 (index_new 1 8) = Some r1" "radix_wf (nodes r1)"
    "length (nodes r1) \<le> length (nodes (index_new 1 8)) + 2" "max_nodes r1 = max_nodes (index_new 1 8)"
    "min_prefix_tokens r1 = min_prefix_tokens (index_new 1 8)"
    "\<forall>w p. knows (nodes r1) w p \<longleftrightarrow> knows (nodes (index_new 1 8)) w p \<or> w = 1 \<and> prefix p [1, 2, 3]"
    using index_insert_spec [of "index_new 1 8" "[1, 2, 3]" 1 0] i by (auto simp: radix_inv_def index_new_def)
  obtain r2 where r2: "index_insert 2 [1, 2, 5, 6] 1 r1 = Some r2"
    "\<forall>w p. knows (nodes r2) w p \<longleftrightarrow> knows (nodes r1) w p \<or> w = 2 \<and> prefix p [1, 2, 5, 6]"
    using index_insert_spec [of r1 "[1, 2, 5, 6]" 2 1] r1 by (auto simp: index_new_def)
  have "radix_step\<^sup>*\<^sup>* (index_new 1 8) r2" using rx_insert [OF r1(1)] rx_insert [OF r2(1)] by auto
  then show thesis using that [of r2] r1(1,6) r2 new_index_knows_nothing by (simp add: two_worker_index_def)
qed

theorem match_returns_longest_known_prefix_witness:
  "\<exists>r m. two_worker_index = Some r \<and> match_workers r [1, 2, 5] = Some m \<and> hm_get m 1 = Some 2 \<and> hm_get m 2 = Some 3 \<and> hm_get m 3 = None"
proof -
  obtain r where r: "two_worker_index = Some r" "radix_step\<^sup>*\<^sup>* (index_new 1 8) r"
    "\<forall>w p. knows (nodes r) w p \<longleftrightarrow> w = 1 \<and> prefix p [1, 2, 3] \<or> w = 2 \<and> prefix p [1, 2, 5, 6]" by (rule two_worker_index_reached)
  have i: "radix_init (index_new 1 8)" by (auto simp: radix_init_def)
  from match_returns_longest_known_prefix [OF i r(2), of "[1, 2, 5]"] obtain m where m: "match_workers r [1, 2, 5] = Some m"
    "\<forall>w k. 0 < k \<longrightarrow> (hm_get m w = Some k) = (k \<le> 3 \<and> knows (nodes r) w (take k [1, 2, 5])
        \<and> (\<forall>k'. k < k' \<longrightarrow> k' \<le> 3 \<longrightarrow> \<not> knows (nodes r) w (take k' [1, 2, 5])))"
    "\<forall>w. (hm_get m w = None) = (\<forall>p. \<not> knows (nodes r) w p)" by (auto simp: eval_nat_numeral)
  have "k' = 3" if "2 < k'" "k' \<le> 3" for k' :: nat using that by simp
  then have "hm_get m 1 = Some 2" using m(2) [rule_format, of 2 1] unfolding r(3) [rule_format] by (auto simp: eval_nat_numeral)
  moreover have "hm_get m 2 = Some 3" using m(2) [rule_format, of 3 2] unfolding r(3) [rule_format] by (auto simp: eval_nat_numeral)
  moreover have "hm_get m 3 = None" using m(3) unfolding r(3) [rule_format] by simp
  ultimately show ?thesis using r(1) m(1) by blast
qed

text \<open>A worker that shares nothing with the prompt is returned, with length 0.\<close>

theorem worker_without_overlap_is_returned:
  "\<exists>r m. two_worker_index = Some r \<and> match_workers r [9] = Some m \<and> hm_get m 1 = Some 0 \<and> hm_get m 2 = Some 0"
proof -
  obtain r where r: "two_worker_index = Some r" "radix_step\<^sup>*\<^sup>* (index_new 1 8) r"
    "\<forall>w p. knows (nodes r) w p \<longleftrightarrow> w = 1 \<and> prefix p [1, 2, 3] \<or> w = 2 \<and> prefix p [1, 2, 5, 6]" by (rule two_worker_index_reached)
  have "radix_init (index_new 1 8)" by (auto simp: radix_init_def)
  then have wf: "radix_wf (nodes r)" using radix_sys.reachable_inv r(2) by (auto simp: radix_inv_def)
  obtain m where m: "match_workers r [9] = Some m"
    "\<forall>w. hm_get m w = (if knows (nodes r) w [] then Some (longest (nodes r) w [9]) else None)"
    using match_workers_spec [OF wf] by blast
  have "longest (nodes r) w [9] = 0" if "knows (nodes r) w []" for w
  proof (rule ccontr)
    assume "longest (nodes r) w [9] \<noteq> 0"
    moreover have "longest (nodes r) w [9] \<le> 1" "knows (nodes r) w (take (longest (nodes r) w [9]) [9])"
      using longest_props [of "nodes r" w "[9]"] that by auto
    ultimately have "knows (nodes r) w [9]" by (cases "longest (nodes r) w [9]") auto
    then show False unfolding r(3) [rule_format] by auto
  qed
  then show ?thesis using r m by auto
qed

text \<open>C29. Insertion is a round trip. On a reachable index that accepts the prompt, recording that
  a worker has computed it succeeds; afterwards that worker matches the whole prompt, it
  knows exactly its former prefixes and those of the prompt, and every other worker's
  matches are unchanged.\<close>

theorem insert_then_match:
  assumes "radix_init r0" "radix_step\<^sup>*\<^sup>* r0 r" "index_accepts r ts"
  shows "\<exists>r'. index_insert w ts now r = Some r' \<and> match_worker r' w ts = Some (length ts)
    \<and> (\<forall>p. knows (nodes r') w p \<longleftrightarrow> knows (nodes r) w p \<or> prefix p ts)
    \<and> (\<forall>w' q. w' \<noteq> w \<longrightarrow> match_worker r' w' q = match_worker r w' q)"
proof -
  have wf: "radix_wf (nodes r)" using radix_sys.reachable_inv [OF assms(1,2)] by (simp add: radix_inv_def)
  obtain r' where r': "index_insert w ts now r = Some r'"
    "\<forall>w' p. knows (nodes r') w' p \<longleftrightarrow> knows (nodes r) w' p \<or> (w' = w \<and> prefix p ts)"
    using radix.add_has [OF wf assms(3)] by blast
  then show ?thesis using radix.score_after_add [OF wf assms(3) r'(1)] by auto
qed

theorem insert_then_match_witness:
  "\<exists>r'. index_insert 4 [7, 8, 9] 2 (index_new 2 16) = Some r' \<and> match_worker r' 4 [7, 8, 9] = Some 3"
proof -
  have i: "radix_init (index_new 2 16)" by (auto simp: radix_init_def)
  have a: "index_accepts (index_new 2 16) [7, 8, 9]" by (simp add: index_accepts_def index_new_def node_count_def)
  from insert_then_match [OF i rtranclp.rtrancl_refl a, of 4 2] show ?thesis
    by (auto simp del: length_Cons)
qed

text \<open>Pruning only forgets what is cold. On a reachable index it terminates without a panic,
  removes as many nodes as it reports, leaves no cold leaf, adds no knowledge, and keeps
  everything that is known through a node touched within the time to live.\<close>

theorem prune_forgets_only_cold:
  assumes "radix_init r0" "radix_step\<^sup>*\<^sup>* r0 r"
  shows "\<exists>n r'. prune now ttl_ms r = Some (n, r') \<and> node_count r' + n = node_count r
     \<and> (\<forall>w p. knows (nodes r') w p \<longrightarrow> knows (nodes r) w p)
     \<and> (\<forall>w p. warm now ttl_ms (nodes r) w p \<longrightarrow> warm now ttl_ms (nodes r') w p)
     \<and> (\<forall>i. 0 < i \<longrightarrow> i < node_count r' \<longrightarrow> children (nodes r' ! i) = [] \<longrightarrow> now - last_access_ms (nodes r' ! i) \<le> ttl_ms)"
  using prune_spec [of r now ttl_ms] radix_sys.reachable_inv [OF assms] by (auto simp: radix_inv_def)

theorem prune_forgets_only_cold_witness:
  "\<exists>r n r'. two_worker_index = Some r \<and> prune 5000 1000 r = Some (n, r') \<and> node_count r' + n = node_count r"
proof -
  obtain r where r: "two_worker_index = Some r" "radix_step\<^sup>*\<^sup>* (index_new 1 8) r" by (metis two_worker_index_reached)
  have "radix_init (index_new 1 8)" by (auto simp: radix_init_def)
  from prune_forgets_only_cold [OF this r(2), of 5000 1000] r(1) show ?thesis by blast
qed

text \<open>The node limit is not a hard cap: an insertion that splits an edge and adds a leaf
  takes an index with one free node past \<open>max_nodes\<close>.\<close>

theorem node_limit_is_exceeded:
  "\<exists>r r'. index_insert 1 [1, 2, 3] 0 (index_new 1 3) = Some r \<and> index_insert 2 [1, 2, 5] 0 r = Some r'
     \<and> node_count r < max_nodes r \<and> max_nodes r' < node_count r'"
  by (simp add: index_insert_def index_new_def node_new_def touch_def node_count_def numeral_3_eq_3
      split_node_def Let_def)

end
