(* ===== verification/Router.thy ===== *)
theory Router
  imports Job_Policy Radix_Index
begin

text \<open>
  \<open>crates/router/src\<close>: the worker registry (\<open>registry.rs\<close>) and the routing policy
  (\<open>policy.rs\<close>).

  \<open>route\<close> is translated with its fold over the live prefill workers and its 1e-9 tolerance, and
  with \<open>max_by\<close> over the live decode workers. The outer option is the panic or missing fuel
  of the prefix index, which never happens on a reachable index.
\<close>

datatype worker_role = PrefillRole | DecodeRole

record worker_load =
  wl_queued_tokens :: nat
  wl_queue_depth :: nat
  decode_concurrency :: nat
  decode_cap :: real
  kv_utilisation :: real
  wl_tokens_per_ms :: real
  step_ms :: real
  updated_ms :: millis

record worker_state =
  ws_id :: worker_id
  role :: worker_role
  endpoint :: string
  tensor_parallel :: nat
  healthy :: bool
  load :: worker_load

definition decode_headroom :: "worker_state \<Rightarrow> real" where
  "decode_headroom w = max (decode_cap (load w) - real (decode_concurrency (load w))) 0"

record worker_registry =
  registered :: "(worker_id, worker_state) hmap"
  stale_after_ms :: real

definition registry_new :: "real \<Rightarrow> worker_registry" where
  "registry_new stale = \<lparr>registered = [], stale_after_ms = stale\<rparr>"

definition register :: "worker_state \<Rightarrow> worker_registry \<Rightarrow> worker_registry" where
  "register w r = r\<lparr>registered := hm_insert (ws_id w) w (registered r)\<rparr>"

definition deregister :: "worker_id \<Rightarrow> worker_registry \<Rightarrow> worker_state option \<times> worker_registry" where
  "deregister i r = (hm_get (registered r) i, r\<lparr>registered := hm_remove i (registered r)\<rparr>)"

definition update_load :: "worker_id \<Rightarrow> worker_load \<Rightarrow> worker_registry \<Rightarrow> worker_registry" where
  "update_load i l r = r\<lparr>registered := hm_modify i (\<lambda>w. w\<lparr>load := l, healthy := True\<rparr>) (registered r)\<rparr>"

definition registry_len :: "worker_registry \<Rightarrow> nat" where
  "registry_len r = length (registered r)"

definition is_live :: "worker_registry \<Rightarrow> worker_role \<Rightarrow> millis \<Rightarrow> worker_state \<Rightarrow> bool" where
  "is_live r ro now w \<longleftrightarrow> role w = ro \<and> healthy w \<and> now - updated_ms (load w) \<le> stale_after_ms r"

definition live :: "worker_registry \<Rightarrow> worker_role \<Rightarrow> millis \<Rightarrow> worker_state list" where
  "live r ro now = sort_key ws_id (filter (is_live r ro now) (hm_values (registered r)))"

definition prefill_rate :: "worker_registry \<Rightarrow> millis \<Rightarrow> real" where
  "prefill_rate r now = sum_list (map (\<lambda>w. wl_tokens_per_ms (load w)) (live r PrefillRole now))"

subsection \<open>Routing\<close>

datatype routing_error = NoPrefillWorker | NoDecodeWorker

fun routing_error_str :: "routing_error \<Rightarrow> string" where
  "routing_error_str NoPrefillWorker = ''no healthy prefill worker''"
| "routing_error_str NoDecodeWorker = ''no healthy decode worker''"

record routing_decision =
  rd_prefill :: worker_id
  rd_decode :: worker_id
  prefix_hit_tokens :: nat
  predicted_ttft_ms :: real
  predicted_late :: bool

record router_tuning =
  kv_transfer_ms :: real
  default_tokens_per_ms :: real
  rt_min_prefix_tokens :: nat

definition default_router_tuning :: router_tuning where
  "default_router_tuning = \<lparr>kv_transfer_ms = 10, default_tokens_per_ms = 17, rt_min_prefix_tokens = 256\<rparr>"

record router =
  registry :: worker_registry
  prefix_idx :: radix_index
  router_tuned :: router_tuning

definition router_new :: "worker_registry \<Rightarrow> router_tuning \<Rightarrow> router" where
  "router_new reg t = \<lparr>registry = reg, prefix_idx = index_new (rt_min_prefix_tokens t) 65536, router_tuned = t\<rparr>"

definition worker_rate :: "router_tuning \<Rightarrow> worker_state \<Rightarrow> real" where
  "worker_rate t w = (if wl_tokens_per_ms (load w) > 0 then wl_tokens_per_ms (load w) else default_tokens_per_ms t)"

definition prefix_hit :: "(worker_id, nat) hmap \<Rightarrow> nat \<Rightarrow> worker_state \<Rightarrow> nat" where
  "prefix_hit overlaps n w = min (case hm_get overlaps (ws_id w) of Some k \<Rightarrow> k | None \<Rightarrow> 0) n"

definition prefill_cost :: "router_tuning \<Rightarrow> (worker_id, nat) hmap \<Rightarrow> nat \<Rightarrow> worker_state \<Rightarrow> real" where
  "prefill_cost t overlaps n w =
    (let compute = real (n - prefix_hit overlaps n w); wait = real (wl_queued_tokens (load w)) / worker_rate t w
     in wait + compute / worker_rate t w + kv_transfer_ms t)"

definition tie_ms :: real where
  "tie_ms = 1 / 10 ^ 9"

definition consider_worker :: "router_tuning \<Rightarrow> (worker_id, nat) hmap \<Rightarrow> nat \<Rightarrow>
    (real \<times> worker_id \<times> nat) option \<Rightarrow> worker_state \<Rightarrow> (real \<times> worker_id \<times> nat) option" where
  "consider_worker t overlaps n best w =
    (let cost = prefill_cost t overlaps n w;
         better = (case best of None \<Rightarrow> True
           | Some (c, i, _) \<Rightarrow> cost < c - tie_ms \<or> (\<bar>cost - c\<bar> \<le> tie_ms \<and> ws_id w < i))
     in if better then Some (cost, ws_id w, prefix_hit overlaps n w) else best)"

definition decode_key :: "worker_state \<Rightarrow> real \<times> real \<times> int" where
  "decode_key w = (decode_headroom w, - kv_utilisation (load w), - int (ws_id w))"

definition route :: "router \<Rightarrow> token_id list \<Rightarrow> millis \<Rightarrow> real \<Rightarrow> (routing_error + routing_decision) option" where
  "route r toks now ttft_budget_ms =
    (let ppool = live (registry r) PrefillRole now
     in if ppool = [] then Some (Inl NoPrefillWorker)
     else let dpool = live (registry r) DecodeRole now
     in if dpool = [] then Some (Inl NoDecodeWorker)
     else case match_workers (prefix_idx r) toks of None \<Rightarrow> None
     | Some overlaps \<Rightarrow>
        (case foldl (consider_worker (router_tuned r) overlaps (length toks)) None ppool of None \<Rightarrow> None
         | Some (c, p, hit) \<Rightarrow>
            Some (Inr \<lparr>rd_prefill = p, rd_decode = ws_id (dpool ! max_index_by decode_key dpool),
              prefix_hit_tokens = hit, predicted_ttft_ms = c, predicted_late = c > ttft_budget_ms\<rparr>)))"

definition note_prefill :: "router \<Rightarrow> worker_id \<Rightarrow> token_id list \<Rightarrow> millis \<Rightarrow> router option" where
  "note_prefill r w toks now = map_option (\<lambda>i. r\<lparr>prefix_idx := i\<rparr>) (index_insert w toks now (prefix_idx r))"

subsection \<open>The life of a router\<close>

text \<open>Everything the fleet does to a router: workers come, go and report their load through the
  public \<open>registry\<close>, prompts are recorded, and the public \<open>prefix_index\<close> is maintained.\<close>

inductive router_step :: "router \<Rightarrow> router \<Rightarrow> bool" where
  rs_register: "router_step r (r\<lparr>registry := register w (registry r)\<rparr>)"
| rs_deregister: "router_step r (r\<lparr>registry := snd (deregister i (registry r))\<rparr>)"
| rs_update: "router_step r (r\<lparr>registry := update_load i l (registry r)\<rparr>)"
| rs_note: "note_prefill r w toks now = Some r' \<Longrightarrow> router_step r r'"
| rs_index: "radix_step (prefix_idx r) i \<Longrightarrow> router_step r (r\<lparr>prefix_idx := i\<rparr>)"

inductive_cases router_stepE: "router_step r r'"

definition router_init :: "router \<Rightarrow> bool" where
  "router_init r \<longleftrightarrow> (\<exists>stale t. r = router_new (registry_new stale) t)"

definition registry_wf :: "worker_registry \<Rightarrow> bool" where
  "registry_wf r \<longleftrightarrow> hm_wf (registered r) \<and> (\<forall>i w. hm_get (registered r) i = Some w \<longrightarrow> ws_id w = i)"

definition router_inv :: "router \<Rightarrow> bool" where
  "router_inv r \<longleftrightarrow> registry_wf (registry r) \<and> radix_inv (prefix_idx r)"

lemma register_wf [keeps]: "registry_wf r \<Longrightarrow> registry_wf (register w r)"
  by (auto simp: registry_wf_def register_def hm_simps)

lemma deregister_wf [keeps]: "registry_wf r \<Longrightarrow> registry_wf (snd (deregister i r))"
  by (auto simp: registry_wf_def deregister_def hm_simps split: if_splits)

lemma update_load_wf [keeps]: "registry_wf r \<Longrightarrow> registry_wf (update_load i l r)"
  by (auto simp: registry_wf_def update_load_def hm_simps split: if_splits)

lemma router_step_inv:
  assumes "router_inv r" "router_step r r'"
  shows "router_inv r'"
  using assms(2)
proof cases
  case (rs_note w toks now)
  then show ?thesis
    using assms(1) radix_insert_inv by (auto simp: note_prefill_def router_inv_def)
next
  case (rs_index i)
  then show ?thesis using assms(1) radix_step_inv by (auto simp: router_inv_def)
qed (use assms(1) in \<open>auto simp: router_inv_def intro: keeps\<close>)

lemma router_init_inv: "router_init r \<Longrightarrow> router_inv r"
  using radix_new_inv by (auto simp: router_init_def router_new_def registry_new_def router_inv_def registry_wf_def)

interpretation router_sys: invariant_system router_init router_step router_inv
  by unfold_locales (auto intro: router_init_inv router_step_inv)

subsection \<open>The live pool\<close>

lemma live_set:
  assumes "registry_wf r"
  shows "w \<in> set (live r ro now) \<longleftrightarrow> hm_get (registered r) (ws_id w) = Some w \<and> is_live r ro now w"
  using assms hm_values_get [of "registered r" w] by (auto simp: live_def registry_wf_def)

lemma registered_ids_distinct:
  assumes "registry_wf r"
  shows "distinct (map ws_id (hm_values (registered r)))"
proof -
  have "ws_id (snd x) = fst x" if "x \<in> set (registered r)" for x
    using assms that by (auto simp: registry_wf_def map_of_eq_Some_iff)
  then have "map ws_id (hm_values (registered r)) = hm_keys (registered r)" by simp
  moreover have "distinct (hm_keys (registered r))" using assms by (simp add: registry_wf_def)
  ultimately show ?thesis by (simp only:)
qed

lemma live_ids_ascend:
  assumes "registry_wf r"
  shows "sorted_wrt (\<lambda>v w. ws_id v < ws_id w) (live r ro now)"
proof -
  let ?f = "filter (is_live r ro now) (hm_values (registered r))"
  have d: "distinct (map ws_id ?f)" using registered_ids_distinct [OF assms] by (rule distinct_map_filter)
  have "distinct (map ws_id (live r ro now))"
  proof -
    have "mset (map ws_id (live r ro now)) = mset (map ws_id ?f)" by (simp add: live_def)
    then show ?thesis using d by (metis mset_eq_imp_distinct_iff)
  qed
  moreover have "sorted (map ws_id (live r ro now))" by (simp add: live_def)
  ultimately have "sorted_wrt (<) (map ws_id (live r ro now))" by (simp add: strict_sorted_iff)
  then show ?thesis by (simp add: sorted_wrt_map)
qed

subsection \<open>The fold over the prefill pool\<close>

text \<open>What the running best means after a prefix of the pool: it is one of the workers seen, no
  worker seen is cheaper by more than the tolerance, and those with a lower id all cost more.\<close>

definition best_of :: "router_tuning \<Rightarrow> (worker_id, nat) hmap \<Rightarrow> nat \<Rightarrow> worker_state list \<Rightarrow>
    real \<times> worker_id \<times> nat \<Rightarrow> bool" where
  "best_of t overlaps n seen b \<longleftrightarrow>
    (\<exists>w\<in>set seen. b = (prefill_cost t overlaps n w, ws_id w, prefix_hit overlaps n w)
      \<and> (\<forall>v\<in>set seen. prefill_cost t overlaps n w \<le> prefill_cost t overlaps n v + tie_ms)
      \<and> (\<forall>v\<in>set seen. ws_id v < ws_id w \<longrightarrow> prefill_cost t overlaps n w < prefill_cost t overlaps n v))"

lemma tie_ms_pos: "0 < tie_ms"
  by (simp add: tie_ms_def)

lemma consider_first: "consider_worker t ov n None w = Some (prefill_cost t ov n w, ws_id w, prefix_hit ov n w)"
  by (simp add: consider_worker_def)

lemma consider_next:
  assumes "best_of t ov n seen b" "\<forall>v\<in>set seen. ws_id v < ws_id w"
  shows "\<exists>b'. consider_worker t ov n (Some b) w = Some b' \<and> best_of t ov n (seen @ [w]) b'"
proof -
  let ?c = "prefill_cost t ov n"
  obtain x where x: "x \<in> set seen" "b = (?c x, ws_id x, prefix_hit ov n x)" "\<forall>v\<in>set seen. ?c x \<le> ?c v + tie_ms"
    "\<forall>v\<in>set seen. ws_id v < ws_id x \<longrightarrow> ?c x < ?c v" using assms(1) by (auto simp: best_of_def)
  have lt: "ws_id x < ws_id w" using assms(2) x(1) by blast
  show ?thesis
  proof (cases "?c w < ?c x - tie_ms")
    case True
    then have less: "?c w < ?c v" if "v \<in> set seen" for v using x(3) that by force
    have "best_of t ov n (seen @ [w]) (?c w, ws_id w, prefix_hit ov n w)"
      unfolding best_of_def using less tie_ms_pos by (intro bexI [of _ w]) (auto simp: less_imp_le add_increasing2)
    then show ?thesis using True x(2) by (simp add: consider_worker_def)
  next
    case False
    have "best_of t ov n (seen @ [w]) b"
      unfolding best_of_def using x False lt by (intro bexI [of _ x]) auto
    then show ?thesis using False x(2) lt by (simp add: consider_worker_def)
  qed
qed

lemma consider_fold:
  assumes "best_of t ov n seen b" "sorted_wrt (\<lambda>v w. ws_id v < ws_id w) (seen @ ws)"
  shows "\<exists>b'. foldl (consider_worker t ov n) (Some b) ws = Some b' \<and> best_of t ov n (seen @ ws) b'"
  using assms
proof (induction ws arbitrary: seen b)
  case Nil
  then show ?case by simp
next
  case (Cons w ws)
  have "\<forall>v\<in>set seen. ws_id v < ws_id w" using Cons.prems(2) by (simp add: sorted_wrt_append)
  then obtain b' where b': "consider_worker t ov n (Some b) w = Some b'" "best_of t ov n (seen @ [w]) b'"
    using consider_next [OF Cons.prems(1)] by blast
  show ?case using Cons.IH [OF b'(2)] Cons.prems(2) b'(1) by simp
qed

lemma consider_pool:
  assumes "ws \<noteq> []" "sorted_wrt (\<lambda>v w. ws_id v < ws_id w) ws"
  shows "\<exists>b. foldl (consider_worker t ov n) None ws = Some b \<and> best_of t ov n ws b"
proof -
  obtain w ws' where ws: "ws = w # ws'" using assms(1) by (cases ws) auto
  have "best_of t ov n [w] (prefill_cost t ov n w, ws_id w, prefix_hit ov n w)"
    using tie_ms_pos by (simp add: best_of_def)
  from consider_fold [OF this, of ws'] assms(2) show ?thesis by (simp add: ws consider_first)
qed

subsection \<open>Properties\<close>

text \<open>What a worker is expected to have of a prompt, and what the prompt would cost there: the
  specification \<open>route\<close> is checked against.\<close>

definition expected_hit :: "router \<Rightarrow> token_id list \<Rightarrow> worker_id \<Rightarrow> nat" where
  "expected_hit r toks i = (case match_worker (prefix_idx r) i toks of Some k \<Rightarrow> k | None \<Rightarrow> 0)"

definition expected_ttft :: "router \<Rightarrow> token_id list \<Rightarrow> worker_state \<Rightarrow> real" where
  "expected_ttft r toks w =
    (real (wl_queued_tokens (load w)) + real (length toks - expected_hit r toks (ws_id w))) / worker_rate (router_tuned r) w
    + kv_transfer_ms (router_tuned r)"

lemma prefix_hit_expected:
  assumes "match_workers (prefix_idx r) toks = Some ov" "radix_wf (nodes (prefix_idx r))"
  shows "prefix_hit ov (length toks) w = expected_hit r toks (ws_id w)"
proof -
  obtain k where "k \<le> length toks" "match_worker (prefix_idx r) (ws_id w) toks = Some k"
    using radix.score_has [OF assms(2)] by blast
  then show ?thesis
    using assms(1) by (auto simp: prefix_hit_def expected_hit_def match_worker_def)
qed

lemma prefill_cost_expected:
  assumes "match_workers (prefix_idx r) toks = Some ov" "radix_wf (nodes (prefix_idx r))"
  shows "prefill_cost (router_tuned r) ov (length toks) w = expected_ttft r toks w"
  using prefix_hit_expected [OF assms, of w] by (simp add: prefill_cost_def expected_ttft_def Let_def add_divide_distrib)

text \<open>Both pools being live, the whole of \<open>route\<close> in one place.\<close>

lemma route_live:
  assumes "router_inv r" "live (registry r) PrefillRole now \<noteq> []" "live (registry r) DecodeRole now \<noteq> []"
  shows "\<exists>d p q. route r toks now budget = Some (Inr d) \<and> p \<in> set (live (registry r) PrefillRole now)
    \<and> q \<in> set (live (registry r) DecodeRole now) \<and> rd_prefill d = ws_id p \<and> rd_decode d = ws_id q
    \<and> prefix_hit_tokens d = expected_hit r toks (ws_id p) \<and> predicted_ttft_ms d = expected_ttft r toks p
    \<and> predicted_late d = (expected_ttft r toks p > budget)
    \<and> (\<forall>v\<in>set (live (registry r) PrefillRole now). expected_ttft r toks p \<le> expected_ttft r toks v + tie_ms
        \<and> (ws_id v < ws_id p \<longrightarrow> expected_ttft r toks p < expected_ttft r toks v))
    \<and> (\<forall>v\<in>set (live (registry r) DecodeRole now). decode_key v \<le> decode_key q)"
proof -
  let ?P = "live (registry r) PrefillRole now" and ?D = "live (registry r) DecodeRole now"
  have wf: "registry_wf (registry r)" "radix_wf (nodes (prefix_idx r))"
    using assms(1) by (auto simp: router_inv_def radix_inv_def)
  obtain ov where ov: "match_workers (prefix_idx r) toks = Some ov" using match_workers_spec [OF wf(2)] by blast
  obtain b where b: "foldl (consider_worker (router_tuned r) ov (length toks)) None ?P = Some b"
    "best_of (router_tuned r) ov (length toks) ?P b"
    using consider_pool [OF assms(2) live_ids_ascend [OF wf(1)]] by blast
  then obtain p where p: "p \<in> set ?P" "b = (expected_ttft r toks p, ws_id p, expected_hit r toks (ws_id p))"
    "\<forall>v\<in>set ?P. expected_ttft r toks p \<le> expected_ttft r toks v + tie_ms"
    "\<forall>v\<in>set ?P. ws_id v < ws_id p \<longrightarrow> expected_ttft r toks p < expected_ttft r toks v"
    by (auto simp: best_of_def prefill_cost_expected [OF ov wf(2)] prefix_hit_expected [OF ov wf(2)])
  let ?q = "?D ! max_index_by decode_key ?D"
  have q: "?q \<in> set ?D" by (rule nth_mem [OF max_index_by_less [OF assms(3)]])
  have q_max: "\<forall>v\<in>set ?D. decode_key v \<le> decode_key ?q" by (intro ballI max_index_by_max)
  let ?d = "\<lparr>rd_prefill = ws_id p, rd_decode = ws_id ?q, prefix_hit_tokens = expected_hit r toks (ws_id p),
    predicted_ttft_ms = expected_ttft r toks p, predicted_late = expected_ttft r toks p > budget\<rparr>"
  have "route r toks now budget = Some (Inr ?d)" using assms(2,3) ov b(1) p(2) by (simp add: route_def Let_def)
  then show ?thesis using p q q_max by (intro exI [of _ ?d] exI [of _ p] exI [of _ ?q]) simp
qed

text \<open>C38. Routing is total and its errors are exact. On every router the fleet can reach, \<open>route\<close>
  fails with \<open>NoPrefillWorker\<close> precisely when no prefill worker is live, with \<open>NoDecodeWorker\<close>
  precisely when a prefill worker is live and no decode worker is, and otherwise it returns
  a decision; it never panics.\<close>

theorem route_errors_are_exact:
  assumes "router_init r0" "router_step\<^sup>*\<^sup>* r0 r"
  shows "(route r toks now budget = Some (Inl NoPrefillWorker) \<longleftrightarrow> live (registry r) PrefillRole now = [])
    \<and> (route r toks now budget = Some (Inl NoDecodeWorker) \<longleftrightarrow>
        live (registry r) PrefillRole now \<noteq> [] \<and> live (registry r) DecodeRole now = [])
    \<and> ((\<exists>d. route r toks now budget = Some (Inr d)) \<longleftrightarrow>
        live (registry r) PrefillRole now \<noteq> [] \<and> live (registry r) DecodeRole now \<noteq> [])"
proof -
  let ?P = "live (registry r) PrefillRole now" and ?D = "live (registry r) DecodeRole now"
  have inv: "router_inv r" using router_sys.reachable_inv [OF assms] .
  have cases3: "?P = [] \<Longrightarrow> route r toks now budget = Some (Inl NoPrefillWorker)"
    "?P \<noteq> [] \<Longrightarrow> ?D = [] \<Longrightarrow> route r toks now budget = Some (Inl NoDecodeWorker)"
    "?P \<noteq> [] \<Longrightarrow> ?D \<noteq> [] \<Longrightarrow> \<exists>d. route r toks now budget = Some (Inr d)"
    using route_live [OF inv, of now toks budget] by (simp add: route_def, simp add: route_def, blast)
  show ?thesis using cases3 by (cases "?P = []"; cases "?D = []") auto
qed

definition idle_load :: worker_load where
  "idle_load = \<lparr>wl_queued_tokens = 0, wl_queue_depth = 0, decode_concurrency = 0, decode_cap = 64,
    kv_utilisation = 0, wl_tokens_per_ms = 17, step_ms = 0, updated_ms = 0\<rparr>"

definition sample_worker :: "worker_id \<Rightarrow> worker_role \<Rightarrow> nat \<Rightarrow> worker_state" where
  "sample_worker i ro queued = \<lparr>ws_id = i, role = ro, endpoint = ''http'', tensor_parallel = 2, healthy = True,
    load = idle_load\<lparr>wl_queued_tokens := queued\<rparr>\<rparr>"

definition sample_router :: router where
  "sample_router = router_new (registry_new 5000) default_router_tuning"

definition sample_fleet :: router where
  "sample_fleet =
    (let r1 = sample_router\<lparr>registry := register (sample_worker 1 PrefillRole 40000) (registry sample_router)\<rparr>;
         r2 = r1\<lparr>registry := register (sample_worker 2 PrefillRole 0) (registry r1)\<rparr>
     in r2\<lparr>registry := register (sample_worker 100 DecodeRole 0) (registry r2)\<rparr>)"

lemma sample_init: "router_init sample_router"
  by (auto simp: router_init_def sample_router_def)

lemma sample_fleet_reached: "router_step\<^sup>*\<^sup>* sample_router sample_fleet"
proof -
  have next_worker: "router_step\<^sup>*\<^sup>* r0 (r\<lparr>registry := register w (registry r)\<rparr>)" if h: "router_step\<^sup>*\<^sup>* r0 r" for r0 r w
    using h rs_register by (rule rtranclp.rtrancl_into_rtrancl)
  show ?thesis unfolding sample_fleet_def Let_def by (intro next_worker rtranclp.rtrancl_refl)
qed

lemma sample_pools:
  "live (registry sample_fleet) PrefillRole 0 = [sample_worker 1 PrefillRole 40000, sample_worker 2 PrefillRole 0]"
  "live (registry sample_fleet) DecodeRole 0 = [sample_worker 100 DecodeRole 0]"
  by (simp_all add: sample_fleet_def sample_router_def router_new_def registry_new_def register_def live_def is_live_def
    sample_worker_def idle_load_def)

theorem route_errors_are_exact_witness:
  "route sample_router [1, 2] 0 3000 = Some (Inl NoPrefillWorker) \<and> (\<exists>d. route sample_fleet [1, 2] 0 3000 = Some (Inr d))"
proof -
  have "live (registry sample_router) PrefillRole 0 = []"
    by (simp add: sample_router_def router_new_def registry_new_def live_def)
  then show ?thesis
    using route_errors_are_exact [OF sample_init rtranclp.rtrancl_refl]
      route_errors_are_exact [OF sample_init sample_fleet_reached] by (simp add: sample_pools)
qed

text \<open>C6. Routing sends a prompt where it is served soonest. On every reachable router with both
  pools live, the prefill worker of the decision is live and registered, and the predicted
  time to first token is its queue plus the part of the prompt it does not already know (by
  the longest matching prefix), over its rate, plus the transfer; no live prefill worker is
  sooner by more than the tolerance of 1e-9 ms, and every one with a lower id is strictly later. The
  decode worker has the most headroom, ties going to the least full cache and then to the
  lowest id. The decision is flagged late exactly when the prediction exceeds the budget.\<close>

theorem route_picks_the_fastest:
  assumes "router_init r0" "router_step\<^sup>*\<^sup>* r0 r"
    "live (registry r) PrefillRole now \<noteq> []" "live (registry r) DecodeRole now \<noteq> []"
  shows "\<exists>d p q. route r toks now budget = Some (Inr d)
    \<and> hm_get (registered (registry r)) (rd_prefill d) = Some p \<and> is_live (registry r) PrefillRole now p
    \<and> hm_get (registered (registry r)) (rd_decode d) = Some q \<and> is_live (registry r) DecodeRole now q
    \<and> prefix_hit_tokens d = expected_hit r toks (rd_prefill d) \<and> predicted_ttft_ms d = expected_ttft r toks p
    \<and> (predicted_late d \<longleftrightarrow> expected_ttft r toks p > budget)
    \<and> (\<forall>i v. hm_get (registered (registry r)) i = Some v \<longrightarrow> is_live (registry r) PrefillRole now v \<longrightarrow>
        expected_ttft r toks p \<le> expected_ttft r toks v + tie_ms
        \<and> (i < rd_prefill d \<longrightarrow> expected_ttft r toks p < expected_ttft r toks v))
    \<and> (\<forall>i v. hm_get (registered (registry r)) i = Some v \<longrightarrow> is_live (registry r) DecodeRole now v \<longrightarrow>
        decode_key v \<le> decode_key q)"
proof -
  have inv: "router_inv r" using router_sys.reachable_inv [OF assms(1,2)] .
  then have wf: "registry_wf (registry r)" by (simp add: router_inv_def)
  have id: "ws_id v = i" if "hm_get (registered (registry r)) i = Some v" for i v
    using wf that by (simp add: registry_wf_def)
  have mem: "v \<in> set (live (registry r) ro now)"
    if "hm_get (registered (registry r)) i = Some v" "is_live (registry r) ro now v" for i v ro
    using live_set [OF wf] that id [OF that(1)] by simp
  obtain d p q where d: "route r toks now budget = Some (Inr d)"
    "p \<in> set (live (registry r) PrefillRole now)" "q \<in> set (live (registry r) DecodeRole now)"
    "rd_prefill d = ws_id p" "rd_decode d = ws_id q" "prefix_hit_tokens d = expected_hit r toks (ws_id p)"
    "predicted_ttft_ms d = expected_ttft r toks p" "predicted_late d = (expected_ttft r toks p > budget)"
    and best: "\<forall>v\<in>set (live (registry r) PrefillRole now). expected_ttft r toks p \<le> expected_ttft r toks v + tie_ms
        \<and> (ws_id v < ws_id p \<longrightarrow> expected_ttft r toks p < expected_ttft r toks v)"
    and roomy: "\<forall>v\<in>set (live (registry r) DecodeRole now). decode_key v \<le> decode_key q"
    using route_live [OF inv assms(3,4), of toks budget] by blast
  have "\<forall>i v. hm_get (registered (registry r)) i = Some v \<longrightarrow> is_live (registry r) PrefillRole now v \<longrightarrow>
      expected_ttft r toks p \<le> expected_ttft r toks v + tie_ms
      \<and> (i < rd_prefill d \<longrightarrow> expected_ttft r toks p < expected_ttft r toks v)"
    using best mem id d(4) by metis
  moreover have "\<forall>i v. hm_get (registered (registry r)) i = Some v \<longrightarrow> is_live (registry r) DecodeRole now v \<longrightarrow>
      decode_key v \<le> decode_key q" using roomy mem by blast
  ultimately show ?thesis using d live_set [OF wf] by (intro exI [of _ d] exI [of _ p] exI [of _ q]) simp
qed

theorem route_picks_the_fastest_witness:
  "\<exists>d p. route sample_fleet [1, 2] 0 3000 = Some (Inr d) \<and> hm_get (registered (registry sample_fleet)) (rd_prefill d) = Some p"
  using route_picks_the_fastest [OF sample_init sample_fleet_reached, of 0 "[1, 2]" 3000] by (auto simp: sample_pools)

end
