(* ===== verification/Capacity.thy ===== *)
theory Capacity
  imports Scoring Float64
begin

text \<open>
  \<open>crates/core/src/capacity.rs\<close>: the calibrated capacity model that ranks prefill/decode splits.

  The rates of a split, and all that the planner computes from them, are \<open>f64\<close> values: their divisors (the prompt length, the
  output length, the bandwidth, the cost of a degree) are not guarded in the code, so a rate may be infinite or not a number.
  \<open>f64::clamp\<close> panics when its bounds are crossed, and the \<open>expect\<close> in \<open>evaluate\<close> panics when a rate is not a number: both are
  \<open>None\<close>. GPU counts are \<open>u32\<close>: the loop of \<open>search\<close> and \<open>graph_batch_for\<close> wrap as a release build does, and
  a loop that a wrap keeps from ending has no result, which is \<open>None\<close> too. Calibrations and configured quantities are finite reals.
\<close>

subsection \<open>Prefill calibration\<close>

record prefill_calibration =
  tok_s_per_gpu :: real
  tp_ref :: nat
  tp_allreduce_frac :: real
  duty_cycle :: real
  active_params_b :: real
  peak_tflops_per_gpu :: real

definition default_prefill_calibration :: prefill_calibration where
  "default_prefill_calibration = \<lparr>tok_s_per_gpu = 7796, tp_ref = 4, tp_allreduce_frac = 25 / 100,
     duty_cycle = 91 / 100, active_params_b = 22, peak_tflops_per_gpu = 1979\<rparr>"

record mfu_breakdown =
  overall :: real
  compute_time_frac :: real
  compute_mfu :: real
  duty_cycle_worth :: ext
  allreduce_worth :: real

definition compute_mfu_worth :: "mfu_breakdown \<Rightarrow> real \<Rightarrow> ext" where
  "compute_mfu_worth b target = (if compute_mfu b \<le> 0 then Infinite else Fin (target / compute_mfu b))"

definition largest_lever :: "mfu_breakdown \<Rightarrow> real \<Rightarrow> string \<times> ext" where
  "largest_lever b compute_target =
    foldl (\<lambda>best c. if snd c > snd best then c else best) ('''', Fin 0)
      [(''duty cycle'', duty_cycle_worth b), (''TP all-reduce'', Fin (allreduce_worth b)),
       (''compute MFU'', compute_mfu_worth b compute_target)]"

definition achieved_tflops_per_gpu :: "prefill_calibration \<Rightarrow> real" where
  "achieved_tflops_per_gpu p = tok_s_per_gpu p * 2 * active_params_b p * 10 ^ 9 / 10 ^ 12"

definition mfu :: "prefill_calibration \<Rightarrow> real" where
  "mfu p = (if peak_tflops_per_gpu p \<le> 0 then 0 else achieved_tflops_per_gpu p / peak_tflops_per_gpu p)"

definition mfu_breakdown_of :: "prefill_calibration \<Rightarrow> mfu_breakdown" where
  "mfu_breakdown_of p =
    (let frac = duty_cycle p * (1 - tp_allreduce_frac p)
     in \<lparr>overall = mfu p, compute_time_frac = frac, compute_mfu = (if frac > 0 then mfu p / frac else 0),
         duty_cycle_worth = (if duty_cycle p > 0 then Fin (1 / duty_cycle p) else Infinite),
         allreduce_worth = 1 / max (1 - tp_allreduce_frac p) (1 / 10 ^ 9)\<rparr>)"

definition ring_factor :: "nat \<Rightarrow> real" where
  "ring_factor tp = (if tp \<le> 1 then 0 else real (tp - 1) / real tp)"

definition tok_s_per_gpu_at_tp :: "prefill_calibration \<Rightarrow> nat \<Rightarrow> real" where
  "tok_s_per_gpu_at_tp p tp =
    (let ref_ratio = ring_factor (tp_ref p)
     in if ref_ratio \<le> 0 then tok_s_per_gpu p
        else let compute = 1 - tp_allreduce_frac p; unit = tp_allreduce_frac p / ref_ratio
             in tok_s_per_gpu p / (compute + unit * ring_factor tp))"

text \<open>The same quotient for any calibration: the cost of a degree may be zero.\<close>

definition tok_rate_at_tp :: "prefill_calibration \<Rightarrow> nat \<Rightarrow> f64" where
  "tok_rate_at_tp p tp =
    (let ref_ratio = ring_factor (tp_ref p)
     in if ref_ratio \<le> 0 then Num (tok_s_per_gpu p)
        else let compute = 1 - tp_allreduce_frac p; unit = tp_allreduce_frac p / ref_ratio
             in f_div (Num (tok_s_per_gpu p)) (Num (compute + unit * ring_factor tp)))"

definition prefill_req_per_s :: "prefill_calibration \<Rightarrow> nat \<Rightarrow> nat \<Rightarrow> nat \<Rightarrow> f64" where
  "prefill_req_per_s p gpus tp len = f_div (f_mul (Num (real gpus)) (tok_rate_at_tp p tp)) (Num (real len))"

subsection \<open>Decode calibration\<close>

datatype role = RolePrefill | RoleDecode

record speculation =
  draft_tokens :: nat
  itl_ratio :: real

definition eagle3_topk1 :: speculation where
  "eagle3_topk1 = \<lparr>draft_tokens = 1, itl_ratio = (1108 / 100) / (1918 / 100)\<rparr>"

definition graph_batch_for :: "speculation \<Rightarrow> nat \<Rightarrow> nat" where
  "graph_batch_for s c = c * ((1 + draft_tokens s) mod 2 ^ 32) mod 2 ^ 32"

record decode_calibration =
  concurrency_per_gpu :: real
  itl_ms_at_ref :: real
  itl_slope_ms :: real
  max_extrapolation :: real
  speculating :: "speculation option"

definition default_decode_calibration :: decode_calibration where
  "default_decode_calibration = \<lparr>concurrency_per_gpu = 53 / 8, itl_ms_at_ref = 1723 / 100,
     itl_slope_ms = 106 / 100, max_extrapolation = 1, speculating = None\<rparr>"

definition spec_ratio :: "decode_calibration \<Rightarrow> real" where
  "spec_ratio c = (case speculating c of None \<Rightarrow> 1 | Some s \<Rightarrow> itl_ratio s)"

definition itl_ms_baseline :: "decode_calibration \<Rightarrow> real \<Rightarrow> nat \<Rightarrow> real" where
  "itl_ms_baseline c conc gpus =
    (let per_gpu = conc / real (max gpus 1)
     in itl_ms_at_ref c + itl_slope_ms c * (per_gpu - concurrency_per_gpu c))"

definition itl_ms :: "decode_calibration \<Rightarrow> real \<Rightarrow> nat \<Rightarrow> real" where
  "itl_ms c conc gpus = itl_ms_baseline c conc gpus * spec_ratio c"

definition max_concurrency_for_slo :: "decode_calibration \<Rightarrow> nat \<Rightarrow> slo \<Rightarrow> real \<Rightarrow> f64 option" where
  "max_concurrency_for_slo c gpus s safety =
    (let budget = slo_itl_ms s * safety
     in if itl_slope_ms c \<le> 0 then Some (f_mul (Num (concurrency_per_gpu c)) (Num (real gpus)))
        else let ceil = concurrency_per_gpu c * max (max_extrapolation c) 1;
                 budget' = f_div (Num budget) (Num (spec_ratio c));
                 per_gpu = f_add (Num (concurrency_per_gpu c))
                   (f_div (f_add budget' (Num (- itl_ms_at_ref c))) (Num (itl_slope_ms c)))
             in map_option (\<lambda>x. f_mul x (Num (real gpus))) (f_clamp per_gpu 1 ceil))"

text \<open>The latency at a concurrency that is not a number is not a number, and \<open>min\<close> then returns the budget.\<close>

definition decode_req_rate :: "decode_calibration \<Rightarrow> nat \<Rightarrow> nat \<Rightarrow> slo \<Rightarrow> real \<Rightarrow> f64 option" where
  "decode_req_rate c gpus osl s safety =
    map_option (\<lambda>conc.
        let itl = (if conc = NaN then slo_itl_ms s else min (itl_ms c (f_val conc) gpus) (slo_itl_ms s))
        in f_div conc (f_div (f_mul (Num (real osl)) (Num itl)) (Num 1000)))
      (max_concurrency_for_slo c gpus s safety)"

subsection \<open>The model\<close>

datatype bottleneck = PrefillBound | DecodeBound | KvTransfer

record pd_split =
  prefill_gpus :: nat
  decode_gpus :: nat
  prefill_tp :: nat
  decode_tp :: nat
  prefill_workers :: nat
  prefill_req_s :: f64
  decode_req_s :: f64
  pd_transfer_req_s :: f64
  sustainable_req_s :: f64
  pd_goodput_req_s :: f64
  pd_bottleneck :: bottleneck
  headroom_ratio :: f64

record capacity_model =
  cm_isl :: nat
  cm_osl :: nat
  cm_slo :: slo
  cm_prefill :: prefill_calibration
  cm_decode :: decode_calibration
  cm_good_frac :: real
  itl_safety :: real
  kv_bytes_per_token :: real
  kv_xfer_gib_s :: real
  xfer_concurrency :: nat
  weights_gib :: real
  gpu_gib :: real
  kv_dtype_bytes :: real
  kv_heads :: nat
  max_num_tokens :: nat
  activation_gib :: real
  decode_resident_tokens :: nat

definition default_capacity_model :: capacity_model where
  "default_capacity_model = \<lparr>cm_isl = 4000, cm_osl = 200, cm_slo = default_slo,
     cm_prefill = default_prefill_calibration, cm_decode = default_decode_calibration, cm_good_frac = 93 / 100,
     itl_safety = 1, kv_bytes_per_token = 2 * 94 * 4 * 128, kv_xfer_gib_s = 21 / 10, xfer_concurrency = 16,
     weights_gib = 2202 / 10, gpu_gib = 131, kv_dtype_bytes = 1, kv_heads = 4, max_num_tokens = 16384,
     activation_gib = 12, decode_resident_tokens = 128 * 4608\<rparr>"

definition GIB :: real where
  "GIB = 1024 * 1024 * 1024"

definition clamp_nat :: "nat \<Rightarrow> nat \<Rightarrow> nat \<Rightarrow> nat" where
  "clamp_nat x lo hi = (if x < lo then lo else if x > hi then hi else x)"

definition kv_bytes_per_token_per_rank :: "capacity_model \<Rightarrow> nat \<Rightarrow> real" where
  "kv_bytes_per_token_per_rank m tp =
    kv_bytes_per_token m * kv_dtype_bytes m / real (clamp_nat tp 1 (max (kv_heads m) 1))"

definition needed_gib_per_rank :: "capacity_model \<Rightarrow> nat \<Rightarrow> role \<Rightarrow> real" where
  "needed_gib_per_rank m tp ro =
    (let tokens = (case ro of RolePrefill \<Rightarrow> real (max_num_tokens m) | RoleDecode \<Rightarrow> real (decode_resident_tokens m))
     in activation_gib m + kv_bytes_per_token_per_rank m tp * tokens / GIB)"

definition free_gib_per_rank :: "capacity_model \<Rightarrow> nat \<Rightarrow> real" where
  "free_gib_per_rank m tp = gpu_gib m - weights_gib m / real (max tp 1)"

definition fits :: "capacity_model \<Rightarrow> nat \<Rightarrow> role \<Rightarrow> bool" where
  "fits m tp ro \<longleftrightarrow> free_gib_per_rank m tp \<ge> needed_gib_per_rank m tp ro"

definition fits_in_memory :: "capacity_model \<Rightarrow> nat \<Rightarrow> bool" where
  "fits_in_memory m tp = fits m tp RolePrefill"

definition transfer_ms :: "capacity_model \<Rightarrow> f64" where
  "transfer_ms m =
    (let bytes = f_mul (Num (kv_bytes_per_token m)) (Num (real (cm_isl m)))
     in f_mul (f_div bytes (Num (kv_xfer_gib_s m * 1024 * 1024 * 1024))) (Num 1000))"

definition transfer_req_s :: "capacity_model \<Rightarrow> nat \<Rightarrow> f64" where
  "transfer_req_s m decode_workers =
    (if f_le (transfer_ms m) (Num 0) \<or> decode_workers = 0 then PosInf
     else f_div (Num (real decode_workers * real (max (xfer_concurrency m) 1) * 1000)) (transfer_ms m))"

definition checked_div_or_zero :: "nat \<Rightarrow> nat \<Rightarrow> nat" where
  "checked_div_or_zero a b = (if b = 0 then 0 else a div b)"

text \<open>The stable sort of the three named rates by \<open>partial_cmp\<close>, none of them \<open>NaN\<close>. Sorting three elements compares each of
  them with another, so one that is not a number is always found.\<close>

definition ranked_rates :: "f64 \<Rightarrow> f64 \<Rightarrow> f64 \<Rightarrow> (bottleneck \<times> f64) list" where
  "ranked_rates p d t = sort_key (\<lambda>r. f_plain (snd r)) [(PrefillBound, p), (DecodeBound, d), (KvTransfer, t)]"

definition evaluate :: "capacity_model \<Rightarrow> nat \<Rightarrow> nat \<Rightarrow> nat \<Rightarrow> nat \<Rightarrow> pd_split option" where
  "evaluate m pg dg ptp dtp =
    (let workers = checked_div_or_zero pg ptp;
         p = prefill_req_per_s (cm_prefill m) (workers * ptp) ptp (cm_isl m)
     in case decode_req_rate (cm_decode m) dg (cm_osl m) (cm_slo m) (itl_safety m) of None \<Rightarrow> None
     | Some d \<Rightarrow>
        let t = transfer_req_s m (checked_div_or_zero dg dtp)
        in if p = NaN \<or> d = NaN \<or> t = NaN then None
        else let rates = ranked_rates p d t; (who, sustainable) = rates ! 0
        in Some \<lparr>prefill_gpus = pg, decode_gpus = dg, prefill_tp = ptp, decode_tp = dtp, prefill_workers = workers,
             prefill_req_s = p, decode_req_s = d, pd_transfer_req_s = t, sustainable_req_s = sustainable,
             pd_goodput_req_s = f_mul sustainable (Num (cm_good_frac m)), pd_bottleneck = who,
             headroom_ratio = (if f_lt (Num 0) sustainable then f_div (snd (rates ! 1)) sustainable else PosInf)\<rparr>)"

subsection \<open>Search\<close>

text \<open>The inner \<open>while\<close> over the prefill side of the split, in \<open>u32\<close>. No result: it panics or never ends.\<close>

partial_function (option) search_from :: "capacity_model \<Rightarrow> nat \<Rightarrow> nat \<Rightarrow> nat \<Rightarrow> nat \<Rightarrow> pd_split list option" where
  "search_from m total_gpus ptp dtp p =
    (if \<not> (p + dtp) mod 2 ^ 32 \<le> total_gpus then Some []
     else let d = (total_gpus + 2 ^ 32 - p) mod 2 ^ 32
     in if d mod dtp = 0 \<and> p mod ptp = 0
     then Option.bind (evaluate m p d ptp dtp)
            (\<lambda>s. Option.bind (search_from m total_gpus ptp dtp ((p + ptp) mod 2 ^ 32)) (\<lambda>r. Some (s # r)))
     else search_from m total_gpus ptp dtp ((p + ptp) mod 2 ^ 32))"

definition search_pair :: "capacity_model \<Rightarrow> nat \<Rightarrow> nat \<times> nat \<Rightarrow> pd_split list option" where
  "search_pair m total_gpus pr = (case pr of (ptp, dtp) \<Rightarrow>
    if ptp = 0 \<or> dtp = 0 then Some []
    else if \<not> fits m ptp RolePrefill \<or> \<not> fits m dtp RoleDecode then Some []
    else search_from m total_gpus ptp dtp ptp)"

fun search_pairs :: "capacity_model \<Rightarrow> nat \<Rightarrow> (nat \<times> nat) list \<Rightarrow> pd_split list option" where
  "search_pairs m total_gpus [] = Some []"
| "search_pairs m total_gpus (pr # prs) =
     (case search_pair m total_gpus pr of None \<Rightarrow> None
      | Some xs \<Rightarrow> map_option (\<lambda>ys. xs @ ys) (search_pairs m total_gpus prs))"

text \<open>\<open>sort_by\<close> by \<open>total_cmp\<close> with the arguments of the comparison swapped: descending, and stable. The order is
  stated as a predicate on neighbours; an insertion sort realises it.\<close>

definition rank_before :: "pd_split \<Rightarrow> pd_split \<Rightarrow> bool" where
  "rank_before a b \<longleftrightarrow> pd_goodput_req_s b < pd_goodput_req_s a
     \<or> (pd_goodput_req_s a = pd_goodput_req_s b \<and> f_add (prefill_req_s b) (decode_req_s b) \<le> f_add (prefill_req_s a) (decode_req_s a))"

fun insert_ranked :: "pd_split \<Rightarrow> pd_split list \<Rightarrow> pd_split list" where
  "insert_ranked x [] = [x]"
| "insert_ranked x (y # ys) = (if rank_before x y then x # y # ys else y # insert_ranked x ys)"

definition sort_ranked :: "pd_split list \<Rightarrow> pd_split list" where
  "sort_ranked xs = foldr insert_ranked xs []"

definition topology :: "pd_split \<Rightarrow> nat \<times> nat \<times> nat \<times> nat" where
  "topology s = (prefill_gpus s, decode_gpus s, prefill_tp s, decode_tp s)"

fun dedup_topology :: "pd_split list \<Rightarrow> pd_split list" where
  "dedup_topology (x # y # ys) =
     (if topology y = topology x then dedup_topology (x # ys) else x # dedup_topology (y # ys))"
| "dedup_topology xs = xs"

definition search :: "capacity_model \<Rightarrow> nat \<Rightarrow> nat list \<Rightarrow> nat list \<Rightarrow> pd_split list option" where
  "search m total_gpus prefill_tps decode_tps =
    map_option (\<lambda>out. dedup_topology (sort_ranked out))
      (search_pairs m total_gpus (List.product prefill_tps decode_tps))"

subsection \<open>The binding resource\<close>

definition rate_of :: "pd_split \<Rightarrow> bottleneck \<Rightarrow> f64" where
  "rate_of s b = (case b of PrefillBound \<Rightarrow> prefill_req_s s | DecodeBound \<Rightarrow> decode_req_s s | KvTransfer \<Rightarrow> pd_transfer_req_s s)"

lemma ranked_rates_cases:
  fixes p d t :: f64
  defines "f \<equiv> \<lambda>b. case b of PrefillBound \<Rightarrow> p | DecodeBound \<Rightarrow> d | KvTransfer \<Rightarrow> t"
  obtains a b c where "ranked_rates p d t = [(a, f a), (b, f b), (c, f c)]" "f_plain (f a) \<le> f_plain (f b)" "f_plain (f b) \<le> f_plain (f c)"
    "{a, b, c} = UNIV" "a \<noteq> b" "a \<noteq> c" "b \<noteq> c"
proof -
  have univ: "UNIV = {PrefillBound, DecodeBound, KvTransfer}" by (auto intro: bottleneck.exhaust)
  show thesis
    using that unfolding ranked_rates_def f_def univ
    by (cases "f_plain p \<le> f_plain d"; cases "f_plain p \<le> f_plain t"; cases "f_plain d \<le> f_plain t") (auto simp: insert_commute)
qed

lemma evaluate_fields:
  assumes "evaluate m pg dg ptp dtp = Some s"
  shows "topology s = (pg, dg, ptp, dtp)" "sustainable_req_s s = snd (ranked_rates (prefill_req_s s) (decode_req_s s) (pd_transfer_req_s s) ! 0)"
    "pd_bottleneck s = fst (ranked_rates (prefill_req_s s) (decode_req_s s) (pd_transfer_req_s s) ! 0)"
    "pd_goodput_req_s s = f_mul (sustainable_req_s s) (Num (cm_good_frac m))"
    "headroom_ratio s = (if f_lt (Num 0) (sustainable_req_s s)
       then f_div (snd (ranked_rates (prefill_req_s s) (decode_req_s s) (pd_transfer_req_s s) ! 1)) (sustainable_req_s s) else PosInf)"
    "rate_of s b \<noteq> NaN"
  using assms unfolding evaluate_def Let_def by (auto simp: topology_def rate_of_def split: option.splits prod.splits bottleneck.splits if_splits)

lemma f_div_mul_cancel: "0 < x \<Longrightarrow> f_le (Num x) r \<Longrightarrow> f_mul (f_div r (Num x)) (Num x) = r"
  by (cases r) (auto simp: f_mul_def f_div_def Let_def signed_inf_def signed_zero_def f_le_def less_eq_f64_def split: if_splits)

text \<open>The model names what to attack. Whenever a split is evaluated, no rate is \<open>NaN\<close>, its sustainable rate is
  the least of the prefill, decode and handoff rates, the bottleneck it names is a resource with that rate, goodput is
  that rate times the good fraction, and, when the rate is positive and finite, \<open>headroom_ratio\<close> is exact: the least rate of the
  other two resources is the sustainable rate times the ratio.\<close>

theorem evaluate_names_the_bottleneck:
  assumes "evaluate m pg dg ptp dtp = Some s"
  shows "rate_of s (pd_bottleneck s) = sustainable_req_s s \<and> (\<forall>b. f_le (sustainable_req_s s) (rate_of s b))
    \<and> pd_goodput_req_s s = f_mul (sustainable_req_s s) (Num (cm_good_frac m))
    \<and> (\<forall>x. sustainable_req_s s = Num x \<and> 0 < x \<longrightarrow>
          (\<exists>b. b \<noteq> pd_bottleneck s \<and> rate_of s b = f_mul (headroom_ratio s) (Num x))
        \<and> (\<forall>b. b \<noteq> pd_bottleneck s \<longrightarrow> f_le (f_mul (headroom_ratio s) (Num x)) (rate_of s b)))"
proof -
  obtain a b c where r: "ranked_rates (prefill_req_s s) (decode_req_s s) (pd_transfer_req_s s)
      = [(a, rate_of s a), (b, rate_of s b), (c, rate_of s c)]" "f_plain (rate_of s a) \<le> f_plain (rate_of s b)"
      "f_plain (rate_of s b) \<le> f_plain (rate_of s c)" "{a, b, c} = UNIV" "a \<noteq> b" "a \<noteq> c" "b \<noteq> c"
    unfolding rate_of_def by (rule ranked_rates_cases)
  note f = evaluate_fields(2-5) [OF assms, unfolded r(1)] and nn = evaluate_fields(6) [OF assms]
  have le: "f_le (rate_of s a) (rate_of s b)" "f_le (rate_of s b) (rate_of s c)" using r(2,3) nn by (simp_all add: f_le_def)
  have cases: "e = a \<or> e = b \<or> e = c" for e using r(4) by (metis UNIV_I insertE singletonD)
  have refl: "f_le (rate_of s e) (rate_of s e)" for e using nn by (simp add: f_le_def)
  have all: "f_le (rate_of s a) (rate_of s e)" for e using cases [of e] le refl f_le_trans by blast
  have rest: "f_le (rate_of s b) (rate_of s e)" if "e \<noteq> a" for e using cases [of e] that le refl by blast
  have h: "f_mul (headroom_ratio s) (Num x) = rate_of s b" if "sustainable_req_s s = Num x" "0 < x" for x
  proof -
    have x: "rate_of s a = Num x" using f that(1) by simp
    then show ?thesis using f that le(1) f_div_mul_cancel [of x "rate_of s b"] by simp
  qed
  have a: "a = pd_bottleneck s" "sustainable_req_s s = rate_of s a" using f by simp_all
  show ?thesis using f(3) h all rest r(5) a by (auto intro!: exI [of _ b])
qed

subsection \<open>When planning is defined\<close>

text \<open>The calibrations and workloads with which no rate is \<open>NaN\<close> and no \<open>clamp\<close> is crossed: prompts have tokens, the bandwidth is not
  zero, the all-reduce does not take the whole step, and the reference concurrency allows a sequence.\<close>

definition plannable :: "capacity_model \<Rightarrow> bool" where
  "plannable m \<longleftrightarrow> 0 < cm_isl m \<and> kv_xfer_gib_s m \<noteq> 0
     \<and> 0 \<le> tp_allreduce_frac (cm_prefill m) \<and> tp_allreduce_frac (cm_prefill m) < 1
     \<and> (let c = cm_decode m
        in if itl_slope_ms c \<le> 0 then 0 < concurrency_per_gpu c
           else 1 \<le> concurrency_per_gpu c * max (max_extrapolation c) 1 \<and> spec_ratio c \<noteq> 0)"

lemma f_fin_mul: "\<not> f_inf a \<Longrightarrow> a \<noteq> NaN \<Longrightarrow> \<not> f_inf b \<Longrightarrow> b \<noteq> NaN \<Longrightarrow> \<not> f_inf (f_mul a b) \<and> f_mul a b \<noteq> NaN"
  by (simp add: f_mul_def Let_def signed_zero_def)

lemma f_fin_div: "\<not> f_inf a \<Longrightarrow> a \<noteq> NaN \<Longrightarrow> b \<noteq> 0 \<Longrightarrow> \<not> f_inf (f_div a (Num b)) \<and> f_div a (Num b) \<noteq> NaN"
  by (simp add: f_div_def Let_def signed_zero_def)

lemma degree_cost_positive:
  assumes "0 \<le> tp_allreduce_frac p" "tp_allreduce_frac p < 1"
  shows "0 < 1 - tp_allreduce_frac p + tp_allreduce_frac p / ring_factor (tp_ref p) * ring_factor tp"
proof -
  have "0 \<le> ring_factor n" for n by (simp add: ring_factor_def)
  then show ?thesis using assms by (intro add_pos_nonneg mult_nonneg_nonneg divide_nonneg_nonneg) simp_all
qed

lemma tok_rate_finite:
  assumes "0 \<le> tp_allreduce_frac p" "tp_allreduce_frac p < 1"
  shows "\<not> f_inf (tok_rate_at_tp p tp) \<and> tok_rate_at_tp p tp \<noteq> NaN"
proof -
  have "1 - tp_allreduce_frac p + tp_allreduce_frac p / ring_factor (tp_ref p) * ring_factor tp \<noteq> 0"
    using degree_cost_positive [OF assms, of tp] by linarith
  then show ?thesis using f_fin_div by (simp add: tok_rate_at_tp_def Let_def)
qed

lemma tok_rate_is_the_rate:
  assumes "0 < tok_s_per_gpu p" "0 \<le> tp_allreduce_frac p" "tp_allreduce_frac p < 1"
  shows "tok_rate_at_tp p tp = Num (tok_s_per_gpu_at_tp p tp)"
  using degree_cost_positive [OF assms(2,3), of tp] assms(1)
  by (simp add: tok_rate_at_tp_def tok_s_per_gpu_at_tp_def Let_def f64_eval)

lemma prefill_rate_defined:
  assumes "plannable m"
  shows "prefill_req_per_s (cm_prefill m) gpus tp (cm_isl m) \<noteq> NaN"
  using assms tok_rate_finite [of "cm_prefill m" tp] f_fin_mul [of "Num (real gpus)" "tok_rate_at_tp (cm_prefill m) tp"]
    f_fin_div [of "f_mul (Num (real gpus)) (tok_rate_at_tp (cm_prefill m) tp)" "real (cm_isl m)"]
  by (simp add: prefill_req_per_s_def plannable_def)

lemma transfer_rate_defined:
  assumes "plannable m"
  shows "transfer_req_s m n \<noteq> NaN"
proof -
  have "kv_xfer_gib_s m * 1024 * 1024 * 1024 \<noteq> 0" using assms by (simp add: plannable_def)
  then have fin: "transfer_ms m \<noteq> NaN" "\<not> f_inf (transfer_ms m)"
    unfolding transfer_ms_def Let_def by (intro f_fin_mul [THEN conjunct1] f_fin_mul [THEN conjunct2] f_fin_div [THEN conjunct1]
      f_fin_div [THEN conjunct2] f_inf.simps f64.distinct; simp)+
  then show ?thesis by (cases "transfer_ms m") (auto simp: transfer_req_s_def f_div_nan_iff f_le_def)
qed

lemma concurrency_planned:
  assumes "plannable m" "0 < gpus"
  shows "\<exists>x > 0. max_concurrency_for_slo (cm_decode m) gpus s safety = Some (Num x)"
proof (cases "itl_slope_ms (cm_decode m) \<le> 0")
  case True
  then show ?thesis using assms by (simp add: plannable_def max_concurrency_for_slo_def Let_def f64_eval)
next
  case False
  let ?c = "cm_decode m"
  define hi where "hi = concurrency_per_gpu ?c * max (max_extrapolation ?c) 1"
  define q where "q = f_add (Num (concurrency_per_gpu ?c))
    (f_div (f_add (f_div (Num (slo_itl_ms s * safety)) (Num (spec_ratio ?c))) (Num (- itl_ms_at_ref ?c))) (Num (itl_slope_ms ?c)))"
  have hi: "1 \<le> hi" "spec_ratio ?c \<noteq> 0" using assms(1) False by (simp_all add: plannable_def hi_def Let_def)
  have add: "\<exists>y. f_add a (Num z) = Num y" "\<exists>y. f_add (Num z) a = Num y" if "\<not> f_inf a" "a \<noteq> NaN" for a z
    using that by (simp_all add: f_add_def)
  have "\<exists>y. f_add (f_div (Num (slo_itl_ms s * safety)) (Num (spec_ratio ?c))) (Num (- itl_ms_at_ref ?c)) = Num y"
    using hi(2) by (intro add) (simp_all add: f_fin_div)
  then obtain z where z: "f_add (f_div (Num (slo_itl_ms s * safety)) (Num (spec_ratio ?c))) (Num (- itl_ms_at_ref ?c)) = Num z" by blast
  obtain y where y: "q = Num y" unfolding q_def z using add(2) [of "f_div (Num z) (Num (itl_slope_ms ?c))"] f_fin_div [of "Num z"] False by auto
  define x where "x = (if y < 1 then 1 else if hi < y then hi else y)"
  have "f_clamp q 1 hi = Some (Num x)" using hi(1) by (simp add: f_clamp_def y x_def)
  then have "max_concurrency_for_slo ?c gpus s safety = Some (f_mul (Num x) (Num (real gpus)))"
    using False by (simp add: max_concurrency_for_slo_def Let_def q_def hi_def)
  moreover have "1 \<le> x" using hi(1) by (simp add: x_def)
  ultimately show ?thesis using assms(2) by (intro exI [of _ "x * real gpus"]) (simp add: f64_eval)
qed

lemma evaluate_total:
  assumes "plannable m" "0 < dg"
  shows "\<exists>s. evaluate m pg dg ptp dtp = Some s"
proof -
  obtain x where x: "0 < x" "max_concurrency_for_slo (cm_decode m) dg (cm_slo m) (itl_safety m) = Some (Num x)"
    using concurrency_planned [OF assms] by blast
  have "f_div (f_mul (Num (real (cm_osl m))) (Num y)) (Num 1000) \<noteq> NaN" for y by (simp add: f_fin_mul f_fin_div)
  then have "f_div (Num x) (f_div (f_mul (Num (real (cm_osl m))) (Num y)) (Num 1000)) \<noteq> NaN" for y
    using x(1) f_div_nan_iff [of "Num x"] by simp
  then obtain d where "d \<noteq> NaN" "decode_req_rate (cm_decode m) dg (cm_osl m) (cm_slo m) (itl_safety m) = Some d"
    using x(2) by (auto simp: decode_req_rate_def Let_def)
  then show ?thesis using prefill_rate_defined [OF assms(1)] transfer_rate_defined [OF assms(1)]
    by (simp add: evaluate_def Let_def split: prod.splits)
qed

lemma default_plannable: "plannable default_capacity_model"
  by (simp add: plannable_def default_capacity_model_def default_decode_calibration_def default_prefill_calibration_def spec_ratio_def)

theorem evaluate_names_the_bottleneck_witness:
  "\<exists>s. evaluate default_capacity_model 8 8 4 4 = Some s \<and> rate_of s (pd_bottleneck s) = sustainable_req_s s"
proof -
  obtain s where "evaluate default_capacity_model 8 8 4 4 = Some s" using evaluate_total [OF default_plannable, of 8 8 4 4] by auto
  then show ?thesis using evaluate_names_the_bottleneck [of default_capacity_model 8 8 4 4 s] by blast
qed

text \<open>A prompt of no tokens over a link of no bandwidth stops the planner: the handoff rate is not a number, and the
  \<open>expect\<close> of \<open>evaluate\<close> fails.\<close>

theorem planner_panics_without_bandwidth:
  "evaluate (default_capacity_model\<lparr>cm_isl := 0, kv_xfer_gib_s := 0\<rparr>) 8 8 4 4 = None"
proof -
  have "transfer_req_s (default_capacity_model\<lparr>cm_isl := 0, kv_xfer_gib_s := 0\<rparr>) 2 = NaN"
    by (simp add: transfer_req_s_def transfer_ms_def f_div_def f_mul_def f_le_def signed_zero_def Let_def)
  moreover have "checked_div_or_zero 8 4 = 2" by (simp add: checked_div_or_zero_def)
  ultimately show ?thesis by (simp add: evaluate_def Let_def split: option.split)
qed

subsection \<open>Ranking\<close>

lemma rank_before_total: "rank_before a b \<or> rank_before b a"
  by (auto simp: rank_before_def)

lemma rank_before_trans: "rank_before a b \<Longrightarrow> rank_before b c \<Longrightarrow> rank_before a c"
  by (auto simp: rank_before_def)

lemma insert_ranked_set: "set (insert_ranked x ys) = insert x (set ys)"
  by (induction ys) auto

lemma insert_ranked_sorted: "sorted_wrt rank_before ys \<Longrightarrow> sorted_wrt rank_before (insert_ranked x ys)"
proof (induction ys)
  case (Cons y ys)
  then show ?case
    using rank_before_total [of x y] rank_before_trans [of x y] by (auto simp: insert_ranked_set)
qed simp

lemma sort_ranked_set [simp]: "set (sort_ranked xs) = set xs"
  unfolding sort_ranked_def by (induction xs) (simp_all add: insert_ranked_set)

lemma sort_ranked_sorted: "sorted_wrt rank_before (sort_ranked xs)"
  unfolding sort_ranked_def by (induction xs) (simp_all add: insert_ranked_sorted)

lemma dedup_subset: "set (dedup_topology xs) \<subseteq> set xs"
  by (induction xs rule: dedup_topology.induct) auto

lemma dedup_topologies: "topology ` set (dedup_topology xs) = topology ` set xs"
  by (induction xs rule: dedup_topology.induct) auto

lemma dedup_sorted: "sorted_wrt rank_before xs \<Longrightarrow> sorted_wrt rank_before (dedup_topology xs)"
proof (induction xs rule: dedup_topology.induct)
  case (1 x y ys)
  then show ?case using dedup_subset [of "y # ys"] by auto
qed auto

subsection \<open>Enumeration\<close>

definition split_ok :: "nat \<Rightarrow> nat \<Rightarrow> nat \<Rightarrow> nat \<Rightarrow> bool" where
  "split_ok total_gpus ptp dtp q \<longleftrightarrow> q + dtp \<le> total_gpus \<and> q mod ptp = 0 \<and> (total_gpus - q) mod dtp = 0"

lemma next_multiple:
  assumes "0 < k" "p mod k = 0" "q mod k = (0::nat)" "p < q"
  shows "p + k \<le> q"
proof -
  obtain a b where "p = k * a" "q = k * b" using assms(2,3) by (auto elim!: dvdE simp: mod_eq_0_iff_dvd)
  moreover then have "a < b" using assms(1,4) by simp
  then have "k * Suc a \<le> k * b" by (intro mult_le_mono2) simp
  ultimately show ?thesis by simp
qed

lemma search_from_spec:
  assumes "plannable m" "0 < ptp" "0 < dtp" "p mod ptp = 0" "t + ptp < 2 ^ 32" "p + dtp < 2 ^ 32"
  shows "\<exists>xs. search_from m t ptp dtp p = Some xs
    \<and> set xs = {s. \<exists>q \<ge> p. split_ok t ptp dtp q \<and> evaluate m q (t - q) ptp dtp = Some s}"
  using assms
proof (induction "t - p" arbitrary: p rule: less_induct)
  case less
  note pre = less.prems
  show ?case
  proof (cases "p + dtp \<le> t")
    case False
    then show ?thesis using pre by (auto simp: search_from.simps [of m t ptp dtp p] split_ok_def)
  next
    case True
    have w: "(p + dtp) mod 2 ^ 32 = p + dtp" "(t + 2 ^ 32 - p) mod 2 ^ 32 = t - p" "(p + ptp) mod 2 ^ 32 = p + ptp"
      using True pre(3,5,6) by (simp_all add: mod_if)
    have step: "(p + ptp) mod ptp = 0" "p + ptp + dtp < 2 ^ 32" "t - (p + ptp) < t - p" using pre(2-5) True by simp_all
    obtain e where e: "evaluate m p (t - p) ptp dtp = Some e" using evaluate_total [OF pre(1), of "t - p" p ptp dtp] True pre(3) by auto
    have next_q: "q \<ge> p \<and> split_ok t ptp dtp q \<longleftrightarrow> (q = p \<and> (t - p) mod dtp = 0) \<or> (q \<ge> p + ptp \<and> split_ok t ptp dtp q)" for q
      using next_multiple [OF pre(2,4), of q] pre True
      by (cases q p rule: linorder_cases) (auto simp: split_ok_def)
    obtain xs where xs: "search_from m t ptp dtp (p + ptp) = Some xs"
      "set xs = {s. \<exists>q \<ge> p + ptp. split_ok t ptp dtp q \<and> evaluate m q (t - q) ptp dtp = Some s}"
      using less.hyps [OF step(3) pre(1,2,3) step(1) pre(5) step(2)] by blast
    have all: "{s. \<exists>q \<ge> p. split_ok t ptp dtp q \<and> evaluate m q (t - q) ptp dtp = Some s}
        = {s. (t - p) mod dtp = 0 \<and> s = e} \<union> set xs"
    proof (rule set_eqI)
      fix s
      have "(\<exists>q \<ge> p. split_ok t ptp dtp q \<and> evaluate m q (t - q) ptp dtp = Some s) \<longleftrightarrow>
          (\<exists>q. ((q = p \<and> (t - p) mod dtp = 0) \<or> (q \<ge> p + ptp \<and> split_ok t ptp dtp q)) \<and> evaluate m q (t - q) ptp dtp = Some s)"
        by (simp only: next_q [symmetric] conj_assoc)
      also have "\<dots> \<longleftrightarrow> s \<in> {s. (t - p) mod dtp = 0 \<and> s = e} \<union> set xs" unfolding xs(2) using e by auto
      finally show "s \<in> {s. \<exists>q \<ge> p. split_ok t ptp dtp q \<and> evaluate m q (t - q) ptp dtp = Some s} \<longleftrightarrow>
          s \<in> {s. (t - p) mod dtp = 0 \<and> s = e} \<union> set xs" by simp
    qed
    have "search_from m t ptp dtp p = Some (if (t - p) mod dtp = 0 then e # xs else xs)"
      using True pre(4) e xs(1) by (simp only: search_from.simps [of m t ptp dtp p] w Let_def) simp
    then show ?thesis unfolding all by auto
  qed
qed

definition topology_ok :: "capacity_model \<Rightarrow> nat \<Rightarrow> nat list \<Rightarrow> nat list \<Rightarrow> nat \<times> nat \<times> nat \<times> nat \<Rightarrow> bool" where
  "topology_ok m total_gpus ptps dtps x = (case x of (p, d, ptp, dtp) \<Rightarrow>
     ptp \<in> set ptps \<and> dtp \<in> set dtps \<and> 0 < p \<and> 0 < d \<and> p + d = total_gpus \<and> 0 < ptp \<and> 0 < dtp
     \<and> p mod ptp = 0 \<and> d mod dtp = 0 \<and> fits m ptp RolePrefill \<and> fits m dtp RoleDecode)"

lemma search_pair_spec:
  assumes "plannable m" "t + ptp + dtp < 2 ^ 32"
  shows "\<exists>xs. search_pair m t (ptp, dtp) = Some xs
    \<and> set xs = {s. \<exists>p d. topology_ok m t [ptp] [dtp] (p, d, ptp, dtp) \<and> evaluate m p d ptp dtp = Some s}"
proof (cases "0 < ptp \<and> 0 < dtp \<and> fits m ptp RolePrefill \<and> fits m dtp RoleDecode")
  case True
  obtain xs where xs: "search_from m t ptp dtp ptp = Some xs"
    "set xs = {s. \<exists>q \<ge> ptp. split_ok t ptp dtp q \<and> evaluate m q (t - q) ptp dtp = Some s}"
    using search_from_spec [OF assms(1), of ptp dtp ptp t] assms(2) True by auto
  have "(\<exists>q \<ge> ptp. split_ok t ptp dtp q \<and> evaluate m q (t - q) ptp dtp = Some s) \<longleftrightarrow>
      (\<exists>p d. topology_ok m t [ptp] [dtp] (p, d, ptp, dtp) \<and> evaluate m p d ptp dtp = Some s)" (is "?L \<longleftrightarrow> ?R") for s
  proof
    assume ?L
    then obtain q where q: "ptp \<le> q" "split_ok t ptp dtp q" "evaluate m q (t - q) ptp dtp = Some s" by blast
    then have "topology_ok m t [ptp] [dtp] (q, t - q, ptp, dtp)" using True by (auto simp: topology_ok_def split_ok_def)
    then show ?R using q(3) by blast
  next
    assume ?R
    then obtain p d where pd: "topology_ok m t [ptp] [dtp] (p, d, ptp, dtp)" "evaluate m p d ptp dtp = Some s" by blast
    then have "ptp \<le> p" "dtp \<le> d" "t - p = d" by (auto simp: topology_ok_def mod_eq_0_iff_dvd dest: dvd_imp_le)
    moreover then have "split_ok t ptp dtp p" using pd(1) by (auto simp: topology_ok_def split_ok_def)
    ultimately show ?L using pd(2) by blast
  qed
  then show ?thesis using xs True by (simp add: search_pair_def)
next
  case False
  then show ?thesis by (auto simp: search_pair_def topology_ok_def)
qed

lemma search_pairs_spec:
  assumes "plannable m" "\<forall>(ptp, dtp) \<in> set prs. t + ptp + dtp < 2 ^ 32"
  shows "\<exists>xs. search_pairs m t prs = Some xs
    \<and> set xs = {s. \<exists>p d ptp dtp. (ptp, dtp) \<in> set prs \<and> topology_ok m t [ptp] [dtp] (p, d, ptp, dtp) \<and> evaluate m p d ptp dtp = Some s}"
  using assms(2)
proof (induction prs)
  case (Cons pr prs)
  obtain ptp dtp where pr: "pr = (ptp, dtp)" by (cases pr)
  obtain xs where xs: "search_pair m t pr = Some xs"
    "set xs = {s. \<exists>p d. topology_ok m t [ptp] [dtp] (p, d, ptp, dtp) \<and> evaluate m p d ptp dtp = Some s}"
    using search_pair_spec [OF assms(1), of t ptp dtp] Cons.prems pr by auto
  obtain ys where ys: "search_pairs m t prs = Some ys" "set ys = {s. \<exists>p d ptp dtp. (ptp, dtp) \<in> set prs
      \<and> topology_ok m t [ptp] [dtp] (p, d, ptp, dtp) \<and> evaluate m p d ptp dtp = Some s}" using Cons.IH Cons.prems by auto
  have "set (xs @ ys) = {s. \<exists>p d ptp dtp. (ptp, dtp) \<in> set (pr # prs)
      \<and> topology_ok m t [ptp] [dtp] (p, d, ptp, dtp) \<and> evaluate m p d ptp dtp = Some s}"
    unfolding set_append xs(2) ys(2) pr set_simps by blast
  then show ?case using xs(1) ys(1) by simp
qed simp

text \<open>C30. The topology search is exhaustive, sound and ranked. For a plannable model (prompts of at least one token, a bandwidth other
  than zero, an all-reduce share in [0, 1), and a reference concurrency and speculation ratio that allow at least one sequence, so that no rate
  is \<open>NaN\<close> and no \<open>clamp\<close> is crossed) and GPU counts and degrees whose sum fits 32 bits, \<open>search\<close> returns (it neither panics nor loops),
  and the topologies it returns are exactly the splits of all the GPUs into a positive multiple of a listed prefill degree and a
  positive multiple of a listed decode degree in which both roles fit in memory; every entry is the
  evaluation of its own topology; and the list is ordered by goodput, then by the combined rate of both sides, so that its head is a best split.\<close>

theorem search_exhaustive_and_ranked:
  assumes "plannable m" "\<forall>ptp \<in> set ptps. \<forall>dtp \<in> set dtps. total_gpus + ptp + dtp < 2 ^ 32"
  shows "\<exists>xs. search m total_gpus ptps dtps = Some xs
    \<and> topology ` set xs = {x. topology_ok m total_gpus ptps dtps x}
    \<and> (\<forall>s\<in>set xs. evaluate m (prefill_gpus s) (decode_gpus s) (prefill_tp s) (decode_tp s) = Some s)
    \<and> sorted_wrt rank_before xs \<and> (\<forall>s\<in>set xs. pd_goodput_req_s s \<le> pd_goodput_req_s (hd xs))"
proof -
  obtain ys where ys: "search_pairs m total_gpus (List.product ptps dtps) = Some ys"
    "set ys = {s. \<exists>p d ptp dtp. (ptp, dtp) \<in> set (List.product ptps dtps)
       \<and> topology_ok m total_gpus [ptp] [dtp] (p, d, ptp, dtp) \<and> evaluate m p d ptp dtp = Some s}"
    using search_pairs_spec [OF assms(1), of "List.product ptps dtps" total_gpus] assms(2) by auto
  define xs where "xs = dedup_topology (sort_ranked ys)"
  have sub: "set xs \<subseteq> set ys" and tops: "topology ` set xs = topology ` set ys"
    using dedup_subset [of "sort_ranked ys"] dedup_topologies [of "sort_ranked ys"] by (simp_all add: xs_def)
  have sorted: "sorted_wrt rank_before xs" unfolding xs_def by (rule dedup_sorted [OF sort_ranked_sorted])
  have mem: "\<exists>s \<in> set ys. topology s = x" if h: "topology_ok m total_gpus ptps dtps x" for x
  proof -
    obtain p d ptp dtp where x: "x = (p, d, ptp, dtp)" by (cases x)
    have "0 < d" using h x by (simp add: topology_ok_def)
    then obtain s where s: "evaluate m p d ptp dtp = Some s" using evaluate_total [OF assms(1)] by blast
    have "(ptp, dtp) \<in> set (List.product ptps dtps)" "topology_ok m total_gpus [ptp] [dtp] (p, d, ptp, dtp)"
      using h x by (auto simp: topology_ok_def)
    then have "s \<in> set ys" unfolding ys(2) using s by blast
    then show ?thesis using evaluate_fields(1) [OF s] x by blast
  qed
  have own: "topology_ok m total_gpus ptps dtps (topology s)
      \<and> evaluate m (prefill_gpus s) (decode_gpus s) (prefill_tp s) (decode_tp s) = Some s" if h: "s \<in> set ys" for s
  proof -
    obtain p d ptp dtp where s: "ptp \<in> set ptps" "dtp \<in> set dtps" "topology_ok m total_gpus [ptp] [dtp] (p, d, ptp, dtp)"
      "evaluate m p d ptp dtp = Some s" using h unfolding ys(2) by auto
    show ?thesis using evaluate_fields(1) [OF s(4)] s by (auto simp: topology_def topology_ok_def)
  qed
  have "topology ` set xs = {x. topology_ok m total_gpus ptps dtps x}" unfolding tops
  proof (intro equalityI subsetI)
    fix x assume "x \<in> {x. topology_ok m total_gpus ptps dtps x}"
    then show "x \<in> topology ` set ys" using mem [of x] by (metis imageI mem_Collect_eq)
  qed (use own in auto)
  moreover have "pd_goodput_req_s s \<le> pd_goodput_req_s (hd xs)" if "s \<in> set xs" for s
    using sorted that by (cases xs) (auto simp: rank_before_def)
  moreover have "search m total_gpus ptps dtps = Some xs" by (simp add: search_def ys(1) xs_def)
  ultimately show ?thesis using sorted own sub by blast
qed

theorem search_exhaustive_and_ranked_witness:
  "\<exists>xs s. search default_capacity_model 16 [2, 4] [4, 8] = Some xs \<and> sorted_wrt rank_before xs
    \<and> s \<in> set xs \<and> topology s = (8, 8, 2, 8) \<and> evaluate default_capacity_model 8 8 2 8 = Some s"
proof -
  have "\<forall>ptp \<in> set [2, 4]. \<forall>dtp \<in> set [4, 8]. (16 :: nat) + ptp + dtp < 2 ^ 32" by simp
  from search_exhaustive_and_ranked [OF default_plannable this] obtain xs where xs:
    "search default_capacity_model 16 [2, 4] [4, 8] = Some xs" "topology ` set xs = {x. topology_ok default_capacity_model 16 [2, 4] [4, 8] x}"
    "\<forall>s \<in> set xs. evaluate default_capacity_model (prefill_gpus s) (decode_gpus s) (prefill_tp s) (decode_tp s) = Some s"
    "sorted_wrt rank_before xs" by blast
  have "topology_ok default_capacity_model 16 [2, 4] [4, 8] (8, 8, 2, 8)"
    by (simp add: topology_ok_def fits_def free_gib_per_rank_def needed_gib_per_rank_def kv_bytes_per_token_per_rank_def
        clamp_nat_def default_capacity_model_def GIB_def)
  then have "(8, 8, 2, 8) \<in> topology ` set xs" using xs(2) by simp
  then show ?thesis using xs(1,3,4) by (auto simp: topology_def)
qed

subsection \<open>Planned concurrency\<close>

text \<open>The planned concurrency is the largest the objective allows. With a positive slope and
  speculation ratio and a calibration that admits planning, if one sequence per GPU meets the
  inter-token budget, then the predicted latency at the planned concurrency is within it, and
  every larger concurrency up to the extrapolation ceiling exceeds it.\<close>

theorem planned_concurrency_is_largest:
  assumes "0 < gpus" "0 < itl_slope_ms c" "0 < spec_ratio c" "1 \<le> concurrency_per_gpu c * max (max_extrapolation c) 1"
    and "itl_ms c (real gpus) gpus \<le> slo_itl_ms s * safety"
  shows "\<exists>conc. max_concurrency_for_slo c gpus s safety = Some (Num conc) \<and> itl_ms c conc gpus \<le> slo_itl_ms s * safety
    \<and> (\<forall>x > conc. x \<le> concurrency_per_gpu c * max (max_extrapolation c) 1 * real gpus \<longrightarrow>
        slo_itl_ms s * safety < itl_ms c x gpus)"
proof -
  define B where "B = slo_itl_ms s * safety"
  define q where "q = concurrency_per_gpu c + (B / spec_ratio c - itl_ms_at_ref c) / itl_slope_ms c"
  define hi where "hi = concurrency_per_gpu c * max (max_extrapolation c) 1"
  have itl: "itl_ms c (x * real gpus) gpus \<le> B \<longleftrightarrow> x \<le> q" for x
  proof -
    have "itl_ms c (x * real gpus) gpus = (itl_ms_at_ref c + itl_slope_ms c * (x - concurrency_per_gpu c)) * spec_ratio c"
      using assms(1) by (simp add: itl_ms_def itl_ms_baseline_def max_def)
    also have "\<dots> \<le> B \<longleftrightarrow> itl_ms_at_ref c + itl_slope_ms c * (x - concurrency_per_gpu c) \<le> B / spec_ratio c"
      using assms(3) by (simp only: pos_le_divide_eq)
    also have "\<dots> \<longleftrightarrow> itl_slope_ms c * (x - concurrency_per_gpu c) \<le> B / spec_ratio c - itl_ms_at_ref c" by linarith
    also have "\<dots> \<longleftrightarrow> x - concurrency_per_gpu c \<le> (B / spec_ratio c - itl_ms_at_ref c) / itl_slope_ms c"
      using assms(2) by (simp only: pos_le_divide_eq mult.commute)
    also have "\<dots> \<longleftrightarrow> x \<le> q" by (auto simp: q_def)
    finally show ?thesis .
  qed
  have "1 \<le> q" using itl [of 1] assms(5) by (simp add: B_def)
  moreover have "1 \<le> hi" using assms(4) by (simp add: hi_def)
  ultimately have cl: "f_clamp (Num q) 1 hi = Some (Num (min q hi))" "0 \<le> min q hi" by (simp_all add: f_clamp_def min_def)
  have "f_div (Num B) (Num (spec_ratio c)) = Num (B / spec_ratio c) \<or> B = 0" using assms(3) f_arith(4) by force
  then have "f_add (f_div (Num B) (Num (spec_ratio c))) (Num (- itl_ms_at_ref c)) = Num (B / spec_ratio c - itl_ms_at_ref c)"
    using assms(3) by (auto simp: f64_eval)
  moreover have "f_add (Num a) (f_div (Num b) (Num (itl_slope_ms c))) = Num (a + b / itl_slope_ms c)" for a b
    using assms(2) by (cases "b = 0") (simp_all add: f64_eval)
  ultimately have "f_add (Num (concurrency_per_gpu c))
      (f_div (f_add (f_div (Num B) (Num (spec_ratio c))) (Num (- itl_ms_at_ref c))) (Num (itl_slope_ms c))) = Num q" by (simp add: q_def)
  then have "max_concurrency_for_slo c gpus s safety = Some (Num (min q hi * real gpus))"
    using assms(2) cl by (simp add: max_concurrency_for_slo_def hi_def [symmetric] B_def [symmetric] Let_def f64_eval)
  moreover have "itl_ms c (min q hi * real gpus) gpus \<le> B" using itl by simp
  moreover have "B < itl_ms c x gpus" if "x > min q hi * real gpus" "x \<le> hi * real gpus" for x
  proof -
    have x: "x = (x / real gpus) * real gpus" using assms(1) by simp
    have "x / real gpus \<le> hi" "min q hi < x / real gpus" using that assms(1) by (simp_all add: field_simps)
    then have "\<not> x / real gpus \<le> q" by auto
    then show ?thesis using itl [of "x / real gpus"] x by simp
  qed
  ultimately show ?thesis unfolding B_def hi_def by blast
qed

theorem planned_concurrency_is_largest_witness:
  "\<exists>conc. max_concurrency_for_slo default_decode_calibration 8 default_slo 1 = Some (Num conc)
    \<and> itl_ms default_decode_calibration conc 8 \<le> slo_itl_ms default_slo * 1"
  using planned_concurrency_is_largest [of 8 default_decode_calibration default_slo 1]
  by (auto simp: default_decode_calibration_def spec_ratio_def default_slo_def itl_ms_def itl_ms_baseline_def)

subsection \<open>Tensor parallelism\<close>

lemma ring_factor_mono: "1 \<le> a \<Longrightarrow> a < b \<Longrightarrow> ring_factor a < ring_factor b"
  by (auto simp: ring_factor_def field_simps of_nat_diff)

text \<open>Smaller prefill workers are faster per GPU. With a positive measured throughput, an
  all-reduce share strictly between 0 and 1 and a measurement taken at degree 2 or more, the
  corrected per-GPU throughput reproduces the measurement at its own degree and strictly
  falls as the degree grows.\<close>

theorem per_gpu_rate_falls_with_tp:
  assumes "0 < tok_s_per_gpu p" "0 < tp_allreduce_frac p" "tp_allreduce_frac p < 1" "2 \<le> tp_ref p"
  shows "tok_s_per_gpu_at_tp p (tp_ref p) = tok_s_per_gpu p
    \<and> (\<forall>a b. 1 \<le> a \<longrightarrow> a < b \<longrightarrow> tok_s_per_gpu_at_tp p b < tok_s_per_gpu_at_tp p a)"
proof -
  have ref: "0 < ring_factor (tp_ref p)" using assms(4) by (simp add: ring_factor_def)
  have nonneg: "0 \<le> ring_factor a" for a by (simp add: ring_factor_def)
  define u where "u = tp_allreduce_frac p / ring_factor (tp_ref p)"
  have u: "0 < u" using ref assms(2) by (simp add: u_def)
  have rate: "tok_s_per_gpu_at_tp p a = tok_s_per_gpu p / (1 - tp_allreduce_frac p + u * ring_factor a)" for a
    using ref by (simp add: tok_s_per_gpu_at_tp_def u_def Let_def)
  have "tok_s_per_gpu_at_tp p b < tok_s_per_gpu_at_tp p a" if "1 \<le> a" "a < b" for a b
    unfolding rate using ring_factor_mono [OF that] u assms(1,3) nonneg [of a]
    by (intro divide_strict_left_mono mult_pos_pos add_pos_nonneg) simp_all
  moreover have "tok_s_per_gpu_at_tp p (tp_ref p) = tok_s_per_gpu p" unfolding rate u_def using ref by simp
  ultimately show ?thesis by blast
qed

theorem per_gpu_rate_falls_with_tp_witness:
  "tok_s_per_gpu_at_tp default_prefill_calibration 4 < tok_s_per_gpu_at_tp default_prefill_calibration 2"
proof -
  let ?p = default_prefill_calibration
  have "0 < tok_s_per_gpu ?p" "0 < tp_allreduce_frac ?p" "tp_allreduce_frac ?p < 1" "2 \<le> tp_ref ?p"
    by (simp_all add: default_prefill_calibration_def)
  from per_gpu_rate_falls_with_tp [OF this] show ?thesis by force
qed

end
