(* ===== verification/Engine_Mock.thy ===== *)
theory Engine_Mock
  imports Capacity Block_Pool
begin

text \<open>
  \<open>crates/engine/src\<close>: the seam between the control plane and what runs the model
  (\<open>lib.rs\<close>), the analytic cost model (\<open>cost.rs\<close>) and the engine that costs work instead of
  running it (\<open>mock.rs\<close>).

  The trait \<open>Engine\<close> is the record \<open>engine_ops\<close> of its methods over a state \<open>'e\<close>; its contract
  is the locale \<open>engine\<close>, interpreted on the mock. A method returns the result and the new
  state. Sleeping (\<open>TimeMode::Wall\<close>) is modelled by the time slept, which no result depends on.
\<close>

subsection \<open>The interface\<close>

record engine_info =
  backend :: string
  ei_model :: string
  ei_phase :: phase
  ei_tensor_parallel :: nat
  gpu_ids :: "nat list"
  ei_kv_blocks :: nat
  ei_kv_block_size :: nat

record prefill_chunk_spec =
  cs_id :: request_id
  cs_tokens :: "token_id list"
  cs_start :: nat
  cs_prompt_len :: nat
  cs_completes :: bool
  cs_kv_blocks :: "block_id list"

type_synonym prefill_work = "prefill_chunk_spec list"

definition work_tokens :: "prefill_work \<Rightarrow> nat" where
  "work_tokens w = sum_list (map (\<lambda>c. length (cs_tokens c)) w)"

record prefill_outcome =
  po_elapsed_ms :: real
  po_first_tokens :: "(request_id \<times> token_id) list"

record decode_seq_spec =
  ds_id :: request_id
  ds_prompt_len :: nat
  ds_first_token :: token_id
  ds_max_tokens :: nat
  ds_kv_blocks :: "block_id list"

record decode_step_outcome =
  so_elapsed_ms :: real
  so_tokens :: "(request_id \<times> token_id) list"
  so_finished :: "request_id list"

definition no_step :: decode_step_outcome where
  "no_step = \<lparr>so_elapsed_ms = 0, so_tokens = [], so_finished = []\<rparr>"

record 'e engine_ops =
  op_info :: "'e \<Rightarrow> engine_info"
  op_prefill :: "prefill_work \<Rightarrow> millis \<Rightarrow> 'e \<Rightarrow> (error + prefill_outcome) \<times> 'e"
  op_add_decode_seq :: "decode_seq_spec \<Rightarrow> 'e \<Rightarrow> (error + unit) \<times> 'e"
  op_decode_step :: "millis \<Rightarrow> 'e \<Rightarrow> (error + decode_step_outcome) \<times> 'e"
  op_remove_seq :: "request_id \<Rightarrow> 'e \<Rightarrow> (error + unit) \<times> 'e"
  op_decode_concurrency :: "'e \<Rightarrow> nat"

subsection \<open>The cost model\<close>

record prefill_curve =
  pc_tokens_per_ms :: real
  overhead_ms :: real
  multiseq_gain :: real
  multiseq_saturation :: real

definition prefill_curve_for_worker :: "prefill_calibration \<Rightarrow> nat \<Rightarrow> nat \<Rightarrow> prefill_curve" where
  "prefill_curve_for_worker cal gpus tp =
    (let tok_s = tok_s_per_gpu_at_tp cal tp * real gpus; per_ms = tok_s / 1000; nominal_batch_ms = 16384 / per_ms
     in \<lparr>pc_tokens_per_ms = per_ms, overhead_ms = nominal_batch_ms * (1 / duty_cycle cal - 1),
         multiseq_gain = 116 / 1000, multiseq_saturation = 5\<rparr>)"

definition rate_at :: "prefill_curve \<Rightarrow> nat \<Rightarrow> real" where
  "rate_at c num_seqs =
    (let n = min (real (max num_seqs 1)) (multiseq_saturation c);
         frac = (n - 1) / max (multiseq_saturation c - 1) 1
     in pc_tokens_per_ms c * (1 + multiseq_gain c * frac))"

definition batch_ms :: "prefill_curve \<Rightarrow> nat \<Rightarrow> nat \<Rightarrow> real" where
  "batch_ms c tokens num_seqs =
    (if tokens = 0 then 0 else overhead_ms c + real tokens / rate_at c num_seqs)"

record decode_curve =
  base_ms :: real
  slope_ms :: real
  knee :: ext
  knee_penalty :: real

definition from_point :: "real \<Rightarrow> real \<Rightarrow> real \<Rightarrow> decode_curve" where
  "from_point conc itl assumed_base =
    (let slope = (if conc > 0 then (itl - assumed_base) / conc else 0)
     in \<lparr>base_ms = assumed_base, slope_ms = max slope 0, knee = Infinite, knee_penalty = 3\<rparr>)"

definition from_calibration :: "decode_calibration \<Rightarrow> nat \<Rightarrow> decode_curve" where
  "from_calibration cal gpus =
    from_point (concurrency_per_gpu cal * real (max gpus 1)) (itl_ms_at_ref cal) 12"

definition step_cost_ms :: "decode_curve \<Rightarrow> nat \<Rightarrow> real" where
  "step_cost_ms c conc =
    (let linear = base_ms c + slope_ms c * real conc
     in case knee c of Infinite \<Rightarrow> linear
        | Fin k \<Rightarrow> if real conc \<le> k then linear else linear + (real conc - k) * slope_ms c * knee_penalty c)"

record cost_model =
  cost_prefill :: prefill_curve
  cost_decode :: decode_curve
  cost_kv_transfer_ms :: real

definition cost_model_new :: "prefill_curve \<Rightarrow> decode_curve \<Rightarrow> real \<Rightarrow> cost_model" where
  "cost_model_new p d t = \<lparr>cost_prefill = p, cost_decode = d, cost_kv_transfer_ms = t\<rparr>"

subsection \<open>The mock engine\<close>

datatype time_mode = VirtualTime | WallTime

record mock_seq =
  ms_spec :: decode_seq_spec
  emitted :: nat

record mock_engine =
  me_info :: engine_info
  me_cost :: cost_model
  me_mode :: time_mode
  me_decode :: "(request_id, mock_seq) hmap"
  me_steps :: nat

definition mock_new :: "engine_info \<Rightarrow> cost_model \<Rightarrow> time_mode \<Rightarrow> mock_engine" where
  "mock_new info c mode = \<lparr>me_info = info, me_cost = c, me_mode = mode, me_decode = [], me_steps = 0\<rparr>"

text \<open>The milliseconds slept.\<close>

definition spend :: "mock_engine \<Rightarrow> real \<Rightarrow> real" where
  "spend e ms = (if me_mode e = WallTime \<and> ms > 0 then ms else 0)"

definition fake_token :: "request_id \<Rightarrow> nat \<Rightarrow> token_id" where
  "fake_token i position =
    (let h = (of_nat i :: 64 word) * 0x9E3779B97F4A7C15 + of_nat position
     in (ucast (drop_bit 32 h) :: 32 word) mod 150000)"

definition mock_prefill :: "prefill_work \<Rightarrow> millis \<Rightarrow> mock_engine \<Rightarrow> (error + prefill_outcome) \<times> mock_engine" where
  "mock_prefill work now e =
    (let ms = batch_ms (cost_prefill (me_cost e)) (work_tokens work) (length work)
     in (Inr \<lparr>po_elapsed_ms = ms,
           po_first_tokens = map (\<lambda>c. (cs_id c, fake_token (cs_id c) 0)) (filter cs_completes work)\<rparr>, e))"

definition mock_add_decode_seq :: "decode_seq_spec \<Rightarrow> mock_engine \<Rightarrow> (error + unit) \<times> mock_engine" where
  "mock_add_decode_seq s e =
    (Inr (), e\<lparr>me_decode := hm_insert (ds_id s) \<lparr>ms_spec = s, emitted = 1\<rparr> (me_decode e)\<rparr>)"

definition bump :: "mock_seq \<Rightarrow> mock_seq" where
  "bump s = s\<lparr>emitted := emitted s + 1\<rparr>"

definition mock_decode_step :: "millis \<Rightarrow> mock_engine \<Rightarrow> (error + decode_step_outcome) \<times> mock_engine" where
  "mock_decode_step now e =
    (let conc = length (me_decode e)
     in if conc = 0 then (Inr no_step, e)
     else let ms = step_cost_ms (cost_decode (me_cost e)) conc;
              bumped = map (\<lambda>(k, s). (k, bump s)) (me_decode e);
              toks = map (\<lambda>s. (ds_id (ms_spec s), fake_token (ds_id (ms_spec s)) (emitted s))) (hm_values bumped);
              fin = map (\<lambda>s. ds_id (ms_spec s))
                (filter (\<lambda>s. emitted s \<ge> ds_max_tokens (ms_spec s)) (hm_values bumped))
     in (Inr \<lparr>so_elapsed_ms = ms, so_tokens = toks, so_finished = fin\<rparr>,
         e\<lparr>me_decode := foldl (\<lambda>m i. hm_remove i m) bumped fin, me_steps := (me_steps e + 1) mod 2 ^ 64\<rparr>))"

definition mock_remove_seq :: "request_id \<Rightarrow> mock_engine \<Rightarrow> (error + unit) \<times> mock_engine" where
  "mock_remove_seq i e = (Inr (), e\<lparr>me_decode := hm_remove i (me_decode e)\<rparr>)"

definition mock_decode_concurrency :: "mock_engine \<Rightarrow> nat" where
  "mock_decode_concurrency e = length (me_decode e)"

definition mock_ops :: "mock_engine engine_ops" where
  "mock_ops = \<lparr>op_info = me_info, op_prefill = mock_prefill, op_add_decode_seq = mock_add_decode_seq,
     op_decode_step = mock_decode_step, op_remove_seq = mock_remove_seq,
     op_decode_concurrency = mock_decode_concurrency\<rparr>"

definition mock_prefill_worker :: "string \<Rightarrow> nat list \<Rightarrow> nat \<Rightarrow> cost_model \<Rightarrow> time_mode \<Rightarrow> mock_engine" where
  "mock_prefill_worker model gpus tp c mode =
    mock_new \<lparr>backend = ''mock'', ei_model = model, ei_phase = Prefill, ei_tensor_parallel = tp, gpu_ids = gpus,
      ei_kv_blocks = 4096, ei_kv_block_size = 128\<rparr> c mode"

definition mock_decode_worker :: "string \<Rightarrow> nat list \<Rightarrow> nat \<Rightarrow> nat \<Rightarrow> cost_model \<Rightarrow> time_mode \<Rightarrow> mock_engine" where
  "mock_decode_worker model gpus tp blocks c mode =
    mock_new \<lparr>backend = ''mock'', ei_model = model, ei_phase = Decode, ei_tensor_parallel = tp, gpu_ids = gpus,
      ei_kv_blocks = blocks, ei_kv_block_size = 128\<rparr> c mode"

subsection \<open>The contract of an engine\<close>

locale engine =
  fixes ops :: "'e engine_ops"
    and attached :: "'e \<Rightarrow> request_id set"
    and valid :: "'e \<Rightarrow> bool"
  assumes prefill_law: "valid e \<Longrightarrow> op_prefill ops w now e = (rp, e') \<Longrightarrow> valid e' \<and> attached e' = attached e
      \<and> (\<forall>out. rp = Inr out \<longrightarrow> map fst (po_first_tokens out) = map cs_id (filter cs_completes w))"
    and add_law: "valid e \<Longrightarrow> op_add_decode_seq ops s e = (r, e') \<Longrightarrow>
      valid e' \<and> attached e' = (case r of Inl _ \<Rightarrow> attached e | Inr _ \<Rightarrow> insert (ds_id s) (attached e))"
    and step_law: "valid e \<Longrightarrow> op_decode_step ops now e = (rd, e') \<Longrightarrow>
      valid e' \<and> (case rd of Inl _ \<Rightarrow> attached e' = attached e
        | Inr out \<Rightarrow> set (map fst (so_tokens out)) = attached e \<and> set (so_finished out) \<subseteq> attached e
            \<and> distinct (so_finished out) \<and> attached e' = attached e - set (so_finished out))"
    and remove_law: "valid e \<Longrightarrow> op_remove_seq ops i e = (r, e') \<Longrightarrow> valid e' \<and> attached e' = attached e - {i}"
    and concurrency_law: "valid e \<Longrightarrow> op_decode_concurrency ops e = card (attached e)"
begin

text \<open>Removing a sequence that a step has reported finished changes nothing: what the decode
  worker does after every step is idempotent.\<close>

lemma remove_after_finish:
  assumes "valid e" "op_decode_step ops now e = (Inr out, e')" "i \<in> set (so_finished out)"
    "op_remove_seq ops i e' = (r, e'')"
  shows "attached e'' = attached e'"
  using step_law [OF assms(1,2)] remove_law [OF _ assms(4)] assms(3) by auto

lemma add_then_step:
  assumes "valid e" "op_add_decode_seq ops s e = (Inr (), e1)" "op_decode_step ops now e1 = (Inr out, e2)"
  shows "ds_id s \<in> set (map fst (so_tokens out)) \<and> (ds_id s \<in> attached e2 \<longleftrightarrow> ds_id s \<notin> set (so_finished out))"
  using add_law [OF assms(1,2)] step_law [OF _ assms(3)] by auto

end

subsection \<open>The mock keeps it\<close>

definition mock_valid :: "mock_engine \<Rightarrow> bool" where
  "mock_valid e \<longleftrightarrow> hm_wf (me_decode e) \<and> (\<forall>k s. hm_get (me_decode e) k = Some s \<longrightarrow> ds_id (ms_spec s) = k)"

definition mock_attached :: "mock_engine \<Rightarrow> request_id set" where
  "mock_attached e = dom (hm_get (me_decode e))"

lemma mock_new_valid: "mock_valid (mock_new info c mode)" "mock_attached (mock_new info c mode) = {}"
  by (simp_all add: mock_valid_def mock_attached_def mock_new_def)

lemma hm_remove_all_get:
  "hm_get (foldl (\<lambda>m i. hm_remove i m) m is) k = (if k \<in> set is then None else hm_get m k)"
  by (induction "is" arbitrary: m) (auto simp: hm_simps)

lemma hm_remove_all_wf: "hm_wf m \<Longrightarrow> hm_wf (foldl (\<lambda>m i. hm_remove i m) m is)"
  by (induction "is" arbitrary: m) auto

lemma map_values_get: "hm_get (map (\<lambda>(k, v). (k, f v)) m) k = map_option f (hm_get m k)"
  by (induction m) auto

text \<open>One step, as a function of one sequence.\<close>

definition step_seq :: "mock_seq \<Rightarrow> mock_seq option" where
  "step_seq s = (if emitted s + 1 \<ge> ds_max_tokens (ms_spec s) then None else Some (bump s))"

lemma bump_simps [simp]: "ms_spec (bump s) = ms_spec s" "emitted (bump s) = emitted s + 1"
  by (simp_all add: bump_def)

lemma mock_step_spec:
  assumes v: "mock_valid e"
  obtains out e' where "mock_decode_step now e = (Inr out, e')" "mock_valid e'"
    "\<forall>k. hm_get (me_decode e') k = Option.bind (hm_get (me_decode e) k) step_seq"
    "map fst (so_tokens out) = hm_keys (me_decode e)" "distinct (so_finished out)"
    "\<forall>k. k \<in> set (so_finished out) \<longleftrightarrow> (\<exists>s. hm_get (me_decode e) k = Some s \<and> step_seq s = None)"
proof (cases "me_decode e = []")
  case True
  then show ?thesis using that [of no_step e] v by (simp add: mock_decode_step_def no_step_def)
next
  case False
  define bumped where "bumped = map (\<lambda>(k, s). (k, bump s)) (me_decode e)"
  define fin where "fin = map (\<lambda>s. ds_id (ms_spec s)) (filter (\<lambda>s. emitted s \<ge> ds_max_tokens (ms_spec s)) (hm_values bumped))"
  define e' where "e' = e\<lparr>me_decode := foldl (\<lambda>m i. hm_remove i m) bumped fin, me_steps := (me_steps e + 1) mod 2 ^ 64\<rparr>"
  have wf: "hm_wf (me_decode e)" and ids: "\<And>k s. (k, s) \<in> set (me_decode e) \<Longrightarrow> ds_id (ms_spec s) = k"
    using v map_of_eq_Some_iff [of "me_decode e"] by (auto simp: mock_valid_def)
  have keys: "hm_keys bumped = hm_keys (me_decode e)" by (auto simp: bumped_def)
  have bids: "\<And>k s. (k, s) \<in> set bumped \<Longrightarrow> ds_id (ms_spec s) = k" using ids by (auto simp: bumped_def)
  have fin_alt: "fin = map fst (filter (\<lambda>x. emitted (snd x) \<ge> ds_max_tokens (ms_spec (snd x))) bumped)"
    unfolding fin_def using bids by (auto simp: filter_map comp_def)
  have dist: "distinct fin" unfolding fin_alt using wf keys by (metis distinct_map_filter)
  have get: "hm_get bumped k = map_option bump (hm_get (me_decode e) k)" for k unfolding bumped_def by (rule map_values_get)
  have bwf: "hm_wf bumped" using wf keys by simp
  have fin_set: "k \<in> set fin \<longleftrightarrow> (\<exists>s. hm_get (me_decode e) k = Some s \<and> step_seq s = None)" for k
  proof -
    have "k \<in> set fin \<longleftrightarrow> (\<exists>s. hm_get bumped k = Some s \<and> emitted s \<ge> ds_max_tokens (ms_spec s))"
      unfolding fin_alt using map_of_eq_Some_iff [OF bwf, of k] by force
    then show ?thesis by (auto simp: get step_seq_def)
  qed
  have e'_get: "hm_get (me_decode e') k = Option.bind (hm_get (me_decode e) k) step_seq" for k
    using fin_set [of k] by (cases "hm_get (me_decode e) k") (auto simp: e'_def hm_remove_all_get get step_seq_def)
  have "mock_valid e'" using hm_remove_all_wf [OF bwf] bids map_of_SomeD [of bumped]
    by (auto simp: mock_valid_def e'_def hm_remove_all_get split: if_splits)
  moreover have "map fst (map (\<lambda>s. (ds_id (ms_spec s), fake_token (ds_id (ms_spec s)) (emitted s))) (hm_values bumped))
      = hm_keys (me_decode e)" unfolding keys [symmetric] using bids by (auto simp: comp_def)
  moreover have "mock_decode_step now e = (Inr \<lparr>so_elapsed_ms = step_cost_ms (cost_decode (me_cost e)) (length (me_decode e)),
      so_tokens = map (\<lambda>s. (ds_id (ms_spec s), fake_token (ds_id (ms_spec s)) (emitted s))) (hm_values bumped),
      so_finished = fin\<rparr>, e')"
    using False by (simp add: mock_decode_step_def Let_def bumped_def fin_def e'_def)
  ultimately show ?thesis using that e'_get dist fin_set by simp
qed

interpretation mock: engine mock_ops mock_attached mock_valid
proof
  show "mock_valid e \<Longrightarrow> op_prefill mock_ops w now e = (r, e') \<Longrightarrow> mock_valid e' \<and> mock_attached e' = mock_attached e
      \<and> (\<forall>out. r = Inr out \<longrightarrow> map fst (po_first_tokens out) = map cs_id (filter cs_completes w))" for e w now r e'
    by (auto simp: mock_ops_def mock_prefill_def Let_def comp_def)
  show "mock_valid e \<Longrightarrow> op_add_decode_seq mock_ops s e = (r, e') \<Longrightarrow>
      mock_valid e' \<and> mock_attached e' = (case r of Inl _ \<Rightarrow> mock_attached e | Inr _ \<Rightarrow> insert (ds_id s) (mock_attached e))" for e s r e'
    by (auto simp: mock_ops_def mock_add_decode_seq_def mock_valid_def mock_attached_def hm_simps split: if_splits)
  show "mock_valid e \<Longrightarrow> op_remove_seq mock_ops i e = (r, e') \<Longrightarrow> mock_valid e' \<and> mock_attached e' = mock_attached e - {i}" for e i r e'
    by (auto simp: mock_ops_def mock_remove_seq_def mock_valid_def mock_attached_def hm_simps split: if_splits)
  show "mock_valid e \<Longrightarrow> op_decode_concurrency mock_ops e = card (mock_attached e)" for e
    using hm.len_card [of "me_decode e"] by (simp add: mock_ops_def mock_decode_concurrency_def mock_attached_def mock_valid_def)
  show "mock_valid e' \<and> (case r of Inl _ \<Rightarrow> mock_attached e' = mock_attached e
        | Inr out \<Rightarrow> set (map fst (so_tokens out)) = mock_attached e \<and> set (so_finished out) \<subseteq> mock_attached e
            \<and> distinct (so_finished out) \<and> mock_attached e' = mock_attached e - set (so_finished out))"
    if v: "mock_valid e" and st: "op_decode_step mock_ops now e = (r, e')" for e now r e'
  proof -
    obtain out e1 where o: "mock_decode_step now e = (Inr out, e1)" "mock_valid e1"
      "\<forall>k. hm_get (me_decode e1) k = Option.bind (hm_get (me_decode e) k) step_seq"
      "map fst (so_tokens out) = hm_keys (me_decode e)" "distinct (so_finished out)"
      "\<forall>k. k \<in> set (so_finished out) \<longleftrightarrow> (\<exists>s. hm_get (me_decode e) k = Some s \<and> step_seq s = None)"
      using mock_step_spec [OF v] by blast
    have "mock_attached e1 = mock_attached e - set (so_finished out)"
    proof (rule set_eqI)
      fix k
      show "k \<in> mock_attached e1 \<longleftrightarrow> k \<in> mock_attached e - set (so_finished out)"
        using o(3,6) by (cases "hm_get (me_decode e) k") (auto simp: mock_attached_def domIff)
    qed
    moreover have "set (so_finished out) \<subseteq> mock_attached e" using o(6) by (auto simp: mock_attached_def)
    moreover have "set (map fst (so_tokens out)) = mock_attached e"
      unfolding o(4) mock_attached_def by (rule hm.keys_get)
    ultimately show ?thesis using st o by (auto simp: mock_ops_def)
  qed
qed

subsection \<open>The life of a sequence\<close>

fun mock_run :: "nat \<Rightarrow> millis \<Rightarrow> mock_engine \<Rightarrow> mock_engine" where
  "mock_run 0 now e = e"
| "mock_run (Suc n) now e = mock_run n now (snd (mock_decode_step now e))"

lemma mock_step_get:
  assumes "mock_valid e"
  shows "mock_valid (snd (mock_decode_step now e))"
    "hm_get (me_decode (snd (mock_decode_step now e))) k = Option.bind (hm_get (me_decode e) k) step_seq"
  using mock_step_spec [OF assms, of now] by (metis snd_conv)+

lemma mock_run_gone: "mock_valid e \<Longrightarrow> hm_get (me_decode e) i = None \<Longrightarrow> hm_get (me_decode (mock_run k now e)) i = None"
  by (induction k arbitrary: e) (auto simp: mock_step_get)

lemma mock_run_get:
  assumes "mock_valid e" "hm_get (me_decode e) i = Some s"
  shows "hm_get (me_decode (mock_run k now e)) i =
    (if k < max (ds_max_tokens (ms_spec s) - emitted s) 1 then Some (s\<lparr>emitted := emitted s + k\<rparr>) else None)"
  using assms
proof (induction k arbitrary: e s)
  case (Suc k)
  let ?e = "snd (mock_decode_step now e)"
  have v: "mock_valid ?e" and g: "hm_get (me_decode ?e) i = step_seq s"
    using mock_step_get [OF Suc.prems(1)] Suc.prems(2) by simp_all
  show ?case
  proof (cases "emitted s + 1 \<ge> ds_max_tokens (ms_spec s)")
    case True
    then show ?thesis using mock_run_gone [OF v] g by (auto simp: step_seq_def)
  next
    case False
    then have "hm_get (me_decode ?e) i = Some (bump s)" using g by (simp add: step_seq_def)
    from Suc.IH [OF v this] False show ?thesis by (auto simp: bump_def)
  qed
qed simp

text \<open>A sequence lives exactly as long as its budget. On a well-formed mock engine, a sequence
  attached with a budget of \<open>n\<close> tokens is, after \<open>k\<close> decode steps, still attached with
  \<open>k + 1\<close> tokens emitted precisely while \<open>k < max (n - 1) 1\<close>, and gone afterwards; whatever else
  is attached does not matter. In particular a budget of one token still costs a decode step
  and ends with two tokens.\<close>

theorem sequence_lives_its_budget:
  assumes "mock_valid e"
  shows "hm_get (me_decode (mock_run k now (snd (mock_add_decode_seq s e)))) (ds_id s) =
    (if k < max (ds_max_tokens s - 1) 1 then Some \<lparr>ms_spec = s, emitted = k + 1\<rparr> else None)"
proof -
  let ?e = "snd (mock_add_decode_seq s e)"
  have "mock_valid ?e" using mock.add_law [OF assms, of s] by (simp add: mock_ops_def mock_add_decode_seq_def)
  moreover have "hm_get (me_decode ?e) (ds_id s) = Some \<lparr>ms_spec = s, emitted = 1\<rparr>"
    by (simp add: mock_add_decode_seq_def hm_simps)
  ultimately show ?thesis by (simp add: mock_run_get)
qed

definition sample_seq :: decode_seq_spec where
  "sample_seq = \<lparr>ds_id = 1, ds_prompt_len = 4000, ds_first_token = 1, ds_max_tokens = 3, ds_kv_blocks = []\<rparr>"

definition sample_cost :: cost_model where
  "sample_cost = cost_model_new (prefill_curve_for_worker default_prefill_calibration 2 2)
     (from_calibration default_decode_calibration 8) 0"

theorem sequence_lives_its_budget_witness:
  "hm_get (me_decode (mock_run 2 0 (snd (mock_add_decode_seq sample_seq (mock_decode_worker ''m'' [] 8 8192 sample_cost VirtualTime))))) 1 = None"
proof -
  have "mock_valid (mock_decode_worker ''m'' [] 8 8192 sample_cost VirtualTime)"
    by (simp add: mock_decode_worker_def mock_new_valid)
  from sequence_lives_its_budget [OF this, of 2 0 sample_seq] show ?thesis by (simp add: sample_seq_def)
qed

subsection \<open>Costs\<close>

lemma step_cost_mono:
  assumes "0 \<le> slope_ms c" "0 \<le> knee_penalty c" "a \<le> b"
  shows "step_cost_ms c a \<le> step_cost_ms c b"
proof -
  have lin: "base_ms c + slope_ms c * real a \<le> base_ms c + slope_ms c * real b"
    using assms by (simp add: mult_left_mono)
  have sp: "0 \<le> slope_ms c * knee_penalty c" using assms by simp
  show ?thesis
  proof (cases "knee c")
    case (Fin k)
    have "real a \<le> real b" using assms(3) by simp
    then have "(real a - k) * (slope_ms c * knee_penalty c) \<le> (real b - k) * (slope_ms c * knee_penalty c)"
      using sp by (intro mult_right_mono) simp_all
    moreover have "k < real b \<Longrightarrow> 0 \<le> (real b - k) * (slope_ms c * knee_penalty c)" using sp by simp
    ultimately show ?thesis using lin Fin assms(3) by (auto simp: step_cost_ms_def Let_def mult.assoc)
  qed (use lin in \<open>simp add: step_cost_ms_def\<close>)
qed

text \<open>The decode cost model passes through its measurement and never rewards load. Fitted to
  a measured point of positive concurrency and a latency no smaller than the assumed
  intercept, the curve returns exactly that latency at that concurrency and the step cost is
  monotone in the number of sequences.\<close>

theorem decode_curve_fits_its_point:
  assumes "0 < n" "base \<le> itl"
  shows "step_cost_ms (from_point (real n) itl base) n = itl
    \<and> (\<forall>a b. a \<le> b \<longrightarrow> step_cost_ms (from_point (real n) itl base) a \<le> step_cost_ms (from_point (real n) itl base) b)"
proof -
  have "step_cost_ms (from_point (real n) itl base) n = itl"
    using assms by (simp add: from_point_def step_cost_ms_def max_def field_simps)
  moreover have "0 \<le> slope_ms (from_point (real n) itl base)" "0 \<le> knee_penalty (from_point (real n) itl base)"
    by (simp_all add: from_point_def)
  ultimately show ?thesis using step_cost_mono by blast
qed

theorem decode_curve_fits_its_point_witness: "step_cost_ms (from_point (real 53) (1723 / 100) 12) 53 = 1723 / 100"
  using decode_curve_fits_its_point [of 53 12 "1723 / 100"] by simp

end
