(* ===== verification/Kv_Holdings.thy ===== *)
theory Kv_Holdings
  imports Block_Pool
begin

text \<open>
  Both workers keep, beside their page pool, a map from requests to the pages each holds
  (\<open>kv\<close> in \<open>crates/worker/src/{prefill_worker,decode_worker}.rs\<close>). This theory states when the
  two agree, \<open>pages_agree\<close>: the references in the pool are exactly the pages in the map. The
  ways the workers change both together keep the agreement and never panic.
\<close>

type_synonym kv_map = "(request_id, block_id list) hmap"

definition held :: "kv_map \<Rightarrow> block_id multiset" where
  "held kv = mset (concat (hm_values kv))"

definition pages_agree :: "block_pool \<Rightarrow> kv_map \<Rightarrow> bool" where
  "pages_agree p kv \<longleftrightarrow> hm_wf kv \<and> pool_sys_inv (p, held kv)"

lemma held_Cons: "held (x # kv) = mset (snd x) + held kv"
  by (simp add: held_def)

lemma held_insert:
  assumes "hm_wf kv"
  shows "held (hm_insert k v kv) = mset v + held (hm_remove k kv)"
  using assms
proof (induction kv)
  case (Cons x kv)
  show ?case
  proof (cases "fst x = k")
    case True
    then have "hm_remove k (x # kv) = kv" using Cons.prems by (cases x) (simp add: delete_notin_dom)
    moreover have "hm_insert k v (x # kv) = (k, v) # kv" using True by (cases x) simp
    ultimately show ?thesis by (simp only: held_Cons snd_conv)
  next
    case False
    then have "hm_remove k (x # kv) = x # hm_remove k kv" "hm_insert k v (x # kv) = x # hm_insert k v kv"
      by (cases x; simp)+
    then show ?thesis using Cons by (simp add: held_Cons ac_simps)
  qed
qed (simp add: held_def)

lemma held_drop:
  assumes "hm_wf kv" "hm_get kv k = Some v"
  shows "held kv = mset v + held (hm_remove k kv)"
  using assms
proof (induction kv)
  case (Cons x kv)
  show ?case
  proof (cases "fst x = k")
    case True
    then have "hm_remove k (x # kv) = kv" using Cons.prems by (cases x) (simp add: delete_notin_dom)
    moreover have "snd x = v" using Cons.prems(2) True by (cases x) simp
    ultimately show ?thesis by (simp only: held_Cons)
  next
    case False
    then have "hm_remove k (x # kv) = x # hm_remove k kv" "hm_get kv k = Some v" "hm_wf kv"
      using Cons.prems by (cases x; simp)+
    then show ?thesis using Cons.IH by (simp add: held_Cons ac_simps)
  qed
qed simp

lemma held_absent [simp]: "hm_get kv k = None \<Longrightarrow> hm_remove k kv = kv"
  by (simp add: delete_notin_dom map_of_eq_None_iff image_set [symmetric] del: image_set)

lemma agree_alloc:
  assumes "pages_agree p kv" "alloc p n = Some (Inr (bs, p'))" "hm_get kv k = None"
  shows "pages_agree p' (hm_insert k bs kv)"
proof -
  have "pool_sys_inv (p', held kv + mset bs)"
    using pool_step_inv [OF _ step_alloc [OF assms(2)]] assms(1) by (simp add: pages_agree_def)
  then show ?thesis using assms by (simp add: pages_agree_def held_insert add.commute)
qed

lemma agree_extend:
  assumes "pages_agree p kv" "alloc p n = Some (Inr (bs, p'))" "hm_get kv k = Some old"
  shows "pages_agree p' (hm_insert k (old @ bs) kv)"
proof -
  have "pool_sys_inv (p', held kv + mset bs)"
    using pool_step_inv [OF _ step_alloc [OF assms(2)]] assms(1) by (simp add: pages_agree_def)
  moreover have "held (hm_insert k (old @ bs) kv) = held kv + mset bs"
    using held_drop [of kv k old] held_insert [of kv k "old @ bs"] assms(1,3) by (simp add: pages_agree_def ac_simps)
  ultimately show ?thesis using assms by (simp add: pages_agree_def)
qed

lemma agree_release:
  assumes "pages_agree p kv" "hm_get kv k = Some bs"
  obtains p' where "release p bs = Some p'" "pages_agree p' (hm_remove k kv)" "total p' = total p" "watermark p' = watermark p"
proof -
  have inv: "pool_inv p" "refs_match (p, held kv)" using assms(1) by (auto simp: pages_agree_def pool_sys_inv_def)
  have eq: "held kv = mset bs + held (hm_remove k kv)" using held_drop assms by (simp add: pages_agree_def)
  then have sub: "mset bs \<subseteq># held kv" by simp
  obtain p' where p': "release p bs = Some p'" "total p' = total p" "watermark p' = watermark p"
    using release_all_correct [OF inv(1), of bs False] refs_match_release [OF inv(2) sub] by (auto simp: release_eq)
  have "pool_sys_inv (p', held kv - mset bs)"
    using pool_step_inv [OF _ step_release [OF sub p'(1)]] assms(1) by (simp add: pages_agree_def)
  then have "pages_agree p' (hm_remove k kv)" using assms(1) eq by (simp add: pages_agree_def)
  then show thesis using that p' by blast
qed

lemma agree_can_alloc:
  assumes "pages_agree p kv" "can_admit p n"
  obtains bs p' where "alloc p n = Some (Inr (bs, p'))" "length bs = n" "total p' = total p" "watermark p' = watermark p"
proof -
  have "pool_inv p" "n \<le> available p" using assms by (auto simp: pages_agree_def pool_sys_inv_def can_admit_def)
  from alloc_correct [OF this] obtain bs p' where "alloc p n = Some (Inr (bs, p'))" "length bs = n"
    "refcount p' = refs_set_to (refcount p) bs 1" "watermark p' = watermark p" by blast
  then show thesis using that by (simp add: total_def refs_set_to_def)
qed

text \<open>Nothing held: every page can be handed out again.\<close>

lemma agree_empty:
  assumes "pages_agree p kv" "\<forall>k. hm_get kv k = None"
  shows "available p = total p"
proof -
  have "kv = []" using assms(2) by (cases kv) (auto split: if_splits)
  then have z: "refcount p ! b = 0" if "b < total p" for b
    using assms(1) that unfolding pages_agree_def pool_sys_inv_def refs_match_def by (auto simp: held_def split: if_splits)
  have "available p = length (filter (\<lambda>b. refcount p ! b = 0) [0..<total p])"
    using available_count assms(1) by (simp add: pages_agree_def pool_sys_inv_def)
  also have "filter (\<lambda>b. refcount p ! b = 0) [0..<total p] = [0..<total p]" using z by (simp add: filter_id_conv)
  finally show ?thesis by simp
qed

lemma agree_new: "pages_agree (pool_new n bs wm) []"
  using pool_inv_new by (simp add: pages_agree_def pool_sys_inv_def refs_match_def held_def pool_new_def total_def)

lemma agree_reserve_fixed: "total p' = total p \<Longrightarrow> watermark p' = watermark p \<Longrightarrow> reserve p' = reserve p"
  by (simp add: reserve_def)

end
