(* ===== verification/Decode_Worker.thy ===== *)
theory Decode_Worker
  imports Engine_Mock Kv_Holdings Decode_Sched
begin

text \<open>
  \<open>crates/worker/src/decode_worker.rs\<close>: the loop that admits sequences, drives an engine and
  returns their pages.

  The worker is the record of its fields with the local queue \<open>pending\<close> of \<open>run\<close>. One turn of
  the loop is \<open>decode_round\<close>, over any engine (\<open>engine_ops\<close>); the clock readings are arguments,
  arrivals on the channel are \<open>receive_admit\<close>. \<open>None\<close> is a panic in the page pool. The model
  covers the turns in which the receiver of the events is alive: when a send fails, \<open>run\<close>
  returns.
\<close>

record decode_admit =
  da_id :: request_id
  da_first_token :: token_id
  da_prompt_len :: nat
  da_max_tokens :: nat
  da_first_token_ms :: millis

datatype decode_event = TokenEvent request_id token_id | FinishedEvent request_id nat

record 'e decode_worker =
  dw_id :: worker_id
  dw_engine :: 'e
  dw_sched :: decode_scheduler
  dw_pool :: block_pool
  dw_kv :: kv_map
  dw_block_size :: nat
  dw_pending :: "decode_admit list"

definition decode_worker_new :: "worker_id \<Rightarrow> 'e \<Rightarrow> decode_scheduler \<Rightarrow> nat \<Rightarrow> nat \<Rightarrow> real \<Rightarrow> 'e decode_worker" where
  "decode_worker_new i e s num_blocks bs wm =
    \<lparr>dw_id = i, dw_engine = e, dw_sched = s, dw_pool = pool_new num_blocks bs wm, dw_kv = [],
     dw_block_size = bs, dw_pending = []\<rparr>"

definition dw_concurrency :: "'e decode_worker \<Rightarrow> nat" where
  "dw_concurrency w = concurrency (dw_sched w)"

definition dw_cap :: "'e decode_worker \<Rightarrow> real" where
  "dw_cap w = cap (controller (dw_sched w))"

definition observed_step_ms :: "'e decode_worker \<Rightarrow> real" where
  "observed_step_ms w = ewma_ms (controller (dw_sched w))"

definition dw_kv_utilisation :: "'e decode_worker \<Rightarrow> real" where
  "dw_kv_utilisation w = utilisation (stats (dw_pool w))"

definition refusals :: "'e decode_worker \<Rightarrow> nat" where
  "refusals w = refused (dw_sched w)"

definition receive_admit :: "decode_admit \<Rightarrow> 'e decode_worker \<Rightarrow> 'e decode_worker" where
  "receive_admit j w = w\<lparr>dw_pending := dw_pending w @ [j]\<rparr>"

definition pages_needed :: "'e decode_worker \<Rightarrow> decode_admit \<Rightarrow> nat" where
  "pages_needed w j = blocks_for (da_prompt_len j + da_max_tokens j) (dw_block_size w)"

definition seq_spec :: "decode_admit \<Rightarrow> block_id list \<Rightarrow> decode_seq_spec" where
  "seq_spec j blocks = \<lparr>ds_id = da_id j, ds_prompt_len = da_prompt_len j, ds_first_token = da_first_token j,
     ds_max_tokens = da_max_tokens j, ds_kv_blocks = blocks\<rparr>"

definition note_admission :: "decode_admit \<Rightarrow> 'e decode_worker \<Rightarrow> admit_decision \<times> 'e decode_worker" where
  "note_admission j w =
    (let d = decode_can_admit (dw_sched w) (can_admit (dw_pool w) (pages_needed w j))
     in (d, w\<lparr>dw_sched := note_decision (dw_sched w) d\<rparr>))"

text \<open>The admission loop: \<open>pending\<close> is consumed from the front until the head is refused.\<close>

fun admission :: "'e engine_ops \<Rightarrow> decode_admit list \<Rightarrow> 'e decode_worker \<Rightarrow> 'e decode_worker option" where
  "admission ops [] w = Some (w\<lparr>dw_pending := []\<rparr>)"
| "admission ops (j # js) w =
     (case note_admission j w of (d, w1) \<Rightarrow>
      if \<not> is_admit d then Some (w1\<lparr>dw_pending := j # js\<rparr>)
      else case alloc (dw_pool w1) (pages_needed w1 j) of
        None \<Rightarrow> None
      | Some (Inl _) \<Rightarrow> Some (w1\<lparr>dw_pending := j # js\<rparr>)
      | Some (Inr (blocks, p)) \<Rightarrow>
          let kv = hm_insert (da_id j) blocks (dw_kv w1);
              (r, e) = op_add_decode_seq ops (seq_spec j blocks) (dw_engine w1)
          in case r of
               Inl _ \<Rightarrow>
                 (case release p blocks of None \<Rightarrow> None
                  | Some p' \<Rightarrow> admission ops js
                      (w1\<lparr>dw_engine := e, dw_pool := p', dw_kv := hm_remove (da_id j) kv\<rparr>))
             | Inr _ \<Rightarrow>
                 admission ops js (w1\<lparr>dw_engine := e, dw_pool := p, dw_kv := kv,
                   dw_sched := admit (dw_sched w1) (seq_new (da_id j) (da_first_token_ms j) (da_max_tokens j))\<rparr>))"

text \<open>The pages of a finished sequence go back, and it is detached from the engine.\<close>

fun finish_seqs :: "'e engine_ops \<Rightarrow> running_seq list \<Rightarrow> 'e decode_worker \<Rightarrow> (decode_event list \<times> 'e decode_worker) option" where
  "finish_seqs ops [] w = Some ([], w)"
| "finish_seqs ops (s # ss) w =
     (let released = (case hm_get (dw_kv w) (rs_id s) of None \<Rightarrow> Some w
            | Some blocks \<Rightarrow> map_option (\<lambda>p. w\<lparr>dw_kv := hm_remove (rs_id s) (dw_kv w), dw_pool := p\<rparr>)
                (release (dw_pool w) blocks))
      in case released of None \<Rightarrow> None
      | Some w1 \<Rightarrow>
          map_option (\<lambda>(evs, w'). (FinishedEvent (rs_id s) (tokens_emitted s) # evs, w'))
            (finish_seqs ops ss (w1\<lparr>dw_engine := snd (op_remove_seq ops (rs_id s) (dw_engine w1))\<rparr>)))"

text \<open>The rest of a turn, after admission: idle, or one engine step booked and its finished
  sequences retired.\<close>

definition decode_advance :: "'e engine_ops \<Rightarrow> millis \<Rightarrow> millis \<Rightarrow> 'e decode_worker \<Rightarrow>
    (decode_event list \<times> 'e decode_worker) option" where
  "decode_advance ops now now' w1 =
    (if dw_concurrency w1 = 0 then Some ([], w1)
     else let (r, e) = op_decode_step ops now (dw_engine w1); w2 = w1\<lparr>dw_engine := e\<rparr>
     in case r of
          Inl _ \<Rightarrow> Some ([], w2)
        | Inr st \<Rightarrow>
            let (fin, s) = on_step (dw_sched w2) now' (so_elapsed_ms st) (map fst (so_tokens st)) (so_finished st)
            in map_option (\<lambda>(evs, w'). (map (\<lambda>(i, t). TokenEvent i t) (so_tokens st) @ evs, w'))
                 (finish_seqs ops fin (w2\<lparr>dw_sched := s\<rparr>)))"

definition decode_round :: "'e engine_ops \<Rightarrow> millis \<Rightarrow> millis \<Rightarrow> 'e decode_worker \<Rightarrow>
    (decode_event list \<times> 'e decode_worker) option" where
  "decode_round ops now now' w =
    (case admission ops (dw_pending w) w of None \<Rightarrow> None | Some w1 \<Rightarrow> decode_advance ops now now' w1)"

subsection \<open>Pages and running sequences\<close>

text \<open>What may wait: identifiers not in use, and budgets that are \<open>u32\<close> values. The core of the worker's invariant: the pool's references are the pages in \<open>kv\<close>, and \<open>kv\<close> has
  an entry for exactly the running sequences.\<close>

definition dw_core :: "'e decode_worker \<Rightarrow> bool" where
  "dw_core w \<longleftrightarrow> pages_agree (dw_pool w) (dw_kv w) \<and> decode_inv (dw_sched w)
     \<and> dom (hm_get (dw_kv w)) = dom (hm_get (running (dw_sched w)))"

definition pending_fresh :: "kv_map \<Rightarrow> decode_admit list \<Rightarrow> bool" where
  "pending_fresh kv js \<longleftrightarrow> distinct (map da_id js) \<and> (\<forall>j \<in> set js. hm_get kv (da_id j) = None)
     \<and> (\<forall>j \<in> set js. da_max_tokens j \<le> u32_max)"

definition dw_inv :: "'e decode_worker \<Rightarrow> bool" where
  "dw_inv w \<longleftrightarrow> dw_core w \<and> pending_fresh (dw_kv w) (dw_pending w)"

text \<open>What no operation of the worker changes.\<close>

definition same_pool_shape :: "'e decode_worker \<Rightarrow> 'e decode_worker \<Rightarrow> bool" where
  "same_pool_shape w w' \<longleftrightarrow> total (dw_pool w') = total (dw_pool w) \<and> watermark (dw_pool w') = watermark (dw_pool w)
     \<and> dw_block_size w' = dw_block_size w"

lemma same_pool_shape_trans: "same_pool_shape a b \<Longrightarrow> same_pool_shape b c \<Longrightarrow> same_pool_shape a c"
  by (simp add: same_pool_shape_def)

lemma running_note [simp]: "running (note_decision d x) = running d"
  by (simp add: note_decision_def Let_def)

lemma admit_needs_headroom: "is_admit (decode_can_admit d h) \<Longrightarrow> h"
  by (auto simp: decode_can_admit_def is_admit_def split: if_splits)

lemma note_admission_simps:
  assumes "note_admission j w = (d, w1)"
  shows "d = decode_can_admit (dw_sched w) (can_admit (dw_pool w) (pages_needed w j))"
    "w1 = w\<lparr>dw_sched := note_decision (dw_sched w) d\<rparr>"
  using assms by (auto simp: note_admission_def Let_def)

text \<open>One admitted sequence, when the engine takes it and when it does not.\<close>

lemma admit_one_core:
  assumes "dw_core w" "hm_get (dw_kv w) (da_id j) = None" "alloc (dw_pool w) n = Some (Inr (bs, p))"
  shows "dw_core (w\<lparr>dw_engine := e, dw_pool := p, dw_kv := hm_insert (da_id j) bs (dw_kv w),
    dw_sched := admit (dw_sched w) (seq_new (da_id j) t m)\<rparr>)"
proof -
  have "dom (hm_get (running (admit (dw_sched w) (seq_new (da_id j) t m)))) = insert (da_id j) (dom (hm_get (running (dw_sched w))))"
    by (auto simp: admit_def seq_new_def hm_simps)
  then show ?thesis using assms agree_alloc [OF _ assms(3,2)] admit_inv [of "dw_sched w"] by (simp add: dw_core_def hm_simps)
qed

lemma admit_undone_core:
  assumes "dw_core w" "hm_get (dw_kv w) (da_id j) = None" "alloc (dw_pool w) n = Some (Inr (bs, p))"
  obtains p' where "release p bs = Some p'" "total p' = total p" "watermark p' = watermark p"
    "dw_core (w\<lparr>dw_engine := e, dw_pool := p', dw_kv := hm_remove (da_id j) (hm_insert (da_id j) bs (dw_kv w))\<rparr>)"
proof -
  let ?kv = "hm_insert (da_id j) bs (dw_kv w)"
  have "pages_agree p ?kv" using agree_alloc [OF _ assms(3,2)] assms(1) by (simp add: dw_core_def)
  then obtain p' where p': "release p bs = Some p'" "pages_agree p' (hm_remove (da_id j) ?kv)"
    "total p' = total p" "watermark p' = watermark p"
    by (rule agree_release [where k = "da_id j" and bs = bs]) (simp add: hm_simps)
  have "hm_get (hm_remove (da_id j) ?kv) = hm_get (dw_kv w)" using assms(2) by (auto simp: hm_simps)
  then show thesis using that [OF p'(1,3,4)] p'(2) assms(1) by (simp add: dw_core_def)
qed

lemma admission_inv:
  assumes "dw_core w" "pending_fresh (dw_kv w) js"
  shows "\<exists>w'. admission ops js w = Some w' \<and> dw_inv w' \<and> same_pool_shape w w' \<and> suffix (dw_pending w') js"
  using assms
proof (induction js arbitrary: w)
  case Nil
  then show ?case by (auto simp: dw_inv_def dw_core_def pending_fresh_def same_pool_shape_def)
next
  case (Cons j js)
  obtain d w1 where n: "note_admission j w = (d, w1)" by (cases "note_admission j w")
  note n' = note_admission_simps [OF n]
  have c1: "dw_core w1" using Cons.prems(1) note_inv by (auto simp: n'(2) dw_core_def)
  have same: "dw_kv w1 = dw_kv w" "dw_pool w1 = dw_pool w" "dw_block_size w1 = dw_block_size w" by (simp_all add: n'(2))
  show ?case
  proof (cases "is_admit d")
    case False
    then have "admission ops (j # js) w = Some (w1\<lparr>dw_pending := j # js\<rparr>)" by (simp add: n)
    then show ?thesis using c1 Cons.prems(2) same
      by (auto simp: dw_inv_def dw_core_def same_pool_shape_def)
  next
    case True
    have room: "can_admit (dw_pool w1) (pages_needed w1 j)"
      using admit_needs_headroom True n'(1) same by (simp add: pages_needed_def)
    obtain bs p where al: "alloc (dw_pool w1) (pages_needed w1 j) = Some (Inr (bs, p))"
      "total p = total (dw_pool w1)" "watermark p = watermark (dw_pool w1)"
      using agree_can_alloc [OF _ room] c1 by (metis dw_core_def)
    obtain r e where r: "op_add_decode_seq ops (seq_spec j bs) (dw_engine w1) = (r, e)"
      by (cases "op_add_decode_seq ops (seq_spec j bs) (dw_engine w1)")
    have fresh: "hm_get (dw_kv w1) (da_id j) = None" "pending_fresh (dw_kv w1) js" "da_id j \<notin> da_id ` set js"
      using Cons.prems(2) same by (auto simp: pending_fresh_def)
    have go: "\<exists>w'. admission ops (j # js) w = Some w' \<and> dw_inv w' \<and> same_pool_shape w w' \<and> suffix (dw_pending w') (j # js)"
      if h: "admission ops (j # js) w = admission ops js w2" "dw_core w2" "pending_fresh (dw_kv w2) js" "same_pool_shape w w2" for w2
      using Cons.IH [OF h(2,3)] h(1,4) by (metis same_pool_shape_trans suffix_ConsI)
    show ?thesis
    proof (cases r)
      case (Inl x)
      obtain p' where p': "release p bs = Some p'" "total p' = total p" "watermark p' = watermark p"
        "dw_core (w1\<lparr>dw_engine := e, dw_pool := p', dw_kv := hm_remove (da_id j) (hm_insert (da_id j) bs (dw_kv w1))\<rparr>)"
        using admit_undone_core [OF c1 fresh(1) al(1)] by blast
      show ?thesis
        by (rule go [OF _ p'(4)]) (use n True al r Inl p' fresh same in
          \<open>auto simp: pending_fresh_def same_pool_shape_def hm_simps\<close>)
    next
      case (Inr x)
      show ?thesis
        by (rule go [OF _ admit_one_core [OF c1 fresh(1) al(1)]]) (use n True al r Inr fresh same in
          \<open>auto simp: pending_fresh_def same_pool_shape_def hm_simps image_iff\<close>)
    qed
  qed
qed

subsection \<open>Retiring sequences\<close>

lemma finish_seqs_spec:
  assumes "pages_agree (dw_pool w) (dw_kv w)"
  shows "\<exists>evs w'. finish_seqs ops ss w = Some (evs, w') \<and> pages_agree (dw_pool w') (dw_kv w')
    \<and> hm_get (dw_kv w') = (hm_get (dw_kv w)) |` (- rs_id ` set ss) \<and> dw_sched w' = dw_sched w
    \<and> dw_pending w' = dw_pending w \<and> same_pool_shape w w'
    \<and> evs = map (\<lambda>s. FinishedEvent (rs_id s) (tokens_emitted s)) ss"
  using assms
proof (induction ss arbitrary: w)
  case Nil
  then show ?case by (simp add: same_pool_shape_def)
next
  case (Cons s ss)
  have step: "\<exists>w1. (case hm_get (dw_kv w) (rs_id s) of None \<Rightarrow> Some w
      | Some blocks \<Rightarrow> map_option (\<lambda>p. w\<lparr>dw_kv := hm_remove (rs_id s) (dw_kv w), dw_pool := p\<rparr>) (release (dw_pool w) blocks)) = Some w1
      \<and> pages_agree (dw_pool w1) (dw_kv w1) \<and> hm_get (dw_kv w1) = (hm_get (dw_kv w))(rs_id s := None)
      \<and> dw_sched w1 = dw_sched w \<and> dw_pending w1 = dw_pending w \<and> same_pool_shape w w1"
  proof (cases "hm_get (dw_kv w) (rs_id s)")
    case None
    then show ?thesis using Cons.prems by (auto simp: same_pool_shape_def)
  next
    case (Some bs)
    obtain p where "release (dw_pool w) bs = Some p" "pages_agree p (hm_remove (rs_id s) (dw_kv w))"
      "total p = total (dw_pool w)" "watermark p = watermark (dw_pool w)"
      using agree_release [OF Cons.prems Some] by blast
    then show ?thesis using Some by (simp add: same_pool_shape_def hm_simps)
  qed
  then obtain w1 where w1: "(case hm_get (dw_kv w) (rs_id s) of None \<Rightarrow> Some w
      | Some blocks \<Rightarrow> map_option (\<lambda>p. w\<lparr>dw_kv := hm_remove (rs_id s) (dw_kv w), dw_pool := p\<rparr>) (release (dw_pool w) blocks)) = Some w1"
    "pages_agree (dw_pool w1) (dw_kv w1)" "hm_get (dw_kv w1) = (hm_get (dw_kv w))(rs_id s := None)"
    "dw_sched w1 = dw_sched w" "dw_pending w1 = dw_pending w" "same_pool_shape w w1" by blast
  let ?w = "w1\<lparr>dw_engine := snd (op_remove_seq ops (rs_id s) (dw_engine w1))\<rparr>"
  obtain evs w' where IH: "finish_seqs ops ss ?w = Some (evs, w')" "pages_agree (dw_pool w') (dw_kv w')"
    "hm_get (dw_kv w') = (hm_get (dw_kv ?w)) |` (- rs_id ` set ss)" "dw_sched w' = dw_sched ?w"
    "dw_pending w' = dw_pending ?w" "same_pool_shape ?w w'" "evs = map (\<lambda>s. FinishedEvent (rs_id s) (tokens_emitted s)) ss"
    using Cons.IH [of ?w] w1(2) by auto
  have "hm_get (dw_kv w') = (hm_get (dw_kv w)) |` (- rs_id ` set (s # ss))"
    unfolding IH(3) using w1(3) by (auto simp: restrict_map_def)
  moreover have "finish_seqs ops (s # ss) w = Some (FinishedEvent (rs_id s) (tokens_emitted s) # evs, w')"
    using w1(1) IH(1) by simp
  ultimately show ?case using IH w1 by (auto simp: same_pool_shape_def)
qed

lemma retire_ids:
  assumes "\<forall>k s. hm_get (running d) k = Some s \<longrightarrow> rs_id s = k"
  shows "rs_id ` set (fst (retire ids d)) = set ids \<inter> dom (hm_get (running d))"
  using assms
proof (induction ids arbitrary: d)
  case (Cons i ids)
  show ?case
  proof (cases "hm_get (running d) i")
    case None
    have "rs_id ` set (fst (retire ids (d\<lparr>unknown_finish_reports := unknown_finish_reports d + 1\<rparr>)))
        = set ids \<inter> dom (hm_get (running d))" using Cons.IH [of "d\<lparr>unknown_finish_reports := unknown_finish_reports d + 1\<rparr>"] Cons.prems by simp
    then show ?thesis using None by auto
  next
    case (Some s)
    let ?d = "d\<lparr>running := hm_remove i (running d), flagged := flagged d - {i}\<rparr>"
    have "rs_id ` set (fst (retire ids ?d)) = set ids \<inter> dom (hm_get (running ?d))"
      by (rule Cons.IH) (use Cons.prems in \<open>auto simp: hm_simps\<close>)
    moreover have "rs_id s = i" using Cons.prems Some by blast
    ultimately show ?thesis using Some by (auto simp: split_beta Let_def hm_simps)
  qed
qed simp

lemma on_step_ids:
  assumes "decode_inv d"
  shows "rs_id ` set (fst (on_step d now ms adv fin)) = set fin \<inter> dom (hm_get (running d))"
    "dom (hm_get (running (snd (on_step d now ms adv fin)))) = dom (hm_get (running d)) - set fin"
proof -
  let ?d2 = "d\<lparr>controller := observe (controller d) (case steering_itl_ms d now of Some x \<Rightarrow> x | None \<Rightarrow> ms) (concurrency d),
    running := book_advanced now (max (tokens_per_step d) 1) adv (running d)\<rparr>"
  have f: "fst (on_step d now ms adv fin) = fst (retire fin ?d2)" by (simp add: on_step_def Let_def split_beta)
  have "\<forall>k s. hm_get (running ?d2) k = Some s \<longrightarrow> rs_id s = k"
    using assms by (auto simp: decode_inv_def book_advanced_get)
  from retire_ids [OF this, of fin] show "rs_id ` set (fst (on_step d now ms adv fin)) = set fin \<inter> dom (hm_get (running d))"
    unfolding f by (auto simp: book_advanced_get dom_def)
  show "dom (hm_get (running (snd (on_step d now ms adv fin)))) = dom (hm_get (running d)) - set fin"
    by (auto simp: on_step_effect(1) [OF assms] booked_def split: if_splits)
qed

lemma step_and_finish_inv:
  assumes "dw_inv w"
  shows "\<exists>evs w'. finish_seqs ops (fst (on_step (dw_sched w) now ms adv fin))
      (w\<lparr>dw_engine := e, dw_sched := snd (on_step (dw_sched w) now ms adv fin)\<rparr>) = Some (evs, w')
    \<and> dw_inv w' \<and> same_pool_shape w w' \<and> dw_pending w' = dw_pending w
    \<and> dw_sched w' = snd (on_step (dw_sched w) now ms adv fin)"
proof -
  let ?s = "snd (on_step (dw_sched w) now ms adv fin)" and ?out = "fst (on_step (dw_sched w) now ms adv fin)"
  let ?w = "w\<lparr>dw_engine := e, dw_sched := ?s\<rparr>"
  have c: "pages_agree (dw_pool w) (dw_kv w)" "decode_inv (dw_sched w)"
    "dom (hm_get (dw_kv w)) = dom (hm_get (running (dw_sched w)))" "pending_fresh (dw_kv w) (dw_pending w)"
    using assms by (auto simp: dw_inv_def dw_core_def)
  obtain evs w' where f: "finish_seqs ops ?out ?w = Some (evs, w')" "pages_agree (dw_pool w') (dw_kv w')"
    "hm_get (dw_kv w') = (hm_get (dw_kv ?w)) |` (- rs_id ` set ?out)" "dw_sched w' = dw_sched ?w"
    "dw_pending w' = dw_pending ?w" "same_pool_shape ?w w'"
    using finish_seqs_spec [of ?w ops ?out] c(1) by auto
  have "dom (hm_get (dw_kv w')) = dom (hm_get (running ?s))"
    unfolding f(3) on_step_ids(2) [OF c(2)] using on_step_ids(1) [OF c(2)] c(3) by auto
  moreover have "pending_fresh (dw_kv w') (dw_pending w')"
    using c(4) f(3,5) by (auto simp: pending_fresh_def restrict_map_def)
  ultimately have "dw_inv w'" using f(2,4) on_step_inv [OF c(2)] by (simp add: dw_inv_def dw_core_def)
  then show ?thesis using f by (auto simp: same_pool_shape_def)
qed

lemma decode_advance_inv:
  assumes "dw_inv w"
  shows "\<exists>evs w'. decode_advance ops now now' w = Some (evs, w') \<and> dw_inv w' \<and> same_pool_shape w w'
    \<and> dw_pending w' = dw_pending w"
proof (cases "dw_concurrency w = 0")
  case True
  then show ?thesis using assms by (simp add: decode_advance_def same_pool_shape_def)
next
  case False
  obtain r e where r: "op_decode_step ops now (dw_engine w) = (r, e)" by (cases "op_decode_step ops now (dw_engine w)")
  show ?thesis
  proof (cases r)
    case (Inl x)
    have "dw_inv (w\<lparr>dw_engine := e\<rparr>)" using assms by (simp add: dw_inv_def dw_core_def)
    then show ?thesis using False r Inl by (simp add: decode_advance_def same_pool_shape_def)
  next
    case (Inr st)
    from step_and_finish_inv [OF assms, of ops now' "so_elapsed_ms st" "map fst (so_tokens st)" "so_finished st" e]
    show ?thesis using False r Inr by (auto simp: decode_advance_def split_beta Let_def)
  qed
qed

lemma decode_round_inv:
  assumes "dw_inv w"
  shows "\<exists>evs w'. decode_round ops now now' w = Some (evs, w') \<and> dw_inv w' \<and> same_pool_shape w w'
    \<and> suffix (dw_pending w') (dw_pending w)"
proof -
  obtain w1 where w1: "admission ops (dw_pending w) w = Some w1" "dw_inv w1" "same_pool_shape w w1"
    "suffix (dw_pending w1) (dw_pending w)" using admission_inv assms by (metis dw_inv_def)
  obtain evs w' where "decode_advance ops now now' w1 = Some (evs, w')" "dw_inv w'" "same_pool_shape w1 w'"
    "dw_pending w' = dw_pending w1" using decode_advance_inv [OF w1(2)] by blast
  then show ?thesis using w1 same_pool_shape_trans by (auto simp: decode_round_def)
qed

subsection \<open>The life of a worker\<close>

text \<open>Requests arrive with identifiers that are not in use (\<open>RequestIdSource\<close> never repeats one), and
  turns of the loop follow each other at any times.\<close>

inductive dw_step :: "'e engine_ops \<Rightarrow> 'e decode_worker \<Rightarrow> 'e decode_worker \<Rightarrow> bool" for ops where
  dw_receive: "pending_fresh (dw_kv w) (dw_pending w @ [j]) \<Longrightarrow> dw_step ops w (receive_admit j w)"
| dw_turn: "decode_round ops now now' w = Some (evs, w') \<Longrightarrow> dw_step ops w w'"

inductive_cases dw_stepE: "dw_step ops w w'"

definition dw_init :: "'e decode_worker \<Rightarrow> bool" where
  "dw_init w \<longleftrightarrow> (\<exists>i e s n bs wm. decode_init s \<and> w = decode_worker_new i e s n bs wm)"

lemma decode_init_idle: "decode_init d \<Longrightarrow> running d = []"
  by (auto simp: decode_init_def decode_new_def)

lemma dw_init_inv: "dw_init w \<Longrightarrow> dw_inv w"
proof -
  assume "dw_init w"
  then obtain i e s n bs wm where w: "decode_init s" "w = decode_worker_new i e s n bs wm" by (auto simp: dw_init_def)
  then show ?thesis using agree_new decode_sys.init_inv [OF w(1)] decode_init_idle [OF w(1)]
    by (simp add: decode_worker_new_def dw_inv_def dw_core_def pending_fresh_def)
qed

lemma dw_step_inv:
  assumes "dw_inv w" "dw_step ops w w'"
  shows "dw_inv w'"
  using assms(2)
proof cases
  case (dw_receive j)
  then show ?thesis using assms(1) by (simp add: dw_inv_def dw_core_def receive_admit_def)
next
  case (dw_turn now now' evs)
  then show ?thesis using decode_round_inv [OF assms(1), of ops now now'] by auto
qed

interpretation decode_worker_sys: invariant_system dw_init "dw_step ops" dw_inv
  by unfold_locales (auto intro: dw_init_inv dw_step_inv)

text \<open>C12. A decode worker accounts for every page, whatever the engine does. In every state it can
  reach with requests of fresh identifiers, a turn of its loop completes without a panic in the page pool; the
  requests holding pages are exactly the running sequences; each page's reference count is the
  number of times it is held, so no page is shared and none is leaked; and when nothing runs
  the whole pool is available.\<close>

theorem decode_worker_accounts_for_every_page:
  assumes "dw_init w0" "(dw_step ops)\<^sup>*\<^sup>* w0 w"
  shows "(\<exists>evs w'. decode_round ops now now' w = Some (evs, w'))
    \<and> dom (hm_get (dw_kv w)) = dom (hm_get (running (dw_sched w)))
    \<and> (\<forall>b < total (dw_pool w). refcount (dw_pool w) ! b = count_list (concat (hm_values (dw_kv w))) b)
    \<and> (dw_concurrency w = 0 \<longrightarrow> available (dw_pool w) = total (dw_pool w))"
proof -
  have inv: "dw_inv w" using decode_worker_sys.reachable_inv [OF assms] .
  then have c: "pages_agree (dw_pool w) (dw_kv w)" "dom (hm_get (dw_kv w)) = dom (hm_get (running (dw_sched w)))"
    by (auto simp: dw_inv_def dw_core_def)
  have "refcount (dw_pool w) ! b = count_list (concat (hm_values (dw_kv w))) b" if "b < total (dw_pool w)" for b
    using c(1) that unfolding pages_agree_def pool_sys_inv_def refs_match_def held_def by (auto simp: count_mset split: if_splits)
  moreover have "available (dw_pool w) = total (dw_pool w)" if "dw_concurrency w = 0"
  proof (rule agree_empty [OF c(1)])
    have "running (dw_sched w) = []" using that by (simp add: dw_concurrency_def concurrency_def)
    then show "\<forall>k. hm_get (dw_kv w) k = None" using c(2) by auto
  qed
  ultimately show ?thesis using decode_round_inv [OF inv] c(2) by blast
qed

definition mock_worker :: "nat \<Rightarrow> mock_engine decode_worker" where
  "mock_worker blocks = decode_worker_new 1 (mock_decode_worker ''m'' [] 8 blocks sample_cost VirtualTime)
     (decode_new 20 sample_controller) blocks 128 0"

definition small_job :: decode_admit where
  "small_job = \<lparr>da_id = 1, da_first_token = 5, da_prompt_len = 256, da_max_tokens = 3, da_first_token_ms = 0\<rparr>"

lemma sample_decode_init: "decode_init (decode_new 20 sample_controller)"
  unfolding decode_init_def using sample_controller_new by (intro exI [of _ 20] exI [of _ 64] exI [of _ 1] exI [of _ 128]) auto

lemma mock_worker_init: "dw_init (mock_worker n)"
  unfolding dw_init_def mock_worker_def using sample_decode_init by blast

theorem decode_worker_accounts_for_every_page_witness:
  "available (dw_pool (receive_admit small_job (mock_worker 64))) = total (dw_pool (receive_admit small_job (mock_worker 64)))"
proof -
  have "pending_fresh (dw_kv (mock_worker 64)) (dw_pending (mock_worker 64) @ [small_job])"
    by (simp add: pending_fresh_def mock_worker_def decode_worker_new_def small_job_def u32_max_def)
  then have "(dw_step mock_ops)\<^sup>*\<^sup>* (mock_worker 64) (receive_admit small_job (mock_worker 64))"
    by (intro r_into_rtranclp dw_receive)
  from decode_worker_accounts_for_every_page [OF mock_worker_init this] show ?thesis
    by (simp add: dw_concurrency_def receive_admit_def mock_worker_def decode_worker_new_def decode_new_def concurrency_def)
qed

subsection \<open>Head-of-line blocking\<close>

lemma oversized_head_refused:
  assumes "total (dw_pool w) < pages_needed w j + reserve (dw_pool w)" "dw_core w"
  shows "admission ops (j # js) w = Some (w\<lparr>dw_sched := note_decision (dw_sched w) NoKvHeadroom, dw_pending := j # js\<rparr>)"
proof -
  have "pool_inv (dw_pool w)" using assms(2) by (simp add: dw_core_def pages_agree_def pool_sys_inv_def)
  then have "available (dw_pool w) \<le> total (dw_pool w)" using available_count in_use_count by (metis le_add2)
  then have "\<not> can_admit (dw_pool w) (pages_needed w j)" using assms(1) by (simp add: can_admit_def)
  then show ?thesis by (simp add: note_admission_def decode_can_admit_def is_admit_def Let_def)
qed

text \<open>A request too large for the pool blocks the worker for good. If, in a reachable state, the
  request at the head of the queue needs more pages than the pool has above its reserve, then
  every later state still has it at the head, with everything that was queued behind it: no
  request queued behind it is ever admitted and no error is reported for it.\<close>

theorem oversized_request_blocks_the_queue:
  assumes "dw_init w0" "(dw_step ops)\<^sup>*\<^sup>* w0 w" "dw_pending w = j # js"
    "total (dw_pool w) < pages_needed w j + reserve (dw_pool w)" "(dw_step ops)\<^sup>*\<^sup>* w w'"
  shows "prefix (j # js) (dw_pending w')"
proof -
  define stuck where "stuck v \<longleftrightarrow> dw_inv v \<and> same_pool_shape w v \<and> prefix (j # js) (dw_pending v)" for v :: "'a decode_worker"
  have "stuck w" using decode_worker_sys.reachable_inv [OF assms(1,2)] assms(3) by (simp add: stuck_def same_pool_shape_def)
  have keep: "stuck v'" if st: "stuck v" "dw_step ops v v'" for v v'
    using st(2)
  proof cases
    case (dw_receive k)
    then show ?thesis using st dw_step_inv [OF _ st(2)]
      by (auto simp: stuck_def receive_admit_def same_pool_shape_def intro: prefix_order.trans)
  next
    case (dw_turn now now' evs)
    obtain ks where ks: "dw_pending v = j # js @ ks" using st(1) by (auto simp: stuck_def prefix_def)
    have inv: "dw_inv v" "same_pool_shape w v" using st(1) by (simp_all add: stuck_def)
    then have big: "total (dw_pool v) < pages_needed v j + reserve (dw_pool v)"
      using assms(4) by (simp add: same_pool_shape_def pages_needed_def reserve_def)
    let ?v = "v\<lparr>dw_sched := note_decision (dw_sched v) NoKvHeadroom, dw_pending := j # js @ ks\<rparr>"
    have ad: "admission ops (dw_pending v) v = Some ?v" unfolding ks
      by (rule oversized_head_refused [OF big]) (use inv in \<open>simp add: dw_inv_def\<close>)
    then have v1: "dw_inv ?v" using admission_inv [of v "dw_pending v" ops] inv(1) by (auto simp: dw_inv_def)
    have "decode_advance ops now now' ?v = Some (evs, v')" using dw_turn ad by (simp add: decode_round_def)
    then have "dw_inv v'" "same_pool_shape ?v v'" "dw_pending v' = dw_pending ?v"
      using decode_advance_inv [OF v1, of ops now now'] by auto
    then show ?thesis using inv(2) by (simp add: stuck_def same_pool_shape_def)
  qed
  from assms(5) \<open>stuck w\<close> have "stuck w'" by (induction rule: rtranclp_induct) (use keep in blast)+
  then show ?thesis by (simp add: stuck_def)
qed

definition huge_job :: decode_admit where
  "huge_job = \<lparr>da_id = 9, da_first_token = 5, da_prompt_len = 100000, da_max_tokens = 200, da_first_token_ms = 0\<rparr>"

theorem oversized_request_blocks_the_queue_witness:
  "\<exists>evs w'. decode_round mock_ops 0 0 (receive_admit huge_job (mock_worker 4)) = Some (evs, w') \<and> prefix [huge_job] (dw_pending w')"
proof -
  let ?w = "receive_admit huge_job (mock_worker 4)"
  have "pending_fresh (dw_kv (mock_worker 4)) (dw_pending (mock_worker 4) @ [huge_job])"
    by (simp add: pending_fresh_def mock_worker_def decode_worker_new_def huge_job_def u32_max_def)
  then have reach: "(dw_step mock_ops)\<^sup>*\<^sup>* (mock_worker 4) ?w" by (intro r_into_rtranclp dw_receive)
  have head: "dw_pending ?w = huge_job # []" by (simp add: receive_admit_def mock_worker_def decode_worker_new_def)
  have "4 < blocks_for (100000 + 200) 128" by (simp add: blocks_for_def)
  then have big: "total (dw_pool ?w) < pages_needed ?w huge_job + reserve (dw_pool ?w)"
    by (simp add: pages_needed_def receive_admit_def mock_worker_def decode_worker_new_def huge_job_def pool_new_def total_def)
  obtain evs w' where r: "decode_round mock_ops 0 0 ?w = Some (evs, w')"
    using decode_round_inv [OF decode_worker_sys.reachable_inv [OF mock_worker_init reach], of mock_ops 0 0] by blast
  then have "(dw_step mock_ops)\<^sup>*\<^sup>* ?w w'" by (intro r_into_rtranclp dw_turn)
  from oversized_request_blocks_the_queue [OF mock_worker_init reach head big this] r show ?thesis by blast
qed

subsection \<open>The scheduler's books and the mock engine\<close>

definition same_count :: "running_seq \<Rightarrow> mock_seq \<Rightarrow> bool" where
  "same_count s q \<longleftrightarrow> tokens_emitted s = emitted q \<and> requested_tokens s = ds_max_tokens (ms_spec q)
     \<and> requested_tokens s \<le> u32_max"

definition lockstep :: "mock_engine decode_worker \<Rightarrow> bool" where
  "lockstep w \<longleftrightarrow> mock_valid (dw_engine w) \<and> tokens_per_step (dw_sched w) = 1 \<and> finish_disagreements (dw_sched w) = 0
     \<and> unknown_finish_reports (dw_sched w) = 0 \<and> flagged (dw_sched w) = {}
     \<and> (\<forall>k. rel_option same_count (hm_get (running (dw_sched w)) k) (hm_get (me_decode (dw_engine w)) k))"

lemma note_frame [simp]:
  "tokens_per_step (note_decision d x) = tokens_per_step d" "finish_disagreements (note_decision d x) = finish_disagreements d"
  "unknown_finish_reports (note_decision d x) = unknown_finish_reports d" "flagged (note_decision d x) = flagged d"
  by (simp_all add: note_decision_def Let_def)

lemma mock_ops_simps [simp]:
  "op_add_decode_seq mock_ops = mock_add_decode_seq" "op_remove_seq mock_ops = mock_remove_seq"
  "op_decode_step mock_ops = mock_decode_step" "op_prefill mock_ops = mock_prefill"
  by (simp_all add: mock_ops_def)

lemma lockstep_note: "lockstep w \<Longrightarrow> lockstep (w\<lparr>dw_sched := note_decision (dw_sched w) x\<rparr>)"
  by (simp add: lockstep_def)

lemma lockstep_admit:
  assumes "lockstep w" "da_max_tokens j \<le> u32_max"
  shows "lockstep (w\<lparr>dw_engine := snd (mock_add_decode_seq (seq_spec j bs) (dw_engine w)), dw_pool := p, dw_kv := kv,
    dw_sched := admit (dw_sched w) (seq_new (da_id j) t (da_max_tokens j))\<rparr>)"
proof -
  have "mock_valid (snd (mock_add_decode_seq (seq_spec j bs) (dw_engine w)))"
    using mock.add_law [of "dw_engine w" "seq_spec j bs"] assms(1) by (auto simp: lockstep_def mock_ops_def mock_add_decode_seq_def)
  then show ?thesis using assms
    by (auto simp: lockstep_def admit_def seq_new_def mock_add_decode_seq_def seq_spec_def hm_simps same_count_def)
qed

lemma lockstep_admission:
  assumes "dw_core w" "pending_fresh (dw_kv w) js" "lockstep w" "admission mock_ops js w = Some w'"
  shows "lockstep w'"
  using assms
proof (induction js arbitrary: w)
  case Nil
  then show ?case by (auto simp: lockstep_def)
next
  case (Cons j js)
  obtain d w1 where n: "note_admission j w = (d, w1)" by (cases "note_admission j w")
  note n' = note_admission_simps [OF n]
  have c1: "dw_core w1" using Cons.prems(1) note_inv by (auto simp: n'(2) dw_core_def)
  have l1: "lockstep w1" unfolding n'(2) by (rule lockstep_note [OF Cons.prems(3)])
  have kv1: "dw_kv w1 = dw_kv w" "dw_pool w1 = dw_pool w" "dw_block_size w1 = dw_block_size w" by (simp_all add: n'(2))
  show ?case
  proof (cases "is_admit d")
    case False
    then show ?thesis using Cons.prems(4) n l1 by (auto simp: lockstep_def)
  next
    case True
    have room: "can_admit (dw_pool w1) (pages_needed w1 j)"
      using admit_needs_headroom True n'(1) kv1 by (simp add: pages_needed_def)
    obtain bs p where al: "alloc (dw_pool w1) (pages_needed w1 j) = Some (Inr (bs, p))"
      using agree_can_alloc [OF _ room] c1 by (metis dw_core_def)
    let ?w = "w1\<lparr>dw_engine := snd (mock_add_decode_seq (seq_spec j bs) (dw_engine w1)), dw_pool := p,
      dw_kv := hm_insert (da_id j) bs (dw_kv w1),
      dw_sched := admit (dw_sched w1) (seq_new (da_id j) (da_first_token_ms j) (da_max_tokens j))\<rparr>"
    have fresh: "hm_get (dw_kv w1) (da_id j) = None" using Cons.prems(2) kv1 by (simp add: pending_fresh_def)
    have "admission mock_ops js ?w = Some w'"
      using Cons.prems(4) n True al by (simp add: mock_ops_def mock_add_decode_seq_def)
    moreover have "dw_core ?w" by (rule admit_one_core [OF c1 fresh al])
    moreover have "pending_fresh (dw_kv ?w) js" using Cons.prems(2) kv1 by (auto simp: pending_fresh_def hm_simps image_iff)
    moreover have "lockstep ?w" by (rule lockstep_admit [OF l1]) (use Cons.prems(2) in \<open>simp add: pending_fresh_def\<close>)
    ultimately show ?thesis using Cons.IH by blast
  qed
qed

text \<open>Detaching sequences the mock has already dropped leaves it as it is.\<close>

lemma finish_seqs_mock:
  assumes "finish_seqs mock_ops ss w = Some (evs, w')" "\<forall>s \<in> set ss. hm_get (me_decode (dw_engine w)) (rs_id s) = None"
  shows "me_decode (dw_engine w') = me_decode (dw_engine w)"
  using assms
proof (induction ss arbitrary: w evs)
  case (Cons s ss)
  have "\<exists>w1 evs1. dw_engine w1 = dw_engine w
      \<and> finish_seqs mock_ops ss (w1\<lparr>dw_engine := snd (mock_remove_seq (rs_id s) (dw_engine w1))\<rparr>) = Some (evs1, w')"
  proof (cases "hm_get (dw_kv w) (rs_id s)")
    case None
    then show ?thesis using Cons.prems(1) by (intro exI [of _ w]) auto
  next
    case (Some bs)
    obtain z where z: "release (dw_pool w) bs = Some z" using Cons.prems(1) Some by (auto split: option.splits)
    show ?thesis using Cons.prems(1) Some z
      by (intro exI [of _ "w\<lparr>dw_kv := hm_remove (rs_id s) (dw_kv w), dw_pool := z\<rparr>"]) auto
  qed
  then obtain u evs1 where u: "dw_engine u = snd (mock_remove_seq (rs_id s) (dw_engine w))"
    "finish_seqs mock_ops ss u = Some (evs1, w')" by force
  have "me_decode (dw_engine u) = me_decode (dw_engine w)"
    using Cons.prems(2) u(1) by (simp add: mock_remove_seq_def)
  then show ?case using Cons.IH [OF u(2)] Cons.prems(2) by simp
qed simp

text \<open>One engine step: both sides count one more token for every sequence and drop the same ones.\<close>

lemma lockstep_on_step:
  assumes inv: "decode_inv (dw_sched w)" and l: "lockstep w"
    and st: "mock_decode_step now (dw_engine w) = (Inr st, e)"
  shows "lockstep (w\<lparr>dw_engine := e, dw_sched := snd (on_step (dw_sched w) now' ms (map fst (so_tokens st)) (so_finished st))\<rparr>)"
proof -
  let ?d = "dw_sched w" and ?d' = "snd (on_step (dw_sched w) now' ms (map fst (so_tokens st)) (so_finished st))"
  note E = on_step_effect [OF inv, where now = now' and step_ms = ms and adv = "map fst (so_tokens st)" and fin = "so_finished st"]
  have v: "mock_valid (dw_engine w)" and tps: "tokens_per_step ?d = 1" and zero: "finish_disagreements ?d = 0"
    "unknown_finish_reports ?d = 0" "flagged ?d = {}"
    and rel: "rel_option same_count (hm_get (running ?d) k) (hm_get (me_decode (dw_engine w)) k)" for k
    using l by (auto simp: lockstep_def)
  obtain out e1 where o: "mock_decode_step now (dw_engine w) = (Inr out, e1)" "mock_valid e1"
    "\<forall>k. hm_get (me_decode e1) k = Option.bind (hm_get (me_decode (dw_engine w)) k) step_seq"
    "map fst (so_tokens out) = hm_keys (me_decode (dw_engine w))" "distinct (so_finished out)"
    "\<forall>k. k \<in> set (so_finished out) \<longleftrightarrow> (\<exists>s. hm_get (me_decode (dw_engine w)) k = Some s \<and> step_seq s = None)"
    using mock_step_spec [OF v] by blast
  have eq: "out = st" "e1 = e" using o(1) st by auto
  have cnt: "count_list (map fst (so_tokens st)) k = 1" if "hm_get (me_decode (dw_engine w)) k = Some q" for k q
  proof -
    have "k \<in> set (hm_keys (me_decode (dw_engine w)))" using that by (metis domI hm.keys_get)
    then show ?thesis using v o(4) eq by (simp add: count_list_distinct mock_valid_def)
  qed
  have run: "rel_option (\<lambda>s q. same_count s q \<and> \<not> is_done s) (hm_get (running ?d') k) (hm_get (me_decode e) k)" for k
  proof (cases "hm_get (me_decode (dw_engine w)) k")
    case None
    then have "hm_get (running ?d) k = None" using rel [of k] by (cases "hm_get (running ?d) k") auto
    then show ?thesis using None o(3) eq by (simp add: E(1) booked_def)
  next
    case (Some q)
    then obtain s where s: "hm_get (running ?d) k = Some s" "same_count s q" using rel [of k] by (cases "hm_get (running ?d) k") auto
    show ?thesis
    proof (cases "step_seq q")
      case None
      then show ?thesis using Some o(3,6) eq by (auto simp: E(1))
    next
      case (Some q')
      then have q': "q' = bump q" "emitted q + 1 < ds_max_tokens (ms_spec q)" by (auto simp: step_seq_def split: if_splits)
      have "k \<notin> set (so_finished st)" using o(6) eq Some \<open>hm_get (me_decode (dw_engine w)) k = Some q\<close> by auto
      then have "hm_get (running ?d') k = Some (book_tokens now' 1 s)"
        using cnt [OF \<open>hm_get (me_decode (dw_engine w)) k = Some q\<close>] s(1) tps by (simp add: E(1) booked_def)
      moreover have "same_count (book_tokens now' 1 s) q'" "\<not> is_done (book_tokens now' 1 s)"
        using s(2) q' by (auto simp: same_count_def book_tokens_def saturating_add_u32_def is_done_def)
      ultimately show ?thesis using o(3) eq Some \<open>hm_get (me_decode (dw_engine w)) k = Some q\<close> by simp
    qed
  qed
  have over: "overdue ?d' = {}"
  proof -
    have "\<not> is_done s" if "hm_get (running ?d') k = Some s" for k s using run [of k] that by (cases "hm_get (me_decode e) k") auto
    then show ?thesis by (auto simp: overdue_def)
  qed
  have known: "hm_get (running ?d) k \<noteq> None" if "k \<in> set (so_finished st)" for k
    using o(6) eq that rel [of k] by (cases "hm_get (running ?d) k") auto
  have "unknown_finish_reports ?d' = 0" using E(8) o(5) eq zero(2) known by (auto simp: filter_empty_conv)
  moreover have "finish_disagreements ?d' = 0" "flagged ?d' = {}" using E(2,3) over zero by simp_all
  moreover have "tokens_per_step ?d' = 1" using tps by (simp add: on_step_def Let_def split_beta)
  moreover have "rel_option same_count (hm_get (running ?d') k) (hm_get (me_decode e) k)" for k
    using run [of k] by (auto elim: option.rel_mono_strong)
  ultimately show ?thesis using o(2) eq by (simp add: lockstep_def)
qed

lemma lockstep_advance:
  assumes inv: "dw_inv w" and l: "lockstep w" and adv: "decode_advance mock_ops now now' w = Some (evs, w')"
  shows "lockstep w'"
proof (cases "dw_concurrency w = 0")
  case True
  then show ?thesis using adv l by (simp add: decode_advance_def)
next
  case False
  have d: "decode_inv (dw_sched w)" and v: "mock_valid (dw_engine w)" using inv l by (auto simp: dw_inv_def dw_core_def lockstep_def)
  obtain st e where st: "mock_decode_step now (dw_engine w) = (Inr st, e)" "mock_valid e"
    "\<forall>k. hm_get (me_decode e) k = Option.bind (hm_get (me_decode (dw_engine w)) k) step_seq"
    "map fst (so_tokens st) = hm_keys (me_decode (dw_engine w))" "distinct (so_finished st)"
    "\<forall>k. k \<in> set (so_finished st) \<longleftrightarrow> (\<exists>s. hm_get (me_decode (dw_engine w)) k = Some s \<and> step_seq s = None)"
    using mock_step_spec [OF v] by blast
  let ?os = "on_step (dw_sched w) now' (so_elapsed_ms st) (map fst (so_tokens st)) (so_finished st)"
  let ?w = "w\<lparr>dw_engine := e, dw_sched := snd ?os\<rparr>"
  have l1: "lockstep ?w" by (rule lockstep_on_step [OF d l st(1)])
  obtain evs1 w1 where w1: "finish_seqs mock_ops (fst ?os) ?w = Some (evs1, w1)" "dw_sched w1 = snd ?os"
    using step_and_finish_inv [OF inv, of mock_ops now' "so_elapsed_ms st" "map fst (so_tokens st)" "so_finished st" e] by blast
  then have "decode_advance mock_ops now now' w = Some (map (\<lambda>(i, t). TokenEvent i t) (so_tokens st) @ evs1, w1)"
    using False st(1) by (simp add: decode_advance_def Let_def split_beta)
  then have f: "finish_seqs mock_ops (fst ?os) ?w = Some (evs1, w')" "dw_sched w' = snd ?os" using adv w1 by auto
  have gone: "hm_get (me_decode (dw_engine ?w)) (rs_id s) = None" if "s \<in> set (fst ?os)" for s
  proof -
    have "rs_id s \<in> set (so_finished st)" using on_step_ids(1) [OF d] that by blast
    then show ?thesis using st(3,6) by auto
  qed
  have "me_decode (dw_engine w') = me_decode e" using finish_seqs_mock [OF f(1)] gone by simp
  then show ?thesis using l1 f(2) by (simp add: lockstep_def mock_valid_def)
qed

definition dw_mock_init :: "mock_engine decode_worker \<Rightarrow> bool" where
  "dw_mock_init w \<longleftrightarrow> (\<exists>i info c mode s n bs wm. decode_init s \<and> w = decode_worker_new i (mock_new info c mode) s n bs wm)"

lemma decode_init_counters:
  "decode_init d \<Longrightarrow> tokens_per_step d = 1 \<and> finish_disagreements d = 0 \<and> unknown_finish_reports d = 0 \<and> flagged d = {}"
  by (auto simp: decode_init_def decode_new_def)

lemma dw_mock_init: "dw_mock_init w \<Longrightarrow> dw_init w \<and> lockstep w"
proof -
  assume "dw_mock_init w"
  then obtain i info c mode s n bs wm where w: "decode_init s" "w = decode_worker_new i (mock_new info c mode) s n bs wm"
    by (auto simp: dw_mock_init_def)
  have "lockstep w" using decode_init_counters [OF w(1)] decode_init_idle [OF w(1)] mock_new_valid(1)
    by (simp add: w(2) decode_worker_new_def lockstep_def mock_new_def)
  moreover have "dw_init w" unfolding dw_init_def using w by blast
  ultimately show ?thesis by blast
qed

lemma dw_step_lockstep:
  assumes "dw_inv w \<and> lockstep w" "dw_step mock_ops w w'"
  shows "dw_inv w' \<and> lockstep w'"
proof
  show "dw_inv w'" using dw_step_inv assms by blast
  show "lockstep w'" using assms(2)
  proof cases
    case (dw_receive j)
    then show ?thesis using assms(1) by (simp add: lockstep_def receive_admit_def)
  next
    case (dw_turn now now' evs)
    obtain w1 where w1: "admission mock_ops (dw_pending w) w = Some w1" "dw_inv w1"
      using admission_inv [of w "dw_pending w" mock_ops] assms(1) by (auto simp: dw_inv_def)
    have "lockstep w1" using lockstep_admission [OF _ _ _ w1(1)] assms(1) by (auto simp: dw_inv_def)
    then show ?thesis using lockstep_advance [OF w1(2)] dw_turn w1(1) by (auto simp: decode_round_def)
  qed
qed

interpretation lockstep_sys: invariant_system dw_mock_init "dw_step mock_ops" "\<lambda>w. dw_inv w \<and> lockstep w"
  by unfold_locales (use dw_mock_init dw_init_inv in blast, rule dw_step_lockstep)

text \<open>C14. The scheduler's books refine the mock engine's. In every state a decode worker reaches on a
  fresh mock engine, the sequences the scheduler believes running are exactly those attached
  to the engine, each with the same number of tokens emitted and the same budget; the
  engine never reports an unknown sequence and the two never disagree about when a sequence
  is done.\<close>

theorem books_agree_with_the_engine:
  assumes "dw_mock_init w0" "(dw_step mock_ops)\<^sup>*\<^sup>* w0 w"
  shows "mock_attached (dw_engine w) = dom (hm_get (running (dw_sched w)))
    \<and> finish_disagreements (dw_sched w) = 0 \<and> unknown_finish_reports (dw_sched w) = 0
    \<and> (\<forall>k s q. hm_get (running (dw_sched w)) k = Some s \<longrightarrow> hm_get (me_decode (dw_engine w)) k = Some q \<longrightarrow>
        tokens_emitted s = emitted q \<and> requested_tokens s = ds_max_tokens (ms_spec q))"
proof -
  have l: "lockstep w" using lockstep_sys.reachable_inv [OF assms] by blast
  have rel: "rel_option same_count (hm_get (running (dw_sched w)) k) (hm_get (me_decode (dw_engine w)) k)" for k
    using l by (simp add: lockstep_def)
  have "hm_get (me_decode (dw_engine w)) k = None \<longleftrightarrow> hm_get (running (dw_sched w)) k = None" for k
    using rel [of k] by (cases "hm_get (running (dw_sched w)) k"; cases "hm_get (me_decode (dw_engine w)) k") auto
  then have "mock_attached (dw_engine w) = dom (hm_get (running (dw_sched w)))" unfolding mock_attached_def dom_def by simp
  moreover have "tokens_emitted s = emitted q \<and> requested_tokens s = ds_max_tokens (ms_spec q)"
    if "hm_get (running (dw_sched w)) k = Some s" "hm_get (me_decode (dw_engine w)) k = Some q" for k s q
    using rel [of k] that by (simp add: same_count_def)
  ultimately show ?thesis using l by (auto simp: lockstep_def)
qed

theorem books_agree_with_the_engine_witness:
  "\<exists>evs w'. decode_round mock_ops 0 12 (receive_admit small_job (mock_worker 64)) = Some (evs, w')
    \<and> mock_attached (dw_engine w') = dom (hm_get (running (dw_sched w')))"
proof -
  have i: "dw_mock_init (mock_worker 64)"
    unfolding dw_mock_init_def mock_worker_def mock_decode_worker_def using sample_decode_init by blast
  have "pending_fresh (dw_kv (mock_worker 64)) (dw_pending (mock_worker 64) @ [small_job])"
    by (simp add: pending_fresh_def mock_worker_def decode_worker_new_def small_job_def u32_max_def)
  then have r: "(dw_step mock_ops)\<^sup>*\<^sup>* (mock_worker 64) (receive_admit small_job (mock_worker 64))"
    by (intro r_into_rtranclp dw_receive)
  obtain evs w' where w': "decode_round mock_ops 0 12 (receive_admit small_job (mock_worker 64)) = Some (evs, w')"
    using decode_round_inv [OF decode_worker_sys.reachable_inv [OF mock_worker_init r], of mock_ops 0 12] by blast
  then have "(dw_step mock_ops)\<^sup>*\<^sup>* (mock_worker 64) w'" using r dw_turn by (meson rtranclp.rtrancl_into_rtrancl)
  from books_agree_with_the_engine [OF i this] w' show ?thesis by blast
qed

end
