(* ===== verification/Prefill_Worker.thy ===== *)
theory Prefill_Worker
  imports Engine_Mock Kv_Holdings Prefill_Sched
begin

text \<open>
  \<open>crates/worker/src/prefill_worker.rs\<close>: the loop that plans prefill batches, finds pages for
  them, runs them on an engine and reports first tokens.

  The worker is the record of its fields; a job from the channel is \<open>pw_enqueue\<close>, one turn of the
  loop is \<open>prefill_round\<close> over any engine, with the clock readings as arguments. \<open>None\<close> is a panic:
  in the page pool, or of the slice \<open>prompt[start..end]\<close>. As for the decode worker, the
  receiver of the results is alive.
\<close>

record prefill_job =
  pj_id :: request_id
  pj_prompt :: "token_id list"
  pj_deadline_ms :: millis
  pj_arrival_ms :: millis

record prefill_complete =
  pcm_id :: request_id
  pcm_first_token :: token_id
  pcm_prompt_len :: nat
  finished_at_ms :: millis

type_synonym prompt_map = "(request_id, token_id list) hmap"

record 'e prefill_worker =
  pw_id :: worker_id
  pw_engine :: 'e
  pw_sched :: prefill_scheduler
  pw_pool :: block_pool
  pw_block_size :: nat
  pw_prompts :: prompt_map
  pw_kv :: kv_map

definition prefill_worker_new :: "worker_id \<Rightarrow> 'e \<Rightarrow> prefill_tuning \<Rightarrow> nat \<Rightarrow> nat \<Rightarrow> real \<Rightarrow> 'e prefill_worker" where
  "prefill_worker_new i e t num_blocks bs wm =
    \<lparr>pw_id = i, pw_engine = e, pw_sched = sched_new t, pw_pool = pool_new num_blocks bs wm, pw_block_size = bs,
     pw_prompts = [], pw_kv = []\<rparr>"

definition pw_queued_tokens :: "'e prefill_worker \<Rightarrow> nat" where
  "pw_queued_tokens w = queued_tokens (pw_sched w)"

definition pw_queue_depth :: "'e prefill_worker \<Rightarrow> nat" where
  "pw_queue_depth w = queue_depth (pw_sched w)"

definition pw_rate :: "'e prefill_worker \<Rightarrow> real" where
  "pw_rate w = rate (pw_sched w)"

definition pw_enqueue :: "prefill_job \<Rightarrow> 'e prefill_worker \<Rightarrow> 'e prefill_worker" where
  "pw_enqueue j w =
    w\<lparr>pw_prompts := hm_insert (pj_id j) (pj_prompt j) (pw_prompts w),
      pw_sched := enqueue (pw_sched w) \<lparr>pp_id = pj_id j, pp_arrival_ms = pj_arrival_ms j,
        pp_deadline_ms = pj_deadline_ms j, compute_tokens = length (pj_prompt j), done_tokens = 0\<rparr>\<rparr>"

text \<open>Pages for one chunk: none needed, allocated, or not to be had.\<close>

datatype pages = Pages kv_map block_pool | NoPages | PoolPanic

definition chunk_pages :: "nat \<Rightarrow> request_id \<Rightarrow> nat \<Rightarrow> kv_map \<Rightarrow> block_pool \<Rightarrow> pages" where
  "chunk_pages bs rid stop_at kv p =
    (let owned = (case hm_get kv rid of None \<Rightarrow> [] | Some b \<Rightarrow> b);
         extra = blocks_for stop_at bs - length owned
     in if extra = 0 then Pages kv p
        else if \<not> can_admit p extra then NoPages
        else case alloc p extra of
          None \<Rightarrow> PoolPanic
        | Some (Inl _) \<Rightarrow> NoPages
        | Some (Inr (blocks, p')) \<Rightarrow> Pages (hm_insert rid (owned @ blocks) kv) p')"

text \<open>The loop that resolves a batch: a chunk without a prompt is skipped, one without pages ends
  the loop.\<close>

fun resolve :: "prompt_map \<Rightarrow> nat \<Rightarrow> prefill_chunk list \<Rightarrow> kv_map \<Rightarrow> block_pool \<Rightarrow>
    (prefill_work \<times> kv_map \<times> block_pool) option" where
  "resolve prompts bs [] kv p = Some ([], kv, p)"
| "resolve prompts bs (c # cs) kv p =
     (case hm_get prompts (ch_id c) of None \<Rightarrow> resolve prompts bs cs kv p
      | Some pr \<Rightarrow>
          let stop_at = min (ch_start c + ch_tokens c) (length pr)
          in case chunk_pages bs (ch_id c) stop_at kv p of
               PoolPanic \<Rightarrow> None
             | NoPages \<Rightarrow> Some ([], kv, p)
             | Pages kv' p' \<Rightarrow>
                 if ch_start c > stop_at then None
                 else map_option
                   (\<lambda>(work, kv'', p''). (\<lparr>cs_id = ch_id c, cs_tokens = take (stop_at - ch_start c) (drop (ch_start c) pr),
                      cs_start = ch_start c, cs_prompt_len = length pr, cs_completes = ch_completes c,
                      cs_kv_blocks = (case hm_get kv' (ch_id c) of None \<Rightarrow> [] | Some b \<Rightarrow> b)\<rparr> # work, kv'', p''))
                   (resolve prompts bs cs kv' p'))"

fun release_finished :: "request_id list \<Rightarrow> kv_map \<Rightarrow> block_pool \<Rightarrow> (kv_map \<times> block_pool) option" where
  "release_finished [] kv p = Some (kv, p)"
| "release_finished (rid # ids) kv p =
     (case hm_get kv rid of None \<Rightarrow> release_finished ids kv p
      | Some blocks \<Rightarrow> (case release p blocks of None \<Rightarrow> None
          | Some p' \<Rightarrow> release_finished ids (hm_remove rid kv) p'))"

definition completion :: "prompt_map \<Rightarrow> millis \<Rightarrow> request_id \<times> token_id \<Rightarrow> prefill_complete" where
  "completion prompts done_at it = \<lparr>pcm_id = fst it, pcm_first_token = snd it,
     pcm_prompt_len = (case hm_get prompts (fst it) of None \<Rightarrow> 0 | Some pr \<Rightarrow> length pr), finished_at_ms = done_at\<rparr>"

definition prefill_round :: "'e engine_ops \<Rightarrow> millis \<Rightarrow> millis \<Rightarrow> 'e prefill_worker \<Rightarrow>
    (prefill_complete list \<times> 'e prefill_worker) option" where
  "prefill_round ops now done_at w =
    (let (b, s1) = plan (pw_sched w) now; w1 = w\<lparr>pw_sched := s1\<rparr>
     in if chunks b = [] then Some ([], w1)
     else case resolve (pw_prompts w1) (pw_block_size w1) (chunks b) (pw_kv w1) (pw_pool w1) of
       None \<Rightarrow> None
     | Some (work, kv, p) \<Rightarrow>
         let w2 = w1\<lparr>pw_kv := kv, pw_pool := p\<rparr>
         in if work = [] then Some ([], w2)
         else let (r, e) = op_prefill ops work now (pw_engine w2); w3 = w2\<lparr>pw_engine := e\<rparr>
         in case r of
              Inl _ \<Rightarrow> Some ([], w3)
            | Inr out \<Rightarrow>
                let (fin, s2) = complete (pw_sched w3) b (po_elapsed_ms out)
                in case release_finished fin (pw_kv w3) (pw_pool w3) of
                     None \<Rightarrow> None
                   | Some (kv', p') \<Rightarrow>
                       Some (map (completion (pw_prompts w3) done_at) (po_first_tokens out),
                         w3\<lparr>pw_sched := s2, pw_kv := kv', pw_pool := p',
                            pw_prompts := foldl (\<lambda>m i. hm_remove i m) (pw_prompts w3) fin\<rparr>))"

subsection \<open>The queue and the prompts\<close>

lemma credit_shape:
  "map_option compute_tokens (hm_get (snd (credit cs q)) k) = map_option compute_tokens (hm_get q k)"
proof (induction cs arbitrary: q)
  case (Cons c cs)
  show ?case
  proof (cases "hm_get q (ch_id c)")
    case None
    then show ?thesis using Cons.IH by simp
  next
    case (Some p)
    then show ?thesis using Cons.IH [of "hm_insert (ch_id c) (advance (ch_tokens c) p) q"]
      by (auto simp: split_beta Let_def hm_simps advance_def)
  qed
qed simp

lemma remove_all_queue:
  "hm_get (queue (foldl (\<lambda>s rid. snd (remove s rid)) s ids)) k = (if k \<in> set ids then None else hm_get (queue s) k)"
  by (induction ids arbitrary: s) (auto simp: remove_def hm_simps)

lemma complete_shape:
  "map_option compute_tokens (hm_get (queue (snd (complete s b el))) k) =
    (if k \<in> set (fst (complete s b el)) then None else map_option compute_tokens (hm_get (queue s) k))"
  using credit_shape [of "chunks b" "queue (observe_rate s b el)" k]
  by (simp add: complete_def Let_def split_beta remove_all_queue)

text \<open>The worker's invariant: the scheduler is well formed, the stored prompts are those of the queued
  requests with the queued lengths, the pool's references are the pages in \<open>kv\<close>, and only queued
  requests hold pages.\<close>

definition pw_inv :: "'e prefill_worker \<Rightarrow> bool" where
  "pw_inv w \<longleftrightarrow> sched_wf (pw_sched w) \<and> pages_agree (pw_pool w) (pw_kv w)
     \<and> (\<forall>k. map_option compute_tokens (hm_get (queue (pw_sched w)) k) = map_option length (hm_get (pw_prompts w) k))
     \<and> dom (hm_get (pw_kv w)) \<subseteq> dom (hm_get (queue (pw_sched w)))"

lemma enqueue_queue: "hm_get (queue (enqueue s p)) = (hm_get (queue s))(pp_id p \<mapsto> p)"
  by (simp add: enqueue_def Let_def hm_simps)

lemma pw_enqueue_inv [keeps]: "pw_inv w \<Longrightarrow> pw_inv (pw_enqueue j w)"
  by (auto simp: pw_inv_def pw_enqueue_def enqueue_queue hm_simps intro!: enqueue_wf)

subsection \<open>Resolving a batch\<close>

text \<open>What a chunk becomes: the tokens of the prompt it covers and pages for everything up to its end.\<close>

definition spec_of :: "prompt_map \<Rightarrow> nat \<Rightarrow> prefill_chunk_spec \<Rightarrow> prefill_chunk \<Rightarrow> bool" where
  "spec_of prompts bs x c \<longleftrightarrow> cs_id x = ch_id c \<and> cs_start x = ch_start c \<and> cs_completes x = ch_completes c
     \<and> (\<exists>pr. hm_get prompts (ch_id c) = Some pr \<and> cs_prompt_len x = length pr
          \<and> cs_tokens x = take (ch_tokens c) (drop (ch_start c) pr))
     \<and> blocks_for (ch_start c + ch_tokens c) bs \<le> length (cs_kv_blocks x)"

definition chunk_fits :: "prompt_map \<Rightarrow> prefill_chunk \<Rightarrow> bool" where
  "chunk_fits prompts c \<longleftrightarrow> (\<exists>pr. hm_get prompts (ch_id c) = Some pr \<and> ch_start c + ch_tokens c \<le> length pr)"

lemma chunk_pages_spec:
  assumes "pages_agree p kv"
  obtains (none) "chunk_pages bs rid stop_at kv p = NoPages"
  | (some) kv' p' blocks where "chunk_pages bs rid stop_at kv p = Pages kv' p'" "pages_agree p' kv'"
      "dom (hm_get kv') \<subseteq> insert rid (dom (hm_get kv))" "dom (hm_get kv) \<subseteq> dom (hm_get kv')"
      "(case hm_get kv' rid of None \<Rightarrow> [] | Some b \<Rightarrow> b) = blocks" "blocks_for stop_at bs \<le> length blocks"
proof -
  define own where "own = (case hm_get kv rid of None \<Rightarrow> [] | Some b \<Rightarrow> b)"
  define extra where "extra = blocks_for stop_at bs - length own"
  have cp: "chunk_pages bs rid stop_at kv p = (if extra = 0 then Pages kv p
        else if \<not> can_admit p extra then NoPages
        else case alloc p extra of None \<Rightarrow> PoolPanic | Some (Inl _) \<Rightarrow> NoPages
        | Some (Inr (blocks, p')) \<Rightarrow> Pages (hm_insert rid (own @ blocks) kv) p')"
    unfolding chunk_pages_def Let_def own_def extra_def by (rule refl)
  show thesis
  proof (cases "extra = 0 \<or> \<not> can_admit p extra")
    case True
    show thesis
    proof (cases "extra = 0")
      case True
      then have "blocks_for stop_at bs \<le> length own" by (simp add: extra_def)
      then show thesis using some [of kv p own] True assms cp own_def by auto
    next
      case False
      then show thesis using none True cp by auto
    qed
  next
    case False
    then obtain b p' where al: "alloc p extra = Some (Inr (b, p'))" "length b = extra"
      using agree_can_alloc [OF assms, of extra] by blast
    have "pages_agree p' (hm_insert rid (own @ b) kv)"
      using agree_alloc [OF assms al(1)] agree_extend [OF assms al(1)] by (cases "hm_get kv rid") (simp_all add: own_def)
    moreover have "chunk_pages bs rid stop_at kv p = Pages (hm_insert rid (own @ b) kv) p'" using False al by (simp add: cp)
    moreover have "blocks_for stop_at bs \<le> length (own @ b)" using al(2) by (simp add: extra_def)
    ultimately show thesis by (intro some [of "hm_insert rid (own @ b) kv" p' "own @ b"]) (auto simp: hm_simps)
  qed
qed

lemma resolve_spec:
  assumes "pages_agree p kv" "\<forall>c \<in> set cs. chunk_fits prompts c"
  shows "\<exists>work kv' p' n. resolve prompts bs cs kv p = Some (work, kv', p') \<and> pages_agree p' kv'
    \<and> dom (hm_get kv') \<subseteq> dom (hm_get kv) \<union> ch_id ` set cs \<and> n \<le> length cs
    \<and> list_all2 (spec_of prompts bs) work (take n cs)"
  using assms
proof (induction cs arbitrary: kv p)
  case Nil
  then show ?case by auto
next
  case (Cons c cs)
  obtain pr where pr: "hm_get prompts (ch_id c) = Some pr" "ch_start c + ch_tokens c \<le> length pr"
    using Cons.prems(2) by (auto simp: chunk_fits_def)
  have stop: "min (ch_start c + ch_tokens c) (length pr) = ch_start c + ch_tokens c" using pr(2) by simp
  show ?case using Cons.prems(1)
  proof (cases rule: chunk_pages_spec [where bs = bs and rid = "ch_id c" and stop_at = "ch_start c + ch_tokens c"])
    case none
    then have "resolve prompts bs (c # cs) kv p = Some ([], kv, p)" using pr(1) stop by simp
    then show ?thesis using Cons.prems(1) by (auto simp del: resolve.simps intro!: exI [of _ "0 :: nat"])
  next
    case (some kv1 p1 blocks)
    obtain work kv' p' n where IH: "resolve prompts bs cs kv1 p1 = Some (work, kv', p')" "pages_agree p' kv'"
      "dom (hm_get kv') \<subseteq> dom (hm_get kv1) \<union> ch_id ` set cs" "n \<le> length cs" "list_all2 (spec_of prompts bs) work (take n cs)"
      using Cons.IH [OF some(2)] Cons.prems(2) by auto
    let ?x = "\<lparr>cs_id = ch_id c, cs_tokens = take (ch_tokens c) (drop (ch_start c) pr), cs_start = ch_start c,
      cs_prompt_len = length pr, cs_completes = ch_completes c, cs_kv_blocks = blocks\<rparr>"
    have "resolve prompts bs (c # cs) kv p = Some (?x # work, kv', p')"
      using pr(1) stop some(1,5) IH(1) by (simp del: min_def)
    moreover have "spec_of prompts bs ?x c" using pr(1) some(6) by (simp add: spec_of_def)
    moreover have "dom (hm_get kv') \<subseteq> dom (hm_get kv) \<union> ch_id ` set (c # cs)" using IH(3) some(3) by auto
    ultimately show ?thesis using IH by (auto simp del: resolve.simps intro!: exI [of _ "Suc n"])
  qed
qed

lemma release_finished_spec:
  assumes "pages_agree p kv"
  shows "\<exists>kv' p'. release_finished ids kv p = Some (kv', p') \<and> pages_agree p' kv'
    \<and> hm_get kv' = (hm_get kv) |` (- set ids)"
  using assms
proof (induction ids arbitrary: kv p)
  case Nil
  then show ?case by simp
next
  case (Cons i ids)
  show ?case
  proof (cases "hm_get kv i")
    case None
    then have "(hm_get kv) |` (- set (i # ids)) = (hm_get kv) |` (- set ids)" by (auto simp: restrict_map_def)
    then show ?thesis using Cons None by simp
  next
    case (Some blocks)
    obtain p1 where p1: "release p blocks = Some p1" "pages_agree p1 (hm_remove i kv)"
      using agree_release [OF Cons.prems Some] by blast
    have "(hm_get (hm_remove i kv)) |` (- set ids) = (hm_get kv) |` (- set (i # ids))"
      by (auto simp: restrict_map_def hm_simps)
    then show ?thesis using Cons.IH [OF p1(2)] Some p1(1) by simp
  qed
qed

lemma plan_chunks:
  assumes "sched_wf s" "c \<in> set (chunks (fst (plan s now)))"
  shows "\<exists>p. hm_get (queue s) (ch_id c) = Some p \<and> ch_start c + ch_tokens c \<le> compute_tokens p"
    "\<exists>p. hm_get (queue s) (ch_id c) = Some p \<and> ch_completes c = (ch_tokens c = remaining p)"
proof -
  obtain d where "batch_inv s now (set (on_time (plan_ordering s now))) (fst (plan s now), d)"
    using plan_result [OF assms(1)] by metis
  from batch_chunk [OF this assms(2)] show "\<exists>p. hm_get (queue s) (ch_id c) = Some p \<and> ch_start c + ch_tokens c \<le> compute_tokens p"
    "\<exists>p. hm_get (queue s) (ch_id c) = Some p \<and> ch_completes c = (ch_tokens c = remaining p)"
    using sched_wf_get [OF assms(1)] by (fastforce simp: remaining_def)+
qed

lemma plan_chunks_fit:
  assumes "pw_inv w" "c \<in> set (chunks (fst (plan (pw_sched w) now)))"
  shows "chunk_fits (pw_prompts w) c"
proof -
  obtain p where p: "hm_get (queue (pw_sched w)) (ch_id c) = Some p" "ch_start c + ch_tokens c \<le> compute_tokens p"
    using plan_chunks(1) [OF _ assms(2)] assms(1) by (auto simp: pw_inv_def)
  have "map_option compute_tokens (hm_get (queue (pw_sched w)) (ch_id c)) = map_option length (hm_get (pw_prompts w) (ch_id c))"
    using assms(1) by (simp add: pw_inv_def)
  then show ?thesis using p by (cases "hm_get (pw_prompts w) (ch_id c)") (auto simp: chunk_fits_def)
qed

text \<open>What a turn has resolved when it reaches the engine.\<close>

lemma round_resolves:
  assumes "pw_inv w"
  obtains work kv p n where
    "resolve (pw_prompts w) (pw_block_size w) (chunks (fst (plan (pw_sched w) now))) (pw_kv w) (pw_pool w) = Some (work, kv, p)"
    "pages_agree p kv" "dom (hm_get kv) \<subseteq> dom (hm_get (queue (pw_sched w)))"
    "n \<le> length (chunks (fst (plan (pw_sched w) now)))"
    "list_all2 (spec_of (pw_prompts w) (pw_block_size w)) work (take n (chunks (fst (plan (pw_sched w) now))))"
proof -
  let ?cs = "chunks (fst (plan (pw_sched w) now))"
  have w: "sched_wf (pw_sched w)" "pages_agree (pw_pool w) (pw_kv w)" "dom (hm_get (pw_kv w)) \<subseteq> dom (hm_get (queue (pw_sched w)))"
    using assms by (auto simp: pw_inv_def)
  obtain work kv p n where r: "resolve (pw_prompts w) (pw_block_size w) ?cs (pw_kv w) (pw_pool w) = Some (work, kv, p)"
    "pages_agree p kv" "dom (hm_get kv) \<subseteq> dom (hm_get (pw_kv w)) \<union> ch_id ` set ?cs" "n \<le> length ?cs"
    "list_all2 (spec_of (pw_prompts w) (pw_block_size w)) work (take n ?cs)"
    using resolve_spec [OF w(2)] plan_chunks_fit [OF assms] by blast
  have "ch_id ` set ?cs \<subseteq> dom (hm_get (queue (pw_sched w)))" using plan_chunks(1) [OF w(1)] by blast
  then show thesis using that [OF r(1,2) _ r(4,5)] r(3) w(3) by blast
qed

lemma prefill_round_inv:
  assumes "pw_inv w"
  shows "\<exists>evs w'. prefill_round ops now done_at w = Some (evs, w') \<and> pw_inv w'"
proof -
  let ?b = "fst (plan (pw_sched w) now)" and ?s = "snd (plan (pw_sched w) now)"
  obtain work kv p n where r: "resolve (pw_prompts w) (pw_block_size w) (chunks ?b) (pw_kv w) (pw_pool w) = Some (work, kv, p)"
    "pages_agree p kv" "dom (hm_get kv) \<subseteq> dom (hm_get (queue (pw_sched w)))" "n \<le> length (chunks ?b)"
    "list_all2 (spec_of (pw_prompts w) (pw_block_size w)) work (take n (chunks ?b))"
    by (rule round_resolves [OF assms])
  have w: "sched_wf (pw_sched w)"
    "\<forall>k. map_option compute_tokens (hm_get (queue (pw_sched w)) k) = map_option length (hm_get (pw_prompts w) k)"
    using assms by (auto simp: pw_inv_def)
  obtain res e where e: "op_prefill ops work now (pw_engine w) = (res, e)" by (cases "op_prefill ops work now (pw_engine w)")
  have mid: "pw_inv (w\<lparr>pw_sched := ?s, pw_kv := kv, pw_pool := p\<rparr>)" "pw_inv (w\<lparr>pw_sched := ?s, pw_kv := kv, pw_pool := p, pw_engine := e\<rparr>)"
    "pw_inv (w\<lparr>pw_sched := ?s\<rparr>)"
    using assms r(2,3) plan_wf [OF w(1), of now] by (simp_all add: pw_inv_def)
  show ?thesis
  proof (cases "chunks ?b = [] \<or> work = [] \<or> (\<exists>x. res = Inl x)")
    case True
    then show ?thesis using mid r(1) e by (auto simp: prefill_round_def split_beta Let_def)
  next
    case False
    then obtain out where out: "res = Inr out" by (cases res) auto
    let ?c = "complete ?s ?b (po_elapsed_ms out)"
    obtain kv' p' where f: "release_finished (fst ?c) kv p = Some (kv', p')" "pages_agree p' kv'"
      "hm_get kv' = (hm_get kv) |` (- set (fst ?c))" using release_finished_spec [OF r(2)] by blast
    let ?w = "w\<lparr>pw_sched := snd ?c, pw_kv := kv', pw_pool := p', pw_engine := e,
      pw_prompts := foldl (\<lambda>m i. hm_remove i m) (pw_prompts w) (fst ?c)\<rparr>"
    have shape: "map_option compute_tokens (hm_get (queue (snd ?c)) k)
        = map_option length (hm_get (foldl (\<lambda>m i. hm_remove i m) (pw_prompts w) (fst ?c)) k)" for k
      using complete_shape [of ?s ?b "po_elapsed_ms out" k] w(2) by (simp add: hm_remove_all_get)
    have "dom (hm_get kv') \<subseteq> dom (hm_get (queue (snd ?c)))"
    proof
      fix k assume "k \<in> dom (hm_get kv')"
      then have "k \<notin> set (fst ?c) \<and> k \<in> dom (hm_get kv)" unfolding f(3) by (auto simp: restrict_map_def split: if_splits)
      then have k: "k \<notin> set (fst ?c)" "hm_get (queue (pw_sched w)) k \<noteq> None" using r(3) by blast+
      have "map_option compute_tokens (hm_get (queue (snd ?c)) k) \<noteq> None"
        using complete_shape [of ?s ?b "po_elapsed_ms out" k] k by simp
      then show "k \<in> dom (hm_get (queue (snd ?c)))" by auto
    qed
    then have "pw_inv ?w" using f(2) shape plan_complete_round [OF w(1)] by (simp add: pw_inv_def)
    moreover have "prefill_round ops now done_at w = Some (map (completion (pw_prompts w) done_at) (po_first_tokens out), ?w)"
      using False r(1) e out f(1) by (simp add: prefill_round_def split_beta Let_def)
    ultimately show ?thesis by blast
  qed
qed

subsection \<open>The life of a worker\<close>

inductive pw_step :: "'e engine_ops \<Rightarrow> 'e prefill_worker \<Rightarrow> 'e prefill_worker \<Rightarrow> bool" for ops where
  pw_job: "pw_step ops w (pw_enqueue j w)"
| pw_turn: "prefill_round ops now done_at w = Some (evs, w') \<Longrightarrow> pw_step ops w w'"

inductive_cases pw_stepE: "pw_step ops w w'"

definition pw_init :: "'e prefill_worker \<Rightarrow> bool" where
  "pw_init w \<longleftrightarrow> (\<exists>i e t n bs wm. w = prefill_worker_new i e t n bs wm)"

lemma pw_init_inv: "pw_init w \<Longrightarrow> pw_inv w"
  using agree_new sched_wf_new by (auto simp: pw_init_def prefill_worker_new_def pw_inv_def sched_new_def)

lemma pw_step_inv:
  assumes "pw_inv w" "pw_step ops w w'"
  shows "pw_inv w'"
  using assms(2)
proof cases
  case (pw_job j)
  then show ?thesis using pw_enqueue_inv [OF assms(1)] by simp
next
  case (pw_turn now done_at evs)
  then show ?thesis using prefill_round_inv [OF assms(1), of ops now done_at] by auto
qed

interpretation prefill_worker_sys: invariant_system pw_init "pw_step ops" pw_inv
  by unfold_locales (auto intro: pw_init_inv pw_step_inv)

text \<open>C13. A prefill worker accounts for every page and every prompt, whatever the engine does. In
  every state it can reach, a turn of its loop completes without a panic; only queued requests
  hold pages, the prompts stored are exactly those queued, each page's reference count is the
  number of times it is held, and when the queue is empty the whole pool is available.\<close>

theorem prefill_worker_accounts_for_every_page:
  assumes "pw_init w0" "(pw_step ops)\<^sup>*\<^sup>* w0 w"
  shows "(\<exists>evs w'. prefill_round ops now done_at w = Some (evs, w'))
    \<and> dom (hm_get (pw_kv w)) \<subseteq> dom (hm_get (queue (pw_sched w)))
    \<and> dom (hm_get (pw_prompts w)) = dom (hm_get (queue (pw_sched w)))
    \<and> (\<forall>b < total (pw_pool w). refcount (pw_pool w) ! b = count_list (concat (hm_values (pw_kv w))) b)
    \<and> (pw_queue_depth w = 0 \<longrightarrow> available (pw_pool w) = total (pw_pool w))"
proof -
  have inv: "pw_inv w" using prefill_worker_sys.reachable_inv [OF assms] .
  have a: "pages_agree (pw_pool w) (pw_kv w)" and sub: "dom (hm_get (pw_kv w)) \<subseteq> dom (hm_get (queue (pw_sched w)))"
    and sh: "\<And>k. map_option compute_tokens (hm_get (queue (pw_sched w)) k) = map_option length (hm_get (pw_prompts w) k)"
    using inv by (auto simp: pw_inv_def)
  have "hm_get (pw_prompts w) k = None \<longleftrightarrow> hm_get (queue (pw_sched w)) k = None" for k using sh [of k] by (metis map_option_is_None)
  then have "dom (hm_get (pw_prompts w)) = dom (hm_get (queue (pw_sched w)))" unfolding dom_def by simp
  moreover have "refcount (pw_pool w) ! b = count_list (concat (hm_values (pw_kv w))) b" if "b < total (pw_pool w)" for b
    using a that unfolding pages_agree_def pool_sys_inv_def refs_match_def held_def by (auto simp: count_mset split: if_splits)
  moreover have "available (pw_pool w) = total (pw_pool w)" if "pw_queue_depth w = 0"
  proof (rule agree_empty [OF a])
    have "queue (pw_sched w) = []" using that by (simp add: pw_queue_depth_def queue_depth_def)
    then show "\<forall>k. hm_get (pw_kv w) k = None" using sub by auto
  qed
  ultimately show ?thesis using prefill_round_inv [OF inv] sub by blast
qed

text \<open>C39. The engine is given exactly what was planned. In every reachable state the work resolved
  from a planned batch is, chunk by chunk, a prefix of the batch: each entry names the
  chunk's request, carries the very tokens of its prompt that the chunk covers, and has pages
  for everything up to the end of the chunk.\<close>

theorem engine_work_is_what_was_planned:
  assumes "pw_init w0" "(pw_step ops)\<^sup>*\<^sup>* w0 w"
  shows "\<exists>work kv p n. resolve (pw_prompts w) (pw_block_size w) (chunks (fst (plan (pw_sched w) now))) (pw_kv w) (pw_pool w)
      = Some (work, kv, p)
    \<and> list_all2 (spec_of (pw_prompts w) (pw_block_size w)) work (take n (chunks (fst (plan (pw_sched w) now))))"
  using round_resolves [OF prefill_worker_sys.reachable_inv [OF assms], of now] by metis

subsection \<open>Requests that are dropped from a batch\<close>

text \<open>A turn that reaches the mock engine, spelled out.\<close>

lemma mock_round:
  assumes "pw_inv w" "prefill_round mock_ops now done_at w = Some (evs, w')"
    "resolve (pw_prompts w) (pw_block_size w) (chunks (fst (plan (pw_sched w) now))) (pw_kv w) (pw_pool w) = Some (work, kv, p)"
    "work \<noteq> []"
  shows "map pcm_id evs = map cs_id (filter cs_completes work)"
    "hm_get (queue (pw_sched w')) k = None \<longleftrightarrow> hm_get (queue (pw_sched w)) k = None
      \<or> k \<in> ch_id ` set (filter ch_completes (chunks (fst (plan (pw_sched w) now))))"
proof -
  let ?b = "fst (plan (pw_sched w) now)" and ?s = "snd (plan (pw_sched w) now)"
  have ne: "chunks ?b \<noteq> []" using assms(3,4) by auto
  obtain ms where ms: "mock_prefill work now (pw_engine w) =
      (Inr \<lparr>po_elapsed_ms = ms, po_first_tokens = map (\<lambda>c. (cs_id c, fake_token (cs_id c) 0)) (filter cs_completes work)\<rparr>, pw_engine w)"
    by (simp add: mock_prefill_def Let_def)
  let ?c = "complete ?s ?b ms"
  have op: "op_prefill mock_ops = mock_prefill" by (simp add: mock_ops_def)
  obtain kv' p' where f: "release_finished (fst ?c) kv p = Some (kv', p')"
    using assms(2,3,4) ne by (auto simp: prefill_round_def split_beta Let_def op ms split: option.splits)
  have res: "evs = map (completion (pw_prompts w) done_at) (map (\<lambda>c. (cs_id c, fake_token (cs_id c) 0)) (filter cs_completes work))"
    "pw_sched w' = snd ?c"
    using assms(2,3,4) ne f by (auto simp: prefill_round_def split_beta Let_def op ms)
  show "map pcm_id evs = map cs_id (filter cs_completes work)" by (simp add: res(1) completion_def comp_def)
  have fin: "fst ?c = map ch_id (filter ch_completes (chunks ?b))"
    using plan_complete_round [of "pw_sched w" now ms] assms(1) by (simp add: pw_inv_def)
  have "map_option compute_tokens (hm_get (queue (pw_sched w')) k)
      = (if k \<in> set (fst ?c) then None else map_option compute_tokens (hm_get (queue (pw_sched w)) k))"
    using complete_shape [of ?s ?b ms k] res(2) by simp
  then show "hm_get (queue (pw_sched w')) k = None \<longleftrightarrow> hm_get (queue (pw_sched w)) k = None
      \<or> k \<in> ch_id ` set (filter ch_completes (chunks ?b))"
    unfolding fin by (metis (no_types, lifting) list.set_map map_option_is_None)
qed

text \<open>When every chunk of a batch found pages, first tokens and completions correspond. On a
  reachable worker with the mock engine, a turn that hands the whole batch to the engine reports a
  first token for exactly the requests whose last chunk was in the batch, in batch order, and exactly
  those leave the queue.\<close>

theorem full_batch_reports_every_completion:
  assumes "pw_init w0" "(pw_step mock_ops)\<^sup>*\<^sup>* w0 w" "prefill_round mock_ops now done_at w = Some (evs, w')"
    "resolve (pw_prompts w) (pw_block_size w) (chunks (fst (plan (pw_sched w) now))) (pw_kv w) (pw_pool w) = Some (work, kv, p)"
    "work \<noteq> []" "length work = length (chunks (fst (plan (pw_sched w) now)))"
  shows "map pcm_id evs = map ch_id (filter ch_completes (chunks (fst (plan (pw_sched w) now))))
    \<and> dom (hm_get (queue (pw_sched w'))) = dom (hm_get (queue (pw_sched w))) - pcm_id ` set evs"
proof -
  let ?cs = "chunks (fst (plan (pw_sched w) now))"
  have inv: "pw_inv w" using prefill_worker_sys.reachable_inv [OF assms(1,2)] .
  obtain n where n: "n \<le> length ?cs" "list_all2 (spec_of (pw_prompts w) (pw_block_size w)) work (take n ?cs)"
    using round_resolves [OF inv, of now] assms(4) by (metis Pair_inject option.inject)
  then have "take n ?cs = ?cs" using assms(6) list_all2_lengthD by fastforce
  then have "list_all2 (\<lambda>x c. cs_id x = ch_id c \<and> cs_completes x = ch_completes c) work ?cs"
    using n(2) by (auto simp: spec_of_def elim: list_all2_mono)
  then have ids: "map cs_id (filter cs_completes work) = map ch_id (filter ch_completes ?cs)"
    by (induction rule: list_all2_induct) auto
  note R = mock_round [OF inv assms(3-5)]
  have e: "map pcm_id evs = map ch_id (filter ch_completes ?cs)" using R(1) ids by simp
  then have "pcm_id ` set evs = ch_id ` set (filter ch_completes ?cs)" by (metis list.set_map)
  then have "dom (hm_get (queue (pw_sched w'))) = dom (hm_get (queue (pw_sched w))) - pcm_id ` set evs"
    by (intro set_eqI) (simp only: Diff_iff domIff R(2) de_Morgan_disj)
  then show ?thesis using e by blast
qed

text \<open>A request dropped from its batch for lack of pages is lost. On a reachable worker with the
  mock engine, if a turn hands the engine some of a batch but not a chunk that would complete its
  request, then after the turn that request is no longer queued although no first token was
  reported for it: nobody will ever answer it.\<close>

theorem dropped_chunk_loses_its_request:
  assumes "pw_init w0" "(pw_step mock_ops)\<^sup>*\<^sup>* w0 w" "prefill_round mock_ops now done_at w = Some (evs, w')"
    "resolve (pw_prompts w) (pw_block_size w) (chunks (fst (plan (pw_sched w) now))) (pw_kv w) (pw_pool w) = Some (work, kv, p)"
    "work \<noteq> []" "c \<in> set (chunks (fst (plan (pw_sched w) now)))" "ch_completes c" "ch_id c \<notin> cs_id ` set work"
  shows "hm_get (queue (pw_sched w)) (ch_id c) \<noteq> None \<and> hm_get (queue (pw_sched w')) (ch_id c) = None
    \<and> ch_id c \<notin> pcm_id ` set evs"
proof -
  have inv: "pw_inv w" using prefill_worker_sys.reachable_inv [OF assms(1,2)] .
  note R = mock_round [OF inv assms(3-5)]
  have "set (map pcm_id evs) \<subseteq> cs_id ` set work" unfolding R(1) by auto
  moreover have "hm_get (queue (pw_sched w)) (ch_id c) \<noteq> None" using plan_chunks(1) [OF _ assms(6)] inv by (auto simp: pw_inv_def)
  ultimately show ?thesis using R(2) [of "ch_id c"] assms(6-8) by auto
qed

subsection \<open>Two requests and one page\<close>

definition tight_job :: "request_id \<Rightarrow> millis \<Rightarrow> prefill_job" where
  "tight_job i d = \<lparr>pj_id = i, pj_prompt = [1, 2, 3, 4], pj_deadline_ms = d, pj_arrival_ms = 0\<rparr>"

definition tight_worker :: "nat \<Rightarrow> mock_engine prefill_worker" where
  "tight_worker blocks = pw_enqueue (tight_job 2 300) (pw_enqueue (tight_job 1 200)
     (prefill_worker_new 1 (mock_prefill_worker ''m'' [] 2 sample_cost VirtualTime)
       (default_tuning\<lparr>tokens_per_ms := 100\<rparr>) blocks 4 0))"

definition tight_base :: "nat \<Rightarrow> mock_engine prefill_worker" where
  "tight_base blocks = prefill_worker_new 1 (mock_prefill_worker ''m'' [] 2 sample_cost VirtualTime)
     (default_tuning\<lparr>tokens_per_ms := 100\<rparr>) blocks 4 0"

lemma tight_reached: "pw_init (tight_base n)" "(pw_step mock_ops)\<^sup>*\<^sup>* (tight_base n) (tight_worker n)"
proof -
  show "pw_init (tight_base n)" unfolding pw_init_def tight_base_def by blast
  show "(pw_step mock_ops)\<^sup>*\<^sup>* (tight_base n) (tight_worker n)" unfolding tight_worker_def tight_base_def
    using pw_job by (intro rtranclp.rtrancl_into_rtrancl [OF r_into_rtranclp]) blast+
qed

lemma tight_queue:
  "pw_sched (tight_worker n) = \<lparr>tuning = default_tuning\<lparr>tokens_per_ms := 100\<rparr>,
     queue = [(1, \<lparr>pp_id = 1, pp_arrival_ms = 0, pp_deadline_ms = 200, compute_tokens = 4, done_tokens = 0\<rparr>),
       (2, \<lparr>pp_id = 2, pp_arrival_ms = 0, pp_deadline_ms = 300, compute_tokens = 4, done_tokens = 0\<rparr>)],
     order = [1, 2], demoted_ids = {}\<rparr>"
  by (simp add: tight_worker_def pw_enqueue_def prefill_worker_new_def tight_job_def enqueue_def sched_new_def Let_def)

lemma tight_rate: "effective_rate (pw_sched (tight_worker n)) = 100"
  by (simp add: effective_rate_def tight_queue MIN_POSITIVE_def)

lemma tight_ordering: "plan_ordering (pw_sched (tight_worker n)) 0 = \<lparr>on_time = [1, 2], demoted = []\<rparr>"
  by (simp add: plan_ordering_def queue_jobs_def tight_rate) (simp add: tight_queue default_tuning_def
      moore_hodgson_def mh_loop_def mh_step_def job_of_def edf_key_def remaining_def Let_def)

lemma tight_fields:
  "max_seqs (tuning (pw_sched (tight_worker n))) = 8" "chunk_tokens (tuning (pw_sched (tight_worker n))) = 16384"
  "queue (pw_sched (tight_worker n)) \<noteq> []"
  "hm_get (queue (pw_sched (tight_worker n))) 1 =
     Some \<lparr>pp_id = 1, pp_arrival_ms = 0, pp_deadline_ms = 200, compute_tokens = 4, done_tokens = 0\<rparr>"
  "hm_get (queue (pw_sched (tight_worker n))) 2 =
     Some \<lparr>pp_id = 2, pp_arrival_ms = 0, pp_deadline_ms = 300, compute_tokens = 4, done_tokens = 0\<rparr>"
  by (simp_all add: tight_queue default_tuning_def)

lemma tight_plan:
  "chunks (fst (plan (pw_sched (tight_worker n)) 0)) = [\<lparr>ch_id = 1, ch_start = 0, ch_tokens = 4, ch_completes = True\<rparr>,
     \<lparr>ch_id = 2, ch_start = 0, ch_tokens = 4, ch_completes = True\<rparr>]"
  unfolding plan_def tight_ordering
  by (simp add: tight_rate plan_pass.simps Let_def tight_fields empty_batch_def remaining_def del: One_nat_def)

lemma tight_parts:
  "pw_prompts (tight_worker n) = [(1, [1, 2, 3, 4]), (2, [1, 2, 3, 4])]" "pw_kv (tight_worker n) = []"
  "pw_pool (tight_worker n) = pool_new n 4 0" "pw_block_size (tight_worker n) = 4"
  by (simp_all add: tight_worker_def pw_enqueue_def prefill_worker_new_def tight_job_def)

definition tight_spec :: "request_id \<Rightarrow> block_id \<Rightarrow> prefill_chunk_spec" where
  "tight_spec i b = \<lparr>cs_id = i, cs_tokens = [1, 2, 3, 4], cs_start = 0, cs_prompt_len = 4, cs_completes = True, cs_kv_blocks = [b]\<rparr>"

lemmas tight_pool_simps = chunk_pages_def can_admit_def available_def reserve_def alloc_def take_block_def blocks_for_def
  pool_new_def clamp_def total_def tight_spec_def Let_def

lemma tight_resolve_one:
  "\<exists>kv p. resolve (pw_prompts (tight_worker 1)) (pw_block_size (tight_worker 1)) (chunks (fst (plan (pw_sched (tight_worker 1)) 0)))
     (pw_kv (tight_worker 1)) (pw_pool (tight_worker 1)) = Some ([tight_spec 1 0], kv, p)"
  by (simp add: tight_plan tight_parts tight_pool_simps)

lemma tight_resolve_two:
  "\<exists>kv p. resolve (pw_prompts (tight_worker 2)) (pw_block_size (tight_worker 2)) (chunks (fst (plan (pw_sched (tight_worker 2)) 0)))
     (pw_kv (tight_worker 2)) (pw_pool (tight_worker 2)) = Some ([tight_spec 1 0, tight_spec 2 1], kv, p)"
  by (simp add: tight_plan tight_parts tight_pool_simps last_rev)

lemma tight_round: "\<exists>evs w'. prefill_round mock_ops 0 1 (tight_worker n) = Some (evs, w')"
  using prefill_round_inv [OF prefill_worker_sys.reachable_inv [OF tight_reached]] by blast

theorem prefill_worker_accounts_for_every_page_witness:
  "dom (hm_get (pw_prompts (tight_worker 1))) = dom (hm_get (queue (pw_sched (tight_worker 1))))"
  using prefill_worker_accounts_for_every_page [OF tight_reached] by blast

theorem engine_work_is_what_was_planned_witness:
  "\<exists>work kv p. resolve (pw_prompts (tight_worker 2)) (pw_block_size (tight_worker 2)) (chunks (fst (plan (pw_sched (tight_worker 2)) 0)))
     (pw_kv (tight_worker 2)) (pw_pool (tight_worker 2)) = Some (work, kv, p)"
  using engine_work_is_what_was_planned [OF tight_reached] by blast

theorem full_batch_reports_every_completion_witness:
  "\<exists>evs w'. prefill_round mock_ops 0 1 (tight_worker 2) = Some (evs, w') \<and> map pcm_id evs = [1, 2]"
proof -
  obtain evs w' where r: "prefill_round mock_ops 0 1 (tight_worker 2) = Some (evs, w')" using tight_round by blast
  obtain kv p where "resolve (pw_prompts (tight_worker 2)) (pw_block_size (tight_worker 2)) (chunks (fst (plan (pw_sched (tight_worker 2)) 0)))
     (pw_kv (tight_worker 2)) (pw_pool (tight_worker 2)) = Some ([tight_spec 1 0, tight_spec 2 1], kv, p)" using tight_resolve_two by blast
  from full_batch_reports_every_completion [OF tight_reached r this] r show ?thesis by (simp add: tight_plan)
qed

theorem dropped_chunk_loses_its_request_witness:
  "\<exists>evs w'. prefill_round mock_ops 0 1 (tight_worker 1) = Some (evs, w')
    \<and> hm_get (queue (pw_sched w')) 2 = None \<and> 2 \<notin> pcm_id ` set evs"
proof -
  obtain evs w' where r: "prefill_round mock_ops 0 1 (tight_worker 1) = Some (evs, w')" using tight_round by blast
  obtain kv p where "resolve (pw_prompts (tight_worker 1)) (pw_block_size (tight_worker 1)) (chunks (fst (plan (pw_sched (tight_worker 1)) 0)))
     (pw_kv (tight_worker 1)) (pw_pool (tight_worker 1)) = Some ([tight_spec 1 0], kv, p)" using tight_resolve_one by blast
  from dropped_chunk_loses_its_request [OF tight_reached r this, of "\<lparr>ch_id = 2, ch_start = 0, ch_tokens = 4, ch_completes = True\<rparr>"] r
  show ?thesis by (simp add: tight_plan tight_spec_def)
qed

end
