(* ===== verification/Wire_Sse.thy ===== *)
theory Wire_Sse
  imports Scoring
begin

text \<open>
  \<open>crates/wire/src/transport.rs\<close>, first half: server-sent events from a byte stream.

  A byte is a \<open>char\<close> and a Rust \<open>String\<close> its UTF-8 bytes, so that the code's searches for ASCII
  characters are searches for bytes. UTF-8 validation and Unicode trimming of the standard library are written out.
  The HTTP client is not part of the sources: the response body is the list of the chunks it
  will deliver, each of them bytes or an error text, and a response to \<open>POST\<close> is an argument of
  \<open>http_send\<close>. The main results are that parsing inverts printing of a frame and that, for
  streams without carriage returns, the events do not depend on how the bytes are cut into chunks.
\<close>

type_synonym bytes = "char list"

datatype transport_error = TransportError string

fun transport_error_str :: "transport_error \<Rightarrow> string" where
  "transport_error_str (TransportError msg) = ''transport error: '' @ msg"

record 'x transport_request =
  tr_request_id :: string
  prompt_token_ids :: "token_id list"
  sampling :: "'x sampling_params"

definition from_request :: "'x request \<Rightarrow> 'x transport_request" where
  "from_request r = \<lparr>tr_request_id = request_id_str (req_id r), prompt_token_ids = prompt r, sampling = params r\<rparr>"

record sse_event =
  sse_name :: "string option"
  sse_data :: bytes

definition sse_of_data :: "bytes \<Rightarrow> sse_event" where
  "sse_of_data d = \<lparr>sse_name = None, sse_data = d\<rparr>"

abbreviation CR :: char where "CR \<equiv> CHR 0x0D"
abbreviation LF :: char where "LF \<equiv> CHR 0x0A"

subsection \<open>UTF-8\<close>

definition byte_in :: "nat \<Rightarrow> nat \<Rightarrow> char \<Rightarrow> bool" where
  "byte_in lo hi c \<longleftrightarrow> lo \<le> of_char c \<and> of_char c \<le> hi"

definition is_cont :: "char \<Rightarrow> bool" where
  "is_cont c \<longleftrightarrow> byte_in 128 191 c"

definition second_ok :: "char \<Rightarrow> char \<Rightarrow> bool" where
  "second_ok b c \<longleftrightarrow>
    (if of_char b = (224 :: nat) then byte_in 160 191 c
     else if of_char b = (237 :: nat) then byte_in 128 159 c
     else if of_char b = (240 :: nat) then byte_in 144 191 c
     else if of_char b = (244 :: nat) then byte_in 128 143 c
     else is_cont c)"

text \<open>The number of bytes a first byte announces, 0 for a byte that cannot begin a character.\<close>

definition char_width :: "char \<Rightarrow> nat" where
  "char_width b = (if byte_in 0 127 b then 1 else if byte_in 194 223 b then 2
     else if byte_in 224 239 b then 3 else if byte_in 240 244 b then 4 else 0)"

text \<open>One character from the front: \<open>Inr\<close> its width, \<open>Inl\<close> the \<open>error_len\<close> of \<open>Utf8Error\<close>.\<close>

definition utf8_first :: "bytes \<Rightarrow> nat option + nat" where
  "utf8_first bs = (case bs of [] \<Rightarrow> Inr 0
   | b # r \<Rightarrow>
      let w = char_width b
      in if w = 1 then Inr 1
      else if w = 0 then Inl (Some 1)
      else (case r of [] \<Rightarrow> Inl None
        | c1 # r1 \<Rightarrow>
           if \<not> second_ok b c1 then Inl (Some 1)
           else if w = 2 then Inr 2
           else (case r1 of [] \<Rightarrow> Inl None
             | c2 # r2 \<Rightarrow>
                if \<not> is_cont c2 then Inl (Some 2)
                else if w = 3 then Inr 3
                else (case r2 of [] \<Rightarrow> Inl None
                  | c3 # _ \<Rightarrow> if is_cont c3 then Inr 4 else Inl (Some 3)))))"

function utf8_check :: "nat \<Rightarrow> bytes \<Rightarrow> (nat \<times> nat option) option" where
  "utf8_check pos bs =
    (if bs = [] then None
     else case utf8_first bs of
       Inl e \<Rightarrow> Some (pos, e)
     | Inr w \<Rightarrow> if w = 0 then Some (pos, Some 1) else utf8_check (pos + w) (drop w bs))"
  by pat_completeness auto
termination by (relation "measure (\<lambda>(pos, bs). length bs)") auto

declare utf8_check.simps [simp del]

definition utf8_valid :: "bytes \<Rightarrow> bool" where
  "utf8_valid bs \<longleftrightarrow> utf8_check 0 bs = None"

definition utf8_error_str :: "nat \<times> nat option \<Rightarrow> string" where
  "utf8_error_str e = (case snd e of
     Some n \<Rightarrow> ''invalid utf-8 sequence of '' @ nat_str n @ '' bytes from index '' @ nat_str (fst e)
   | None \<Rightarrow> ''incomplete utf-8 byte sequence from index '' @ nat_str (fst e))"

subsection \<open>Frames\<close>

definition byte_at :: "bytes \<Rightarrow> nat \<Rightarrow> char option" where
  "byte_at buf i = (if i < length buf then Some (buf ! i) else None)"

definition line_ending_len :: "bytes \<Rightarrow> nat \<Rightarrow> nat option" where
  "line_ending_len buf i =
    (case byte_at buf i of None \<Rightarrow> None
     | Some c \<Rightarrow>
        if c = CR then (if byte_at buf (i + 1) = Some LF then Some 2 else Some 1)
        else if c = LF then Some 1 else None)"

definition frame_end_at :: "bytes \<Rightarrow> nat \<Rightarrow> (nat \<times> nat) option" where
  "frame_end_at buf start =
    (case line_ending_len buf start of None \<Rightarrow> None
     | Some n \<Rightarrow> map_option (\<lambda>k. (start, n + k)) (line_ending_len buf (start + n)))"

text \<open>The \<open>for\<close> loop over the start positions: the first hit.\<close>

definition sse_frame_end :: "bytes \<Rightarrow> (nat \<times> nat) option" where
  "sse_frame_end buf = (case List.map_filter (frame_end_at buf) [0..<length buf] of [] \<Rightarrow> None | x # _ \<Rightarrow> Some x)"

fun split_lines :: "bytes \<Rightarrow> bytes list" where
  "split_lines [] = [[]]"
| "split_lines (c # cs) =
     (if c = CR \<or> c = LF then [] # split_lines cs
      else case split_lines cs of [] \<Rightarrow> [[c]] | l # ls \<Rightarrow> (c # l) # ls)"

definition split_once :: "char \<Rightarrow> bytes \<Rightarrow> bytes \<times> bytes" where
  "split_once sep line =
    (if sep \<in> set line then (takeWhile (\<lambda>c. c \<noteq> sep) line, tl (dropWhile (\<lambda>c. c \<noteq> sep) line)) else (line, []))"

definition strip_space :: "bytes \<Rightarrow> bytes" where
  "strip_space v = (case v of c # r \<Rightarrow> if c = CHR '' '' then r else v | [] \<Rightarrow> [])"

definition sse_line :: "bytes option \<times> bytes list \<Rightarrow> bytes \<Rightarrow> bytes option \<times> bytes list" where
  "sse_line st line =
    (if line = [] \<or> hd line = CHR '':'' then st
     else let (field, v) = split_once CHR '':'' line; v' = strip_space v
          in if field = ''event'' then (Some v', snd st)
             else if field = ''data'' then (fst st, snd st @ [v'])
             else st)"

fun join_lines :: "bytes list \<Rightarrow> bytes" where
  "join_lines [] = []"
| "join_lines [l] = l"
| "join_lines (l # m # ls) = l @ LF # join_lines (m # ls)"

definition parse_sse_frame :: "bytes \<Rightarrow> transport_error + sse_event option" where
  "parse_sse_frame frame =
    (case utf8_check 0 frame of
       Some e \<Rightarrow> Inl (TransportError (''invalid UTF-8 SSE frame: '' @ utf8_error_str e))
     | None \<Rightarrow>
        let (ev, ds) = foldl sse_line (None, []) (split_lines frame)
        in Inr (if ds = [] then None else Some \<lparr>sse_name = ev, sse_data = join_lines ds\<rparr>))"

subsection \<open>Payloads\<close>

text \<open>A \<open>serde_json::Value\<close>. The parser is not part of the sources: it is the argument
  \<open>parse_json\<close>, which returns the value or the text of its error.\<close>

datatype json_number = PosInt nat | NegInt int | Float real

datatype json =
    JNull
  | JBool bool
  | JNumber json_number
  | JString string
  | JArray "json list"
  | JObject "(string \<times> json) list"

fun json_get :: "json \<Rightarrow> string \<Rightarrow> json option" where
  "json_get (JObject kvs) k = map_of kvs k"
| "json_get _ k = None"

fun json_str :: "json \<Rightarrow> string option" where
  "json_str (JString s) = Some s"
| "json_str _ = None"

fun json_u64 :: "json \<Rightarrow> nat option" where
  "json_u64 (JNumber (PosInt n)) = Some n"
| "json_u64 _ = None"

fun is_object :: "json \<Rightarrow> bool" where
  "is_object (JObject _) = True"
| "is_object _ = False"

definition remote_error_message :: "json \<Rightarrow> string option" where
  "remote_error_message payload =
    (case json_get payload ''error'' of None \<Rightarrow> None
     | Some e \<Rightarrow>
        (case json_str e of Some m \<Rightarrow> Some m
         | None \<Rightarrow>
            if \<not> is_object e then None
            else (case Option.bind (json_get e ''message'') json_str of None \<Rightarrow> None
              | Some m \<Rightarrow>
                  let code = (case Option.bind (json_get e ''code'') json_str of None \<Rightarrow> ''remote_error'' | Some c \<Rightarrow> c)
                  in Some (code @ '': '' @ m))))"

text \<open>\<open>str::trim\<close>: the characters of Unicode's \<open>White_Space\<close>, by their UTF-8 bytes.\<close>

definition ascii_space :: "char \<Rightarrow> bool" where
  "ascii_space c \<longleftrightarrow> byte_in 9 13 c \<or> c = CHR '' ''"

definition wide_space :: "nat list \<Rightarrow> bool" where
  "wide_space bs \<longleftrightarrow> bs \<in> {[194, 133], [194, 160], [225, 154, 128], [226, 128, 168], [226, 128, 169],
     [226, 128, 175], [226, 129, 159], [227, 128, 128]} \<or> (\<exists>k \<in> set [128..<139]. bs = [226, 128, k])"

definition space_len :: "bytes \<Rightarrow> nat" where
  "space_len s = (if s = [] then 0 else if ascii_space (hd s) then 1
     else if wide_space (map of_char (take 2 s)) then 2
     else if wide_space (map of_char (take 3 s)) then 3 else 0)"

fun trim_start :: "nat \<Rightarrow> bytes \<Rightarrow> bytes" where
  "trim_start 0 s = s"
| "trim_start (Suc n) s = (if space_len s = 0 then s else trim_start n (drop (space_len s) s))"

definition space_len_end :: "bytes \<Rightarrow> nat" where
  "space_len_end s = (if s = [] then 0 else if ascii_space (last s) then 1
     else if wide_space (map of_char (drop (length s - 2) s)) then 2
     else if wide_space (map of_char (drop (length s - 3) s)) then 3 else 0)"

fun trim_end :: "nat \<Rightarrow> bytes \<Rightarrow> bytes" where
  "trim_end 0 s = s"
| "trim_end (Suc n) s = (if space_len_end s = 0 then s else trim_end n (take (length s - space_len_end s) s))"

definition trim :: "bytes \<Rightarrow> bytes" where
  "trim s = (let t = trim_start (length s) s in trim_end (length t) t)"

datatype decoded_event = TokenPayload token_id string | TerminalPayload string

definition token_payload :: "json \<Rightarrow> transport_error + decoded_event" where
  "token_payload payload =
    (case Option.bind (json_get payload ''token_id'') json_u64 of
       None \<Rightarrow> Inl (TransportError ''SSE token payload is missing token_id'')
     | Some n \<Rightarrow>
        if n > u32_max then Inl (TransportError ''SSE token payload is missing token_id'')
        else (case Option.bind (json_get payload ''text'') json_str of
                None \<Rightarrow> Inl (TransportError ''SSE token payload is missing text'')
              | Some txt \<Rightarrow> Inr (TokenPayload (of_nat n) txt)))"

definition decode_event :: "(string \<Rightarrow> string + json) \<Rightarrow> sse_event \<Rightarrow> transport_error + decoded_event" where
  "decode_event parse_json ev =
    (if trim (sse_data ev) = ''[DONE]'' then Inr (TerminalPayload ''stop'')
     else case parse_json (sse_data ev) of
       Inl e \<Rightarrow> Inl (TransportError (''invalid SSE payload: '' @ e))
     | Inr payload \<Rightarrow>
        if json_get payload ''error'' \<noteq> None
        then Inl (TransportError (case remote_error_message payload of None \<Rightarrow> ''SSE error payload has no message'' | Some m \<Rightarrow> m))
        else (case Option.bind (json_get payload ''finish_reason'') json_str of
                Some r \<Rightarrow> Inr (TerminalPayload r)
              | None \<Rightarrow> token_payload payload))"

definition http_response_error :: "(string \<Rightarrow> string + json) \<Rightarrow> string \<Rightarrow> string \<Rightarrow> transport_error" where
  "http_response_error parse_json status txt =
    (case (case parse_json txt of Inl _ \<Rightarrow> None | Inr v \<Rightarrow> remote_error_message v) of
       Some d \<Rightarrow> TransportError (''HTTP '' @ status @ '': '' @ d)
     | None \<Rightarrow> if trim txt = [] then TransportError (''HTTP '' @ status)
               else TransportError (''HTTP '' @ status @ '': '' @ trim txt))"

subsection \<open>The HTTP transport\<close>

record http_transport =
  generate_url :: string
  body :: "(string + bytes) list option"
  buffered :: bytes

definition http_open :: "string \<Rightarrow> http_transport" where
  "http_open url = \<lparr>generate_url = url, body = None, buffered = []\<rparr>"

fun trim_end_slashes :: "string \<Rightarrow> string" where
  "trim_end_slashes s = rev (dropWhile (\<lambda>c. c = CHR ''/'') (rev s))"

definition factory_url :: "string \<Rightarrow> string" where
  "factory_url base = trim_end_slashes base @ ''/generate''"

definition http_error :: "string \<Rightarrow> transport_error" where
  "http_error e = TransportError (''HTTP transport error: '' @ e)"

text \<open>What the client answers: an error of its own, or a status with a success flag and either the
  body as text or the chunks to come.\<close>

datatype http_response =
    ClientError string
  | Refused string "string + string"
  | Streaming "(string + bytes) list"

definition http_send :: "(string \<Rightarrow> string + json) \<Rightarrow> http_response \<Rightarrow> http_transport \<Rightarrow>
    (transport_error + unit) \<times> http_transport" where
  "http_send parse_json resp t =
    (if body t \<noteq> None then (Inl (TransportError ''transport already has an active request''), t)
     else case resp of
       ClientError e \<Rightarrow> (Inl (http_error e), t)
     | Refused status (Inl e) \<Rightarrow> (Inl (http_error e), t)
     | Refused status (Inr txt) \<Rightarrow> (Inl (http_response_error parse_json status txt), t)
     | Streaming cs \<Rightarrow> (Inr (), t\<lparr>body := Some cs\<rparr>))"

lemma sse_frame_end_bounds:
  assumes "sse_frame_end buf = Some (i, k)"
  shows "frame_end_at buf i = Some (i, k)" "i < length buf" "0 < k" "\<forall>j < i. frame_end_at buf j = None"
proof -
  have ex: "\<exists>us vs. [0..<length buf] = us @ i # vs \<and> frame_end_at buf i = Some (i, k) \<and> (\<forall>j \<in> set us. frame_end_at buf j = None)"
  proof -
    have gen: "\<exists>us v vs. xs = us @ v # vs \<and> f v = Some x \<and> (\<forall>j \<in> set us. f j = None)"
      if "List.map_filter f xs = x # ys" for f :: "nat \<Rightarrow> (nat \<times> nat) option" and xs x ys
      using that
    proof (induction xs)
      case (Cons a xs)
      show ?case
      proof (cases "f a")
        case None
        then obtain us v vs where "xs = us @ v # vs" "f v = Some x" "\<forall>j \<in> set us. f j = None"
          using Cons by (auto simp: map_filter_simps)
        then show ?thesis using None by (intro exI [of _ "a # us"] exI [of _ v] exI [of _ vs]) auto
      next
        case (Some y)
        then show ?thesis using Cons.prems by (intro exI [of _ "[]"] exI [of _ a] exI [of _ xs]) (auto simp: map_filter_simps)
      qed
    qed (simp add: map_filter_simps)
    obtain ys where "List.map_filter (frame_end_at buf) [0..<length buf] = (i, k) # ys"
      using assms by (auto simp: sse_frame_end_def split: list.splits)
    from gen [OF this] obtain us v vs where u: "[0..<length buf] = us @ v # vs" "frame_end_at buf v = Some (i, k)"
      "\<forall>j \<in> set us. frame_end_at buf j = None" by blast
    moreover have "v = i" using u(2) by (auto simp: frame_end_at_def split: option.splits)
    ultimately show ?thesis by blast
  qed
  then obtain us vs where u: "[0..<length buf] = us @ i # vs" "frame_end_at buf i = Some (i, k)"
    "\<forall>j \<in> set us. frame_end_at buf j = None" by blast
  show "frame_end_at buf i = Some (i, k)" by (rule u(2))
  have "i \<in> set [0..<length buf]" unfolding u(1) by simp
  then show "i < length buf" by simp
  show "0 < k" using u(2) by (auto simp: frame_end_at_def line_ending_len_def split: option.splits if_splits)
  show "\<forall>j < i. frame_end_at buf j = None"
  proof (intro allI impI)
    fix j assume j: "j < i"
    have "length us = i"
    proof -
      have lt: "length us < length [0..<length buf]" using u(1) by simp
      have "[0..<length buf] ! length us = i" unfolding u(1) by simp
      then show ?thesis using lt by simp
    qed
    then have "us = take i [0..<length buf]" unfolding u(1) by simp
    then have "set us = {0..<i}" using \<open>i < length buf\<close> by (simp add: take_upt)
    then show "frame_end_at buf j = None" using u(3) j by simp
  qed
qed

lemma frame_shrinks: "sse_frame_end buf = Some (i, k) \<Longrightarrow> length buf - (i + k) < length buf"
  using sse_frame_end_bounds [of buf i k] by linarith

text \<open>The loop of \<open>next_event\<close>: each turn takes a frame off the buffer or a chunk off the body.\<close>

function next_event_loop :: "(string + bytes) list option \<Rightarrow> bytes \<Rightarrow>
    (transport_error + sse_event option) \<times> (string + bytes) list option \<times> bytes" where
  "next_event_loop strm buf =
    (case sse_frame_end buf of
       Some (i, k) \<Rightarrow>
         let rest = drop (i + k) buf
         in (case parse_sse_frame (take i buf) of
               Inl e \<Rightarrow> (Inl e, strm, rest)
             | Inr (Some ev) \<Rightarrow> (Inr (Some ev), strm, rest)
             | Inr None \<Rightarrow> next_event_loop strm rest)
     | None \<Rightarrow>
         (case strm of
            None \<Rightarrow> (Inl (TransportError ''next_event called before send''), None, buf)
          | Some [] \<Rightarrow>
              if buf = [] then (Inr None, None, buf)
              else (Inl (TransportError ''SSE stream ended in a partial frame''), None, buf)
          | Some (Inl e # cs) \<Rightarrow> (Inl (http_error e), Some cs, buf)
          | Some (Inr chunk # cs) \<Rightarrow> next_event_loop (Some cs) (buf @ chunk)))"
  by pat_completeness auto
termination
  by (relation "measures [\<lambda>(s, b). case s of None \<Rightarrow> 0 | Some cs \<Rightarrow> length cs, \<lambda>(s, b). length b]")
    (auto simp: frame_shrinks)

declare next_event_loop.simps [simp del]

definition next_event :: "http_transport \<Rightarrow> (transport_error + sse_event option) \<times> http_transport" where
  "next_event t = (case next_event_loop (body t) (buffered t) of (r, strm, buf) \<Rightarrow> (r, t\<lparr>body := strm, buffered := buf\<rparr>))"

definition http_cancel :: "http_transport \<Rightarrow> (transport_error + unit) \<times> http_transport" where
  "http_cancel t = (Inr (), t\<lparr>body := None, buffered := []\<rparr>)"

subsection \<open>UTF-8 of concatenations\<close>

lemma utf8_first_append: "utf8_first bs = Inr w \<Longrightarrow> bs \<noteq> [] \<Longrightarrow> utf8_first (bs @ cs) = Inr w"
  by (auto simp: utf8_first_def Let_def split: list.splits if_splits)

lemma utf8_first_width: "utf8_first bs = Inr w \<Longrightarrow> bs \<noteq> [] \<Longrightarrow> 0 < w \<and> w \<le> length bs"
  by (auto simp: utf8_first_def Let_def split: list.splits if_splits)

lemma utf8_check_append:
  "utf8_check p bs = None \<Longrightarrow> utf8_check p (bs @ cs) = utf8_check (p + length bs) cs"
proof (induction p bs rule: utf8_check.induct)
  case (1 p bs)
  show ?case
  proof (cases "bs = []")
    case False
    obtain w where w: "utf8_first bs = Inr w" using "1.prems" False by (cases "utf8_first bs") (auto simp: utf8_check.simps [of p bs])
    then have w': "0 < w" "w \<le> length bs" using utf8_first_width False by auto
    have "utf8_check (p + w) (drop w bs) = None" using "1.prems" False w w' by (simp add: utf8_check.simps [of p bs])
    then have "utf8_check (p + w) (drop w bs @ cs) = utf8_check (p + w + length (drop w bs)) cs"
      using "1.IH" False w w' by blast
    moreover have "utf8_check p (bs @ cs) = utf8_check (p + w) (drop w bs @ cs)"
      using utf8_first_append [OF w False, of cs] w' False by (simp add: utf8_check.simps [of p "bs @ cs"])
    ultimately show ?thesis using w'(2) by simp
  qed simp
qed

lemma utf8_check_shift: "utf8_check p bs = None \<longleftrightarrow> utf8_check q bs = None"
proof (induction p bs arbitrary: q rule: utf8_check.induct)
  case (1 p bs)
  show ?case
  proof (cases "bs = [] \<or> (\<exists>e. utf8_first bs = Inl e)")
    case True
    then show ?thesis by (auto simp: utf8_check.simps [of p bs] utf8_check.simps [of q bs])
  next
    case False
    then obtain w where w: "utf8_first bs = Inr w" "bs \<noteq> []" by (cases "utf8_first bs") auto
    then have "w \<noteq> 0" using utf8_first_width by blast
    then have "utf8_check (p + w) (drop w bs) = None \<longleftrightarrow> utf8_check (q + w) (drop w bs) = None"
      using "1.IH" [OF w(2) w(1)] by blast
    then show ?thesis
      using w \<open>w \<noteq> 0\<close> by (simp add: utf8_check.simps [of p bs] utf8_check.simps [of q bs])
  qed
qed

lemma utf8_valid_append: "utf8_valid a \<Longrightarrow> utf8_valid b \<Longrightarrow> utf8_valid (a @ b)"
  using utf8_check_append [of 0 a b] utf8_check_shift [of 0 b "length a"] by (simp add: utf8_valid_def)

lemma utf8_valid_ascii: "\<forall>c \<in> set bs. byte_in 0 127 c \<Longrightarrow> utf8_valid bs"
proof (induction bs)
  case (Cons c bs)
  have "utf8_valid [c]" using Cons.prems
    by (simp add: utf8_valid_def utf8_check.simps utf8_first_def char_width_def)
  then show ?case using utf8_valid_append [of "[c]" bs] Cons by simp
qed (simp add: utf8_valid_def utf8_check.simps)

subsection \<open>Printing and parsing a frame\<close>

definition plain :: "bytes \<Rightarrow> bool" where
  "plain l \<longleftrightarrow> CR \<notin> set l \<and> LF \<notin> set l"

lemma split_lines_plain: "plain l \<Longrightarrow> split_lines l = [l]"
  by (induction l) (auto simp: plain_def)

lemma split_lines_append: "plain l \<Longrightarrow> split_lines (l @ LF # r) = l # split_lines r"
  by (induction l) (auto simp: plain_def)

lemma split_join: "ls \<noteq> [] \<Longrightarrow> \<forall>l \<in> set ls. plain l \<Longrightarrow> split_lines (join_lines ls) = ls"
  by (induction ls rule: join_lines.induct) (auto simp: split_lines_plain split_lines_append)

lemma utf8_valid_join: "\<forall>l \<in> set ls. utf8_valid l \<Longrightarrow> utf8_valid (join_lines ls)"
proof (induction ls rule: join_lines.induct)
  case (3 l m ls)
  have "utf8_valid [LF]" by (rule utf8_valid_ascii) (simp add: byte_in_def)
  then have "utf8_valid ([LF] @ join_lines (m # ls))" using 3 utf8_valid_append by (metis list.set_intros(2))
  then show ?case using utf8_valid_append [of l] 3 by simp
qed (auto simp: utf8_valid_def utf8_check.simps)

definition frame_lines :: "string option \<Rightarrow> bytes list \<Rightarrow> bytes list" where
  "frame_lines name ds = (case name of None \<Rightarrow> [] | Some e \<Rightarrow> [''event: '' @ e]) @ map (\<lambda>d. ''data: '' @ d) ds"

definition print_sse :: "string option \<Rightarrow> bytes list \<Rightarrow> bytes" where
  "print_sse name ds = join_lines (frame_lines name ds) @ [LF, LF]"

lemma sse_line_data: "sse_line st (''data: '' @ d) = (fst st, snd st @ [d])"
  by (simp add: sse_line_def split_once_def strip_space_def)

lemma sse_line_event: "sse_line st (''event: '' @ e) = (Some e, snd st)"
  by (simp add: sse_line_def split_once_def strip_space_def)

lemma sse_lines_data: "foldl sse_line st (map (\<lambda>d. ''data: '' @ d) ds) = (fst st, snd st @ ds)"
  by (induction ds arbitrary: st) (simp_all add: sse_line_data del: append_Cons)

lemma parse_printed:
  assumes "ds \<noteq> []" "\<forall>l \<in> set (frame_lines name ds). plain l \<and> utf8_valid l"
  shows "parse_sse_frame (join_lines (frame_lines name ds)) = Inr (Some \<lparr>sse_name = name, sse_data = join_lines ds\<rparr>)"
proof -
  have ne: "frame_lines name ds \<noteq> []" using assms(1) by (simp add: frame_lines_def)
  have "utf8_check 0 (join_lines (frame_lines name ds)) = None"
    using utf8_valid_join assms(2) by (auto simp: utf8_valid_def)
  moreover have "foldl sse_line (None, []) (frame_lines name ds) = (name, ds)"
    by (cases name) (simp_all add: frame_lines_def sse_lines_data sse_line_event del: append_Cons)
  ultimately show ?thesis using split_join [OF ne] assms by (simp add: parse_sse_frame_def)
qed

subsection \<open>Where a frame ends\<close>

lemma byte_at_Cons [simp]: "byte_at (c # buf) 0 = Some c" "byte_at (c # buf) (Suc i) = byte_at buf i" "byte_at [] i = None"
  by (simp_all add: byte_at_def)

lemma line_ending_Cons [simp]: "line_ending_len (c # buf) (Suc i) = line_ending_len buf i"
  by (simp add: line_ending_len_def)

lemma frame_end_at_Cons: "frame_end_at (c # buf) (Suc i) = map_option (\<lambda>(i, k). (Suc i, k)) (frame_end_at buf i)"
  by (simp add: frame_end_at_def option.map_comp comp_def split: option.splits)

lemma map_filter_first_shift:
  "(case List.map_filter (\<lambda>i. map_option g (f i)) is of [] \<Rightarrow> None | x # _ \<Rightarrow> Some x)
   = map_option g (case List.map_filter f is of [] \<Rightarrow> None | x # _ \<Rightarrow> Some x)"
  by (induction "is") (auto simp: map_filter_simps split: option.splits)

lemma sse_frame_end_Nil [simp]: "sse_frame_end [] = None"
  by (simp add: sse_frame_end_def map_filter_simps)

lemma map_filter_map: "List.map_filter f (map g is) = List.map_filter (\<lambda>i. f (g i)) is"
  by (induction "is") (simp_all add: map_filter_simps split: option.splits)

lemma sse_frame_end_Cons:
  "sse_frame_end (c # buf) =
    (case frame_end_at (c # buf) 0 of Some x \<Rightarrow> Some x | None \<Rightarrow> map_option (\<lambda>(i, k). (Suc i, k)) (sse_frame_end buf))"
proof -
  have "[0..<length (c # buf)] = 0 # map Suc [0..<length buf]"
    by (simp only: list.size add_Suc_right add_0_right upt_conv_Cons zero_less_Suc map_Suc_upt)
  then show ?thesis
    unfolding sse_frame_end_def
    by (cases "frame_end_at (c # buf) 0")
      (simp_all only: map_filter_simps map_filter_map frame_end_at_Cons map_filter_first_shift option.case list.case)
qed

lemma frame_end_at_plain: "c \<noteq> CR \<Longrightarrow> c \<noteq> LF \<Longrightarrow> frame_end_at (c # buf) 0 = None"
  by (simp add: frame_end_at_def line_ending_len_def)

lemma frame_end_at_LF: "frame_end_at (LF # buf) 0 = map_option (\<lambda>k. (0, Suc k)) (line_ending_len buf 0)"
  by (simp add: frame_end_at_def line_ending_len_def [of "LF # buf"])

lemma line_ending_plain: "c \<noteq> CR \<Longrightarrow> c \<noteq> LF \<Longrightarrow> line_ending_len (c # buf) 0 = None"
  by (simp add: line_ending_len_def)

lemma sse_frame_end_skip:
  "plain l \<Longrightarrow> sse_frame_end (l @ buf) = map_option (\<lambda>(i, k). (length l + i, k)) (sse_frame_end buf)"
proof (induction l)
  case (Cons c l)
  then have "c \<noteq> CR" "c \<noteq> LF" "plain l" by (auto simp: plain_def)
  then show ?case using Cons.IH
    by (simp add: sse_frame_end_Cons frame_end_at_plain option.map_comp comp_def case_prod_unfold)
qed (simp add: option.map_ident case_prod_unfold)

lemma sse_frame_end_single_LF:
  "plain l \<Longrightarrow> l \<noteq> [] \<Longrightarrow> sse_frame_end (LF # l @ buf) = map_option (\<lambda>(i, k). (Suc i, k)) (sse_frame_end (l @ buf))"
  by (cases l) (auto simp: sse_frame_end_Cons [of LF] frame_end_at_LF line_ending_plain plain_def)

lemma sse_frame_end_blank: "sse_frame_end (LF # LF # rest) = Some (0, 2)"
  by (simp add: sse_frame_end_Cons frame_end_at_LF line_ending_len_def)

lemma sse_frame_end_printed:
  "ls \<noteq> [] \<Longrightarrow> \<forall>l \<in> set ls. plain l \<and> l \<noteq> [] \<Longrightarrow>
   sse_frame_end (join_lines ls @ LF # LF # rest) = Some (length (join_lines ls), 2)"
proof (induction ls rule: join_lines.induct)
  case (2 l)
  then show ?case by (simp add: sse_frame_end_skip sse_frame_end_blank)
next
  case (3 l m ls)
  obtain r where r: "join_lines (m # ls) = m @ r" by (cases ls) auto
  have "sse_frame_end (join_lines (m # ls) @ LF # LF # rest) = Some (length (join_lines (m # ls)), 2)"
    using 3 by auto
  then have "sse_frame_end (LF # join_lines (m # ls) @ LF # LF # rest) = Some (Suc (length (join_lines (m # ls))), 2)"
    using sse_frame_end_single_LF [of m "r @ LF # LF # rest"] "3.prems" unfolding r by simp
  then show ?case using "3.prems" by (simp add: sse_frame_end_skip)
qed simp

text \<open>A frame found in a prefix free of carriage returns stays the first frame when more bytes arrive.\<close>

lemma sse_frame_end_mono:
  "sse_frame_end buf = Some (i, k) \<Longrightarrow> CR \<notin> set buf \<Longrightarrow> sse_frame_end (buf @ suf) = Some (i, k)"
proof (induction buf arbitrary: i k)
  case (Cons c buf)
  show ?case
  proof (cases "c = LF")
    case False
    then have "c \<noteq> CR" using Cons.prems by auto
    then show ?thesis using Cons False by (auto simp: sse_frame_end_Cons frame_end_at_plain)
  next
    case LF: True
    then obtain d r where buf: "buf = d # r" using Cons.prems
      by (cases buf) (auto simp: sse_frame_end_Cons frame_end_at_LF line_ending_len_def)
    have "line_ending_len (buf @ suf) 0 = line_ending_len buf 0"
      using Cons.prems(2) unfolding buf by (auto simp: line_ending_len_def)
    then have "frame_end_at (LF # buf @ suf) 0 = frame_end_at (LF # buf) 0" by (simp add: frame_end_at_LF)
    then show ?thesis using Cons LF by (auto simp: sse_frame_end_Cons split: option.splits)
  qed
qed simp

subsection \<open>The properties of the event reader\<close>

lemma frame_lines_nonempty: "l \<in> set (frame_lines name ds) \<Longrightarrow> l \<noteq> []"
  by (auto simp: frame_lines_def split: option.splits)

lemma next_event_printed:
  assumes "ds \<noteq> []" "\<forall>l \<in> set (frame_lines name ds). plain l \<and> utf8_valid l" "buffered t = print_sse name ds @ rest"
  shows "next_event t = (Inr (Some \<lparr>sse_name = name, sse_data = join_lines ds\<rparr>), t\<lparr>buffered := rest\<rparr>)"
proof -
  have "sse_frame_end (join_lines (frame_lines name ds) @ LF # LF # rest) = Some (length (join_lines (frame_lines name ds)), 2)"
    by (rule sse_frame_end_printed) (use assms frame_lines_nonempty in \<open>auto simp: frame_lines_def\<close>)
  then show ?thesis
    using parse_printed [OF assms(1,2)] assms(3)
    by (simp add: next_event_def next_event_loop.simps print_sse_def)
qed

lemma frame_lines_ok:
  "(\<forall>e. name = Some e \<longrightarrow> plain e \<and> utf8_valid e) \<and> (\<forall>d \<in> set ds. plain d \<and> utf8_valid d) \<Longrightarrow>
    \<forall>l \<in> set (frame_lines name ds). plain l \<and> utf8_valid l"
proof -
  have "utf8_valid ''event: ''" "utf8_valid ''data: ''" by (simp_all add: utf8_valid_ascii byte_in_def)
  then have "plain e \<and> utf8_valid e \<Longrightarrow> plain (''event: '' @ e) \<and> utf8_valid (''event: '' @ e)"
    "plain e \<and> utf8_valid e \<Longrightarrow> plain (''data: '' @ e) \<and> utf8_valid (''data: '' @ e)" for e
    by (auto simp: plain_def intro: utf8_valid_append simp del: append_Cons append_Nil)
  then show "(\<forall>e. name = Some e \<longrightarrow> plain e \<and> utf8_valid e) \<and> (\<forall>d \<in> set ds. plain d \<and> utf8_valid d) \<Longrightarrow> ?thesis"
    by (auto simp: frame_lines_def simp del: append_Cons split: option.splits)
qed

text \<open>Parsing inverts printing. A frame written with an optional event name and the data
  lines \<open>ds\<close>, none of them containing a line ending and all of them UTF-8, is read back by \<open>next_event\<close>
  as the event of that name whose data are the lines joined by newlines; the stream is not touched and what
  follows the frame in the buffer is left for the next call.
\<close>

theorem printed_frame_is_read_back:
  assumes "ds \<noteq> []" "\<forall>e. name = Some e \<longrightarrow> plain e \<and> utf8_valid e" "\<forall>d \<in> set ds. plain d \<and> utf8_valid d"
    and "buffered t = print_sse name ds @ rest"
  shows "next_event t = (Inr (Some \<lparr>sse_name = name, sse_data = join_lines ds\<rparr>), t\<lparr>buffered := rest\<rparr>)"
  using next_event_printed [OF assms(1) _ assms(4)] frame_lines_ok assms(2,3) by blast

theorem printed_frame_is_read_back_witness:
  "let t = \<lparr>generate_url = ''u'', body = Some [], buffered = print_sse (Some ''token'') [''first'', ''second''] @ ''data''\<rparr>
   in next_event t = (Inr (Some \<lparr>sse_name = Some ''token'', sse_data = ''first'' @ LF # ''second''\<rparr>), t\<lparr>buffered := ''data''\<rparr>)"
proof -
  have "\<forall>e \<in> {''token'', ''first'', ''second''}. plain e \<and> utf8_valid e"
    by (simp add: plain_def utf8_valid_ascii byte_in_def)
  then show ?thesis
    using printed_frame_is_read_back [of "[''first'', ''second'']" "Some ''token''"
        "\<lparr>generate_url = ''u'', body = Some [], buffered = print_sse (Some ''token'') [''first'', ''second''] @ ''data''\<rparr>" "''data''"]
    by simp
qed

lemma line_ending_bound: "line_ending_len buf i = Some k \<Longrightarrow> i + k \<le> length buf"
  by (auto simp: line_ending_len_def byte_at_def split: option.splits if_splits)

lemma frame_end_bound: "frame_end_at buf i = Some (j, k) \<Longrightarrow> i + k \<le> length buf"
  by (auto simp: frame_end_at_def split: option.splits dest: line_ending_bound)

lemma next_event_loop_frame:
  assumes "sse_frame_end buf = Some (i, k)"
  shows "next_event_loop strm buf = (case parse_sse_frame (take i buf) of
           Inl e \<Rightarrow> (Inl e, strm, drop (i + k) buf)
         | Inr (Some ev) \<Rightarrow> (Inr (Some ev), strm, drop (i + k) buf)
         | Inr None \<Rightarrow> next_event_loop strm (drop (i + k) buf))"
  by (subst next_event_loop.simps) (simp add: assms Let_def)

lemma next_event_loop_chunk:
  "sse_frame_end buf = None \<Longrightarrow> next_event_loop (Some (Inr c # cs)) buf = next_event_loop (Some cs) (buf @ c)"
  by (subst next_event_loop.simps) simp

lemma next_event_loop_eof:
  "sse_frame_end buf = None \<Longrightarrow> next_event_loop (Some []) buf =
    ((if buf = [] then Inr None else Inl (TransportError ''SSE stream ended in a partial frame'')), None, buf)"
  by (subst next_event_loop.simps) simp

text \<open>Reading through chunks is reading from their concatenation.\<close>

lemma next_event_loop_merge:
  assumes "next_event_loop strm buf = (r, strm', buf')" "strm = Some (map Inr cs)" "CR \<notin> set (buf @ concat cs)"
  shows "\<exists>cs'. (strm' = Some (map Inr cs') \<and> next_event_loop (Some []) (buf @ concat cs) = (r, Some [], buf' @ concat cs')
          \<or> strm' = None \<and> cs' = [] \<and> next_event_loop (Some []) (buf @ concat cs) = (r, None, buf'))
        \<and> CR \<notin> set (buf' @ concat cs')"
  using assms
proof (induction strm buf arbitrary: cs rule: next_event_loop.induct)
  case (1 strm buf)
  show ?case
  proof (cases "sse_frame_end buf")
    case (Some ik)
    then obtain i k where ik: "sse_frame_end buf = Some (i, k)" by (cases ik) auto
    have hit: "sse_frame_end (buf @ concat cs) = Some (i, k)"
      using sse_frame_end_mono [OF ik] "1.prems"(3) by auto
    have b: "i + k \<le> length buf" using frame_end_bound sse_frame_end_bounds(1) [OF ik] by blast
    have split: "take i (buf @ concat cs) = take i buf" "drop (i + k) (buf @ concat cs) = drop (i + k) buf @ concat cs"
      using b by simp_all
    have nocr: "CR \<notin> set (drop (i + k) buf @ concat cs)" using "1.prems"(3) by (auto dest: in_set_dropD)
    note whole = next_event_loop_frame [OF hit, of "Some []", unfolded split]
    note parts = "1.prems"(1) [unfolded next_event_loop_frame [OF ik]]
    show ?thesis
    proof (cases "parse_sse_frame (take i buf) = Inr None")
      case True
      then show ?thesis using "1.IH"(2) [OF ik refl refl True refl] whole parts "1.prems"(2) nocr by simp
    next
      case False
      then show ?thesis using whole parts "1.prems"(2) nocr
        by (intro exI [of _ cs]) (auto split: sum.splits option.splits)
    qed
  next
    case None
    show ?thesis
    proof (cases cs)
      case Nil
      then show ?thesis using "1.prems" None by (intro exI [of _ "[]"]) (auto simp: next_event_loop_eof)
    next
      case (Cons c cs2)
      then have "strm = Some (Inr c # map Inr cs2)" using "1.prems"(2) by simp
      then show ?thesis
        using "1.IH"(1) [OF None, of "Inr c # map Inr cs2" "Inr c" "map Inr cs2" c cs2] "1.prems" Cons None
        by (simp add: next_event_loop_chunk)
    qed
  qed
qed

text \<open>The results of \<open>n\<close> calls of \<open>next_event\<close> in a row.\<close>

fun next_events :: "nat \<Rightarrow> http_transport \<Rightarrow> (transport_error + sse_event option) list" where
  "next_events 0 t = []"
| "next_events (Suc n) t = (case next_event t of (r, t') \<Rightarrow> r # next_events n t')"

lemma next_events_cong: "body t = body u \<Longrightarrow> buffered t = buffered u \<Longrightarrow> next_events n t = next_events n u"
proof (induction n arbitrary: t u)
  case (Suc n)
  obtain r s b where l: "next_event_loop (body t) (buffered t) = (r, s, b)" by (metis prod_cases3)
  have "next_events n (t\<lparr>body := s, buffered := b\<rparr>) = next_events n (u\<lparr>body := s, buffered := b\<rparr>)" by (rule Suc.IH) simp_all
  moreover have "next_event t = (r, t\<lparr>body := s, buffered := b\<rparr>)" "next_event u = (r, u\<lparr>body := s, buffered := b\<rparr>)"
    using l Suc.prems by (simp_all add: next_event_def)
  ultimately show ?case by simp
qed simp

text \<open>
  A transport whose chunks have been merged: nothing pending but the bytes in the buffer.
\<close>

definition merged :: "http_transport \<Rightarrow> bytes list \<Rightarrow> http_transport" where
  "merged t cs = t\<lparr>body := Some [], buffered := buffered t @ concat cs\<rparr>"

lemma next_events_merged:
  assumes "body t = Some (map Inr cs)" "CR \<notin> set (buffered t @ concat cs)"
  shows "next_events n t = next_events n (merged t cs)"
  using assms
proof (induction n arbitrary: t cs)
  case (Suc n)
  obtain r s b where l: "next_event_loop (body t) (buffered t) = (r, s, b)" by (metis prod_cases3)
  let ?t = "t\<lparr>body := s, buffered := b\<rparr>"
  obtain cs' where m: "s = Some (map Inr cs') \<and> next_event_loop (Some []) (buffered t @ concat cs) = (r, Some [], b @ concat cs')
      \<or> s = None \<and> cs' = [] \<and> next_event_loop (Some []) (buffered t @ concat cs) = (r, None, b)"
    and c: "CR \<notin> set (b @ concat cs')"
    using next_event_loop_merge [OF l Suc.prems] by blast
  have first: "next_event t = (r, ?t)" using l by (simp add: next_event_def)
  from m show ?case
  proof (elim disjE conjE)
    assume s: "s = Some (map Inr cs')" and w: "next_event_loop (Some []) (buffered t @ concat cs) = (r, Some [], b @ concat cs')"
    have "next_event (merged t cs) = (r, merged ?t cs')" using w by (simp add: next_event_def merged_def)
    moreover have "next_events n ?t = next_events n (merged ?t cs')" using Suc.IH [of ?t cs'] s c by simp
    ultimately show ?thesis using first by simp
  next
    assume s: "s = None" and w: "next_event_loop (Some []) (buffered t @ concat cs) = (r, None, b)"
    have "next_event (merged t cs) = (r, ?t)" using w s by (simp add: next_event_def merged_def)
    then show ?thesis using first by simp
  qed
qed simp

text \<open>C25. The events do not depend on the network's chunks. Two transports whose buffered and
  pending bytes are the same, cut anywhere, give the same results on any number of calls of
  \<open>next_event\<close>, errors and the end of the stream included, when the bytes hold no carriage return.
\<close>

theorem chunking_is_invisible:
  assumes "body t = Some (map Inr cs)" "body u = Some (map Inr ds)"
    and "buffered t @ concat cs = buffered u @ concat ds" "CR \<notin> set (buffered t @ concat cs)"
  shows "next_events n t = next_events n u"
proof -
  have "next_events n t = next_events n (merged t cs)" "next_events n u = next_events n (merged u ds)"
    using next_events_merged [of t cs n] next_events_merged [of u ds n] assms by auto
  then show ?thesis using next_events_cong [of "merged t cs" "merged u ds" n] assms(3) by (simp add: merged_def)
qed

theorem chunking_is_invisible_witness:
  "let byte_wise = \<lparr>generate_url = ''u'', body = Some (map (\<lambda>c. Inr [c]) (''data: x'' @ [LF, LF])), buffered = []\<rparr>;
       at_once = \<lparr>generate_url = ''u'', body = Some [Inr (''data: x'' @ [LF, LF])], buffered = []\<rparr>
   in next_events 2 byte_wise = next_events 2 at_once"
  using chunking_is_invisible [of "\<lparr>generate_url = ''u'', body = Some (map (\<lambda>c. Inr [c]) (''data: x'' @ [LF, LF])), buffered = []\<rparr>"
      "map (\<lambda>c. [c]) (''data: x'' @ [LF, LF])"
      "\<lparr>generate_url = ''u'', body = Some [Inr (''data: x'' @ [LF, LF])], buffered = []\<rparr>" "[''data: x'' @ [LF, LF]]" 2]
  by simp

text \<open>
  With carriage returns it does. One frame ended by two CRLF and then the end of the body: read in
  one chunk the second call reports the end of the stream, cut inside the last CRLF it reports a partial frame,
  because the carriage return alone already counted as a line ending and its newline is left in the buffer.
\<close>

definition crlf_frame :: bytes where
  "crlf_frame = ''data: x'' @ [CR, LF, CR, LF]"

text \<open>A chunk boundary inside the final CRLF turns a clean end of stream into an error.
\<close>

theorem split_crlf_is_a_partial_frame:
  "next_events 2 \<lparr>generate_url = url, body = Some [Inr crlf_frame], buffered = []\<rparr>
     = [Inr (Some (sse_of_data ''x'')), Inr None]
   \<and> next_events 2 \<lparr>generate_url = url, body = Some [Inr (butlast crlf_frame), Inr [last crlf_frame]], buffered = []\<rparr>
     = [Inr (Some (sse_of_data ''x'')), Inl (TransportError ''SSE stream ended in a partial frame'')]"
proof -
  have p: "parse_sse_frame ''data: x'' = Inr (Some (sse_of_data ''x''))"
    using parse_printed [of "[''x'']" None] by (simp add: frame_lines_def plain_def utf8_valid_ascii byte_in_def sse_of_data_def)
  have e1: "sse_frame_end crlf_frame = Some (7, 4)"
    by (simp add: crlf_frame_def sse_frame_end_Cons frame_end_at_def line_ending_len_def byte_at_def)
  have e2: "sse_frame_end (butlast crlf_frame) = Some (7, 3)"
    by (simp add: crlf_frame_def sse_frame_end_Cons frame_end_at_def line_ending_len_def byte_at_def)
  have e3: "sse_frame_end [LF] = None" by (simp add: sse_frame_end_Cons frame_end_at_LF line_ending_len_def)
  have t: "take 7 crlf_frame = ''data: x''" "take 7 (butlast crlf_frame) = ''data: x''" "drop 11 crlf_frame = []"
    "drop 10 (butlast crlf_frame) = []" "last crlf_frame = LF" by (simp_all add: crlf_frame_def)
  show ?thesis
    by (simp add: numeral_2_eq_2 next_event_def next_event_loop_chunk next_event_loop_eof
        next_event_loop_frame [OF e1] next_event_loop_frame [OF e2] t p e3)
qed

end
