(* ===== verification/Wire_Stream.thy ===== *)
theory Wire_Stream
  imports Wire_Sse
begin

text \<open>
  \<open>crates/wire/src/transport.rs\<close>, second half, and \<open>crates/wire/src/telemetry.rs\<close>: one request
  over one transport.

  The \<open>Transport\<close> trait is the record \<open>transport_ops\<close>, its contract the locale
  \<open>transport_contract\<close>, interpreted on the HTTP transport of \<open>Wire_Sse\<close>. Times are arguments, as in the code.
  A request stream is shown to refine a three-phase life (streaming, finished, failed), to cancel its transport
  exactly once unless the server ended the stream, and to deliver what the server wrote, token by
  token, however the network cuts it.
\<close>

subsection \<open>Telemetry\<close>

record 'x request_telemetry =
  rt_request :: "'x request"
  rt_first_token_ms :: "millis option"
  rt_last_token_ms :: "millis option"
  rt_output_tokens :: nat

definition telemetry_new :: "'x request \<Rightarrow> 'x request_telemetry" where
  "telemetry_new r = \<lparr>rt_request = r, rt_first_token_ms = None, rt_last_token_ms = None, rt_output_tokens = 0\<rparr>"

text \<open>The counter is a \<open>u32\<close>: release builds wrap.\<close>

definition observe_token :: "millis \<Rightarrow> 'x request_telemetry \<Rightarrow> 'x request_telemetry" where
  "observe_token now tel = tel\<lparr>
     rt_first_token_ms := (case rt_first_token_ms tel of None \<Rightarrow> Some now | Some f \<Rightarrow> Some f),
     rt_last_token_ms := Some now,
     rt_output_tokens := (rt_output_tokens tel + 1) mod 2 ^ 32\<rparr>"

definition finish :: "millis \<Rightarrow> 'x request_telemetry \<Rightarrow> request_outcome" where
  "finish now tel = \<lparr>
     out_id = req_id (rt_request tel),
     out_arrival_ms = req_arrival_ms (rt_request tel),
     out_first_token_ms = (case rt_first_token_ms tel of None \<Rightarrow> now | Some f \<Rightarrow> f),
     out_last_token_ms = (case rt_last_token_ms tel of None \<Rightarrow> now | Some l \<Rightarrow> l),
     prompt_tokens = prompt_len (rt_request tel) mod 2 ^ 32,
     output_tokens = rt_output_tokens tel,
     out_requested_tokens = max_tokens (params (rt_request tel))\<rparr>"

subsection \<open>Transports\<close>

record ('x, 't) transport_ops =
  op_send :: "'x transport_request \<Rightarrow> 't \<Rightarrow> (transport_error + unit) \<times> 't"
  op_next_event :: "'t \<Rightarrow> (transport_error + sse_event option) \<times> 't"
  op_cancel :: "request_id \<Rightarrow> 't \<Rightarrow> (transport_error + unit) \<times> 't"

text \<open>The HTTP transport, for a server \<open>serve\<close> that answers a \<open>POST\<close> of a request to a URL.\<close>

definition http_ops ::
  "(string \<Rightarrow> string + json) \<Rightarrow> (string \<Rightarrow> 'x transport_request \<Rightarrow> http_response) \<Rightarrow> ('x, http_transport) transport_ops" where
  "http_ops parse_json serve = \<lparr>
     op_send = (\<lambda>req t. http_send parse_json (serve (generate_url t) req) t),
     op_next_event = next_event,
     op_cancel = (\<lambda>_. http_cancel)\<rparr>"

subsection \<open>Request streams\<close>

datatype stream_output = Token token_id string | Terminal string

type_synonym stream_result = "transport_error + stream_output option"

record ('x, 't) request_stream =
  transport :: 't
  rs_request_id :: request_id
  telemetry :: "'x request_telemetry"
  terminal :: bool
  cleaned_up :: bool
  rs_outcome :: "request_outcome option"

definition start :: "('x, 't) transport_ops \<Rightarrow> transport_error + 't \<Rightarrow> 'x request \<Rightarrow> transport_error + ('x, 't) request_stream" where
  "start ops opened r =
    (case opened of Inl e \<Rightarrow> Inl e
     | Inr t \<Rightarrow>
        (case op_send ops (from_request r) t of
           (Inl e, _) \<Rightarrow> Inl e
         | (Inr _, t') \<Rightarrow> Inr \<lparr>transport = t', rs_request_id = req_id r, telemetry = telemetry_new r,
             terminal = False, cleaned_up = False, rs_outcome = None\<rparr>))"

definition cleanup :: "('x, 't) transport_ops \<Rightarrow> ('x, 't) request_stream \<Rightarrow> (transport_error + unit) \<times> ('x, 't) request_stream" where
  "cleanup ops s =
    (if cleaned_up s then (Inr (), s)
     else case op_cancel ops (rs_request_id s) (transport s) of
       (r, t') \<Rightarrow> (r, s\<lparr>cleaned_up := True, transport := t'\<rparr>))"

definition fail_stream :: "('x, 't) transport_ops \<Rightarrow> transport_error \<Rightarrow> ('x, 't) request_stream \<Rightarrow> stream_result \<times> ('x, 't) request_stream" where
  "fail_stream ops e s = (Inl e, (snd (cleanup ops s))\<lparr>terminal := True\<rparr>)"

definition next_at :: "('x, 't) transport_ops \<Rightarrow> (string \<Rightarrow> string + json) \<Rightarrow> millis \<Rightarrow> ('x, 't) request_stream \<Rightarrow>
    stream_result \<times> ('x, 't) request_stream" where
  "next_at ops parse_json now s =
    (if terminal s then (Inr None, s)
     else case op_next_event ops (transport s) of (r, t') \<Rightarrow>
       let s1 = s\<lparr>transport := t'\<rparr>
       in (case r of
            Inl e \<Rightarrow> fail_stream ops e s1
          | Inr None \<Rightarrow> fail_stream ops (TransportError ''stream ended before terminal event'') s1
          | Inr (Some ev) \<Rightarrow>
             (case decode_event parse_json ev of
                Inl e \<Rightarrow> fail_stream ops e s1
              | Inr (TokenPayload tok txt) \<Rightarrow>
                  (Inr (Some (Token tok txt)), s1\<lparr>telemetry := observe_token now (telemetry s1)\<rparr>)
              | Inr (TerminalPayload reason) \<Rightarrow>
                  (Inr (Some (Terminal reason)),
                   s1\<lparr>terminal := True, cleaned_up := True, rs_outcome := Some (finish now (telemetry s1))\<rparr>))))"

definition cancel_at :: "('x, 't) transport_ops \<Rightarrow> millis \<Rightarrow> ('x, 't) request_stream \<Rightarrow> stream_result \<times> ('x, 't) request_stream" where
  "cancel_at ops now s =
    (if terminal s then (Inr None, s)
     else case cleanup ops s of (r, s1) \<Rightarrow>
       let s2 = s1\<lparr>terminal := True, rs_outcome := Some (finish now (telemetry s1))\<rparr>
       in (case r of Inl e \<Rightarrow> (Inl e, s2) | Inr _ \<Rightarrow> (Inr (Some (Terminal ''cancelled'')), s2)))"

definition drop_stream :: "('x, 't) transport_ops \<Rightarrow> ('x, 't) request_stream \<Rightarrow> ('x, 't) request_stream" where
  "drop_stream ops s = snd (cleanup ops s)"

text \<open>A client's calls in a row, with their results.\<close>

datatype stream_call = NextAt millis | CancelAt millis

fun do_call :: "('x, 't) transport_ops \<Rightarrow> (string \<Rightarrow> string + json) \<Rightarrow> stream_call \<Rightarrow> ('x, 't) request_stream \<Rightarrow>
    stream_result \<times> ('x, 't) request_stream" where
  "do_call ops pj (NextAt now) s = next_at ops pj now s"
| "do_call ops pj (CancelAt now) s = cancel_at ops now s"

fun stream_calls :: "('x, 't) transport_ops \<Rightarrow> (string \<Rightarrow> string + json) \<Rightarrow> stream_call list \<Rightarrow> ('x, 't) request_stream \<Rightarrow>
    stream_result list \<times> ('x, 't) request_stream" where
  "stream_calls ops pj [] s = ([], s)"
| "stream_calls ops pj (c # cs) s =
    (case do_call ops pj c s of (r, s1) \<Rightarrow> (case stream_calls ops pj cs s1 of (rs, s2) \<Rightarrow> (r # rs, s2)))"

subsection \<open>The life of a request\<close>

text \<open>
  What a request stream promises: it streams tokens, whose times are remembered, until it is finished at
  some time or fails. Only a finished request has an outcome, and it depends on the times alone.
\<close>

datatype life = Live "millis list" | Finished "millis list" millis | Failed

fun life_step :: "stream_call \<Rightarrow> stream_result \<Rightarrow> life \<Rightarrow> life" where
  "life_step (NextAt now) (Inr (Some (Token _ _))) (Live ts) = Live (ts @ [now])"
| "life_step (NextAt now) (Inr (Some (Terminal _))) (Live ts) = Finished ts now"
| "life_step (NextAt now) (Inl _) (Live ts) = Failed"
| "life_step (CancelAt now) _ (Live ts) = Finished ts now"
| "life_step _ _ l = l"

fun life_steps :: "stream_call list \<Rightarrow> stream_result list \<Rightarrow> life \<Rightarrow> life" where
  "life_steps (c # cs) (r # rs) l = life_steps cs rs (life_step c r l)"
| "life_steps _ _ l = l"

definition outcome_of :: "'x request \<Rightarrow> millis list \<Rightarrow> millis \<Rightarrow> request_outcome" where
  "outcome_of r ts now = \<lparr>out_id = req_id r, out_arrival_ms = req_arrival_ms r,
     out_first_token_ms = hd (ts @ [now]), out_last_token_ms = (if ts = [] then now else last ts),
     prompt_tokens = length (prompt r) mod 2 ^ 32, output_tokens = length ts mod 2 ^ 32,
     out_requested_tokens = max_tokens (params r)\<rparr>"

fun life_outcome :: "'x request \<Rightarrow> life \<Rightarrow> request_outcome option" where
  "life_outcome r (Finished ts now) = Some (outcome_of r ts now)"
| "life_outcome r _ = None"

fun is_live :: "life \<Rightarrow> bool" where
  "is_live (Live _) = True"
| "is_live _ = False"

text \<open>Tokens, then at most one terminal output or error, then nothing.\<close>

fun well_ended :: "stream_result list \<Rightarrow> bool" where
  "well_ended [] = True"
| "well_ended (Inr (Some (Token _ _)) # rs) = well_ended rs"
| "well_ended (Inr (Some (Terminal _)) # rs) = (\<forall>r \<in> set rs. r = Inr None)"
| "well_ended (Inl _ # rs) = (\<forall>r \<in> set rs. r = Inr None)"
| "well_ended (Inr None # rs) = False"

definition telemetry_of :: "'x request \<Rightarrow> millis list \<Rightarrow> 'x request_telemetry" where
  "telemetry_of r ts = \<lparr>rt_request = r, rt_first_token_ms = (if ts = [] then None else Some (hd ts)),
     rt_last_token_ms = (if ts = [] then None else Some (last ts)), rt_output_tokens = length ts mod 2 ^ 32\<rparr>"

definition represents :: "'x request \<Rightarrow> ('x, 't) request_stream \<Rightarrow> life \<Rightarrow> bool" where
  "represents r s l \<longleftrightarrow> rs_request_id s = req_id r \<and> rs_outcome s = life_outcome r l
     \<and> terminal s = (\<not> is_live l) \<and> cleaned_up s = terminal s
     \<and> (\<forall>ts. l = Live ts \<longrightarrow> telemetry s = telemetry_of r ts)"

lemma telemetry_new_of: "telemetry_new r = telemetry_of r []"
  by (simp add: telemetry_new_def telemetry_of_def)

lemma observe_token_of: "observe_token now (telemetry_of r ts) = telemetry_of r (ts @ [now])"
  by (auto simp: observe_token_def telemetry_of_def mod_Suc_eq)

lemma finish_of: "finish now (telemetry_of r ts) = outcome_of r ts now"
  by (simp add: finish_def telemetry_of_def outcome_of_def prompt_len_def)

lemma start_represents: "start ops opened r = Inr s \<Longrightarrow> represents r s (Live [])"
  by (auto simp: start_def represents_def telemetry_new_of split: sum.splits prod.splits)

lemma terminal_stays: "terminal s \<Longrightarrow> do_call ops pj c s = (Inr None, s)"
  by (cases c) (simp_all add: next_at_def cancel_at_def)

lemma terminal_calls: "terminal s \<Longrightarrow> stream_calls ops pj cs s = (replicate (length cs) (Inr None), s)"
  by (induction cs) (simp_all add: terminal_stays)

lemma life_ended: "\<not> is_live l \<Longrightarrow> life_step c r l = l"
  by (cases "(c, r, l)" rule: life_step.cases) auto

lemma life_steps_ended: "\<not> is_live l \<Longrightarrow> life_steps cs rs l = l"
  by (induction cs rs l rule: life_steps.induct) (auto simp: life_ended)

lemma next_at_refines:
  assumes "represents r s (Live ts)" "next_at ops pj now s = (x, s')"
  shows "represents r s' (life_step (NextAt now) x (Live ts)) \<and> x \<noteq> Inr None"
  using assms
  by (auto simp: represents_def next_at_def fail_stream_def cleanup_def observe_token_of finish_of Let_def
      split: prod.splits sum.splits option.splits decoded_event.splits)

lemma cancel_at_refines:
  assumes "represents r s (Live ts)" "cancel_at ops now s = (x, s')"
  shows "represents r s' (life_step (CancelAt now) x (Live ts)) \<and> x \<noteq> Inr None \<and> (\<forall>tok txt. x \<noteq> Inr (Some (Token tok txt)))"
  using assms
  by (auto simp: represents_def cancel_at_def cleanup_def finish_of Let_def split: prod.splits sum.splits)


lemma do_call_refines:
  assumes "represents r s (Live ts)" "do_call ops pj c s = (x, s')"
  shows "represents r s' (life_step c x (Live ts))" "x \<noteq> Inr None"
    and "(\<exists>tok txt. x = Inr (Some (Token tok txt))) \<longleftrightarrow> \<not> terminal s'"
proof -
  show rep: "represents r s' (life_step c x (Live ts))" and ne: "x \<noteq> Inr None"
    using next_at_refines [OF assms(1)] cancel_at_refines [OF assms(1)] assms(2) by (cases c; fastforce)+
  have no_token: "x \<noteq> Inr (Some (Token tok w))" if "c = CancelAt now" for now tok w
    using cancel_at_refines [OF assms(1)] assms(2) that by force
  show "(\<exists>tok txt. x = Inr (Some (Token tok txt))) \<longleftrightarrow> \<not> terminal s'"
    using rep ne no_token by (cases "(c, x, Live ts)" rule: life_step.cases) (auto simp: represents_def)
qed

lemma well_ended_None: "well_ended rs \<Longrightarrow> \<forall>r \<in> set rs. r = Inr None \<Longrightarrow> rs = []"
  by (cases rs) auto

lemma stream_calls_refine:
  assumes "represents r s (Live ts)" "stream_calls ops pj cs s = (rs, s')"
  shows "represents r s' (life_steps cs rs (Live ts)) \<and> well_ended rs \<and> length rs = length cs"
  using assms
proof (induction cs arbitrary: s ts rs)
  case (Cons c cs)
  obtain x s1 where x: "do_call ops pj c s = (x, s1)" by (cases "do_call ops pj c s")
  obtain xs where xs: "stream_calls ops pj cs s1 = (xs, s')" "rs = x # xs"
    using Cons.prems(2) x by (auto split: prod.splits)
  note step = do_call_refines [OF Cons.prems(1) x]
  show ?case
  proof (cases "terminal s1")
    case False
    then obtain tok w where tok: "x = Inr (Some (Token tok w))" using step(3) by blast
    moreover obtain us where us: "life_step c x (Live ts) = Live us"
      using step(1) False by (cases "life_step c x (Live ts)") (auto simp: represents_def)
    ultimately show ?thesis using Cons.IH [OF step(1) [unfolded us] xs(1)] xs(2) by simp
  next
    case True
    then have rest: "xs = replicate (length cs) (Inr None)" "s' = s1" using xs(1) by (simp_all add: terminal_calls)
    have "\<not> is_live (life_step c x (Live ts))" using step(1) True by (simp add: represents_def)
    moreover have "well_ended (x # xs)" using step(2,3) True rest(1) by (cases "x # xs" rule: well_ended.cases) auto
    ultimately show ?thesis using step(1) rest xs(2) by (simp add: life_steps_ended)
  qed
qed simp

text \<open>C16. A request stream refines the life of its request. Whatever the transport does and whatever calls the
  client makes, the results are tokens, then at most one terminal output or error, then nothing; and
  the stream ends in the state its life prescribes: the outcome exists exactly when the request was
  finished or cancelled, with the times of the first and the last token returned and
  their number, and never after an error.
\<close>

theorem stream_refines_its_life:
  assumes "start ops opened r = Inr s" "stream_calls ops pj cs s = (rs, s')"
  shows "represents r s' (life_steps cs rs (Live [])) \<and> rs_outcome s' = life_outcome r (life_steps cs rs (Live []))
    \<and> well_ended rs \<and> length rs = length cs"
  using stream_calls_refine [OF start_represents [OF assms(1)] assms(2)] by (simp add: represents_def)

subsection \<open>What the transport sees\<close>

definition read_event :: "('x, 't) transport_ops \<Rightarrow> 't \<Rightarrow> 't" where
  "read_event ops t = snd (op_next_event ops t)"

fun server_ended :: "stream_call list \<Rightarrow> stream_result list \<Rightarrow> bool" where
  "server_ended (NextAt _ # cs) (Inr (Some (Terminal _)) # rs) = True"
| "server_ended (_ # cs) (_ # rs) = server_ended cs rs"
| "server_ended _ _ = False"

lemma server_ended_None [simp]: "\<not> server_ended cs (replicate n (Inr None))"
proof (induction n arbitrary: cs)
  case (Suc n)
  show ?case
  proof (cases cs)
    case (Cons c ds)
    then show ?thesis using Suc by (cases c) simp_all
  qed simp
qed simp

lemma server_ended_Cons: "server_ended (c # cs) (x # xs) \<longleftrightarrow> server_ended [c] [x] \<or> server_ended cs xs"
  by (cases "([c], [x])" rule: server_ended.cases) auto

lemma cleanup_cancels: "\<not> cleaned_up s \<Longrightarrow> snd (cleanup ops s) =
    s\<lparr>cleaned_up := True, transport := snd (op_cancel ops (rs_request_id s) (transport s))\<rparr>"
  by (simp add: cleanup_def split: prod.splits)

lemma next_at_transport:
  assumes "\<not> terminal s" "\<not> cleaned_up s" "next_at ops pj now s = (x, s')"
  shows "rs_request_id s' = rs_request_id s" "cleaned_up s' = terminal s'"
    and "\<not> terminal s' \<longrightarrow> \<not> server_ended [NextAt now] [x]"
    and "transport s' = (if terminal s' \<and> \<not> server_ended [NextAt now] [x] then snd (op_cancel ops (rs_request_id s) (read_event ops (transport s)))
           else read_event ops (transport s))"
  using assms
  by (auto simp: next_at_def fail_stream_def cleanup_cancels read_event_def Let_def
      split: prod.splits sum.splits option.splits decoded_event.splits)

lemma cancel_at_transport:
  assumes "\<not> terminal s" "\<not> cleaned_up s" "cancel_at ops now s = (x, s')"
  shows "rs_request_id s' = rs_request_id s" "cleaned_up s'" "terminal s'" "\<not> server_ended [CancelAt now] [x]"
    and "transport s' = snd (op_cancel ops (rs_request_id s) (transport s))"
  using assms by (auto simp: cancel_at_def cleanup_def Let_def split: prod.splits sum.splits)

text \<open>The operations on the transport, in order: some reads, then one cancellation unless the server ended the stream.\<close>

definition seen_by_transport :: "('x, 't) transport_ops \<Rightarrow> request_id \<Rightarrow> nat \<Rightarrow> bool \<Rightarrow> 't \<Rightarrow> 't" where
  "seen_by_transport ops i reads ended t =
    (let t' = (read_event ops ^^ reads) t in if ended then t' else snd (op_cancel ops i t'))"

lemma stream_calls_transport:
  assumes "\<not> terminal s" "\<not> cleaned_up s" "stream_calls ops pj cs s = (rs, s')"
  shows "\<exists>k \<le> length cs. transport (drop_stream ops s') = seen_by_transport ops (rs_request_id s) k (server_ended cs rs) (transport s)"
  using assms
proof (induction cs arbitrary: s rs)
  case Nil
  then show ?case by (auto simp: drop_stream_def cleanup_cancels seen_by_transport_def intro!: exI [of _ 0])
next
  case (Cons c cs)
  obtain x s1 where x: "do_call ops pj c s = (x, s1)" by (cases "do_call ops pj c s")
  obtain xs where xs: "stream_calls ops pj cs s1 = (xs, s')" "rs = x # xs"
    using Cons.prems(3) x by (auto split: prod.splits)
  show ?case
  proof (cases "terminal s1")
    case True
    then have rest: "xs = replicate (length cs) (Inr None)" "s' = s1" using xs(1) by (simp_all add: terminal_calls)
    have clean: "cleaned_up s1" using x True next_at_transport(2) [OF Cons.prems(1,2)] cancel_at_transport(2) [OF Cons.prems(1,2)]
      by (cases c) auto
    have ended: "server_ended (c # cs) (x # xs) = server_ended [c] [x]"
      using server_ended_Cons [of c cs x xs] rest(1) by simp
    have "transport s1 = seen_by_transport ops (rs_request_id s) (case c of NextAt _ \<Rightarrow> 1 | CancelAt _ \<Rightarrow> 0) (server_ended [c] [x]) (transport s)"
      using x True next_at_transport(4) [OF Cons.prems(1,2)] cancel_at_transport(4,5) [OF Cons.prems(1,2)]
      by (cases c) (auto simp: seen_by_transport_def Let_def)
    moreover have "drop_stream ops s' = s1" using clean rest(2) by (simp add: drop_stream_def cleanup_def)
    ultimately show ?thesis using ended xs(2)
      by (intro exI [of _ "case c of NextAt _ \<Rightarrow> 1 | CancelAt _ \<Rightarrow> 0"]) (auto split: stream_call.splits)
  next
    case False
    then obtain now where c: "c = NextAt now" using x cancel_at_transport(3) [OF Cons.prems(1,2)] by (cases c) auto
    then have n: "next_at ops pj now s = (x, s1)" using x by simp
    note step = next_at_transport [OF Cons.prems(1,2) n]
    obtain k where k: "k \<le> length cs"
      "transport (drop_stream ops s') = seen_by_transport ops (rs_request_id s1) k (server_ended cs xs) (transport s1)"
      using Cons.IH [of s1 xs] False step(2) xs(1) by blast
    have "server_ended (c # cs) (x # xs) = server_ended cs xs" using server_ended_Cons [of c cs x xs] step(3) False c by blast
    moreover have "transport s1 = read_event ops (transport s)" using step(4) False by simp
    ultimately show ?thesis using k xs(2) step(1)
      by (intro exI [of _ "Suc k"]) (simp add: seen_by_transport_def funpow_swap1)
  qed
qed

text \<open>C24. The transport is cancelled exactly once. Whatever calls the client makes before it drops the stream, the
  transport sees reads of events, at most one per call, and then exactly one cancellation, or none when
  the server sent a terminal event. The operations are arbitrary, so the transport may as well record
  the calls it gets.
\<close>

theorem transport_is_cancelled_once:
  assumes "start ops (Inr t0) r = Inr s" "stream_calls ops pj cs s = (rs, s')"
  shows "\<exists>k \<le> length cs. transport (drop_stream ops s') =
    seen_by_transport ops (req_id r) k (server_ended cs rs) (snd (op_send ops (from_request r) t0))"
proof -
  have s: "\<not> terminal s" "\<not> cleaned_up s" "rs_request_id s = req_id r" "transport s = snd (op_send ops (from_request r) t0)"
    using assms(1) by (auto simp: start_def split: prod.splits sum.splits)
  show ?thesis using stream_calls_transport [OF s(1,2) assms(2)] s(3,4) by simp
qed

subsection \<open>The contract of a transport\<close>

text \<open>
  What the stream relies on: a cancelled transport is released, and a released one gives no
  event, only an error.
\<close>

locale transport_contract =
  fixes ops :: "('x, 't) transport_ops"
    and released :: "'t \<Rightarrow> bool"
  assumes cancel_releases: "released (snd (op_cancel ops i t))"
    and released_is_silent: "released t \<Longrightarrow> \<exists>e t'. op_next_event ops t = (Inl e, t') \<and> released t'"
begin

lemma drop_releases:
  assumes "\<not> terminal s" "\<not> cleaned_up s" "stream_calls ops pj cs s = (rs, s')" "\<not> server_ended cs rs"
  shows "released (transport (drop_stream ops s'))"
  using stream_calls_transport [OF assms(1-3)] assms(4) cancel_releases by (auto simp: seen_by_transport_def Let_def)

lemma released_fails: "released (transport s) \<Longrightarrow> \<not> terminal s \<Longrightarrow> \<exists>e. fst (next_at ops pj now s) = Inl e"
  using released_is_silent [of "transport s"] by (auto simp: next_at_def fail_stream_def)

end

definition http_released :: "http_transport \<Rightarrow> bool" where
  "http_released t \<longleftrightarrow> body t = None \<and> buffered t = []"

interpretation http: transport_contract "http_ops parse_json serve" http_released
proof
  show "http_released (snd (op_cancel (http_ops parse_json serve) i t))" for i t
    by (simp add: http_ops_def http_cancel_def http_released_def)
  show "http_released t \<Longrightarrow> \<exists>e t'. op_next_event (http_ops parse_json serve) t = (Inl e, t') \<and> http_released t'" for t
    by (auto simp: http_ops_def http_released_def next_event_def next_event_loop.simps)
qed

text \<open>No response body outlives its stream. However an HTTP request stream is used, when it is dropped
  the response body has been dropped and the buffer emptied, unless the server itself ended the stream.
\<close>

theorem dropped_stream_releases_http:
  assumes "start (http_ops parse_json serve) (Inr (http_open url)) r = Inr s"
    and "stream_calls (http_ops parse_json serve) parse_json cs s = (rs, s')" "\<not> server_ended cs rs"
  shows "body (transport (drop_stream (http_ops parse_json serve) s')) = None
    \<and> buffered (transport (drop_stream (http_ops parse_json serve) s')) = []"
proof -
  have "represents r s (Live [])" by (rule start_represents [OF assms(1)])
  then have "\<not> terminal s" "\<not> cleaned_up s" by (simp_all add: represents_def)
  from http.drop_releases [OF this assms(2,3)] show ?thesis by (simp add: http_released_def)
qed

subsection \<open>From the server's tokens to the client\<close>

text \<open>What the calls of \<open>next_at\<close> make of the results of \<open>next_event\<close>.\<close>

fun deliver :: "(string \<Rightarrow> string + json) \<Rightarrow> (transport_error + sse_event option) list \<Rightarrow> stream_result list" where
  "deliver pj [] = []"
| "deliver pj (Inl e # es) = Inl e # map (\<lambda>_. Inr None) es"
| "deliver pj (Inr None # es) = Inl (TransportError ''stream ended before terminal event'') # map (\<lambda>_. Inr None) es"
| "deliver pj (Inr (Some ev) # es) =
    (case decode_event pj ev of
       Inl e \<Rightarrow> Inl e # map (\<lambda>_. Inr None) es
     | Inr (TokenPayload tok w) \<Rightarrow> Inr (Some (Token tok w)) # deliver pj es
     | Inr (TerminalPayload reason) \<Rightarrow> Inr (Some (Terminal reason)) # map (\<lambda>_. Inr None) es)"

lemma next_events_length: "length (next_events n t) = n"
  by (induction n arbitrary: t) (auto split: prod.splits)

lemma map_None_replicate: "map (\<lambda>_. Inr None) (next_events n t) = replicate n (Inr None)"
  by (simp add: map_replicate_const next_events_length)

lemma stream_calls_deliver:
  "\<not> terminal s \<Longrightarrow> op_next_event ops = next_event \<Longrightarrow>
   fst (stream_calls ops pj (map NextAt ts) s) = deliver pj (next_events (length ts) (transport s))"
proof (induction ts arbitrary: s)
  case (Cons now ts)
  obtain e t' where e: "next_event (transport s) = (e, t')" by (cases "next_event (transport s)")
  show ?case
  proof (cases "\<exists>ev tok w. e = Inr (Some ev) \<and> decode_event pj ev = Inr (TokenPayload tok w)")
    case True
    then obtain ev tok w where ev: "e = Inr (Some ev)" "decode_event pj ev = Inr (TokenPayload tok w)" by blast
    let ?s = "s\<lparr>transport := t', telemetry := observe_token now (telemetry s)\<rparr>"
    have "next_at ops pj now s = (Inr (Some (Token tok w)), ?s)" using Cons.prems e ev by (simp add: next_at_def)
    moreover have "fst (stream_calls ops pj (map NextAt ts) ?s) = deliver pj (next_events (length ts) t')"
      using Cons.IH [of ?s] Cons.prems by simp
    ultimately show ?thesis using e ev by (simp add: case_prod_beta)
  next
    case False
    obtain x s1 where x: "next_at ops pj now s = (x, s1)" by (cases "next_at ops pj now s")
    then have "terminal s1 \<and> deliver pj (e # next_events (length ts) t') = x # replicate (length ts) (Inr None)"
      using False Cons.prems e
      by (auto simp: next_at_def fail_stream_def map_None_replicate Let_def
          split: prod.splits sum.splits option.splits decoded_event.splits)
    then show ?thesis using x e terminal_calls [of s1 ops pj "map NextAt ts"] by simp
  qed
qed simp

text \<open>A payload the server may put in one data line.\<close>

definition payload_line :: "bytes \<Rightarrow> bool" where
  "payload_line d \<longleftrightarrow> plain d \<and> utf8_valid d \<and> trim d \<noteq> ''[DONE]''"

definition token_json :: "token_id \<Rightarrow> string \<Rightarrow> json" where
  "token_json tok w = JObject [(''token_id'', JNumber (PosInt (unat tok))), (''text'', JString w)]"

definition finish_json :: "string \<Rightarrow> json" where
  "finish_json reason = JObject [(''finish_reason'', JString reason)]"

definition server_bytes :: "bytes list \<Rightarrow> bytes" where
  "server_bytes ds = concat (map (\<lambda>d. print_sse None [d]) ds)"

lemma decode_token:
  "payload_line d \<Longrightarrow> pj d = Inr (token_json tok w) \<Longrightarrow> decode_event pj (sse_of_data d) = Inr (TokenPayload tok w)"
proof -
  assume "payload_line d" "pj d = Inr (token_json tok w)"
  moreover have "unat tok < 2 ^ LENGTH(32)" by (rule unsigned_less)
  then have "unat tok \<le> u32_max" by (simp add: u32_max_def)
  ultimately show ?thesis
    by (simp add: decode_event_def payload_line_def token_json_def token_payload_def sse_of_data_def)
qed

lemma decode_finish:
  "payload_line d \<Longrightarrow> pj d = Inr (finish_json reason) \<Longrightarrow> decode_event pj (sse_of_data d) = Inr (TerminalPayload reason)"
  by (simp add: decode_event_def payload_line_def finish_json_def sse_of_data_def)

lemma next_events_printed:
  "\<forall>d \<in> set ds. payload_line d \<Longrightarrow> buffered t = server_bytes ds @ rest \<Longrightarrow>
   next_events (length ds) t = map (\<lambda>d. Inr (Some (sse_of_data d))) ds"
proof (induction ds arbitrary: t)
  case (Cons d ds)
  have ok: "\<forall>l \<in> set (frame_lines None [d]). plain l \<and> utf8_valid l"
    by (rule frame_lines_ok) (use Cons.prems in \<open>simp add: payload_line_def\<close>)
  have b: "buffered t = print_sse None [d] @ server_bytes ds @ rest"
    using Cons.prems(2) by (simp add: server_bytes_def)
  have "next_event t = (Inr (Some (sse_of_data d)), t\<lparr>buffered := server_bytes ds @ rest\<rparr>)"
    using next_event_printed [OF _ ok b] by (simp only: join_lines.simps sse_of_data_def list.simps not_False_eq_True simp_thms)
  then show ?case using Cons by simp
qed simp

lemma server_bytes_no_CR: "\<forall>d \<in> set ds. payload_line d \<Longrightarrow> CR \<notin> set (server_bytes ds)"
  by (auto simp: server_bytes_def print_sse_def frame_lines_def payload_line_def plain_def)

lemma deliver_tokens:
  "\<forall>(d, tok, w) \<in> set toks. payload_line d \<and> pj d = Inr (token_json tok w) \<Longrightarrow>
   deliver pj (map (\<lambda>(d, _). Inr (Some (sse_of_data d))) toks @ es)
     = map (\<lambda>(_, tok, w). Inr (Some (Token tok w))) toks @ deliver pj es"
  by (induction toks) (auto simp: decode_token)

lemma life_steps_tokens:
  "length ts = length toks \<Longrightarrow>
   life_steps (map NextAt ts @ [NextAt now]) (map (\<lambda>(_, tok, w). Inr (Some (Token tok w))) toks @ [Inr (Some (Terminal reason))]) (Live us)
     = Finished (us @ ts) now"
proof (induction ts toks arbitrary: us rule: list_induct2)
  case (Cons a ts b toks)
  then show ?case by (cases b) simp
qed simp

lemma start_http:
  assumes "serve url (from_request r) = Streaming cs"
  shows "start (http_ops pj serve) (Inr (http_open url)) r = Inr \<lparr>transport = \<lparr>generate_url = url, body = Some cs, buffered = []\<rparr>,
    rs_request_id = req_id r, telemetry = telemetry_new r, terminal = False, cleaned_up = False, rs_outcome = None\<rparr>"
  using assms by (simp add: start_def http_ops_def http_send_def http_open_def)

lemma delivered_results:
  assumes answer: "serve url (from_request r) = Streaming (map Inr cs)"
    and bytes: "concat cs = server_bytes (map fst toks @ [fin])"
    and token: "\<forall>(d, tok, w) \<in> set toks. payload_line d \<and> pj d = Inr (token_json tok w)"
    and fin: "payload_line fin" "pj fin = Inr (finish_json reason)"
    and len: "length ts = length toks"
    and s: "start (http_ops pj serve) (Inr (http_open url)) r = Inr s"
  shows "fst (stream_calls (http_ops pj serve) pj (map NextAt (ts @ [now])) s)
           = map (\<lambda>(_, tok, w). Inr (Some (Token tok w))) toks @ [Inr (Some (Terminal reason))]"
proof -
  let ?ops = "http_ops pj serve" and ?ds = "map fst toks @ [fin]"
  have t: "transport s = \<lparr>generate_url = url, body = Some (map Inr cs), buffered = []\<rparr>" "\<not> terminal s"
    using start_http [where serve = serve and url = url and r = r and pj = pj, OF answer] s by simp_all
  have lines: "\<forall>d \<in> set ?ds. payload_line d" using token fin(1) by auto
  have "next_events (length ?ds) (transport s) = next_events (length ?ds) (merged (transport s) cs)"
    by (rule next_events_merged) (use t bytes server_bytes_no_CR [OF lines] in simp_all)
  also have "\<dots> = map (\<lambda>d. Inr (Some (sse_of_data d))) ?ds"
    by (rule next_events_printed [OF lines, where rest = "[]"]) (simp add: merged_def t bytes)
  finally have "next_events (length (ts @ [now])) (transport s) = map (\<lambda>d. Inr (Some (sse_of_data d))) ?ds" using len by simp
  then have "fst (stream_calls ?ops pj (map NextAt (ts @ [now])) s) = deliver pj (map (\<lambda>d. Inr (Some (sse_of_data d))) ?ds)"
    using stream_calls_deliver [OF t(2), of ?ops pj "ts @ [now]"] by (simp only: http_ops_def transport_ops.simps)
  also have "\<dots> = deliver pj (map (\<lambda>(d, _). Inr (Some (sse_of_data d))) toks @ [Inr (Some (sse_of_data fin))])"
    by (simp add: case_prod_unfold comp_def)
  also have "\<dots> = map (\<lambda>(_, tok, w). Inr (Some (Token tok w))) toks @ [Inr (Some (Terminal reason))]"
    by (subst deliver_tokens [OF token]) (simp add: decode_finish [of fin pj reason, OF fin])
  finally show ?thesis .
qed

text \<open>C15. What the server writes is what the client gets. The server answers with one frame per token and
  a frame with the reason it finished, in chunks cut anywhere. A client that asks at the
  times \<open>ts\<close> and then at \<open>now\<close> gets exactly those tokens, in order, and the reason; and the outcome scored for
  the request has the time of its first and of its last token and their number. The JSON parser is
  only assumed to read the payloads as the objects they were written from.
\<close>

theorem tokens_are_delivered:
  assumes answer: "serve url (from_request r) = Streaming (map Inr cs)"
    and bytes: "concat cs = server_bytes (map fst toks @ [fin])"
    and token: "\<forall>(d, tok, w) \<in> set toks. payload_line d \<and> pj d = Inr (token_json tok w)"
    and fin: "payload_line fin" "pj fin = Inr (finish_json reason)"
    and len: "length ts = length toks"
    and s: "start (http_ops pj serve) (Inr (http_open url)) r = Inr s"
  shows "fst (stream_calls (http_ops pj serve) pj (map NextAt (ts @ [now])) s)
           = map (\<lambda>(_, tok, w). Inr (Some (Token tok w))) toks @ [Inr (Some (Terminal reason))]
       \<and> rs_outcome (snd (stream_calls (http_ops pj serve) pj (map NextAt (ts @ [now])) s)) = Some (outcome_of r ts now)"
proof -
  let ?ops = "http_ops pj serve"
  have out: "fst (stream_calls ?ops pj (map NextAt (ts @ [now])) s)
      = map (\<lambda>(_, tok, w). Inr (Some (Token tok w))) toks @ [Inr (Some (Terminal reason))]"
    by (rule delivered_results [OF assms])
  obtain rs s' where run: "stream_calls ?ops pj (map NextAt (ts @ [now])) s = (rs, s')" by fastforce
  have "represents r s' (life_steps (map NextAt ts @ [NextAt now]) rs (Live []))"
    using stream_calls_refine [OF start_represents [OF s] run] by simp
  moreover have "rs = map (\<lambda>(_, tok, w). Inr (Some (Token tok w))) toks @ [Inr (Some (Terminal reason))]" using out run by simp
  ultimately have "rs_outcome s' = Some (outcome_of r ts now)"
    using life_steps_tokens [OF len, of now reason "[]"] by (simp add: represents_def)
  then show ?thesis using out run by simp
qed

subsection \<open>A concrete exchange\<close>

definition demo_request :: "unit request" where
  "demo_request = request_new 7 [1, 2, 3] (default_params ()) 0 default_slo"

definition demo_parse :: "string \<Rightarrow> string + json" where
  "demo_parse d = (if d = ''five'' then Inr (token_json 5 ''a'') else if d = ''eos'' then Inr (finish_json ''eos'') else Inl ''expected value'')"

definition demo_serve :: "string \<Rightarrow> unit transport_request \<Rightarrow> http_response" where
  "demo_serve url q = Streaming (map Inr (map (\<lambda>c. [c]) (server_bytes [''five'', ''eos''])))"

definition demo_stream :: "(unit, http_transport) request_stream" where
  "demo_stream = \<lparr>transport = \<lparr>generate_url = ''u'', body = Some (map Inr (map (\<lambda>c. [c]) (server_bytes [''five'', ''eos'']))), buffered = []\<rparr>,
    rs_request_id = 7, telemetry = telemetry_new demo_request, terminal = False, cleaned_up = False, rs_outcome = None\<rparr>"

lemma demo_start: "start (http_ops demo_parse demo_serve) (Inr (http_open ''u'')) demo_request = Inr demo_stream"
  using start_http [of demo_serve "''u''" demo_request "map Inr (map (\<lambda>c. [c]) (server_bytes [''five'', ''eos'']))" demo_parse]
  by (simp add: demo_serve_def demo_stream_def demo_request_def request_new_def)

lemma demo_lines: "payload_line ''five''" "payload_line ''eos''"
  by (simp_all add: payload_line_def plain_def utf8_valid_ascii byte_in_def trim_def Let_def numeral_eq_Suc
      space_len_def space_len_end_def ascii_space_def wide_space_def)

lemma demo_cancel: "stream_calls (http_ops demo_parse demo_serve) demo_parse [CancelAt 3, NextAt 4] demo_stream
    = ([Inr (Some (Terminal ''cancelled'')), Inr None],
       demo_stream\<lparr>transport := \<lparr>generate_url = ''u'', body = None, buffered = []\<rparr>, terminal := True, cleaned_up := True,
         rs_outcome := Some (outcome_of demo_request [] 3)\<rparr>)"
  by (simp add: cancel_at_def cleanup_def next_at_def http_ops_def http_cancel_def demo_stream_def telemetry_new_of finish_of)

theorem stream_refines_its_life_witness:
  "rs_outcome (snd (stream_calls (http_ops demo_parse demo_serve) demo_parse [CancelAt 3, NextAt 4] demo_stream))
    = life_outcome demo_request (Finished [] 3)"
  using stream_refines_its_life [OF demo_start demo_cancel] unfolding demo_cancel snd_conv by simp

theorem transport_is_cancelled_once_witness:
  "\<exists>k \<le> 2. transport (drop_stream (http_ops demo_parse demo_serve)
      (snd (stream_calls (http_ops demo_parse demo_serve) demo_parse [CancelAt 3, NextAt 4] demo_stream)))
    = seen_by_transport (http_ops demo_parse demo_serve) 7 k False
        (snd (op_send (http_ops demo_parse demo_serve) (from_request demo_request) (http_open ''u'')))"
  using transport_is_cancelled_once [OF demo_start demo_cancel] unfolding demo_cancel snd_conv
  by (simp add: numeral_2_eq_2, simp add: demo_request_def request_new_def)

theorem dropped_stream_releases_http_witness:
  "body (transport (drop_stream (http_ops demo_parse demo_serve)
      (snd (stream_calls (http_ops demo_parse demo_serve) demo_parse [CancelAt 3, NextAt 4] demo_stream)))) = None"
  using dropped_stream_releases_http [OF demo_start demo_cancel] unfolding demo_cancel snd_conv by simp

theorem tokens_are_delivered_witness:
  "fst (stream_calls (http_ops demo_parse demo_serve) demo_parse (map NextAt [1, 2]) demo_stream)
     = [Inr (Some (Token 5 ''a'')), Inr (Some (Terminal ''eos''))]
   \<and> rs_outcome (snd (stream_calls (http_ops demo_parse demo_serve) demo_parse (map NextAt [1, 2]) demo_stream))
     = Some (outcome_of demo_request [1] 2)"
  using tokens_are_delivered [of demo_serve "''u''" demo_request "map (\<lambda>c. [c]) (server_bytes [''five'', ''eos''])"
      "[(''five'', 5, ''a'')]" "''eos''" demo_parse "''eos''" "[1]" demo_stream 2] demo_start demo_lines
  by (simp add: demo_serve_def demo_parse_def)

end
