(* ===== verification/Deployment_Config.thy ===== *)
theory Deployment_Config
  imports Block_Pool Capacity Job_Policy
begin

text \<open>
  \<open>crates/core/src/{config,engine_config}.rs\<close>: the deployment's configuration, its
  defaults, what it accepts, the capacity model it describes and the launcher environment it becomes.

  Reading the TOML file is the work of a library and not modelled. Fields of type \<open>u32\<close> are
  naturals; the two computations on them that can exceed 32 bits are written with the wrap-around of a release build.
\<close>

subsection \<open>The engine section\<close>

record speculation_config =
  spec_enabled :: bool
  spec_model :: string
  spec_draft_tokens :: nat

definition default_speculation_config :: speculation_config where
  "default_speculation_config = \<lparr>spec_enabled = False,
     spec_model = ''/work/u4063814/hf_cache/eagle3/qwen3-235b-instruct-2507-specforge'', spec_draft_tokens = 1\<rparr>"

record engine_config =
  attn_backend :: string
  moe_backend :: string
  allreduce_strategy :: string
  expert_parallel :: nat
  prefill_attention_dp :: bool
  chunked_prefill :: bool
  cuda_graph_max_batch :: nat
  torch_compile :: string
  host_dispatch_spin :: bool
  block_reuse :: bool
  speculation_cfg :: speculation_config
  context_parallel :: nat

definition default_engine_config :: engine_config where
  "default_engine_config = \<lparr>attn_backend = ''TRTLLM'', moe_backend = ''AUTO'', allreduce_strategy = ''AUTO'',
     expert_parallel = 1, prefill_attention_dp = False, chunked_prefill = False, cuda_graph_max_batch = 96,
     torch_compile = ''0'', host_dispatch_spin = False, block_reuse = False,
     speculation_cfg = default_speculation_config, context_parallel = 1\<rparr>"

definition ATTN_BACKENDS :: "string list" where
  "ATTN_BACKENDS = [''TRTLLM'', ''FLASHINFER'', ''TORCH'', ''VANILLA'']"

definition MOE_BACKENDS :: "string list" where
  "MOE_BACKENDS = [''AUTO'', ''CUTLASS'', ''CUTEDSL'', ''WIDEEP'', ''TRTLLM'', ''DEEPGEMM'', ''DENSEGEMM'', ''VANILLA'',
     ''TRITON'', ''MARLIN'', ''MEGAMOE_DEEPGEMM'']"

definition ALLREDUCE_STRATEGIES :: "string list" where
  "ALLREDUCE_STRATEGIES = [''AUTO'', ''NCCL'', ''ONESHOT'', ''TWOSHOT'', ''LOWPRECISION'', ''MNNVL'', ''UB'',
     ''NCCL_SYMMETRIC'', ''AUTO_LOWPRECISION'']"

definition TORCH_COMPILE :: "string list" where
  "TORCH_COMPILE = [''0'', ''1'', ''inductor'']"

fun comma_join :: "string list \<Rightarrow> string" where
  "comma_join [] = []"
| "comma_join [s] = s"
| "comma_join (s # t # ss) = s @ '', '' @ comma_join (t # ss)"

abbreviation quoted :: "string \<Rightarrow> string" where
  "quoted s \<equiv> CHR 0x22 # s @ [CHR 0x22]"

definition one_of :: "string \<Rightarrow> string \<Rightarrow> string list \<Rightarrow> string + unit" where
  "one_of name v allowed = (if v \<in> set allowed then Inr ()
     else Inl (name @ '' = '' @ quoted v @ '' is not one of '' @ comma_join allowed))"

text \<open>The \<open>?\<close> operator: the first error is returned.\<close>

fun and_then :: "'e + unit \<Rightarrow> 'e + unit \<Rightarrow> 'e + unit" where
  "and_then (Inl e) _ = Inl e"
| "and_then (Inr _) r = r"

definition refuse_if :: "bool \<Rightarrow> 'e \<Rightarrow> 'e + unit" where
  "refuse_if b e = (if b then Inl e else Inr ())"

definition graph_message :: string where
  "graph_message = ''cuda_graph_max_batch = 0 captures nothing, which is indistinguishable from having no graph at all. Set it at or above the decode residency, or say so by leaving it at the default.''"

definition attention_dp_message :: string where
  "attention_dp_message = ''prefill_attention_dp = true disables the Qwen3-MoE                         eager fusion (modeling_qwen3_moe.py:205), which folds                         the attention all-reduce into the pre-MoE step. That                         all-reduce is 25% of prefill kernel time here. Set it                         only deliberately.''"

definition combination_message :: string where
  "combination_message = ''context_parallel and speculation have not been run together on this stack. Enable one.''"

definition engine_validate :: "engine_config \<Rightarrow> string + unit" where
  "engine_validate e =
    and_then (one_of ''attn_backend'' (attn_backend e) ATTN_BACKENDS)
   (and_then (one_of ''moe_backend'' (moe_backend e) MOE_BACKENDS)
   (and_then (one_of ''allreduce_strategy'' (allreduce_strategy e) ALLREDUCE_STRATEGIES)
   (and_then (one_of ''torch_compile'' (torch_compile e) TORCH_COMPILE)
   (and_then (refuse_if (cuda_graph_max_batch e = 0) graph_message)
   (and_then (refuse_if (prefill_attention_dp e) attention_dp_message)
     (refuse_if (context_parallel e > 1 \<and> spec_enabled (speculation_cfg e)) combination_message))))))"

record hardware =
  sm :: nat
  quant :: string

definition h200_fp8 :: hardware where
  "h200_fp8 = \<lparr>sm = 90, quant = ''fp8''\<rparr>"

definition moe_supported :: "engine_config \<Rightarrow> hardware \<Rightarrow> string + unit" where
  "moe_supported e hw =
    (let b = moe_backend e; sm_str = nat_str (sm hw) in
     if (b = ''DEEPGEMM'' \<or> b = ''MEGAMOE_DEEPGEMM'') \<and> sm hw \<noteq> 100 \<and> sm hw \<noteq> 103
     then Inl (''moe_backend = '' @ quoted ''DEEPGEMM'' @ '' needs SM100 or SM103 and this is SM'' @ sm_str @ ''. TRT-LLM's DeepGemmFusedMoE refuses at construction (fused_moe_deepgemm.py:751). vLLM's deep_gemm is a different implementation and its result on this model does not transfer to this flag. On SM90 with an fp8 checkpoint, CUTLASS is the only MoE backend that runs, and AUTO already selects it.'')
     else if b = ''TRTLLM'' \<and> sm hw \<noteq> 100 \<and> sm hw \<noteq> 103
     then Inl (''moe_backend = '' @ quoted ''TRTLLM'' @ '' needs SM100 or SM103 and this is SM'' @ sm_str @ '' (fused_moe_trtllm_gen.py:157).'')
     else if b = ''MARLIN''
     then (if quant hw \<noteq> ''nvfp4''
           then Inl (''moe_backend = '' @ quoted ''MARLIN'' @ '' needs an NVFP4 checkpoint and this one is '' @ quant hw @ '' (fused_moe_marlin.py:73).'')
           else if sm hw \<noteq> 90
           then Inl (''moe_backend = '' @ quoted ''MARLIN'' @ '' is SM90-only and this is SM'' @ sm_str @ '' (fused_moe_marlin.py:78).'')
           else Inr ())
     else if b = ''TRITON'' \<and> sm hw \<noteq> 90
     then Inl (''moe_backend = '' @ quoted ''TRITON'' @ '' is SM90-only and this is SM'' @ sm_str @ '' (fused_moe_triton.py:1499).'')
     else Inr ())"

definition validate_for :: "engine_config \<Rightarrow> hardware \<Rightarrow> string + unit" where
  "validate_for e hw = and_then (engine_validate e) (moe_supported e hw)"

subsection \<open>The whole configuration\<close>

record model_config =
  mc_name :: string
  mc_tokenizer :: string
  mc_dtype :: string
  mc_kv_dtype :: string
  num_layers :: nat
  hidden_size :: nat
  num_kv_heads :: nat
  head_dim :: nat
  mc_weights_gib :: real

definition default_model_config :: model_config where
  "default_model_config = \<lparr>mc_name = ''Qwen/Qwen3-235B-A22B-Instruct-2507'', mc_tokenizer = ''Qwen/Qwen3-235B-A22B-Instruct-2507'',
     mc_dtype = ''fp8'', mc_kv_dtype = ''fp8'', num_layers = 94, hidden_size = 4096, num_kv_heads = 4, head_dim = 128,
     mc_weights_gib = 2202 / 10\<rparr>"

record workload_config =
  wl_isl :: nat
  wl_osl :: nat
  wl_concurrency :: nat
  wl_max_num_tokens :: nat
  max_seq_len :: nat
  warmup_s :: real
  benchmark_s :: real
  grace_s :: real
  wl_seed :: nat
  cache_bust :: bool

definition default_workload_config :: workload_config where
  "default_workload_config = \<lparr>wl_isl = 4000, wl_osl = 200, wl_concurrency = 80, wl_max_num_tokens = 16384, max_seq_len = 4608,
     warmup_s = 60, benchmark_s = 120, grace_s = 30, wl_seed = 2026, cache_bust = True\<rparr>"

record topology_config =
  total_gpus :: nat
  tc_prefill_workers :: nat
  tc_prefill_tp :: nat
  tc_decode_workers :: nat
  tc_decode_tp :: nat
  tc_gpu_gib :: real
  tc_kv_dtype_bytes :: real
  tc_activation_gib :: real

definition default_topology_config :: topology_config where
  "default_topology_config = \<lparr>total_gpus = 16, tc_prefill_workers = 4, tc_prefill_tp = 2, tc_decode_workers = 2, tc_decode_tp = 4,
     tc_gpu_gib = 131, tc_kv_dtype_bytes = 1, tc_activation_gib = 12\<rparr>"

record scheduler_config =
  chunked_prefill_tokens :: nat
  max_prefill_seqs :: nat
  max_decode_seqs :: nat
  sc_itl_safety :: real
  sc_prefill_policy :: prefill_policy
  sc_demote_hopeless :: bool
  tick_ms :: real

definition default_scheduler_config :: scheduler_config where
  "default_scheduler_config = \<lparr>chunked_prefill_tokens = 16384, max_prefill_seqs = 8, max_decode_seqs = 4096, sc_itl_safety = 1,
     sc_prefill_policy = MooreHodgson, sc_demote_hopeless = True, tick_ms = 1\<rparr>"

record kv_config =
  kc_block_size :: nat
  kc_num_blocks :: nat
  enable_prefix_cache :: bool
  admission_watermark :: real
  kc_xfer_concurrency :: nat
  max_tokens_in_buffer :: nat
  xfer_backend :: string
  receive_parallel :: bool

definition default_kv_config :: kv_config where
  "default_kv_config = \<lparr>kc_block_size = 128, kc_num_blocks = 8192, enable_prefix_cache = False, admission_watermark = 5 / 100,
     kc_xfer_concurrency = 16, max_tokens_in_buffer = 4096, xfer_backend = ''UCX'', receive_parallel = True\<rparr>"

record calibration_config =
  cal_prefill :: prefill_calibration
  cal_decode :: decode_calibration
  assumed_good_frac :: real
  cal_kv_xfer_gib_s :: real

definition default_calibration_config :: calibration_config where
  "default_calibration_config = \<lparr>cal_prefill = default_prefill_calibration, cal_decode = default_decode_calibration,
     assumed_good_frac = 93 / 100, cal_kv_xfer_gib_s = 21 / 10\<rparr>"

record config =
  cfg_model :: model_config
  workload :: workload_config
  cfg_topology :: topology_config
  scheduler :: scheduler_config
  kv :: kv_config
  cfg_engine :: engine_config
  calibration :: calibration_config
  cfg_slo :: slo

definition default_config :: config where
  "default_config = \<lparr>cfg_model = default_model_config, workload = default_workload_config, cfg_topology = default_topology_config,
     scheduler = default_scheduler_config, kv = default_kv_config, cfg_engine = default_engine_config,
     calibration = default_calibration_config, cfg_slo = default_slo\<rparr>"

text \<open>The TOML library and the file system are parameters: a file gives its text or the operating system's message, a text a
  configuration or the parser's message.\<close>

definition from_toml_str :: "(string \<Rightarrow> string + config) \<Rightarrow> string \<Rightarrow> error + config" where
  "from_toml_str parse_toml s = (case parse_toml s of Inl e \<Rightarrow> Inl (Config e) | Inr c \<Rightarrow> Inr c)"

definition config_load :: "(string \<Rightarrow> string + string) \<Rightarrow> (string \<Rightarrow> string + config) \<Rightarrow> string \<Rightarrow> error + config" where
  "config_load read_file parse_toml path =
    (case read_file path of Inl e \<Rightarrow> Inl (Config (path @ '': '' @ e)) | Inr body_text \<Rightarrow> from_toml_str parse_toml body_text)"

definition used_gpus :: "topology_config \<Rightarrow> nat" where
  "used_gpus t = (tc_prefill_workers t * tc_prefill_tp t mod 2 ^ 32 + tc_decode_workers t * tc_decode_tp t mod 2 ^ 32) mod 2 ^ 32"

definition config_validate :: "config \<Rightarrow> error + unit" where
  "config_validate c =
    (case engine_validate (cfg_engine c) of
       Inl e \<Rightarrow> Inl (Config (''[engine] '' @ e))
     | Inr _ \<Rightarrow>
        let t = cfg_topology c in
        if tc_prefill_workers t = 0 \<or> tc_decode_workers t = 0
        then Inl (Config ''need at least one prefill and one decode worker'')
        else if used_gpus t > total_gpus t
        then Inl (Config (''topology needs '' @ nat_str (used_gpus t) @ '' GPUs but only '' @ nat_str (total_gpus t) @ '' are available''))
        else if slo_itl_ms (cfg_slo c) \<le> 0 \<or> slo_ttft_ms (cfg_slo c) \<le> 0
        then Inl (Config ''SLO budgets must be positive'')
        else Inr ())"

definition config_capacity_model :: "config \<Rightarrow> capacity_model" where
  "config_capacity_model c = \<lparr>
     cm_isl = wl_isl (workload c), cm_osl = wl_osl (workload c), cm_slo = cfg_slo c,
     cm_prefill = cal_prefill (calibration c),
     cm_decode = (cal_decode (calibration c))\<lparr>speculating :=
       (if spec_enabled (speculation_cfg (cfg_engine c))
        then Some (eagle3_topk1\<lparr>draft_tokens := spec_draft_tokens (speculation_cfg (cfg_engine c))\<rparr>) else None)\<rparr>,
     cm_good_frac = assumed_good_frac (calibration c),
     itl_safety = sc_itl_safety (scheduler c),
     kv_bytes_per_token = 2 * real (num_layers (cfg_model c)) * real (num_kv_heads (cfg_model c)) * real (head_dim (cfg_model c)),
     kv_xfer_gib_s = cal_kv_xfer_gib_s (calibration c),
     xfer_concurrency = kc_xfer_concurrency (kv c),
     weights_gib = mc_weights_gib (cfg_model c),
     gpu_gib = tc_gpu_gib (cfg_topology c),
     kv_dtype_bytes = tc_kv_dtype_bytes (cfg_topology c),
     kv_heads = num_kv_heads (cfg_model c),
     max_num_tokens = wl_max_num_tokens (workload c),
     activation_gib = tc_activation_gib (cfg_topology c),
     decode_resident_tokens =
       wl_concurrency (workload c) div max (tc_decode_workers (cfg_topology c)) 1 * max_seq_len (workload c) mod 2 ^ 32\<rparr>"

definition flag :: "bool \<Rightarrow> string" where
  "flag v = (if v then ''1'' else ''0'')"

definition env_vars :: "config \<Rightarrow> (string \<times> string) list" where
  "env_vars c = (let w = workload c; t = cfg_topology c; k = kv c; e = cfg_engine c; s = speculation_cfg e in
    [(''ISL'', nat_str (wl_isl w)), (''OSL'', nat_str (wl_osl w)), (''N'', nat_str (wl_concurrency w)),
     (''MAX_SEQ_LEN'', nat_str (max_seq_len w)), (''PREFILL_MAX_NUM_TOKENS'', nat_str (wl_max_num_tokens w)),
     (''PREFILL_WORKERS'', nat_str (tc_prefill_workers t)), (''PREFILL_TP'', nat_str (tc_prefill_tp t)), (''PREFILL_PP'', ''1''),
     (''DECODE_WORKERS'', nat_str (tc_decode_workers t)), (''DECODE_TP'', nat_str (tc_decode_tp t)),
     (''CONTEXT_PARALLEL'', nat_str (context_parallel e)),
     (''KV_XFER_CONCURRENCY'', nat_str (kc_xfer_concurrency k)), (''KVCACHE_RECEIVE_PARALLEL'', flag (receive_parallel k)),
     (''MAX_TOKENS_IN_BUFFER'', nat_str (max_tokens_in_buffer k)), (''XFER_BACKEND'', xfer_backend k),
     (''KV_CACHE_DTYPE'', mc_kv_dtype (cfg_model c)),
     (''ATTN_BACKEND'', attn_backend e), (''MOE_BACKEND'', moe_backend e), (''ALLREDUCE_STRATEGY'', allreduce_strategy e),
     (''EXPERT_PARALLEL'', nat_str (expert_parallel e)), (''PREFILL_ATTENTION_DP'', flag (prefill_attention_dp e)),
     (''CHUNKED_PREFILL'', flag (chunked_prefill e)), (''CUDA_GRAPH_MAX_BATCH'', nat_str (cuda_graph_max_batch e)),
     (''TORCH_COMPILE'', torch_compile e), (''HOST_DISPATCH_SPIN'', flag (host_dispatch_spin e)),
     (''BLOCK_REUSE'', if block_reuse e then ''true'' else ''false''), (''SPECULATION'', flag (spec_enabled s)),
     (''SPEC_MODEL'', spec_model s), (''SPEC_DRAFT_TOKENS'', nat_str (spec_draft_tokens s))])"

definition env_header :: string where
  "env_header = ''# Generated by `trt-llm-rs config --emit-env`. Do not edit: edit'' @ [CHR 0x0A] @
    ''# the TOML and regenerate, or override a single variable on the'' @ [CHR 0x0A] @
    ''# sbatch command line, which still takes precedence.'' @ [CHR 0x0A]"

definition env_line :: "string \<times> string \<Rightarrow> string" where
  "env_line kv' = (case kv' of (k, v) \<Rightarrow> k @ ''='' @ quoted (''${'' @ k @ '':-'' @ v @ ''}'') @ [CHR 0x0A])"

definition to_env :: "config \<Rightarrow> string" where
  "to_env c = env_header @ concat (map env_line (env_vars c))"

subsection \<open>What is accepted\<close>

lemma and_then_Inr: "and_then r q = Inr () \<longleftrightarrow> r = Inr () \<and> q = Inr ()"
  by (cases r) auto

lemma one_of_Inr: "one_of name v allowed = Inr () \<longleftrightarrow> v \<in> set allowed"
  by (simp add: one_of_def)

lemma refuse_if_Inr: "refuse_if b e = Inr () \<longleftrightarrow> \<not> b"
  by (simp add: refuse_if_def)

lemmas accept_simps = and_then_Inr one_of_Inr refuse_if_Inr

lemma engine_validate_iff: "engine_validate e = Inr () \<longleftrightarrow>
    attn_backend e \<in> set ATTN_BACKENDS \<and> moe_backend e \<in> set MOE_BACKENDS
    \<and> allreduce_strategy e \<in> set ALLREDUCE_STRATEGIES \<and> torch_compile e \<in> set TORCH_COMPILE
    \<and> cuda_graph_max_batch e \<noteq> 0 \<and> \<not> prefill_attention_dp e
    \<and> \<not> (context_parallel e > 1 \<and> spec_enabled (speculation_cfg e))"
  by (simp only: engine_validate_def accept_simps)

lemma config_validate_iff: "config_validate c = Inr () \<longleftrightarrow>
    engine_validate (cfg_engine c) = Inr ()
    \<and> tc_prefill_workers (cfg_topology c) \<noteq> 0 \<and> tc_decode_workers (cfg_topology c) \<noteq> 0
    \<and> used_gpus (cfg_topology c) \<le> total_gpus (cfg_topology c)
    \<and> slo_itl_ms (cfg_slo c) > 0 \<and> slo_ttft_ms (cfg_slo c) > 0"
  by (cases "engine_validate (cfg_engine c)") (auto simp: config_validate_def Let_def split: if_splits)

lemma used_gpus_small:
  "tc_prefill_workers t * tc_prefill_tp t + tc_decode_workers t * tc_decode_tp t < 2 ^ 32 \<Longrightarrow>
   used_gpus t = tc_prefill_workers t * tc_prefill_tp t + tc_decode_workers t * tc_decode_tp t"
  by (simp add: used_gpus_def)

text \<open>A configuration is accepted exactly when it can be deployed, as long as the GPUs it asks for fit
  32 bits: every kernel name is one the engine knows, graphs capture something, no refused combination is on,
  both sides have a worker, the GPUs suffice and the budgets are positive. Otherwise the result is an error.\<close>

theorem validate_accepts_exactly:
  assumes "tc_prefill_workers t * tc_prefill_tp t + tc_decode_workers t * tc_decode_tp t < 2 ^ 32" "t = cfg_topology c" "e = cfg_engine c"
  shows "(config_validate c = Inr ()) = (
      attn_backend e \<in> set ATTN_BACKENDS \<and> moe_backend e \<in> set MOE_BACKENDS
      \<and> allreduce_strategy e \<in> set ALLREDUCE_STRATEGIES \<and> torch_compile e \<in> set TORCH_COMPILE
      \<and> cuda_graph_max_batch e \<noteq> 0 \<and> \<not> prefill_attention_dp e
      \<and> \<not> (context_parallel e > 1 \<and> spec_enabled (speculation_cfg e))
      \<and> tc_prefill_workers t > 0 \<and> tc_decode_workers t > 0
      \<and> tc_prefill_workers t * tc_prefill_tp t + tc_decode_workers t * tc_decode_tp t \<le> total_gpus t
      \<and> slo_itl_ms (cfg_slo c) > 0 \<and> slo_ttft_ms (cfg_slo c) > 0)"
  using assms by (auto simp: config_validate_iff engine_validate_iff used_gpus_small)

theorem validate_accepts_exactly_witness: "config_validate default_config = Inr ()"
  using validate_accepts_exactly [of default_topology_config default_config default_engine_config]
  by (simp add: default_config_def default_topology_config_def default_engine_config_def ATTN_BACKENDS_def MOE_BACKENDS_def
      ALLREDUCE_STRATEGIES_def TORCH_COMPILE_def default_speculation_config_def default_slo_def)

text \<open>With more GPUs than 32 bits hold the sum wraps around and the check passes: this topology asks for
  over four billion GPUs and is accepted for a machine of sixteen.\<close>

theorem wrapped_topology_is_accepted:
  "let t = default_topology_config\<lparr>tc_prefill_workers := 65536, tc_prefill_tp := 65536\<rparr>
   in config_validate (default_config\<lparr>cfg_topology := t\<rparr>) = Inr ()
    \<and> tc_prefill_workers t * tc_prefill_tp t + tc_decode_workers t * tc_decode_tp t > 2 ^ 32 \<and> total_gpus t = 16"
  by (simp add: config_validate_iff engine_validate_iff used_gpus_def default_config_def default_topology_config_def default_engine_config_def
      ATTN_BACKENDS_def MOE_BACKENDS_def ALLREDUCE_STRATEGIES_def TORCH_COMPILE_def default_speculation_config_def default_slo_def)

text \<open>Attention data parallelism cannot be configured at all.\<close>

lemma attention_dp_is_refused: "prefill_attention_dp e \<Longrightarrow> engine_validate e \<noteq> Inr ()"
  by (simp add: engine_validate_iff)

text \<open>The configuration and the capacity model have the same defaults, the resident tokens apart: 80 clients
  over two decode workers against 128 over one.\<close>

theorem default_models_differ_in_residency:
  "config_capacity_model default_config = default_capacity_model\<lparr>decode_resident_tokens := 40 * 4608\<rparr>
   \<and> decode_resident_tokens default_capacity_model = 128 * 4608"
  by (simp add: config_capacity_model_def default_config_def default_capacity_model_def default_model_config_def
      default_workload_config_def default_topology_config_def default_scheduler_config_def default_kv_config_def
      default_engine_config_def default_speculation_config_def default_calibration_config_def default_decode_calibration_def
      flip: numeral_2_eq_2)

lemma env_vars_distinct: "distinct (map fst (env_vars c))"
  by (simp add: env_vars_def Let_def)

text \<open>On the target hardware only \<open>AUTO\<close>, \<open>CUTLASS\<close> and the backends without a rule of their own run.\<close>

theorem moe_backends_on_h200:
  "filter (\<lambda>b. validate_for (default_engine_config\<lparr>moe_backend := b\<rparr>) h200_fp8 = Inr ()) MOE_BACKENDS
   = [''AUTO'', ''CUTLASS'', ''CUTEDSL'', ''WIDEEP'', ''DENSEGEMM'', ''VANILLA'', ''TRITON'']"
  by (simp add: validate_for_def and_then_Inr engine_validate_iff moe_supported_def h200_fp8_def Let_def default_engine_config_def
      ATTN_BACKENDS_def MOE_BACKENDS_def ALLREDUCE_STRATEGIES_def TORCH_COMPILE_def default_speculation_config_def)

end
