(* ===== verification/Advice.thy ===== *)
theory Advice
  imports Deployment_Config Wire_Sse
begin

text \<open>
  \<open>crates/core/src/{verdict,remedy}.rs\<close>: what a measured run says about its prediction, and what to try next.

  The prediction and the quotient by it are \<open>f64\<close> values: every comparison with a \<open>NaN\<close> is false, as in the code. Measurements are finite.
\<close>

subsection \<open>Verdicts\<close>

record measured_run =
  mr_goodput_req_s :: real
  request_throughput_req_s :: real
  output_token_throughput :: real
  ttft_avg_ms :: real
  ttft_p90_ms :: real
  itl_avg_ms :: real
  request_count :: real

datatype diagnosis =
    Met
  | ItlGate real real
  | BothGates real real real real
  | TtftGate real real
  | ThroughputShortfall real f64 bottleneck
  | NothingServed

fun implicates :: "diagnosis \<Rightarrow> bottleneck option" where
  "implicates Met = None"
| "implicates NothingServed = None"
| "implicates (ItlGate _ _) = Some DecodeBound"
| "implicates (BothGates itl itl_budget ttft ttft_budget) =
     Some (if ttft / ttft_budget > itl / itl_budget then PrefillBound else DecodeBound)"
| "implicates (TtftGate _ _) = Some PrefillBound"
| "implicates (ThroughputShortfall _ _ b) = Some b"

record assessment =
  predicted_goodput_req_s :: f64
  measured :: measured_run
  ratio :: f64
  diagnosed :: diagnosis

definition assess :: "measured_run \<Rightarrow> f64 \<Rightarrow> slo \<Rightarrow> bottleneck \<Rightarrow> real \<Rightarrow> assessment" where
  "assess m predicted s binding tolerance =
    (let q = (if f_lt (Num 0) predicted then f_div (Num (mr_goodput_req_s m)) predicted else NaN);
         d = (if request_count m < 1 then NothingServed
              else if f_le (Num (1 - tolerance)) q then Met
              else if itl_avg_ms m > slo_itl_ms s \<and> ttft_p90_ms m > slo_ttft_ms s
              then BothGates (itl_avg_ms m) (slo_itl_ms s) (ttft_p90_ms m) (slo_ttft_ms s)
              else if itl_avg_ms m > slo_itl_ms s then ItlGate (itl_avg_ms m) (slo_itl_ms s)
              else if ttft_p90_ms m > slo_ttft_ms s then TtftGate (ttft_p90_ms m) (slo_ttft_ms s)
              else ThroughputShortfall (request_throughput_req_s m) predicted binding)
     in \<lparr>predicted_goodput_req_s = predicted, measured = m, ratio = q, diagnosed = d\<rparr>)"

fun json_f64 :: "json \<Rightarrow> real option" where
  "json_f64 (JNumber (PosInt n)) = Some (real n)"
| "json_f64 (JNumber (NegInt i)) = Some (real_of_int i)"
| "json_f64 (JNumber (Float x)) = Some x"
| "json_f64 _ = None"

definition aiperf_field :: "json \<Rightarrow> string \<times> string \<Rightarrow> string + real" where
  "aiperf_field doc ns = (case ns of (name, stat) \<Rightarrow>
    case Option.bind (Option.bind (json_get doc name) (\<lambda>m. json_get m stat)) json_f64 of
      Some v \<Rightarrow> Inr v | None \<Rightarrow> Inl (name @ ''.'' @ stat @ '' is missing from the export''))"

fun all_fields :: "(string + real) list \<Rightarrow> string + real list" where
  "all_fields [] = Inr []"
| "all_fields (Inl e # _) = Inl e"
| "all_fields (Inr v # rs) = (case all_fields rs of Inl e \<Rightarrow> Inl e | Inr vs \<Rightarrow> Inr (v # vs))"

definition aiperf_names :: "(string \<times> string) list" where
  "aiperf_names = [(''goodput'', ''avg''), (''request_throughput'', ''avg''), (''output_token_throughput'', ''avg''),
     (''time_to_first_token'', ''avg''), (''time_to_first_token'', ''p90''), (''inter_token_latency'', ''avg''), (''request_count'', ''avg'')]"

definition from_aiperf_json :: "json \<Rightarrow> string + measured_run" where
  "from_aiperf_json doc = (case all_fields (map (aiperf_field doc) aiperf_names) of
     Inl e \<Rightarrow> Inl e
   | Inr vs \<Rightarrow> Inr \<lparr>mr_goodput_req_s = vs ! 0, request_throughput_req_s = vs ! 1, output_token_throughput = vs ! 2,
       ttft_avg_ms = vs ! 3, ttft_p90_ms = vs ! 4, itl_avg_ms = vs ! 5, request_count = vs ! 6\<rparr>)"

subsection \<open>Remedies\<close>

datatype evidence = Derived | Untested | Transferred | Measured

fun evidence_label :: "evidence \<Rightarrow> string" where
  "evidence_label Measured = ''measured''"
| "evidence_label Transferred = ''transferred''"
| "evidence_label Untested = ''untested''"
| "evidence_label Derived = ''derived''"

text \<open>The derived order is the order of the constructors.\<close>

fun strength :: "evidence \<Rightarrow> nat" where
  "strength Derived = 0"
| "strength Untested = 1"
| "strength Transferred = 2"
| "strength Measured = 3"

record remedy =
  knob :: string
  setting :: string
  multiplier :: ext
  rm_evidence :: evidence
  because :: string
  rm_with :: string

definition command :: "remedy \<Rightarrow> string \<Rightarrow> string" where
  "command r script =
    (let vars = knob r @ ''='' @ setting r @ (if rm_with r = [] then [] else '','' @ rm_with r)
     in ''sbatch -p 16gpus -N 2 --gres=gpu:H200:8 -t 00:15:00'' @ '' '' @ ''--exclude=25a-hgpn142,25a-hgpn143,25a-hgpn175'' @
        '' '' @ ''--export=ALL,'' @ vars @ '' '' @ script)"

definition plain_remedy :: "string \<Rightarrow> string \<Rightarrow> ext \<Rightarrow> evidence \<Rightarrow> string \<Rightarrow> remedy" where
  "plain_remedy k s x e why = \<lparr>knob = k, setting = s, multiplier = x, rm_evidence = e, because = why, rm_with = []\<rparr>"

definition transfer_remedies :: "remedy list" where
  "transfer_remedies = [plain_remedy ''KV_XFER_CONCURRENCY'' ''16'' (Fin 16) Derived
       (''upstream serialises the handoff to one buffer in each direction (baseTransBuffer.cpp:109); the pool size is the '' @
        ''concurrency'')]"

definition prefill_remedies :: "mfu_breakdown \<Rightarrow> remedy list" where
  "prefill_remedies b = [
     plain_remedy ''EXPERT_PARALLEL'' ''1'' (Fin (143 / 100)) Transferred
       (''SGLang job 302350 measured EP1 at +43% over EP4 on this model and hardware; removing a per-token all-to-all transfers '' @
        ''between stacks''),
     plain_remedy ''TORCH_COMPILE'' ''inductor'' (compute_mfu_worth b (50 / 100)) Derived
       (''the compute phase runs at 25.3% MFU and inductor is the codegen that would change the GEMMs''),
     plain_remedy ''MOE_BACKEND'' ''CUTLASS'' (Fin 1) Untested
       (''AUTO already resolves to CUTLASS on SM90, so this only makes the choice explicit. DEEPGEMM and TRTLLM both refuse '' @
        ''anything but SM100/103 and MARLIN needs an NVFP4 checkpoint, so on H200 with fp8 there is no other MoE backend to try '' @
        ''-- the neighbouring stack's 17.0-to-19.8 with deep_gemm was vLLM's own implementation, not this flag''),
     plain_remedy ''KV_CACHE_DTYPE'' ''fp8'' (Fin 1) Transferred
       (''halves resident KV, which is what makes TP2 prefill fit at all: 20.9 GiB per rank holds max_num_tokens of in-flight KV '' @
        ''in fp8 and not in fp16, and our own three TP2 failures were all fp16''),
     plain_remedy ''PREFILL_MAX_NUM_TOKENS'' ''16384'' (Fin 1) Transferred
       (''four whole ISL-4000 prompts per iteration against upstream's 8192; this is also the quantity our own two models '' @
        ''disagree about, so measuring it settles the 14.30-versus-7.53 gap as a side effect''),
     plain_remedy ''ALLREDUCE_STRATEGY'' ''LOWPRECISION'' (Fin (allreduce_worth b)) Derived
       (''the TP all-reduce is 25% of prefill kernel time''),
     plain_remedy ''HOST_DISPATCH_SPIN'' ''1'' (duty_cycle_worth b) Derived
       (''9% of wall time is outside the forward pass; the stated cost is one spinning core and this node has 96''),
     (plain_remedy ''CONTEXT_PARALLEL'' ''2'' (Fin 1) Derived
       (''splits the sequence rather than the weights, so it lowers prefill LATENCY -- which is what the TTFT gate is written in '' @
        ''-- rather than throughput''))\<lparr>rm_with := ''PREFILL_WORKERS=1,PREFILL_TP=4''\<rparr>]"

definition decode_remedies :: "remedy list" where
  "decode_remedies = [
     plain_remedy ''SPECULATION'' ''1'' (Fin ((1918 / 100) / (1108 / 100))) Transferred
       (''EAGLE3 at one draft token measured ITL p95 11.08 ms against 19.18 baseline on this model and this hardware, with '' @
        ''acceptance 1.82 and 12/12 outputs token-identical under greedy sampling; topk=2 cost 5% of goodput and topk=4 collapsed '' @
        ''to 3.29''),
     plain_remedy ''DECODE_TP'' ''4'' (Fin (27 / 10)) Measured
       (''one TP8 decode worker delivered 815 tok/s where two TP4 workers reach 2170-2470; Qwen3-235B has 4 KV heads, so TP8 must '' @
        ''duplicate them''),
     plain_remedy ''CUDA_GRAPH_MAX_BATCH'' ''96'' (Fin 1) Untested
       (''CudaGraphConfig defaults max_batch_size to 0, so a capture that is merely enabled captures nothing'')]"

definition already_applied :: "capacity_model \<Rightarrow> pd_split \<Rightarrow> engine_config \<Rightarrow> remedy \<Rightarrow> bool" where
  "already_applied m split applied r =
    (let k = knob r in
     if k = ''DECODE_TP'' then decode_tp split = 4
     else if k = ''SPECULATION'' then speculating (cm_decode m) \<noteq> None \<or> spec_enabled (speculation_cfg applied)
     else if k = ''KV_XFER_CONCURRENCY'' then xfer_concurrency m \<ge> 16
     else if k = ''EXPERT_PARALLEL'' then expert_parallel applied = 1
     else if k = ''MOE_BACKEND'' then moe_backend applied = ''CUTLASS'' \<or> moe_backend applied = ''AUTO''
     else if k = ''TORCH_COMPILE'' then torch_compile applied \<noteq> ''0''
     else if k = ''HOST_DISPATCH_SPIN'' then host_dispatch_spin applied
     else if k = ''ALLREDUCE_STRATEGY'' then allreduce_strategy applied \<noteq> ''AUTO''
     else if k = ''CONTEXT_PARALLEL'' then context_parallel applied > 1
     else if k = ''CUDA_GRAPH_MAX_BATCH'' then cuda_graph_max_batch applied > 0
     else if k = ''KV_CACHE_DTYPE'' then kv_dtype_bytes m \<le> 1
     else if k = ''PREFILL_MAX_NUM_TOKENS'' then max_num_tokens m \<ge> 16384
     else False)"

definition outranks :: "remedy \<Rightarrow> remedy \<Rightarrow> bool" where
  "outranks a b \<longleftrightarrow> strength (rm_evidence b) < strength (rm_evidence a)
     \<or> strength (rm_evidence a) = strength (rm_evidence b) \<and> multiplier b \<le> multiplier a"

text \<open>\<open>sort_by\<close> is stable, as this insertion sort is.\<close>

fun insert_remedy :: "remedy \<Rightarrow> remedy list \<Rightarrow> remedy list" where
  "insert_remedy x [] = [x]"
| "insert_remedy x (y # ys) = (if outranks x y then x # y # ys else y # insert_remedy x ys)"

definition remedies_for :: "capacity_model \<Rightarrow> bottleneck \<Rightarrow> remedy list" where
  "remedies_for m b = (case b of KvTransfer \<Rightarrow> transfer_remedies
     | PrefillBound \<Rightarrow> prefill_remedies (mfu_breakdown_of (cm_prefill m)) | DecodeBound \<Rightarrow> decode_remedies)"

definition remedies_given :: "capacity_model \<Rightarrow> pd_split \<Rightarrow> engine_config \<Rightarrow> remedy list" where
  "remedies_given m split applied =
    foldr insert_remedy (filter (\<lambda>r. \<not> already_applied m split applied r) (remedies_for m (pd_bottleneck split))) []"

definition remedies :: "capacity_model \<Rightarrow> pd_split \<Rightarrow> remedy list" where
  "remedies m split = remedies_given m split default_engine_config"

subsection \<open>Properties\<close>

text \<open>The diagnosis never blames a side whose gate passed: decode is blamed by a gate only when the
  inter-token budget was exceeded, prefill only when the first-token budget was, both
  when both were, and then the side whose measurement is the larger multiple of its budget. The binding
  resource of the prediction is blamed only when both gates passed, and a run that served
  nothing or met its prediction blames nothing.\<close>

theorem only_a_missed_gate_is_blamed:
  assumes "slo_itl_ms s > 0" "slo_ttft_ms s > 0" "a = assess m predicted s binding tolerance"
  shows "case diagnosed a of
      Met \<Rightarrow> implicates (diagnosed a) = None \<and> f_lt (Num 0) predicted
          \<and> (\<forall>x. predicted = Num x \<longrightarrow> mr_goodput_req_s m \<ge> (1 - tolerance) * x)
    | NothingServed \<Rightarrow> implicates (diagnosed a) = None \<and> request_count m < 1
    | ItlGate x y \<Rightarrow> implicates (diagnosed a) = Some DecodeBound \<and> itl_avg_ms m > slo_itl_ms s \<and> ttft_p90_ms m \<le> slo_ttft_ms s
    | TtftGate x y \<Rightarrow> implicates (diagnosed a) = Some PrefillBound \<and> ttft_p90_ms m > slo_ttft_ms s \<and> itl_avg_ms m \<le> slo_itl_ms s
    | BothGates w x y z \<Rightarrow> itl_avg_ms m > slo_itl_ms s \<and> ttft_p90_ms m > slo_ttft_ms s
        \<and> (implicates (diagnosed a) = Some PrefillBound) = (ttft_p90_ms m * slo_itl_ms s > itl_avg_ms m * slo_ttft_ms s)
    | ThroughputShortfall x y b \<Rightarrow> implicates (diagnosed a) = Some binding \<and> itl_avg_ms m \<le> slo_itl_ms s \<and> ttft_p90_ms m \<le> slo_ttft_ms s"
proof -
  have "f_le (Num (1 - tolerance)) (f_div (Num (mr_goodput_req_s m)) (Num x)) \<Longrightarrow> mr_goodput_req_s m \<ge> (1 - tolerance) * x" if "0 < x" for x
    using that by (cases "mr_goodput_req_s m = 0") (auto simp: f64_eval pos_le_divide_eq mult_le_0_iff)
  then show ?thesis using assms(1,2) unfolding assms(3) assess_def Let_def
    by (auto simp: field_simps f_le_def split: if_splits)
qed

theorem only_a_missed_gate_is_blamed_witness:
  "diagnosed (assess \<lparr>mr_goodput_req_s = 0, request_throughput_req_s = 4, output_token_throughput = 815, ttft_avg_ms = 995,
     ttft_p90_ms = 2980, itl_avg_ms = 91, request_count = 518\<rparr> (Num 14) default_slo PrefillBound (15 / 100)) = ItlGate 91 20"
  using only_a_missed_gate_is_blamed [of default_slo _ "\<lparr>mr_goodput_req_s = 0, request_throughput_req_s = 4,
     output_token_throughput = 815, ttft_avg_ms = 995, ttft_p90_ms = 2980, itl_avg_ms = 91, request_count = 518\<rparr>" "Num 14" PrefillBound "15 / 100"]
  by (simp add: assess_def default_slo_def f64_eval)

lemma all_fields_present: "all_fields (map Inr vs) = Inr vs"
  by (induction vs) simp_all

lemma all_fields_missing: "all_fields (map Inr vs @ Inl e # rs) = Inl e"
  by (induction vs) simp_all

lemma first_missing:
  obtains vs where "rs = map Inr vs" | vs e ws where "rs = map Inr vs @ Inl e # ws"
proof (induction rs arbitrary: thesis)
  case (Cons r rs)
  show ?case
  proof (cases r)
    case (Inl e)
    then show ?thesis using Cons.prems(2) [of "[]" e rs] by simp
  next
    case (Inr v)
    show ?thesis
    proof (rule Cons.IH)
      fix vs assume "rs = map Inr vs"
      then show thesis using Cons.prems(1) [of "v # vs"] Inr by simp
    next
      fix vs e ws assume "rs = map Inr vs @ Inl e # ws"
      then show thesis using Cons.prems(2) [of "v # vs" e ws] Inr by simp
    qed
  qed
qed simp

text \<open>A missing metric is an error, never a zero: the export is read exactly when every metric is present,
  and otherwise the error names the first one that is not.\<close>

lemma missing_metric_is_an_error:
  obtains vs where "map (aiperf_field doc) aiperf_names = map Inr vs" "length vs = 7"
      "from_aiperf_json doc = Inr \<lparr>mr_goodput_req_s = vs ! 0, request_throughput_req_s = vs ! 1, output_token_throughput = vs ! 2,
         ttft_avg_ms = vs ! 3, ttft_p90_ms = vs ! 4, itl_avg_ms = vs ! 5, request_count = vs ! 6\<rparr>"
    | vs e ws where "map (aiperf_field doc) aiperf_names = map Inr vs @ Inl e # ws" "from_aiperf_json doc = Inl e"
proof (cases "map (aiperf_field doc) aiperf_names" rule: first_missing)
  case (1 vs)
  have "length (map (aiperf_field doc) aiperf_names) = 7" by (simp add: aiperf_names_def)
  then have "length vs = 7" unfolding 1 by simp
  then show ?thesis using that(1) [OF 1] by (simp only: from_aiperf_json_def 1 all_fields_present sum.case)
next
  case (2 vs e ws)
  then show ?thesis using that(2) [OF 2] by (simp only: from_aiperf_json_def 2 all_fields_missing sum.case)
qed

lemma insert_remedy_mset: "mset (insert_remedy x ys) = add_mset x (mset ys)"
  by (induction ys) auto

lemma sort_remedies_mset: "mset (foldr insert_remedy xs []) = mset xs"
  by (induction xs) (auto simp: insert_remedy_mset)

lemma outranks_total: "\<not> outranks x y \<Longrightarrow> outranks y x"
  by (auto simp: outranks_def)

lemma outranks_trans: "outranks x y \<Longrightarrow> outranks y z \<Longrightarrow> outranks x z"
  by (auto simp: outranks_def)

lemma insert_remedy_set: "set (insert_remedy x ys) = insert x (set ys)"
  by (induction ys) auto

lemma insert_remedy_sorted: "sorted_wrt outranks ys \<Longrightarrow> sorted_wrt outranks (insert_remedy x ys)"
  by (induction ys) (auto simp: insert_remedy_set intro: outranks_trans outranks_total)

lemma sort_remedies_sorted: "sorted_wrt outranks (foldr insert_remedy xs [])"
  by (induction xs) (auto intro: insert_remedy_sorted)

text \<open>The list of remedies is complete, free of noise and ranked: it holds exactly the remedies known for the
  binding resource that the deployment does not already apply, each once, with stronger evidence first and
  larger multipliers first within a level of evidence.\<close>

theorem remedies_complete_and_ranked:
  "mset (remedies_given m split applied)
     = filter_mset (\<lambda>r. \<not> already_applied m split applied r) (mset (remedies_for m (pd_bottleneck split)))
   \<and> sorted_wrt outranks (remedies_given m split applied)"
  by (simp add: remedies_given_def sort_remedies_mset sort_remedies_sorted mset_filter)

end
