(* ===== verification/Frontend.thy ===== *)
theory Frontend
  imports Wire_Sse Block_Pool
begin

text \<open>
  \<open>crates/frontend/src/{api,server}.rs\<close>: the OpenAI-compatible endpoints and the interface they use of whatever
  is behind them.

  A channel of stream chunks is the list of the chunks it will carry until its senders are gone. The JSON text
  of a payload is \<open>serde_json\<close>'s; a payload is its JSON value here. The clock of the response header is an argument.
  Strings are their UTF-8 bytes.
\<close>

subsection \<open>Requests and chunks\<close>

record 'x generate_request =
  gr_id :: request_id
  gr_prompt :: "token_id list"
  gr_prompt_text :: string
  gr_params :: "'x sampling_params"
  gr_arrival_ms :: millis
  gr_stream :: bool

datatype stream_chunk = TokenChunk token_id string | DoneChunk string | ErrorChunk string

text \<open>The trait \<open>Completions\<close>; \<open>'b\<close> is the state behind it.\<close>

record ('x, 'b) completions_ops =
  op_generate :: "'x generate_request \<Rightarrow> 'b \<Rightarrow> (error + stream_chunk list) \<times> 'b"
  op_model_name :: "'b \<Rightarrow> string"
  op_encode :: "string \<Rightarrow> token_id list"
  op_decode :: "token_id list \<Rightarrow> string"

record chat_message =
  cm_role :: string
  cm_content :: string

record chat_completion_request =
  ccr_model :: "string option"
  ccr_messages :: "chat_message list"
  ccr_max_tokens :: "nat option"
  ccr_max_completion_tokens :: "nat option"
  ccr_temperature :: "real option"
  ccr_top_p :: "real option"
  ccr_stream :: "bool option"
  ccr_seed :: "nat option"
  ccr_ignore_eos :: "bool option"

definition or_default :: "'a option \<Rightarrow> 'a \<Rightarrow> 'a" where
  "or_default v d = (case v of None \<Rightarrow> d | Some x \<Rightarrow> x)"

definition or_else :: "'a option \<Rightarrow> 'a option \<Rightarrow> 'a option" where
  "or_else v w = (case v of None \<Rightarrow> w | Some x \<Rightarrow> Some x)"

definition flatten_prompt :: "chat_completion_request \<Rightarrow> string" where
  "flatten_prompt r = join_lines (map (\<lambda>m. cm_role m @ '': '' @ cm_content m) (ccr_messages r))"

definition sampling :: "'x \<Rightarrow> chat_completion_request \<Rightarrow> 'x sampling_params" where
  "sampling no_extra r = (default_params no_extra)\<lparr>
     max_tokens := or_default (or_else (ccr_max_completion_tokens r) (ccr_max_tokens r)) 200,
     temperature := or_default (ccr_temperature r) 0, top_p := or_default (ccr_top_p r) 1,
     ignore_eos := or_default (ccr_ignore_eos r) True, seed := ccr_seed r\<rparr>"

record completion_request =
  cpr_model :: "string option"
  cpr_prompt :: string
  cpr_max_tokens :: "nat option"
  cpr_temperature :: "real option"
  cpr_stream :: "bool option"
  cpr_ignore_eos :: "bool option"

subsection \<open>Responses\<close>

record usage =
  us_prompt_tokens :: nat
  us_completion_tokens :: nat
  us_total_tokens :: nat

record chat_choice =
  cc_index :: nat
  cc_role :: string
  cc_content :: string
  cc_finish_reason :: string

record chat_completion_response =
  cr_id :: string
  cr_object :: string
  cr_created :: nat
  cr_model :: string
  cr_choices :: "chat_choice list"
  cr_usage :: usage

record delta =
  dl_role :: "string option"
  dl_content :: "string option"

record stream_choice =
  sc_index :: nat
  sc_delta :: delta
  sc_finish_reason :: "string option"

record chat_completion_chunk =
  ck_id :: string
  ck_object :: string
  ck_created :: nat
  ck_model :: string
  ck_choices :: "stream_choice list"

definition opt_field :: "string \<Rightarrow> string option \<Rightarrow> (string \<times> json) list" where
  "opt_field k v = (case v of None \<Rightarrow> [] | Some x \<Rightarrow> [(k, JString x)])"

definition delta_json :: "delta \<Rightarrow> json" where
  "delta_json d = JObject (opt_field ''role'' (dl_role d) @ opt_field ''content'' (dl_content d))"

definition choice_json :: "stream_choice \<Rightarrow> json" where
  "choice_json c = JObject ([(''index'', JNumber (PosInt (sc_index c))), (''delta'', delta_json (sc_delta c))]
     @ opt_field ''finish_reason'' (sc_finish_reason c))"

definition chunk_json :: "chat_completion_chunk \<Rightarrow> json" where
  "chunk_json c = JObject [(''id'', JString (ck_id c)), (''object'', JString (ck_object c)),
     (''created'', JNumber (PosInt (ck_created c))), (''model'', JString (ck_model c)),
     (''choices'', JArray (map choice_json (ck_choices c)))]"

definition error_json :: "string \<Rightarrow> json" where
  "error_json m = JObject [(''error'', JObject [(''message'', JString m)])]"

fun error_str :: "error \<Rightarrow> string" where
  "error_str (NoWorker r) = ''no worker available for role '' @ r"
| "error_str (UnknownWorker w) = ''worker '' @ worker_id_str w @ '' is not registered''"
| "error_str (UnknownRequest i) = ''request '' @ request_id_str i @ '' is not known to this component''"
| "error_str (KvExhausted n f) = ''kv cache exhausted: needed '' @ nat_str n @ '' blocks, '' @ nat_str f @ '' free''"
| "error_str (Rejected i r) = ''request '' @ request_id_str i @ '' rejected: '' @ r"
| "error_str (Engine m) = ''engine backend error: '' @ m"
| "error_str (Transfer m) = ''kv transfer failed: '' @ m"
| "error_str (Config m) = ''configuration error: '' @ m"
| "error_str (Json m) = m"

subsection \<open>Handlers\<close>

datatype reply =
    Status nat json
  | EventStream "json list"
  | Completion chat_completion_response

definition bad_request :: "string \<Rightarrow> reply" where
  "bad_request m = Status 400 (error_json m)"

definition stream_payload :: "request_id \<Rightarrow> nat \<Rightarrow> string \<Rightarrow> stream_chunk \<Rightarrow> json" where
  "stream_payload rid created model c =
    (let chunk = (\<lambda>content reason. chunk_json \<lparr>ck_id = request_id_str rid, ck_object = ''chat.completion.chunk'',
           ck_created = created, ck_model = model,
           ck_choices = [\<lparr>sc_index = 0, sc_delta = \<lparr>dl_role = None, dl_content = content\<rparr>, sc_finish_reason = reason\<rparr>]\<rparr>)
     in case c of TokenChunk _ body_text \<Rightarrow> chunk (Some body_text) None
        | DoneChunk reason \<Rightarrow> chunk None (Some reason)
        | ErrorChunk m \<Rightarrow> error_json m)"

definition sse_response :: "request_id \<Rightarrow> nat \<Rightarrow> string \<Rightarrow> stream_chunk list \<Rightarrow> reply" where
  "sse_response rid created model chunks' = EventStream (map (stream_payload rid created model) chunks')"

text \<open>The loop of \<open>collect_response\<close>: the text and the count so far, then the reason or the error.\<close>

fun collect :: "stream_chunk list \<Rightarrow> string \<Rightarrow> nat \<Rightarrow> string + string \<times> nat \<times> string" where
  "collect [] body_text n = Inr (body_text, n, ''length'')"
| "collect (TokenChunk _ t # cs) body_text n = collect cs (body_text @ t) ((n + 1) mod 2 ^ 32)"
| "collect (DoneChunk r # cs) body_text n = Inr (body_text, n, r)"
| "collect (ErrorChunk m # cs) body_text n = Inl m"

definition collect_response :: "request_id \<Rightarrow> nat \<Rightarrow> string \<Rightarrow> nat \<Rightarrow> stream_chunk list \<Rightarrow> reply" where
  "collect_response rid created model ptoks cs =
    (case collect cs [] 0 of
       Inl m \<Rightarrow> Status 500 (error_json m)
     | Inr (body_text, n, reason) \<Rightarrow> Completion \<lparr>cr_id = request_id_str rid, cr_object = ''chat.completion'', cr_created = created,
         cr_model = model, cr_choices = [\<lparr>cc_index = 0, cc_role = ''assistant'', cc_content = body_text, cc_finish_reason = reason\<rparr>],
         cr_usage = \<lparr>us_prompt_tokens = ptoks, us_completion_tokens = n, us_total_tokens = (ptoks + n) mod 2 ^ 32\<rparr>\<rparr>)"

record ('x, 'b) app_state =
  backend :: 'b
  backend_ops :: "('x, 'b) completions_ops"
  app_next_id :: nat

definition app_new :: "('x, 'b) completions_ops \<Rightarrow> 'b \<Rightarrow> ('x, 'b) app_state" where
  "app_new ops b = \<lparr>backend = b, backend_ops = ops, app_next_id = 0\<rparr>"

definition dispatch :: "nat \<Rightarrow> 'x generate_request \<Rightarrow> string option \<Rightarrow> bool \<Rightarrow> ('x, 'b) app_state \<Rightarrow> reply \<times> ('x, 'b) app_state" where
  "dispatch created gen model strm s =
    (let rid = gr_id gen; ptoks = length (gr_prompt gen) mod 2 ^ 32; name = or_default model (op_model_name (backend_ops s) (backend s))
     in case op_generate (backend_ops s) gen (backend s) of
       (Inl e, b) \<Rightarrow> (Status 503 (error_json (error_str e)), s\<lparr>backend := b\<rparr>)
     | (Inr cs, b) \<Rightarrow> (if strm then sse_response rid created name cs else collect_response rid created name ptoks cs, s\<lparr>backend := b\<rparr>))"

definition chat_completions :: "'x \<Rightarrow> millis \<Rightarrow> nat \<Rightarrow> chat_completion_request \<Rightarrow> ('x, 'b) app_state \<Rightarrow> reply \<times> ('x, 'b) app_state" where
  "chat_completions no_extra now created r s =
    (if ccr_messages r = [] then (bad_request ''messages must not be empty'', s)
     else
      let body_text = flatten_prompt r; strm = or_default (ccr_stream r) False; (rid, n) = next_id (app_next_id s)
      in dispatch created \<lparr>gr_id = rid, gr_prompt = op_encode (backend_ops s) body_text, gr_prompt_text = body_text,
           gr_params = sampling no_extra r, gr_arrival_ms = now, gr_stream = strm\<rparr> (ccr_model r) strm (s\<lparr>app_next_id := n\<rparr>))"

definition completions :: "'x \<Rightarrow> millis \<Rightarrow> nat \<Rightarrow> completion_request \<Rightarrow> ('x, 'b) app_state \<Rightarrow> reply \<times> ('x, 'b) app_state" where
  "completions no_extra now created r s =
    (let strm = or_default (cpr_stream r) False; (rid, n) = next_id (app_next_id s)
     in dispatch created \<lparr>gr_id = rid, gr_prompt = op_encode (backend_ops s) (cpr_prompt r), gr_prompt_text = cpr_prompt r,
          gr_params = (default_params no_extra)\<lparr>max_tokens := or_default (cpr_max_tokens r) 200,
            temperature := or_default (cpr_temperature r) 0, ignore_eos := or_default (cpr_ignore_eos r) True\<rparr>,
          gr_arrival_ms = now, gr_stream = strm\<rparr> (cpr_model r) strm (s\<lparr>app_next_id := n\<rparr>))"

definition health :: reply where
  "health = Status 200 (JObject [(''status'', JString ''ok'')])"

definition models :: "('x, 'b) app_state \<Rightarrow> reply" where
  "models s = Status 200 (JObject [(''object'', JString ''list''), (''data'', JArray [JObject
     [(''id'', JString (op_model_name (backend_ops s) (backend s))), (''object'', JString ''model''), (''owned_by'', JString ''trt-llm-rs'')]])])"

text \<open>The route table. The library's part is a parameter: what it replies when nothing is routed, and the extraction of a JSON body, which
  gives the request or the library's reply.\<close>

datatype http_method = GET | POST | OtherMethod string

record http_call =
  hc_method :: http_method
  hc_path :: string
  hc_body :: bytes

record axum =
  unrouted :: "http_call \<Rightarrow> reply"
  extract_chat :: "bytes \<Rightarrow> reply + chat_completion_request"
  extract_completion :: "bytes \<Rightarrow> reply + completion_request"

definition route_call :: "axum \<Rightarrow> 'x \<Rightarrow> millis \<Rightarrow> nat \<Rightarrow> http_call \<Rightarrow> ('x, 'b) app_state \<Rightarrow> reply \<times> ('x, 'b) app_state" where
  "route_call ax no_extra now created c s =
    (if hc_path c = ''/health'' \<and> hc_method c = GET then (health, s)
     else if hc_path c = ''/v1/models'' \<and> hc_method c = GET then (models s, s)
     else if hc_path c = ''/v1/chat/completions'' \<and> hc_method c = POST
     then (case extract_chat ax (hc_body c) of Inl r \<Rightarrow> (r, s) | Inr q \<Rightarrow> chat_completions no_extra now created q s)
     else if hc_path c = ''/v1/completions'' \<and> hc_method c = POST
     then (case extract_completion ax (hc_body c) of Inl r \<Rightarrow> (r, s) | Inr q \<Rightarrow> completions no_extra now created q s)
     else (unrouted ax c, s))"

text \<open>A call takes at most one number, and the backend sees a request only together with a fresh one.\<close>

lemma dispatch_frame: "app_next_id (snd (dispatch created gen model strm s)) = app_next_id s"
  by (simp add: dispatch_def Let_def split: prod.split sum.split)

lemma calls_are_numbered:
  assumes "route_call ax no_extra now created c s = (r, s')"
  shows "s' = s \<or> app_next_id s' = snd (next_id (app_next_id s))"
proof -
  have "snd (chat_completions no_extra now created q s) = s
      \<or> app_next_id (snd (chat_completions no_extra now created q s)) = snd (next_id (app_next_id s))" for q
    by (simp add: chat_completions_def Let_def case_prod_unfold dispatch_frame)
  moreover have "app_next_id (snd (completions no_extra now created q s)) = snd (next_id (app_next_id s))" for q
    by (simp add: completions_def Let_def case_prod_unfold dispatch_frame)
  ultimately show ?thesis using arg_cong [OF assms, of snd] by (simp add: route_call_def split: if_splits sum.splits) metis+
qed

subsection \<open>What a client is told\<close>

text \<open>What the frontend relies on of the side behind it: tokens, then at most one chunk that ends the answer.\<close>

fun chunks_wf :: "stream_chunk list \<Rightarrow> bool" where
  "chunks_wf [] = True"
| "chunks_wf (TokenChunk _ _ # cs) = chunks_wf cs"
| "chunks_wf (c # cs) = (cs = [])"

fun ending :: "stream_chunk list \<Rightarrow> string + string" where
  "ending [] = Inr ''length''"
| "ending (TokenChunk _ _ # cs) = ending cs"
| "ending (DoneChunk r # cs) = Inr r"
| "ending (ErrorChunk m # cs) = Inl m"

fun chunk_text :: "stream_chunk \<Rightarrow> string" where
  "chunk_text (TokenChunk _ t) = t"
| "chunk_text _ = []"

definition token_chunks :: "stream_chunk list \<Rightarrow> stream_chunk list" where
  "token_chunks cs = filter (\<lambda>c. case c of TokenChunk _ _ \<Rightarrow> True | _ \<Rightarrow> False) cs"

lemma collect_chunks:
  "chunks_wf cs \<Longrightarrow> collect cs body_text n = (case ending cs of Inl m \<Rightarrow> Inl m
     | Inr r \<Rightarrow> Inr (body_text @ concat (map chunk_text cs), if token_chunks cs = [] then n else (n + length (token_chunks cs)) mod 2 ^ 32, r))"
proof (induction cs arbitrary: body_text n)
  case (Cons c cs)
  show ?case
  proof (cases c)
    case (TokenChunk t x)
    have "((n + 1) mod 2 ^ 32 + length (token_chunks cs)) mod 2 ^ 32 = (n + length (token_chunks (c # cs))) mod 2 ^ 32"
      using TokenChunk by (simp add: token_chunks_def mod_simps)
    then show ?thesis using Cons.IH [of "body_text @ x" "(n + 1) mod 2 ^ 32"] Cons.prems TokenChunk
      by (auto simp: token_chunks_def split: sum.split)
  qed (use Cons.prems in \<open>auto simp: token_chunks_def\<close>)
qed (simp add: token_chunks_def)

locale completions_contract =
  fixes answer :: "'i \<Rightarrow> stream_chunk list"
  assumes ends_once: "chunks_wf (answer i)"
begin

lemma all_text_is_collected:
  "collect (answer i) [] 0 = (case ending (answer i) of Inl m \<Rightarrow> Inl m
     | Inr r \<Rightarrow> Inr (concat (map chunk_text (answer i)), length (token_chunks (answer i)) mod 2 ^ 32, r))"
  using collect_chunks [OF ends_once, of i "[]" 0] by (simp split: sum.split)

end

end
