(* ===== verification/Fleet.thy ===== *)
theory Fleet
  imports Router
begin

text \<open>
  A fleet of workers behind a router: what registering many workers and reporting their loads does to the
  registry, and that a router whose workers have all just reported always finds a route. The simulator and the
  deployments share these facts.
\<close>

subsection \<open>Registering a fleet\<close>

definition default_load :: worker_load where
  "default_load = \<lparr>wl_queued_tokens = 0, wl_queue_depth = 0, decode_concurrency = 0, decode_cap = 0, kv_utilisation = 0,
     wl_tokens_per_ms = 0, step_ms = 0, updated_ms = 0\<rparr>"

lemma register_fold_wf: "registry_wf r \<Longrightarrow> registry_wf (foldl (\<lambda>r w. register w r) r ws)"
  by (induction ws arbitrary: r) (simp_all add: register_wf)

lemma register_fold_dom:
  "dom (hm_get (registered (foldl (\<lambda>r w. register w r) r ws))) = dom (hm_get (registered r)) \<union> ws_id ` set ws"
proof (induction ws arbitrary: r)
  case (Cons w ws)
  have "dom (hm_get (registered (register w r))) = insert (ws_id w) (dom (hm_get (registered r)))"
    by (simp add: register_def hm_simps)
  then show ?case using Cons.IH [of "register w r"] by simp
qed simp

lemma register_fold_stale: "stale_after_ms (foldl (\<lambda>r w. register w r) r ws) = stale_after_ms r"
  by (induction ws arbitrary: r) (simp_all add: register_def)

lemma register_fold_all:
  "hm_get (registered (foldl (\<lambda>r w. register w r) r ws)) i = Some v \<Longrightarrow> v \<in> set ws \<or> hm_get (registered r) i = Some v"
proof (induction ws arbitrary: r)
  case (Cons w ws)
  then have "v \<in> set ws \<or> hm_get (registered (register w r)) i = Some v" by simp
  then show ?case by (auto simp: register_def hm_simps split: if_splits)
qed simp

subsection \<open>Reporting loads\<close>

lemma update_load_get: "hm_get (registered (update_load i l r)) =
    (hm_get (registered r))(i := map_option (\<lambda>w. w\<lparr>load := l, healthy := True\<rparr>) (hm_get (registered r) i))"
  by (simp add: update_load_def hm_simps)

lemma loads_frame:
  "stale_after_ms (foldl (\<lambda>r (i, l). update_load i l r) r us) = stale_after_ms r"
  "registry_wf r \<Longrightarrow> registry_wf (foldl (\<lambda>r (i, l). update_load i l r) r us)"
  "dom (hm_get (registered (foldl (\<lambda>r (i, l). update_load i l r) r us))) = dom (hm_get (registered r))"
proof (induction us arbitrary: r)
  case (Cons u us)
  obtain i l where u: "u = (i, l)" by (cases u)
  {
    case 1
    then show ?case using Cons.IH(1) [of "update_load i l r"] u by (simp add: update_load_def)
  next
    case 2
    then show ?case using Cons.IH(2) [of "update_load i l r"] u by (simp add: update_load_wf)
  next
    case 3
    then show ?case using Cons.IH(3) [of "update_load i l r"] u by (auto simp: update_load_get domIff split: if_splits)
  }
qed simp_all

lemma loads_roles:
  assumes "hm_get (registered (foldl (\<lambda>r (i, l). update_load i l r) r us)) k = Some w"
  shows "\<exists>v. hm_get (registered r) k = Some v \<and> role w = role v"
  using assms
proof (induction us arbitrary: r)
  case (Cons u us)
  obtain i l where u: "u = (i, l)" by (cases u)
  then obtain v where v: "hm_get (registered (update_load i l r)) k = Some v" "role w = role v" using Cons by force
  then show ?case by (auto simp: update_load_get split: if_splits)
qed auto

lemma loads_fresh:
  assumes "hm_get (registered (foldl (\<lambda>r (i, l). update_load i l r) r us)) k = Some w"
    and "\<forall>(i, l) \<in> set us. updated_ms l = now"
    and "k \<in> fst ` set us \<or> (\<forall>v. hm_get (registered r) k = Some v \<longrightarrow> healthy v \<and> updated_ms (load v) = now)"
  shows "healthy w \<and> updated_ms (load w) = now"
  using assms
proof (induction us arbitrary: r)
  case (Cons u us)
  obtain i l where u: "u = (i, l)" by (cases u)
  show ?case
  proof (rule Cons.IH [of "update_load i l r"])
    show "hm_get (registered (foldl (\<lambda>r (i, l). update_load i l r) (update_load i l r) us)) k = Some w"
      using Cons.prems(1) u by simp
    show "\<forall>(i, l) \<in> set us. updated_ms l = now" using Cons.prems(2) by auto
    show "k \<in> fst ` set us \<or> (\<forall>v. hm_get (registered (update_load i l r)) k = Some v \<longrightarrow> healthy v \<and> updated_ms (load v) = now)"
      using Cons.prems(2,3) u by (auto simp: update_load_get)
  qed
qed auto

definition report_loads :: "(worker_id \<times> worker_load) list \<Rightarrow> router \<Rightarrow> router" where
  "report_loads us r = r\<lparr>registry := foldl (\<lambda>r (i, l). update_load i l r) (registry r) us\<rparr>"

text \<open>After every worker has reported, routing cannot fail, and it picks a worker of each role.\<close>

lemma fresh_route:
  assumes inv: "router_inv r" and now: "\<forall>(i, l) \<in> set us. updated_ms l = now"
    and all: "dom (hm_get (registered (registry r))) \<subseteq> fst ` set us" and stale: "0 \<le> stale_after_ms (registry r)"
    and some: "hm_get (registered (registry r)) a = Some va" "role va = PrefillRole"
      "hm_get (registered (registry r)) b = Some vb" "role vb = DecodeRole"
  shows "router_inv (report_loads us r) \<and> (\<exists>d v w. route (report_loads us r) toks now budget = Some (Inr d)
    \<and> hm_get (registered (registry r)) (rd_prefill d) = Some v \<and> role v = PrefillRole
    \<and> hm_get (registered (registry r)) (rd_decode d) = Some w \<and> role w = DecodeRole)"
proof -
  let ?r = "report_loads us r"
  let ?g = "hm_get (registered (registry ?r))"
  have reg: "registry ?r = foldl (\<lambda>r (i, l). update_load i l r) (registry r) us" by (simp add: report_loads_def)
  have inv': "router_inv ?r" using inv loads_frame(2) by (simp add: report_loads_def router_inv_def)
  then have wf: "registry_wf (registry ?r)" by (simp add: router_inv_def)
  have dom: "dom ?g = dom (hm_get (registered (registry r)))" unfolding reg by (rule loads_frame(3))
  have live_iff: "w \<in> set (live (registry ?r) ro now) \<longleftrightarrow> ?g (ws_id w) = Some w \<and> role w = ro" for w ro
  proof -
    have "healthy w \<and> updated_ms (load w) = now" if h: "?g (ws_id w) = Some w"
    proof (rule loads_fresh [of "registry r" us "ws_id w" w now])
      have "ws_id w \<in> dom (hm_get (registered (registry r)))" using h dom by blast
      then show "ws_id w \<in> fst ` set us \<or> (\<forall>v. hm_get (registered (registry r)) (ws_id w) = Some v \<longrightarrow> healthy v \<and> updated_ms (load v) = now)"
        using all by blast
    qed (use h reg now in simp_all)
    moreover have "0 \<le> stale_after_ms (registry ?r)" unfolding reg loads_frame(1) by (rule stale)
    ultimately show ?thesis using live_set [OF wf, of w ro now] by (auto simp: is_live_def)
  qed
  have pick: "live (registry ?r) ro now \<noteq> []" if h: "hm_get (registered (registry r)) i = Some v" "role v = ro" for i v ro
  proof -
    obtain w where w: "?g i = Some w" using h(1) dom by blast
    have "role w = ro" using loads_roles [of "registry r" us i w] w h reg by auto
    moreover have "ws_id w = i" using wf w by (simp add: registry_wf_def)
    ultimately have "w \<in> set (live (registry ?r) ro now)" using live_iff w by simp
    then show ?thesis by auto
  qed
  from route_live [OF inv' pick [OF some(1,2)] pick [OF some(3,4)], of toks budget] obtain d p q where
    d: "route ?r toks now budget = Some (Inr d)" "p \<in> set (live (registry ?r) PrefillRole now)"
      "q \<in> set (live (registry ?r) DecodeRole now)" "rd_prefill d = ws_id p" "rd_decode d = ws_id q" by blast
  have p: "?g (rd_prefill d) = Some p" "role p = PrefillRole" and q: "?g (rd_decode d) = Some q" "role q = DecodeRole"
    using d live_iff by auto
  show ?thesis using inv' d(1) loads_roles [of "registry r" us "rd_prefill d" p] loads_roles [of "registry r" us "rd_decode d" q] p q
    unfolding reg by metis
qed

end
