(* ===== verification/Serving.thy ===== *)
theory Serving
  imports Frontend Wire_Stream Fleet
begin

text \<open>
  \<open>crates/worker/src/serving.rs\<close>: the router in front of engine processes. Each request is routed, sent to
  one process over HTTP, and relayed chunk by chunk by a task of its own; the load the router sees is what these
  tasks observe.

  The HTTP server behind an endpoint and the JSON parser are parameters, as in \<open>Wire_Stream\<close>. A task
  is advanced one iteration of its loop at a time, with the clock reading and whether the client still listens as
  arguments, so that any interleaving of the tasks is a sequence of steps.

  Two things are coarser than the code. The in-flight count is a natural number, a \<open>u32\<close> in the code: the two agree while fewer than \<open>2 ^ 32\<close> streams
  are open. And accepting a request is one step, although the code waits for the transport to answer after it has routed: requests that
  arrive meanwhile are routed on a load that does not count this one yet. The count itself is raised when the task is spawned, without
  a wait between, so it is exact in the finer interleavings too.
\<close>

subsection \<open>State\<close>

record serving_worker =
  slot :: nat
  sw_endpoint :: string

record observed =
  inflight :: nat
  ob_itl_ms :: real
  ob_samples :: nat

definition no_observation :: observed where
  "no_observation = \<lparr>inflight = 0, ob_itl_ms = 0, ob_samples = 0\<rparr>"

record serving_deployment =
  sd_router :: router
  sd_workers :: "(worker_id, serving_worker) hmap"
  sd_observed :: "(nat, observed) hmap"
  sd_model_name :: string
  ttft_budget_ms :: real
  decode_cap_hint :: real
  sd_next_id :: nat

text \<open>Two registry entries per process, in 32-bit arithmetic.\<close>

definition agg_id :: "nat \<Rightarrow> nat \<Rightarrow> worker_id" where
  "agg_id i offset = (i * 2 + offset) mod 2 ^ 32"

definition agg_roles :: "(nat \<times> worker_role) list" where
  "agg_roles = [(0, PrefillRole), (1, DecodeRole)]"

definition agg_entry :: "real \<Rightarrow> nat \<Rightarrow> string \<Rightarrow> nat \<times> worker_role \<Rightarrow> worker_state" where
  "agg_entry cap_hint i e offset_role = \<lparr>ws_id = agg_id i (fst offset_role), role = snd offset_role, endpoint = e,
     tensor_parallel = 1, healthy = True, load = default_load\<lparr>decode_cap := cap_hint\<rparr>\<rparr>"

definition agg_entries :: "real \<Rightarrow> string list \<Rightarrow> (worker_state \<times> serving_worker) list" where
  "agg_entries cap_hint endpoints = concat (map (\<lambda>(i, e). map (\<lambda>ro. (agg_entry cap_hint i e ro, \<lparr>slot = i, sw_endpoint = e\<rparr>)) agg_roles)
     (List.enumerate 0 endpoints))"

definition aggregated :: "string list \<Rightarrow> string \<Rightarrow> router_tuning \<Rightarrow> real \<Rightarrow> real \<Rightarrow> real \<Rightarrow> error + serving_deployment" where
  "aggregated endpoints name tuned budget cap_hint stale =
    (if endpoints = [] then Inl (Engine ''no worker endpoints given'')
     else let es = agg_entries cap_hint endpoints in
       Inr \<lparr>sd_router = router_new (foldl (\<lambda>r w. register w r) (registry_new stale) (map fst es)) tuned,
         sd_workers = foldl (\<lambda>m (st, w). hm_insert (ws_id st) w m) [] es,
         sd_observed = map (\<lambda>(i, _). (i, no_observation)) (List.enumerate 0 endpoints),
         sd_model_name = name, ttft_budget_ms = budget, decode_cap_hint = cap_hint, sd_next_id = 0\<rparr>)"

definition observed_of :: "serving_deployment \<Rightarrow> nat \<Rightarrow> observed" where
  "observed_of s i = (case hm_get (sd_observed s) i of None \<Rightarrow> no_observation | Some o' \<Rightarrow> o')"

definition observe_slot :: "nat \<Rightarrow> (observed \<Rightarrow> observed) \<Rightarrow> serving_deployment \<Rightarrow> serving_deployment" where
  "observe_slot i f s = s\<lparr>sd_observed := hm_insert i (f (observed_of s i)) (sd_observed s)\<rparr>"

definition observed_load :: "real \<Rightarrow> millis \<Rightarrow> observed \<Rightarrow> worker_load" where
  "observed_load cap_hint now o' = default_load\<lparr>wl_queue_depth := inflight o', decode_concurrency := inflight o',
     decode_cap := cap_hint, step_ms := ob_itl_ms o', updated_ms := now\<rparr>"

definition refresh_load :: "millis \<Rightarrow> serving_deployment \<Rightarrow> serving_deployment" where
  "refresh_load now s = s\<lparr>sd_router := report_loads
     (map (\<lambda>(i, w). (i, observed_load (decode_cap_hint s) now (observed_of s (slot w)))) (sd_workers s)) (sd_router s)\<rparr>"

subsection \<open>A request\<close>

record 'x relay_task =
  tk_slot :: nat
  tk_stream :: "('x, http_transport) request_stream"
  tk_last_token_ms :: "millis option"

definition core_request :: "request_id \<Rightarrow> real \<Rightarrow> 'x generate_request \<Rightarrow> 'x request" where
  "core_request i budget r = \<lparr>req_id = i, prompt = gr_prompt r, params = gr_params r, req_arrival_ms = gr_arrival_ms r,
     ttft_deadline_ms = gr_arrival_ms r + budget, prefill_worker = None, decode_worker = None\<rparr>"

type_synonym 'x http_server = "string \<Rightarrow> 'x transport_request \<Rightarrow> http_response"

definition serving_generate :: "(string \<Rightarrow> string + json) \<Rightarrow> 'x http_server \<Rightarrow> millis \<Rightarrow> 'x generate_request \<Rightarrow>
    serving_deployment \<Rightarrow> ((error + 'x relay_task) \<times> serving_deployment) option" where
  "serving_generate pj serve now r s0 =
    (let s = refresh_load now s0
     in case route (sd_router s) (gr_prompt r) now (ttft_budget_ms s) of
       None \<Rightarrow> None
     | Some (Inl e) \<Rightarrow> Some (Inl (Rejected (gr_id r) (routing_error_str e)), s)
     | Some (Inr d) \<Rightarrow>
        (case hm_get (sd_workers s) (rd_decode d) of
           None \<Rightarrow> Some (Inl (Engine (''routed to unknown worker '' @ worker_id_str (rd_decode d))), s)
         | Some w \<Rightarrow>
            let (rid, n) = next_id (sd_next_id s); s1 = s\<lparr>sd_next_id := n\<rparr>
            in (case start (http_ops pj serve) (Inr (http_open (factory_url (sw_endpoint w)))) (core_request rid (ttft_budget_ms s) r) of
                  Inl e \<Rightarrow> Some (Inl (Engine (''transport: '' @ transport_error_str e)), s1)
                | Inr st \<Rightarrow> Some (Inr \<lparr>tk_slot = slot w, tk_stream = st, tk_last_token_ms = None\<rparr>,
                    observe_slot (slot w) (\<lambda>o'. o'\<lparr>inflight := inflight o' + 1\<rparr>) s1))))"

definition leak_reason :: "string \<Rightarrow> string" where
  "leak_reason r = (if r \<in> {''eos'', ''stop'', ''length'', ''cancelled'', ''timeout'', ''content_filter''} then r else ''error'')"

definition note_gap :: "millis option \<Rightarrow> millis \<Rightarrow> observed \<Rightarrow> observed" where
  "note_gap prev_ms now o' = (case prev_ms of None \<Rightarrow> o'
     | Some prev \<Rightarrow>
        let gap = now - prev
        in o'\<lparr>ob_itl_ms := (if ob_samples o' = 0 then gap else 8 / 10 * ob_itl_ms o' + 2 / 10 * gap), ob_samples := ob_samples o' + 1\<rparr>)"

definition close_slot :: "nat \<Rightarrow> serving_deployment \<Rightarrow> serving_deployment" where
  "close_slot i s = observe_slot i (\<lambda>o'. o'\<lparr>inflight := inflight o' - 1\<rparr>) s"

text \<open>One iteration of a task's loop. \<open>listening\<close> says whether the client's channel is still open; without a
  task in the result the loop has ended and its stream is dropped.\<close>

definition relay_step :: "(string \<Rightarrow> string + json) \<Rightarrow> 'x http_server \<Rightarrow> millis \<Rightarrow> bool \<Rightarrow> 'x relay_task \<Rightarrow> serving_deployment \<Rightarrow>
    stream_chunk list \<times> 'x relay_task option \<times> serving_deployment" where
  "relay_step pj serve now listening t s =
    (case next_at (http_ops pj serve) pj now (tk_stream t) of (r, st) \<Rightarrow>
       let say = (\<lambda>c. if listening then [c] else [])
       in (case r of
             Inr (Some (Token tok w)) \<Rightarrow>
               let s1 = observe_slot (tk_slot t) (note_gap (tk_last_token_ms t) now) s
               in if listening then ([TokenChunk tok w], Some (t\<lparr>tk_stream := st, tk_last_token_ms := Some now\<rparr>), s1)
                  else ([], None, close_slot (tk_slot t) s1)
           | Inr (Some (Terminal reason)) \<Rightarrow> (say (DoneChunk (leak_reason reason)), None, close_slot (tk_slot t) s)
           | Inr None \<Rightarrow> ([], None, close_slot (tk_slot t) s)
           | Inl e \<Rightarrow> (say (ErrorChunk (transport_error_str e)), None, close_slot (tk_slot t) s)))"

text \<open>A whole task, alone: its iterations until it ends or the readings run out.\<close>

fun relay :: "(string \<Rightarrow> string + json) \<Rightarrow> 'x http_server \<Rightarrow> (millis \<times> bool) list \<Rightarrow> 'x relay_task \<Rightarrow> serving_deployment \<Rightarrow>
    stream_chunk list \<times> 'x relay_task option \<times> serving_deployment" where
  "relay pj serve [] t s = ([], Some t, s)"
| "relay pj serve ((now, listening) # its) t s =
    (case relay_step pj serve now listening t s of
       (c, None, s1) \<Rightarrow> (c, None, s1)
     | (c, Some t1, s1) \<Rightarrow> (case relay pj serve its t1 s1 of (cs, t2, s2) \<Rightarrow> (c @ cs, t2, s2)))"

subsection \<open>Routing\<close>

definition sd_ok :: "serving_deployment \<Rightarrow> bool" where
  "sd_ok s \<longleftrightarrow> router_inv (sd_router s) \<and> 0 \<le> stale_after_ms (registry (sd_router s))
     \<and> dom (hm_get (registered (registry (sd_router s)))) = dom (hm_get (sd_workers s))
     \<and> (\<forall>ro. \<exists>i v. hm_get (registered (registry (sd_router s))) i = Some v \<and> role v = ro)"

lemma observe_slot_frame [simp]: "sd_router (observe_slot i f s) = sd_router s" "sd_workers (observe_slot i f s) = sd_workers s"
  "ttft_budget_ms (observe_slot i f s) = ttft_budget_ms s"
  "observed_of (observe_slot i f s) = (observed_of s)(i := f (observed_of s i))"
  by (auto simp: observe_slot_def observed_of_def hm_simps)

lemma sd_ok_observe [simp]: "sd_ok (observe_slot i f s) = sd_ok s" "sd_ok (s\<lparr>sd_next_id := n\<rparr>) = sd_ok s" "sd_ok (close_slot i s) = sd_ok s"
  by (simp_all add: sd_ok_def close_slot_def)

lemma refreshed:
  assumes "sd_ok s"
  shows "sd_ok (refresh_load now s) \<and> (\<exists>d w. route (sd_router (refresh_load now s)) toks now budget = Some (Inr d)
    \<and> hm_get (sd_workers s) (rd_decode d) = Some w)"
proof -
  let ?us = "map (\<lambda>(i, w). (i, observed_load (decode_cap_hint s) now (observed_of s (slot w)))) (sd_workers s)"
  let ?g = "hm_get (registered (registry (sd_router s)))"
  have ids: "fst ` set ?us = dom (hm_get (sd_workers s))" by (auto simp: dom_map_of_conv_image_fst image_image case_prod_unfold)
  have now: "\<forall>(i, l) \<in> set ?us. updated_ms l = now" by (auto simp: observed_load_def)
  obtain a va b vb where v: "?g a = Some va" "role va = PrefillRole" "?g b = Some vb" "role vb = DecodeRole"
    using assms by (meson sd_ok_def)
  have "router_inv (sd_router s)" "0 \<le> stale_after_ms (registry (sd_router s))" "dom ?g \<subseteq> fst ` set ?us"
    using assms unfolding ids by (simp_all add: sd_ok_def)
  from fresh_route [where toks = toks and budget = budget, OF this(1) now this(3) this(2) v] obtain d w where
    r: "router_inv (report_loads ?us (sd_router s))" "route (report_loads ?us (sd_router s)) toks now budget = Some (Inr d)" "?g (rd_decode d) = Some w"
    by blast
  have "rd_decode d \<in> dom (hm_get (sd_workers s))" using r(3) assms unfolding sd_ok_def by blast
  moreover have "\<exists>i v. hm_get (registered (foldl (\<lambda>r (i, l). update_load i l r) (registry (sd_router s)) us)) i = Some v \<and> role v = ro" for ro us
  proof -
    obtain i v where v: "?g i = Some v" "role v = ro" using assms by (meson sd_ok_def)
    obtain u where "hm_get (registered (foldl (\<lambda>r (i, l). update_load i l r) (registry (sd_router s)) us)) i = Some u"
      using loads_frame(3) [of "registry (sd_router s)" us] v(1) by blast
    then show ?thesis using loads_roles [of "registry (sd_router s)" us i u] v by auto
  qed
  ultimately show ?thesis using r(1,2) assms by (auto simp: sd_ok_def refresh_load_def report_loads_def loads_frame)
qed

lemma agg_id_parity: "even (agg_id i k) = even k"
proof -
  have "even (agg_id i k) = even (i * 2 + k)" unfolding agg_id_def by (rule dvd_mod_iff) simp
  then show ?thesis by simp
qed

lemma aggregated_ok:
  assumes "aggregated es name tuned budget cap_hint stale = Inr s" "0 \<le> stale"
  shows "sd_ok s"
proof -
  let ?es = "agg_entries cap_hint es"
  let ?r = "foldl (\<lambda>r w. register w r) (registry_new stale) (map fst ?es)"
  have ne: "es \<noteq> []" and s: "sd_router s = router_new ?r tuned" "sd_workers s = foldl (\<lambda>m (st, w). hm_insert (ws_id st) w m) [] ?es"
    using assms(1) by (auto simp: aggregated_def Let_def split: if_splits)
  have ws: "dom (hm_get (foldl (\<lambda>m (st, w). hm_insert (ws_id st) w m) m xs)) = dom (hm_get m) \<union> (\<lambda>(st, w). ws_id st) ` set xs" for m xs
    by (induction xs arbitrary: m) (auto simp: hm_simps)
  have "registry_wf ?r" by (rule register_fold_wf) (simp add: registry_wf_def registry_new_def)
  moreover have "stale_after_ms ?r = stale" by (simp add: register_fold_stale registry_new_def)
  moreover have "dom (hm_get (registered ?r)) = (\<lambda>(st, w). ws_id st) ` set ?es"
    by (simp add: register_fold_dom registry_new_def image_image case_prod_unfold)
  moreover have "\<exists>i v. hm_get (registered ?r) i = Some v \<and> role v = ro" for ro
  proof -
    let ?off = "case ro of PrefillRole \<Rightarrow> 0 | DecodeRole \<Rightarrow> 1"
    have parity: "role st = ro \<longleftrightarrow> even (ws_id st) = (ro = PrefillRole)" if "(st, w) \<in> set ?es" for st w
      using that by (cases ro) (auto simp: agg_entries_def agg_roles_def agg_entry_def agg_id_parity)
    obtain e where e: "(0, e) \<in> set (List.enumerate 0 es)" using ne by (cases es) auto
    have "(agg_entry cap_hint 0 e (?off, ro), \<lparr>slot = 0, sw_endpoint = e\<rparr>) \<in> set ?es"
      unfolding agg_entries_def using e by (cases ro) (force simp: agg_roles_def)+
    then have "?off \<in> (\<lambda>(st, w). ws_id st) ` set ?es" by (cases ro) (force simp: agg_entry_def agg_id_def)+
    then obtain v where v: "hm_get (registered ?r) ?off = Some v" using \<open>dom (hm_get (registered ?r)) = _\<close> by blast
    have "v \<in> set (map fst ?es)" using register_fold_all [OF v] by (simp add: registry_new_def)
    then obtain w where "(v, w) \<in> set ?es" by auto
    moreover have "ws_id v = ?off" using \<open>registry_wf ?r\<close> v by (simp add: registry_wf_def)
    ultimately have "role v = ro" using parity [of v w] by (cases ro) auto
    then show ?thesis using v by blast
  qed
  ultimately show ?thesis using s assms(2) ws [of "[]" ?es] by (simp add: sd_ok_def router_new_def router_inv_def radix_new_inv)
qed

text \<open>Whatever state the deployment is in, a request finds a process to run on.\<close>

lemma generate_cases:
  assumes "sd_ok s"
  obtains (started) t s' where "serving_generate pj serve now r s = Some (Inr t, s')" "sd_ok s'"
      "observed_of s' = (observed_of s)(tk_slot t := (observed_of s (tk_slot t))\<lparr>inflight := inflight (observed_of s (tk_slot t)) + 1\<rparr>)"
  | (failed) e s' where "serving_generate pj serve now r s = Some (Inl (Engine (''transport: '' @ transport_error_str e)), s')" "sd_ok s'"
      "observed_of s' = observed_of s"
proof -
  let ?s = "refresh_load now s"
  obtain d w where r: "sd_ok ?s" "route (sd_router ?s) (gr_prompt r) now (ttft_budget_ms ?s) = Some (Inr d)" "hm_get (sd_workers s) (rd_decode d) = Some w"
    using refreshed [OF assms, of now "gr_prompt r" "ttft_budget_ms ?s"] by blast
  have w: "hm_get (sd_workers ?s) (rd_decode d) = Some w" "ttft_budget_ms ?s = ttft_budget_ms s" using r(3) by (simp_all add: refresh_load_def)
  have obs: "observed_of (?s\<lparr>sd_next_id := n\<rparr>) = observed_of s" for n by (rule ext) (simp add: observed_of_def refresh_load_def)
  let ?n = "snd (next_id (sd_next_id ?s))"
  let ?st = "start (http_ops pj serve) (Inr (http_open (factory_url (sw_endpoint w)))) (core_request (fst (next_id (sd_next_id ?s))) (ttft_budget_ms ?s) r)"
  have g: "serving_generate pj serve now r s = (case ?st of
      Inl e \<Rightarrow> Some (Inl (Engine (''transport: '' @ transport_error_str e)), ?s\<lparr>sd_next_id := ?n\<rparr>)
    | Inr st \<Rightarrow> Some (Inr \<lparr>tk_slot = slot w, tk_stream = st, tk_last_token_ms = None\<rparr>,
        observe_slot (slot w) (\<lambda>o'. o'\<lparr>inflight := inflight o' + 1\<rparr>) (?s\<lparr>sd_next_id := ?n\<rparr>)))"
    using r(2) w(1) by (simp add: serving_generate_def Let_def case_prod_unfold)
  show ?thesis
  proof (cases ?st)
    case (Inl e)
    show ?thesis by (rule failed [of e "?s\<lparr>sd_next_id := ?n\<rparr>"]) (use g Inl r(1) obs in simp_all)
  next
    case (Inr st)
    show ?thesis
      by (rule started [of "\<lparr>tk_slot = slot w, tk_stream = st, tk_last_token_ms = None\<rparr>"
            "observe_slot (slot w) (\<lambda>o'. o'\<lparr>inflight := inflight o' + 1\<rparr>) (?s\<lparr>sd_next_id := ?n\<rparr>)"])
        (use g Inr r(1) obs in simp_all)
  qed
qed

subsection \<open>Tasks\<close>

lemma note_gap_inflight [simp]: "inflight (note_gap p now o') = inflight o'"
  by (simp add: note_gap_def Let_def split: option.split)

lemma relay_step_ends:
  assumes "relay_step pj serve now l t s = (c, None, s')"
  shows "(sd_ok s' = sd_ok s) \<and> inflight \<circ> observed_of s' = (inflight \<circ> observed_of s)(tk_slot t := inflight (observed_of s (tk_slot t)) - 1)"
  using assms unfolding relay_step_def close_slot_def Let_def
  by (auto simp: fun_eq_iff split: prod.splits sum.splits option.splits stream_output.splits if_splits)

lemma relay_step_goes_on:
  assumes "relay_step pj serve now l t s = (c, Some t', s')"
  shows "(sd_ok s' = sd_ok s) \<and> inflight \<circ> observed_of s' = inflight \<circ> observed_of s \<and> tk_slot t' = tk_slot t"
  using assms unfolding relay_step_def Let_def
  by (auto simp: fun_eq_iff split: prod.splits sum.splits option.splits stream_output.splits if_splits)

text \<open>Any interleaving of arrivals and of the tasks' iterations.\<close>

inductive serving_step :: "(string \<Rightarrow> string + json) \<Rightarrow> 'x http_server \<Rightarrow> serving_deployment \<times> 'x relay_task list \<Rightarrow>
    serving_deployment \<times> 'x relay_task list \<Rightarrow> bool" for pj serve where
  sv_generate: "serving_generate pj serve now r s = Some (Inr t, s') \<Longrightarrow> serving_step pj serve (s, ts) (s', ts @ [t])"
| sv_refuse: "serving_generate pj serve now r s = Some (Inl e, s') \<Longrightarrow> serving_step pj serve (s, ts) (s', ts)"
| sv_go_on: "i < length ts \<Longrightarrow> relay_step pj serve now l (ts ! i) s = (c, Some t, s') \<Longrightarrow> serving_step pj serve (s, ts) (s', ts[i := t])"
| sv_end: "i < length ts \<Longrightarrow> relay_step pj serve now l (ts ! i) s = (c, None, s') \<Longrightarrow> serving_step pj serve (s, ts) (s', take i ts @ drop (Suc i) ts)"

inductive_cases serving_stepE: "serving_step pj serve x y"

definition serving_init :: "serving_deployment \<times> 'x relay_task list \<Rightarrow> bool" where
  "serving_init x \<longleftrightarrow> snd x = [] \<and> (\<exists>es name tuned budget cap_hint stale. 0 \<le> stale
     \<and> aggregated es name tuned budget cap_hint stale = Inr (fst x))"

definition tasks_on :: "nat \<Rightarrow> 'x relay_task list \<Rightarrow> nat" where
  "tasks_on i ts = length (filter (\<lambda>t. tk_slot t = i) ts)"

definition serving_ok :: "serving_deployment \<times> 'x relay_task list \<Rightarrow> bool" where
  "serving_ok x \<longleftrightarrow> sd_ok (fst x) \<and> (\<forall>i. inflight (observed_of (fst x) i) = tasks_on i (snd x))"

lemma tasks_on_remove:
  assumes "j < length ts"
  shows "tasks_on i ts = tasks_on i (take j ts @ drop (Suc j) ts) + (if tk_slot (ts ! j) = i then 1 else 0)"
  unfolding tasks_on_def by (subst id_take_nth_drop [OF assms]) simp

lemma tasks_on_update: "j < length ts \<Longrightarrow> tk_slot t = tk_slot (ts ! j) \<Longrightarrow> tasks_on i (ts[j := t]) = tasks_on i ts"
  using tasks_on_remove [of j ts i] by (simp add: tasks_on_def upd_conv_take_nth_drop)

lemma serving_step_ok:
  assumes "serving_ok x" "serving_step pj serve x y"
  shows "serving_ok y"
  using assms(2)
proof cases
  case (sv_generate now r s t s' ts)
  have "sd_ok s" using assms(1) sv_generate by (simp add: serving_ok_def)
  then show ?thesis using assms(1) sv_generate by (cases rule: generate_cases [of s pj serve now r]) (auto simp: serving_ok_def tasks_on_def)
next
  case (sv_refuse now r s e s' ts)
  have "sd_ok s" using assms(1) sv_refuse by (simp add: serving_ok_def)
  then show ?thesis using assms(1) sv_refuse by (cases rule: generate_cases [of s pj serve now r]) (auto simp: serving_ok_def)
next
  case (sv_go_on i ts now l s c t s')
  have g: "inflight (observed_of s' k) = inflight (observed_of s k)" for k
    using relay_step_goes_on [OF sv_go_on(4)] by (auto simp: fun_eq_iff)
  show ?thesis using relay_step_goes_on [OF sv_go_on(4)] assms(1) sv_go_on(1-3) g by (simp add: serving_ok_def tasks_on_update)
next
  case (sv_end i ts now l s c s')
  have "inflight (observed_of s' k) = tasks_on k (take i ts @ drop (Suc i) ts)" for k
    using relay_step_ends [OF sv_end(4)] tasks_on_remove [OF sv_end(3), of k] assms(1) sv_end(1) by (auto simp: serving_ok_def fun_eq_iff)
  then show ?thesis using relay_step_ends [OF sv_end(4)] assms(1) sv_end(1,2) by (simp add: serving_ok_def)
qed

lemma serving_init_ok:
  assumes "serving_init x"
  shows "serving_ok x"
proof -
  obtain s es name tuned budget cap_hint stale where
    x: "x = (s, [])" and a: "0 \<le> stale" "aggregated es name tuned budget cap_hint stale = Inr s"
    using assms by (cases x) (auto simp: serving_init_def)
  have "hm_get (map (\<lambda>(i, _). (i, no_observation)) xs) k \<in> {None, Some no_observation}" for xs :: "(nat \<times> string) list" and k
    by (induction xs) auto
  moreover have "sd_observed s = map (\<lambda>(i, _). (i, no_observation)) (List.enumerate 0 es)"
    using a(2) by (auto simp: aggregated_def Let_def split: if_splits)
  ultimately have "observed_of s k = no_observation" for k unfolding observed_of_def by (metis empty_iff insert_iff option.case)
  then show ?thesis using aggregated_ok [OF a(2,1)] x by (simp add: serving_ok_def tasks_on_def no_observation_def)
qed

interpretation serving_sys: invariant_system serving_init "serving_step pj serve" serving_ok
  by unfold_locales (auto intro: serving_init_ok serving_step_ok)

subsection \<open>What a client receives\<close>

fun chunks_of :: "stream_result list \<Rightarrow> stream_chunk list" where
  "chunks_of [] = []"
| "chunks_of (Inr (Some (Token tok w)) # rs) = TokenChunk tok w # chunks_of rs"
| "chunks_of (Inr (Some (Terminal reason)) # rs) = [DoneChunk (leak_reason reason)]"
| "chunks_of (Inr None # rs) = []"
| "chunks_of (Inl e # rs) = [ErrorChunk (transport_error_str e)]"

fun stream_over :: "stream_result list \<Rightarrow> bool" where
  "stream_over [] = False"
| "stream_over (Inr (Some (Token tok w)) # rs) = stream_over rs"
| "stream_over (_ # rs) = True"

text \<open>While the client listens, a task hands on what the stream returns.\<close>

lemma relay_results:
  fixes t :: "'x relay_task"
  shows "fst (relay pj serve (map (\<lambda>now. (now, True)) ts) t s) = chunks_of (fst (stream_calls (http_ops pj serve) pj (map NextAt ts) (tk_stream t)))
    \<and> (fst (snd (relay pj serve (map (\<lambda>now. (now, True)) ts) t s)) = None)
        = stream_over (fst (stream_calls (http_ops pj serve) pj (map NextAt ts) (tk_stream t)))"
proof (induction ts arbitrary: t s)
  case (Cons now ts)
  obtain r st where n: "next_at (http_ops pj serve) pj now (tk_stream t) = (r, st)" by fastforce
  show ?case
  proof (cases r)
    case (Inl e)
    then show ?thesis using n by (simp add: relay_step_def Let_def case_prod_unfold)
  next
    case (Inr o')
    show ?thesis
    proof (cases o')
      case None
      then show ?thesis using n Inr by (simp add: relay_step_def Let_def case_prod_unfold)
    next
      case (Some out)
      show ?thesis
      proof (cases out)
        case (Token tok w)
        let ?t = "t\<lparr>tk_stream := st, tk_last_token_ms := Some now\<rparr>"
        let ?s = "observe_slot (tk_slot t) (note_gap (tk_last_token_ms t) now) s"
        have "relay_step pj serve now True t s = ([TokenChunk tok w], Some ?t, ?s)" using n Inr Some Token by (simp add: relay_step_def Let_def)
        then show ?thesis using Cons.IH [of ?t ?s] n Inr Some Token by (simp add: case_prod_unfold)
      next
        case (Terminal reason)
        then show ?thesis using n Inr Some by (simp add: relay_step_def Let_def case_prod_unfold)
      qed
    qed
  qed
qed simp

lemma relay_step_chunks:
  assumes "relay_step pj serve now l t s = (c, t', s')"
  shows "c = [] \<or> (t' \<noteq> None \<and> (\<exists>tok w. c = [TokenChunk tok w])) \<or> (t' = None \<and> (\<exists>m. c = [DoneChunk m] \<or> c = [ErrorChunk m]))"
  using assms unfolding relay_step_def Let_def
  by (auto split: prod.splits sum.splits option.splits stream_output.splits if_splits)

lemma relay_chunks_wf: "chunks_wf (fst (relay pj serve its t s))"
proof (induction its arbitrary: t s)
  case (Cons it its)
  obtain now l where it: "it = (now, l)" by (cases it)
  obtain c t' s' where r: "relay_step pj serve now l t s = (c, t', s')" by (metis prod_cases3)
  note C = relay_step_chunks [OF r]
  show ?case
  proof (cases t')
    case None
    then show ?thesis using r it C by auto
  next
    case (Some t1)
    then show ?thesis using r it C Cons.IH [of t1 s'] by (auto simp: case_prod_unfold)
  qed
qed simp

text \<open>What the frontend asks of a backend holds for every task, whenever its client stops listening.\<close>

interpretation relayed: completions_contract
  "\<lambda>(pj, serve :: 'x http_server, its, t, s). fst (relay pj serve its t s)"
  by unfold_locales (auto intro: relay_chunks_wf)

text \<open>C10. Load is measured, and measured right. In every state an aggregated deployment reaches, whatever the order in which
  requests arrive and streams advance, fail or lose their client, the in-flight count that the router sees for a process
  is exactly the number of streams open to it (below \<open>2 ^ 32\<close>, where the code's counter is exact); and a request is never refused for
  lack of a worker: it starts on a process or the transport failed.\<close>

theorem load_counts_open_streams:
  assumes "serving_init x0" "(serving_step pj serve)\<^sup>*\<^sup>* x0 (s, ts)"
  shows "(\<forall>i. inflight (observed_of s i) = tasks_on i ts)
    \<and> (\<exists>r' s'. serving_generate pj serve now r s = Some (r', s')
        \<and> (\<forall>e. r' = Inl e \<longrightarrow> (\<exists>te. e = Engine (''transport: '' @ transport_error_str te))))"
proof -
  have ok: "serving_ok (s, ts)" by (rule serving_sys.reachable_inv [OF assms])
  then have "sd_ok s" by (simp add: serving_ok_def)
  then have "\<exists>r' s'. serving_generate pj serve now r s = Some (r', s')
      \<and> (\<forall>e. r' = Inl e \<longrightarrow> (\<exists>te. e = Engine (''transport: '' @ transport_error_str te)))"
    by (cases rule: generate_cases [of s pj serve now r]) auto
  then show ?thesis using ok by (simp add: serving_ok_def)
qed

text \<open>What a client gets of a task that relays one frame per token and a frame with the reason.\<close>

lemma completed_answer:
  assumes "serve url (from_request r) = Streaming (map Inr cs)"
    and "concat cs = server_bytes (map fst toks @ [fin])"
    and "\<forall>(d, tok, w) \<in> set toks. payload_line d \<and> pj d = Inr (token_json tok w)"
    and "payload_line fin" "pj fin = Inr (finish_json reason)"
    and "length reads = length toks"
    and "start (http_ops pj serve) (Inr (http_open url)) r = Inr (tk_stream t)"
    and small: "length toks + n < 2 ^ 32"
  shows "collect_response rid created model n (fst (relay pj serve (map (\<lambda>now. (now, True)) (reads @ [now])) t s))
    = Completion \<lparr>cr_id = request_id_str rid, cr_object = ''chat.completion'', cr_created = created, cr_model = model,
        cr_choices = [\<lparr>cc_index = 0, cc_role = ''assistant'', cc_content = concat (map (\<lambda>(_, _, w). w) toks),
          cc_finish_reason = leak_reason reason\<rparr>],
        cr_usage = \<lparr>us_prompt_tokens = n, us_completion_tokens = length toks, us_total_tokens = n + length toks\<rparr>\<rparr>"
proof -
  let ?cs = "map (\<lambda>(_ :: bytes, tok, w). TokenChunk tok w) toks @ [DoneChunk (leak_reason reason)]"
  have "chunks_of (map (\<lambda>(_ :: bytes, tok, w). Inr (Some (Token tok w))) xs @ [Inr (Some (Terminal reason))])
      = map (\<lambda>(_, tok, w). TokenChunk tok w) xs @ [DoneChunk (leak_reason reason)]" for xs by (induction xs) auto
  then have cs: "fst (relay pj serve (map (\<lambda>now. (now, True)) (reads @ [now])) t s) = ?cs"
    using relay_results [of pj serve "reads @ [now]" t s] delivered_results [OF assms(1-7), of now] by (simp only: fst_conv)
  have e: "ending ?cs = Inr (leak_reason reason)" "token_chunks ?cs = map (\<lambda>(_, tok, w). TokenChunk tok w) toks"
    "map chunk_text ?cs = map (\<lambda>(_, _, w). w) toks @ [[]]"
    by (induction toks) (auto simp: token_chunks_def)
  have "collect ?cs [] 0 = Inr (concat (map (\<lambda>(_, _, w). w) toks), length toks mod 2 ^ 32, leak_reason reason)"
    using relayed.all_text_is_collected [of "(pj, serve, map (\<lambda>now. (now, True)) (reads @ [now]), t, s)"]
    unfolding prod.case cs e by simp
  then show ?thesis unfolding cs collect_response_def using small by (simp add: add.commute)
qed

subsection \<open>A concrete exchange\<close>

definition demo_fleet :: serving_deployment where
  "demo_fleet = projr (aggregated [''u'', ''v''] ''m'' default_router_tuning 3000 40 60000)"

lemma demo_fleet_init: "serving_init (demo_fleet, [])"
proof -
  have "aggregated [''u'', ''v''] ''m'' default_router_tuning 3000 40 60000 = Inr demo_fleet"
    by (simp add: demo_fleet_def aggregated_def Let_def)
  moreover have "(0 :: real) \<le> 60000" by simp
  ultimately show ?thesis unfolding serving_init_def by (metis fst_conv snd_conv)
qed

theorem load_counts_open_streams_witness:
  "\<exists>r' s'. serving_generate demo_parse demo_serve 0
      \<lparr>gr_id = 1, gr_prompt = [1], gr_prompt_text = ''x'', gr_params = default_params (), gr_arrival_ms = 0, gr_stream = False\<rparr>
      demo_fleet = Some (r', s')"
  using load_counts_open_streams [OF demo_fleet_init rtranclp.rtrancl_refl] by blast

end
