(* ===== verification/Tokenizers.thy ===== *)
theory Tokenizers
  imports Wire_Sse Block_Pool
begin

text \<open>
  \<open>crates/worker/src/tokenizer.rs\<close>: the tokenizer interface, the byte-level stand-in and the model's own tokenizer.

  Strings are their UTF-8 bytes, so what Rust's type \<open>String\<close> guarantees, valid UTF-8, is something to prove here. The
  \<open>tokenizers\<close> crate is a parameter: a file loads as an encoder and a decoder, both of which can fail.
\<close>

text \<open>The trait \<open>Tokenizer\<close>.\<close>

record tokenizer =
  tok_encode :: "string \<Rightarrow> token_id list"
  tok_decode :: "token_id list \<Rightarrow> string"
  tok_name :: string

subsection \<open>The byte-level stand-in\<close>

definition SPECIAL_OFFSET :: token_id where
  "SPECIAL_OFFSET = 256"

definition synthetic_encode :: "string \<Rightarrow> token_id list" where
  "synthetic_encode text' = map (\<lambda>b. of_nat (of_char b) + SPECIAL_OFFSET) text'"

definition REPLACEMENT :: bytes where
  "REPLACEMENT = map char_of [0xEF :: nat, 0xBF, 0xBD]"

text \<open>\<open>String::from_utf8_lossy\<close>: one replacement character for every maximal invalid piece.\<close>

function from_utf8_lossy :: "bytes \<Rightarrow> bytes" where
  "from_utf8_lossy bs =
    (if bs = [] then []
     else case utf8_first bs of
       Inl None \<Rightarrow> REPLACEMENT
     | Inl (Some n) \<Rightarrow> REPLACEMENT @ (if n = 0 then [] else from_utf8_lossy (drop n bs))
     | Inr w \<Rightarrow> if w = 0 then [] else take w bs @ from_utf8_lossy (drop w bs))"
  by pat_completeness auto
termination by (relation "measure length") auto

declare from_utf8_lossy.simps [simp del]

definition synthetic_decode :: "token_id list \<Rightarrow> string" where
  "synthetic_decode ts = from_utf8_lossy (map char_of (filter (\<lambda>n. n \<le> 255) (map (\<lambda>t. unat t - unat SPECIAL_OFFSET) ts)))"

definition synthetic_tokenizer :: tokenizer where
  "synthetic_tokenizer = \<lparr>tok_encode = synthetic_encode, tok_decode = synthetic_decode, tok_name = ''synthetic-byte''\<rparr>"

subsection \<open>The model's own tokenizer\<close>

text \<open>\<open>tokenizers::Tokenizer\<close>: the second argument of both says what to do with special tokens.\<close>

record hf_library =
  lib_encode :: "string \<Rightarrow> bool \<Rightarrow> string + token_id list"
  lib_decode :: "token_id list \<Rightarrow> bool \<Rightarrow> string + string"

record hf_tokenizer =
  hf_inner :: hf_library
  hf_name :: string

definition hf_from_file :: "(string \<Rightarrow> string + hf_library) \<Rightarrow> string \<Rightarrow> error + hf_tokenizer" where
  "hf_from_file load_file path = (case load_file path of
     Inl e \<Rightarrow> Inl (Engine (''loading tokenizer '' @ path @ '': '' @ e))
   | Inr inner \<Rightarrow> Inr \<lparr>hf_inner = inner, hf_name = path\<rparr>)"

definition hf_encode :: "hf_tokenizer \<Rightarrow> string \<Rightarrow> token_id list" where
  "hf_encode h body_text = (case lib_encode (hf_inner h) body_text False of Inr ids \<Rightarrow> ids | Inl e \<Rightarrow> [])"

definition hf_decode :: "hf_tokenizer \<Rightarrow> token_id list \<Rightarrow> string" where
  "hf_decode h ts = (case lib_decode (hf_inner h) ts False of Inr body_text \<Rightarrow> body_text | Inl e \<Rightarrow> [])"

definition hf_as_tokenizer :: "hf_tokenizer \<Rightarrow> tokenizer" where
  "hf_as_tokenizer h = \<lparr>tok_encode = hf_encode h, tok_decode = hf_decode h, tok_name = hf_name h\<rparr>"

text \<open>What the type \<open>String\<close> says of the library's answers.\<close>

definition hf_typed :: "hf_library \<Rightarrow> bool" where
  "hf_typed lib \<longleftrightarrow> (\<forall>ts skip body_text. lib_decode lib ts skip = Inr body_text \<longrightarrow> utf8_valid body_text)"

subsection \<open>Decoded text is valid\<close>

lemma utf8_nil [simp]: "utf8_valid []"
  by (simp add: utf8_valid_def utf8_check.simps)

lemma replacement_valid: "utf8_valid REPLACEMENT"
  by (simp add: REPLACEMENT_def utf8_valid_def utf8_check.simps utf8_first_def char_width_def byte_in_def second_ok_def is_cont_def)

lemma utf8_first_shapes:
  assumes "utf8_first bs = Inr w" "bs \<noteq> []"
  obtains b r where "bs = b # r" "w = 1" "char_width b = 1"
  | b c r where "bs = b # c # r" "w = 2" "char_width b = 2" "second_ok b c"
  | b c d r where "bs = b # c # d # r" "w = 3" "char_width b = 3" "second_ok b c" "is_cont d"
  | b c d e r where "bs = b # c # d # e # r" "w = 4" "char_width b \<notin> {0, 1, 2, 3}" "second_ok b c" "is_cont d" "is_cont e"
  using assms by (auto simp: utf8_first_def Let_def split: list.splits if_splits)

lemma first_char_valid:
  assumes "utf8_first bs = Inr w" "bs \<noteq> []"
  shows "utf8_valid (take w bs)"
proof -
  have w: "0 < w" "w \<le> length bs" using utf8_first_width [OF assms] by auto
  have "utf8_first (take w bs) = Inr w"
    by (rule utf8_first_shapes [OF assms]) (simp_all add: utf8_first_def)
  then show ?thesis using w by (simp add: utf8_valid_def utf8_check.simps [of 0 "take w bs"] utf8_check.simps [of w "[]"])
qed

lemma lossy_is_valid: "utf8_valid (from_utf8_lossy bs)"
proof (induction bs rule: from_utf8_lossy.induct)
  case (1 bs)
  show ?case
  proof (cases "utf8_first bs")
    case (Inl e)
    then show ?thesis using 1(1) replacement_valid
      by (cases e) (auto simp: from_utf8_lossy.simps [of bs] intro: utf8_valid_append)
  next
    case (Inr w)
    then show ?thesis using 1(2) first_char_valid
      by (auto simp: from_utf8_lossy.simps [of bs] intro: utf8_valid_append)
  qed
qed

text \<open>The contract of a decoder, and what a client that joins decoded pieces can rely on.\<close>

locale text_source =
  fixes decode :: "token_id list \<Rightarrow> string"
  assumes decoded_valid: "utf8_valid (decode ts)"
begin

lemma pieces_valid: "utf8_valid (concat (map decode tss))"
  by (induction tss) (auto intro: utf8_valid_append decoded_valid)

end

interpretation synthetic: text_source synthetic_decode
  by unfold_locales (simp add: synthetic_decode_def lossy_is_valid)

lemma hf_decode_valid: "hf_typed (hf_inner h) \<Longrightarrow> utf8_valid (hf_decode h ts)"
  by (auto simp: hf_decode_def hf_typed_def split: sum.split)

text \<open>The tokenizers a deployment can be built with.\<close>

definition tokenizer_of_crate :: "tokenizer \<Rightarrow> bool" where
  "tokenizer_of_crate t \<longleftrightarrow> t = synthetic_tokenizer \<or> (\<exists>h. t = hf_as_tokenizer h \<and> hf_typed (hf_inner h))"

lemma crate_decodes_valid: "tokenizer_of_crate t \<Longrightarrow> utf8_valid (tok_decode t ts)"
  by (auto simp: tokenizer_of_crate_def synthetic_tokenizer_def hf_as_tokenizer_def synthetic.decoded_valid hf_decode_valid)

subsection \<open>Round trips\<close>

lemma lossy_valid: "utf8_check pos bs = None \<Longrightarrow> from_utf8_lossy bs = bs"
proof (induction pos bs rule: utf8_check.induct)
  case (1 pos bs)
  show ?case
  proof (cases "bs = []")
    case False
    then obtain w where w: "utf8_first bs = Inr w" "w \<noteq> 0" "utf8_check (pos + w) (drop w bs) = None"
      using 1(2) utf8_check.simps [of pos bs] by (auto split: sum.splits if_splits)
    then show ?thesis using 1(1) False by (subst from_utf8_lossy.simps) simp
  qed (simp add: from_utf8_lossy.simps)
qed

lemma nat_of_char_le_255: "of_char c \<le> (255 :: nat)"
  using nat_of_char_less_256 [of c] by linarith

lemma encoded_byte: "unat (of_nat (of_char b) + SPECIAL_OFFSET) - unat SPECIAL_OFFSET = of_char b"
proof -
  have b: "of_char b < (256 :: nat)" by (rule nat_of_char_less_256)
  then have "of_char b < (2 :: nat) ^ LENGTH(32)" by (rule order_less_trans) simp
  then have u: "unat (of_nat (of_char b) :: token_id) = of_char b" by (simp only: unat_of_nat mod_less)
  have "unat (of_nat (of_char b) + SPECIAL_OFFSET) = of_char b + unat SPECIAL_OFFSET"
    using unat_add_lem [of "of_nat (of_char b) :: token_id" SPECIAL_OFFSET] b by (simp add: u SPECIAL_OFFSET_def)
  then show ?thesis by simp
qed

lemma decode_encoded: "synthetic_decode (synthetic_encode s) = from_utf8_lossy s"
proof -
  have "map (\<lambda>t. unat t - unat SPECIAL_OFFSET) (synthetic_encode s) = map of_char s"
    unfolding synthetic_encode_def map_map comp_def encoded_byte ..
  moreover have "filter (\<lambda>n. n \<le> 255) (map of_char s) = (map of_char s :: nat list)"
    using nat_of_char_less_256 by (intro filter_True) (auto simp: nat_of_char_le_255)
  ultimately show ?thesis by (simp add: synthetic_decode_def comp_def)
qed

text \<open>Encoding and then decoding a string gives it back, and the byte-level tokenizer makes one token of every byte.\<close>

theorem synthetic_round_trip:
  assumes "utf8_valid s"
  shows "synthetic_decode (synthetic_encode s) = s \<and> length (synthetic_encode s) = length s"
  using assms lossy_valid [of 0 s] by (simp add: decode_encoded utf8_valid_def) (simp add: synthetic_encode_def)

theorem synthetic_round_trip_witness: "synthetic_decode (synthetic_encode ''caf'') = ''caf''"
  using synthetic_round_trip [of "''caf''"]
  by (simp add: utf8_valid_def utf8_check.simps utf8_first_def char_width_def byte_in_def)

text \<open>A character of several bytes survives only when its tokens are decoded together. The deployments decode one token at a time, so with the
  stand-in a client gets one replacement character for every byte of it.\<close>

theorem token_by_token_loses_characters:
  "\<exists>s. utf8_valid s \<and> synthetic_decode (synthetic_encode s) = s
     \<and> concat (map (\<lambda>t. synthetic_decode [t]) (synthetic_encode s)) = REPLACEMENT @ REPLACEMENT"
proof -
  let ?s = "map char_of [0xC3 :: nat, 0xA9]"
  have v: "utf8_valid ?s"
    by (simp add: utf8_valid_def utf8_check.simps utf8_first_def char_width_def byte_in_def second_ok_def is_cont_def)
  have "synthetic_decode [0x1C3] = REPLACEMENT" "synthetic_decode [0x1A9] = REPLACEMENT"
    by (simp_all add: synthetic_decode_def SPECIAL_OFFSET_def from_utf8_lossy.simps utf8_first_def char_width_def byte_in_def)
  moreover have "synthetic_encode ?s = [0x1C3, 0x1A9]" by (simp add: synthetic_encode_def SPECIAL_OFFSET_def)
  ultimately show ?thesis using v synthetic_round_trip [OF v] by (intro exI [of _ ?s]) simp
qed

end
