(* ===== verification/In_Process.thy ===== *)
theory In_Process
  imports Frontend Tokenizers Prefill_Worker Decode_Worker Fleet Deployment_Config
begin

text \<open>
  \<open>crates/worker/src/deployment.rs\<close>: a router, prefill workers and decode workers in one process, joined by
  channels.

  Every task is a source of steps: a request comes in, a worker takes a job from its channel or does a turn of its loop, a
  pump moves one message, loads are reported, a client hangs up, a worker's task ends. A channel is the list of the
  messages in it; its depth of 4096 only delays a sender and is left out. \<open>mail\<close> holds what each client has been
  sent. Engines and the tokenizer are parameters.

  Handling one message is one step. The code gives way to other tasks while it waits to send, so between a pump's look at the table of requests
  and its removal of an entry another pump may run. Each pump handles its own messages in order, and the pump of decode tokens has
  something to say about a request only after the pump of prefill completions has handed it on; the finer interleavings differ from
  the ones here only when an engine finishes the prefill of a request a second time while it is being decoded, or decodes a request it was not given.
\<close>

subsection \<open>State\<close>

definition DEP_DECODE_ID_BASE :: nat where
  "DEP_DECODE_ID_BASE = 1000"

record inflight_entry =
  if_decode_worker :: nat
  if_max_tokens :: nat

record 'e deployment =
  dp_cfg :: config
  dp_router :: router
  dp_prefill :: "'e prefill_worker list"
  dp_decode :: "'e decode_worker list"
  prefill_jobs :: "prefill_job list list"
  decode_jobs :: "decode_admit list list"
  prefill_gone :: "bool list"
  decode_gone :: "bool list"
  pdone :: "prefill_complete list"
  devents :: "decode_event list"
  dp_inflight :: "(request_id, inflight_entry) hmap"
  mail :: "(request_id, stream_chunk list) hmap"
  hung_up :: "request_id list"

definition per_worker_rate :: "config \<Rightarrow> real" where
  "per_worker_rate c = tok_s_per_gpu_at_tp (cal_prefill (calibration c)) (tc_prefill_tp (cfg_topology c))
     * real (tc_prefill_tp (cfg_topology c)) / 1000"

definition dep_initial_cap :: "config \<Rightarrow> real" where
  "dep_initial_cap c = concurrency_per_gpu (cal_decode (calibration c)) * real (tc_decode_tp (cfg_topology c))"

definition spawn_prefill :: "config \<Rightarrow> nat \<times> 'e \<Rightarrow> 'e prefill_worker" where
  "spawn_prefill c ie = prefill_worker_new (fst ie) (snd ie)
     \<lparr>chunk_tokens = chunked_prefill_tokens (scheduler c), max_seqs = max_prefill_seqs (scheduler c),
      policy = sc_prefill_policy (scheduler c), demote_hopeless = sc_demote_hopeless (scheduler c),
      tokens_per_ms = per_worker_rate c, rate_alpha = 1 / 5\<rparr>
     (kc_num_blocks (kv c)) (kc_block_size (kv c)) (admission_watermark (kv c))"

definition spawn_decode :: "config \<Rightarrow> itl_controller \<Rightarrow> nat \<times> 'e \<Rightarrow> 'e decode_worker" where
  "spawn_decode c ctl je =
    (let d = decode_new (slo_itl_ms (cfg_slo c)) ctl; sp = speculation_cfg (cfg_engine c);
         d' = (if spec_enabled sp then set_tokens_per_step d ((1 + spec_draft_tokens sp) mod 2 ^ 32) else d)
     in decode_worker_new (DEP_DECODE_ID_BASE + fst je) (snd je) d' (kc_num_blocks (kv c)) (kc_block_size (kv c)) (admission_watermark (kv c)))"

definition inproc_prefill :: "config \<Rightarrow> 'e prefill_worker \<Rightarrow> worker_state" where
  "inproc_prefill c w = \<lparr>ws_id = pw_id w, role = PrefillRole, endpoint = ''inproc://prefill/'' @ worker_id_str (pw_id w),
     tensor_parallel = tc_prefill_tp (cfg_topology c), healthy = True,
     load = default_load\<lparr>wl_tokens_per_ms := per_worker_rate c, updated_ms := 0\<rparr>\<rparr>"

definition inproc_decode :: "config \<Rightarrow> 'e decode_worker \<Rightarrow> worker_state" where
  "inproc_decode c w = \<lparr>ws_id = dw_id w, role = DecodeRole, endpoint = ''inproc://decode/'' @ worker_id_str (dw_id w),
     tensor_parallel = tc_decode_tp (cfg_topology c), healthy = True,
     load = default_load\<lparr>decode_cap := dep_initial_cap c, updated_ms := 0\<rparr>\<rparr>"

text \<open>\<open>None\<close> is the panic of the controller's clamp between 8 and a smaller maximum.\<close>

definition dep_spawn :: "config \<Rightarrow> 'e list \<Rightarrow> 'e list \<Rightarrow> (error + 'e deployment) option" where
  "dep_spawn c pes des =
    (case config_validate c of Inl e \<Rightarrow> Some (Inl e)
     | Inr _ \<Rightarrow>
        if pes = [] \<or> des = [] then Some (Inl (Config ''need at least one prefill and one decode engine''))
        else case itl_new (slo_itl_ms (cfg_slo c) * sc_itl_safety (scheduler c)) (dep_initial_cap c) 8 (real (max_decode_seqs (scheduler c))) of
          None \<Rightarrow> None
        | Some ctl \<Rightarrow>
           let ps = map (spawn_prefill c) (List.enumerate 0 pes); ds = map (spawn_decode c ctl) (List.enumerate 0 des);
               reg = foldl (\<lambda>r w. register w r) (registry_new 60000) (map (inproc_prefill c) ps @ map (inproc_decode c) ds)
           in Some (Inr \<lparr>dp_cfg = c, dp_router = router_new reg (default_router_tuning\<lparr>default_tokens_per_ms := per_worker_rate c\<rparr>),
                dp_prefill = ps, dp_decode = ds, prefill_jobs = replicate (length ps) [], decode_jobs = replicate (length ds) [],
                prefill_gone = replicate (length ps) False, decode_gone = replicate (length ds) False,
                pdone = [], devents = [], dp_inflight = [], mail = [], hung_up = []\<rparr>))"

definition snapshot :: "'e deployment \<Rightarrow> (string \<times> real) list" where
  "snapshot s =
    concat (map (\<lambda>w. let n = ''prefill'' @ worker_id_str (pw_id w) in
      [(n @ ''_queue_depth'', real (pw_queue_depth w)), (n @ ''_queued_tokens'', real (pw_queued_tokens w)),
       (n @ ''_tokens_per_ms'', pw_rate w)]) (dp_prefill s)) @
    concat (map (\<lambda>w. let n = ''decode'' @ worker_id_str (dw_id w) in
      [(n @ ''_concurrency'', real (dw_concurrency w)), (n @ ''_cap'', dw_cap w), (n @ ''_step_ms'', observed_step_ms w),
       (n @ ''_kv_utilisation'', dw_kv_utilisation w), (n @ ''_refusals'', real (refusals w))]) (dp_decode s)) @
    [(''inflight'', real (length (dp_inflight s)))]"

subsection \<open>Messages to clients\<close>

definition mail_of :: "'e deployment \<Rightarrow> request_id \<Rightarrow> stream_chunk list" where
  "mail_of s rid = (case hm_get (mail s) rid of None \<Rightarrow> [] | Some cs \<Rightarrow> cs)"

text \<open>A send, and whether it succeeded.\<close>

definition send_chunk :: "request_id \<Rightarrow> stream_chunk \<Rightarrow> 'e deployment \<Rightarrow> bool \<times> 'e deployment" where
  "send_chunk rid c s = (if rid \<in> set (hung_up s) then (False, s)
     else (True, s\<lparr>mail := hm_insert rid (mail_of s rid @ [c]) (mail s)\<rparr>))"

definition forget_request :: "request_id \<Rightarrow> 'e deployment \<Rightarrow> 'e deployment" where
  "forget_request rid s = s\<lparr>dp_inflight := hm_remove rid (dp_inflight s)\<rparr>"

subsection \<open>Handlers\<close>

definition dep_generate :: "millis \<Rightarrow> 'x generate_request \<Rightarrow> 'e deployment \<Rightarrow> ((error + unit) \<times> 'e deployment) option" where
  "dep_generate now r s =
    (case route (dp_router s) (gr_prompt r) now (slo_ttft_ms (cfg_slo (dp_cfg s))) of
       None \<Rightarrow> None
     | Some (Inl e) \<Rightarrow> Some (Inl (Rejected (gr_id r) (routing_error_str e)), s)
     | Some (Inr d) \<Rightarrow>
        if rd_decode d < DEP_DECODE_ID_BASE then None
        else
         let p = rd_prefill d; dw = rd_decode d - DEP_DECODE_ID_BASE;
             s1 = s\<lparr>dp_inflight := hm_insert (gr_id r) \<lparr>if_decode_worker = dw, if_max_tokens = max_tokens (gr_params r)\<rparr> (dp_inflight s),
                    mail := hm_insert (gr_id r) [] (mail s)\<rparr>;
             job = \<lparr>pj_id = gr_id r, pj_prompt = gr_prompt r, pj_deadline_ms = gr_arrival_ms r + slo_ttft_ms (cfg_slo (dp_cfg s)),
                    pj_arrival_ms = gr_arrival_ms r\<rparr>
         in if p \<ge> length (prefill_jobs s1) then None
            else if prefill_gone s1 ! p then Some (Inl (Engine ''prefill worker gone''), s1)
            else Some (Inr (), s1\<lparr>prefill_jobs := (prefill_jobs s1)[p := prefill_jobs s1 ! p @ [job]]\<rparr>))"

definition pump_prefill :: "(token_id list \<Rightarrow> string) \<Rightarrow> prefill_complete \<Rightarrow> 'e deployment \<Rightarrow> 'e deployment option" where
  "pump_prefill dec d s =
    (let rid = pcm_id d
     in case hm_get (dp_inflight s) rid of None \<Rightarrow> Some s
     | Some e \<Rightarrow>
        (case send_chunk rid (TokenChunk (pcm_first_token d) (dec [pcm_first_token d])) s of
           (False, s1) \<Rightarrow> Some (forget_request rid s1)
         | (True, s1) \<Rightarrow>
            if if_max_tokens e \<le> 1 then Some (forget_request rid (snd (send_chunk rid (DoneChunk ''length'') s1)))
            else
             let w = if_decode_worker e;
                 job = \<lparr>da_id = rid, da_first_token = pcm_first_token d, da_prompt_len = pcm_prompt_len d,
                        da_max_tokens = if_max_tokens e, da_first_token_ms = finished_at_ms d\<rparr>
             in if w \<ge> length (decode_jobs s1) then None
                else if decode_gone s1 ! w
                then Some (forget_request rid (snd (send_chunk rid (ErrorChunk ''decode worker gone'') s1)))
                else Some (s1\<lparr>decode_jobs := (decode_jobs s1)[w := decode_jobs s1 ! w @ [job]]\<rparr>)))"

fun pump_decode :: "(token_id list \<Rightarrow> string) \<Rightarrow> decode_event \<Rightarrow> 'e deployment \<Rightarrow> 'e deployment" where
  "pump_decode dec (TokenEvent rid tok) s =
    (case hm_get (dp_inflight s) rid of None \<Rightarrow> s
     | Some e \<Rightarrow> (case send_chunk rid (TokenChunk tok (dec [tok])) s of
         (True, s1) \<Rightarrow> s1 | (False, s1) \<Rightarrow> forget_request rid s1))"
| "pump_decode dec (FinishedEvent rid n) s =
    (case hm_get (dp_inflight s) rid of None \<Rightarrow> s
     | Some e \<Rightarrow> snd (send_chunk rid (DoneChunk ''length'') (forget_request rid s)))"

definition dep_load_updates :: "millis \<Rightarrow> 'e deployment \<Rightarrow> (worker_id \<times> worker_load) list" where
  "dep_load_updates now s =
    map (\<lambda>w. (pw_id w, default_load\<lparr>wl_queued_tokens := pw_queued_tokens w, wl_queue_depth := pw_queue_depth w mod 2 ^ 32,
      wl_tokens_per_ms := pw_rate w, updated_ms := now\<rparr>)) (dp_prefill s) @
    map (\<lambda>w. (dw_id w, default_load\<lparr>decode_concurrency := dw_concurrency w mod 2 ^ 32, decode_cap := dw_cap w,
      kv_utilisation := dw_kv_utilisation w, step_ms := observed_step_ms w, updated_ms := now\<rparr>)) (dp_decode s)"

definition dep_sync_loads :: "millis \<Rightarrow> 'e deployment \<Rightarrow> 'e deployment" where
  "dep_sync_loads now s = s\<lparr>dp_router := report_loads (dep_load_updates now s) (dp_router s)\<rparr>"

subsection \<open>Tasks and their interleavings\<close>

text \<open>The frontend numbers its requests, so a request comes with an identifier that has no mailbox yet. The
  deployment does not look at a request's extra parameters.\<close>

inductive dep_step :: "'e engine_ops \<Rightarrow> (token_id list \<Rightarrow> string) \<Rightarrow> 'e deployment \<Rightarrow> 'e deployment \<Rightarrow> bool" for ops dec where
  d_generate: "hm_get (mail s) (gr_id (r :: unit generate_request)) = None \<Longrightarrow> dep_generate now r s = Some (res, s') \<Longrightarrow> dep_step ops dec s s'"
| d_take_prefill: "i < length (dp_prefill s) \<Longrightarrow> \<not> prefill_gone s ! i \<Longrightarrow> prefill_jobs s ! i = j # js \<Longrightarrow>
    dep_step ops dec s (s\<lparr>prefill_jobs := (prefill_jobs s)[i := js], dp_prefill := (dp_prefill s)[i := pw_enqueue j (dp_prefill s ! i)]\<rparr>)"
| d_prefill_turn: "i < length (dp_prefill s) \<Longrightarrow> \<not> prefill_gone s ! i \<Longrightarrow> prefill_round ops now done_at (dp_prefill s ! i) = Some (evs, w) \<Longrightarrow>
    dep_step ops dec s (s\<lparr>dp_prefill := (dp_prefill s)[i := w], pdone := pdone s @ evs\<rparr>)"
| d_pump_prefill: "pdone s = d # ds \<Longrightarrow> pump_prefill dec d (s\<lparr>pdone := ds\<rparr>) = Some s' \<Longrightarrow> dep_step ops dec s s'"
| d_take_decode: "i < length (dp_decode s) \<Longrightarrow> \<not> decode_gone s ! i \<Longrightarrow> decode_jobs s ! i = j # js \<Longrightarrow>
    dep_step ops dec s (s\<lparr>decode_jobs := (decode_jobs s)[i := js], dp_decode := (dp_decode s)[i := receive_admit j (dp_decode s ! i)]\<rparr>)"
| d_decode_turn: "i < length (dp_decode s) \<Longrightarrow> \<not> decode_gone s ! i \<Longrightarrow> decode_round ops now now' (dp_decode s ! i) = Some (evs, w) \<Longrightarrow>
    dep_step ops dec s (s\<lparr>dp_decode := (dp_decode s)[i := w], devents := devents s @ evs\<rparr>)"
| d_pump_decode: "devents s = e # es \<Longrightarrow> dep_step ops dec s (pump_decode dec e (s\<lparr>devents := es\<rparr>))"
| d_sync: "dep_step ops dec s (dep_sync_loads now s)"
| d_hang_up: "dep_step ops dec s (s\<lparr>hung_up := rid # hung_up s\<rparr>)"
| d_prefill_dies: "dep_step ops dec s (s\<lparr>prefill_gone := (prefill_gone s)[i := True]\<rparr>)"
| d_decode_dies: "dep_step ops dec s (s\<lparr>decode_gone := (decode_gone s)[i := True]\<rparr>)"

definition dep_init :: "'e deployment \<Rightarrow> bool" where
  "dep_init s \<longleftrightarrow> (\<exists>c pes des. length pes \<le> DEP_DECODE_ID_BASE \<and> dep_spawn c pes des = Some (Inr s))"

subsection \<open>What clients are sent\<close>

definition tokens_only :: "stream_chunk list \<Rightarrow> bool" where
  "tokens_only cs \<longleftrightarrow> (\<forall>c \<in> set cs. \<exists>tok w. c = TokenChunk tok w)"

lemma tokens_only_wf: "tokens_only cs \<Longrightarrow> chunks_wf cs"
  by (induction cs) (auto simp: tokens_only_def)

lemma tokens_then_any: "tokens_only cs \<Longrightarrow> chunks_wf (cs @ [c])"
proof (induction cs)
  case Nil
  then show ?case by (cases c) simp_all
qed (auto simp: tokens_only_def)

definition mail_ok :: "'e deployment \<Rightarrow> bool" where
  "mail_ok s \<longleftrightarrow> (\<forall>rid. chunks_wf (mail_of s rid)) \<and> (\<forall>rid. hm_get (dp_inflight s) rid \<noteq> None \<longrightarrow> tokens_only (mail_of s rid))"

lemma mail_of_simps [simp]:
  "mail_of (s\<lparr>mail := hm_insert rid cs (mail s)\<rparr>) = (mail_of s)(rid := cs)" "mail_of (forget_request rid s) = mail_of s"
  "dp_inflight (forget_request rid s) = hm_remove rid (dp_inflight s)"
  by (auto simp: mail_of_def hm_simps forget_request_def)

lemma forget_ok: "mail_ok s \<Longrightarrow> mail_ok (forget_request rid s)"
  by (auto simp: mail_ok_def hm_simps)

lemma send_token_ok: "mail_ok s \<Longrightarrow> hm_get (dp_inflight s) rid \<noteq> None \<Longrightarrow> mail_ok (snd (send_chunk rid (TokenChunk tok w) s))"
  by (auto simp: mail_ok_def send_chunk_def tokens_then_any) (auto simp: tokens_only_def)

lemma send_last_ok: "mail_ok s \<Longrightarrow> hm_get (dp_inflight s) rid \<noteq> None \<Longrightarrow> mail_ok (forget_request rid (snd (send_chunk rid c s)))"
  by (auto simp: mail_ok_def send_chunk_def tokens_then_any hm_simps)

lemma send_frame [simp]: "dp_inflight (snd (send_chunk rid c s)) = dp_inflight s" "decode_jobs (snd (send_chunk rid c s)) = decode_jobs s"
  "decode_gone (snd (send_chunk rid c s)) = decode_gone s" "prefill_jobs (snd (send_chunk rid c s)) = prefill_jobs s"
  "dp_prefill (snd (send_chunk rid c s)) = dp_prefill s" "dp_router (snd (send_chunk rid c s)) = dp_router s"
  "dp_decode (snd (send_chunk rid c s)) = dp_decode s" "prefill_gone (snd (send_chunk rid c s)) = prefill_gone s"
  by (simp_all add: send_chunk_def)

lemma forget_frame [simp]: "decode_jobs (forget_request rid s) = decode_jobs s" "prefill_jobs (forget_request rid s) = prefill_jobs s"
  "dp_prefill (forget_request rid s) = dp_prefill s" "dp_router (forget_request rid s) = dp_router s"
  "dp_decode (forget_request rid s) = dp_decode s" "prefill_gone (forget_request rid s) = prefill_gone s"
  "decode_gone (forget_request rid s) = decode_gone s"
  by (simp_all add: forget_request_def)

lemma send_after_forget: "snd (send_chunk rid c (forget_request rid' s)) = forget_request rid' (snd (send_chunk rid c s))"
  by (simp add: send_chunk_def forget_request_def mail_of_def)

subsection \<open>The workers behind the router\<close>

definition fleet_ok :: "'e deployment \<Rightarrow> bool" where
  "fleet_ok s \<longleftrightarrow> router_inv (dp_router s)
     \<and> (\<forall>i v. hm_get (registered (registry (dp_router s))) i = Some v \<longrightarrow>
          (role v = PrefillRole \<and> i < length (prefill_jobs s))
          \<or> (role v = DecodeRole \<and> DEP_DECODE_ID_BASE \<le> i \<and> i - DEP_DECODE_ID_BASE < length (decode_jobs s)))
     \<and> (\<forall>rid e. hm_get (dp_inflight s) rid = Some e \<longrightarrow> if_decode_worker e < length (decode_jobs s))
     \<and> (\<forall>w \<in> set (dp_prefill s). pw_inv w)"

lemma route_targets:
  assumes "fleet_ok s" "route (dp_router s) toks now budget = Some (Inr d)"
  shows "rd_prefill d < length (prefill_jobs s) \<and> DEP_DECODE_ID_BASE \<le> rd_decode d \<and> rd_decode d - DEP_DECODE_ID_BASE < length (decode_jobs s)"
proof -
  let ?r = "dp_router s"
  have inv: "router_inv ?r" and wf: "registry_wf (registry ?r)" using assms(1) by (simp_all add: fleet_ok_def router_inv_def)
  have ne: "live (registry ?r) PrefillRole now \<noteq> []" "live (registry ?r) DecodeRole now \<noteq> []"
    using assms(2) by (auto simp: route_def Let_def split: if_splits)
  from route_live [OF inv ne, of toks budget] assms(2) obtain p q where
    d: "p \<in> set (live (registry ?r) PrefillRole now)" "q \<in> set (live (registry ?r) DecodeRole now)" "rd_prefill d = ws_id p" "rd_decode d = ws_id q"
    by auto
  have "hm_get (registered (registry ?r)) (rd_prefill d) = Some p" "role p = PrefillRole"
    "hm_get (registered (registry ?r)) (rd_decode d) = Some q" "role q = DecodeRole"
    using d live_set [OF wf] by (auto simp: is_live_def)
  then show ?thesis using assms(1) unfolding fleet_ok_def by (metis worker_role.distinct(1))
qed

lemma route_answers: "router_inv r \<Longrightarrow> route r toks now budget \<noteq> None"
  using route_live [of r now toks budget] by (cases "live (registry r) PrefillRole now = [] \<or> live (registry r) DecodeRole now = []") (auto simp: route_def Let_def)

definition dep_ok :: "'e deployment \<Rightarrow> bool" where
  "dep_ok s \<longleftrightarrow> mail_ok s \<and> fleet_ok s"

lemma generate_ok:
  assumes "dep_ok s" "hm_get (mail s) (gr_id r) = None"
  shows "\<exists>res s'. dep_generate now r s = Some (res, s') \<and> dep_ok s'"
proof -
  let ?budget = "slo_ttft_ms (cfg_slo (dp_cfg s))"
  have inv: "router_inv (dp_router s)" using assms(1) by (simp add: dep_ok_def fleet_ok_def)
  obtain x where x: "route (dp_router s) (gr_prompt r) now ?budget = Some x" using route_answers [OF inv] by blast
  show ?thesis
  proof (cases x)
    case (Inl e)
    then show ?thesis using x assms(1) by (simp add: dep_generate_def)
  next
    case (Inr d)
    note T = route_targets [OF conjunct2 [OF assms(1) [unfolded dep_ok_def]], OF x [unfolded Inr]]
    let ?e = "\<lparr>if_decode_worker = rd_decode d - DEP_DECODE_ID_BASE, if_max_tokens = max_tokens (gr_params r)\<rparr>"
    let ?s = "s\<lparr>dp_inflight := hm_insert (gr_id r) ?e (dp_inflight s), mail := hm_insert (gr_id r) [] (mail s)\<rparr>"
    have m: "mail_of ?s = (mail_of s)(gr_id r := [])" by (auto simp: mail_of_def hm_simps)
    have "mail_ok ?s" using assms(1) unfolding dep_ok_def mail_ok_def m by (auto simp: hm_simps tokens_only_def)
    moreover have "fleet_ok ?s" using assms(1) T by (auto simp: dep_ok_def fleet_ok_def hm_simps)
    ultimately have ok: "dep_ok ?s" "dep_ok (?s\<lparr>prefill_jobs := (prefill_jobs s)[p := js]\<rparr>)" for p js
      by (simp_all add: dep_ok_def mail_ok_def fleet_ok_def mail_of_def)
    show ?thesis using x Inr T ok by (simp add: dep_generate_def Let_def)
  qed
qed

lemma pump_prefill_ok:
  assumes "dep_ok s"
  shows "\<exists>s'. pump_prefill dec d s = Some s' \<and> dep_ok s'"
proof (cases "hm_get (dp_inflight s) (pcm_id d)")
  case None
  then show ?thesis using assms by (simp add: pump_prefill_def)
next
  case (Some e)
  let ?id = "pcm_id d" and ?c = "TokenChunk (pcm_first_token d) (dec [pcm_first_token d])"
  obtain ok s1 where s1: "send_chunk ?id ?c s = (ok, s1)" by fastforce
  have f: "dp_inflight s1 = dp_inflight s" "decode_jobs s1 = decode_jobs s" using send_frame [of ?id ?c s] s1 by simp_all
  have m1: "mail_ok s1" using send_token_ok [of s ?id "pcm_first_token d" "dec [pcm_first_token d]"] s1 assms Some by (simp add: dep_ok_def)
  have l1: "fleet_ok s1" using assms s1 send_frame [of ?id ?c s] by (simp add: dep_ok_def fleet_ok_def)
  have w: "if_decode_worker e < length (decode_jobs s1)" using l1 Some f by (auto simp: fleet_ok_def)
  have fl: "fleet_ok (forget_request ?id t)" if "fleet_ok t" for t :: "'a deployment" using that by (auto simp: fleet_ok_def hm_simps)
  have last: "dep_ok (forget_request ?id (snd (send_chunk ?id c s1)))" for c
    using send_last_ok [OF m1, of ?id c] fl [of "snd (send_chunk ?id c s1)"] l1 Some f(1) by (simp add: dep_ok_def fleet_ok_def)
  have push: "dep_ok (s1\<lparr>decode_jobs := (decode_jobs s1)[w' := js]\<rparr>)" for w' js
    using m1 l1 by (simp add: dep_ok_def mail_ok_def fleet_ok_def mail_of_def)
  show ?thesis using Some s1 w last push forget_ok [OF m1, of ?id] fl [OF l1]
    by (cases ok) (simp_all add: pump_prefill_def Let_def dep_ok_def)
qed

lemma pump_decode_ok: "dep_ok s \<Longrightarrow> dep_ok (pump_decode dec e s)"
proof -
  assume ok: "dep_ok s"
  have fl: "fleet_ok (forget_request rid t)" if "fleet_ok t" for t :: "'a deployment" and rid using that by (auto simp: fleet_ok_def hm_simps)
  have sd: "fleet_ok (snd (send_chunk rid c t))" if "fleet_ok t" for t :: "'a deployment" and rid c using that by (simp add: fleet_ok_def)
  show ?thesis
  proof (cases e)
    case (TokenEvent rid tok)
    show ?thesis
    proof (cases "hm_get (dp_inflight s) rid")
      case (Some x)
      obtain b s1 where s1: "send_chunk rid (TokenChunk tok (dec [tok])) s = (b, s1)" by fastforce
      have "dep_ok s1" using send_token_ok [of s rid tok "dec [tok]"] sd [of s rid "TokenChunk tok (dec [tok])"] s1 ok Some by (simp add: dep_ok_def)
      then show ?thesis using TokenEvent Some s1 forget_ok [of s1 rid] fl [of s1 rid] by (cases b) (simp_all add: dep_ok_def)
    qed (use TokenEvent ok in simp)
  next
    case (FinishedEvent rid n)
    show ?thesis
    proof (cases "hm_get (dp_inflight s) rid")
      case (Some x)
      then show ?thesis using FinishedEvent send_last_ok [of s rid "DoneChunk ''length''"] fl sd ok by (simp add: send_after_forget dep_ok_def)
    qed (use FinishedEvent ok in simp)
  qed
qed

lemma dep_ok_frame:
  assumes "dep_ok s" "dp_router s' = dp_router s" "length (prefill_jobs s') = length (prefill_jobs s)" "length (decode_jobs s') = length (decode_jobs s)"
    "dp_inflight s' = dp_inflight s" "mail s' = mail s" "\<forall>w \<in> set (dp_prefill s'). pw_inv w"
  shows "dep_ok s'"
  using assms by (simp add: dep_ok_def mail_ok_def fleet_ok_def mail_of_def)

lemma sync_ok: "dep_ok s \<Longrightarrow> dep_ok (dep_sync_loads now s)"
proof -
  assume ok: "dep_ok s"
  let ?r = "foldl (\<lambda>r (i, l). update_load i l r) (registry (dp_router s)) (dep_load_updates now s)"
  have "router_inv (report_loads (dep_load_updates now s) (dp_router s))"
    using ok loads_frame(2) by (simp add: dep_ok_def fleet_ok_def router_inv_def report_loads_def)
  moreover have "\<exists>u. hm_get (registered (registry (dp_router s))) i = Some u \<and> role v = role u" if "hm_get (registered ?r) i = Some v" for i v
    using loads_roles [OF that] .
  ultimately show ?thesis using ok
    by (simp add: dep_ok_def mail_ok_def fleet_ok_def mail_of_def dep_sync_loads_def report_loads_def) metis
qed

lemma dep_step_ok:
  assumes "dep_ok s" "dep_step ops dec s t"
  shows "dep_ok t"
  using assms(2)
proof cases
  case (d_generate r now res)
  then show ?thesis using generate_ok [OF assms(1)] by (metis option.inject prod.inject)
next
  case (d_take_prefill i j js)
  have p: "\<forall>w \<in> set (dp_prefill s). pw_inv w" using assms(1) by (simp add: dep_ok_def fleet_ok_def)
  then have "pw_inv (pw_enqueue j (dp_prefill s ! i))" using d_take_prefill by (simp add: pw_enqueue_inv)
  then show ?thesis unfolding d_take_prefill(1)
    by (intro dep_ok_frame [OF assms(1)]) (use p in \<open>auto dest!: set_update_subset_insert [THEN subsetD]\<close>)
next
  case (d_prefill_turn i now done_at evs w)
  have p: "\<forall>w \<in> set (dp_prefill s). pw_inv w" using assms(1) by (simp add: dep_ok_def fleet_ok_def)
  then have "pw_inv (dp_prefill s ! i)" using d_prefill_turn(2) by simp
  then have "pw_inv w" using prefill_round_inv [of "dp_prefill s ! i" ops now done_at] d_prefill_turn(4) by auto
  then show ?thesis unfolding d_prefill_turn(1)
    by (intro dep_ok_frame [OF assms(1)]) (use p in \<open>auto dest!: set_update_subset_insert [THEN subsetD]\<close>)
next
  case (d_pump_prefill d ds)
  have "dep_ok (s\<lparr>pdone := ds\<rparr>)" by (rule dep_ok_frame [OF assms(1)]) (use assms(1) in \<open>simp_all add: dep_ok_def fleet_ok_def\<close>)
  then show ?thesis using pump_prefill_ok [of "s\<lparr>pdone := ds\<rparr>" dec d] d_pump_prefill(2) by auto
next
  case (d_pump_decode e es)
  have "dep_ok (s\<lparr>devents := es\<rparr>)" by (rule dep_ok_frame [OF assms(1)]) (use assms(1) in \<open>simp_all add: dep_ok_def fleet_ok_def\<close>)
  then show ?thesis unfolding d_pump_decode(1) by (rule pump_decode_ok)
next
  case d_sync
  then show ?thesis using sync_ok [OF assms(1)] by simp
qed (use assms(1) in \<open>simp_all add: dep_ok_def mail_ok_def fleet_ok_def mail_of_def\<close>)

lemma spawn_prefill_inv: "pw_inv (spawn_prefill c ie)"
  unfolding spawn_prefill_def by (rule pw_init_inv) (unfold pw_init_def, blast)

lemma dep_init_ok:
  assumes "dep_init s"
  shows "dep_ok s"
proof -
  obtain c pes des where sp: "length pes \<le> DEP_DECODE_ID_BASE" "dep_spawn c pes des = Some (Inr s)" using assms by (auto simp: dep_init_def)
  obtain ctl where e: "dp_prefill s = map (spawn_prefill c) (List.enumerate 0 pes)" "prefill_jobs s = replicate (length pes) []"
    "decode_jobs s = replicate (length des) []" "dp_inflight s = []" "mail s = []"
    "dp_router s = router_new (foldl (\<lambda>r w. register w r) (registry_new 60000)
        (map (inproc_prefill c) (map (spawn_prefill c) (List.enumerate 0 pes)) @ map (inproc_decode c) (map (spawn_decode c ctl) (List.enumerate 0 des))))
        (default_router_tuning\<lparr>default_tokens_per_ms := per_worker_rate c\<rparr>)" (is "_ = router_new (foldl _ _ ?ws) _")
    using sp(2) by (auto simp: dep_spawn_def Let_def split: sum.splits if_splits option.splits)
  let ?r = "foldl (\<lambda>r w. register w r) (registry_new 60000) ?ws"
  have wf: "registry_wf ?r" by (rule register_fold_wf) (simp add: registry_wf_def registry_new_def)
  have "(role v = PrefillRole \<and> i < length pes) \<or> (role v = DecodeRole \<and> DEP_DECODE_ID_BASE \<le> i \<and> i - DEP_DECODE_ID_BASE < length des)"
    if h: "hm_get (registered ?r) i = Some v" for i v
  proof -
    have "v \<in> set ?ws" using register_fold_all [OF h] by (simp add: registry_new_def)
    moreover have "ws_id v = i" using wf h by (simp add: registry_wf_def)
    ultimately show ?thesis
      by (auto simp: inproc_prefill_def inproc_decode_def spawn_prefill_def spawn_decode_def prefill_worker_new_def decode_worker_new_def
          in_set_enumerate_eq Let_def)
  qed
  moreover have "pw_inv w" if "w \<in> set (dp_prefill s)" for w
    using that e(1) spawn_prefill_inv by auto
  ultimately show ?thesis using wf e(2-6)
    by (simp add: dep_ok_def mail_ok_def fleet_ok_def mail_of_def router_new_def router_inv_def radix_new_inv)
qed

interpretation dep_sys: invariant_system dep_init "dep_step ops dec" dep_ok
  by unfold_locales (auto intro: dep_init_ok dep_step_ok)

text \<open>C11. Every answer is well formed. However the tasks of a deployment interleave, whatever the engines return and whichever
  clients hang up or workers die, a client is sent tokens and then at most one chunk that ends its
  stream; a request still registered as in flight has not been ended; and neither accepting a request nor handing one on
  can panic. A step is one message handled by a task.\<close>

theorem streams_end_at_most_once:
  assumes "dep_init s0" "(dep_step ops dec)\<^sup>*\<^sup>* s0 s"
  shows "(\<forall>rid. chunks_wf (mail_of s rid) \<and> (hm_get (dp_inflight s) rid \<noteq> None \<longrightarrow> tokens_only (mail_of s rid)))
    \<and> (hm_get (mail s) (gr_id r) = None \<longrightarrow> dep_generate now r s \<noteq> None) \<and> pump_prefill dec d s \<noteq> None"
proof -
  have ok: "dep_ok s" by (rule dep_sys.reachable_inv [OF assms])
  then have "\<forall>rid. chunks_wf (mail_of s rid) \<and> (hm_get (dp_inflight s) rid \<noteq> None \<longrightarrow> tokens_only (mail_of s rid))"
    by (simp add: dep_ok_def mail_ok_def)
  moreover have "hm_get (mail s) (gr_id r) = None \<longrightarrow> dep_generate now r s \<noteq> None" using generate_ok [OF ok, of r now] by auto
  ultimately show ?thesis using pump_prefill_ok [OF ok, of dec d] by auto
qed

lemma default_spawns:
  obtains s :: "mock_engine deployment" where "dep_init s" "mail s = []"
    "dep_spawn default_config [mock_prefill_worker ''m'' [] 2 sample_cost VirtualTime] [mock_decode_worker ''m'' [] 8 8192 sample_cost VirtualTime] = Some (Inr s)"
proof -
  let ?p = "[mock_prefill_worker ''m'' [] 2 sample_cost VirtualTime]" and ?d = "[mock_decode_worker ''m'' [] 8 8192 sample_cost VirtualTime]"
  have v: "config_validate default_config = Inr ()"
    by (simp add: config_validate_iff engine_validate_iff used_gpus_def default_config_def default_topology_config_def default_engine_config_def
        ATTN_BACKENDS_def MOE_BACKENDS_def ALLREDUCE_STRATEGIES_def TORCH_COMPILE_def default_speculation_config_def default_slo_def)
  obtain ctl where "itl_new (slo_itl_ms (cfg_slo default_config) * sc_itl_safety (scheduler default_config)) (dep_initial_cap default_config) 8
      (real (max_decode_seqs (scheduler default_config))) = Some ctl"
    by (simp add: itl_new_def default_config_def default_scheduler_config_def)
  then obtain s where s: "dep_spawn default_config ?p ?d = Some (Inr s)" "mail s = []"
    using v by (simp add: dep_spawn_def Let_def)
  moreover have "dep_init s" unfolding dep_init_def using s(1) by (intro exI [of _ default_config] exI [of _ ?p] exI [of _ ?d]) (simp add: DEP_DECODE_ID_BASE_def)
  ultimately show ?thesis using that by blast
qed

theorem streams_end_at_most_once_witness:
  "\<exists>s. dep_spawn default_config [mock_prefill_worker ''m'' [] 2 sample_cost VirtualTime] [mock_decode_worker ''m'' [] 8 8192 sample_cost VirtualTime]
      = Some (Inr s)
    \<and> dep_generate 0 \<lparr>gr_id = 1, gr_prompt = [1, 2], gr_prompt_text = ''x'', gr_params = default_params (), gr_arrival_ms = 0, gr_stream = False\<rparr> s \<noteq> None"
proof -
  obtain s :: "mock_engine deployment" where s: "dep_init s" "mail s = []"
    "dep_spawn default_config [mock_prefill_worker ''m'' [] 2 sample_cost VirtualTime] [mock_decode_worker ''m'' [] 8 8192 sample_cost VirtualTime] = Some (Inr s)"
    by (rule default_spawns)
  from streams_end_at_most_once [OF s(1) rtranclp.rtrancl_refl, of
      "\<lparr>gr_id = 1, gr_prompt = [1, 2], gr_prompt_text = ''x'', gr_params = default_params (), gr_arrival_ms = 0, gr_stream = False\<rparr>" 0]
  show ?thesis using s(2,3) by auto
qed

subsection \<open>The tokens clients get\<close>

text \<open>A run with a record of what the pumps have taken from the channels, in their order, and of the requests accepted between.\<close>

datatype pumped = Accepted request_id | FirstToken prefill_complete | Decoded decode_event

inductive dep_traced :: "'e engine_ops \<Rightarrow> (token_id list \<Rightarrow> string) \<Rightarrow> 'e deployment \<times> pumped list \<Rightarrow> 'e deployment \<times> pumped list \<Rightarrow> bool" for ops dec where
  tr_accept: "hm_get (mail s) (gr_id (r :: unit generate_request)) = None \<Longrightarrow> dep_generate now r s = Some (res, t) \<Longrightarrow>
    hm_get (mail t) (gr_id r) \<noteq> None \<Longrightarrow> dep_traced ops dec (s, h) (t, h @ [Accepted (gr_id r)])"
| tr_first: "pdone s = d # ds \<Longrightarrow> pump_prefill dec d (s\<lparr>pdone := ds\<rparr>) = Some t \<Longrightarrow> dep_traced ops dec (s, h) (t, h @ [FirstToken d])"
| tr_decoded: "devents s = e # es \<Longrightarrow> dep_traced ops dec (s, h) (pump_decode dec e (s\<lparr>devents := es\<rparr>), h @ [Decoded e])"
| tr_other: "dep_step ops dec s t \<Longrightarrow> mail t = mail s \<Longrightarrow> dp_inflight t = dp_inflight s \<Longrightarrow> pdone t = pdone s @ ps \<Longrightarrow> devents t = devents s @ es \<Longrightarrow>
    dep_traced ops dec (s, h) (t, h)"

text \<open>Every run of the tasks is such a run.\<close>

lemma dep_step_traced: "dep_step ops dec s t \<Longrightarrow> \<exists>h'. dep_traced ops dec (s, h) (t, h')"
proof -
  assume st: "dep_step ops dec s t"
  then show ?thesis
  proof cases
    case (d_generate r now res)
    show ?thesis
    proof (cases "hm_get (mail t) (gr_id r) = None")
      case True
      then have "t = s" using d_generate(2) by (auto simp: dep_generate_def Let_def hm_simps split: option.splits sum.splits if_splits)
      then show ?thesis using tr_other [OF st, of "[]" "[]" h] by auto
    next
      case False
      then show ?thesis using tr_accept [OF d_generate False] by blast
    qed
  next
    case (d_prefill_turn i now done_at evs w)
    then show ?thesis using tr_other [OF st, of evs "[]" h] by auto
  next
    case (d_pump_prefill d ds)
    then show ?thesis using tr_first by blast
  next
    case (d_decode_turn i now now' evs w)
    then show ?thesis using tr_other [OF st, of "[]" evs h] by auto
  next
    case (d_pump_decode e es)
    then show ?thesis using tr_decoded by blast
  qed (use tr_other [OF st, of "[]" "[]" h] in \<open>auto simp: dep_sync_loads_def\<close>)
qed

lemma runs_are_traced: "(dep_step ops dec)\<^sup>*\<^sup>* s t \<Longrightarrow> \<exists>h'. (dep_traced ops dec)\<^sup>*\<^sup>* (s, h) (t, h')"
proof (induction rule: rtranclp_induct)
  case (step t u)
  then show ?case using dep_step_traced by (metis rtranclp.rtrancl_into_rtrancl)
qed blast

text \<open>The tokens pumped for a request since it was accepted.\<close>

fun tokens_after :: "request_id \<Rightarrow> token_id list \<Rightarrow> pumped \<Rightarrow> token_id list" where
  "tokens_after rid acc (Accepted r) = (if r = rid then [] else acc)"
| "tokens_after rid acc (FirstToken d) = (if pcm_id d = rid then acc @ [pcm_first_token d] else acc)"
| "tokens_after rid acc (Decoded (TokenEvent r tok)) = (if r = rid then acc @ [tok] else acc)"
| "tokens_after rid acc (Decoded (FinishedEvent r n)) = acc"

definition tokens_since_accepted :: "request_id \<Rightarrow> pumped list \<Rightarrow> token_id list" where
  "tokens_since_accepted rid h = foldl (tokens_after rid) [] h"

definition sent_tokens :: "stream_chunk list \<Rightarrow> (token_id \<times> string) list" where
  "sent_tokens cs = List.map_filter (\<lambda>c. case c of TokenChunk tok w \<Rightarrow> Some (tok, w) | _ \<Rightarrow> None) cs"

definition delivered :: "(token_id list \<Rightarrow> string) \<Rightarrow> 'e deployment \<times> pumped list \<Rightarrow> bool" where
  "delivered dec x \<longleftrightarrow> (case x of (s, h) \<Rightarrow> \<forall>rid.
     let got = map fst (sent_tokens (mail_of s rid))
     in prefix got (tokens_since_accepted rid h) \<and> (\<forall>(tok, w) \<in> set (sent_tokens (mail_of s rid)). w = dec [tok])
        \<and> (hm_get (dp_inflight s) rid \<noteq> None \<longrightarrow> rid \<notin> set (hung_up s) \<longrightarrow> got = tokens_since_accepted rid h))"

lemma sent_tokens_simps [simp]:
  "sent_tokens [] = []" "sent_tokens (cs @ ds) = sent_tokens cs @ sent_tokens ds"
  "sent_tokens (TokenChunk tok w # cs) = (tok, w) # sent_tokens cs" "sent_tokens (DoneChunk r # cs) = sent_tokens cs"
  "sent_tokens (ErrorChunk m # cs) = sent_tokens cs"
  by (simp_all add: sent_tokens_def List.map_filter_def)

lemma tokens_since_snoc [simp]:
  "tokens_since_accepted rid (h @ [x]) = tokens_after rid (tokens_since_accepted rid h) x"
  by (simp add: tokens_since_accepted_def)

text \<open>What the obligation for one request looks like, and that only a message for it matters to it.\<close>

definition delivered_to :: "(token_id list \<Rightarrow> string) \<Rightarrow> stream_chunk list \<Rightarrow> bool \<Rightarrow> token_id list \<Rightarrow> bool" where
  "delivered_to dec cs open' toks \<longleftrightarrow> prefix (map fst (sent_tokens cs)) toks \<and> (\<forall>(tok, w) \<in> set (sent_tokens cs). w = dec [tok])
     \<and> (open' \<longrightarrow> map fst (sent_tokens cs) = toks)"

lemma delivered_iff: "delivered dec (s, h) \<longleftrightarrow> (\<forall>rid. delivered_to dec (mail_of s rid)
    (hm_get (dp_inflight s) rid \<noteq> None \<and> rid \<notin> set (hung_up s)) (tokens_since_accepted rid h))"
  by (auto simp: delivered_def delivered_to_def Let_def)

lemma delivered_token:
  "delivered_to dec cs True toks \<Longrightarrow> delivered_to dec (cs @ [TokenChunk tok (dec [tok])]) op (toks @ [tok])"
  by (auto simp: delivered_to_def)

lemma delivered_late: "delivered_to dec cs op toks \<Longrightarrow> delivered_to dec cs False (toks @ [tok])"
  by (auto simp: delivered_to_def)

lemma delivered_less: "delivered_to dec cs op toks \<Longrightarrow> delivered_to dec cs False toks"
  by (simp add: delivered_to_def)

lemma delivered_last: "delivered_to dec cs op toks \<Longrightarrow> c = DoneChunk r \<or> c = ErrorChunk m \<Longrightarrow> delivered_to dec (cs @ [c]) False toks"
  by (auto simp: delivered_to_def)

lemma send_chunk_cases:
  "send_chunk rid c s = (if rid \<in> set (hung_up s) then (False, s) else (True, s\<lparr>mail := hm_insert rid (mail_of s rid @ [c]) (mail s)\<rparr>))"
  by (simp add: send_chunk_def)

lemma mail_of_frame [simp]: "mail_of (s\<lparr>decode_jobs := js\<rparr>) = mail_of s" "mail_of (s\<lparr>pdone := ds\<rparr>) = mail_of s" "mail_of (s\<lparr>devents := es\<rparr>) = mail_of s"
  "hung_up (forget_request rid s) = hung_up s"
  by (auto simp: fun_eq_iff mail_of_def forget_request_def)

lemma delivered_channels [simp]: "delivered dec (s\<lparr>pdone := ds\<rparr>, h) = delivered dec (s, h)" "delivered dec (s\<lparr>devents := es\<rparr>, h) = delivered dec (s, h)"
  by (simp_all add: delivered_iff)

lemma pump_decode_delivered:
  assumes "delivered dec (s, h)"
  shows "delivered dec (pump_decode dec e s, h @ [Decoded e])"
proof -
  note D = assms [unfolded delivered_iff, rule_format]
  show ?thesis
  proof (cases e)
    case (TokenEvent rid tok)
    have "delivered_to dec (mail_of (pump_decode dec e s) x) (hm_get (dp_inflight (pump_decode dec e s)) x \<noteq> None \<and> x \<notin> set (hung_up (pump_decode dec e s)))
        (tokens_since_accepted x (h @ [Decoded e]))" for x
    proof (cases "x = rid")
      case True
      then show ?thesis using D [of x] TokenEvent delivered_token [of dec "mail_of s x" "tokens_since_accepted x h" tok]
          delivered_late [of dec "mail_of s x" _ "tokens_since_accepted x h" tok]
        by (cases "hm_get (dp_inflight s) rid"; cases "rid \<in> set (hung_up s)") (auto simp: send_chunk_cases hm_simps)
    next
      case False
      then show ?thesis using D [of x] TokenEvent by (auto simp: send_chunk_cases hm_simps split: option.split)
    qed
    then show ?thesis unfolding delivered_iff by blast
  next
    case (FinishedEvent rid n)
    have "delivered_to dec (mail_of (pump_decode dec e s) x) (hm_get (dp_inflight (pump_decode dec e s)) x \<noteq> None \<and> x \<notin> set (hung_up (pump_decode dec e s)))
        (tokens_since_accepted x (h @ [Decoded e]))" for x
      using D [of x] FinishedEvent delivered_last [of dec "mail_of s x" _ "tokens_since_accepted x h"] delivered_less [of dec "mail_of s x" _ "tokens_since_accepted x h"]
      by (cases "x = rid") (auto simp: send_chunk_cases hm_simps split: option.split)
    then show ?thesis unfolding delivered_iff by blast
  qed
qed

text \<open>What pumping a prefill completion does, case by case.\<close>

lemma pump_prefill_effects:
  assumes "pump_prefill dec d s = Some t"
    "sent = s\<lparr>mail := hm_insert (pcm_id d) (mail_of s (pcm_id d) @ [TokenChunk (pcm_first_token d) (dec [pcm_first_token d])]) (mail s)\<rparr>"
  shows "t = s \<and> hm_get (dp_inflight s) (pcm_id d) = None
    \<or> t = forget_request (pcm_id d) s \<and> pcm_id d \<in> set (hung_up s)
    \<or> pcm_id d \<notin> set (hung_up s) \<and> hm_get (dp_inflight s) (pcm_id d) \<noteq> None
      \<and> (t = forget_request (pcm_id d) (snd (send_chunk (pcm_id d) (DoneChunk ''length'') sent))
         \<or> t = forget_request (pcm_id d) (snd (send_chunk (pcm_id d) (ErrorChunk ''decode worker gone'') sent))
         \<or> (\<exists>js. t = sent\<lparr>decode_jobs := js\<rparr>))"
  using assms by (auto simp: pump_prefill_def Let_def send_chunk_cases split: option.splits if_splits)

lemma pump_prefill_delivered:
  assumes "delivered dec (s, h)" "pump_prefill dec d s = Some t"
  shows "delivered dec (t, h @ [FirstToken d])"
proof -
  note D = assms(1) [unfolded delivered_iff, rule_format]
  let ?rid = "pcm_id d" and ?tok = "pcm_first_token d"
  let ?sent = "s\<lparr>mail := hm_insert ?rid (mail_of s ?rid @ [TokenChunk ?tok (dec [?tok])]) (mail s)\<rparr>"
  note t = pump_prefill_effects [OF assms(2) refl]
  have "delivered_to dec (mail_of t x) (hm_get (dp_inflight t) x \<noteq> None \<and> x \<notin> set (hung_up t)) (tokens_since_accepted x (h @ [FirstToken d]))" for x
  proof (cases "x = ?rid")
    case True
    note one = delivered_token [of dec "mail_of s x" "tokens_since_accepted x h" ?tok]
    show ?thesis using t D [of x] True one delivered_last [OF one] delivered_late [of dec "mail_of s x" _ "tokens_since_accepted x h" ?tok]
      by (auto simp: send_chunk_cases hm_simps)
  next
    case False
    then show ?thesis using t D [of x] by (auto simp: send_chunk_cases hm_simps)
  qed
  then show ?thesis unfolding delivered_iff by blast
qed

lemma accept_delivered:
  assumes "delivered dec (s, h)" "hm_get (mail s) (gr_id r) = None" "dep_generate now r s = Some (res, t)" "hm_get (mail t) (gr_id r) \<noteq> None"
  shows "delivered dec (t, h @ [Accepted (gr_id r)])"
proof -
  note D = assms(1) [unfolded delivered_iff, rule_format]
  obtain e where t: "mail t = hm_insert (gr_id r) [] (mail s)" "dp_inflight t = hm_insert (gr_id r) e (dp_inflight s)" "hung_up t = hung_up s"
    using assms(2,3,4) by (auto simp: dep_generate_def Let_def split: option.splits sum.splits if_splits)
  have m: "mail_of t = (mail_of s)(gr_id r := [])" using t(1) by (auto simp: mail_of_def hm_simps)
  have "delivered_to dec (mail_of t x) (hm_get (dp_inflight t) x \<noteq> None \<and> x \<notin> set (hung_up t)) (tokens_since_accepted x (h @ [Accepted (gr_id r)]))" for x
    using D [of x] t m by (auto simp: hm_simps delivered_to_def)
  then show ?thesis unfolding delivered_iff by blast
qed

lemma hung_up_grows: "dep_step ops dec s t \<Longrightarrow> set (hung_up s) \<subseteq> set (hung_up t)"
proof -
  assume "dep_step ops dec s t"
  then show ?thesis
  proof cases
      case (d_generate r now res)
      then show ?thesis by (auto simp: dep_generate_def Let_def split: option.splits sum.splits if_splits)
    next
      case (d_pump_prefill d ds)
      then show ?thesis by (auto simp: pump_prefill_def Let_def send_chunk_def split: option.splits if_splits)
    next
      case (d_pump_decode e es)
      then show ?thesis by (cases e) (auto simp: send_chunk_def split: option.splits if_splits)
    qed (auto simp: dep_sync_loads_def)
qed

lemma other_delivered:
  assumes "delivered dec (s, h)" "dep_step ops dec s t" "mail t = mail s" "dp_inflight t = dp_inflight s"
  shows "delivered dec (t, h)"
proof -
  have "set (hung_up s) \<subseteq> set (hung_up t)" by (rule hung_up_grows [OF assms(2)])
  moreover have "mail_of t = mail_of s" using assms(3) by (auto simp: mail_of_def)
  ultimately show ?thesis using assms(1,4) unfolding delivered_iff by (auto simp: delivered_to_def)
qed

text \<open>A request leaves the table of requests in flight only with a last chunk, or because its client hung up.\<close>

definition is_last :: "stream_chunk \<Rightarrow> bool" where
  "is_last c \<longleftrightarrow> (case c of TokenChunk _ _ \<Rightarrow> False | _ \<Rightarrow> True)"

definition closed_ok :: "'e deployment \<Rightarrow> bool" where
  "closed_ok s \<longleftrightarrow> (\<forall>rid. hm_get (mail s) rid \<noteq> None \<longrightarrow> hm_get (dp_inflight s) rid = None \<longrightarrow> rid \<notin> set (hung_up s)
     \<longrightarrow> (\<exists>cs c. mail_of s rid = cs @ [c] \<and> is_last c))"

lemma is_last_simps [simp]: "\<not> is_last (TokenChunk tok w)" "is_last (DoneChunk r)" "is_last (ErrorChunk m)"
  by (simp_all add: is_last_def)

lemma mail_forget [simp]: "mail (forget_request rid s) = mail s"
  by (simp add: forget_request_def)

lemma pump_decode_closed: "closed_ok s \<Longrightarrow> closed_ok (pump_decode dec e s)"
  by (cases e) (auto simp: closed_ok_def send_chunk_cases mail_of_def hm_simps split: option.split)

lemma pump_prefill_closed: "closed_ok s \<Longrightarrow> pump_prefill dec d s = Some t \<Longrightarrow> closed_ok t"
proof -
  assume c: "closed_ok s" "pump_prefill dec d s = Some t"
  note C = c(1) [unfolded closed_ok_def, rule_format]
  note t = pump_prefill_effects [OF c(2) refl]
  have "\<exists>cs c. mail_of t x = cs @ [c] \<and> is_last c"
    if x: "hm_get (mail t) x \<noteq> None" "hm_get (dp_inflight t) x = None" "x \<notin> set (hung_up t)" for x
    using t x C [of x] by (cases "x = pcm_id d") (auto simp: send_chunk_cases hm_simps)
  then show ?thesis by (simp add: closed_ok_def)
qed

lemma accept_closed: "closed_ok s \<Longrightarrow> dep_generate now r s = Some (res, t) \<Longrightarrow> closed_ok t"
proof -
  assume c: "closed_ok s" "dep_generate now r s = Some (res, t)"
  then have "t = s \<or> (\<exists>e. mail t = hm_insert (gr_id r) [] (mail s) \<and> dp_inflight t = hm_insert (gr_id r) e (dp_inflight s) \<and> hung_up t = hung_up s)"
    by (auto simp: dep_generate_def Let_def split: option.splits sum.splits if_splits)
  then show ?thesis
  proof
    assume "\<exists>e. mail t = hm_insert (gr_id r) [] (mail s) \<and> dp_inflight t = hm_insert (gr_id r) e (dp_inflight s) \<and> hung_up t = hung_up s"
    then obtain e where t: "mail t = hm_insert (gr_id r) [] (mail s)" "dp_inflight t = hm_insert (gr_id r) e (dp_inflight s)" "hung_up t = hung_up s"
      by blast
    have "mail_of t = (mail_of s)(gr_id r := [])" using t(1) by (auto simp: mail_of_def hm_simps)
    then show ?thesis using c(1) t by (simp add: closed_ok_def hm_simps)
  qed (use c(1) in simp)
qed

definition no_requests :: "'e deployment \<times> pumped list \<Rightarrow> bool" where
  "no_requests x \<longleftrightarrow> mail (fst x) = [] \<and> dp_inflight (fst x) = [] \<and> snd x = []"

interpretation delivery: invariant_system no_requests "dep_traced ops dec" "delivered dec" for ops dec
proof
  fix x :: "'a deployment \<times> pumped list"
  assume "no_requests x"
  then show "delivered dec x" by (cases x) (simp add: no_requests_def delivered_iff delivered_to_def mail_of_def tokens_since_accepted_def)
next
  fix x y :: "'a deployment \<times> pumped list"
  assume "delivered dec x" "dep_traced ops dec x y"
  from this(2,1) show "delivered dec y"
  proof cases
    case (tr_first s d ds t h)
    then show ?thesis using \<open>delivered dec x\<close> pump_prefill_delivered [of dec "s\<lparr>pdone := ds\<rparr>" h d t] by simp
  next
    case (tr_decoded s e es h)
    then show ?thesis using \<open>delivered dec x\<close> pump_decode_delivered [of dec "s\<lparr>devents := es\<rparr>" h e] by simp
  qed (use \<open>delivered dec x\<close> accept_delivered other_delivered in blast)+
qed

interpretation closing: invariant_system no_requests "dep_traced ops dec" "\<lambda>x. closed_ok (fst x)" for ops dec
proof
  fix x :: "'a deployment \<times> pumped list"
  assume "no_requests x"
  then show "closed_ok (fst x)" by (simp add: no_requests_def closed_ok_def)
next
  fix x y :: "'a deployment \<times> pumped list"
  assume "closed_ok (fst x)" "dep_traced ops dec x y"
  from this(2,1) show "closed_ok (fst y)"
  proof cases
    case (tr_first s d ds t h)
    have "closed_ok (s\<lparr>pdone := ds\<rparr>)" using tr_first(1) \<open>closed_ok (fst x)\<close> by (simp add: closed_ok_def mail_of_def)
    then show ?thesis using pump_prefill_closed [OF _ tr_first(4)] tr_first(2) by simp
  next
    case (tr_decoded s e es h)
    have "closed_ok (s\<lparr>devents := es\<rparr>)" using tr_decoded(1) \<open>closed_ok (fst x)\<close> by (simp add: closed_ok_def mail_of_def)
    then show ?thesis using pump_decode_closed tr_decoded(2) by simp
  next
    case (tr_other s t ps es h)
    then show ?thesis using hung_up_grows [OF tr_other(3)] \<open>closed_ok (fst x)\<close> by (auto simp: closed_ok_def mail_of_def)
  qed (use \<open>closed_ok (fst x)\<close> accept_closed in auto)
qed

text \<open>C33. A client gets its engine's tokens. Follow a run of the tasks from a deployment without requests and record what the two pumps take from
  the channels. At every moment, and for every request, the tokens in the client's mailbox are, in order and without gap or repetition, a
  prefix of the first token and the decode tokens pumped for that request since it was accepted, each with the text the tokenizer gives it;
  while the request is in flight and its client has not hung up they are all of them; and a request that has left the table while its
  client was listening ends with a chunk that says so. So nothing is lost, reordered or sent to another client on the way; what
  comes for an unknown request, or after its end, goes to nobody.\<close>

theorem clients_get_the_engines_tokens:
  assumes "mail s0 = []" "dp_inflight s0 = []" "(dep_traced ops dec)\<^sup>*\<^sup>* (s0, []) (s, h)"
  shows "prefix (map fst (sent_tokens (mail_of s rid))) (tokens_since_accepted rid h)
    \<and> (\<forall>(tok, w) \<in> set (sent_tokens (mail_of s rid)). w = dec [tok])
    \<and> (hm_get (dp_inflight s) rid \<noteq> None \<longrightarrow> rid \<notin> set (hung_up s) \<longrightarrow> map fst (sent_tokens (mail_of s rid)) = tokens_since_accepted rid h)
    \<and> (hm_get (mail s) rid \<noteq> None \<longrightarrow> hm_get (dp_inflight s) rid = None \<longrightarrow> rid \<notin> set (hung_up s)
        \<longrightarrow> (\<exists>cs c. mail_of s rid = cs @ [c] \<and> is_last c))"
proof -
  have 0: "no_requests (s0, [])" by (simp add: no_requests_def assms(1,2))
  from delivery.reachable_inv [OF 0 assms(3)] closing.reachable_inv [OF 0 assms(3)] show ?thesis
    by (auto simp: delivered_def closed_ok_def Let_def)
qed

lemma default_deployment_ready:
  obtains s :: "mock_engine deployment" where "dep_init s" "mail s = []" "dp_inflight s = []" "hung_up s = []"
    "live (registry (dp_router s)) PrefillRole 0 \<noteq> []" "live (registry (dp_router s)) DecodeRole 0 \<noteq> []"
    "prefill_gone s = [False]" "decode_gone s = [False]" "length (prefill_jobs s) = 1" "length (decode_jobs s) = 1"
    "dep_spawn default_config [mock_prefill_worker ''m'' [] 2 sample_cost VirtualTime] [mock_decode_worker ''m'' [] 8 8192 sample_cost VirtualTime] = Some (Inr s)"
proof -
  obtain s :: "mock_engine deployment" where s: "dep_init s" "mail s = []"
    "dep_spawn default_config [mock_prefill_worker ''m'' [] 2 sample_cost VirtualTime] [mock_decode_worker ''m'' [] 8 8192 sample_cost VirtualTime] = Some (Inr s)"
    by (rule default_spawns)
  obtain ctl where e: "dp_inflight s = []" "hung_up s = []" "prefill_gone s = [False]" "decode_gone s = [False]" "length (prefill_jobs s) = 1"
    "length (decode_jobs s) = 1" "dp_router s = router_new (foldl (\<lambda>r w. register w r) (registry_new 60000)
        (map (inproc_prefill default_config) (map (spawn_prefill default_config) (List.enumerate 0 [mock_prefill_worker ''m'' [] 2 sample_cost VirtualTime]))
         @ map (inproc_decode default_config) (map (spawn_decode default_config ctl) (List.enumerate 0 [mock_decode_worker ''m'' [] 8 8192 sample_cost VirtualTime]))))
        (default_router_tuning\<lparr>default_tokens_per_ms := per_worker_rate default_config\<rparr>)"
    using s(3) unfolding dep_spawn_def Let_def by (auto split: sum.splits if_splits option.splits)
  define p where "p = spawn_prefill default_config (0, mock_prefill_worker ''m'' [] 2 sample_cost VirtualTime)"
  define d where "d = spawn_decode default_config ctl (0, mock_decode_worker ''m'' [] 8 8192 sample_cost VirtualTime)"
  have f: "registry (dp_router s) = register (inproc_decode default_config d) (register (inproc_prefill default_config p) (registry_new 60000))"
    "pw_id p = 0" "dw_id d = 1000"
    by (simp_all add: e(7) router_new_def p_def d_def)
      (simp_all add: spawn_prefill_def spawn_decode_def prefill_worker_new_def decode_worker_new_def DEP_DECODE_ID_BASE_def Let_def)
  have wf: "registry_wf (registry (dp_router s))" using dep_init_ok [OF s(1)] by (simp add: dep_ok_def fleet_ok_def router_inv_def)
  have "inproc_prefill default_config p \<in> set (live (registry (dp_router s)) PrefillRole 0)"
    "inproc_decode default_config d \<in> set (live (registry (dp_router s)) DecodeRole 0)"
    unfolding live_set [OF wf] unfolding f(1) by (simp_all add: register_def registry_new_def is_live_def inproc_prefill_def inproc_decode_def f(2,3) hm_simps)
  then have "live (registry (dp_router s)) PrefillRole 0 \<noteq> []" "live (registry (dp_router s)) DecodeRole 0 \<noteq> []" by auto
  then show thesis using that s e(1-6) by blast
qed

text \<open>A request is accepted and its prefill completion pumped.\<close>

theorem clients_get_the_engines_tokens_witness:
  "\<exists>s0 s :: mock_engine deployment. \<exists>h. (dep_traced mock_ops (\<lambda>_. ''x''))\<^sup>*\<^sup>* (s0, []) (s, h)
    \<and> tokens_since_accepted 1 h = [7] \<and> sent_tokens (mail_of s 1) = [(7, ''x'')]"
proof -
  let ?r = "\<lparr>gr_id = 1, gr_prompt = [1, 2], gr_prompt_text = ''y'', gr_params = (default_params ())\<lparr>max_tokens := 5\<rparr>, gr_arrival_ms = 0, gr_stream = False\<rparr>"
  let ?d = "\<lparr>pcm_id = 1, pcm_first_token = 7, pcm_prompt_len = 2, finished_at_ms = 3\<rparr>"
  obtain s0 :: "mock_engine deployment" where s0: "dep_init s0" "mail s0 = []" "dp_inflight s0 = []" "hung_up s0 = []"
    "live (registry (dp_router s0)) PrefillRole 0 \<noteq> []" "live (registry (dp_router s0)) DecodeRole 0 \<noteq> []"
    "prefill_gone s0 = [False]" "decode_gone s0 = [False]" "length (prefill_jobs s0) = 1" "length (decode_jobs s0) = 1"
    by (rule default_deployment_ready)
  let ?s0 = "s0\<lparr>pdone := [?d]\<rparr>"
  have djs: "decode_jobs s0 \<noteq> []" using s0(10) by auto
  have ok: "fleet_ok s0" "router_inv (dp_router s0)" using dep_init_ok [OF s0(1)] by (simp_all add: dep_ok_def fleet_ok_def)
  obtain x where x: "route (dp_router s0) [1, 2] 0 (slo_ttft_ms (cfg_slo (dp_cfg s0))) = Some (Inr x)"
    using route_live [OF ok(2) s0(5,6)] by blast
  have w: "rd_prefill x = 0" "\<not> rd_decode x < DEP_DECODE_ID_BASE" "rd_decode x - DEP_DECODE_ID_BASE = 0"
    using route_targets [OF ok(1) x] s0(9,10) by auto
  obtain t js where t: "dep_generate 0 ?r ?s0 = Some (Inr (), t)"
    "t = ?s0\<lparr>dp_inflight := hm_insert 1 \<lparr>if_decode_worker = 0, if_max_tokens = 5\<rparr> (dp_inflight s0), mail := hm_insert 1 [] (mail s0), prefill_jobs := js\<rparr>"
    using x w s0(7,9) by (simp add: dep_generate_def Let_def)
  have "dep_traced mock_ops (\<lambda>_. ''x'') (?s0, []) (t, [] @ [Accepted (gr_id ?r)])"
    by (rule tr_accept [OF _ t(1)]) (simp_all add: t(2) s0(2))
  moreover obtain u where u: "pump_prefill (\<lambda>_. ''x'') ?d (t\<lparr>pdone := []\<rparr>) = Some u" "hm_get (dp_inflight u) 1 \<noteq> None" "hung_up u = []"
    using s0(3,4,8) djs by (simp add: t(2) pump_prefill_def send_chunk_def hm_simps)
  moreover have "dep_traced mock_ops (\<lambda>_. ''x'') (t, [Accepted 1]) (u, [Accepted 1] @ [FirstToken ?d])"
    by (rule tr_first [OF _ u(1)]) (simp add: t(2))
  ultimately have run: "(dep_traced mock_ops (\<lambda>_. ''x''))\<^sup>*\<^sup>* (?s0, []) (u, [Accepted 1, FirstToken ?d])" by auto
  have "tokens_since_accepted 1 [Accepted 1, FirstToken ?d] = [7]" by (simp add: tokens_since_accepted_def)
  moreover from clients_get_the_engines_tokens [OF _ _ run, of 1] u(2,3) s0(2,3) calculation
  have "map fst (sent_tokens (mail_of u 1)) = [7]" "\<forall>(tok, w) \<in> set (sent_tokens (mail_of u 1)). w = ''x''" by auto
  then have "sent_tokens (mail_of u 1) = [(7, ''x'')]" by (cases "sent_tokens (mail_of u 1)") auto
  ultimately show ?thesis using run by blast
qed

subsection \<open>The text clients get\<close>

fun chunk_utf8 :: "stream_chunk \<Rightarrow> bool" where
  "chunk_utf8 (TokenChunk _ t) = utf8_valid t"
| "chunk_utf8 (DoneChunk r) = utf8_valid r"
| "chunk_utf8 (ErrorChunk m) = utf8_valid m"

fun json_utf8 :: "json \<Rightarrow> bool" where
  "json_utf8 (JString s) = utf8_valid s"
| "json_utf8 (JArray js) = (\<forall>j \<in> set js. json_utf8 j)"
| "json_utf8 (JObject kvs) = (\<forall>kv \<in> set kvs. utf8_valid (fst kv) \<and> json_utf8 (snd kv))"
| "json_utf8 _ = True"

fun reply_utf8 :: "reply \<Rightarrow> bool" where
  "reply_utf8 (Status _ j) = json_utf8 j"
| "reply_utf8 (EventStream js) = (\<forall>j \<in> set js. json_utf8 j)"
| "reply_utf8 (Completion r) = (utf8_valid (cr_id r) \<and> utf8_valid (cr_object r) \<and> utf8_valid (cr_model r)
     \<and> (\<forall>c \<in> set (cr_choices r). utf8_valid (cc_role c) \<and> utf8_valid (cc_content c) \<and> utf8_valid (cc_finish_reason c)))"

definition mail_utf8 :: "'e deployment \<Rightarrow> bool" where
  "mail_utf8 s \<longleftrightarrow> (\<forall>rid. \<forall>c \<in> set (mail_of s rid). chunk_utf8 c)"

lemma ascii_literal: "list_all (\<lambda>c. of_char c \<le> (127 :: nat)) bs \<Longrightarrow> utf8_valid bs"
  by (rule utf8_valid_ascii) (simp add: byte_in_def list_all_iff)

lemma nat_str_ascii: "list_all (\<lambda>c. of_char c \<le> (127 :: nat)) (nat_str n)"
proof (induction n rule: nat_str.induct)
  case (1 n)
  have "n mod 10 \<le> 79" using mod_less_divisor [of 10 n] by linarith
  then show ?case using 1 by (subst nat_str.simps) (simp add: of_char_of)
qed

lemma request_id_utf8: "utf8_valid (request_id_str rid)"
  using nat_str_ascii by (intro ascii_literal) (simp add: request_id_str_def)

lemma mail_utf8_frame: "mail_utf8 s \<Longrightarrow> mail s' = mail s \<Longrightarrow> mail_utf8 s'"
  by (simp add: mail_utf8_def mail_of_def)

lemma send_utf8: "mail_utf8 s \<Longrightarrow> chunk_utf8 c \<Longrightarrow> mail_utf8 (snd (send_chunk rid c s))"
  by (auto simp: mail_utf8_def send_chunk_def)

lemma forget_utf8: "mail_utf8 (forget_request rid s) \<longleftrightarrow> mail_utf8 s"
  by (simp add: mail_utf8_def)

lemma literals_utf8: "chunk_utf8 (DoneChunk ''length'')" "chunk_utf8 (ErrorChunk ''decode worker gone'')"
  by (auto intro!: ascii_literal)

lemma generate_utf8: "mail_utf8 s \<Longrightarrow> dep_generate now r s = Some (res, s') \<Longrightarrow> mail_utf8 s'"
proof -
  assume u: "mail_utf8 s" "dep_generate now r s = Some (res, s')"
  then have "mail s' = mail s \<or> mail s' = hm_insert (gr_id r) [] (mail s)"
    by (auto simp: dep_generate_def Let_def split: option.splits sum.splits if_splits)
  then have "mail_of s' = mail_of s \<or> mail_of s' = (mail_of s)(gr_id r := [])" by (auto simp: mail_of_def hm_simps)
  then show ?thesis using u(1) by (auto simp: mail_utf8_def split: if_splits)
qed

lemma pump_prefill_utf8:
  assumes "mail_utf8 s" "pump_prefill dec d s = Some s'" "utf8_valid (dec [pcm_first_token d])"
  shows "mail_utf8 s'"
proof -
  let ?c = "TokenChunk (pcm_first_token d) (dec [pcm_first_token d])"
  obtain b s1 where s1: "send_chunk (pcm_id d) ?c s = (b, s1)" by fastforce
  have u: "mail_utf8 s1" using send_utf8 [OF assms(1), of ?c "pcm_id d"] s1 assms(3) by simp
  then have "mail_utf8 (s1\<lparr>decode_jobs := js\<rparr>)" for js by (rule mail_utf8_frame) simp
  then show ?thesis using assms(1,2) s1 u send_utf8 [OF u] literals_utf8
    by (auto simp: pump_prefill_def Let_def forget_utf8 split: option.splits bool.splits if_splits)
qed

lemma pump_decode_utf8:
  assumes "mail_utf8 s" "\<And>tok. utf8_valid (dec [tok])"
  shows "mail_utf8 (pump_decode dec e s)"
proof (cases e)
  case (TokenEvent rid tok)
  obtain b s1 where s1: "send_chunk rid (TokenChunk tok (dec [tok])) s = (b, s1)" by fastforce
  have "mail_utf8 s1" using send_utf8 [OF assms(1), of "TokenChunk tok (dec [tok])" rid] s1 assms(2) by simp
  then show ?thesis using TokenEvent s1 assms(1) by (simp add: forget_utf8 split: option.split bool.split)
next
  case (FinishedEvent rid n)
  then show ?thesis using assms(1) send_utf8 [OF assms(1) literals_utf8(1)] by (simp add: send_after_forget forget_utf8 split: option.split)
qed

lemma dep_step_utf8:
  assumes "mail_utf8 s" "\<And>ts. utf8_valid (dec ts)" "dep_step ops dec s t"
  shows "mail_utf8 t"
  using assms(3)
proof cases
  case (d_generate r now res)
  then show ?thesis using generate_utf8 [OF assms(1)] by blast
next
  case (d_pump_prefill d ds)
  have "mail_utf8 (s\<lparr>pdone := ds\<rparr>)" by (rule mail_utf8_frame [OF assms(1)]) simp
  then show ?thesis using pump_prefill_utf8 d_pump_prefill(2) assms(2) by blast
next
  case (d_pump_decode e es)
  have "mail_utf8 (s\<lparr>devents := es\<rparr>)" by (rule mail_utf8_frame [OF assms(1)]) simp
  then show ?thesis using pump_decode_utf8 d_pump_decode(1) assms(2) by blast
qed (use assms(1) in \<open>simp_all add: dep_sync_loads_def mail_utf8_def mail_of_def\<close>)

lemma dep_run_utf8:
  assumes "(dep_step ops dec)\<^sup>*\<^sup>* s0 s" "dep_init s0" "\<And>ts. utf8_valid (dec ts)"
  shows "mail_utf8 s"
  using assms(1)
proof induction
  case base
  obtain c pes des where "dep_spawn c pes des = Some (Inr s0)" using assms(2) by (auto simp: dep_init_def)
  then have "mail s0 = []" by (auto simp: dep_spawn_def Let_def split: sum.splits if_splits option.splits)
  then show ?case by (simp add: mail_utf8_def mail_of_def)
next
  case (step s t)
  then show ?case using dep_step_utf8 assms(3) by blast
qed

lemma stream_payload_utf8: "chunk_utf8 c \<Longrightarrow> utf8_valid model \<Longrightarrow> json_utf8 (stream_payload rid created model c)"
  by (cases c) (auto simp: stream_payload_def chunk_json_def choice_json_def delta_json_def error_json_def opt_field_def request_id_utf8
      intro!: ascii_literal)

lemma collect_utf8:
  "\<forall>c \<in> set cs. chunk_utf8 c \<Longrightarrow> utf8_valid body_text \<Longrightarrow>
   (case collect cs body_text n of Inl m \<Rightarrow> utf8_valid m | Inr (t, _, r) \<Rightarrow> utf8_valid t \<and> utf8_valid r)"
  by (induction cs body_text n rule: collect.induct) (auto simp: utf8_valid_append intro!: ascii_literal)

text \<open>Everything a client is sent is text. The model has strings as bytes, so that they are valid UTF-8, which the code's types claim, is to be
  shown: in every state a deployment in process reaches, with either tokenizer and whatever tokens the engines return, the events a streaming
  client gets and the answer a collecting client gets, errors included, hold valid UTF-8 in every string and every key.\<close>

theorem clients_get_valid_text:
  assumes "dep_init s0" "(dep_step ops (tok_decode t))\<^sup>*\<^sup>* s0 s" "tokenizer_of_crate t" "utf8_valid model"
  shows "reply_utf8 (sse_response rid created model (mail_of s rid))
    \<and> reply_utf8 (collect_response rid created model n (mail_of s rid))"
proof -
  have m: "\<forall>c \<in> set (mail_of s rid). chunk_utf8 c"
    using dep_run_utf8 [OF assms(2,1) crate_decodes_valid [OF assms(3)]] by (simp add: mail_utf8_def)
  then have "reply_utf8 (sse_response rid created model (mail_of s rid))"
    using stream_payload_utf8 assms(4) by (auto simp: sse_response_def)
  moreover have "utf8_valid ''chat.completion''" "utf8_valid ''assistant''" "utf8_valid ''error''" "utf8_valid ''message''"
    by (auto intro!: ascii_literal)
  then have "reply_utf8 (collect_response rid created model n (mail_of s rid))"
    using collect_utf8 [OF m utf8_nil, of 0] assms(4)
    by (auto simp: collect_response_def error_json_def request_id_utf8 split: sum.split)
  ultimately show ?thesis ..
qed

theorem clients_get_valid_text_witness:
  "\<exists>s. dep_spawn default_config [mock_prefill_worker ''m'' [] 2 sample_cost VirtualTime] [mock_decode_worker ''m'' [] 8 8192 sample_cost VirtualTime]
      = Some (Inr s)
    \<and> reply_utf8 (sse_response 1 0 ''m'' (mail_of s 1)) \<and> reply_utf8 (collect_response 1 0 ''m'' 2 (mail_of s 1))"
proof -
  obtain s :: "mock_engine deployment" where s: "dep_init s"
    "dep_spawn default_config [mock_prefill_worker ''m'' [] 2 sample_cost VirtualTime] [mock_decode_worker ''m'' [] 8 8192 sample_cost VirtualTime] = Some (Inr s)"
    by (rule default_spawns)
  have "tokenizer_of_crate synthetic_tokenizer" "utf8_valid ''m''" by (auto simp: tokenizer_of_crate_def intro!: ascii_literal)
  from clients_get_valid_text [OF s(1) rtranclp.rtrancl_refl this, of 1 0 2] show ?thesis using s(2) by blast
qed

text \<open>A request whose prefill worker is gone is answered with an error and stays registered.\<close>

lemma refused_request_stays_in_flight:
  assumes "route (dp_router s) (gr_prompt r) now (slo_ttft_ms (cfg_slo (dp_cfg s))) = Some (Inr d)" "DEP_DECODE_ID_BASE \<le> rd_decode d"
    "rd_prefill d < length (prefill_jobs s)" "prefill_gone s ! rd_prefill d"
  shows "\<exists>s'. dep_generate now r s = Some (Inl (Engine ''prefill worker gone''), s') \<and> hm_get (dp_inflight s') (gr_id r) \<noteq> None"
  using assms by (simp add: dep_generate_def Let_def hm_simps)

end
