(* ===== verification/Tuner_Csv.thy ===== *)
theory Tuner_Csv
  imports Wire_Sse Block_Pool
begin

text \<open>
  \<open>crates/tuner/src/csv.rs\<close>: the reader of AIConfigurator's tables.

  Strings are their UTF-8 bytes; every separator is ASCII, so the scanner sees the same separators as one
  that goes character by character. A number that is written \<open>inf\<close> or \<open>nan\<close> is not read.
\<close>

subsection \<open>Records\<close>

abbreviation QUOTE :: char where "QUOTE \<equiv> CHR 0x22"
abbreviation COMMA :: char where "COMMA \<equiv> CHR '',''"

type_synonym csv_record = "string list"

text \<open>The scanner: the rest of the text, the field and the record so far, and whether it is inside quotes.\<close>

fun scan_csv :: "string \<Rightarrow> string \<Rightarrow> csv_record \<Rightarrow> bool \<Rightarrow> csv_record list" where
  "scan_csv [] field rcd q = (if field \<noteq> [] \<or> rcd \<noteq> [] then [rcd @ [field]] else [])"
| "scan_csv (c # cs) field rcd q =
    (if c = QUOTE \<and> q then
       (case cs of d # cs' \<Rightarrow> if d = QUOTE then scan_csv cs' (field @ [QUOTE]) rcd True else scan_csv cs field rcd False
        | [] \<Rightarrow> scan_csv cs field rcd False)
     else if c = QUOTE then scan_csv cs field rcd True
     else if c = COMMA \<and> \<not> q then scan_csv cs [] (rcd @ [field]) q
     else if c = CR \<and> \<not> q then scan_csv cs field rcd q
     else if c = LF \<and> \<not> q then (rcd @ [field]) # scan_csv cs [] [] q
     else scan_csv cs (field @ [c]) rcd q)"

definition parse_records :: "string \<Rightarrow> csv_record list" where
  "parse_records s = scan_csv s [] [] False"

subsection \<open>Tables\<close>

record csv_table =
  header :: "string list"
  rows :: "csv_record list"

definition table_parse :: "string \<Rightarrow> error + csv_table" where
  "table_parse s = (case parse_records s of [] \<Rightarrow> Inl (Config ''empty CSV'')
     | h # rs \<Rightarrow> Inr \<lparr>header = map trim h, rows = filter (\<lambda>r. \<exists>c \<in> set r. trim c \<noteq> []) rs\<rparr>)"

definition ascii_lower :: "char \<Rightarrow> char" where
  "ascii_lower c = (if byte_in 65 90 c then char_of (of_char c + 32 :: nat) else c)"

definition lowercase :: "string \<Rightarrow> string" where
  "lowercase s = map ascii_lower s"

definition str_contains :: "string \<Rightarrow> string \<Rightarrow> bool" where
  "str_contains h n = list_ex (prefix n) (suffixes h)"

fun position :: "('a \<Rightarrow> bool) \<Rightarrow> 'a list \<Rightarrow> nat option" where
  "position p [] = None"
| "position p (x # xs) = (if p x then Some 0 else map_option Suc (position p xs))"

definition column :: "csv_table \<Rightarrow> string list \<Rightarrow> nat option" where
  "column t needles = position (\<lambda>h. \<forall>n \<in> set needles. str_contains (lowercase h) (lowercase n)) (header t)"

definition cell :: "csv_table \<Rightarrow> csv_record \<Rightarrow> string list \<Rightarrow> string option" where
  "cell t row needles = (case column t needles of None \<Rightarrow> None
     | Some i \<Rightarrow> if i < length row then Some (trim (row ! i)) else None)"

text \<open>\<open>str::parse::<f64>\<close>: a sign, digits with a point among them, an exponent.\<close>

definition is_digit :: "char \<Rightarrow> bool" where
  "is_digit c \<longleftrightarrow> byte_in 48 57 c"

definition digits_value :: "string \<Rightarrow> nat" where
  "digits_value ds = foldl (\<lambda>a d. a * 10 + (of_char d - 48)) 0 ds"

definition take_sign :: "string \<Rightarrow> real \<times> string" where
  "take_sign s = (case s of [] \<Rightarrow> (1, []) | c # r \<Rightarrow> if c = CHR ''-'' then (- 1, r) else if c = CHR ''+'' then (1, r) else (1, s))"

definition parse_f64 :: "string \<Rightarrow> real option" where
  "parse_f64 s =
    (let (sg, s1) = take_sign s; a = takeWhile is_digit s1; s2 = dropWhile is_digit s1;
         (b, s3) = (case s2 of [] \<Rightarrow> ([], s2) | c # r \<Rightarrow> if c = CHR ''.'' then (takeWhile is_digit r, dropWhile is_digit r) else ([], s2));
         v = sg * real (digits_value (a @ b)) / 10 ^ length b
     in if a = [] \<and> b = [] then None
        else case s3 of [] \<Rightarrow> Some v
        | c # r \<Rightarrow>
           if c \<noteq> CHR ''e'' \<and> c \<noteq> CHR ''E'' then None
           else let (esg, r1) = take_sign r; ds = takeWhile is_digit r1
             in if ds = [] \<or> dropWhile is_digit r1 \<noteq> [] then None
                else Some (if esg > 0 then v * 10 ^ digits_value ds else v / 10 ^ digits_value ds))"

definition number :: "csv_table \<Rightarrow> csv_record \<Rightarrow> string list \<Rightarrow> real option" where
  "number t row needles = Option.bind (cell t row needles) (\<lambda>s. parse_f64 (filter (\<lambda>c. c \<noteq> COMMA) s))"

definition row_map :: "csv_table \<Rightarrow> csv_record \<Rightarrow> (string, string) hmap" where
  "row_map t row = foldl (\<lambda>m (k, v). hm_insert k v m) [] (zip (header t) row)"

subsection \<open>Reading back\<close>

text \<open>The writers of RFC 4180. A field is spelt in quotes, its own quotes doubled, or bare when it holds no comma, quote or line
  break; fields are separated by commas; a record ends with CRLF or with LF; the last record may go without its line break.\<close>

definition quote_field :: "string \<Rightarrow> string" where
  "quote_field f = QUOTE # concat (map (\<lambda>c. if c = QUOTE then [QUOTE, QUOTE] else [c]) f) @ [QUOTE]"

definition bare_ok :: "string \<Rightarrow> bool" where
  "bare_ok f \<longleftrightarrow> (\<forall>c \<in> set f. c \<noteq> QUOTE \<and> c \<noteq> COMMA \<and> c \<noteq> CR \<and> c \<noteq> LF)"

type_synonym spelt_field = "bool \<times> string"

definition field_ok :: "spelt_field \<Rightarrow> bool" where
  "field_ok x \<longleftrightarrow> fst x \<or> bare_ok (snd x)"

definition spell_field :: "spelt_field \<Rightarrow> string" where
  "spell_field x = (if fst x then quote_field (snd x) else snd x)"

fun spell_fields :: "spelt_field list \<Rightarrow> string" where
  "spell_fields [] = []"
| "spell_fields [x] = spell_field x"
| "spell_fields (x # xs) = spell_field x @ [COMMA] @ spell_fields xs"

definition spell_record :: "spelt_field list \<times> bool \<Rightarrow> string" where
  "spell_record r = spell_fields (fst r) @ (if snd r then [CR, LF] else [LF])"

definition spell_file :: "(spelt_field list \<times> bool) list \<Rightarrow> spelt_field list \<Rightarrow> string" where
  "spell_file rs final = concat (map spell_record rs) @ spell_fields final"

definition file_records :: "(spelt_field list \<times> bool) list \<Rightarrow> spelt_field list \<Rightarrow> csv_record list" where
  "file_records rs final = map (\<lambda>r. map snd (fst r)) rs @ (if final = [] then [] else [map snd final])"

lemma scan_quoted:
  assumes "rest = [] \<or> hd rest \<noteq> QUOTE"
  shows "scan_csv (concat (map (\<lambda>c. if c = QUOTE then [QUOTE, QUOTE] else [c]) f) @ QUOTE # rest) acc rcd True = scan_csv rest (acc @ f) rcd False"
proof (induction f arbitrary: acc)
  case Nil
  then show ?case using assms by (cases rest) auto
next
  case (Cons c f)
  show ?case using Cons.IH [of "acc @ [c]"] by (cases "c = QUOTE") auto
qed

lemma scan_bare: "bare_ok f \<Longrightarrow> scan_csv (f @ rest) acc rcd False = scan_csv rest (acc @ f) rcd False"
  by (induction f arbitrary: acc) (auto simp: bare_ok_def)

lemma scan_field:
  assumes "rest = [] \<or> hd rest \<noteq> QUOTE" "field_ok x"
  shows "scan_csv (spell_field x @ rest) [] rcd False = scan_csv rest (snd x) rcd False"
  using scan_quoted [OF assms(1), of "snd x" "[]" rcd] scan_bare [of "snd x" rest "[]" rcd] assms(2)
  by (auto simp: spell_field_def quote_field_def field_ok_def)

lemma scan_fields:
  "xs \<noteq> [] \<Longrightarrow> \<forall>x \<in> set xs. field_ok x \<Longrightarrow> rest = [] \<or> hd rest \<noteq> QUOTE \<Longrightarrow>
   scan_csv (spell_fields xs @ rest) [] rcd False = scan_csv rest (snd (last xs)) (rcd @ map snd (butlast xs)) False"
proof (induction xs arbitrary: rcd rule: spell_fields.induct)
  case (2 x)
  then show ?case using scan_field [of rest x rcd] by simp
next
  case (3 x y ys)
  have "scan_csv (spell_fields (x # y # ys) @ rest) [] rcd False = scan_csv (COMMA # spell_fields (y # ys) @ rest) (snd x) rcd False"
    using scan_field [of "COMMA # spell_fields (y # ys) @ rest" x rcd] 3(3) by simp
  then show ?case using 3(1) [of "rcd @ [snd x]"] 3(3,4) by simp
qed simp

lemma snoc_snd: "xs \<noteq> [] \<Longrightarrow> map snd (butlast xs) @ [snd (last xs)] = map snd xs"
  by (metis append_butlast_last_id list.simps(8,9) map_append)

lemma scan_record:
  assumes "fst r \<noteq> []" "\<forall>x \<in> set (fst r). field_ok x"
  shows "scan_csv (spell_record r @ rest) [] [] False = map snd (fst r) # scan_csv rest [] [] False"
  using scan_fields [OF assms, of "CR # LF # rest" "[]"] scan_fields [OF assms, of "LF # rest" "[]"] snoc_snd [OF assms(1)]
  by (simp add: spell_record_def)

lemma scan_final:
  assumes "final \<noteq> []" "\<forall>x \<in> set final. field_ok x" "map snd final \<noteq> [[]]"
  shows "scan_csv (spell_fields final) [] [] False = [map snd final]"
proof -
  have "snd (last final) \<noteq> [] \<or> butlast final \<noteq> []"
    using assms(1,3) by (cases final rule: rev_cases) auto
  then show ?thesis using scan_fields [OF assms(1,2), of "[]" "[]"] snoc_snd [OF assms(1)] by auto
qed

text \<open>C34. Files that follow RFC 4180 are read back. Whichever fields the writer quotes (it may leave a field bare when it holds no comma,
  quote or line break), whether it ends a record with LF or with CRLF, and whether or not it ends the last record, the reader returns
  the fields of the records, whatever other bytes they hold, and \<open>Table::parse\<close> the first record, trimmed, as the header, and as rows those of the
  others that hold something besides white space. The one exception is a last record of a single empty field without a line
  break, which is an empty line that the reader drops.\<close>

theorem written_records_are_read_back:
  assumes "\<forall>r \<in> set rs. fst r \<noteq> [] \<and> (\<forall>x \<in> set (fst r). field_ok x)" "\<forall>x \<in> set final. field_ok x" "map snd final \<noteq> [[]]"
  shows "parse_records (spell_file rs final) = file_records rs final
    \<and> table_parse (spell_file rs final) = (case file_records rs final of [] \<Rightarrow> Inl (Config ''empty CSV'')
        | h # bs \<Rightarrow> Inr \<lparr>header = map trim h, rows = filter (\<lambda>r. \<exists>c \<in> set r. trim c \<noteq> []) bs\<rparr>)"
proof -
  have last_one: "scan_csv (spell_fields final) [] [] False = (if final = [] then [] else [map snd final])"
    using scan_final [OF _ assms(2,3)] by auto
  have "scan_csv (concat (map spell_record rs) @ spell_fields final) [] [] False = file_records rs final"
    using assms(1) by (induction rs) (simp_all add: scan_record last_one file_records_def)
  then have "parse_records (spell_file rs final) = file_records rs final" by (simp add: parse_records_def spell_file_def)
  then show ?thesis by (simp add: table_parse_def)
qed

theorem written_records_are_read_back_witness:
  "parse_records (''name,'' @ [QUOTE] @ ''x,y'' @ [QUOTE, CR, LF] @ ''1,'' @ [QUOTE, QUOTE, QUOTE, LF, QUOTE, LF] @ ''2,'')
     = [[''name'', ''x,y''], [''1'', [QUOTE, LF]], [''2'', []]]"
proof -
  let ?rs = "[([(False, ''name''), (True, ''x,y'')], True), ([(False, ''1''), (True, [QUOTE, LF])], False)]"
    and ?final = "[(False, ''2''), (False, [])]"
  have "\<forall>r \<in> set ?rs. fst r \<noteq> [] \<and> (\<forall>x \<in> set (fst r). field_ok x)" "\<forall>x \<in> set ?final. field_ok x" "map snd ?final \<noteq> [[]]"
    by (simp_all add: field_ok_def bare_ok_def)
  from written_records_are_read_back [OF this] show ?thesis
    by (simp add: spell_file_def spell_record_def spell_field_def quote_field_def file_records_def)
qed

end
