(* ===== verification/Tuner.thy ===== *)
theory Tuner
  imports Tuner_Csv Deployment_Config
begin

text \<open>
  \<open>crates/tuner/src/{aic,lib}.rs\<close>: the parallel layouts AIConfigurator spells, the candidates read from its result
  directories, how one is laid over a configuration, and the command lines that start it.

  32-bit products wrap, as in a release build. A slice that cuts a character in two panics (\<open>None\<close>). A directory tree is
  the data of \<open>entry\<close>.
\<close>

subsection \<open>Numbers\<close>

text \<open>\<open>as u32\<close> of a finite number saturates.\<close>

definition as_u32 :: "real \<Rightarrow> nat" where
  "as_u32 x = min (nat \<lfloor>x\<rfloor>) (2 ^ 32 - 1)"

definition round_even :: "real \<Rightarrow> nat" where
  "round_even x = (let f = nat \<lfloor>x\<rfloor>; d = x - real f
     in if d < 1 / 2 then f else if d > 1 / 2 then f + 1 else if even f then f else f + 1)"

text \<open>\<open>{:.k}\<close> of a number.\<close>

definition fixed_str :: "nat \<Rightarrow> real \<Rightarrow> string" where
  "fixed_str k x = (let n = round_even (\<bar>x\<bar> * 10 ^ k); frac = nat_str (n mod 10 ^ k)
     in (if x < 0 then ''-'' else []) @ nat_str (n div 10 ^ k) @
        (if k = 0 then [] else ''.'' @ replicate (k - length frac) (CHR ''0'') @ frac))"

fun f_fixed :: "nat \<Rightarrow> f64 \<Rightarrow> string" where
  "f_fixed k NegInf = ''-inf''"
| "f_fixed k NegZero = ''-'' @ fixed_str k 0"
| "f_fixed k (Num x) = fixed_str k x"
| "f_fixed k PosInf = ''inf''"
| "f_fixed k NaN = ''NaN''"

subsection \<open>Layouts\<close>

datatype deployment_mode = Agg | Disagg

fun mode_str :: "deployment_mode \<Rightarrow> string" where
  "mode_str Agg = ''agg''"
| "mode_str Disagg = ''disagg''"

record parallel_spec =
  tp :: nat
  pp :: nat
  ep :: nat
  dp :: nat

definition spec_gpus :: "parallel_spec \<Rightarrow> nat" where
  "spec_gpus s = max (tp s) 1 * max (pp s) 1 * max (dp s) 1 mod 2 ^ 32"

definition spell_dim :: "string \<times> nat \<Rightarrow> string" where
  "spell_dim kv' = (if snd kv' > 1 then fst kv' @ nat_str (snd kv') else [])"

definition spell :: "parallel_spec \<Rightarrow> string" where
  "spell s = (let out = concat (map spell_dim [(''tp'', tp s), (''pp'', pp s), (''dp'', dp s), (''ep'', ep s)])
     in if out = [] then ''tp1'' else out)"

definition set_dim :: "string \<Rightarrow> nat \<Rightarrow> parallel_spec \<Rightarrow> parallel_spec" where
  "set_dim k v s = (if k = ''tp'' then s\<lparr>tp := v\<rparr> else if k = ''pp'' then s\<lparr>pp := v\<rparr>
     else if k = ''ep'' then s\<lparr>ep := v\<rparr> else if k = ''dp'' then s\<lparr>dp := v\<rparr> else s)"

text \<open>The loop of \<open>ParallelSpec::parse\<close> over the rest of the text. The inner option is the function's result.\<close>

function spec_loop :: "bool \<Rightarrow> parallel_spec \<Rightarrow> string \<Rightarrow> parallel_spec option option" where
  "spec_loop saw_any out s =
    (if length s < 2 then Some (if saw_any then Some out else None)
     else if 2 < length s \<and> is_cont (s ! 2) then None
     else let ds = takeWhile is_digit (drop 2 s)
       in if ds = [] then Some (if saw_any then Some out else None)
          else if digits_value ds > u32_max then Some None
          else spec_loop True (set_dim (take 2 s) (digits_value ds) out) (drop (2 + length ds) s))"
  by pat_completeness auto
termination by (relation "measure (\<lambda>(_, _, s). length s)") auto

declare spec_loop.simps [simp del]

definition unit_spec :: parallel_spec where
  "unit_spec = \<lparr>tp = 1, pp = 1, ep = 1, dp = 1\<rparr>"

definition spec_parse :: "string \<Rightarrow> parallel_spec option option" where
  "spec_parse str = (let s = lowercase (trim str) in if s = [] then Some None else spec_loop False unit_spec s)"

subsection \<open>Candidates\<close>

record aic_candidate =
  ac_source :: string
  ac_mode :: deployment_mode
  ac_prefill :: "parallel_spec option"
  ac_decode :: "parallel_spec option"
  ac_prefill_workers :: nat
  ac_decode_workers :: nat
  prefill_gpus_per_worker :: nat
  decode_gpus_per_worker :: nat
  ac_total_gpus :: nat
  predicted_seq_s :: "real option"
  predicted_tokens_s_per_gpu :: "real option"
  ac_predicted_ttft_ms :: "real option"
  predicted_tpot_ms :: "real option"
  predicted_concurrency :: "real option"
  raw :: "(string, string) hmap"

definition apply_to :: "aic_candidate \<Rightarrow> config \<Rightarrow> config option" where
  "apply_to a base =
    (if ac_mode a = Agg then None
     else if prefill_gpus_per_worker a = 0 \<or> decode_gpus_per_worker a = 0 \<or> ac_prefill_workers a = 0 \<or> ac_decode_workers a = 0 then None
     else Some (base\<lparr>cfg_topology := (cfg_topology base)\<lparr>tc_prefill_tp := prefill_gpus_per_worker a, tc_decode_tp := decode_gpus_per_worker a,
        tc_prefill_workers := ac_prefill_workers a, tc_decode_workers := ac_decode_workers a,
        total_gpus := (if ac_total_gpus a > 0 then ac_total_gpus a else total_gpus (cfg_topology base))\<rparr>\<rparr>))"

definition spell_side :: "nat \<Rightarrow> nat \<Rightarrow> parallel_spec option \<Rightarrow> string" where
  "spell_side n gpus s = nat_str n @ ''x'' @ nat_str gpus @ ''gpu'' @ (case s of None \<Rightarrow> [] | Some s \<Rightarrow> '':'' @ spell s)"

definition label :: "aic_candidate \<Rightarrow> string" where
  "label a = mode_str (ac_mode a) @ '' P['' @ spell_side (ac_prefill_workers a) (prefill_gpus_per_worker a) (ac_prefill a)
     @ ''] D['' @ spell_side (ac_decode_workers a) (decode_gpus_per_worker a) (ac_decode a) @ '']''"

definition side_number :: "csv_table \<Rightarrow> csv_record \<Rightarrow> string \<Rightarrow> string \<Rightarrow> nat option" where
  "side_number t row side k = map_option (\<lambda>v. max (as_u32 v) 1) (number t row [side, k])"

definition opt_or :: "'a option \<Rightarrow> 'a \<Rightarrow> 'a" where
  "opt_or v d = (case v of None \<Rightarrow> d | Some x \<Rightarrow> x)"

definition parse_cell :: "string option \<Rightarrow> parallel_spec option option" where
  "parse_cell v = (case v of None \<Rightarrow> Some None | Some s \<Rightarrow> spec_parse s)"

definition side_spec :: "csv_table \<Rightarrow> csv_record \<Rightarrow> string \<Rightarrow> parallel_spec option option" where
  "side_spec t row side =
    (case (side_number t row side ''tp'', side_number t row side ''pp'') of
       (Some a, Some b) \<Rightarrow> Some (Some \<lparr>tp = a, pp = b, ep = opt_or (side_number t row side ''moe_ep'') 1, dp = opt_or (side_number t row side ''dp'') 1\<rparr>)
     | _ \<Rightarrow> parse_cell (cell t row [side, ''parallel'']))"

definition first_some :: "'a option \<Rightarrow> 'a option \<Rightarrow> 'a option" where
  "first_some v w = (case v of None \<Rightarrow> w | Some x \<Rightarrow> Some x)"

definition agg_replicas :: "csv_table \<Rightarrow> csv_record \<Rightarrow> nat \<Rightarrow> real option" where
  "agg_replicas t row gpus =
    first_some (number t row [''replicas'']) (first_some (number t row [''workers''])
      (case number t row [''num_total_gpus''] of None \<Rightarrow> None
       | Some total' \<Rightarrow> if gpus > 0 then Some (of_int \<lfloor>total' / real gpus\<rfloor>) else None))"

definition row_layout :: "csv_table \<Rightarrow> deployment_mode \<Rightarrow> csv_record \<Rightarrow>
    (parallel_spec option \<times> parallel_spec option \<times> real option \<times> real option) option" where
  "row_layout t mode row =
    (case mode of
       Disagg \<Rightarrow>
        (case side_spec t row ''(p)'' of None \<Rightarrow> None
         | Some p \<Rightarrow> (case side_spec t row ''(d)'' of None \<Rightarrow> None
            | Some d \<Rightarrow> Some (p, d, number t row [''(p)'', ''workers''], number t row [''(d)'', ''workers''])))
     | Agg \<Rightarrow>
        (case parse_cell (cell t row [''parallel'']) of None \<Rightarrow> None
         | Some one \<Rightarrow>
            let n = agg_replicas t row (case one of None \<Rightarrow> 0 | Some s \<Rightarrow> spec_gpus s)
            in Some (one, one, n, n)))"

definition candidate_from_row :: "csv_table \<Rightarrow> deployment_mode \<Rightarrow> string \<Rightarrow> csv_record \<Rightarrow> aic_candidate option" where
  "candidate_from_row t mode source row =
    (case row_layout t mode row of None \<Rightarrow> None
     | Some (p, d, pw, dw) \<Rightarrow> Some \<lparr>ac_source = source, ac_mode = mode, ac_prefill = p, ac_decode = d,
         ac_prefill_workers = as_u32 (opt_or pw 0), ac_decode_workers = as_u32 (opt_or dw 0),
         prefill_gpus_per_worker = (case p of None \<Rightarrow> 0 | Some s \<Rightarrow> spec_gpus s),
         decode_gpus_per_worker = (case d of None \<Rightarrow> 0 | Some s \<Rightarrow> spec_gpus s),
         ac_total_gpus = as_u32 (opt_or (first_some (number t row [''num_total_gpus'']) (number t row [''total'', ''gpus''])) 0),
         predicted_seq_s = number t row [''seq/s''], predicted_tokens_s_per_gpu = number t row [''tokens/s/gpu''],
         ac_predicted_ttft_ms = number t row [''ttft''], predicted_tpot_ms = number t row [''tpot''],
         predicted_concurrency = number t row [''concurrency''], raw = row_map t row\<rparr>)"

fun all_some :: "'a option list \<Rightarrow> 'a list option" where
  "all_some [] = Some []"
| "all_some (None # xs) = None"
| "all_some (Some x # xs) = map_option ((#) x) (all_some xs)"

definition candidates_from_table :: "csv_table \<Rightarrow> deployment_mode \<Rightarrow> string \<Rightarrow> aic_candidate list option" where
  "candidates_from_table t mode source = all_some (map (candidate_from_row t mode source) (rows t))"

subsection \<open>The invocation\<close>

record aic_run =
  model_path :: string
  system :: string
  ar_backend :: string
  backend_version :: "string option"
  ar_total_gpus :: nat
  ar_isl :: nat
  ar_osl :: nat
  ar_ttft_ms :: real
  tpot_ms :: real
  save_dir :: string
  database_mode :: "string option"
  deployment_target :: "string option"

definition run_from_config :: "config \<Rightarrow> string \<Rightarrow> string \<Rightarrow> string \<Rightarrow> aic_run" where
  "run_from_config c sys be dir = \<lparr>model_path = mc_name (cfg_model c), system = sys, ar_backend = be, backend_version = None,
     ar_total_gpus = total_gpus (cfg_topology c), ar_isl = wl_isl (workload c), ar_osl = wl_osl (workload c),
     ar_ttft_ms = slo_ttft_ms (cfg_slo c), tpot_ms = slo_itl_ms (cfg_slo c), save_dir = dir,
     database_mode = Some ''SILICON'', deployment_target = None\<rparr>"

definition support_command :: "aic_run \<Rightarrow> string list" where
  "support_command r = [''aiconfigurator'', ''cli'', ''support'', ''--model-path'', model_path r, ''--system'', system r, ''--backend'', ar_backend r]"

definition flag_arg :: "string \<Rightarrow> string option \<Rightarrow> string list" where
  "flag_arg name v = (case v of None \<Rightarrow> [] | Some x \<Rightarrow> [name, x])"

definition search_command :: "aic_run \<Rightarrow> string list" where
  "search_command r = [''aiconfigurator'', ''cli'', ''default'', ''--model-path'', model_path r, ''--system'', system r,
     ''--backend'', ar_backend r, ''--total-gpus'', nat_str (ar_total_gpus r), ''--isl'', nat_str (ar_isl r), ''--osl'', nat_str (ar_osl r),
     ''--ttft'', fixed_str 0 (ar_ttft_ms r), ''--tpot'', fixed_str 2 (tpot_ms r), ''--save-dir'', save_dir r]
     @ flag_arg ''--backend-version'' (backend_version r) @ flag_arg ''--database-mode'' (database_mode r)
     @ flag_arg ''--deployment-target'' (deployment_target r)"

fun shell :: "string list \<Rightarrow> string" where
  "shell [] = []"
| "shell [a] = a"
| "shell (a # as) = a @ '' '' @ shell as"

subsection \<open>Result directories\<close>

datatype entry = Folder "(string \<times> entry) list" | File string

fun str_le :: "string \<Rightarrow> string \<Rightarrow> bool" where
  "str_le [] t = True"
| "str_le (c # s) [] = False"
| "str_le (c # s) (d # t) = (if c = d then str_le s t else (of_char c :: nat) < of_char d)"

fun insert_child :: "string \<times> entry \<Rightarrow> (string \<times> entry) list \<Rightarrow> (string \<times> entry) list" where
  "insert_child x [] = [x]"
| "insert_child x (y # ys) = (if str_le (fst x) (fst y) then x # y # ys else y # insert_child x ys)"

definition child_dirs :: "(string \<times> entry) list \<Rightarrow> (string \<times> entry) list" where
  "child_dirs es = foldr insert_child (filter (\<lambda>(_, e). case e of Folder _ \<Rightarrow> True | File _ \<Rightarrow> False) es) []"

text \<open>Six levels: depths 0 to \<open>MAX_DEPTH\<close>.\<close>

fun find_result_dirs :: "nat \<Rightarrow> string \<Rightarrow> (string \<times> entry) list \<Rightarrow> (string \<times> (string \<times> entry) list \<times> deployment_mode) list" where
  "find_result_dirs 0 path es = []"
| "find_result_dirs (Suc n) path es = concat (map (\<lambda>(name, e).
     (case e of File _ \<Rightarrow> []
      | Folder sub \<Rightarrow>
         let here = path @ ''/'' @ name
         in if name = ''agg'' then [(here, sub, Agg)] else if name = ''disagg'' then [(here, sub, Disagg)]
            else if name = ''top1'' then [] else find_result_dirs n here sub)) (child_dirs es))"

definition candidate_file :: "(string \<times> entry) list \<Rightarrow> (string \<times> entry) option" where
  "candidate_file sub = (case map_of sub ''best_config_topn.csv'' of
     Some e \<Rightarrow> Some (''best_config_topn.csv'', e)
   | None \<Rightarrow> (case map_of sub ''pareto.csv'' of Some e \<Rightarrow> Some (''pareto.csv'', e) | None \<Rightarrow> None))"

definition load_dir :: "(string \<Rightarrow> string) \<Rightarrow> string \<times> (string \<times> entry) list \<times> deployment_mode \<Rightarrow> (error + aic_candidate list) option" where
  "load_dir os_error d = (case d of (path, sub, mode) \<Rightarrow>
     (case candidate_file sub of None \<Rightarrow> Some (Inr [])
      | Some (name, e) \<Rightarrow>
         let here = path @ ''/'' @ name
         in (case e of Folder _ \<Rightarrow> Some (Inl (Config (here @ '': '' @ os_error here)))
             | File body_text \<Rightarrow>
                (case table_parse body_text of Inl er \<Rightarrow> Some (Inl er)
                 | Inr t \<Rightarrow> map_option Inr (candidates_from_table t mode here)))))"

fun load_all :: "(string \<Rightarrow> string) \<Rightarrow> (string \<times> (string \<times> entry) list \<times> deployment_mode) list \<Rightarrow> (error + aic_candidate list) option" where
  "load_all os_error [] = Some (Inr [])"
| "load_all os_error (d # ds) = (case load_dir os_error d of None \<Rightarrow> None
     | Some (Inl e) \<Rightarrow> Some (Inl e)
     | Some (Inr cs) \<Rightarrow> (case load_all os_error ds of None \<Rightarrow> None
        | Some (Inl e) \<Rightarrow> Some (Inl e) | Some (Inr cs') \<Rightarrow> Some (Inr (cs @ cs'))))"

definition load_candidates :: "(string \<Rightarrow> string) \<Rightarrow> string \<Rightarrow> (string \<times> entry) list \<Rightarrow> (error + aic_candidate list) option" where
  "load_candidates os_error dir es = load_all os_error (find_result_dirs 6 dir es)"

subsection \<open>Spelling and parsing\<close>

lemma digit_char: "n < 10 \<Longrightarrow> of_char (char_of (48 + n) :: char) = 48 + (n :: nat)"
  by simp

lemma nat_str_nonempty: "nat_str n \<noteq> []"
  by (subst nat_str.simps) simp

lemma nat_str_digits: "\<forall>c \<in> set (nat_str n). is_digit c"
proof (induction n rule: nat_str.induct)
  case (1 n)
  have "n mod 10 \<le> 9" by (simp add: less_Suc_eq_le [symmetric])
  then show ?case using 1 by (subst nat_str.simps) (auto simp: is_digit_def byte_in_def)
qed

lemma digits_nat_str [simp]: "digits_value (nat_str n) = n"
proof (induction n rule: nat_str.induct)
  case (1 n)
  then show ?case by (subst nat_str.simps) (auto simp: digits_value_def digit_char)
qed

lemma take_digits:
  assumes "rest = [] \<or> \<not> is_digit (hd rest)"
  shows "takeWhile is_digit (nat_str n @ rest) = nat_str n"
  using assms nat_str_digits [of n] by (cases rest) (auto simp: takeWhile_tail)

text \<open>One group of a spelled layout.\<close>

definition a_key :: "string \<Rightarrow> bool" where
  "a_key k \<longleftrightarrow> k \<in> {''tp'', ''pp'', ''dp'', ''ep''}"

lemma spec_loop_group:
  assumes k: "a_key k" and v: "v \<le> u32_max" and rest: "rest = [] \<or> \<not> is_digit (hd rest)"
  shows "spec_loop b out (k @ nat_str v @ rest) = spec_loop True (set_dim k v out) rest"
proof -
  have two: "length k = 2" using k by (auto simp: a_key_def)
  have cont: "\<not> is_cont ((k @ nat_str v @ rest) ! 2)"
    using nat_str_digits [of v] nat_str_nonempty [of v] two by (cases "nat_str v") (auto simp: nth_append is_digit_def is_cont_def byte_in_def)
  have ds: "takeWhile is_digit (drop 2 (k @ nat_str v @ rest)) = nat_str v" using two take_digits [OF rest] by simp
  have "drop (2 + length (nat_str v)) (k @ nat_str v @ rest) = rest" "take 2 (k @ nat_str v @ rest) = k" using two by simp_all
  then show ?thesis using ds cont two v nat_str_nonempty [of v]
    by (subst spec_loop.simps) (simp add: Let_def)
qed

lemma spec_loop_end: "spec_loop b out [] = Some (if b then Some out else None)"
  by (subst spec_loop.simps) simp

lemma spell_dim_pair: "spell_dim (k, v) = (if v > 1 then k @ nat_str v else [])"
  by (simp add: spell_dim_def)

fun set_dims :: "(string \<times> nat) list \<Rightarrow> parallel_spec \<Rightarrow> parallel_spec" where
  "set_dims [] s = s"
| "set_dims ((k, v) # kvs) s = set_dims kvs (if v > 1 then set_dim k v s else s)"

lemma spelled_head:
  assumes "list_all (\<lambda>(k, v). a_key k) kvs"
  shows "concat (map spell_dim kvs) = [] \<or> \<not> is_digit (hd (concat (map spell_dim kvs)))"
  using assms by (induction kvs) (auto simp: spell_dim_def a_key_def is_digit_def byte_in_def)

lemma spec_loop_groups:
  assumes "list_all (\<lambda>(k, v). a_key k \<and> v \<le> u32_max) kvs"
  shows "spec_loop b out (concat (map spell_dim kvs)) =
    Some (if b \<or> (\<exists>kv \<in> set kvs. snd kv > 1) then Some (set_dims kvs out) else None)"
  using assms
proof (induction kvs arbitrary: b out)
  case (Cons x kvs)
  obtain k v where x: "x = (k, v)" by (cases x)
  have "list_all (\<lambda>(k, v). a_key k) kvs" using Cons.prems by (auto simp: list_all_iff)
  note group = spec_loop_group [OF _ _ spelled_head [OF this], of k v b out]
  show ?case using group Cons.prems Cons.IH [of True "set_dim k v out"] Cons.IH [of b out] by (cases b) (simp_all add: x spell_dim_pair)
qed (simp add: spec_loop_end)

definition printable :: "string \<Rightarrow> bool" where
  "printable s \<longleftrightarrow> (\<forall>c \<in> set s. 32 < (of_char c :: nat) \<and> (of_char c :: nat) < 128)"

lemma wide_space_bytes: "wide_space bs \<Longrightarrow> bs \<noteq> [] \<and> (\<forall>b \<in> set bs. 128 \<le> b)"
  by (auto simp: wide_space_def)

lemma narrow:
  assumes "printable s"
  shows "\<not> wide_space (map of_char s)"
  using wide_space_bytes [of "map of_char s"] assms by (cases s) (auto simp: printable_def)

lemma printable_parts: "printable s \<Longrightarrow> printable (take n s)" "printable s \<Longrightarrow> printable (drop n s)"
  by (auto simp: printable_def dest: in_set_takeD in_set_dropD)

lemma printable_not_space: "printable s \<Longrightarrow> c \<in> set s \<Longrightarrow> \<not> ascii_space c"
  by (auto simp: printable_def ascii_space_def byte_in_def)

lemma trim_printable:
  assumes "printable s"
  shows "trim s = s"
proof -
  have "space_len s = 0" "space_len_end s = 0"
    using narrow [OF printable_parts(1) [OF assms]] narrow [OF printable_parts(2) [OF assms]] printable_not_space [OF assms]
    by (simp_all add: space_len_def space_len_end_def)
  moreover have "trim_start n s = s" if "space_len s = 0" for n using that by (cases n) simp_all
  moreover have "trim_end n s = s" if "space_len_end s = 0" for n using that by (cases n) simp_all
  ultimately show ?thesis by (simp add: trim_def)
qed

definition plain_char :: "char \<Rightarrow> bool" where
  "plain_char c \<longleftrightarrow> byte_in 48 57 c \<or> byte_in 97 122 c"

lemma plain_string: "\<forall>c \<in> set s. plain_char c \<Longrightarrow> printable s \<and> lowercase s = s"
  by (auto simp: plain_char_def printable_def lowercase_def ascii_lower_def byte_in_def intro!: map_idI)

lemma spell_plain: "\<forall>c \<in> set (spell s). plain_char c"
proof -
  have d: "plain_char c" if "c \<in> set (nat_str n)" for c n
    using nat_str_digits [of n] that by (auto simp: plain_char_def is_digit_def)
  have "plain_char (CHR ''t'')" "plain_char (CHR ''p'')" "plain_char (CHR ''d'')" "plain_char (CHR ''e'')" "plain_char (CHR ''1'')"
    by (simp_all add: plain_char_def byte_in_def)
  then show ?thesis by (auto simp: spell_def Let_def spell_dim_pair dest: d split: if_splits)
qed

definition spec_wf :: "parallel_spec \<Rightarrow> bool" where
  "spec_wf s \<longleftrightarrow> (\<forall>v \<in> {tp s, pp s, ep s, dp s}. 1 \<le> v \<and> v \<le> u32_max)"

text \<open>C35. Layouts survive being written and read. Any layout whose four degrees are positive 32-bit numbers, spelled with its
  degrees of one left out, is parsed back to the same layout, and so occupies the same number of GPUs.\<close>

theorem spelled_layouts_are_read_back:
  assumes "spec_wf s"
  shows "spec_parse (spell s) = Some (Some s)"
proof -
  let ?kvs = "[(''tp'', tp s), (''pp'', pp s), (''dp'', dp s), (''ep'', ep s)]"
  have k: "list_all (\<lambda>(k, v). a_key k \<and> v \<le> u32_max) ?kvs" using assms by (simp add: spec_wf_def a_key_def)
  have dims: "set_dims ?kvs unit_spec = s"
    using assms by (cases s) (auto simp: unit_spec_def set_dim_def spec_wf_def)
  have body: "spec_parse (spell s) = spec_loop False unit_spec (spell s)"
    using plain_string [OF spell_plain [of s]] trim_printable [of "spell s"] by (auto simp: spec_parse_def spell_def Let_def)
  show ?thesis
  proof (cases "\<exists>kv \<in> set ?kvs. snd kv > 1")
    case True
    then have "spell s = concat (map spell_dim ?kvs)"
      using nat_str_nonempty by (auto simp: spell_def Let_def spell_dim_pair)
    then show ?thesis using spec_loop_groups [OF k, of False unit_spec] True body dims by simp
  next
    case False
    then have one: "s = unit_spec" using assms by (cases s) (auto simp: unit_spec_def spec_wf_def)
    have "spell s = ''tp'' @ nat_str 1 @ []" by (simp add: one spell_def unit_spec_def spell_dim_pair nat_str.simps char_of_def bit_0)
    then show ?thesis using spec_loop_group [of "''tp''" 1 "[]" False unit_spec] body
      by (simp add: one a_key_def spec_loop_end u32_max_def set_dim_def unit_spec_def)
  qed
qed

theorem spelled_layouts_are_read_back_witness:
  "spec_parse (spell \<lparr>tp = 8, pp = 1, ep = 8, dp = 1\<rparr>) = Some (Some \<lparr>tp = 8, pp = 1, ep = 8, dp = 1\<rparr>)"
  by (rule spelled_layouts_are_read_back) (simp add: spec_wf_def u32_max_def)

end
