(* ===== verification/Simulator.thy ===== *)
theory Simulator
  imports Prefill_Sched Decode_Sched Fleet Engine_Mock Deployment_Config
begin

text \<open>
  \<open>crates/sim/src/{events,sim,report}.rs\<close>: the discrete-event simulator that drives the schedulers, the router and
  the cost model together under a closed loop of clients.

  The event heap is the list of its entries in the order in which it pops them. A handler is a
  function on the simulator's state with \<open>None\<close> for a panic: an \<open>expect\<close> that fails, a routing error, an index out
  of range. Sequence numbers and identifiers are unbounded, as 64 bits are for any run that ends.
\<close>

subsection \<open>Events\<close>

datatype event = Arrival nat | PrefillDone nat | KvArrived request_id nat | DecodeStep nat

record scheduled =
  sch_at :: millis
  sch_seq :: nat
  sch_event :: event

definition sched_key :: "scheduled \<Rightarrow> millis \<times> nat" where
  "sched_key e = (sch_at e, sch_seq e)"

subsection \<open>State\<close>

record prefill_worker_sim =
  pws_sched :: prefill_scheduler
  pws_curve :: prefill_curve
  pws_busy :: bool
  pws_batch :: "(prefill_batch \<times> millis) option"
  pws_busy_ms :: real

record decode_worker_sim =
  dws_sched :: decode_scheduler
  dws_curve :: decode_curve
  dws_pending :: "request_id list"
  stepping :: bool
  free_blocks :: nat
  dws_total_blocks :: nat
  watermark_blocks :: nat
  dws_held :: "(request_id, nat) hmap"

record req_state =
  rq_client :: nat
  rq_arrival_ms :: millis
  rq_prompt_len :: nat
  rq_osl :: nat
  rq_decode_worker :: nat
  rq_first_token_ms :: "millis option"
  rq_last_token_ms :: millis

record simulator =
  sim_cfg :: config
  sim_now :: millis
  heap :: "scheduled list"
  sim_seq :: nat
  sim_next_id :: nat
  reqs :: "(request_id, req_state) hmap"
  prefills :: "prefill_worker_sim list"
  decodes :: "decode_worker_sim list"
  sim_router :: router
  xfer_busy :: nat
  xfer_queue :: "(request_id \<times> nat) list"
  outcomes :: "request_outcome list"
  issued :: nat
  batches :: nat
  batch_seqs :: nat
  batch_tokens :: nat
  deadline_limited_batches :: nat
  demoted_samples :: "real list"
  calibrated_concurrency :: real
  horizon_ms :: ext
  concurrency_samples :: "real list"
  peak_concurrency :: nat
  queue_depth_samples :: "real list"

definition DECODE_ID_BASE :: nat where
  "DECODE_ID_BASE = 1000"

text \<open>Times are finite: a configuration without bandwidth, for which \<open>f64\<close> would give an infinite handoff (or \<open>NaN\<close>, for an
  empty prompt), is outside the model, and the theorems that depend on the handoff's length assume a positive bandwidth.\<close>

definition sim_kv_transfer_ms :: "config \<Rightarrow> real" where
  "sim_kv_transfer_ms c =
    (let m = cfg_model c;
         bytes_per_token = 2 * real (num_layers m) * real (num_kv_heads m) * real (head_dim m);
         bytes = bytes_per_token * real (wl_isl (workload c))
     in 1 / 2 + bytes / (cal_kv_xfer_gib_s (calibration c) * 1024 * 1024 * 1024) * 1000)"

subsection \<open>Construction\<close>

definition sim_prefill_curve :: "config \<Rightarrow> prefill_curve" where
  "sim_prefill_curve c =
    (let t = cfg_topology c in prefill_curve_for_worker (cal_prefill (calibration c)) (tc_prefill_tp t) (tc_prefill_tp t))"

definition new_prefill_worker :: "config \<Rightarrow> prefill_worker_sim" where
  "new_prefill_worker c = \<lparr>
     pws_sched = sched_new \<lparr>chunk_tokens = chunked_prefill_tokens (scheduler c), max_seqs = max_prefill_seqs (scheduler c),
       policy = sc_prefill_policy (scheduler c), demote_hopeless = sc_demote_hopeless (scheduler c),
       tokens_per_ms = pc_tokens_per_ms (sim_prefill_curve c), rate_alpha = 1 / 5\<rparr>,
     pws_curve = sim_prefill_curve c, pws_busy = False, pws_batch = None, pws_busy_ms = 0\<rparr>"

definition initial_cap :: "config \<Rightarrow> real" where
  "initial_cap c = concurrency_per_gpu (cal_decode (calibration c)) * real (tc_decode_tp (cfg_topology c))"

text \<open>\<open>ItlController::new\<close> clamps, and a clamp between 8 and a smaller maximum panics.\<close>

definition new_decode_worker :: "config \<Rightarrow> decode_worker_sim option" where
  "new_decode_worker c =
    map_option (\<lambda>ctl.
      let d = decode_new (slo_itl_ms (cfg_slo c)) ctl;
          sp = speculation_cfg (cfg_engine c);
          d' = (if spec_enabled sp then set_tokens_per_step d ((1 + spec_draft_tokens sp) mod 2 ^ 32) else d)
      in \<lparr>dws_sched = d', dws_curve = from_calibration (cal_decode (calibration c)) (tc_decode_tp (cfg_topology c)),
          dws_pending = [], stepping = False, free_blocks = kc_num_blocks (kv c), dws_total_blocks = kc_num_blocks (kv c),
          watermark_blocks = nat \<lceil>real (kc_num_blocks (kv c)) * admission_watermark (kv c)\<rceil>, dws_held = []\<rparr>)
     (itl_new (slo_itl_ms (cfg_slo c) * sc_itl_safety (scheduler c)) (initial_cap c) 8 (real (max_decode_seqs (scheduler c))))"

definition prefill_state :: "config \<Rightarrow> nat \<Rightarrow> worker_state" where
  "prefill_state c i = \<lparr>ws_id = i, role = PrefillRole, endpoint = ''sim://prefill/'' @ nat_str i,
     tensor_parallel = tc_prefill_tp (cfg_topology c), healthy = True,
     load = default_load\<lparr>wl_tokens_per_ms := pc_tokens_per_ms (sim_prefill_curve c), updated_ms := 0\<rparr>\<rparr>"

definition decode_state :: "config \<Rightarrow> nat \<Rightarrow> worker_state" where
  "decode_state c j = \<lparr>ws_id = DECODE_ID_BASE + j, role = DecodeRole, endpoint = ''sim://decode/'' @ nat_str j,
     tensor_parallel = tc_decode_tp (cfg_topology c), healthy = True,
     load = default_load\<lparr>decode_cap := initial_cap c, updated_ms := 0\<rparr>\<rparr>"

definition sim_registry :: "config \<Rightarrow> worker_registry" where
  "sim_registry c = (let t = cfg_topology c in
     foldl (\<lambda>r w. register w r) (registry_new 60000)
       (map (prefill_state c) [0..<tc_prefill_workers t] @ map (decode_state c) [0..<tc_decode_workers t]))"

definition sim_router_new :: "config \<Rightarrow> router" where
  "sim_router_new c = (let t = cfg_topology c; pool_rate = pc_tokens_per_ms (sim_prefill_curve c) * real (tc_prefill_workers t) in
     router_new (sim_registry c) \<lparr>kv_transfer_ms = sim_kv_transfer_ms c,
       default_tokens_per_ms = pool_rate / real (max (tc_prefill_workers t) 1), rt_min_prefix_tokens = 256\<rparr>)"

text \<open>With no decode worker the controller is never built.\<close>

definition new_decode_workers :: "config \<Rightarrow> decode_worker_sim list option" where
  "new_decode_workers c = (let n = tc_decode_workers (cfg_topology c) in
     if n = 0 then Some [] else map_option (replicate n) (new_decode_worker c))"

definition sim_new :: "config \<Rightarrow> simulator option" where
  "sim_new c = map_option (\<lambda>ds. \<lparr>
     sim_cfg = c, sim_now = 0, heap = [], sim_seq = 0, sim_next_id = 0, reqs = [],
     prefills = replicate (tc_prefill_workers (cfg_topology c)) (new_prefill_worker c), decodes = ds,
     sim_router = sim_router_new c, xfer_busy = 0, xfer_queue = [], outcomes = [], issued = 0, batches = 0, batch_seqs = 0,
     batch_tokens = 0, deadline_limited_batches = 0, demoted_samples = [], calibrated_concurrency = initial_cap c,
     horizon_ms = Infinite, concurrency_samples = [], peak_concurrency = 0, queue_depth_samples = []\<rparr>)
    (new_decode_workers c)"

subsection \<open>Handlers\<close>

definition push :: "millis \<Rightarrow> event \<Rightarrow> simulator \<Rightarrow> simulator" where
  "push t ev s = s\<lparr>sim_seq := sim_seq s + 1,
     heap := insort_key sched_key \<lparr>sch_at = t, sch_seq = sim_seq s + 1, sch_event = ev\<rparr> (heap s)\<rparr>"

definition nth_opt :: "'a list \<Rightarrow> nat \<Rightarrow> 'a option" where
  "nth_opt xs i = (if i < length xs then Some (xs ! i) else None)"

definition prefill_load :: "millis \<Rightarrow> prefill_worker_sim \<Rightarrow> worker_load" where
  "prefill_load now w = default_load\<lparr>wl_queued_tokens := queued_tokens (pws_sched w),
     wl_queue_depth := queue_depth (pws_sched w) mod 2 ^ 32, wl_tokens_per_ms := rate (pws_sched w), updated_ms := now\<rparr>"

definition decode_load :: "millis \<Rightarrow> decode_worker_sim \<Rightarrow> worker_load" where
  "decode_load now d = default_load\<lparr>decode_concurrency := concurrency (dws_sched d) mod 2 ^ 32,
     decode_cap := cap (controller (dws_sched d)),
     kv_utilisation := 1 - real (free_blocks d) / real (max (dws_total_blocks d) 1),
     step_ms := ewma_ms (controller (dws_sched d)), updated_ms := now\<rparr>"

definition load_updates :: "simulator \<Rightarrow> (worker_id \<times> worker_load) list" where
  "load_updates s =
    map (\<lambda>(i, w). (i, prefill_load (sim_now s) w)) (List.enumerate 0 (prefills s)) @
    map (\<lambda>(j, d). (DECODE_ID_BASE + j, decode_load (sim_now s) d)) (List.enumerate 0 (decodes s))"

definition sync_loads :: "simulator \<Rightarrow> simulator" where
  "sync_loads s = s\<lparr>sim_router := (sim_router s)\<lparr>registry :=
     foldl (\<lambda>r (i, l). update_load i l r) (registry (sim_router s)) (load_updates s)\<rparr>\<rparr>"

definition charged_ms :: "ext \<Rightarrow> millis \<Rightarrow> real \<Rightarrow> real" where
  "charged_ms horizon now ms = (case horizon of Infinite \<Rightarrow> ms | Fin h \<Rightarrow> min ms (max (h - now) 0))"

definition try_start_prefill :: "nat \<Rightarrow> simulator \<Rightarrow> simulator option" where
  "try_start_prefill w s =
    (case nth_opt (prefills s) w of None \<Rightarrow> None
     | Some pw \<Rightarrow>
        if pws_busy pw then Some s
        else case plan (pws_sched pw) (sim_now s) of (batch, sched) \<Rightarrow>
          let s1 = s\<lparr>prefills := (prefills s)[w := pw\<lparr>pws_sched := sched\<rparr>]\<rparr>
          in if chunks batch = [] then Some s1
             else
              let ms = batch_ms (pws_curve pw) (total_tokens batch) (length (chunks batch));
                  depth = queue_depth sched;
                  s2 = s1\<lparr>batches := batches s1 + 1, batch_seqs := batch_seqs s1 + length (chunks batch),
                    batch_tokens := batch_tokens s1 + total_tokens batch,
                    deadline_limited_batches := deadline_limited_batches s1 + (if deadline_limited batch then 1 else 0),
                    queue_depth_samples := queue_depth_samples s1 @ [real depth],
                    demoted_samples := demoted_samples s1 @
                      (if depth > 0 then [real (demoted_count sched) / real depth] else []),
                    prefills := (prefills s1)[w := pw\<lparr>pws_sched := sched, pws_busy := True,
                      pws_busy_ms := pws_busy_ms pw + charged_ms (horizon_ms s1) (sim_now s1) ms,
                      pws_batch := Some (batch, sim_now s1)\<rparr>]\<rparr>
              in Some (push (sim_now s + ms) (PrefillDone w) s2))"

definition new_req :: "simulator \<Rightarrow> nat \<Rightarrow> nat \<Rightarrow> req_state" where
  "new_req s client dw = \<lparr>rq_client = client, rq_arrival_ms = sim_now s, rq_prompt_len = wl_isl (workload (sim_cfg s)),
     rq_osl = wl_osl (workload (sim_cfg s)), rq_decode_worker = dw, rq_first_token_ms = None, rq_last_token_ms = sim_now s\<rparr>"

definition sim_prompt :: "nat \<Rightarrow> nat \<Rightarrow> token_id list" where
  "sim_prompt rid isl' = replicate isl' (of_nat (rid mod 100000) + 1)"

definition on_arrival :: "nat \<Rightarrow> simulator \<Rightarrow> simulator option" where
  "on_arrival client s0 =
    (let rid = sim_next_id s0;
         s = sync_loads (s0\<lparr>sim_next_id := sim_next_id s0 + 1, issued := issued s0 + 1\<rparr>);
         isl' = wl_isl (workload (sim_cfg s)); toks = sim_prompt rid isl'; ttft = slo_ttft_ms (cfg_slo (sim_cfg s))
     in case route (sim_router s) toks (sim_now s) ttft of
          None \<Rightarrow> None
        | Some (Inl _) \<Rightarrow> None
        | Some (Inr d) \<Rightarrow>
           if rd_decode d < DECODE_ID_BASE then None
           else
            let p = rd_prefill d; dw = rd_decode d - DECODE_ID_BASE;
                s1 = s\<lparr>reqs := hm_insert rid (new_req s client dw) (reqs s)\<rparr>
            in (case nth_opt (prefills s1) p of None \<Rightarrow> None
                | Some pw \<Rightarrow>
                   let item = \<lparr>pp_id = rid, pp_arrival_ms = sim_now s1, pp_deadline_ms = sim_now s1 + ttft,
                         compute_tokens = isl' - prefix_hit_tokens d, done_tokens = 0\<rparr>;
                       s2 = s1\<lparr>prefills := (prefills s1)[p := pw\<lparr>pws_sched := enqueue (pws_sched pw) item\<rparr>]\<rparr>
                   in (case (if cache_bust (workload (sim_cfg s2)) then Some (sim_router s2)
                             else note_prefill (sim_router s2) p toks (sim_now s2)) of
                         None \<Rightarrow> None
                       | Some r \<Rightarrow> try_start_prefill p (s2\<lparr>sim_router := r\<rparr>))))"

text \<open>The loop over the finished requests: each gets its first token and queues for a transfer.\<close>

fun first_tokens :: "request_id list \<Rightarrow> simulator \<Rightarrow> simulator option" where
  "first_tokens [] s = Some s"
| "first_tokens (rid # ids) s =
    (case hm_get (reqs s) rid of None \<Rightarrow> None
     | Some r \<Rightarrow> first_tokens ids (s\<lparr>
         reqs := hm_insert rid (r\<lparr>rq_first_token_ms := Some (sim_now s), rq_last_token_ms := sim_now s\<rparr>) (reqs s),
         xfer_queue := xfer_queue s @ [(rid, rq_decode_worker r)]\<rparr>))"

fun drain_loop :: "nat \<Rightarrow> real \<Rightarrow> (request_id \<times> nat) list \<Rightarrow> simulator \<Rightarrow> simulator" where
  "drain_loop limit transfer [] s = s\<lparr>xfer_queue := []\<rparr>"
| "drain_loop limit transfer ((rid, dw) # q) s =
    (if xfer_busy s < limit
     then drain_loop limit transfer q (push (sim_now s + transfer) (KvArrived rid dw) (s\<lparr>xfer_busy := xfer_busy s + 1\<rparr>))
     else s\<lparr>xfer_queue := (rid, dw) # q\<rparr>)"

definition drain_xfer_queue :: "simulator \<Rightarrow> simulator" where
  "drain_xfer_queue s = drain_loop (max (kc_xfer_concurrency (kv (sim_cfg s))) 1) (sim_kv_transfer_ms (sim_cfg s)) (xfer_queue s) s"

definition on_prefill_done :: "nat \<Rightarrow> simulator \<Rightarrow> simulator option" where
  "on_prefill_done w s =
    (case nth_opt (prefills s) w of None \<Rightarrow> None
     | Some pw \<Rightarrow>
        (case pws_batch pw of None \<Rightarrow> Some s
         | Some (batch, started) \<Rightarrow>
            (case complete (pws_sched pw) batch (sim_now s - started) of (fin, sched) \<Rightarrow>
               let s1 = s\<lparr>prefills := (prefills s)[w := pw\<lparr>pws_batch := None, pws_sched := sched, pws_busy := False\<rparr>]\<rparr>
               in (case first_tokens fin s1 of None \<Rightarrow> None
                   | Some s2 \<Rightarrow> try_start_prefill w (drain_xfer_queue s2)))))"

definition on_kv_arrived :: "request_id \<Rightarrow> nat \<Rightarrow> simulator \<Rightarrow> simulator option" where
  "on_kv_arrived rid w s =
    (let s1 = drain_xfer_queue (s\<lparr>xfer_busy := xfer_busy s - 1\<rparr>)
     in case nth_opt (decodes s1) w of None \<Rightarrow> None
        | Some d \<Rightarrow>
           let d1 = d\<lparr>dws_pending := dws_pending d @ [rid]\<rparr>
           in if stepping d1 then Some (s1\<lparr>decodes := (decodes s1)[w := d1]\<rparr>)
              else Some (push (sim_now s1) (DecodeStep w) (s1\<lparr>decodes := (decodes s1)[w := d1\<lparr>stepping := True\<rparr>]\<rparr>)))"

text \<open>The admission loop, over the queue of one decode worker.\<close>

fun admit_loop :: "nat \<Rightarrow> millis \<Rightarrow> (request_id, req_state) hmap \<Rightarrow> request_id list \<Rightarrow> decode_worker_sim \<Rightarrow> decode_worker_sim option" where
  "admit_loop block_sz now rs [] d = Some (d\<lparr>dws_pending := []\<rparr>)"
| "admit_loop block_sz now rs (rid # ids) d =
    (case hm_get rs rid of None \<Rightarrow> admit_loop block_sz now rs ids d
     | Some r \<Rightarrow>
        let need = blocks_for (rq_prompt_len r + rq_osl r) block_sz;
            headroom = (free_blocks d \<ge> need + watermark_blocks d);
            dec = decode_can_admit (dws_sched d) headroom;
            d1 = d\<lparr>dws_sched := note_decision (dws_sched d) dec\<rparr>
        in if \<not> is_admit dec then Some (d1\<lparr>dws_pending := rid # ids\<rparr>)
           else (case rq_first_token_ms r of None \<Rightarrow> None
             | Some first \<Rightarrow>
                 admit_loop block_sz now rs ids (d1\<lparr>free_blocks := free_blocks d1 - need,
                   dws_held := hm_insert rid need (dws_held d1),
                   dws_sched := admit_at (dws_sched d1) ((seq_new rid first (rq_osl r))\<lparr>last_token_ms := now\<rparr>) now\<rparr>)))"

definition admit_decode :: "nat \<Rightarrow> simulator \<Rightarrow> simulator option" where
  "admit_decode w s =
    (case nth_opt (decodes s) w of None \<Rightarrow> None
     | Some d \<Rightarrow> map_option (\<lambda>d'. s\<lparr>decodes := (decodes s)[w := d']\<rparr>)
         (admit_loop (kc_block_size (kv (sim_cfg s))) (sim_now s) (reqs s) (dws_pending d) d))"

definition outcome_for :: "req_state \<Rightarrow> running_seq \<Rightarrow> millis \<Rightarrow> request_outcome" where
  "outcome_for r sq t_done = \<lparr>out_id = rs_id sq, out_arrival_ms = rq_arrival_ms r,
     out_first_token_ms = (case rq_first_token_ms r of None \<Rightarrow> t_done | Some f \<Rightarrow> f), out_last_token_ms = t_done,
     prompt_tokens = rq_prompt_len r mod 2 ^ 32, output_tokens = tokens_emitted sq, out_requested_tokens = rq_osl r\<rparr>"

definition give_back :: "request_id \<Rightarrow> decode_worker_sim \<Rightarrow> decode_worker_sim" where
  "give_back rid d = (case hm_get (dws_held d) rid of None \<Rightarrow> d
     | Some n \<Rightarrow> d\<lparr>dws_held := hm_remove rid (dws_held d), free_blocks := free_blocks d + n\<rparr>)"

definition sim_retire :: "nat \<Rightarrow> millis \<Rightarrow> running_seq \<Rightarrow> simulator \<Rightarrow> simulator" where
  "sim_retire w t_done sq s =
    (let s1 = s\<lparr>decodes := (decodes s)[w := give_back (rs_id sq) (decodes s ! w)]\<rparr>
     in case hm_get (reqs s1) (rs_id sq) of None \<Rightarrow> s1
        | Some r \<Rightarrow> push t_done (Arrival (rq_client r)) (s1\<lparr>reqs := hm_remove (rs_id sq) (reqs s1),
            outcomes := outcomes s1 @ [outcome_for r sq t_done]\<rparr>))"

definition touch_reqs :: "millis \<Rightarrow> request_id list \<Rightarrow> (request_id, req_state) hmap \<Rightarrow> (request_id, req_state) hmap" where
  "touch_reqs t ids rs = foldl (\<lambda>rs rid. hm_modify rid (\<lambda>r. r\<lparr>rq_last_token_ms := t\<rparr>) rs) rs ids"

definition decode_pass :: "nat \<Rightarrow> simulator \<Rightarrow> simulator option" where
  "decode_pass w s =
    (case nth_opt (decodes s) w of None \<Rightarrow> None
     | Some d \<Rightarrow>
        let conc = concurrency (dws_sched d)
        in if conc = 0
           then (if dws_pending d = [] then Some (s\<lparr>decodes := (decodes s)[w := d\<lparr>stepping := False\<rparr>]\<rparr>)
                 else Some (push (sim_now s + step_cost_ms (dws_curve d) 1) (DecodeStep w) s))
           else
            let ms = step_cost_ms (dws_curve d) conc; t_done = sim_now s + ms;
                s1 = s\<lparr>concurrency_samples := concurrency_samples s @ [real conc], peak_concurrency := max (peak_concurrency s) conc\<rparr>
            in (case on_step_synthetic (dws_sched d) t_done ms of (fin, sched) \<Rightarrow>
                 let s2 = s1\<lparr>decodes := (decodes s1)[w := d\<lparr>dws_sched := sched\<rparr>],
                       reqs := touch_reqs t_done (map rs_id (hm_values (running sched))) (reqs s1)\<rparr>
                 in Some (push t_done (DecodeStep w) (foldl (\<lambda>s sq. sim_retire w t_done sq s) s2 fin))))"

definition on_decode_step :: "nat \<Rightarrow> simulator \<Rightarrow> simulator option" where
  "on_decode_step w s = Option.bind (admit_decode w s) (decode_pass w)"

fun handle_event :: "event \<Rightarrow> simulator \<Rightarrow> simulator option" where
  "handle_event (Arrival client) s = on_arrival client s"
| "handle_event (PrefillDone w) s = on_prefill_done w s"
| "handle_event (KvArrived rid w) s = on_kv_arrived rid w s"
| "handle_event (DecodeStep w) s = on_decode_step w s"

subsection \<open>Running\<close>

definition window_start :: "config \<Rightarrow> millis" where
  "window_start c = warmup_s (workload c) * 1000"

definition window_end :: "config \<Rightarrow> millis" where
  "window_end c = window_start c + benchmark_s (workload c) * 1000"

definition sim_horizon :: "config \<Rightarrow> millis" where
  "sim_horizon c = window_end c + grace_s (workload c) * 1000"

definition begin_run :: "simulator \<Rightarrow> simulator" where
  "begin_run s = foldl (\<lambda>s client. push 0 (Arrival client) s) (s\<lparr>horizon_ms := Fin (sim_horizon (sim_cfg s))\<rparr>)
     [0..<wl_concurrency (workload (sim_cfg s))]"

text \<open>The next event, unless there is none before the horizon.\<close>

definition pop_event :: "simulator \<Rightarrow> (event \<times> simulator) option" where
  "pop_event s = (case heap s of [] \<Rightarrow> None
     | e # h \<Rightarrow> if sch_at e > sim_horizon (sim_cfg s) then None
               else Some (sch_event e, s\<lparr>heap := h, sim_now := sch_at e\<rparr>))"

datatype run_state = Ended simulator | Panicked | Unfinished simulator

fun run_for :: "nat \<Rightarrow> simulator \<Rightarrow> run_state" where
  "run_for 0 s = (if pop_event s = None then Ended s else Unfinished s)"
| "run_for (Suc n) s =
    (case pop_event s of None \<Rightarrow> Ended s
     | Some (ev, s1) \<Rightarrow> (case handle_event ev s1 of None \<Rightarrow> Panicked | Some s2 \<Rightarrow> run_for n s2))"

record diagnostics =
  simulated_s :: real
  requests_issued :: nat
  requests_completed :: nat
  mean_prefill_batch_seqs :: real
  mean_prefill_batch_tokens :: real
  deadline_limited_frac :: real
  demoted_frac :: real
  prefill_busy_frac :: real
  mean_decode_concurrency :: real
  peak_decode_concurrency :: nat
  final_decode_cap :: real
  diag_observed_step_ms :: real
  decode_refusals :: nat
  prefill_queue_depth :: latency_stats
  diag_calibrated_concurrency :: real
  extrapolated_beyond_calibration :: bool

record sim_report =
  goodput :: goodput_report
  sim_diagnostics :: diagnostics

definition mean :: "real list \<Rightarrow> real" where
  "mean v = (if v = [] then 0 else sum_list v / real (length v))"

definition scored_outcomes :: "simulator \<Rightarrow> request_outcome list" where
  "scored_outcomes s = filter (\<lambda>o'. out_arrival_ms o' \<ge> window_start (sim_cfg s) \<and> out_arrival_ms o' < window_end (sim_cfg s)) (outcomes s)"

definition finish_run :: "simulator \<Rightarrow> sim_report" where
  "finish_run s =
    (let c = sim_cfg s; window_secs = (window_end c - window_start c) / 1000;
         sim_ms = sim_horizon c;
         busy = sum_list (map pws_busy_ms (prefills s));
         capacity = sim_ms * real (length (prefills s));
         n = real (max (batches s) 1);
         first_ctl = (case decodes s of [] \<Rightarrow> None | d # _ \<Rightarrow> Some (controller (dws_sched d)))
     in \<lparr>goodput = from_outcomes (scored_outcomes s) window_secs (cfg_slo c),
         sim_diagnostics = \<lparr>simulated_s = sim_ms / 1000, requests_issued = issued s, requests_completed = length (outcomes s),
           mean_prefill_batch_seqs = real (batch_seqs s) / n, mean_prefill_batch_tokens = real (batch_tokens s) / n,
           deadline_limited_frac = real (deadline_limited_batches s) / n, demoted_frac = mean (demoted_samples s),
           prefill_busy_frac = (if capacity > 0 then busy / capacity else 0),
           mean_decode_concurrency = mean (concurrency_samples s), peak_decode_concurrency = peak_concurrency s,
           final_decode_cap = (case first_ctl of None \<Rightarrow> 0 | Some k \<Rightarrow> cap k),
           diag_observed_step_ms = (case first_ctl of None \<Rightarrow> 0 | Some k \<Rightarrow> ewma_ms k),
           decode_refusals = sum_list (map (\<lambda>d. refused (dws_sched d)) (decodes s)),
           prefill_queue_depth = from_samples (queue_depth_samples s),
           diag_calibrated_concurrency = calibrated_concurrency s,
           extrapolated_beyond_calibration = real (peak_concurrency s) > calibrated_concurrency s * (105 / 100)\<rparr>\<rparr>)"

end
