(* ===== verification/Sim_Invariant.thy ===== *)
theory Sim_Invariant
  imports Simulator
begin

text \<open>
  The invariant of the simulator: requests, clients, events and pages are conserved.

  The invariant is stated for a state in the middle of a handler: \<open>E\<close> are events that are about to be pushed
  or have just been popped, \<open>X\<close> are requests between two stages, and \<open>hw\<close> is the decode worker that still
  holds pages for the requests of \<open>X\<close>. Between two events \<open>E\<close> and \<open>X\<close> are empty.
\<close>

subsection \<open>Sums over workers\<close>

lemma sum_list_update_eq:
  fixes f :: "'a \<Rightarrow> 'b::comm_monoid_add"
  assumes "i < length xs"
  shows "sum_list (map f (xs[i := y])) + f (xs ! i) = sum_list (map f xs) + f y"
  using assms
proof (induction xs arbitrary: i)
  case (Cons x xs)
  show ?case
  proof (cases i)
    case (Suc j)
    then show ?thesis using Cons by (simp add: ac_simps)
  qed (simp add: ac_simps)
qed simp

lemma sum_list_member_le:
  fixes f :: "'a \<Rightarrow> 'b multiset"
  shows "i < length xs \<Longrightarrow> f (xs ! i) \<subseteq># sum_list (map f xs)"
proof (induction xs arbitrary: i)
  case (Cons x xs)
  then show ?case by (cases i) (auto intro: subset_mset.add_increasing)
qed simp

lemma keys_insert_fresh: "hm_get m k = None \<Longrightarrow> mset (hm_keys (hm_insert k v m)) = add_mset k (mset (hm_keys m))"
  by (induction m) auto

lemma values_insert_fresh: "hm_get m k = None \<Longrightarrow> mset (hm_values (hm_insert k v m)) = add_mset v (mset (hm_values m))"
  by (induction m) auto

lemma map_values_insert_fresh:
  "hm_get m k = None \<Longrightarrow> mset (map f (hm_values (hm_insert k v m))) = add_mset (f v) (mset (map f (hm_values m)))"
  using values_insert_fresh [of m k v] by (metis image_mset_add_mset mset_map)

lemma keys_insert_old: "hm_get m k = Some u \<Longrightarrow> hm_keys (hm_insert k v m) = hm_keys m"
  by (induction m) (auto split: if_splits)

lemma values_insert_same:
  "hm_get m k = Some u \<Longrightarrow> f v = f u \<Longrightarrow> hm_wf m \<Longrightarrow> map f (hm_values (hm_insert k v m)) = map f (hm_values m)"
  by (induction m) (auto split: if_splits)

lemma delete_absent: "k \<notin> fst ` set m \<Longrightarrow> hm_remove k m = m"
  by (induction m) auto

lemma keys_remove: "hm_wf m \<Longrightarrow> hm_get m k = Some u \<Longrightarrow> mset (hm_keys m) = add_mset k (mset (hm_keys (hm_remove k m)))"
proof (induction m)
  case (Cons x m)
  then show ?case by (cases x) (auto simp: delete_absent)
qed simp

lemma values_remove: "hm_wf m \<Longrightarrow> hm_get m k = Some u \<Longrightarrow> mset (hm_values m) = add_mset u (mset (hm_values (hm_remove k m)))"
proof (induction m)
  case (Cons x m)
  then show ?case by (cases x) (auto simp: delete_absent)
qed simp

lemma map_values_remove:
  "hm_wf m \<Longrightarrow> hm_get m k = Some u \<Longrightarrow> mset (map f (hm_values m)) = add_mset (f u) (mset (map f (hm_values (hm_remove k m))))"
  using values_remove [of m k u] by (metis image_mset_add_mset mset_map)

lemma get_None_keys: "hm_get m k = None \<longleftrightarrow> k \<notin># mset (hm_keys m)"
  by (simp add: map_of_eq_None_iff)

lemma keys_by_get:
  assumes "hm_wf m" "hm_wf m'" "dom (hm_get m) = dom (hm_get m') \<union> set ks" "distinct ks" "dom (hm_get m') \<inter> set ks = {}"
  shows "mset (hm_keys m) = mset (hm_keys m') + mset ks"
proof -
  have "distinct (hm_keys m' @ ks)" using assms by (auto simp: dom_map_of_conv_image_fst)
  moreover have "set (hm_keys m) = set (hm_keys m' @ ks)" using assms(3) by (auto simp: dom_map_of_conv_image_fst)
  ultimately show ?thesis using assms(1) by (metis mset_append set_eq_iff_mset_eq_distinct)
qed

text \<open>A multiset in which nothing occurs twice.\<close>

definition once :: "'a multiset \<Rightarrow> bool" where
  "once M \<longleftrightarrow> (\<forall>x. count M x \<le> 1)"

lemma once_mset: "once (mset xs) \<longleftrightarrow> distinct xs"
proof -
  have "count (mset xs) a \<le> 1 \<longleftrightarrow> count (mset xs) a = (if a \<in> set xs then 1 else 0)" for a
  proof (cases "a \<in> set xs")
    case True
    then have "0 < count (mset xs) a" by simp
    then have "count (mset xs) a \<le> 1 \<longleftrightarrow> count (mset xs) a = 1" by linarith
    then show ?thesis using True by simp
  next
    case False
    then have "count (mset xs) a = 0" by (simp add: count_mset_0_iff)
    then show ?thesis using False by presburger
  qed
  then show ?thesis unfolding once_def distinct_count_atmost_1 by simp
qed

lemma once_mono: "A \<subseteq># B \<Longrightarrow> once B \<Longrightarrow> once A"
  unfolding once_def subseteq_mset_def by (meson order_trans)

lemma once_add: "once (add_mset x M) \<Longrightarrow> x \<notin># M"
  by (auto simp: once_def not_in_iff dest: spec [of _ x])

subsection \<open>The invariant\<close>

fun kv_of :: "event \<Rightarrow> (request_id \<times> nat) multiset" where
  "kv_of (KvArrived rid w) = {#(rid, w)#}"
| "kv_of _ = {#}"

fun client_of :: "event \<Rightarrow> nat multiset" where
  "client_of (Arrival c) = {#c#}"
| "client_of _ = {#}"

definition all_events :: "event multiset \<Rightarrow> simulator \<Rightarrow> event multiset" where
  "all_events E s = E + mset (map sch_event (heap s))"

definition in_flight :: "event multiset \<Rightarrow> (request_id \<times> nat) multiset" where
  "in_flight M = sum_mset (image_mset kv_of M)"

definition waiting_clients :: "event multiset \<Rightarrow> nat multiset" where
  "waiting_clients M = sum_mset (image_mset client_of M)"

lemma in_flight_simps [simp]: "in_flight {#} = {#}" "in_flight (add_mset e M) = kv_of e + in_flight M"
  "in_flight (M + N) = in_flight M + in_flight N"
  by (simp_all add: in_flight_def)

lemma waiting_simps [simp]: "waiting_clients {#} = {#}" "waiting_clients (add_mset e M) = client_of e + waiting_clients M"
  "waiting_clients (M + N) = waiting_clients M + waiting_clients N"
  by (simp_all add: waiting_clients_def)

abbreviation queued_ids :: "prefill_worker_sim \<Rightarrow> request_id multiset" where
  "queued_ids p \<equiv> mset (hm_keys (queue (pws_sched p)))"

abbreviation decoding_ids :: "decode_worker_sim \<Rightarrow> request_id multiset" where
  "decoding_ids d \<equiv> mset (dws_pending d) + mset (hm_keys (running (dws_sched d)))"

definition past_prefill :: "event multiset \<Rightarrow> simulator \<Rightarrow> request_id multiset" where
  "past_prefill M s = mset (map fst (xfer_queue s)) + image_mset fst (in_flight M) + sum_list (map decoding_ids (decodes s))"

definition stages :: "event multiset \<Rightarrow> simulator \<Rightarrow> request_id multiset" where
  "stages M s = sum_list (map queued_ids (prefills s)) + past_prefill M s"

text \<open>A batch in progress still describes the head of the queue it was planned from.\<close>

definition batch_fits :: "prefill_scheduler \<Rightarrow> prefill_batch \<Rightarrow> bool" where
  "batch_fits s b \<longleftrightarrow> distinct (map ch_id (chunks b)) \<and> (\<forall>c \<in> set (chunks b). \<exists>p. hm_get (queue s) (ch_id c) = Some p
     \<and> ch_tokens c \<le> remaining p \<and> ch_completes c = (ch_tokens c = remaining p))"

definition prefill_ok :: "nat \<Rightarrow> prefill_worker_sim \<Rightarrow> bool" where
  "prefill_ok n p \<longleftrightarrow> sched_wf (pws_sched p) \<and> n = (if pws_busy p then 1 else 0) \<and> pws_busy p = (pws_batch p \<noteq> None)
     \<and> (\<forall>b t. pws_batch p = Some (b, t) \<longrightarrow> batch_fits (pws_sched p) b)"

definition decode_ok :: "request_id set \<Rightarrow> nat \<Rightarrow> decode_worker_sim \<Rightarrow> bool" where
  "decode_ok H n d \<longleftrightarrow> decode_inv (dws_sched d) \<and> n = (if stepping d then 1 else 0)
     \<and> (\<not> stepping d \<longrightarrow> dws_pending d = [] \<and> running (dws_sched d) = [])
     \<and> hm_wf (dws_held d) \<and> dom (hm_get (dws_held d)) = dom (hm_get (running (dws_sched d))) \<union> H
     \<and> free_blocks d + sum_list (hm_values (dws_held d)) = dws_total_blocks d"

definition xfer_limit :: "config \<Rightarrow> nat" where
  "xfer_limit c = max (kc_xfer_concurrency (kv c)) 1"

definition router_ok :: "config \<Rightarrow> router \<Rightarrow> bool" where
  "router_ok c r \<longleftrightarrow> router_inv r \<and> stale_after_ms (registry r) \<ge> 0
     \<and> dom (hm_get (registered (registry r))) =
         {0..<tc_prefill_workers (cfg_topology c)} \<union> {DECODE_ID_BASE..<DECODE_ID_BASE + tc_decode_workers (cfg_topology c)}
     \<and> (\<forall>i w. hm_get (registered (registry r)) i = Some w \<longrightarrow> role w = (if i < DECODE_ID_BASE then PrefillRole else DecodeRole))"

text \<open>Every live request is in exactly one stage.\<close>

definition requests_ok :: "event multiset \<Rightarrow> request_id multiset \<Rightarrow> simulator \<Rightarrow> bool" where
  "requests_ok M X s \<longleftrightarrow> hm_wf (reqs s) \<and> mset (hm_keys (reqs s)) = stages M s + X"

text \<open>Every client either is about to send a request or waits for exactly one.\<close>

definition clients_ok :: "config \<Rightarrow> event multiset \<Rightarrow> simulator \<Rightarrow> bool" where
  "clients_ok c M s \<longleftrightarrow> waiting_clients M + mset (map rq_client (hm_values (reqs s))) = mset [0..<wl_concurrency (workload c)]"

text \<open>Every identifier issued is live or has exactly one outcome.\<close>

definition ids_ok :: "simulator \<Rightarrow> bool" where
  "ids_ok s \<longleftrightarrow> mset (map out_id (outcomes s)) + mset (hm_keys (reqs s)) = mset [0..<sim_next_id s] \<and> issued s = sim_next_id s"

definition prefills_ok :: "config \<Rightarrow> event multiset \<Rightarrow> simulator \<Rightarrow> bool" where
  "prefills_ok c M s \<longleftrightarrow> length (prefills s) = tc_prefill_workers (cfg_topology c)
     \<and> (\<forall>w < length (prefills s). prefill_ok (count M (PrefillDone w)) (prefills s ! w))
     \<and> (\<forall>w. PrefillDone w \<in># M \<longrightarrow> w < length (prefills s))"

definition decodes_ok :: "config \<Rightarrow> event multiset \<Rightarrow> request_id multiset \<Rightarrow> nat option \<Rightarrow> simulator \<Rightarrow> bool" where
  "decodes_ok c M X hw s \<longleftrightarrow> length (decodes s) = tc_decode_workers (cfg_topology c)
     \<and> (\<forall>w < length (decodes s). decode_ok (if hw = Some w then set_mset X else {}) (count M (DecodeStep w)) (decodes s ! w))
     \<and> (\<forall>w. DecodeStep w \<in># M \<longrightarrow> w < length (decodes s))"

text \<open>The transfers counted as busy are those in flight, never more than there are buffers.\<close>

definition xfers_ok :: "config \<Rightarrow> event multiset \<Rightarrow> simulator \<Rightarrow> bool" where
  "xfers_ok c M s \<longleftrightarrow> xfer_busy s = size (in_flight M) \<and> xfer_busy s \<le> xfer_limit c
     \<and> (\<forall>(rid, w) \<in># in_flight M + mset (xfer_queue s). w < length (decodes s))"

definition started_ok :: "event multiset \<Rightarrow> simulator \<Rightarrow> bool" where
  "started_ok M s \<longleftrightarrow> (\<forall>rid r. hm_get (reqs s) rid = Some r \<longrightarrow> rq_decode_worker r < length (decodes s)
     \<and> (rid \<in># past_prefill M s \<longrightarrow> rq_first_token_ms r \<noteq> None))"

definition sim_inv :: "config \<Rightarrow> event multiset \<Rightarrow> request_id multiset \<Rightarrow> nat option \<Rightarrow> simulator \<Rightarrow> bool" where
  "sim_inv c E X hw s \<longleftrightarrow> sim_cfg s = c \<and> requests_ok (all_events E s) X s \<and> clients_ok c (all_events E s) s \<and> ids_ok s
     \<and> prefills_ok c (all_events E s) s \<and> decodes_ok c (all_events E s) X hw s \<and> xfers_ok c (all_events E s) s
     \<and> started_ok (all_events E s) s \<and> router_ok c (sim_router s)"

lemmas part_defs = requests_ok_def clients_ok_def ids_ok_def prefills_ok_def decodes_ok_def xfers_ok_def started_ok_def
  stages_def past_prefill_def

lemma all_events_push: "all_events E (push t e s) = all_events (add_mset e E) s"
proof -
  have "mset (insort_key sched_key x xs) = add_mset x (mset xs)" for x xs by (induction xs) auto
  then show ?thesis by (simp add: all_events_def push_def)
qed

lemma push_frame [simp]: "sim_cfg (push t e s) = sim_cfg s" "reqs (push t e s) = reqs s" "outcomes (push t e s) = outcomes s"
  "sim_next_id (push t e s) = sim_next_id s" "issued (push t e s) = issued s" "prefills (push t e s) = prefills s"
  "decodes (push t e s) = decodes s" "xfer_busy (push t e s) = xfer_busy s" "xfer_queue (push t e s) = xfer_queue s"
  "sim_router (push t e s) = sim_router s" "sim_now (push t e s) = sim_now s" "horizon_ms (push t e s) = horizon_ms s"
  by (simp_all add: push_def)

lemma sim_inv_cong:
  assumes "all_events E' s' = all_events E s" "sim_cfg s' = sim_cfg s" "reqs s' = reqs s" "outcomes s' = outcomes s"
    "sim_next_id s' = sim_next_id s" "issued s' = issued s" "prefills s' = prefills s" "decodes s' = decodes s"
    "xfer_busy s' = xfer_busy s" "xfer_queue s' = xfer_queue s" "sim_router s' = sim_router s"
  shows "sim_inv c E' X hw s' = sim_inv c E X hw s"
  unfolding sim_inv_def part_defs assms by (rule refl)

lemma sim_invD:
  assumes "sim_inv c E X hw s"
  shows "sim_cfg s = c" "requests_ok (all_events E s) X s" "clients_ok c (all_events E s) s" "ids_ok s"
    "prefills_ok c (all_events E s) s" "decodes_ok c (all_events E s) X hw s" "xfers_ok c (all_events E s) s"
    "started_ok (all_events E s) s" "router_ok c (sim_router s)"
  using assms by (simp_all add: sim_inv_def)

text \<open>Pushing an event is moving it into the heap.\<close>

lemma sim_inv_push: "sim_inv c E X hw (push t e s) = sim_inv c (add_mset e E) X hw s"
  by (rule sim_inv_cong) (simp_all add: all_events_push)

lemma sim_inv_pop:
  assumes "sim_inv c {#} X hw s" "pop_event s = Some (ev, s1)"
  shows "sim_inv c {#ev#} X hw s1"
proof -
  obtain e h where h: "heap s = e # h" "ev = sch_event e" "s1 = s\<lparr>heap := h, sim_now := sch_at e\<rparr>"
    using assms(2) by (auto simp: pop_event_def split: list.splits if_splits)
  have "sim_inv c {#ev#} X hw s1 = sim_inv c {#} X hw s"
    by (rule sim_inv_cong) (use h in \<open>simp_all add: all_events_def\<close>)
  then show ?thesis using assms(1) by simp
qed

lemma all_events_frame [simp]:
  "all_events E (s\<lparr>xfer_queue := q\<rparr>) = all_events E s" "all_events E (s\<lparr>xfer_busy := n\<rparr>) = all_events E s"
  "all_events E (s\<lparr>prefills := ps\<rparr>) = all_events E s" "all_events E (s\<lparr>decodes := ds\<rparr>) = all_events E s"
  "all_events E (s\<lparr>reqs := rs\<rparr>) = all_events E s" "all_events E (s\<lparr>outcomes := outs\<rparr>) = all_events E s"
  "all_events E (s\<lparr>sim_router := r\<rparr>) = all_events E s" "all_events E (s\<lparr>sim_next_id := n\<rparr>) = all_events E s"
  "all_events E (s\<lparr>issued := n\<rparr>) = all_events E s"
  by (simp_all add: all_events_def)

lemma all_events_add [simp]: "all_events (add_mset e E) s = add_mset e (all_events E s)"
  by (simp add: all_events_def)

text \<open>Each part depends on few fields and few events.\<close>

lemma part_frames [simp]:
  "requests_ok M X (s\<lparr>xfer_busy := n\<rparr>) = requests_ok M X s" "requests_ok M X (s\<lparr>outcomes := outs\<rparr>) = requests_ok M X s"
  "requests_ok M X (s\<lparr>sim_router := r\<rparr>) = requests_ok M X s" "requests_ok M X (s\<lparr>sim_next_id := n\<rparr>) = requests_ok M X s"
  "requests_ok M X (s\<lparr>issued := n\<rparr>) = requests_ok M X s" "clients_ok c M (s\<lparr>prefills := ps\<rparr>) = clients_ok c M s"
  "clients_ok c M (s\<lparr>decodes := ds\<rparr>) = clients_ok c M s" "clients_ok c M (s\<lparr>xfer_queue := q\<rparr>) = clients_ok c M s"
  "clients_ok c M (s\<lparr>xfer_busy := n\<rparr>) = clients_ok c M s" "clients_ok c M (s\<lparr>outcomes := outs\<rparr>) = clients_ok c M s"
  "clients_ok c M (s\<lparr>sim_router := r\<rparr>) = clients_ok c M s" "clients_ok c M (s\<lparr>sim_next_id := n\<rparr>) = clients_ok c M s"
  "clients_ok c M (s\<lparr>issued := n\<rparr>) = clients_ok c M s" "ids_ok (s\<lparr>prefills := ps\<rparr>) = ids_ok s"
  "ids_ok (s\<lparr>decodes := ds\<rparr>) = ids_ok s" "ids_ok (s\<lparr>xfer_queue := q\<rparr>) = ids_ok s"
  "ids_ok (s\<lparr>xfer_busy := n\<rparr>) = ids_ok s" "ids_ok (s\<lparr>sim_router := r\<rparr>) = ids_ok s"
  "prefills_ok c M (s\<lparr>decodes := ds\<rparr>) = prefills_ok c M s" "prefills_ok c M (s\<lparr>reqs := rs\<rparr>) = prefills_ok c M s"
  "prefills_ok c M (s\<lparr>xfer_queue := q\<rparr>) = prefills_ok c M s" "prefills_ok c M (s\<lparr>xfer_busy := n\<rparr>) = prefills_ok c M s"
  "prefills_ok c M (s\<lparr>outcomes := outs\<rparr>) = prefills_ok c M s" "prefills_ok c M (s\<lparr>sim_router := r\<rparr>) = prefills_ok c M s"
  "prefills_ok c M (s\<lparr>sim_next_id := n\<rparr>) = prefills_ok c M s" "prefills_ok c M (s\<lparr>issued := n\<rparr>) = prefills_ok c M s"
  "decodes_ok c M X hw (s\<lparr>prefills := ps\<rparr>) = decodes_ok c M X hw s" "decodes_ok c M X hw (s\<lparr>reqs := rs\<rparr>) = decodes_ok c M X hw s"
  "decodes_ok c M X hw (s\<lparr>xfer_queue := q\<rparr>) = decodes_ok c M X hw s" "decodes_ok c M X hw (s\<lparr>xfer_busy := n\<rparr>) = decodes_ok c M X hw s"
  "decodes_ok c M X hw (s\<lparr>outcomes := outs\<rparr>) = decodes_ok c M X hw s" "decodes_ok c M X hw (s\<lparr>sim_router := r\<rparr>) = decodes_ok c M X hw s"
  "decodes_ok c M X hw (s\<lparr>sim_next_id := n\<rparr>) = decodes_ok c M X hw s" "decodes_ok c M X hw (s\<lparr>issued := n\<rparr>) = decodes_ok c M X hw s"
  "xfers_ok c M (s\<lparr>prefills := ps\<rparr>) = xfers_ok c M s" "xfers_ok c M (s\<lparr>reqs := rs\<rparr>) = xfers_ok c M s"
  "xfers_ok c M (s\<lparr>outcomes := outs\<rparr>) = xfers_ok c M s" "xfers_ok c M (s\<lparr>sim_router := r\<rparr>) = xfers_ok c M s"
  "xfers_ok c M (s\<lparr>sim_next_id := n\<rparr>) = xfers_ok c M s" "xfers_ok c M (s\<lparr>issued := n\<rparr>) = xfers_ok c M s"
  "started_ok M (s\<lparr>prefills := ps\<rparr>) = started_ok M s" "started_ok M (s\<lparr>xfer_busy := n\<rparr>) = started_ok M s"
  "started_ok M (s\<lparr>outcomes := outs\<rparr>) = started_ok M s" "started_ok M (s\<lparr>sim_router := r\<rparr>) = started_ok M s"
  "started_ok M (s\<lparr>sim_next_id := n\<rparr>) = started_ok M s" "started_ok M (s\<lparr>issued := n\<rparr>) = started_ok M s"
  by (simp_all add: part_defs)

lemma part_events [simp]:
  "requests_ok (add_mset (Arrival k) M) X s = requests_ok M X s" "prefills_ok c (add_mset (Arrival k) M) s = prefills_ok c M s"
  "decodes_ok c (add_mset (Arrival k) M) X hw s = decodes_ok c M X hw s" "xfers_ok c (add_mset (Arrival k) M) s = xfers_ok c M s"
  "started_ok (add_mset (Arrival k) M) s = started_ok M s" "requests_ok (add_mset (PrefillDone w) M) X s = requests_ok M X s"
  "clients_ok c (add_mset (PrefillDone w) M) s = clients_ok c M s" "decodes_ok c (add_mset (PrefillDone w) M) X hw s = decodes_ok c M X hw s"
  "xfers_ok c (add_mset (PrefillDone w) M) s = xfers_ok c M s" "started_ok (add_mset (PrefillDone w) M) s = started_ok M s"
  "clients_ok c (add_mset (KvArrived i w) M) s = clients_ok c M s" "prefills_ok c (add_mset (KvArrived i w) M) s = prefills_ok c M s"
  "decodes_ok c (add_mset (KvArrived i w) M) X hw s = decodes_ok c M X hw s" "requests_ok (add_mset (DecodeStep w) M) X s = requests_ok M X s"
  "clients_ok c (add_mset (DecodeStep w) M) s = clients_ok c M s" "prefills_ok c (add_mset (DecodeStep w) M) s = prefills_ok c M s"
  "xfers_ok c (add_mset (DecodeStep w) M) s = xfers_ok c M s" "started_ok (add_mset (DecodeStep w) M) s = started_ok M s"
  by (simp_all add: part_defs)

lemma decodes_ok_None: "decodes_ok c M X None s = decodes_ok c M Y None s"
  by (simp add: decodes_ok_def)

subsection \<open>Transfers\<close>

lemma push_xfer_queue: "(push t e s)\<lparr>xfer_queue := q\<rparr> = push t e (s\<lparr>xfer_queue := q\<rparr>)"
  by (simp add: push_def)

lemma start_transfer_inv:
  assumes "sim_inv c E X hw (s\<lparr>xfer_queue := (rid, dw) # q\<rparr>)" "xfer_busy s < xfer_limit c"
  shows "sim_inv c (add_mset (KvArrived rid dw) E) X hw (s\<lparr>xfer_busy := xfer_busy s + 1, xfer_queue := q\<rparr>)"
proof -
  let ?s = "s\<lparr>xfer_queue := (rid, dw) # q\<rparr>" and ?s' = "s\<lparr>xfer_busy := xfer_busy s + 1, xfer_queue := q\<rparr>"
  let ?M = "all_events E s"
  have past: "past_prefill (add_mset (KvArrived rid dw) ?M) ?s' = past_prefill ?M ?s"
    by (simp add: past_prefill_def)
  have "requests_ok (add_mset (KvArrived rid dw) ?M) X ?s' = requests_ok ?M X ?s"
    unfolding requests_ok_def stages_def past by simp
  moreover have "started_ok (add_mset (KvArrived rid dw) ?M) ?s' = started_ok ?M ?s"
    unfolding started_ok_def past by simp
  moreover have "xfers_ok c (add_mset (KvArrived rid dw) ?M) ?s'" if "xfers_ok c ?M ?s"
    using that assms(2) by (auto simp: xfers_ok_def)
  ultimately show ?thesis using assms(1) by (simp add: sim_inv_def)
qed

lemma drain_loop_inv:
  assumes "sim_inv c E X hw (s\<lparr>xfer_queue := q\<rparr>)"
  shows "sim_inv c E X hw (drain_loop (xfer_limit c) tr q s)"
  using assms
proof (induction q arbitrary: s)
  case (Cons x q)
  obtain rid dw where x: "x = (rid, dw)" by (cases x)
  show ?case
  proof (cases "xfer_busy s < xfer_limit c")
    case True
    let ?s = "push (sim_now s + tr) (KvArrived rid dw) (s\<lparr>xfer_busy := xfer_busy s + 1\<rparr>)"
    have "sim_inv c E X hw (?s\<lparr>xfer_queue := q\<rparr>)"
      using start_transfer_inv [where s = s and rid = rid and dw = dw and q = q and c = c and E = E and X = X and hw = hw] Cons.prems True x by (simp add: push_xfer_queue sim_inv_push)
    from Cons.IH [OF this] show ?thesis using True x by simp
  next
    case False
    then show ?thesis using Cons.prems x by simp
  qed
qed simp

lemma drain_inv:
  assumes "sim_inv c E X hw s"
  shows "sim_inv c E X hw (drain_xfer_queue s)"
proof -
  have "sim_inv c E X hw (s\<lparr>xfer_queue := xfer_queue s\<rparr>)" using assms by simp
  from drain_loop_inv [OF this] show ?thesis
    using sim_invD(1) [OF assms] by (simp add: drain_xfer_queue_def xfer_limit_def)
qed

lemma drain_loop_frame: "reqs (drain_loop l tr q s) = reqs s" "decodes (drain_loop l tr q s) = decodes s"
  "sim_now (drain_loop l tr q s) = sim_now s" "prefills (drain_loop l tr q s) = prefills s" "sim_cfg (drain_loop l tr q s) = sim_cfg s"
  by (induction q arbitrary: s) auto

lemma drain_frame [simp]: "reqs (drain_xfer_queue s) = reqs s" "decodes (drain_xfer_queue s) = decodes s"
  "prefills (drain_xfer_queue s) = prefills s" "sim_now (drain_xfer_queue s) = sim_now s" "sim_cfg (drain_xfer_queue s) = sim_cfg s"
  by (simp_all add: drain_xfer_queue_def drain_loop_frame)

subsection \<open>First tokens\<close>

lemma first_token_inv:
  assumes i: "sim_inv c E (add_mset rid X) None s" and g: "hm_get (reqs s) rid = Some r"
  shows "sim_inv c E X None (s\<lparr>reqs := hm_insert rid (r\<lparr>rq_first_token_ms := Some t, rq_last_token_ms := t\<rparr>) (reqs s),
      xfer_queue := xfer_queue s @ [(rid, rq_decode_worker r)]\<rparr>)"
    (is "sim_inv c E X None ?s")
proof -
  let ?r = "r\<lparr>rq_first_token_ms := Some t, rq_last_token_ms := t\<rparr>" and ?M = "all_events E s"
  note D = sim_invD [OF i]
  have wf: "hm_wf (reqs s)" using D(2) by (simp add: requests_ok_def)
  have k: "hm_keys (hm_insert rid ?r (reqs s)) = hm_keys (reqs s)" by (rule keys_insert_old [OF g])
  have v: "map rq_client (hm_values (hm_insert rid ?r (reqs s))) = map rq_client (hm_values (reqs s))"
    by (rule values_insert_same [OF g _ wf]) simp
  have past: "past_prefill ?M ?s = add_mset rid (past_prefill ?M s)" by (simp add: past_prefill_def)
  have st: "stages ?M ?s = add_mset rid (stages ?M s)" unfolding stages_def past by simp
  have w: "rq_decode_worker r < length (decodes s)" using D(8) g by (simp add: started_ok_def)
  have "requests_ok ?M X ?s" using D(2) wf unfolding requests_ok_def st by (simp add: k del: mset_map)
  moreover have "clients_ok c ?M ?s" using D(3) unfolding clients_ok_def by (simp add: v del: map_map mset_map)
  moreover have "ids_ok ?s" using D(4) unfolding ids_ok_def by (simp add: k del: mset_map)
  moreover have "decodes_ok c ?M X None ?s" using D(6) decodes_ok_None [of c ?M "add_mset rid X" s X] by simp
  moreover have "xfers_ok c ?M ?s" using D(7) w by (auto simp: xfers_ok_def)
  moreover have "started_ok ?M ?s" using D(8) g unfolding started_ok_def past by (auto simp: hm_simps)
  ultimately show ?thesis using D(1,5,9) by (simp add: sim_inv_def)
qed

lemma first_tokens_inv:
  "sim_inv c E (mset ids + X) None s \<Longrightarrow> \<exists>s'. first_tokens ids s = Some s' \<and> sim_inv c E X None s'
    \<and> prefills s' = prefills s \<and> sim_now s' = sim_now s"
proof (induction ids arbitrary: s)
  case (Cons rid ids)
  have "rid \<in># mset (hm_keys (reqs s))" using Cons.prems by (simp add: sim_inv_def requests_ok_def)
  then obtain r where g: "hm_get (reqs s) rid = Some r" using get_None_keys [of "reqs s" rid] by auto
  have "sim_inv c E (add_mset rid (mset ids + X)) None s" using Cons.prems by simp
  from Cons.IH [OF first_token_inv [OF this g, of "sim_now s"]] show ?case using g by simp
qed simp

subsection \<open>Prefill workers\<close>

lemma plan_fits:
  assumes "sched_wf s"
  shows "batch_fits s (fst (plan s now))"
proof -
  obtain d where i: "batch_inv s now (set (on_time (plan_ordering s now))) (fst (plan s now), d)"
    and dis: "distinct (map ch_id (chunks (fst (plan s now))))"
    using plan_result [OF assms] by metis
  show ?thesis unfolding batch_fits_def using dis batch_chunk [OF i] by blast
qed

lemma batch_fits_queue: "queue s = queue t \<Longrightarrow> batch_fits s b = batch_fits t b"
  by (simp add: batch_fits_def)

lemma batch_fits_enqueue:
  assumes "batch_fits s b" "hm_get (queue s) (pp_id p) = None"
  shows "batch_fits (enqueue s p) b"
  unfolding batch_fits_def
proof (intro conjI ballI)
  show "distinct (map ch_id (chunks b))" using assms(1) by (simp add: batch_fits_def)
  fix c assume "c \<in> set (chunks b)"
  then obtain q where q: "hm_get (queue s) (ch_id c) = Some q" "ch_tokens c \<le> remaining q" "ch_completes c = (ch_tokens c = remaining q)"
    using assms(1) by (auto simp: batch_fits_def)
  then have "ch_id c \<noteq> pp_id p" using assms(2) by auto
  then have "hm_get (queue (enqueue s p)) (ch_id c) = Some q" using q(1) by (simp add: enqueue_def Let_def hm_simps)
  then show "\<exists>p'. hm_get (queue (enqueue s p)) (ch_id c) = Some p' \<and> ch_tokens c \<le> remaining p'
      \<and> ch_completes c = (ch_tokens c = remaining p')" using q(2,3) by blast
qed

lemma enqueue_keys: "hm_get (queue s) (pp_id p) = None \<Longrightarrow> mset (hm_keys (queue (enqueue s p))) = add_mset (pp_id p) (mset (hm_keys (queue s)))"
  by (simp add: enqueue_def Let_def keys_insert_fresh del: mset_map)

text \<open>Completing a batch that still fits removes exactly the requests it completes.\<close>

lemma complete_fits:
  fixes elapsed :: real
  assumes w: "sched_wf s" and f: "batch_fits s b"
  defines "r \<equiv> complete s b elapsed"
  shows "sched_wf (snd r) \<and> distinct (fst r) \<and> mset (hm_keys (queue s)) = mset (hm_keys (queue (snd r))) + mset (fst r)
    \<and> queued_tokens (snd r) + sum_list (map ch_tokens (chunks b)) = queued_tokens s"
proof -
  define s1 where "s1 = observe_rate s b elapsed"
  define c where "c = credit (chunks b) (queue s1)"
  have q1: "queue s1 = queue s" "order s1 = order s" by (simp_all add: s1_def)
  have dis: "distinct (map ch_id (chunks b))" using f by (simp add: batch_fits_def)
  have ok: "\<forall>c \<in> set (chunks b). \<exists>p. hm_get (queue s1) (ch_id c) = Some p \<and> ch_tokens c \<le> remaining p"
    using f unfolding q1 batch_fits_def by blast
  have hw: "hm_wf (queue s1)" using sched_wf_parts [OF w] q1 by simp
  note C = credit_conserves [OF hw dis ok, folded c_def]
  have w2: "sched_wf (s1\<lparr>queue := snd c\<rparr>)"
  proof (rule sched_wfI)
    have "dom (hm_get (snd c)) = dom (hm_get (queue s1))" using C by (metis hm.keys_get)
    then show "set (order (s1\<lparr>queue := snd c\<rparr>)) = dom (hm_get (queue (s1\<lparr>queue := snd c\<rparr>)))"
      using sched_wf_order [OF w] q1 by simp
    show "pp_id p = k \<and> done_tokens p \<le> compute_tokens p" if "hm_get (queue (s1\<lparr>queue := snd c\<rparr>)) k = Some p" for k p
      using that credit_entries [of "chunks b" "queue s1" k p] sched_wf_get [OF w] q1 by (simp add: c_def)
  qed (use C sched_wf_parts [OF w] q1 in auto)
  have r: "r = (fst c, foldl (\<lambda>s rid. snd (remove s rid)) (s1\<lparr>queue := snd c\<rparr>) (fst c))"
    unfolding r_def complete_def c_def s1_def by (simp add: Let_def split_beta)
  have ends: "\<forall>rid \<in> set (fst c). \<exists>p. hm_get (queue (s1\<lparr>queue := snd c\<rparr>)) rid = Some p \<and> remaining p = 0"
    using C by simp
  have d: "distinct (fst c)" using C by simp
  note R = remove_finished [OF w2 d ends]
  have wr: "sched_wf (snd r)" using R unfolding r by simp
  have g: "hm_get (queue (snd r)) = (hm_get (snd c)) |` (- set (fst c))" using R unfolding r by simp
  have sub: "set (fst c) \<subseteq> dom (hm_get (snd c))" using ends by auto
  have "mset (hm_keys (snd c)) = mset (hm_keys (queue (snd r))) + mset (fst c)"
  proof (rule keys_by_get)
    show "hm_wf (snd c)" using C hw by simp
    show "hm_wf (queue (snd r))" using sched_wf_parts [OF wr] by simp
    show "dom (hm_get (snd c)) = dom (hm_get (queue (snd r))) \<union> set (fst c)" "dom (hm_get (queue (snd r))) \<inter> set (fst c) = {}"
      using sub unfolding g by auto
  qed (rule d)
  moreover have "hm_keys (snd c) = hm_keys (queue s)" using C q1 by simp
  moreover have "queued_tokens (snd r) + sum_list (map ch_tokens (chunks b)) = queued_tokens s"
    using R C q1 unfolding r by (simp add: queued_tokens_def)
  ultimately show ?thesis using wr d unfolding r by (simp del: mset_map)
qed

lemma queued_update:
  assumes "w < length ps"
  shows "sum_list (map queued_ids (ps[w := p])) + queued_ids (ps ! w) = sum_list (map queued_ids ps) + queued_ids p"
  using sum_list_update_eq [OF assms, of queued_ids p] by simp

text \<open>Replacing a prefill worker: what it no longer queues is in hand.\<close>

lemma prefill_update_inv:
  assumes i: "sim_inv c E X hw s" and w: "w < length (prefills s)"
    and ok: "prefill_ok (count (all_events E' s) (PrefillDone w)) p"
    and ev: "all_events E s = add_mset (PrefillDone w) (all_events E' s) \<or> all_events E' s = add_mset (PrefillDone w) (all_events E s)
      \<or> all_events E' s = all_events E s"
    and q: "queued_ids (prefills s ! w) + X = queued_ids p + X'" and hw: "hw = None"
  shows "sim_inv c E' X' hw (s\<lparr>prefills := (prefills s)[w := p]\<rparr>)" (is "sim_inv c E' X' hw ?s")
proof -
  let ?M = "all_events E s" and ?M' = "all_events E' s"
  note D = sim_invD [OF i]
  have past: "past_prefill ?M' ?s = past_prefill ?M s" using ev by (auto simp: past_prefill_def)
  have "stages ?M' ?s + X' + queued_ids (prefills s ! w) = stages ?M s + X + queued_ids (prefills s ! w)"
    using queued_update [OF w, of p] q unfolding stages_def past
    by (simp add: ac_simps del: mset_map)
  then have "requests_ok ?M' X' ?s" using D(2) by (simp add: requests_ok_def del: mset_map)
  moreover have "clients_ok c ?M' ?s" "ids_ok ?s" "xfers_ok c ?M' ?s" "started_ok ?M' ?s"
    using D(3,4,7,8) ev past by (auto simp: clients_ok_def xfers_ok_def started_ok_def)
  moreover have "prefills_ok c ?M' ?s" using D(5) ev ok w by (auto simp: prefills_ok_def nth_list_update)
  moreover have "decodes_ok c ?M' X' hw ?s" using D(6) ev hw by (auto simp: decodes_ok_def)
  ultimately show ?thesis using D(1,9) by (simp add: sim_inv_def)
qed

lemma nth_opt_Some [simp]: "i < length xs \<Longrightarrow> nth_opt xs i = Some (xs ! i)"
  by (simp add: nth_opt_def)

lemma prefill_at:
  "sim_inv c E X hw s \<Longrightarrow> w < length (prefills s) \<Longrightarrow> prefill_ok (count (all_events E s) (PrefillDone w)) (prefills s ! w)"
  using sim_invD(5) [of c E X hw s] by (simp add: prefills_ok_def)

lemma try_start_inv:
  assumes i: "sim_inv c E {#} None s" and w: "w < length (prefills s)"
  shows "\<exists>s'. try_start_prefill w s = Some s' \<and> sim_inv c E {#} None s'"
proof -
  let ?pw = "prefills s ! w"
  let ?b = "fst (plan (pws_sched ?pw) (sim_now s))" and ?q = "snd (plan (pws_sched ?pw) (sim_now s))"
  note ok = prefill_at [OF i w, unfolded prefill_ok_def]
  have wf: "sched_wf ?q" using ok plan_wf by blast
  show ?thesis
  proof (cases "pws_busy ?pw")
    case True
    then show ?thesis using i w by (simp add: try_start_prefill_def)
  next
    case idle: False
    show ?thesis
    proof (cases "chunks ?b = []")
      case True
      have "sim_inv c E {#} None (s\<lparr>prefills := (prefills s)[w := ?pw\<lparr>pws_sched := ?q\<rparr>]\<rparr>)"
        by (rule prefill_update_inv [OF i w]) (use ok wf idle in \<open>auto simp: prefill_ok_def\<close>)
      then show ?thesis using w idle True by (simp add: try_start_prefill_def Let_def split_beta)
    next
      case False
      let ?E = "add_mset (PrefillDone w) E"
      have fits: "batch_fits ?q ?b" using plan_fits [of "pws_sched ?pw" "sim_now s"] ok batch_fits_queue [of ?q "pws_sched ?pw"] by simp
      have inv: "sim_inv c ?E {#} None (s\<lparr>prefills := (prefills s)[w := ?pw\<lparr>pws_sched := ?q, pws_busy := True,
          pws_busy_ms := x, pws_batch := Some (?b, sim_now s)\<rparr>]\<rparr>)" for x
        by (rule prefill_update_inv [OF i w]) (use ok wf idle fits in \<open>auto simp: prefill_ok_def\<close>)
      let ?ms = "batch_ms (pws_curve ?pw) (total_tokens ?b) (length (chunks ?b))"
      obtain s2 where s2: "try_start_prefill w s = Some (push (sim_now s + ?ms) (PrefillDone w) s2)"
        "sim_cfg s2 = sim_cfg s" "reqs s2 = reqs s" "outcomes s2 = outcomes s" "sim_next_id s2 = sim_next_id s" "issued s2 = issued s"
        "decodes s2 = decodes s" "xfer_busy s2 = xfer_busy s" "xfer_queue s2 = xfer_queue s" "sim_router s2 = sim_router s" "heap s2 = heap s"
        "prefills s2 = (prefills s)[w := ?pw\<lparr>pws_sched := ?q, pws_busy := True,
          pws_busy_ms := pws_busy_ms ?pw + charged_ms (horizon_ms s) (sim_now s) ?ms, pws_batch := Some (?b, sim_now s)\<rparr>]"
        using w idle False by (simp add: try_start_prefill_def Let_def split_beta)
      have "sim_inv c ?E {#} None s2 = sim_inv c ?E {#} None (s\<lparr>prefills := prefills s2\<rparr>)"
        by (rule sim_inv_cong) (use s2 in \<open>simp_all add: all_events_def\<close>)
      then show ?thesis using inv s2(1,12) by (simp add: sim_inv_push)
    qed
  qed
qed

lemma on_prefill_done_inv:
  assumes i: "sim_inv c {#PrefillDone w#} {#} None s"
  shows "\<exists>s'. on_prefill_done w s = Some s' \<and> sim_inv c {#} {#} None s'"
proof -
  have w: "w < length (prefills s)" using sim_invD(5) [OF i] unfolding prefills_ok_def by (auto simp: all_events_def)
  let ?pw = "prefills s ! w"
  note ok = prefill_at [OF i w, unfolded prefill_ok_def]
  have one: "count (all_events {#} s) (PrefillDone w) = 0" "pws_busy ?pw"
    using ok by (auto simp: all_events_def split: if_splits)
  then obtain b t where b: "pws_batch ?pw = Some (b, t)" using ok by auto
  obtain fin sched where f: "complete (pws_sched ?pw) b (sim_now s - t) = (fin, sched)" by fastforce
  have C: "sched_wf sched" "mset (hm_keys (queue (pws_sched ?pw))) = mset (hm_keys (queue sched)) + mset fin"
    using complete_fits [of "pws_sched ?pw" b "sim_now s - t"] ok b f by auto
  let ?s = "s\<lparr>prefills := (prefills s)[w := ?pw\<lparr>pws_batch := None, pws_sched := sched, pws_busy := False\<rparr>]\<rparr>"
  have "sim_inv c {#} (mset fin) None ?s"
    by (rule prefill_update_inv [OF i w]) (use C one in \<open>simp_all add: prefill_ok_def all_events_def del: mset_map\<close>)
  then have "sim_inv c {#} (mset fin + {#}) None ?s" by simp
  from first_tokens_inv [OF this] obtain s2 where s2: "first_tokens fin ?s = Some s2" "sim_inv c {#} {#} None s2"
    "prefills s2 = prefills ?s" by blast
  have "\<exists>s'. try_start_prefill w (drain_xfer_queue s2) = Some s' \<and> sim_inv c {#} {#} None s'"
    by (rule try_start_inv [OF drain_inv [OF s2(2)]]) (use s2(3) w in simp)
  then show ?thesis using w b f s2(1) by (simp add: on_prefill_done_def Let_def)
qed

subsection \<open>Arrivals\<close>

lemma load_updates_ids: "fst ` set (load_updates s) =
    {0..<length (prefills s)} \<union> {DECODE_ID_BASE..<DECODE_ID_BASE + length (decodes s)}"
proof -
  have e: "fst ` set (map (\<lambda>(j, d). (k + j, f d)) (List.enumerate 0 xs)) = {k..<k + length xs}" for k :: nat and f :: "'a \<Rightarrow> worker_load" and xs
  proof -
    have "fst ` set (map (\<lambda>(j, d). (k + j, f d)) (List.enumerate 0 xs)) = (\<lambda>j. k + j) ` set (map fst (List.enumerate 0 xs))"
      unfolding set_map image_image by (rule image_cong) auto
    also have "\<dots> = {k..<k + length xs}" by (simp add: image_add_atLeastLessThan add.commute)
    finally show ?thesis .
  qed
  show ?thesis
    unfolding load_updates_def set_append image_Un
    using e [of 0 "prefill_load (sim_now s)" "prefills s"] e [of DECODE_ID_BASE "decode_load (sim_now s)" "decodes s"] by simp
qed

lemma load_updates_now: "\<forall>(i, l) \<in> set (load_updates s). updated_ms l = sim_now s"
  by (auto simp: load_updates_def prefill_load_def decode_load_def)

text \<open>After the loads are reported every worker is live, so routing cannot fail.\<close>

lemma routed:
  assumes r: "router_ok c (sim_router s)" and len: "length (prefills s) = tc_prefill_workers (cfg_topology c)"
    "length (decodes s) = tc_decode_workers (cfg_topology c)"
    and pos: "0 < length (prefills s)" "0 < length (decodes s)" "length (prefills s) \<le> DECODE_ID_BASE"
  shows "router_ok c (sim_router (sync_loads s)) \<and> (\<exists>d. route (sim_router (sync_loads s)) toks (sim_now s) budget = Some (Inr d)
     \<and> rd_prefill d < length (prefills s) \<and> DECODE_ID_BASE \<le> rd_decode d \<and> rd_decode d - DECODE_ID_BASE < length (decodes s))"
proof -
  let ?g = "hm_get (registered (registry (sim_router s)))"
  have sy: "sim_router (sync_loads s) = report_loads (load_updates s) (sim_router s)" by (simp add: sync_loads_def report_loads_def)
  have dom: "dom ?g = {0..<length (prefills s)} \<union> {DECODE_ID_BASE..<DECODE_ID_BASE + length (decodes s)}"
    using r by (simp add: router_ok_def len)
  have roles: "role w = (if i < DECODE_ID_BASE then PrefillRole else DecodeRole)" if "?g i = Some w" for i w
    using r that unfolding router_ok_def by auto
  have "0 \<in> dom ?g" "DECODE_ID_BASE \<in> dom ?g" using dom pos by auto
  then obtain va vb where v: "?g 0 = Some va" "?g DECODE_ID_BASE = Some vb" by blast
  have vr: "role va = PrefillRole" "role vb = DecodeRole" using roles [OF v(1)] roles [OF v(2)] by (simp_all add: DECODE_ID_BASE_def)
  have "router_inv (sim_router s)" "0 \<le> stale_after_ms (registry (sim_router s))" using r by (simp_all add: router_ok_def)
  moreover have "dom ?g \<subseteq> fst ` set (load_updates s)" unfolding load_updates_ids dom by (rule order_refl)
  ultimately
  obtain d p q where inv: "router_inv (sim_router (sync_loads s))" and d: "route (sim_router (sync_loads s)) toks (sim_now s) budget = Some (Inr d)"
    "?g (rd_prefill d) = Some p" "role p = PrefillRole" "?g (rd_decode d) = Some q" "role q = DecodeRole"
    using fresh_route [where toks = toks and budget = budget, OF _ load_updates_now [of s] _ _ v(1) vr(1) v(2) vr(2), folded sy] by blast
  have "rd_prefill d < DECODE_ID_BASE" "\<not> rd_decode d < DECODE_ID_BASE"
    using roles [OF d(2)] roles [OF d(4)] d(3,5) by (auto split: if_splits)
  moreover have "rd_prefill d \<in> dom ?g" "rd_decode d \<in> dom ?g" using d(2,4) by blast+
  ultimately have "rd_prefill d < length (prefills s)" "DECODE_ID_BASE \<le> rd_decode d" "rd_decode d - DECODE_ID_BASE < length (decodes s)"
    using pos(3) unfolding dom by auto
  moreover have "router_ok c (sim_router (sync_loads s))"
  proof -
    have "role w = (if i < DECODE_ID_BASE then PrefillRole else DecodeRole)"
      if "hm_get (registered (registry (sim_router (sync_loads s)))) i = Some w" for i w
      using loads_roles [of "registry (sim_router s)" "load_updates s" i w] that roles by (auto simp: sync_loads_def)
    then show ?thesis using inv r by (simp add: router_ok_def sync_loads_def loads_frame)
  qed
  ultimately show ?thesis using d(1) by blast
qed

lemma noted:
  assumes "router_ok c r"
  shows "\<exists>r'. note_prefill r w toks now = Some r' \<and> router_ok c r'"
proof -
  have ri: "radix_inv (prefix_idx r)" using assms by (simp add: router_ok_def router_inv_def)
  obtain i where i: "index_insert w toks now (prefix_idx r) = Some i"
  proof (cases "index_accepts (prefix_idx r) toks")
    case True
    then show ?thesis using that index_insert_spec [of "prefix_idx r" toks w now] ri
      by (auto simp: radix_inv_def index_accepts_def node_count_def)
  next
    case False
    then show ?thesis using that by (auto simp: index_insert_def index_accepts_def node_count_def)
  qed
  have "router_inv (r\<lparr>prefix_idx := i\<rparr>)" using assms radix_insert_inv [OF ri i] by (simp add: router_ok_def router_inv_def)
  then show ?thesis using i assms by (simp add: note_prefill_def router_ok_def)
qed

lemma fresh_id:
  assumes "sim_inv c E X hw s"
  shows "hm_get (reqs s) (sim_next_id s) = None" "w < length (prefills s) \<Longrightarrow> hm_get (queue (pws_sched (prefills s ! w))) (sim_next_id s) = None"
    "sim_next_id s \<notin># past_prefill (all_events E s) s"
proof -
  have "set_mset (mset (hm_keys (reqs s))) \<subseteq> set_mset (mset [0..<sim_next_id s])"
    using sim_invD(4) [OF assms] unfolding ids_ok_def by (metis mset_subset_eq_add_right set_mset_mono)
  then have k: "sim_next_id s \<notin># mset (hm_keys (reqs s))" by auto
  then show "hm_get (reqs s) (sim_next_id s) = None" unfolding get_None_keys .
  have st: "mset (hm_keys (reqs s)) = stages (all_events E s) s + X" using sim_invD(2) [OF assms] by (simp add: requests_ok_def del: mset_map)
  show "sim_next_id s \<notin># past_prefill (all_events E s) s" using k unfolding st stages_def by auto
  assume w: "w < length (prefills s)"
  have "queued_ids (prefills s ! w) \<subseteq># mset (hm_keys (reqs s))"
    using subset_mset.order_trans [OF sum_list_member_le [OF w, of queued_ids] mset_subset_eq_add_left] unfolding st stages_def
    by (simp only: add.assoc)
  then have "sim_next_id s \<notin># queued_ids (prefills s ! w)" using k mset_subset_eqD by fastforce
  then show "hm_get (queue (pws_sched (prefills s ! w))) (sim_next_id s) = None" unfolding get_None_keys .
qed

text \<open>A client's request is registered and queued in one go.\<close>

lemma admit_request_inv:
  assumes i: "sim_inv c (add_mset (Arrival k) E) {#} None s" and w: "w < length (prefills s)"
    and r: "rq_client r = k" "rq_decode_worker r < length (decodes s)"
    and p: "pp_id p = sim_next_id s" "done_tokens p = 0"
    and rt: "router_ok c rt"
  shows "sim_inv c E {#} None (s\<lparr>sim_next_id := sim_next_id s + 1, issued := issued s + 1, reqs := hm_insert (sim_next_id s) r (reqs s),
      prefills := (prefills s)[w := (prefills s ! w)\<lparr>pws_sched := enqueue (pws_sched (prefills s ! w)) p\<rparr>], sim_router := rt\<rparr>)"
    (is "sim_inv c E {#} None ?s")
proof -
  note D = sim_invD [OF i] and F = fresh_id [OF i]
  let ?M = "all_events E s" and ?pw = "prefills s ! w" and ?id = "sim_next_id s"
  let ?p = "?pw\<lparr>pws_sched := enqueue (pws_sched ?pw) p\<rparr>"
  have wf: "hm_wf (reqs s)" using D(2) by (simp add: requests_ok_def)
  have q: "queued_ids ?p = add_mset ?id (queued_ids ?pw)"
    using enqueue_keys [of "pws_sched ?pw" p] F(2) [OF w] p(1) by (simp del: mset_map)
  have sum: "sum_list (map queued_ids ((prefills s)[w := ?p])) = add_mset ?id (sum_list (map queued_ids (prefills s)))"
    using queued_update [OF w, of ?p] unfolding q by (simp del: mset_map)
  have past: "past_prefill ?M ?s = past_prefill ?M s" by (simp add: past_prefill_def)
  have "requests_ok ?M {#} ?s"
    using D(2) wf F(1) unfolding requests_ok_def stages_def past
    by (simp add: keys_insert_fresh sum past_prefill_def del: mset_map)
  moreover have "clients_ok c ?M ?s"
    using D(3) F(1) r(1) unfolding clients_ok_def by (simp add: map_values_insert_fresh del: map_map mset_map mset_upt)
  moreover have "ids_ok ?s" using D(4) F(1) unfolding ids_ok_def by (simp add: keys_insert_fresh del: mset_map)
  moreover have "prefill_ok (count ?M (PrefillDone w)) ?p"
    using prefill_at [OF i w] p batch_fits_enqueue [of "pws_sched ?pw" _ p] F(2) [OF w] enqueue_wf [of "pws_sched ?pw" p]
    by (auto simp: prefill_ok_def)
  then have "prefills_ok c ?M ?s" using D(5) w by (auto simp: prefills_ok_def nth_list_update)
  moreover have "started_ok ?M ?s"
    using D(8) r(2) F(3) unfolding started_ok_def past by (auto simp: hm_simps past_prefill_def)
  ultimately show ?thesis using D(1,6,7) rt by (simp add: sim_inv_def)
qed

text \<open>An arrival is routed, queued with the prefill worker chosen for it, and that worker tries to start.\<close>

definition queued_on :: "nat \<Rightarrow> req_state \<Rightarrow> pending_prefill \<Rightarrow> router \<Rightarrow> simulator \<Rightarrow> simulator" where
  "queued_on w r item rt s = s\<lparr>sim_next_id := sim_next_id s + 1, issued := issued s + 1, reqs := hm_insert (sim_next_id s) r (reqs s),
      prefills := (prefills s)[w := (prefills s ! w)\<lparr>pws_sched := enqueue (pws_sched (prefills s ! w)) item\<rparr>], sim_router := rt\<rparr>"

lemma on_arrival_queues:
  assumes i: "sim_inv c {#Arrival k#} {#} None s"
    and pos: "0 < tc_prefill_workers (cfg_topology c)" "0 < tc_decode_workers (cfg_topology c)" "tc_prefill_workers (cfg_topology c) \<le> DECODE_ID_BASE"
  obtains w r item rt where "on_arrival k s = try_start_prefill w (queued_on w r item rt s)" "w < length (prefills s)"
    "pp_id item = sim_next_id s" "remaining item \<le> wl_isl (workload c)" "sim_inv c {#} {#} None (queued_on w r item rt s)"
proof -
  note D = sim_invD [OF i]
  have len: "length (prefills s) = tc_prefill_workers (cfg_topology c)" "length (decodes s) = tc_decode_workers (cfg_topology c)"
    using D(5,6) by (simp_all add: prefills_ok_def decodes_ok_def)
  let ?old = "s\<lparr>sim_next_id := sim_next_id s + 1, issued := issued s + 1\<rparr>"
  let ?s = "sync_loads ?old"
  let ?toks = "sim_prompt (sim_next_id s) (wl_isl (workload c))" and ?t = "slo_ttft_ms (cfg_slo c)"
  obtain d where d: "router_ok c (sim_router ?s)" "route (sim_router ?s) ?toks (sim_now s) ?t = Some (Inr d)"
    "rd_prefill d < length (prefills s)" "DECODE_ID_BASE \<le> rd_decode d" "rd_decode d - DECODE_ID_BASE < length (decodes s)"
    using routed [where c = c and s = ?old and toks = ?toks and budget = ?t] D(9) len pos by auto
  let ?w = "rd_prefill d"
  define r where "r = new_req s k (rd_decode d - DECODE_ID_BASE)"
  define item where "item = \<lparr>pp_id = sim_next_id s, pp_arrival_ms = sim_now s, pp_deadline_ms = sim_now s + ?t,
      compute_tokens = wl_isl (workload c) - prefix_hit_tokens d, done_tokens = 0\<rparr>"
  obtain rt where rt: "(if cache_bust (workload c) then Some (sim_router ?s) else note_prefill (sim_router ?s) ?w ?toks (sim_now s)) = Some rt"
    "router_ok c rt" using noted [OF d(1), of ?w ?toks "sim_now s"] d(1) by (cases "cache_bust (workload c)") auto
  let ?queued = "queued_on ?w r item rt s"
  define x where "x = sim_router ?s"
  have sy: "?s = ?old\<lparr>sim_router := x\<rparr>" by (simp add: x_def sync_loads_def)
  have "on_arrival k s = try_start_prefill ?w ?queued"
  proof (cases "cache_bust (workload c)")
    case True
    then have "rt = x" using rt(1) by (simp add: x_def)
    then show ?thesis using d(2-5) True D(1) unfolding on_arrival_def Let_def x_def [symmetric] sy by (simp add: queued_on_def r_def item_def new_req_def)
  next
    case False
    then have "note_prefill x ?w ?toks (sim_now s) = Some rt" using rt(1) by (simp add: x_def)
    then show ?thesis using d(2-5) False D(1) unfolding on_arrival_def Let_def x_def [symmetric] sy by (simp add: queued_on_def r_def item_def new_req_def)
  qed
  moreover have "sim_inv c {#} {#} None ?queued" unfolding queued_on_def
    by (rule admit_request_inv [where k = k]) (use i d(3,5) rt(2) in \<open>simp_all add: r_def item_def new_req_def\<close>)
  ultimately show ?thesis using that [of ?w r item rt] d(3) by (simp add: item_def remaining_def)
qed

lemma on_arrival_inv:
  assumes "sim_inv c {#Arrival k#} {#} None s"
    and "0 < tc_prefill_workers (cfg_topology c)" "0 < tc_decode_workers (cfg_topology c)" "tc_prefill_workers (cfg_topology c) \<le> DECODE_ID_BASE"
  shows "\<exists>s'. on_arrival k s = Some s' \<and> sim_inv c {#} {#} None s'"
proof -
  obtain w r item rt where q: "on_arrival k s = try_start_prefill w (queued_on w r item rt s)" "w < length (prefills s)"
    "sim_inv c {#} {#} None (queued_on w r item rt s)" by (rule on_arrival_queues [OF assms])
  then show ?thesis using try_start_inv [OF q(3), of w] by (simp add: queued_on_def)
qed

subsection \<open>Decode workers\<close>

text \<open>Replacing a decode worker: what it no longer decodes is in hand.\<close>

lemma decode_update_inv:
  assumes i: "sim_inv c E X hw s" and w: "w < length (decodes s)"
    and ok: "decode_ok (if hw' = Some w then set_mset X' else {}) (count (all_events E' s) (DecodeStep w)) d"
    and ev: "all_events E s = add_mset (DecodeStep w) (all_events E' s) \<or> all_events E' s = add_mset (DecodeStep w) (all_events E s)
      \<or> all_events E' s = all_events E s"
    and q: "decoding_ids (decodes s ! w) + X = decoding_ids d + X'"
    and hw: "hw = None \<or> hw = Some w" "hw' = None \<or> hw' = Some w"
    and first: "\<And>rid r. rid \<in># X \<Longrightarrow> hm_get (reqs s) rid = Some r \<Longrightarrow> rq_first_token_ms r \<noteq> None"
  shows "sim_inv c E' X' hw' (s\<lparr>decodes := (decodes s)[w := d]\<rparr>)" (is "sim_inv c E' X' hw' ?s")
proof -
  let ?M = "all_events E s" and ?M' = "all_events E' s"
  note D = sim_invD [OF i]
  have fl: "in_flight ?M' = in_flight ?M" using ev by auto
  have "sum_list (map decoding_ids ((decodes s)[w := d])) + decoding_ids (decodes s ! w) = sum_list (map decoding_ids (decodes s)) + decoding_ids d"
    using sum_list_update_eq [OF w, of decoding_ids d] by simp
  then have "past_prefill ?M' ?s + X' + decoding_ids (decodes s ! w) = past_prefill ?M s + X + decoding_ids (decodes s ! w)"
    using q unfolding past_prefill_def fl by (simp add: ac_simps del: mset_map)
  then have past: "past_prefill ?M' ?s + X' = past_prefill ?M s + X" by (simp del: mset_map)
  then have "stages ?M' ?s + X' = stages ?M s + X" unfolding stages_def by (simp add: add.assoc del: mset_map)
  then have "requests_ok ?M' X' ?s" using D(2) by (simp add: requests_ok_def del: mset_map)
  moreover have "rid \<in># past_prefill ?M s \<or> rid \<in># X" if "rid \<in># past_prefill ?M' ?s" for rid
    using that past by (metis union_iff)
  then have "started_ok ?M' ?s" using D(8) first unfolding started_ok_def by simp blast
  moreover have "decodes_ok c ?M' X' hw' ?s" using D(6) ev ok w hw by (auto simp: decodes_ok_def nth_list_update)
  moreover have "clients_ok c ?M' ?s" "prefills_ok c ?M' ?s" "xfers_ok c ?M' ?s"
    using D(3,5,7) ev by (auto simp: clients_ok_def prefills_ok_def xfers_ok_def)
  ultimately show ?thesis using D(1,4,9) by (simp add: sim_inv_def)
qed

lemma decode_at:
  "sim_inv c E X hw s \<Longrightarrow> w < length (decodes s) \<Longrightarrow>
   decode_ok (if hw = Some w then set_mset X else {}) (count (all_events E s) (DecodeStep w)) (decodes s ! w)"
  using sim_invD(6) [of c E X hw s] by (simp add: decodes_ok_def)

lemma transfer_done_inv:
  assumes i: "sim_inv c (add_mset (KvArrived rid w) E) X hw s" and hw: "hw = None"
  shows "sim_inv c E (add_mset rid X) hw (s\<lparr>xfer_busy := xfer_busy s - 1\<rparr>)"
proof -
  note D = sim_invD [OF i]
  have "requests_ok (all_events E s) (add_mset rid X) s" using D(2) by (simp add: requests_ok_def stages_def past_prefill_def del: mset_map)
  moreover have "started_ok (all_events E s) s" using D(8) by (auto simp: started_ok_def past_prefill_def)
  moreover have "xfers_ok c (all_events E s) (s\<lparr>xfer_busy := xfer_busy s - 1\<rparr>)" using D(7) by (auto simp: xfers_ok_def)
  moreover have "decodes_ok c (all_events E s) (add_mset rid X) hw s" using D(6) hw decodes_ok_None [of c "all_events E s" X s "add_mset rid X"] by simp
  ultimately show ?thesis using D(1,3,4,5,9) by (simp add: sim_inv_def)
qed

lemma on_kv_arrived_inv:
  assumes i: "sim_inv c {#KvArrived rid w#} {#} None s"
  shows "\<exists>s'. on_kv_arrived rid w s = Some s' \<and> sim_inv c {#} {#} None s'"
proof -
  note D = sim_invD [OF i]
  let ?s = "drain_xfer_queue (s\<lparr>xfer_busy := xfer_busy s - 1\<rparr>)"
  have j: "sim_inv c {#} {#rid#} None ?s" by (rule drain_inv) (use transfer_done_inv [OF i] in simp)
  have w: "w < length (decodes ?s)" using D(7) by (auto simp: xfers_ok_def all_events_def)
  let ?d = "decodes ?s ! w"
  have first: "rq_first_token_ms r \<noteq> None" if "r' \<in># {#rid#}" "hm_get (reqs ?s) r' = Some r" for r' r
    using D(8) that by (auto simp: started_ok_def past_prefill_def all_events_def)
  note ok = decode_at [OF j w]
  show ?thesis
  proof (cases "stepping ?d")
    case True
    have "sim_inv c {#} {#} None (?s\<lparr>decodes := (decodes ?s)[w := ?d\<lparr>dws_pending := dws_pending ?d @ [rid]\<rparr>]\<rparr>)"
      by (rule decode_update_inv [OF j w _ _ _ _ _ first]) (use ok True in \<open>auto simp: decode_ok_def\<close>)
    then show ?thesis using True w by (simp add: on_kv_arrived_def Let_def)
  next
    case False
    have "sim_inv c {#DecodeStep w#} {#} None (?s\<lparr>decodes := (decodes ?s)[w := ?d\<lparr>dws_pending := dws_pending ?d @ [rid], stepping := True\<rparr>]\<rparr>)"
      by (rule decode_update_inv [OF j w _ _ _ _ _ first]) (use ok False in \<open>auto simp: decode_ok_def\<close>)
    then show ?thesis using False w by (simp add: on_kv_arrived_def Let_def sim_inv_push)
  qed
qed

lemma sum_values_insert_fresh: "hm_get m k = None \<Longrightarrow> sum_list (hm_values (hm_insert k v m)) = v + (sum_list (hm_values m) :: nat)"
  using values_insert_fresh [of m k v] by (metis sum_mset.add_mset sum_mset_sum_list)

lemma sum_values_remove: "hm_wf m \<Longrightarrow> hm_get m k = Some v \<Longrightarrow> sum_list (hm_values m) = v + (sum_list (hm_values (hm_remove k m)) :: nat)"
  using values_remove [of m k v] by (metis sum_mset.add_mset sum_mset_sum_list)

lemma note_running [simp]: "running (note_decision d x) = running d"
  by (simp add: note_decision_def Let_def)

text \<open>Admission moves requests from the queue into the batch and takes their pages.\<close>

lemma admit_loop_ok:
  assumes "decode_ok {} n (d\<lparr>dws_pending := ids\<rparr>)" "stepping d" "distinct (ids @ hm_keys (running (dws_sched d)))"
    and "\<And>rid. rid \<in> set ids \<Longrightarrow> \<exists>r. hm_get rs rid = Some r \<and> rq_first_token_ms r \<noteq> None"
  shows "\<exists>d'. admit_loop bs now rs ids d = Some d' \<and> decode_ok {} n d' \<and> stepping d'
    \<and> decoding_ids d' = mset ids + mset (hm_keys (running (dws_sched d)))"
  using assms
proof (induction ids arbitrary: d)
  case Nil
  then show ?case by simp
next
  case (Cons rid ids)
  obtain r f where r: "hm_get rs rid = Some r" "rq_first_token_ms r = Some f" using Cons.prems(4) [of rid] by auto
  let ?need = "blocks_for (rq_prompt_len r + rq_osl r) bs"
  let ?dec = "decode_can_admit (dws_sched d) (free_blocks d \<ge> ?need + watermark_blocks d)"
  let ?n = "note_decision (dws_sched d) ?dec"
  have inv: "decode_inv ?n" using Cons.prems(1) note_inv by (simp add: decode_ok_def)
  show ?case
  proof (cases "is_admit ?dec")
    case False
    then have "admit_loop bs now rs (rid # ids) d = Some (d\<lparr>dws_sched := ?n, dws_pending := rid # ids\<rparr>)"
      using r by (simp add: Let_def)
    then show ?thesis using Cons.prems(1,2) inv by (simp add: decode_ok_def)
  next
    case True
    have room: "?need \<le> free_blocks d" using True by (auto simp: is_admit_def decode_can_admit_def split: if_splits)
    let ?sq = "(seq_new rid f (rq_osl r))\<lparr>last_token_ms := now\<rparr>"
    let ?d = "d\<lparr>free_blocks := free_blocks d - ?need, dws_held := hm_insert rid ?need (dws_held d), dws_sched := admit_at ?n ?sq now\<rparr>"
    have run: "running (dws_sched ?d) = hm_insert rid (?sq\<lparr>admitted_ms := now, last_token_ms := max (last_token_ms ?sq) now\<rparr>) (running (dws_sched d))"
      by (simp add: admit_at_def admit_def seq_new_def)
    have new: "hm_get (running (dws_sched d)) rid = None" using Cons.prems(3) by (simp add: map_of_eq_None_iff)
    then have free: "hm_get (dws_held d) rid = None" using Cons.prems(1) by (auto simp: decode_ok_def)
    have keys: "mset (hm_keys (running (dws_sched ?d))) = add_mset rid (mset (hm_keys (running (dws_sched d))))"
      unfolding run by (rule keys_insert_fresh [OF new])
    have ok: "decode_ok {} n (?d\<lparr>dws_pending := ids\<rparr>)"
      using Cons.prems(1,2) inv room free admit_at_inv [OF inv]
      by (auto simp: decode_ok_def run [simplified] hm_simps sum_values_insert_fresh)
    have "distinct (ids @ hm_keys (running (dws_sched ?d)))"
    proof -
      have "mset (ids @ hm_keys (running (dws_sched ?d))) = mset ((rid # ids) @ hm_keys (running (dws_sched d)))"
        using keys by (simp del: mset_map)
      then show ?thesis using Cons.prems(3) mset_eq_imp_distinct_iff by blast
    qed
    from Cons.IH [OF ok _ this] Cons.prems(2,4) obtain d' where d': "admit_loop bs now rs ids ?d = Some d'" "decode_ok {} n d'" "stepping d'"
      "decoding_ids d' = mset ids + mset (hm_keys (running (dws_sched ?d)))" by (auto simp del: mset_map)
    have "admit_loop bs now rs (rid # ids) d = admit_loop bs now rs ids ?d" using r True by (simp add: Let_def)
    then show ?thesis using d' keys by (simp del: mset_map)
  qed
qed

lemma live_ids_distinct:
  assumes "sim_inv c E X hw s"
  shows "once (stages (all_events E s) s + X)"
  using sim_invD(2) [OF assms] unfolding requests_ok_def by (metis once_mset)

lemma decoding_le: "w < length (decodes s) \<Longrightarrow> decoding_ids (decodes s ! w) \<subseteq># past_prefill M s"
  unfolding past_prefill_def using sum_list_member_le [of w "decodes s" decoding_ids]
  by (metis (no_types, lifting) mset_subset_eq_add_right subset_mset.order_trans)

lemma past_le: "past_prefill M s \<subseteq># stages M s"
  by (simp add: stages_def)

lemma admit_decode_inv:
  assumes i: "sim_inv c {#DecodeStep w#} {#} None s"
  shows "\<exists>s'. admit_decode w s = Some s' \<and> sim_inv c {#DecodeStep w#} {#} None s' \<and> w < length (decodes s')"
proof -
  note D = sim_invD [OF i]
  let ?M = "all_events {#DecodeStep w#} s"
  have w: "w < length (decodes s)" using D(6) by (auto simp: decodes_ok_def all_events_def)
  let ?d = "decodes s ! w"
  note ok = decode_at [OF i w]
  have step: "stepping ?d" using ok by (auto simp: decode_ok_def all_events_def split: if_splits)
  have le: "decoding_ids ?d \<subseteq># stages ?M s" using decoding_le [OF w] past_le by (rule subset_mset.order_trans)
  have keys: "mset (hm_keys (reqs s)) = stages ?M s" using D(2) by (simp add: requests_ok_def del: mset_map)
  have dist: "distinct (dws_pending ?d @ hm_keys (running (dws_sched ?d)))"
    using once_mono [OF le] live_ids_distinct [OF i] by (metis add.right_neutral mset_append once_mset)
  have have_first: "\<exists>r. hm_get (reqs s) rid = Some r \<and> rq_first_token_ms r \<noteq> None" if "rid \<in> set (dws_pending ?d)" for rid
  proof -
    have "rid \<in># decoding_ids ?d" using that by simp
    then have past: "rid \<in># past_prefill ?M s" using decoding_le [OF w, of ?M] mset_subset_eqD by metis
    then have "rid \<in># mset (hm_keys (reqs s))" unfolding keys using past_le mset_subset_eqD by metis
    then obtain r where "hm_get (reqs s) rid = Some r" using get_None_keys [of "reqs s" rid] by auto
    then show ?thesis using D(8) past by (auto simp: started_ok_def)
  qed
  obtain d' where d': "admit_loop (kc_block_size (kv (sim_cfg s))) (sim_now s) (reqs s) (dws_pending ?d) ?d = Some d'"
    "decode_ok {} (count ?M (DecodeStep w)) d'" "decoding_ids d' = decoding_ids ?d"
    using admit_loop_ok [where n = "count ?M (DecodeStep w)" and d = ?d and ids = "dws_pending ?d" and rs = "reqs s"
        and bs = "kc_block_size (kv (sim_cfg s))" and now = "sim_now s"]
      ok step dist have_first by auto
  have "sim_inv c {#DecodeStep w#} {#} None (s\<lparr>decodes := (decodes s)[w := d']\<rparr>)"
    by (rule decode_update_inv [OF i w]) (use d' in simp_all)
  then show ?thesis using w d'(1) by (simp add: admit_decode_def)
qed

lemma synthetic_ids:
  assumes "decode_inv d" "on_step_synthetic d now ms = (out, d')"
  shows "decode_inv d'" "distinct (map rs_id out)" "mset (hm_keys (running d)) = mset (hm_keys (running d')) + mset (map rs_id out)"
proof -
  let ?fin = "map rs_id (filter (\<lambda>s. tokens_emitted s + 1 \<ge> requested_tokens s) (hm_values (running d)))"
  let ?adv = "hm_keys (running d)"
  have w: "hm_wf (running d)" "\<forall>k s. hm_get (running d) k = Some s \<longrightarrow> rs_id s = k" using assms(1) by (simp_all add: decode_inv_def)
  have st: "on_step d now ms ?adv ?fin = (out, d')" using assms(2) by (simp add: on_step_synthetic_def)
  note E = on_step_effect [OF assms(1), where now = now and step_ms = ms and adv = ?adv and fin = ?fin, unfolded st fst_conv snd_conv]
  show inv': "decode_inv d'" using on_step_inv [OF assms(1), of now ms ?adv ?fin] st by simp
  have vals: "distinct (map rs_id (hm_values (running d)))" unfolding running_ids [OF w] by (rule w(1))
  then have df: "distinct ?fin" by (rule distinct_map_filter)
  have sub: "set ?fin \<subseteq> dom (hm_get (running d))"
  proof -
    have "set ?fin \<subseteq> set (map rs_id (hm_values (running d)))" by auto
    then show ?thesis unfolding running_ids [OF w] by (simp add: dom_map_of_conv_image_fst)
  qed
  have ids: "map rs_id (List.map_filter (booked d now ?adv) xs) = xs" if "set xs \<subseteq> dom (hm_get (running d))" for xs
    using that
  proof (induction xs)
    case (Cons x xs)
    obtain s where s: "hm_get (running d) x = Some s" using Cons.prems by auto
    have "rs_id ((book_tokens now (max (tokens_per_step d) 1) ^^ n) s) = x" for n
      using w(2) s by (induction n) (simp_all add: book_tokens_def)
    then show ?case using Cons s by (simp add: map_filter_simps booked_def)
  qed (simp add: map_filter_simps)
  have out: "map rs_id out = ?fin" unfolding E(7) [OF df] by (rule ids [OF sub])
  then show "distinct (map rs_id out)" using df by simp
  have g: "dom (hm_get (running d')) = dom (hm_get (running d)) - set ?fin"
    unfolding dom_def E(1) booked_def by auto
  show "mset (hm_keys (running d)) = mset (hm_keys (running d')) + mset (map rs_id out)"
    unfolding out
  proof (rule keys_by_get [OF w(1) E(4) _ df])
    show "dom (hm_get (running d)) = dom (hm_get (running d')) \<union> set ?fin" "dom (hm_get (running d')) \<inter> set ?fin = {}"
      using sub unfolding g by blast+
  qed
qed

lemma touch_one:
  assumes i: "sim_inv c E X hw s"
  shows "sim_inv c E X hw (s\<lparr>reqs := hm_modify rid (\<lambda>r. r\<lparr>rq_last_token_ms := t\<rparr>) (reqs s)\<rparr>)" (is "sim_inv c E X hw ?s")
proof -
  note D = sim_invD [OF i]
  let ?M = "all_events E s"
  have wf: "hm_wf (reqs s)" using D(2) by (simp add: requests_ok_def)
  have v: "map rq_client (hm_values (reqs ?s)) = map rq_client (hm_values (reqs s))"
  proof (cases "hm_get (reqs s) rid")
    case (Some r)
    then show ?thesis using values_insert_same [OF Some, of rq_client "r\<lparr>rq_last_token_ms := t\<rparr>"] wf by (simp add: hm_modify_def)
  qed (simp add: hm_modify_def)
  have past: "past_prefill ?M ?s = past_prefill ?M s" by (simp add: past_prefill_def)
  have "requests_ok ?M X ?s" using D(2) unfolding requests_ok_def stages_def past by (simp del: mset_map)
  moreover have "clients_ok c ?M ?s" using D(3) unfolding clients_ok_def v .
  moreover have "ids_ok ?s" using D(4) unfolding ids_ok_def by (simp del: mset_map)
  moreover have "started_ok ?M ?s" using D(8) unfolding started_ok_def past by (auto simp: hm_simps split: if_splits)
  ultimately show ?thesis using D(1,5,6,7,9) by (simp add: sim_inv_def)
qed

lemma touch_inv: "sim_inv c E X hw s \<Longrightarrow> sim_inv c E X hw (s\<lparr>reqs := touch_reqs t ids (reqs s)\<rparr>)"
proof (induction ids arbitrary: s)
  case (Cons rid ids)
  from Cons.IH [OF touch_one [OF Cons.prems, of rid t]] show ?case by (simp add: touch_reqs_def)
qed (simp add: touch_reqs_def)

text \<open>Retiring a sequence gives back its pages, records its outcome and releases its client.\<close>

lemma retire_inv:
  assumes i: "sim_inv c E (add_mset (rs_id sq) X) (Some w) s" and w: "w < length (decodes s)"
  shows "sim_inv c E X (Some w) (sim_retire w t sq s) \<and> length (decodes (sim_retire w t sq s)) = length (decodes s)"
proof -
  note D = sim_invD [OF i]
  let ?M = "all_events E s" and ?id = "rs_id sq" and ?d = "decodes s ! w"
  note ok = decode_at [OF i w]
  have one: "once (add_mset ?id (stages ?M s + X))" using live_ids_distinct [OF i] by simp
  have fresh: "?id \<notin># stages ?M s" "?id \<notin># X" using once_add [OF one] by auto
  have "?id \<notin># decoding_ids ?d" using fresh(1) decoding_le [OF w, of ?M] past_le [of ?M s] by (metis mset_subset_eqD)
  then have idle: "?id \<notin> dom (hm_get (running (dws_sched ?d)))" by (simp add: dom_map_of_conv_image_fst)
  have dom: "dom (hm_get (dws_held ?d)) = dom (hm_get (running (dws_sched ?d))) \<union> set_mset (add_mset ?id X)"
    using ok by (simp add: decode_ok_def)
  then obtain n where n: "hm_get (dws_held ?d) ?id = Some n" by auto
  let ?d' = "?d\<lparr>dws_held := hm_remove ?id (dws_held ?d), free_blocks := free_blocks ?d + n\<rparr>"
  have gb: "give_back ?id ?d = ?d'" using n by (simp add: give_back_def)
  have ok': "decode_ok (set_mset X) (count ?M (DecodeStep w)) ?d'"
    using ok idle fresh(2) dom sum_values_remove [OF _ n] by (auto simp: decode_ok_def hm_simps)
  have "?id \<in># mset (hm_keys (reqs s))" using D(2) by (simp add: requests_ok_def)
  then obtain r where r: "hm_get (reqs s) ?id = Some r" using get_None_keys [of "reqs s" ?id] by auto
  have wf: "hm_wf (reqs s)" using D(2) by (simp add: requests_ok_def)
  let ?s = "s\<lparr>decodes := (decodes s)[w := ?d'], reqs := hm_remove ?id (reqs s), outcomes := outcomes s @ [outcome_for r sq t]\<rparr>"
  let ?N = "add_mset (Arrival (rq_client r)) ?M"
  have "map decoding_ids ((decodes s)[w := ?d']) = (map decoding_ids (decodes s))[w := decoding_ids ?d]"
    by (simp add: map_update)
  moreover have "map decoding_ids (decodes s) ! w = decoding_ids ?d" by (rule nth_map [OF w])
  ultimately have same: "map decoding_ids ((decodes s)[w := ?d']) = map decoding_ids (decodes s)"
    using list_update_id [of "map decoding_ids (decodes s)" w] by (simp only:)
  have past: "past_prefill ?N ?s = past_prefill ?M s" using same by (simp add: past_prefill_def del: map_update)
  have keys: "mset (hm_keys (reqs s)) = add_mset ?id (mset (hm_keys (hm_remove ?id (reqs s))))" by (rule keys_remove [OF wf r])
  have "requests_ok ?N X ?s" using D(2) wf keys unfolding requests_ok_def stages_def past by (simp del: mset_map)
  moreover have "clients_ok c ?N ?s" using D(3) map_values_remove [OF wf r, of rq_client] unfolding clients_ok_def
    by (simp del: map_map mset_map mset_upt)
  moreover have "ids_ok ?s" using D(4) keys unfolding ids_ok_def by (simp add: outcome_for_def del: mset_map mset_upt)
  moreover have "decodes_ok c ?N X (Some w) ?s" using D(6) ok' w by (auto simp: decodes_ok_def nth_list_update)
  moreover have "xfers_ok c ?N ?s" using D(7) by (auto simp: xfers_ok_def)
  moreover have "started_ok ?N ?s" using D(8) unfolding started_ok_def past by (auto simp: hm_simps split: if_splits)
  ultimately have "sim_inv c (add_mset (Arrival (rq_client r)) E) X (Some w) ?s" using D(1,5,9) by (simp add: sim_inv_def)
  moreover have "sim_retire w t sq s = push t (Arrival (rq_client r)) ?s" using r by (simp add: sim_retire_def gb Let_def)
  ultimately show ?thesis by (simp add: sim_inv_push)
qed

lemma retires_inv:
  "sim_inv c E (mset (map rs_id fin)) (Some w) s \<Longrightarrow> w < length (decodes s) \<Longrightarrow>
   sim_inv c E {#} None (foldl (\<lambda>s sq. sim_retire w t sq s) s fin)"
proof (induction fin arbitrary: s)
  case Nil
  have "decodes_ok c M {#} (Some w) s = decodes_ok c M {#} None s" for M
    unfolding decodes_ok_def set_mset_empty if_cancel ..
  then show ?case using Nil(1) by (simp add: sim_inv_def)
next
  case (Cons sq fin)
  have "sim_inv c E (add_mset (rs_id sq) (mset (map rs_id fin))) (Some w) s" using Cons.prems(1) by simp
  from retire_inv [OF this Cons.prems(2), of t] show ?case using Cons.IH [of "sim_retire w t sq s"] Cons.prems(2) by simp
qed

lemma decode_pass_inv:
  assumes i: "sim_inv c {#DecodeStep w#} {#} None s" and w: "w < length (decodes s)"
  shows "\<exists>s'. decode_pass w s = Some s' \<and> sim_inv c {#} {#} None s'"
proof -
  let ?d = "decodes s ! w" and ?E = "{#DecodeStep w#} :: event multiset"
  note ok = decode_at [OF i w]
  have step: "stepping ?d" and none: "count (all_events {#} s) (DecodeStep w) = 0"
    using ok by (auto simp: decode_ok_def all_events_def split: if_splits)
  have inv: "decode_inv (dws_sched ?d)" using ok by (simp add: decode_ok_def)
  show ?thesis
  proof (cases "concurrency (dws_sched ?d) = 0")
    case True
    then have run: "running (dws_sched ?d) = []" by (simp add: concurrency_def)
    show ?thesis
    proof (cases "dws_pending ?d = []")
      case empty: True
      have "sim_inv c {#} {#} None (s\<lparr>decodes := (decodes s)[w := ?d\<lparr>stepping := False\<rparr>]\<rparr>)"
        by (rule decode_update_inv [OF i w]) (use ok run empty none in \<open>auto simp: decode_ok_def all_events_def\<close>)
      then show ?thesis using w True empty by (simp add: decode_pass_def)
    next
      case False
      then show ?thesis using w True i by (simp add: decode_pass_def sim_inv_push Let_def)
    qed
  next
    case False
    define conc where "conc = concurrency (dws_sched ?d)"
    define ms where "ms = step_cost_ms (dws_curve ?d) conc"
    define t where "t = sim_now s + ms"
    obtain fin sched where f: "on_step_synthetic (dws_sched ?d) t ms = (fin, sched)" by fastforce
    note Y = synthetic_ids [OF inv f]
    let ?s1 = "s\<lparr>concurrency_samples := concurrency_samples s @ [real conc], peak_concurrency := max (peak_concurrency s) conc\<rparr>"
    have i1: "sim_inv c ?E {#} None ?s1" by (rule sim_inv_cong [THEN iffD2, OF _ _ _ _ _ _ _ _ _ _ _ i]) (simp_all add: all_events_def)
    have dom: "dom (hm_get (running (dws_sched ?d))) = dom (hm_get (running sched)) \<union> set_mset (mset (map rs_id fin))"
      using arg_cong [OF Y(3), of set_mset] by (simp add: dom_map_of_conv_image_fst)
    have "sim_inv c ?E (mset (map rs_id fin)) (Some w) (?s1\<lparr>decodes := (decodes ?s1)[w := ?d\<lparr>dws_sched := sched\<rparr>]\<rparr>)"
      by (rule decode_update_inv [OF i1])
        (use w ok step dom Y in \<open>auto simp: decode_ok_def all_events_def simp del: mset_map\<close>)
    from retires_inv [OF touch_inv [OF this, of t "map rs_id (hm_values (running sched))"], of t] w
    show ?thesis using False f
      by (simp add: decode_pass_def Let_def sim_inv_push conc_def [symmetric] ms_def [symmetric] t_def [symmetric])
  qed
qed

lemma on_decode_step_inv:
  assumes "sim_inv c {#DecodeStep w#} {#} None s"
  shows "\<exists>s'. on_decode_step w s = Some s' \<and> sim_inv c {#} {#} None s'"
  using admit_decode_inv [OF assms] decode_pass_inv by (auto simp: on_decode_step_def)

end
