(* ===== verification/Sim_Run.thy ===== *)
theory Sim_Run
  imports Sim_Invariant
begin

text \<open>
  Runs of the simulator: the configurations it is made for, the step relation of its event loop, the invariant in
  every state a run reaches, and what that says about a report.
\<close>

subsection \<open>Steps\<close>

text \<open>The configurations the simulator is made for: accepted ones with worker numbers that do not clash.\<close>

definition simulatable :: "config \<Rightarrow> bool" where
  "simulatable c \<longleftrightarrow> config_validate c = Inr () \<and> tc_prefill_workers (cfg_topology c) \<le> DECODE_ID_BASE"

lemma handle_event_inv:
  assumes "sim_inv c {#ev#} {#} None s" "simulatable c"
  shows "\<exists>s'. handle_event ev s = Some s' \<and> sim_inv c {#} {#} None s'"
proof (cases ev)
  case (Arrival k)
  then show ?thesis using on_arrival_inv [of c k s] assms by (simp add: simulatable_def config_validate_iff)
qed (use assms on_prefill_done_inv on_kv_arrived_inv on_decode_step_inv in auto)

inductive sim_step :: "simulator \<Rightarrow> simulator \<Rightarrow> bool" where
  step: "pop_event s = Some (ev, s1) \<Longrightarrow> handle_event ev s1 = Some s' \<Longrightarrow> sim_step s s'"

inductive_cases sim_stepE: "sim_step s s'"

definition sim_init :: "simulator \<Rightarrow> bool" where
  "sim_init s \<longleftrightarrow> (\<exists>c s0. simulatable c \<and> sim_new c = Some s0 \<and> s = begin_run s0)"

definition quiet :: "simulator \<Rightarrow> bool" where
  "quiet s \<longleftrightarrow> simulatable (sim_cfg s) \<and> sim_inv (sim_cfg s) {#} {#} None s"

lemma sim_step_quiet:
  assumes "quiet s" "sim_step s s'"
  shows "quiet s'"
  using assms(2)
proof (rule sim_stepE)
  fix ev s1 assume e: "pop_event s = Some (ev, s1)" "handle_event ev s1 = Some s'"
  have "sim_inv (sim_cfg s) {#ev#} {#} None s1" using assms(1) sim_inv_pop [OF _ e(1)] by (simp add: quiet_def)
  from handle_event_inv [OF this] have i: "sim_inv (sim_cfg s) {#} {#} None s'" using assms(1) e(2) by (auto simp: quiet_def)
  then show ?thesis using sim_invD(1) [OF i] assms(1) by (simp add: quiet_def)
qed

lemma begin_run_inv:
  "sim_inv c E X hw (foldl (\<lambda>s k. push 0 (Arrival k) s) s ks) = sim_inv c (mset (map Arrival ks) + E) X hw s"
proof (induction ks arbitrary: s E)
  case (Cons k ks)
  then show ?case by (simp add: sim_inv_push add.commute)
qed simp

lemma arrivals_only:
  "waiting_clients (mset (map Arrival ks)) = mset ks" "in_flight (mset (map Arrival ks)) = {#}"
  by (induction ks) simp_all

lemma sim_router_ok:
  assumes "tc_prefill_workers (cfg_topology c) \<le> DECODE_ID_BASE"
  shows "router_ok c (sim_router_new c)"
proof -
  let ?t = "cfg_topology c"
  let ?ws = "map (prefill_state c) [0..<tc_prefill_workers ?t] @ map (decode_state c) [0..<tc_decode_workers ?t]"
  have reg: "registry (sim_router_new c) = foldl (\<lambda>r w. register w r) (registry_new 60000) ?ws"
    by (simp add: sim_router_new_def sim_registry_def router_new_def Let_def)
  have w0: "registry_wf (registry_new 60000)" by (simp add: registry_wf_def registry_new_def)
  have ids: "ws_id ` set ?ws = {0..<tc_prefill_workers ?t} \<union> {DECODE_ID_BASE..<DECODE_ID_BASE + tc_decode_workers ?t}"
    by (simp add: image_Un image_image prefill_state_def decode_state_def image_add_atLeastLessThan add.commute)
  let ?P = "\<lambda>w. role w = (if ws_id w < DECODE_ID_BASE then PrefillRole else DecodeRole)"
  have roles: "\<forall>w \<in> set ?ws. ?P w" using assms by (auto simp: prefill_state_def decode_state_def)
  have P: "?P w" if "hm_get (registered (registry (sim_router_new c))) i = Some w" for i w
    using register_fold_all [of "registry_new 60000" ?ws i w] roles that unfolding reg by (auto simp: registry_new_def)
  have wf: "registry_wf (registry (sim_router_new c))" unfolding reg by (rule register_fold_wf [OF w0])
  have "role w = (if i < DECODE_ID_BASE then PrefillRole else DecodeRole)" if "hm_get (registered (registry (sim_router_new c))) i = Some w" for i w
    using P [OF that] wf that by (simp add: registry_wf_def)
  moreover have "radix_inv (prefix_idx (sim_router_new c))" by (simp add: sim_router_new_def router_new_def Let_def radix_new_inv)
  moreover have "dom (hm_get (registered (registry (sim_router_new c)))) =
      {0..<tc_prefill_workers ?t} \<union> {DECODE_ID_BASE..<DECODE_ID_BASE + tc_decode_workers ?t}"
    unfolding reg register_fold_dom ids by (simp add: registry_new_def)
  moreover have "stale_after_ms (registry (sim_router_new c)) = 60000" unfolding reg register_fold_stale by (simp add: registry_new_def)
  ultimately show ?thesis using wf by (simp add: router_ok_def router_inv_def)
qed

lemma new_decode_ok:
  assumes "new_decode_worker c = Some d"
  shows "decode_ok {} 0 d"
proof -
  obtain k where k: "itl_new (slo_itl_ms (cfg_slo c) * sc_itl_safety (scheduler c)) (initial_cap c) 8 (real (max_decode_seqs (scheduler c))) = Some k"
    using assms by (auto simp: new_decode_worker_def)
  then have "ctl_inv k" using itl_new_inv [of 8] by simp
  then have i: "decode_inv (decode_new (slo_itl_ms (cfg_slo c)) k)" by (rule decode_new_inv)
  have "decode_inv (dws_sched d)" using assms k i set_tokens_inv [OF i] by (auto simp: new_decode_worker_def Let_def)
  moreover have "running (dws_sched d) = []" "\<not> stepping d" "dws_pending d = []" "dws_held d = []" "free_blocks d = dws_total_blocks d"
    using assms k by (auto simp: new_decode_worker_def Let_def decode_new_def set_tokens_per_step_def)
  ultimately show ?thesis by (simp add: decode_ok_def)
qed

lemma new_prefill_ok: "prefill_ok 0 (new_prefill_worker c)"
  by (simp add: new_prefill_worker_def prefill_ok_def sched_wf_new)

lemma sum_list_empty:
  fixes f :: "'a \<Rightarrow> 'b multiset"
  shows "(\<And>x. x \<in> set xs \<Longrightarrow> f x = {#}) \<Longrightarrow> sum_list (map f xs) = {#}"
  by (induction xs) simp_all

lemma sim_new_decodes:
  assumes "sim_new c = Some s"
  shows "length (decodes s) = tc_decode_workers (cfg_topology c)" "d \<in> set (decodes s) \<Longrightarrow> new_decode_worker c = Some d"
proof -
  have ds: "new_decode_workers c = Some (decodes s)" using assms by (auto simp: sim_new_def)
  show "length (decodes s) = tc_decode_workers (cfg_topology c)" "d \<in> set (decodes s) \<Longrightarrow> new_decode_worker c = Some d"
    using ds by (auto simp: new_decode_workers_def Let_def dest: sym split: if_splits)
qed

lemma sim_init_inv:
  assumes "sim_init s"
  shows "quiet s"
proof -
  obtain c s0 where c: "simulatable c" "sim_new c = Some s0" "s = begin_run s0" using assms by (auto simp: sim_init_def)
  let ?n = "wl_concurrency (workload c)"
  define E where "E = mset (map Arrival [0..<?n])"
  have E: "waiting_clients E = mset [0..<?n]" "in_flight E = {#}" unfolding E_def by (rule arrivals_only)+
  have cfg: "sim_cfg s0 = c" using c(2) by (auto simp: sim_new_def)
  let ?s = "s0\<lparr>horizon_ms := Fin (sim_horizon c)\<rparr>"
  have z: "heap s0 = []" "reqs s0 = []" "outcomes s0 = []" "sim_next_id s0 = 0" "issued s0 = 0" "xfer_busy s0 = 0" "xfer_queue s0 = []"
    "sim_router s0 = sim_router_new c" "prefills s0 = replicate (tc_prefill_workers (cfg_topology c)) (new_prefill_worker c)"
    using c(2) by (auto simp: sim_new_def)
  note D = sim_new_decodes [OF c(2)]
  have len: "length (decodes s0) = tc_decode_workers (cfg_topology c)" by (rule D(1))
  have ok: "decode_ok {} 0 d" if "d \<in> set (decodes s0)" for d by (rule new_decode_ok [OF D(2) [OF that]])
  have idle: "dws_pending d = [] \<and> running (dws_sched d) = []" if "d \<in> set (decodes s0)" for d
    using ok [OF that] by (auto simp: decode_ok_def split: if_splits)
  have ev: "all_events E ?s = E" by (simp add: all_events_def z)
  have none: "count E (PrefillDone w) = 0" "count E (DecodeStep w) = 0" for w by (auto simp: count_eq_zero_iff E_def)
  have "sum_list (map decoding_ids (decodes s0)) = {#}"
    by (rule sum_list_empty) (use idle in simp)
  moreover have "sum_list (map queued_ids (prefills s0)) = {#}"
    by (rule sum_list_empty) (auto simp: z new_prefill_worker_def sched_new_def)
  ultimately have st: "stages E ?s = {#}" "past_prefill E ?s = {#}" by (simp_all add: stages_def past_prefill_def z E)
  have absent: "PrefillDone w \<notin># E" "DecodeStep w \<notin># E" for w by (simp_all add: not_in_iff none)
  have "requests_ok E {#} ?s" by (simp add: requests_ok_def z st)
  moreover have "clients_ok c E ?s" by (simp add: clients_ok_def z E)
  moreover have "ids_ok ?s" by (simp add: ids_ok_def z)
  moreover have "prefills_ok c E ?s" using new_prefill_ok none absent by (auto simp: prefills_ok_def z)
  moreover have "decodes_ok c E {#} None ?s" using len ok none absent by (auto simp: decodes_ok_def)
  moreover have "xfers_ok c E ?s" by (simp add: xfers_ok_def z E)
  moreover have "started_ok E ?s" by (simp add: started_ok_def z)
  moreover have "router_ok c (sim_router ?s)" using c(1) sim_router_ok by (simp add: z simulatable_def)
  ultimately have "sim_inv c E {#} None ?s" unfolding sim_inv_def ev using cfg by simp
  then have "sim_inv c {#} {#} None s" unfolding c(3) begin_run_def cfg begin_run_inv E_def by simp
  then show ?thesis using c(1) sim_invD(1) by (simp add: quiet_def)
qed

interpretation sim_sys: invariant_system sim_init sim_step quiet
  by unfold_locales (auto intro: sim_init_inv sim_step_quiet)

lemma run_for_steps:
  assumes "quiet s"
  shows "\<exists>t. sim_step\<^sup>*\<^sup>* s t \<and> (run_for n s = Ended t \<or> run_for n s = Unfinished t)"
  using assms
proof (induction n arbitrary: s)
  case 0
  then show ?case by auto
next
  case (Suc n)
  show ?case
  proof (cases "pop_event s")
    case (Some p)
    obtain ev s1 where p: "pop_event s = Some (ev, s1)" using Some by (cases p) auto
    have "sim_inv (sim_cfg s) {#ev#} {#} None s1" using Suc.prems sim_inv_pop [OF _ p] by (simp add: quiet_def)
    then obtain s2 where s2: "handle_event ev s1 = Some s2" using handle_event_inv Suc.prems unfolding quiet_def by blast
    then have st: "sim_step s s2" using p by (rule sim_step.step [rotated])
    from Suc.IH [OF sim_step_quiet [OF Suc.prems st]] obtain t where
      "sim_step\<^sup>*\<^sup>* s2 t" "run_for n s2 = Ended t \<or> run_for n s2 = Unfinished t" by blast
    then show ?thesis using p s2 st by (auto intro: converse_rtranclp_into_rtranclp)
  qed auto
qed

subsection \<open>What a run conserves\<close>

lemma quiet_parts:
  assumes "quiet s"
  shows "issued s = length (outcomes s) + length (reqs s)" "distinct (map out_id (outcomes s))"
    "waiting_clients (all_events {#} s) + mset (map rq_client (hm_values (reqs s))) = mset [0..<wl_concurrency (workload (sim_cfg s))]"
    "d \<in> set (decodes s) \<Longrightarrow> free_blocks d + sum_list (hm_values (dws_held d)) = dws_total_blocks d"
    "xfer_busy s \<le> xfer_limit (sim_cfg s)"
proof -
  have i: "sim_inv (sim_cfg s) {#} {#} None s" using assms by (simp add: quiet_def)
  note D = sim_invD [OF i]
  have ids: "mset (map out_id (outcomes s)) + mset (hm_keys (reqs s)) = mset [0..<sim_next_id s]" "issued s = sim_next_id s"
    using D(4) by (simp_all add: ids_ok_def)
  show "issued s = length (outcomes s) + length (reqs s)" using arg_cong [OF ids(1), of size] ids(2) by simp
  have "once (mset (map out_id (outcomes s)))"
    by (rule once_mono [of _ "mset [0..<sim_next_id s]"]) (use ids(1) in \<open>metis mset_subset_eq_add_left\<close>, simp only: once_mset distinct_upt)
  then show "distinct (map out_id (outcomes s))" by (simp only: once_mset)
  show "waiting_clients (all_events {#} s) + mset (map rq_client (hm_values (reqs s))) = mset [0..<wl_concurrency (workload (sim_cfg s))]"
    using D(3) by (simp only: clients_ok_def)
  show "d \<in> set (decodes s) \<Longrightarrow> free_blocks d + sum_list (hm_values (dws_held d)) = dws_total_blocks d"
    using D(6) by (auto simp: decodes_ok_def decode_ok_def in_set_conv_nth)
  show "xfer_busy s \<le> xfer_limit (sim_cfg s)" using D(7) by (simp add: xfers_ok_def)
qed

lemma step_cfg: "sim_step s t \<Longrightarrow> quiet s \<Longrightarrow> sim_cfg t = sim_cfg s"
proof (erule sim_stepE)
  fix ev s1 assume "quiet s" and e: "pop_event s = Some (ev, s1)" "handle_event ev s1 = Some t"
  then have "sim_inv (sim_cfg s) {#ev#} {#} None s1" "simulatable (sim_cfg s)" using sim_inv_pop [OF _ e(1)] by (simp_all add: quiet_def)
  from handle_event_inv [OF this] show ?thesis using e(2) sim_invD(1) by fastforce
qed

lemma steps_cfg: "sim_step\<^sup>*\<^sup>* s t \<Longrightarrow> quiet s \<Longrightarrow> sim_cfg t = sim_cfg s"
proof (induction rule: rtranclp_induct)
  case (step t u)
  then show ?case using step_cfg sim_sys.steps_inv by metis
qed simp

lemma begin_run_cfg: "sim_cfg (begin_run s) = sim_cfg s"
proof -
  have "sim_cfg (foldl (\<lambda>s k. push 0 (Arrival k) s) s ks) = sim_cfg s" for ks s by (induction ks arbitrary: s) simp_all
  then show ?thesis by (simp add: begin_run_def)
qed

lemma sim_new_cfg: "sim_new c = Some s \<Longrightarrow> sim_cfg s = c"
  by (auto simp: sim_new_def)

lemma run_from_new:
  assumes "simulatable c" "sim_new c = Some s"
  shows "\<exists>t. (run_for n (begin_run s) = Ended t \<or> run_for n (begin_run s) = Unfinished t) \<and> quiet t \<and> sim_cfg t = c"
proof -
  have q: "quiet (begin_run s)" using assms by (intro sim_init_inv) (auto simp: sim_init_def)
  then obtain t where t: "sim_step\<^sup>*\<^sup>* (begin_run s) t" "run_for n (begin_run s) = Ended t \<or> run_for n (begin_run s) = Unfinished t"
    using run_for_steps by blast
  have "quiet t" "sim_cfg t = c"
    using sim_sys.steps_inv [OF t(1) q] steps_cfg [OF t(1) q] assms(2) by (simp_all add: begin_run_cfg sim_new_cfg)
  then show ?thesis using t(2) by blast
qed

text \<open>C7. A run of the simulator never panics, however long it goes on, and loses nothing: every request issued is either
  live or has exactly one outcome, every client either is about to send a request or waits for exactly one, every decode
  worker's pages are free or held by a sequence, and no more transfers are under way than there are buffers. The run is of a simulator that
  was constructed (with a maximum of fewer than 8 sequences per decode worker the constructor panics), with at most 1000 prefill
  workers and finite costs and bandwidth, so that no time is infinite or undefined.\<close>

theorem simulator_loses_nothing:
  assumes "simulatable c" "sim_new c = Some s0"
  shows "\<exists>s. (run_for n (begin_run s0) = Ended s \<or> run_for n (begin_run s0) = Unfinished s)
    \<and> issued s = length (outcomes s) + length (reqs s) \<and> distinct (map out_id (outcomes s))
    \<and> waiting_clients (mset (map sch_event (heap s))) + mset (map rq_client (hm_values (reqs s))) = mset [0..<wl_concurrency (workload c)]
    \<and> (\<forall>d. d \<in> set (decodes s) \<longrightarrow> free_blocks d + sum_list (hm_values (dws_held d)) = dws_total_blocks d)
    \<and> xfer_busy s \<le> max (kc_xfer_concurrency (kv c)) 1"
proof -
  obtain t where t: "run_for n (begin_run s0) = Ended t \<or> run_for n (begin_run s0) = Unfinished t" "quiet t" "sim_cfg t = c"
    using run_from_new [OF assms] by blast
  have "xfer_busy t \<le> max (kc_xfer_concurrency (kv c)) 1" using quiet_parts(5) [OF t(2)] by (simp only: t(3) xfer_limit_def)
  moreover have "waiting_clients (mset (map sch_event (heap t))) + mset (map rq_client (hm_values (reqs t))) = mset [0..<wl_concurrency (workload c)]"
    using quiet_parts(3) [OF t(2)] by (simp only: t(3) all_events_def add_0)
  moreover have "\<forall>d. d \<in> set (decodes t) \<longrightarrow> free_blocks d + sum_list (hm_values (dws_held d)) = dws_total_blocks d"
    using quiet_parts(4) [OF t(2)] by blast
  ultimately show ?thesis using t(1) quiet_parts(1,2) [OF t(2)] by blast
qed

lemma default_simulatable: "simulatable default_config"
  by (simp add: simulatable_def config_validate_iff engine_validate_iff used_gpus_def default_config_def default_topology_config_def default_engine_config_def
      ATTN_BACKENDS_def MOE_BACKENDS_def ALLREDUCE_STRATEGIES_def TORCH_COMPILE_def default_speculation_config_def default_slo_def DECODE_ID_BASE_def)

lemma default_sim_new: "\<exists>s. sim_new default_config = Some s"
  by (simp add: sim_new_def new_decode_workers_def new_decode_worker_def itl_new_def Let_def default_config_def default_scheduler_config_def)

theorem simulator_loses_nothing_witness:
  "\<exists>s0 s. sim_new default_config = Some s0 \<and> (run_for 1000 (begin_run s0) = Ended s \<or> run_for 1000 (begin_run s0) = Unfinished s)
    \<and> issued s = length (outcomes s) + length (reqs s)"
proof -
  obtain s0 where s0: "sim_new default_config = Some s0" using default_sim_new by blast
  from simulator_loses_nothing [OF default_simulatable s0, of 1000] s0 show ?thesis by blast
qed

end
