(* ===== verification/Sim_Termination.thy ===== *)
theory Sim_Termination
  imports Sim_Run
begin

text \<open>
  Every run of the simulator ends. Time never goes back, a decode pass takes at least 12 ms, and everything else
  a run does is paid for by the requests a pass completes: the \<open>fuel\<close> of a state bounds the events still to come
  before the horizon, and every event spends some.
\<close>

subsection \<open>Costs\<close>

definition positive_costs :: "config \<Rightarrow> bool" where
  "positive_costs c \<longleftrightarrow> 0 < pc_tokens_per_ms (sim_prefill_curve c) \<and> 0 < duty_cycle (cal_prefill (calibration c))
     \<and> duty_cycle (cal_prefill (calibration c)) \<le> 1 \<and> 0 < cal_kv_xfer_gib_s (calibration c)"

definition sim_decode_curve :: "config \<Rightarrow> decode_curve" where
  "sim_decode_curve c = from_calibration (cal_decode (calibration c)) (tc_decode_tp (cfg_topology c))"

lemma step_cost_12: "12 \<le> step_cost_ms (sim_decode_curve c) n"
  by (simp add: sim_decode_curve_def step_cost_ms_def from_calibration_def from_point_def Let_def)

lemma transfer_nonneg: "positive_costs c \<Longrightarrow> 0 \<le> sim_kv_transfer_ms c"
  by (simp add: positive_costs_def sim_kv_transfer_ms_def Let_def)

lemma batch_nonneg:
  assumes "positive_costs c"
  shows "0 \<le> batch_ms (sim_prefill_curve c) tokens n"
proof -
  let ?p = "sim_prefill_curve c"
  have f: "multiseq_gain ?p = 116 / 1000" "multiseq_saturation ?p = 5"
    "overhead_ms ?p = 16384 / pc_tokens_per_ms ?p * (1 / duty_cycle (cal_prefill (calibration c)) - 1)"
    by (simp_all add: sim_prefill_curve_def prefill_curve_for_worker_def Let_def)
  have "0 \<le> overhead_ms ?p" using assms unfolding f positive_costs_def by (intro mult_nonneg_nonneg) simp_all
  moreover have "0 \<le> rate_at ?p n" using assms f by (simp add: rate_at_def Let_def positive_costs_def)
  ultimately show ?thesis by (simp add: batch_ms_def)
qed

subsection \<open>Fuel\<close>

text \<open>How many passes a decode worker can still start from time \<open>t\<close> on.\<close>

definition passes_left :: "config \<Rightarrow> millis \<Rightarrow> nat" where
  "passes_left c t = nat (\<lfloor>(sim_horizon c - t) / 12\<rfloor> + 1)"

definition arrival_fuel :: "config \<Rightarrow> nat" where
  "arrival_fuel c = wl_isl (workload c) + 4"

definition pass_fuel :: "config \<Rightarrow> nat" where
  "pass_fuel c = wl_concurrency (workload c) * arrival_fuel c + 1"

fun event_fuel :: "config \<Rightarrow> millis \<Rightarrow> event \<Rightarrow> nat" where
  "event_fuel c t (Arrival k) = arrival_fuel c"
| "event_fuel c t (PrefillDone w) = 1"
| "event_fuel c t (KvArrived rid w) = 2"
| "event_fuel c t (DecodeStep w) = pass_fuel c * passes_left c t + 1"

abbreviation entry_fuel :: "config \<Rightarrow> scheduled \<Rightarrow> nat" where
  "entry_fuel c e \<equiv> event_fuel c (sch_at e) (sch_event e)"

definition queue_fuel :: "prefill_worker_sim \<Rightarrow> nat" where
  "queue_fuel p = queued_tokens (pws_sched p) + 2 * length (queue (pws_sched p))"

definition idle_fuel :: "config \<Rightarrow> millis \<Rightarrow> decode_worker_sim \<Rightarrow> nat" where
  "idle_fuel c t d = (if stepping d then 0 else pass_fuel c * passes_left c t)"

definition fuel :: "simulator \<Rightarrow> nat" where
  "fuel s = sum_list (map (entry_fuel (sim_cfg s)) (heap s)) + sum_list (map (idle_fuel (sim_cfg s) (sim_now s)) (decodes s))
     + sum_list (map queue_fuel (prefills s)) + 2 * length (xfer_queue s)"

lemma passes_left_antimono: "t \<le> u \<Longrightarrow> passes_left c u \<le> passes_left c t"
  unfolding passes_left_def by (intro nat_mono add_right_mono floor_mono divide_right_mono) simp_all

lemma passes_left_step:
  assumes "t \<le> sim_horizon c" "t + 12 \<le> u"
  shows "passes_left c u < passes_left c t"
proof -
  have "(sim_horizon c - u) / 12 \<le> (sim_horizon c - t) / 12 - 1" using assms(2) by (simp add: field_simps)
  then have "\<lfloor>(sim_horizon c - u) / 12\<rfloor> \<le> \<lfloor>(sim_horizon c - t) / 12 - 1\<rfloor>" by (rule floor_mono)
  then have "\<lfloor>(sim_horizon c - u) / 12\<rfloor> \<le> \<lfloor>(sim_horizon c - t) / 12\<rfloor> - 1" by simp
  moreover have "0 \<le> \<lfloor>(sim_horizon c - t) / 12\<rfloor>" using assms(1) by simp
  ultimately show ?thesis unfolding passes_left_def by linarith
qed

lemma push_fuel: "fuel (push t ev s) = fuel s + event_fuel (sim_cfg s) t ev"
proof -
  have "sum_list (map f (insort_key sched_key x xs)) = f x + sum_list (map f xs)" for f :: "scheduled \<Rightarrow> nat" and x xs
    by (induction xs) auto
  then show ?thesis by (simp add: fuel_def push_def)
qed

lemma fuel_cong:
  assumes "sim_cfg s' = sim_cfg s" "heap s' = heap s" "sim_now s' = sim_now s" "decodes s' = decodes s" "prefills s' = prefills s"
    "xfer_queue s' = xfer_queue s"
  shows "fuel s' = fuel s"
  unfolding fuel_def assms by (rule refl)

lemma prefill_update_fuel:
  assumes "w < length (prefills s)"
  shows "fuel (s\<lparr>prefills := (prefills s)[w := p]\<rparr>) + queue_fuel (prefills s ! w) = fuel s + queue_fuel p"
  using sum_list_update_eq [OF assms, of queue_fuel p] by (simp add: fuel_def)

lemma decode_update_fuel:
  assumes "w < length (decodes s)"
  shows "fuel (s\<lparr>decodes := (decodes s)[w := d]\<rparr>) + idle_fuel (sim_cfg s) (sim_now s) (decodes s ! w)
    = fuel s + idle_fuel (sim_cfg s) (sim_now s) d"
  using sum_list_update_eq [OF assms, of "idle_fuel (sim_cfg s) (sim_now s)" d] by (simp add: fuel_def)

subsection \<open>The clock\<close>

definition batch_works :: "prefill_worker_sim \<Rightarrow> bool" where
  "batch_works p \<longleftrightarrow> (\<forall>b t. pws_batch p = Some (b, t) \<longrightarrow> 0 < sum_list (map ch_tokens (chunks b)))"

definition clock_ok :: "simulator \<Rightarrow> bool" where
  "clock_ok s \<longleftrightarrow> sorted (map sched_key (heap s)) \<and> (\<forall>e \<in> set (heap s). sim_now s \<le> sch_at e)
     \<and> (\<forall>p \<in> set (prefills s). pws_curve p = sim_prefill_curve (sim_cfg s) \<and> batch_works p)
     \<and> (\<forall>d \<in> set (decodes s). dws_curve d = sim_decode_curve (sim_cfg s))"

lemma clock_cong:
  assumes "sim_cfg s' = sim_cfg s" "heap s' = heap s" "sim_now s' = sim_now s" "decodes s' = decodes s" "prefills s' = prefills s"
  shows "clock_ok s' = clock_ok s"
  unfolding clock_ok_def assms by (rule refl)

lemma push_clock: "clock_ok s \<Longrightarrow> sim_now s \<le> t \<Longrightarrow> clock_ok (push t ev s)"
  by (auto simp: clock_ok_def push_def sorted_insort_key set_insort_key)

lemma prefill_update_clock:
  assumes "clock_ok s" "pws_curve p = sim_prefill_curve (sim_cfg s)" "batch_works p"
  shows "clock_ok (s\<lparr>prefills := (prefills s)[w := p]\<rparr>)"
  using assms by (auto simp: clock_ok_def dest!: set_update_subset_insert [THEN subsetD])

lemma decode_update_clock:
  assumes "clock_ok s" "dws_curve d = sim_decode_curve (sim_cfg s)"
  shows "clock_ok (s\<lparr>decodes := (decodes s)[w := d]\<rparr>)"
  using assms by (auto simp: clock_ok_def dest!: set_update_subset_insert [THEN subsetD])

lemma pop_clock:
  assumes "clock_ok s" "pop_event s = Some (ev, s1)"
  shows "clock_ok s1" "fuel s1 + event_fuel (sim_cfg s) (sim_now s1) ev \<le> fuel s" "sim_now s \<le> sim_now s1"
    "sim_now s1 \<le> sim_horizon (sim_cfg s)"
proof -
  obtain e h where h: "heap s = e # h" "ev = sch_event e" "s1 = s\<lparr>heap := h, sim_now := sch_at e\<rparr>" "sch_at e \<le> sim_horizon (sim_cfg s)"
    using assms(2) by (auto simp: pop_event_def split: list.splits if_splits)
  have later: "sch_at e \<le> sch_at e'" if "e' \<in> set h" for e'
    using assms(1) that unfolding clock_ok_def h(1) by (auto simp: sched_key_def less_eq_prod_def split: if_splits)
  then show "clock_ok s1" using assms(1) unfolding clock_ok_def h(1,3) by auto
  show t: "sim_now s \<le> sim_now s1" "sim_now s1 \<le> sim_horizon (sim_cfg s)" using assms(1) h by (simp_all add: clock_ok_def)
  have "sum_list (map (idle_fuel (sim_cfg s) (sim_now s1)) ds) \<le> sum_list (map (idle_fuel (sim_cfg s) (sim_now s)) ds)" for ds
    using passes_left_antimono [OF t(1)] by (intro sum_list_mono) (simp add: idle_fuel_def)
  then show "fuel s1 + event_fuel (sim_cfg s) (sim_now s1) ev \<le> fuel s" using h by (simp add: fuel_def)
qed

subsection \<open>Handlers\<close>

text \<open>Between two states of the same instant at most \<open>n\<close> units of fuel are added.\<close>

definition spends :: "nat \<Rightarrow> simulator \<Rightarrow> simulator \<Rightarrow> bool" where
  "spends n s s' \<longleftrightarrow> clock_ok s' \<and> sim_cfg s' = sim_cfg s \<and> sim_now s' = sim_now s \<and> fuel s' \<le> fuel s + n"

lemma spends_trans: "spends m s t \<Longrightarrow> spends n t u \<Longrightarrow> spends (m + n) s u"
  by (simp add: spends_def)

lemma spends_frame:
  assumes "sim_cfg s' = sim_cfg s" "heap s' = heap s" "sim_now s' = sim_now s" "decodes s' = decodes s" "prefills s' = prefills s"
    "xfer_queue s' = xfer_queue s" "clock_ok s"
  shows "spends 0 s s'"
  using clock_cong [OF assms(1-5)] fuel_cong [OF assms(1-6)] assms(1,3,7) by (simp add: spends_def)

lemma spends_push: "clock_ok s \<Longrightarrow> sim_now s \<le> t \<Longrightarrow> spends (event_fuel (sim_cfg s) t ev) s (push t ev s)"
  by (simp add: spends_def push_clock push_fuel)

lemma drain_loop_spends:
  assumes "0 \<le> tr" "clock_ok s"
  shows "spends 0 (s\<lparr>xfer_queue := q\<rparr>) (drain_loop l tr q s)"
  using assms(2)
proof (induction q arbitrary: s)
  case Nil
  then show ?case using clock_cong [of "s\<lparr>xfer_queue := []\<rparr>" s] by (simp add: spends_def)
next
  case (Cons x q)
  obtain rid dw where x: "x = (rid, dw)" by (cases x)
  show ?case
  proof (cases "xfer_busy s < l")
    case True
    let ?s = "push (sim_now s + tr) (KvArrived rid dw) (s\<lparr>xfer_busy := xfer_busy s + 1\<rparr>)"
    have "clock_ok ?s" by (rule push_clock) (use Cons.prems assms(1) clock_cong [of "s\<lparr>xfer_busy := xfer_busy s + 1\<rparr>" s] in simp_all)
    from Cons.IH [OF this] have "spends 0 (?s\<lparr>xfer_queue := q\<rparr>) (drain_loop l tr q ?s)" .
    moreover have "fuel (?s\<lparr>xfer_queue := q\<rparr>) = fuel (s\<lparr>xfer_queue := x # q\<rparr>)"
      unfolding push_xfer_queue push_fuel by (simp add: fuel_def)
    ultimately show ?thesis using True x by (simp add: spends_def)
  next
    case False
    then show ?thesis using Cons.prems x clock_cong [of "s\<lparr>xfer_queue := (rid, dw) # q\<rparr>" s] by (simp add: spends_def)
  qed
qed

lemma drain_spends:
  assumes "positive_costs (sim_cfg s)" "clock_ok s"
  shows "spends 0 s (drain_xfer_queue s)"
  using drain_loop_spends [OF transfer_nonneg [OF assms(1)] assms(2), of "xfer_queue s"] by (simp add: drain_xfer_queue_def)

lemma first_tokens_spends:
  "first_tokens ids s = Some s' \<Longrightarrow> clock_ok s \<Longrightarrow> spends (2 * length ids) s s' \<and> prefills s' = prefills s"
proof (induction ids arbitrary: s)
  case Nil
  then show ?case by (simp add: spends_def)
next
  case (Cons rid ids)
  obtain r where r: "hm_get (reqs s) rid = Some r" using Cons.prems(1) by (auto split: option.splits)
  let ?s = "s\<lparr>reqs := hm_insert rid (r\<lparr>rq_first_token_ms := Some (sim_now s), rq_last_token_ms := sim_now s\<rparr>) (reqs s),
         xfer_queue := xfer_queue s @ [(rid, rq_decode_worker r)]\<rparr>"
  have "clock_ok ?s" using Cons.prems(2) clock_cong [of ?s s] by simp
  moreover have "fuel ?s = fuel s + 2" by (simp add: fuel_def)
  ultimately show ?case using Cons.IH [of ?s] Cons.prems(1) r by (simp add: spends_def)
qed

lemma plan_works:
  assumes "sched_wf q" "plan q now = (b, q')" "chunks b \<noteq> []"
  shows "0 < sum_list (map ch_tokens (chunks b))"
proof -
  obtain d where i: "batch_inv q now (set (on_time (plan_ordering q now))) (b, d)" using plan_result [OF assms(1), of now] assms(2) by auto
  obtain c where c: "c \<in> set (chunks b)" using assms(3) by (meson last_in_set)
  then have "0 < ch_tokens c" using batch_chunk [OF i] by auto
  then show ?thesis using c member_le_sum_list [of "ch_tokens c" "map ch_tokens (chunks b)"] by simp
qed

lemma try_start_spends:
  assumes pc: "positive_costs (sim_cfg s)" and k: "clock_ok s" and w: "w < length (prefills s)"
    and wf: "sched_wf (pws_sched (prefills s ! w))" and r: "try_start_prefill w s = Some s'"
  shows "spends 1 s s'"
proof -
  let ?pw = "prefills s ! w"
  obtain b q where p: "plan (pws_sched ?pw) (sim_now s) = (b, q)" by fastforce
  have q: "queue q = queue (pws_sched ?pw)" using plan_frame [of "pws_sched ?pw" "sim_now s"] p by simp
  have pw: "pws_curve ?pw = sim_prefill_curve (sim_cfg s)" "batch_works ?pw" using k w by (simp_all add: clock_ok_def)
  have upd: "spends 0 s (s\<lparr>prefills := (prefills s)[w := p']\<rparr>)"
    if "queue (pws_sched p') = queue (pws_sched ?pw)" "pws_curve p' = pws_curve ?pw" "batch_works p'" for p'
    using prefill_update_fuel [OF w, of p'] prefill_update_clock [OF k _ that(3), of w] that(1,2) pw(1)
    by (simp add: spends_def queue_fuel_def queued_tokens_def)
  show ?thesis
  proof (cases "pws_busy ?pw")
    case True
    then show ?thesis using r w k by (simp add: try_start_prefill_def spends_def)
  next
    case idle: False
    show ?thesis
    proof (cases "chunks b = []")
      case True
      have "s' = s\<lparr>prefills := (prefills s)[w := ?pw\<lparr>pws_sched := q\<rparr>]\<rparr>" using r w idle True p by (simp add: try_start_prefill_def Let_def)
      then show ?thesis using upd [of "?pw\<lparr>pws_sched := q\<rparr>"] q pw(2) by (simp add: batch_works_def spends_def)
    next
      case False
      let ?ms = "batch_ms (pws_curve ?pw) (total_tokens b) (length (chunks b))"
      define p' where "p' = ?pw\<lparr>pws_sched := q, pws_busy := True, pws_busy_ms := pws_busy_ms ?pw + charged_ms (horizon_ms s) (sim_now s) ?ms,
        pws_batch := Some (b, sim_now s)\<rparr>"
      have u: "spends 0 s (s\<lparr>prefills := (prefills s)[w := p']\<rparr>)"
        by (rule upd) (use q plan_works [OF wf p False] in \<open>simp_all add: p'_def batch_works_def\<close>)
      obtain s2 where t: "try_start_prefill w s = Some (push (sim_now s + ?ms) (PrefillDone w) s2)"
        and s2: "sim_cfg s2 = sim_cfg s" "heap s2 = heap s"
        "sim_now s2 = sim_now s" "decodes s2 = decodes s" "xfer_queue s2 = xfer_queue s" "prefills s2 = (prefills s)[w := p']"
        using w idle False p by (simp add: try_start_prefill_def Let_def p'_def)
      have s': "s' = push (sim_now s + ?ms) (PrefillDone w) s2" using r t by simp
      have "spends 0 (s\<lparr>prefills := (prefills s)[w := p']\<rparr>) s2" by (rule spends_frame) (use s2 u in \<open>simp_all add: spends_def\<close>)
      moreover have "spends 1 s2 s'" using spends_push [of s2 "sim_now s + ?ms" "PrefillDone w"] calculation batch_nonneg [OF pc] pw(1) s2 s'
        by (simp add: spends_def)
      ultimately show ?thesis using u by (simp add: spends_def)
    qed
  qed
qed

lemma on_prefill_done_spends:
  assumes pc: "positive_costs c" and i: "sim_inv c {#PrefillDone w#} {#} None s" and k: "clock_ok s"
    and r: "on_prefill_done w s = Some s'"
  shows "spends 0 s s'"
proof -
  have cfg: "sim_cfg s = c" by (rule sim_invD(1) [OF i])
  have w: "w < length (prefills s)" using sim_invD(5) [OF i] unfolding prefills_ok_def by (auto simp: all_events_def)
  let ?pw = "prefills s ! w"
  note ok = prefill_at [OF i w, unfolded prefill_ok_def]
  have "pws_busy ?pw" using ok by (auto simp: all_events_def split: if_splits)
  then obtain b t where b: "pws_batch ?pw = Some (b, t)" using ok by auto
  obtain fin sched where f: "complete (pws_sched ?pw) b (sim_now s - t) = (fin, sched)" by fastforce
  have C: "sched_wf sched" "mset (hm_keys (queue (pws_sched ?pw))) = mset (hm_keys (queue sched)) + mset fin"
    "queued_tokens sched + sum_list (map ch_tokens (chunks b)) = queued_tokens (pws_sched ?pw)"
    using complete_fits [of "pws_sched ?pw" b "sim_now s - t"] ok b f by auto
  have len: "length (queue (pws_sched ?pw)) = length (queue sched) + length fin" using arg_cong [OF C(2), of size] by simp
  have pw: "pws_curve ?pw = sim_prefill_curve c" "0 < sum_list (map ch_tokens (chunks b))"
    using k w b cfg by (auto simp: clock_ok_def batch_works_def dest: nth_mem)
  let ?p = "?pw\<lparr>pws_batch := None, pws_sched := sched, pws_busy := False\<rparr>"
  let ?s = "s\<lparr>prefills := (prefills s)[w := ?p]\<rparr>"
  have k1: "clock_ok ?s" by (rule prefill_update_clock [OF k]) (use pw cfg in \<open>simp_all add: batch_works_def\<close>)
  have f1: "fuel ?s + 2 * length fin + 1 \<le> fuel s"
    using prefill_update_fuel [OF w, of ?p] C(3) len pw(2) by (simp add: queue_fuel_def)
  obtain s2 where s2: "first_tokens fin ?s = Some s2" and s': "try_start_prefill w (drain_xfer_queue s2) = Some s'"
    using r w b f by (auto simp: on_prefill_done_def Let_def split: option.splits)
  note T = first_tokens_spends [OF s2 k1]
  have cf2: "sim_cfg s2 = c" "clock_ok s2" "prefills s2 = prefills ?s" using T cfg by (simp_all add: spends_def)
  have d: "spends 0 s2 (drain_xfer_queue s2)" by (rule drain_spends) (use pc cf2 in simp_all)
  have "spends 1 (drain_xfer_queue s2) s'"
    by (rule try_start_spends [OF _ _ _ _ s']) (use pc cf2 d w C(1) in \<open>simp_all add: spends_def\<close>)
  then show ?thesis using T d f1 by (simp add: spends_def)
qed

lemma on_kv_arrived_spends:
  assumes pc: "positive_costs c" and i: "sim_inv c {#KvArrived rid w#} {#} None s" and k: "clock_ok s"
    and r: "on_kv_arrived rid w s = Some s'"
  shows "spends 1 s s'"
proof -
  let ?s0 = "s\<lparr>xfer_busy := xfer_busy s - 1\<rparr>"
  have k0: "clock_ok ?s0" "fuel ?s0 = fuel s" using k clock_cong [of ?s0 s] fuel_cong [of ?s0 s] by simp_all
  define s1 where "s1 = drain_xfer_queue ?s0"
  have w: "w < length (decodes s)" using sim_invD(7) [OF i] by (auto simp: xfers_ok_def all_events_def)
  have d: "spends 0 s s1" unfolding s1_def using drain_spends [OF _ k0(1)] pc k0(2) sim_invD(1) [OF i] by (simp add: spends_def)
  have ds: "decodes s1 = decodes s" "sim_now s1 = sim_now s" by (simp_all add: s1_def)
  let ?d = "decodes s1 ! w"
  have w1: "w < length (decodes s1)" using w ds by simp
  have cv: "dws_curve ?d = sim_decode_curve (sim_cfg s1)" using d w1 by (simp add: spends_def clock_ok_def)
  let ?d1 = "?d\<lparr>dws_pending := dws_pending ?d @ [rid]\<rparr>"
  show ?thesis
  proof (cases "stepping ?d")
    case True
    have "s' = s1\<lparr>decodes := (decodes s1)[w := ?d1]\<rparr>" using r w1 True by (simp add: on_kv_arrived_def s1_def Let_def)
    then show ?thesis using decode_update_fuel [OF w1, of ?d1] decode_update_clock [of s1 ?d1 w] cv d True by (simp add: spends_def idle_fuel_def)
  next
    case False
    let ?s = "s1\<lparr>decodes := (decodes s1)[w := ?d1\<lparr>stepping := True\<rparr>]\<rparr>"
    have "s' = push (sim_now s1) (DecodeStep w) ?s" using r w1 False by (simp add: on_kv_arrived_def s1_def Let_def)
    moreover have "clock_ok ?s" by (rule decode_update_clock) (use d cv in \<open>simp_all add: spends_def\<close>)
    moreover have "fuel ?s + pass_fuel (sim_cfg s1) * passes_left (sim_cfg s1) (sim_now s1) = fuel s1"
      using decode_update_fuel [OF w1, of "?d1\<lparr>stepping := True\<rparr>"] False by (simp add: idle_fuel_def)
    ultimately show ?thesis using d by (simp add: spends_def push_clock push_fuel)
  qed
qed

lemma enqueue_fuel:
  assumes "hm_get (queue q) (pp_id p) = None"
  shows "queued_tokens (enqueue q p) = queued_tokens q + remaining p" "length (queue (enqueue q p)) = length (queue q) + 1"
proof -
  have "queue (enqueue q p) = hm_insert (pp_id p) p (queue q)" by (simp add: enqueue_def Let_def)
  moreover have "sum_mset (mset (map remaining (hm_values (hm_insert (pp_id p) p (queue q))))) = remaining p + sum_mset (mset (map remaining (hm_values (queue q))))"
    unfolding map_values_insert_fresh [OF assms] by simp
  ultimately show "queued_tokens (enqueue q p) = queued_tokens q + remaining p" unfolding queued_tokens_def sum_mset_sum_list by simp
  show "length (queue (enqueue q p)) = length (queue q) + 1" using arg_cong [OF enqueue_keys [OF assms], of size] by simp
qed

lemma on_arrival_spends:
  assumes pc: "positive_costs c" and i: "sim_inv c {#Arrival k#} {#} None s" and k: "clock_ok s" and c: "simulatable c"
    and r: "on_arrival k s = Some s'"
  shows "spends (wl_isl (workload c) + 3) s s'"
proof -
  have cfg: "sim_cfg s = c" by (rule sim_invD(1) [OF i])
  obtain w rq item rt where q: "on_arrival k s = try_start_prefill w (queued_on w rq item rt s)" "w < length (prefills s)"
    "pp_id item = sim_next_id s" "remaining item \<le> wl_isl (workload c)" "sim_inv c {#} {#} None (queued_on w rq item rt s)"
    by (rule on_arrival_queues [OF i]) (use c in \<open>simp_all add: simulatable_def config_validate_iff\<close>)
  let ?pw = "prefills s ! w"
  let ?p = "?pw\<lparr>pws_sched := enqueue (pws_sched ?pw) item\<rparr>"
  let ?s = "s\<lparr>prefills := (prefills s)[w := ?p]\<rparr>" and ?q = "queued_on w rq item rt s"
  have "hm_get (queue (pws_sched ?pw)) (pp_id item) = None" using fresh_id(2) [OF i q(2)] q(3) by simp
  note E = enqueue_fuel [OF this]
  have "pws_curve ?pw = sim_prefill_curve c" "batch_works ?pw" using k q(2) cfg by (simp_all add: clock_ok_def)
  then have "clock_ok ?s" by (intro prefill_update_clock [OF k]) (simp_all add: cfg batch_works_def)
  moreover have "fuel ?s \<le> fuel s + (wl_isl (workload c) + 2)"
    using prefill_update_fuel [OF q(2), of ?p] E q(4) by (simp add: queue_fuel_def)
  ultimately have f: "spends (wl_isl (workload c) + 2) s ?s" by (simp add: spends_def)
  have g: "spends 0 ?s ?q" by (rule spends_frame) (use f in \<open>simp_all add: queued_on_def spends_def\<close>)
  have wq: "w < length (prefills ?q)" "sim_cfg ?q = c" using q(2) cfg by (simp_all add: queued_on_def)
  have "sched_wf (pws_sched (prefills ?q ! w))" using prefill_at [OF q(5) wq(1)] by (simp add: prefill_ok_def)
  then have "spends 1 ?q s'" by (intro try_start_spends [of ?q w s']) (use pc wq g r q(1) in \<open>simp_all add: spends_def\<close>)
  then show ?thesis using f g by (simp add: spends_def)
qed

lemma admit_loop_frame:
  "admit_loop bs now rs ids d = Some d' \<Longrightarrow> stepping d' = stepping d \<and> dws_curve d' = dws_curve d"
proof (induction ids arbitrary: d)
  case (Cons rid ids)
  show ?case
  proof (cases "hm_get rs rid")
    case None
    then show ?thesis using Cons by simp
  next
    case (Some r)
    show ?thesis using Cons.prems Some by (auto simp: Let_def split: if_splits option.splits dest!: Cons.IH)
  qed
qed auto

lemma admit_decode_spends:
  assumes "clock_ok s" "admit_decode w s = Some s'"
  shows "spends 0 s s'"
proof -
  obtain d' where w: "w < length (decodes s)" and d: "s' = s\<lparr>decodes := (decodes s)[w := d']\<rparr>"
    "stepping d' = stepping (decodes s ! w)" "dws_curve d' = dws_curve (decodes s ! w)"
    using assms(2) by (auto simp: admit_decode_def nth_opt_def split: if_splits option.splits dest: admit_loop_frame)
  have "dws_curve d' = sim_decode_curve (sim_cfg s)" using d(3) assms(1) w by (simp add: clock_ok_def)
  then show ?thesis using decode_update_clock [OF assms(1)] decode_update_fuel [OF w, of d'] d(1,2) by (simp add: spends_def idle_fuel_def)
qed

lemma retire_spends:
  assumes "clock_ok s" "w < length (decodes s)" "sim_now s \<le> t"
  shows "spends (arrival_fuel (sim_cfg s)) s (sim_retire w t sq s) \<and> length (decodes (sim_retire w t sq s)) = length (decodes s)"
proof -
  let ?d = "give_back (rs_id sq) (decodes s ! w)"
  let ?s = "s\<lparr>decodes := (decodes s)[w := ?d]\<rparr>"
  have g: "stepping ?d = stepping (decodes s ! w)" "dws_curve ?d = dws_curve (decodes s ! w)"
    by (simp_all add: give_back_def split: option.split)
  have "dws_curve ?d = sim_decode_curve (sim_cfg s)" using g(2) assms(1,2) by (simp add: clock_ok_def)
  then have u: "spends 0 s ?s" using decode_update_clock [OF assms(1)] decode_update_fuel [OF assms(2), of ?d] g(1) by (simp add: spends_def idle_fuel_def)
  show ?thesis
  proof (cases "hm_get (reqs s) (rs_id sq)")
    case None
    then show ?thesis using u by (simp add: sim_retire_def spends_def)
  next
    case (Some r)
    let ?r = "?s\<lparr>reqs := hm_remove (rs_id sq) (reqs s), outcomes := outcomes s @ [outcome_for r sq t]\<rparr>"
    have e: "sim_retire w t sq s = push t (Arrival (rq_client r)) ?r" using Some by (simp add: sim_retire_def Let_def)
    have v: "spends 0 ?s ?r" by (rule spends_frame) (use u in \<open>simp_all add: spends_def\<close>)
    have "spends (arrival_fuel (sim_cfg s)) ?r (push t (Arrival (rq_client r)) ?r)"
      using spends_push [of ?r t "Arrival (rq_client r)"] v assms(3) by (simp add: spends_def)
    then show ?thesis unfolding e using u v by (simp add: spends_def)
  qed
qed

lemma retires_spend:
  "clock_ok s \<Longrightarrow> w < length (decodes s) \<Longrightarrow> sim_now s \<le> t \<Longrightarrow>
   spends (length fin * arrival_fuel (sim_cfg s)) s (foldl (\<lambda>s sq. sim_retire w t sq s) s fin)"
proof (induction fin arbitrary: s)
  case Nil
  then show ?case by (simp add: spends_def)
next
  case (Cons sq fin)
  note R = retire_spends [OF Cons.prems, of sq]
  have "spends (length fin * arrival_fuel (sim_cfg s)) (sim_retire w t sq s) (foldl (\<lambda>s sq. sim_retire w t sq s) (sim_retire w t sq s) fin)"
    using Cons.IH [of "sim_retire w t sq s"] R Cons.prems by (simp add: spends_def)
  then show ?case using spends_trans [OF conjunct1 [OF R]] by simp
qed

lemma finished_le_clients:
  assumes i: "sim_inv c E {#} None s" and w: "w < length (decodes s)"
    and f: "on_step_synthetic (dws_sched (decodes s ! w)) t ms = (fin, sched)"
  shows "length fin \<le> wl_concurrency (workload c)"
proof -
  let ?d = "decodes s ! w"
  have inv: "decode_inv (dws_sched ?d)" using decode_at [OF i w] by (simp add: decode_ok_def)
  have "length fin \<le> size (decoding_ids ?d)" using arg_cong [OF synthetic_ids(3) [OF inv f], of size] by simp
  also have "\<dots> \<le> size (stages (all_events E s) s)"
    by (intro size_mset_mono subset_mset.order_trans [OF decoding_le [OF w] past_le])
  also have "\<dots> = length (reqs s)" using arg_cong [of _ _ size, OF conjunct2 [OF sim_invD(2) [OF i, unfolded requests_ok_def]]] by simp
  also have "\<dots> \<le> wl_concurrency (workload c)"
    using arg_cong [of _ _ size, OF sim_invD(3) [OF i, unfolded clients_ok_def]] by simp
  finally show ?thesis .
qed

lemma decode_pass_spends:
  assumes i: "sim_inv c {#DecodeStep w#} {#} None s" and k: "clock_ok s" and w: "w < length (decodes s)"
    and h: "sim_now s \<le> sim_horizon c" and r: "decode_pass w s = Some s'"
  shows "spends (pass_fuel c * passes_left c (sim_now s)) s s'"
proof -
  have cfg: "sim_cfg s = c" by (rule sim_invD(1) [OF i])
  let ?d = "decodes s ! w"
  have cv: "dws_curve ?d = sim_decode_curve c" using k w cfg by (simp add: clock_ok_def)
  have later: "pass_fuel c * passes_left c (sim_now s + step_cost_ms (dws_curve ?d) n) + pass_fuel c \<le> pass_fuel c * passes_left c (sim_now s)" for n
  proof -
    have "passes_left c (sim_now s + step_cost_ms (dws_curve ?d) n) + 1 \<le> passes_left c (sim_now s)"
      using passes_left_step [OF h, of "sim_now s + step_cost_ms (dws_curve ?d) n"] step_cost_12 [of c n] cv by simp
    from mult_le_mono2 [OF this, of "pass_fuel c"] show ?thesis by simp
  qed
  have ahead: "sim_now s \<le> sim_now s + step_cost_ms (dws_curve ?d) n" for n using step_cost_12 [of c n] cv by simp
  show ?thesis
  proof (cases "concurrency (dws_sched ?d) = 0")
    case True
    show ?thesis
    proof (cases "dws_pending ?d = []")
      case empty: True
      let ?d' = "?d\<lparr>stepping := False\<rparr>"
      have "s' = s\<lparr>decodes := (decodes s)[w := ?d']\<rparr>" using r w True empty by (simp add: decode_pass_def)
      moreover have "fuel (s\<lparr>decodes := (decodes s)[w := ?d']\<rparr>) \<le> fuel s + pass_fuel c * passes_left c (sim_now s)"
        using decode_update_fuel [OF w, of ?d'] cfg by (simp add: idle_fuel_def)
      ultimately show ?thesis using decode_update_clock [OF k, of ?d' w] cv cfg by (simp add: spends_def)
    next
      case False
      have "s' = push (sim_now s + step_cost_ms (dws_curve ?d) 1) (DecodeStep w) s" using r w True False by (simp add: decode_pass_def Let_def)
      then show ?thesis using push_clock [OF k ahead] later [of 1] cfg by (simp add: spends_def push_fuel pass_fuel_def)
    qed
  next
    case False
    define conc where "conc = concurrency (dws_sched ?d)"
    define ms where "ms = step_cost_ms (dws_curve ?d) conc"
    define t where "t = sim_now s + ms"
    obtain fin sched where f: "on_step_synthetic (dws_sched ?d) t ms = (fin, sched)" by fastforce
    let ?d' = "?d\<lparr>dws_sched := sched\<rparr>"
    let ?u = "s\<lparr>decodes := (decodes s)[w := ?d']\<rparr>"
    define s1 where "s1 = s\<lparr>concurrency_samples := concurrency_samples s @ [real conc], peak_concurrency := max (peak_concurrency s) conc,
      decodes := (decodes s)[w := ?d'], reqs := touch_reqs t (map rs_id (hm_values (running sched))) (reqs s)\<rparr>"
    define s2 where "s2 = foldl (\<lambda>s sq. sim_retire w t sq s) s1 fin"
    have s': "s' = push t (DecodeStep w) s2"
      using r w False f by (simp add: decode_pass_def Let_def conc_def [symmetric] ms_def [symmetric] t_def [symmetric] s1_def s2_def)
    have u: "spends 0 s ?u" using decode_update_clock [OF k, of ?d' w] decode_update_fuel [OF w, of ?d'] cv cfg by (simp add: spends_def idle_fuel_def)
    have s1: "spends 0 ?u s1" by (rule spends_frame) (use u in \<open>simp_all add: s1_def spends_def\<close>)
    have t: "sim_now s \<le> t" using ahead by (simp add: t_def ms_def)
    have fs: "clock_ok s1" "sim_now s1 = sim_now s" "sim_cfg s1 = c" "length (decodes s1) = length (decodes s)"
      using u s1 cfg by (simp_all add: spends_def s1_def)
    have "spends (length fin * arrival_fuel c) s1 s2" using retires_spend [of s1 w t fin] fs w t by (simp add: s2_def)
    moreover have "length fin * arrival_fuel c < pass_fuel c"
      using mult_le_mono1 [OF finished_le_clients [OF i w f], of "arrival_fuel c"] by (simp add: pass_fuel_def less_Suc_eq_le)
    ultimately show ?thesis using u s1 fs later [of conc] push_clock [of s2 t "DecodeStep w"] t cfg unfolding s'
      by (simp add: spends_def push_fuel t_def ms_def)
  qed
qed

subsection \<open>Every event spends fuel\<close>

lemma handle_event_spends:
  assumes pc: "positive_costs c" and i: "sim_inv c {#ev#} {#} None s" and k: "clock_ok s" and c: "simulatable c"
    and h: "sim_now s \<le> sim_horizon c" and r: "handle_event ev s = Some s'"
  shows "clock_ok s' \<and> sim_now s' = sim_now s \<and> fuel s' < fuel s + event_fuel c (sim_now s) ev"
proof (cases ev)
  case (Arrival k')
  then show ?thesis using on_arrival_spends [OF pc _ k c, of k' s'] i r by (simp add: spends_def arrival_fuel_def)
next
  case (PrefillDone w)
  then show ?thesis using on_prefill_done_spends [OF pc _ k, of w s'] i r by (simp add: spends_def)
next
  case (KvArrived rid w)
  then show ?thesis using on_kv_arrived_spends [OF pc _ k, of rid w s'] i r by (simp add: spends_def)
next
  case (DecodeStep w)
  obtain s1 where a: "admit_decode w s = Some s1" "decode_pass w s1 = Some s'"
    using r DecodeStep by (auto simp: on_decode_step_def Option.bind_eq_Some_conv)
  have i1: "sim_inv c {#DecodeStep w#} {#} None s1" "w < length (decodes s1)" using admit_decode_inv [of c w s] i DecodeStep a(1) by auto
  have s1: "spends 0 s s1" by (rule admit_decode_spends [OF k a(1)])
  have "spends (pass_fuel c * passes_left c (sim_now s1)) s1 s'"
    by (rule decode_pass_spends [OF i1(1) _ i1(2) _ a(2)]) (use s1 h in \<open>simp_all add: spends_def\<close>)
  then show ?thesis using s1 DecodeStep by (simp add: spends_def)
qed

lemma sim_step_spends:
  assumes "quiet s" "positive_costs (sim_cfg s)" "clock_ok s" "pop_event s = Some (ev, s1)" "handle_event ev s1 = Some s'"
  shows "clock_ok s' \<and> fuel s' < fuel s \<and> sim_cfg s' = sim_cfg s \<and> quiet s' \<and> sim_now s \<le> sim_now s' \<and> sim_now s' \<le> sim_horizon (sim_cfg s)"
proof -
  note P = pop_clock [OF assms(3,4)]
  have i: "sim_inv (sim_cfg s) {#ev#} {#} None s1" "simulatable (sim_cfg s)" using assms(1) sim_inv_pop [OF _ assms(4)] by (simp_all add: quiet_def)
  have st: "sim_step s s'" using assms(4,5) by (rule sim_step.step)
  show ?thesis using handle_event_spends [OF assms(2) i(1) P(1) i(2) P(4) assms(5)] P(2-4) step_cfg [OF st assms(1)] sim_step_quiet [OF assms(1) st] by simp
qed

lemma run_ends:
  assumes "quiet s" "positive_costs (sim_cfg s)" "clock_ok s" "fuel s \<le> n"
  shows "\<exists>t. run_for n s = Ended t"
  using assms
proof (induction n arbitrary: s)
  case 0
  show ?case
  proof (cases "pop_event s")
    case (Some x)
    then obtain ev s1 where p: "pop_event s = Some (ev, s1)" by (cases x) auto
    have "0 < event_fuel c t ev" for c t by (cases ev) (simp_all add: arrival_fuel_def)
    from this [of "sim_cfg s" "sim_now s1"] show ?thesis using pop_clock(2) [OF 0(3) p] 0(4) by simp
  qed simp
next
  case (Suc n)
  show ?case
  proof (cases "pop_event s")
    case (Some x)
    then obtain ev s1 where p: "pop_event s = Some (ev, s1)" by (cases x) auto
    have "sim_inv (sim_cfg s) {#ev#} {#} None s1" "simulatable (sim_cfg s)" using Suc.prems(1) sim_inv_pop [OF _ p] by (simp_all add: quiet_def)
    then obtain s2 where s2: "handle_event ev s1 = Some s2" using handle_event_inv by blast
    note S = sim_step_spends [OF Suc.prems(1-3) p s2]
    have "\<exists>t. run_for n s2 = Ended t" by (rule Suc.IH) (use S Suc.prems(2,4) in simp_all)
    then show ?thesis using p s2 by simp
  qed simp
qed

subsection \<open>Runs\<close>

text \<open>The states of runs with positive costs.\<close>

definition timed_init :: "simulator \<Rightarrow> bool" where
  "timed_init s \<longleftrightarrow> (\<exists>c s0. simulatable c \<and> positive_costs c \<and> sim_new c = Some s0 \<and> s = begin_run s0)"

definition timed :: "simulator \<Rightarrow> bool" where
  "timed s \<longleftrightarrow> quiet s \<and> positive_costs (sim_cfg s) \<and> clock_ok s"

lemma pushes_clock:
  "clock_ok s \<Longrightarrow> sim_now s \<le> 0 \<Longrightarrow> clock_ok (foldl (\<lambda>s k. push 0 (Arrival k) s) s ks)
     \<and> fuel (foldl (\<lambda>s k. push 0 (Arrival k) s) s ks) = fuel s + length ks * arrival_fuel (sim_cfg s)"
  by (induction ks arbitrary: s) (simp_all add: push_clock push_fuel)

lemma begin_run_clock:
  assumes "sim_new c = Some s"
  shows "clock_ok (begin_run s)"
    "fuel (begin_run s) = wl_concurrency (workload c) * arrival_fuel c + tc_decode_workers (cfg_topology c) * (pass_fuel c * passes_left c 0)"
proof -
  have z: "heap s = []" "sim_now s = 0" "xfer_queue s = []" "prefills s = replicate (tc_prefill_workers (cfg_topology c)) (new_prefill_worker c)"
    "sim_cfg s = c" using assms by (auto simp: sim_new_def)
  note D = sim_new_decodes [OF assms]
  have d: "dws_curve d = sim_decode_curve c \<and> \<not> stepping d" if "d \<in> set (decodes s)" for d
    using D(2) [OF that] by (auto simp: new_decode_worker_def Let_def sim_decode_curve_def)
  have const: "(\<forall>d \<in> set ds. f d = a) \<Longrightarrow> sum_list (map f ds) = length ds * a" for f :: "decode_worker_sim \<Rightarrow> nat" and a ds
    by (induction ds) simp_all
  have "sum_list (map (idle_fuel c 0) (decodes s)) = tc_decode_workers (cfg_topology c) * (pass_fuel c * passes_left c 0)"
    unfolding D(1) [symmetric] using d by (intro const) (simp add: idle_fuel_def)
  moreover have "queue_fuel (new_prefill_worker c) = 0" by (simp add: queue_fuel_def new_prefill_worker_def sched_new_def queued_tokens_def)
  ultimately have f: "fuel (s\<lparr>horizon_ms := h\<rparr>) = tc_decode_workers (cfg_topology c) * (pass_fuel c * passes_left c 0)" for h
    by (simp add: fuel_def z sum_list_replicate)
  have "pws_curve p = sim_prefill_curve c \<and> batch_works p" if "p \<in> set (prefills s)" for p
    using that by (simp add: z new_prefill_worker_def batch_works_def split: if_splits)
  then have k: "clock_ok (s\<lparr>horizon_ms := h\<rparr>)" for h using d by (simp add: clock_ok_def z)
  show "clock_ok (begin_run s)" "fuel (begin_run s) = wl_concurrency (workload c) * arrival_fuel c + tc_decode_workers (cfg_topology c) * (pass_fuel c * passes_left c 0)"
    using pushes_clock [OF k] f by (simp_all add: begin_run_def z)
qed

lemma timed_start: "simulatable c \<Longrightarrow> positive_costs c \<Longrightarrow> sim_new c = Some s \<Longrightarrow> timed (begin_run s)"
  using sim_init_inv [of "begin_run s"] begin_run_clock(1) [of c s] by (auto simp: timed_def sim_init_def begin_run_cfg sim_new_cfg)

lemma sim_step_timed:
  assumes "timed s" "sim_step s t"
  shows "timed t \<and> sim_now s \<le> sim_now t \<and> sim_now t \<le> sim_horizon (sim_cfg s) \<and> fuel t < fuel s"
  using assms(2)
proof (rule sim_stepE)
  fix ev s1 assume e: "pop_event s = Some (ev, s1)" "handle_event ev s1 = Some t"
  show ?thesis using sim_step_spends [OF _ _ _ e] assms(1) by (simp add: timed_def)
qed

interpretation timed_sys: invariant_system timed_init sim_step timed
proof
  show "timed s" if "timed_init s" for s using that timed_start by (auto simp: timed_init_def)
  show "timed t" if "timed s" "sim_step s t" for s t
    using sim_step_timed [OF that] by simp
qed

lemma run_within_budget:
  assumes "simulatable c" "positive_costs c" "sim_new c = Some s0" "sent = wl_concurrency (workload c) * (wl_isl (workload c) + 4)"
    and "sent + tc_decode_workers (cfg_topology c) * ((sent + 1) * nat (\<lfloor>sim_horizon c / 12\<rfloor> + 1)) \<le> n"
  shows "\<exists>s. run_for n (begin_run s0) = Ended s"
proof -
  have "timed (begin_run s0)" using timed_start [OF assms(1-3)] .
  moreover have "fuel (begin_run s0) \<le> n"
    using assms(4,5) unfolding begin_run_clock(2) [OF assms(3)] by (simp add: arrival_fuel_def pass_fuel_def passes_left_def)
  ultimately show ?thesis using run_ends unfolding timed_def by blast
qed

text \<open>C8. Every run ends. A run of the simulator whose costs are positive, started with any accepted configuration, stops
  at the horizon or when nothing is left to do, after a number of events bounded in advance by the clients, the prompt
  length and the decode passes that fit before the horizon; its report then counts each completed request among the
  issued ones and leaves at most one unfinished request per client.\<close>

theorem every_run_ends:
  assumes "simulatable c" "positive_costs c" "sim_new c = Some s0" "sent = wl_concurrency (workload c) * (wl_isl (workload c) + 4)"
    and "sent + tc_decode_workers (cfg_topology c) * ((sent + 1) * nat (\<lfloor>sim_horizon c / 12\<rfloor> + 1)) \<le> n"
  shows "\<exists>s d. run_for n (begin_run s0) = Ended s \<and> d = sim_diagnostics (finish_run s)
    \<and> requests_completed d \<le> requests_issued d \<and> requests_issued d \<le> requests_completed d + wl_concurrency (workload c)"
proof -
  obtain s where s: "run_for n (begin_run s0) = Ended s" using run_within_budget [OF assms] ..
  moreover have "quiet s" "sim_cfg s = c" using run_from_new [OF assms(1,3), of n] s by auto
  moreover have "length (reqs s) \<le> wl_concurrency (workload c)"
    using arg_cong [of _ _ size, OF quiet_parts(3) [OF calculation(2)]] calculation(3) by simp
  ultimately show ?thesis using quiet_parts(1) [of s] by (simp add: finish_run_def Let_def)
qed

lemma default_positive_costs: "positive_costs default_config"
  by (simp add: positive_costs_def sim_prefill_curve_def prefill_curve_for_worker_def Let_def default_config_def default_topology_config_def
      default_calibration_config_def default_prefill_calibration_def tok_s_per_gpu_at_tp_def ring_factor_def)

theorem every_run_ends_witness:
  "\<exists>n s0 s. sim_new default_config = Some s0 \<and> run_for n (begin_run s0) = Ended s"
proof -
  obtain s0 where s0: "sim_new default_config = Some s0" using default_sim_new by blast
  from every_run_ends [OF default_simulatable default_positive_costs s0 refl order_refl] s0 show ?thesis by blast
qed

end
