(* ===== verification/Tuner_Plan.thy ===== *)
theory Tuner_Plan
  imports Tuner Frontend Sim_Termination
begin

text \<open>
  \<open>crates/tuner/src/plan.rs\<close>: the tuner's judgement of AIConfigurator's candidates. Each is laid over the base
  configuration, refused or compared with the capacity model, scored by a judge and ranked.

  A judge is a function from a configuration to a report, \<open>None\<close> where it panics. The simulator's judge runs the
  event loop with a number of steps that is always enough.
\<close>

subsection \<open>Judges\<close>

definition run_budget :: "config \<Rightarrow> nat" where
  "run_budget c = (let sent = wl_concurrency (workload c) * (wl_isl (workload c) + 4)
     in sent + tc_decode_workers (cfg_topology c) * ((sent + 1) * nat (\<lfloor>sim_horizon c / 12\<rfloor> + 1)))"

text \<open>\<open>SimulationEvaluator::evaluate\<close>.\<close>

definition simulation_evaluate :: "config \<Rightarrow> goodput_report option" where
  "simulation_evaluate c = (case sim_new c of None \<Rightarrow> None
     | Some s \<Rightarrow> (case run_for (run_budget c) (begin_run s) of Ended s' \<Rightarrow> Some (goodput (finish_run s')) | _ \<Rightarrow> None))"

subsection \<open>Cross-check\<close>

record cross_check =
  aic_output_tok_s_per_gpu :: "real option"
  our_output_tok_s_per_gpu :: f64
  cc_ratio :: "f64 option"
  cc_verdict :: string
  cc_note :: string

definition ratio_verdict :: "f64 option \<Rightarrow> string \<times> string" where
  "ratio_verdict ratio =
    (case ratio of None \<Rightarrow> (''no-aic-number'', ''AIConfigurator did not report tokens/s/gpu'')
     | Some r \<Rightarrow>
        if f_le (Num (75 / 100)) r \<and> f_le r (Num (1333 / 1000)) then (''agree'', ''within 33 %: '' @ f_fixed 2 r @ ''x'')
        else if f_lt (Num (1333 / 1000)) r then (''aic-optimistic'', ''AIConfigurator predicts '' @ f_fixed 2 r
          @ ''x our measured capacity; either its database covers a kernel path this cluster does not run, or our calibration is stale'')
        else (''aic-pessimistic'', ''AIConfigurator predicts '' @ f_fixed 2 r
          @ ''x our measured capacity; check that the model/system/backend combination is inside its support matrix''))"

text \<open>\<open>x / ours.max(f64::MIN_POSITIVE)\<close>.\<close>

definition against :: "f64 \<Rightarrow> real \<Rightarrow> f64" where
  "against ours x = f_div (Num x) (f_max ours (Num MIN_POSITIVE))"

definition cross_check_build :: "aic_candidate \<Rightarrow> config \<Rightarrow> cross_check option" where
  "cross_check_build cand c =
    (let t = cfg_topology c; osl = real (wl_osl (workload c)); gpus = real (max (total_gpus t) 1)
     in case evaluate (config_capacity_model c) (tc_prefill_workers t * tc_prefill_tp t mod 2 ^ 32)
            (tc_decode_workers t * tc_decode_tp t mod 2 ^ 32) (tc_prefill_tp t) (tc_decode_tp t) of
       None \<Rightarrow> None
     | Some split \<Rightarrow>
        let ours = f_div (f_mul (sustainable_req_s split) (Num osl)) (Num gpus);
            theirs = first_some (map_option (\<lambda>s. s * osl / gpus) (predicted_seq_s cand)) (predicted_tokens_s_per_gpu cand);
            ratio = map_option (against ours) theirs;
            (verdict, note) = ratio_verdict ratio
        in Some \<lparr>aic_output_tok_s_per_gpu = theirs, our_output_tok_s_per_gpu = ours, cc_ratio = ratio,
             cc_verdict = verdict, cc_note = note\<rparr>)"

subsection \<open>Plan\<close>

record tuning_row =
  tr_label :: string
  tr_config :: config
  tr_cross_check :: cross_check
  tr_score :: goodput_report

record tuning_plan =
  plan_rows :: "tuning_row list"
  skipped :: "string list"

definition unusable :: "aic_candidate \<Rightarrow> string" where
  "unusable a = (case ac_mode a of
     Agg \<Rightarrow> label a @ '': aggregated layout, '' @ nat_str (prefill_gpus_per_worker a)
       @ '' GPUs/worker - not a P/D split, listed for comparison only''
   | Disagg \<Rightarrow> label a @ '': unreadable topology in '' @ ac_source a)"

text \<open>One turn of the loop over the candidates.\<close>

definition judge :: "(config \<Rightarrow> goodput_report option) \<Rightarrow> config \<Rightarrow> aic_candidate \<Rightarrow> tuning_plan \<Rightarrow> tuning_plan option" where
  "judge ev base a p =
    (case apply_to a base of None \<Rightarrow> Some (p\<lparr>skipped := skipped p @ [unusable a]\<rparr>)
     | Some c \<Rightarrow>
        (case config_validate c of Inl e \<Rightarrow> Some (p\<lparr>skipped := skipped p @ [label a @ '': '' @ error_str e]\<rparr>)
         | Inr _ \<Rightarrow>
            (case cross_check_build a c of None \<Rightarrow> None
             | Some cc \<Rightarrow>
                (case ev c of None \<Rightarrow> None
                 | Some r \<Rightarrow> Some (p\<lparr>plan_rows := plan_rows p @ [\<lparr>tr_label = label a, tr_config = c, tr_cross_check = cc, tr_score = r\<rparr>]\<rparr>)))))"

fun judge_all :: "(config \<Rightarrow> goodput_report option) \<Rightarrow> config \<Rightarrow> aic_candidate list \<Rightarrow> tuning_plan \<Rightarrow> tuning_plan option" where
  "judge_all ev base [] p = Some p"
| "judge_all ev base (a # as) p = (case judge ev base a p of None \<Rightarrow> None | Some p' \<Rightarrow> judge_all ev base as p')"

definition rank :: "tuning_row list \<Rightarrow> tuning_row list" where
  "rank rs = sort_key (\<lambda>r. - good_output_tok_s (tr_score r)) rs"

definition evaluate_with :: "(config \<Rightarrow> goodput_report option) \<Rightarrow> aic_candidate list \<Rightarrow> config \<Rightarrow> tuning_plan option" where
  "evaluate_with ev as base = map_option (\<lambda>p. p\<lparr>plan_rows := rank (plan_rows p)\<rparr>) (judge_all ev base as \<lparr>plan_rows = [], skipped = []\<rparr>)"

definition plan_evaluate :: "aic_candidate list \<Rightarrow> config \<Rightarrow> tuning_plan option" where
  "plan_evaluate as base = evaluate_with simulation_evaluate as base"

definition best :: "tuning_plan \<Rightarrow> tuning_row option" where
  "best p = (case plan_rows p of [] \<Rightarrow> None | r # _ \<Rightarrow> Some r)"

text \<open>The printed table; a width counts characters.\<close>

definition str_width :: "string \<Rightarrow> nat" where
  "str_width s = length (filter (\<lambda>c. \<not> is_cont c) s)"

definition pad_left :: "nat \<Rightarrow> string \<Rightarrow> string" where
  "pad_left n s = replicate (n - str_width s) (CHR '' '') @ s"

definition pad_right :: "nat \<Rightarrow> string \<Rightarrow> string" where
  "pad_right n s = s @ replicate (n - str_width s) (CHR '' '')"

definition row_line :: "tuning_row \<Rightarrow> string" where
  "row_line r = (let g = tr_score r in
     pad_right 28 (tr_label r) @ '' '' @ pad_left 10 (fixed_str 2 (good_output_tok_s g)) @ '' '' @ pad_left 7 (fixed_str 1 (good_frac g * 100))
     @ ''% '' @ pad_left 8 (fixed_str 0 (p99 (ttft_stats g))) @ ''ms '' @ pad_left 9 (fixed_str 2 (ls_mean (itl_stats g))) @ ''ms ''
     @ pad_left 16 (cc_verdict (tr_cross_check r)) @ [LF])"

definition plan_table :: "tuning_plan \<Rightarrow> string" where
  "plan_table p =
    pad_right 28 ''topology'' @ '' '' @ pad_left 10 ''goodput'' @ '' '' @ pad_left 8 ''good%'' @ '' '' @ pad_left 9 ''TTFT p99'' @ '' ''
    @ pad_left 10 ''ITL mean'' @ '' '' @ pad_left 16 ''vs aiconfigurator'' @ [LF]
    @ concat (map row_line (plan_rows p)) @ concat (map (\<lambda>k. ''skipped: '' @ k @ [LF]) (skipped p))"

subsection \<open>What a plan says\<close>

definition runnable :: "config \<Rightarrow> aic_candidate \<Rightarrow> bool" where
  "runnable base a \<longleftrightarrow> (case apply_to a base of None \<Rightarrow> False | Some c \<Rightarrow> config_validate c = Inr ())"

definition row_ok :: "(config \<Rightarrow> goodput_report option) \<Rightarrow> config \<Rightarrow> aic_candidate \<Rightarrow> tuning_row \<Rightarrow> bool" where
  "row_ok ev base a r \<longleftrightarrow> tr_label r = label a \<and> apply_to a base = Some (tr_config r) \<and> config_validate (tr_config r) = Inr ()
     \<and> cross_check_build a (tr_config r) = Some (tr_cross_check r) \<and> ev (tr_config r) = Some (tr_score r)"

lemma judge_cases:
  assumes "judge ev base a p = Some p'"
  obtains (row) r where "runnable base a" "row_ok ev base a r" "plan_rows p' = plan_rows p @ [r]" "skipped p' = skipped p"
  | (skip) m where "\<not> runnable base a" "prefix (label a) m" "plan_rows p' = plan_rows p" "skipped p' = skipped p @ [m]"
proof (cases "runnable base a")
  case True
  then obtain c where c: "apply_to a base = Some c" "config_validate c = Inr ()" by (auto simp: runnable_def split: option.splits)
  obtain cc r where j: "cross_check_build a c = Some cc" "ev c = Some r"
    and p': "p' = p\<lparr>plan_rows := plan_rows p @ [\<lparr>tr_label = label a, tr_config = c, tr_cross_check = cc, tr_score = r\<rparr>]\<rparr>"
    using assms c by (auto simp: judge_def split: option.splits)
  show ?thesis by (rule row [OF True, of "\<lparr>tr_label = label a, tr_config = c, tr_cross_check = cc, tr_score = r\<rparr>"])
      (use c j p' in \<open>simp_all add: row_ok_def\<close>)
next
  case False
  show ?thesis
  proof (cases "apply_to a base")
    case None
    then show ?thesis using skip [OF False, of "unusable a"] assms
      by (cases "ac_mode a") (auto simp: judge_def unusable_def)
  next
    case (Some c)
    then obtain e where "config_validate c = Inl e" using False by (cases "config_validate c") (auto simp: runnable_def)
    then show ?thesis using skip [OF False, of "label a @ '': '' @ error_str e"] assms Some by (auto simp: judge_def)
  qed
qed

lemma judge_all_rows:
  assumes "judge_all ev base as p = Some p'"
  shows "\<exists>rs ms. plan_rows p' = plan_rows p @ rs \<and> skipped p' = skipped p @ ms
    \<and> list_all2 (row_ok ev base) (filter (runnable base) as) rs
    \<and> list_all2 (\<lambda>a m. prefix (label a) m) (filter (\<lambda>a. \<not> runnable base a) as) ms"
  using assms
proof (induction as arbitrary: p)
  case (Cons a as)
  then obtain p1 where p1: "judge ev base a p = Some p1" "judge_all ev base as p1 = Some p'" by (auto split: option.splits)
  obtain rs ms where ih: "plan_rows p' = plan_rows p1 @ rs" "skipped p' = skipped p1 @ ms"
    "list_all2 (row_ok ev base) (filter (runnable base) as) rs"
    "list_all2 (\<lambda>a m. prefix (label a) m) (filter (\<lambda>a. \<not> runnable base a) as) ms" using Cons.IH [OF p1(2)] by blast
  from p1(1) show ?case
  proof (cases rule: judge_cases)
    case (row r)
    then show ?thesis using ih by (intro exI [of _ "r # rs"] exI [of _ ms]) simp
  next
    case (skip m)
    then show ?thesis using ih by (intro exI [of _ rs] exI [of _ "m # ms"]) simp
  qed
qed simp

lemma rank_perm: "mset (rank rs) = mset rs"
  by (simp add: rank_def)

lemma rank_sorted: "sorted_wrt (\<lambda>a b. good_output_tok_s (tr_score b) \<le> good_output_tok_s (tr_score a)) (rank rs)"
  using sorted_sort_key [of "\<lambda>r. - good_output_tok_s (tr_score r)" rs] by (simp add: rank_def sorted_map)

lemma apply_to_only_topology:
  assumes "apply_to a base = Some c"
  shows "c\<lparr>cfg_topology := cfg_topology base\<rparr> = base" "tc_prefill_workers (cfg_topology c) = ac_prefill_workers a"
    "tc_prefill_tp (cfg_topology c) = prefill_gpus_per_worker a" "0 < prefill_gpus_per_worker a"
    "tc_decode_workers (cfg_topology c) * tc_decode_tp (cfg_topology c) = ac_decode_workers a * decode_gpus_per_worker a"
    "0 < ac_decode_workers a * decode_gpus_per_worker a"
  using assms by (auto simp: apply_to_def split: if_splits)

lemma row_okD: "row_ok ev base a r \<Longrightarrow> apply_to a base = Some (tr_config r)" "row_ok ev base a r \<Longrightarrow> ev (tr_config r) = Some (tr_score r)"
  "row_ok ev base a r \<Longrightarrow> config_validate (tr_config r) = Inr ()"
  by (simp_all add: row_ok_def)

lemma evaluate_with_rows:
  assumes "evaluate_with ev as base = Some p"
  shows "\<exists>rs. list_all2 (row_ok ev base) (filter (runnable base) as) rs \<and> plan_rows p = rank rs
    \<and> list_all2 (\<lambda>a m. prefix (label a) m) (filter (\<lambda>a. \<not> runnable base a) as) (skipped p)"
  using assms judge_all_rows [of ev base as "\<lparr>plan_rows = [], skipped = []\<rparr>"] by (auto simp: evaluate_with_def)

lemma plan_row_source:
  assumes "evaluate_with ev as base = Some p" "r \<in> set (plan_rows p)"
  obtains a where "a \<in> set as" "row_ok ev base a r"
proof -
  obtain rs where rs: "list_all2 (row_ok ev base) (filter (runnable base) as) rs" "plan_rows p = rank rs"
    using evaluate_with_rows [OF assms(1)] by blast
  have "r \<in> set rs" using assms(2) rank_perm [of rs] rs(2) by (metis set_mset_mset)
  then obtain i where i: "i < length rs" "rs ! i = r" by (auto simp: in_set_conv_nth)
  then have "filter (runnable base) as ! i \<in> set (filter (runnable base) as)" using list_all2_lengthD [OF rs(1)] nth_mem by metis
  then show ?thesis using that list_all2_nthD2 [OF rs(1) i(1)] i(2) by auto
qed

lemma plan_lengths:
  assumes "evaluate_with ev as base = Some p"
  shows "length (plan_rows p) + length (skipped p) = length as"
proof -
  obtain rs where rs: "list_all2 (row_ok ev base) (filter (runnable base) as) rs" "plan_rows p = rank rs"
    "list_all2 (\<lambda>a m. prefix (label a) m) (filter (\<lambda>a. \<not> runnable base a) as) (skipped p)"
    using evaluate_with_rows [OF assms] by blast
  then show ?thesis using list_all2_lengthD [OF rs(1)] list_all2_lengthD [OF rs(3)] sum_length_filter_compl [of "runnable base" as]
    by (simp add: rank_def)
qed

text \<open>C26. The tuner judges every candidate and ranks by the score alone. In the plan it returns, the rows are exactly the
  candidates whose layout can be read and whose configuration is accepted, one row each, with a configuration that differs from
  the base only in its topology, the capacity model's opinion and the judge's own score; every other candidate is
  listed once, in order and by its label, among the skipped; rows come in falling order of good output tokens per second,
  so the best row has the highest score of all.\<close>

theorem plan_judges_every_candidate:
  assumes "evaluate_with ev as base = Some p"
  shows "(\<exists>rs. list_all2 (row_ok ev base) (filter (runnable base) as) rs \<and> mset (plan_rows p) = mset rs)
    \<and> list_all2 (\<lambda>a m. prefix (label a) m) (filter (\<lambda>a. \<not> runnable base a) as) (skipped p)
    \<and> length (plan_rows p) + length (skipped p) = length as
    \<and> (\<forall>r \<in> set (plan_rows p). (tr_config r)\<lparr>cfg_topology := cfg_topology base\<rparr> = base)
    \<and> sorted_wrt (\<lambda>a b. good_output_tok_s (tr_score b) \<le> good_output_tok_s (tr_score a)) (plan_rows p)
    \<and> (\<forall>b. best p = Some b \<longrightarrow> (\<forall>r \<in> set (plan_rows p). good_output_tok_s (tr_score r) \<le> good_output_tok_s (tr_score b)))"
proof -
  obtain rs where rs: "list_all2 (row_ok ev base) (filter (runnable base) as) rs" "plan_rows p = rank rs"
    "list_all2 (\<lambda>a m. prefix (label a) m) (filter (\<lambda>a. \<not> runnable base a) as) (skipped p)"
    using evaluate_with_rows [OF assms] by blast
  have base: "(tr_config r)\<lparr>cfg_topology := cfg_topology base\<rparr> = base" if "r \<in> set (plan_rows p)" for r
    by (rule plan_row_source [OF assms that]) (rule apply_to_only_topology(1) [OF row_okD(1)])
  have top: "good_output_tok_s (tr_score r) \<le> good_output_tok_s (tr_score b)" if "best p = Some b" "r \<in> set (plan_rows p)" for b r
    using that rank_sorted [of rs, folded rs(2)] by (cases "plan_rows p") (auto simp: best_def)
  show ?thesis using rs rank_perm [of rs] rank_sorted [of rs] plan_lengths [OF assms] base top by auto
qed

subsection \<open>A plan is always returned\<close>

lemma judge_all_total:
  assumes "\<And>a c. a \<in> set as \<Longrightarrow> apply_to a base = Some c \<Longrightarrow> config_validate c = Inr ()
    \<Longrightarrow> (\<exists>cc. cross_check_build a c = Some cc) \<and> (\<exists>r. ev c = Some r)"
  shows "\<exists>p'. judge_all ev base as p = Some p'"
  using assms
proof (induction as arbitrary: p)
  case (Cons a as)
  have "\<exists>p1. judge ev base a p = Some p1"
    using Cons.prems [of a] by (auto simp: judge_def split: option.splits sum.splits)
  then show ?case using Cons by fastforce
qed simp

lemma cross_check_total:
  assumes "plannable (config_capacity_model c)" "0 < tc_decode_workers (cfg_topology c) * tc_decode_tp (cfg_topology c) mod 2 ^ 32"
  shows "\<exists>cc. cross_check_build a c = Some cc"
proof -
  obtain s where "evaluate (config_capacity_model c) (tc_prefill_workers (cfg_topology c) * tc_prefill_tp (cfg_topology c) mod 2 ^ 32)
      (tc_decode_workers (cfg_topology c) * tc_decode_tp (cfg_topology c) mod 2 ^ 32) (tc_prefill_tp (cfg_topology c)) (tc_decode_tp (cfg_topology c)) = Some s"
    using evaluate_total [OF assms] by blast
  then show ?thesis by (simp add: cross_check_build_def Let_def split: prod.splits)
qed

text \<open>The base configurations whose every layout can be scored: the capacity model is plannable (no rate is \<open>NaN\<close>), the decode schedulers can be
  constructed (\<open>ItlController::new\<close> panics when the cap is below 8, which \<open>validate\<close> does not refuse), and the costs of the
  simulated work are positive.\<close>

definition tunable :: "config \<Rightarrow> bool" where
  "tunable base \<longleftrightarrow> plannable (config_capacity_model base) \<and> 8 \<le> max_decode_seqs (scheduler base) \<and> 0 < cal_kv_xfer_gib_s (calibration base)
     \<and> (let p = cal_prefill (calibration base) in 0 < tok_s_per_gpu p \<and> 0 \<le> tp_allreduce_frac p \<and> tp_allreduce_frac p < 1
          \<and> 0 < duty_cycle p \<and> duty_cycle p \<le> 1)"

lemma tok_rate_positive:
  assumes "0 < tok_s_per_gpu p" "0 \<le> tp_allreduce_frac p" "tp_allreduce_frac p < 1"
  shows "0 < tok_s_per_gpu_at_tp p n"
proof -
  have "0 \<le> ring_factor n" by (simp add: ring_factor_def)
  then show ?thesis using assms by (auto simp: tok_s_per_gpu_at_tp_def Let_def intro!: divide_pos_pos add_pos_nonneg mult_nonneg_nonneg divide_nonneg_nonneg)
qed

lemma sim_new_total: "8 \<le> max_decode_seqs (scheduler c) \<Longrightarrow> \<exists>s. sim_new c = Some s"
  by (simp add: sim_new_def new_decode_workers_def new_decode_worker_def itl_new_def Let_def)

lemma tunable_positive:
  assumes "tunable base" "calibration c = calibration base" "0 < tc_prefill_tp (cfg_topology c)"
  shows "positive_costs c"
  using assms tok_rate_positive [of "cal_prefill (calibration base)" "tc_prefill_tp (cfg_topology c)"]
  by (simp add: positive_costs_def sim_prefill_curve_def prefill_curve_for_worker_def Let_def tunable_def)

lemma tunable_layout:
  assumes "tunable base" "c\<lparr>cfg_topology := cfg_topology base\<rparr> = base" "0 < tc_prefill_tp (cfg_topology c)"
  shows "plannable (config_capacity_model c)" "positive_costs c" "\<exists>s. sim_new c = Some s"
proof -
  have same: "calibration c = calibration base" "scheduler c = scheduler base" "cfg_engine c = cfg_engine base" "workload c = workload base"
    using assms(2) by (metis config.select_convs config.surjective config.update_convs)+
  have model: "cm_isl (config_capacity_model c) = cm_isl (config_capacity_model base)"
      "kv_xfer_gib_s (config_capacity_model c) = kv_xfer_gib_s (config_capacity_model base)"
      "cm_prefill (config_capacity_model c) = cm_prefill (config_capacity_model base)"
      "cm_decode (config_capacity_model c) = cm_decode (config_capacity_model base)"
    by (simp_all add: config_capacity_model_def same)
  show "plannable (config_capacity_model c)"
    using assms(1) unfolding tunable_def plannable_def model by blast
  show "positive_costs c" by (rule tunable_positive [OF assms(1) same(1) assms(3)])
  show "\<exists>s. sim_new c = Some s" using assms(1) by (intro sim_new_total) (simp add: same tunable_def)
qed

lemma simulation_scores:
  assumes "simulatable c" "positive_costs c" "sim_new c = Some s0"
  shows "\<exists>s. run_for (run_budget c) (begin_run s0) = Ended s \<and> simulation_evaluate c = Some (goodput (finish_run s))"
  using run_within_budget [OF assms refl, of "run_budget c"] assms(3) by (auto simp: simulation_evaluate_def run_budget_def Let_def)

text \<open>C27. Tuning ends with a plan. Assume a tunable base configuration: at least 8 decode sequences per worker (with fewer the simulator cannot be
  constructed), a positive link bandwidth, positive prefill throughput and duty cycle, an all-reduce share in [0, 1), prompts of at least one token
  and a reference concurrency that admits a sequence. Assume candidates of at most a thousand prefill workers whose decode GPUs fit
  32 bits. Then the tuner neither panics nor runs forever whatever else AIConfigurator proposes: every candidate is scored or skipped, and
  the score of a row is the goodput of a complete simulated run of its configuration.\<close>

theorem tuning_always_ends:
  assumes "tunable base"
    "\<forall>a \<in> set as. ac_prefill_workers a \<le> DECODE_ID_BASE \<and> ac_decode_workers a * decode_gpus_per_worker a < 2 ^ 32"
  shows "\<exists>p. plan_evaluate as base = Some p \<and> length (plan_rows p) + length (skipped p) = length as
    \<and> (\<forall>r \<in> set (plan_rows p). \<exists>s0 n s. sim_new (tr_config r) = Some s0 \<and> run_for n (begin_run s0) = Ended s
         \<and> tr_score r = goodput (finish_run s))"
proof -
  have layout: "\<exists>cc. cross_check_build a c = Some cc" "\<exists>s0 s. sim_new c = Some s0 \<and> run_for (run_budget c) (begin_run s0) = Ended s
      \<and> simulation_evaluate c = Some (goodput (finish_run s))"
    if "a \<in> set as" "apply_to a base = Some c" "config_validate c = Inr ()" for a c
  proof -
    note t = apply_to_only_topology [OF that(2)]
    have "simulatable c" using that assms(2) t(2) by (simp add: simulatable_def)
    then show "\<exists>s0 s. sim_new c = Some s0 \<and> run_for (run_budget c) (begin_run s0) = Ended s
      \<and> simulation_evaluate c = Some (goodput (finish_run s))"
      using tunable_layout [OF assms(1) t(1)] t(3,4) simulation_scores by auto
    have "ac_decode_workers a * decode_gpus_per_worker a mod 2 ^ 32 = ac_decode_workers a * decode_gpus_per_worker a"
      using assms(2) that(1) by simp
    then show "\<exists>cc. cross_check_build a c = Some cc"
      using cross_check_total [OF tunable_layout(1) [OF assms(1) t(1)]] t(3,4,5,6) by metis
  qed
  obtain p where p: "plan_evaluate as base = Some p"
    using judge_all_total [of as base simulation_evaluate] layout unfolding plan_evaluate_def evaluate_with_def by fastforce
  have "\<exists>s0 n s. sim_new (tr_config r) = Some s0 \<and> run_for n (begin_run s0) = Ended s \<and> tr_score r = goodput (finish_run s)"
    if r: "r \<in> set (plan_rows p)" for r
  proof -
    obtain a where a: "a \<in> set as" "row_ok simulation_evaluate base a r"
      using plan_row_source [OF p [unfolded plan_evaluate_def] r] .
    from layout(2) [OF a(1) row_okD(1,3) [OF a(2)]] row_okD(2) [OF a(2)] show ?thesis by auto
  qed
  then show ?thesis using p plan_lengths [OF p [unfolded plan_evaluate_def]] by blast
qed

subsection \<open>AIConfigurator's own recommendation\<close>

text \<open>The layout of four two-GPU prefill workers and one eight-GPU decode worker, and an aggregated one.\<close>

definition sample_candidate :: "deployment_mode \<Rightarrow> aic_candidate" where
  "sample_candidate m = \<lparr>ac_source = ''test'', ac_mode = m, ac_prefill = None, ac_decode = None,
     ac_prefill_workers = 4, ac_decode_workers = 1, prefill_gpus_per_worker = 2, decode_gpus_per_worker = 8, ac_total_gpus = 16,
     predicted_seq_s = Some (14375 / 1000), predicted_tokens_s_per_gpu = None, ac_predicted_ttft_ms = None,
     predicted_tpot_ms = None, predicted_concurrency = None, raw = []\<rparr>"

lemma default_tunable: "tunable default_config"
  by (simp add: tunable_def plannable_def config_capacity_model_def default_config_def default_scheduler_config_def Let_def
      default_calibration_config_def default_prefill_calibration_def default_decode_calibration_def default_workload_config_def
      spec_ratio_def eagle3_topk1_def)

lemma sample_small: "\<forall>a \<in> set [sample_candidate Disagg, sample_candidate Agg].
    ac_prefill_workers a \<le> DECODE_ID_BASE \<and> ac_decode_workers a * decode_gpus_per_worker a < 2 ^ 32"
  by (simp add: sample_candidate_def DECODE_ID_BASE_def)

theorem tuning_always_ends_witness:
  "\<exists>p. plan_evaluate [sample_candidate Disagg, sample_candidate Agg] default_config = Some p
    \<and> length (plan_rows p) + length (skipped p) = 2"
proof -
  from tuning_always_ends [OF default_tunable sample_small] show ?thesis by force
qed

theorem plan_judges_every_candidate_witness:
  "\<exists>p. evaluate_with (\<lambda>_. Some (blank_report 120 0)) [sample_candidate Disagg, sample_candidate Agg] default_config = Some p
    \<and> length (plan_rows p) = 1 \<and> length (skipped p) = 1"
proof -
  let ?ev = "\<lambda>_. Some (blank_report 120 0)" and ?as = "[sample_candidate Disagg, sample_candidate Agg]"
  have "\<exists>cc. cross_check_build a c = Some cc" if "a \<in> set ?as" "apply_to a default_config = Some c" for a c
  proof -
    note t = apply_to_only_topology [OF that(2)]
    show ?thesis using cross_check_total [OF tunable_layout(1) [OF default_tunable t(1)]] t(3-6) that(1) by (auto simp: sample_candidate_def)
  qed
  then obtain p where p: "evaluate_with ?ev ?as default_config = Some p"
    using judge_all_total [of ?as default_config ?ev] unfolding evaluate_with_def by fastforce
  have "filter (runnable default_config) ?as = [sample_candidate Disagg]"
    "filter (\<lambda>a. \<not> runnable default_config a) ?as = [sample_candidate Agg]"
    by (simp_all add: runnable_def apply_to_def sample_candidate_def config_validate_iff engine_validate_iff used_gpus_def
        default_config_def default_topology_config_def default_engine_config_def ATTN_BACKENDS_def MOE_BACKENDS_def
        ALLREDUCE_STRATEGIES_def TORCH_COMPILE_def default_speculation_config_def default_slo_def)
  then show ?thesis using plan_judges_every_candidate [OF p] p list_all2_lengthD by fastforce
qed

end
