(* ===== verification/Dynamo.thy ===== *)
theory Dynamo
  imports Wire_Stream Block_Pool
begin

text \<open>
  \<open>crates/dynamo/src/{engine,config}.rs\<close>: the adapter that offers a worker to the Dynamo runtime.

  Dynamo's own types are not of this program. A preprocessed request is the record of the fields the adapter reads,
  with payloads it only tests for presence left opaque; an output is the call that builds it. The context's
  \<open>is_stopped\<close> and the clock are arguments of each poll. A request's deadline is infinite, and no operation called
  here reads it; it is the argument \<open>never\<close>.
\<close>

subsection \<open>Configuration\<close>

record dynamo_engine_config =
  de_model :: string
  served_model_name :: "string option"
  default_max_tokens :: nat

definition default_dynamo_config :: dynamo_engine_config where
  "default_dynamo_config = \<lparr>de_model = ''trtllm'', served_model_name = None, default_max_tokens = 200\<rparr>"

datatype backend_error = EngineShutdown | InvalidArgument | UnknownBackend

type_synonym dynamo_error = "backend_error \<times> string"

definition engine_error :: "string \<Rightarrow> dynamo_error" where
  "engine_error m = (EngineShutdown, m)"

definition invalid_request :: "string \<Rightarrow> dynamo_error" where
  "invalid_request m = (InvalidArgument, m)"

definition transport_failure :: "transport_error \<Rightarrow> dynamo_error" where
  "transport_failure e = (UnknownBackend, transport_error_str e)"

subsection \<open>Requests\<close>

record stop_conditions =
  sc_max_tokens :: "nat option"
  stop :: "string list option"
  stop_token_ids :: "token_id list option"
  stop_token_ids_hidden :: "token_id list option"
  stop_token_ids_visible :: "token_id list option"
  min_tokens :: "nat option"
  max_thinking_tokens :: "nat option"
  sc_ignore_eos :: "bool option"

record 'p sampling_options =
  so_n :: "nat option"
  best_of :: "nat option"
  use_beam_search :: "bool option"
  length_penalty :: "real option"
  guided_decoding :: "'p option"
  so_temperature :: "real option"
  so_top_p :: "real option"
  so_top_k :: "int option"
  so_seed :: "int option"
  repetition_penalty :: "real option"
  presence_penalty :: "real option"
  frequency_penalty :: "real option"
  min_p :: "real option"
  include_stop_str_in_output :: "bool option"

record output_options =
  logprobs :: "nat option"
  prompt_logprobs :: "nat option"
  skip_special_tokens :: "bool option"
  formatted_prompt :: "bool option"
  return_tokens_as_token_ids :: "bool option"

text \<open>\<open>unsupported_fields\<close> holds the nine optional fields of the first test of \<open>reject_unsupported_request\<close>, in its order.\<close>

record 'p preprocessed_request =
  token_ids :: "token_id list"
  pr_stop_conditions :: stop_conditions
  pr_sampling_options :: "'p sampling_options"
  pr_output_options :: output_options
  request_timestamp_ms :: "millis option"
  unsupported_fields :: "'p option list"

type_synonym json_map = "(string, json) hmap"

definition reject_unsupported_request :: "'p preprocessed_request \<Rightarrow> dynamo_error + unit" where
  "reject_unsupported_request r =
    (let sc = pr_stop_conditions r; so = pr_sampling_options r; oo = pr_output_options r
     in if \<exists>f \<in> set (unsupported_fields r). f \<noteq> None
        then Inl (invalid_request ''multimodal, disaggregated, or backend extra request fields are not supported by the HTTP worker'')
        else if stop_token_ids_visible sc \<notin> {None, Some []}
        then Inl (invalid_request ''stop_token_ids_visible is not supported by TensorRT-LLM worker'')
        else if so_n so \<notin> {None, Some 1} \<or> best_of so \<notin> {None, Some 1}
        then Inl (invalid_request ''only one output sequence is supported by the streaming worker'')
        else if use_beam_search so = Some True
        then Inl (invalid_request ''beam search is not supported by the streaming worker'')
        else if length_penalty so \<noteq> None \<or> guided_decoding so \<noteq> None
        then Inl (invalid_request ''length penalty and guided decoding are not supported by the streaming worker'')
        else if logprobs oo \<noteq> None \<or> prompt_logprobs oo \<noteq> None \<or> formatted_prompt oo \<noteq> None \<or> return_tokens_as_token_ids oo \<noteq> None
        then Inl (invalid_request ''requested logprob or formatted-output controls are not supported by the streaming worker'')
        else Inr ())"

definition put_extra :: "string \<Rightarrow> json option \<Rightarrow> json_map \<Rightarrow> json_map" where
  "put_extra k v m = (case v of None \<Rightarrow> m | Some j \<Rightarrow> hm_insert k j m)"

definition token_number :: "token_id \<Rightarrow> json" where
  "token_number tok = JNumber (PosInt (unat tok))"

definition all_stop_ids :: "stop_conditions \<Rightarrow> token_id list" where
  "all_stop_ids sc = (case stop_token_ids sc of None \<Rightarrow> [] | Some ids \<Rightarrow> ids)
     @ (case stop_token_ids_hidden sc of None \<Rightarrow> [] | Some ids \<Rightarrow> ids)"

text \<open>The entries of \<open>extra\<close>, in the order in which they are inserted.\<close>

definition extra_entries :: "'p preprocessed_request \<Rightarrow> (string \<times> json option) list" where
  "extra_entries r =
    (let sc = pr_stop_conditions r; so = pr_sampling_options r; num = map_option (\<lambda>v. JNumber (Float v)); nat_num = map_option (\<lambda>n. JNumber (PosInt n))
     in [(''stop'', map_option (\<lambda>ss. JArray (map JString ss)) (stop sc)),
         (''stop_token_ids'', if all_stop_ids sc = [] then None else Some (JArray (map token_number (all_stop_ids sc)))),
         (''min_tokens'', nat_num (min_tokens sc)),
         (''thinking_token_budget'', nat_num (max_thinking_tokens sc)),
         (''repetition_penalty'', num (repetition_penalty so)),
         (''presence_penalty'', num (presence_penalty so)),
         (''frequency_penalty'', num (frequency_penalty so)),
         (''min_p'', num (min_p so)),
         (''include_stop_str_in_output'', map_option JBool (include_stop_str_in_output so)),
         (''skip_special_tokens'', map_option JBool (skip_special_tokens (pr_output_options r)))])"

definition or_value :: "'a option \<Rightarrow> 'a \<Rightarrow> 'a" where
  "or_value v d = (case v of None \<Rightarrow> d | Some x \<Rightarrow> x)"

subsection \<open>The engine\<close>

record dynamo_engine =
  dy_config :: dynamo_engine_config
  dy_next_request_id :: nat
  started :: bool
  active :: nat

definition dynamo_new :: "dynamo_engine_config \<Rightarrow> dynamo_engine" where
  "dynamo_new c = \<lparr>dy_config = c, dy_next_request_id = 0, started = False, active = 0\<rparr>"

definition convert_request :: "millis \<Rightarrow> millis \<Rightarrow> 'p preprocessed_request \<Rightarrow> dynamo_engine \<Rightarrow> (dynamo_error + json_map request) \<times> dynamo_engine" where
  "convert_request never now r g =
    (case reject_unsupported_request r of Inl e \<Rightarrow> (Inl e, g)
     | Inr _ \<Rightarrow>
        let sc = pr_stop_conditions r; so = pr_sampling_options r; ex = foldl (\<lambda>m (k, v). put_extra k v m) [] (extra_entries r); (rid, n) = next_id (dy_next_request_id g)
        in if \<exists>s. so_seed so = Some s \<and> s < 0 then (Inl (invalid_request ''sampling_options.seed must be non-negative''), g)
           else (Inr \<lparr>req_id = rid, prompt = token_ids r,
              params = \<lparr>max_tokens = or_value (sc_max_tokens sc) (default_max_tokens (dy_config g)), temperature = or_value (so_temperature so) 0,
                top_p = or_value (so_top_p so) 1, top_k = or_value (so_top_k so) (- 1), ignore_eos = or_value (sc_ignore_eos sc) False,
                seed = map_option nat (so_seed so), extra = ex\<rparr>,
              req_arrival_ms = or_value (request_timestamp_ms r) now, ttft_deadline_ms = never,
              prefill_worker = None, decode_worker = None\<rparr>,
             g\<lparr>dy_next_request_id := n\<rparr>))"

record engine_registration =
  er_model :: string
  er_served_model_name :: "string option"

definition dynamo_start :: "dynamo_engine \<Rightarrow> (dynamo_error + engine_registration) \<times> dynamo_engine" where
  "dynamo_start g =
    (if started g then (Inl (engine_error ''engine already started''), g)
     else (Inr \<lparr>er_model = de_model (dy_config g), er_served_model_name = served_model_name (dy_config g)\<rparr>, g\<lparr>started := True\<rparr>))"

definition dynamo_cleanup :: "dynamo_engine \<Rightarrow> dynamo_engine" where
  "dynamo_cleanup g = g\<lparr>started := False\<rparr>"

definition is_quiescent :: "dynamo_engine \<Rightarrow> bool" where
  "is_quiescent g \<longleftrightarrow> active g = 0"

text \<open>The counter of open streams is a \<open>usize\<close>: both atomic operations wrap.\<close>

definition guard_new :: "dynamo_engine \<Rightarrow> dynamo_engine" where
  "guard_new g = g\<lparr>active := (active g + 1) mod 2 ^ 64\<rparr>"

definition guard_drop :: "dynamo_engine \<Rightarrow> dynamo_engine" where
  "guard_drop g = g\<lparr>active := (active g + (2 ^ 64 - 1)) mod 2 ^ 64\<rparr>"

text \<open>\<open>generate\<close>, for the transport the factory opened.\<close>

definition dynamo_generate :: "(json_map, 't) transport_ops \<Rightarrow> transport_error + 't \<Rightarrow> millis \<Rightarrow> millis \<Rightarrow> 'p preprocessed_request \<Rightarrow> dynamo_engine \<Rightarrow>
    (dynamo_error + (json_map, 't) request_stream) \<times> dynamo_engine" where
  "dynamo_generate ops opened never now r g =
    (if \<not> started g then (Inl (engine_error ''generate called before start''), g)
     else case convert_request never now r g of
       (Inl e, g1) \<Rightarrow> (Inl e, g1)
     | (Inr q, g1) \<Rightarrow>
        (case Wire_Stream.start ops opened q of Inl e \<Rightarrow> (Inl (transport_failure e), g1) | Inr s \<Rightarrow> (Inr s, guard_new g1)))"

datatype engine_output =
    TokenOutput token_id string
  | CancelledOutput
  | LengthOutput
  | StopOutput
  | EosOutput
  | ContentFilterOutput
  | ErrorOutput string

fun to_dynamo_output :: "stream_output \<Rightarrow> engine_output" where
  "to_dynamo_output (Token tok w) = TokenOutput tok w"
| "to_dynamo_output (Terminal reason) =
    (if reason = ''cancelled'' then CancelledOutput
     else if reason = ''length'' then LengthOutput
     else if reason = ''eos'' then EosOutput
     else if reason = ''stop'' then StopOutput
     else if reason = ''content_filter'' then ContentFilterOutput
     else if reason = ''error'' then ErrorOutput ''worker reported an error''
     else if reason = ''timeout'' then ErrorOutput ''worker timed out''
     else ErrorOutput (''unsupported finish reason: '' @ reason))"

text \<open>One poll of the returned stream. The end of the stream drops the request stream and the guard.\<close>

definition poll_call :: "bool \<Rightarrow> millis \<Rightarrow> stream_call" where
  "poll_call stopped now = (if stopped then CancelAt now else NextAt now)"

definition poll_stream :: "(json_map, 't) transport_ops \<Rightarrow> (string \<Rightarrow> string + json) \<Rightarrow> bool \<Rightarrow> millis \<Rightarrow> (json_map, 't) request_stream \<Rightarrow>
    ((dynamo_error + engine_output) \<times> (json_map, 't) request_stream) option" where
  "poll_stream ops pj stopped now s =
    (case (if stopped then cancel_at ops now s else next_at ops pj now s) of
       (Inr (Some out), s') \<Rightarrow> Some (Inr (to_dynamo_output out), s')
     | (Inr None, _) \<Rightarrow> None
     | (Inl e, s') \<Rightarrow> Some (Inl (transport_failure e), s'))"

fun poll_all :: "(json_map, 't) transport_ops \<Rightarrow> (string \<Rightarrow> string + json) \<Rightarrow> (bool \<times> millis) list \<Rightarrow> (json_map, 't) request_stream \<Rightarrow>
    (dynamo_error + engine_output) list \<times> (json_map, 't) request_stream option" where
  "poll_all ops pj [] s = ([], Some s)"
| "poll_all ops pj ((stopped, now) # ps) s =
    (case poll_stream ops pj stopped now s of None \<Rightarrow> ([], None)
     | Some (x, s') \<Rightarrow> (case poll_all ops pj ps s' of (xs, s'') \<Rightarrow> (x # xs, s'')))"

definition health_check_payload :: "dynamo_engine \<Rightarrow> json" where
  "health_check_payload g = JObject [(''model'', JString (de_model (dy_config g))), (''token_ids'', JArray [])]"

definition engine_control :: "string \<Rightarrow> dynamo_engine \<Rightarrow> json" where
  "engine_control control g =
    (if control = ''health'' then JObject [(''status'', JString ''ok''), (''active_requests'', JNumber (PosInt (active g)))]
     else JObject [(''status'', JString ''error''), (''message'', JString (''unsupported engine control: '' @ control))])"

subsection \<open>Open streams\<close>

text \<open>The runtime's calls, in any order: the engine and the streams it has handed out that are not dropped.\<close>

inductive dynamo_step :: "(json_map, 't) transport_ops \<Rightarrow> (string \<Rightarrow> string + json) \<Rightarrow>
    dynamo_engine \<times> (json_map, 't) request_stream list \<Rightarrow> dynamo_engine \<times> (json_map, 't) request_stream list \<Rightarrow> bool"
  for ops :: "(json_map, 't) transport_ops" and pj where
  dy_start: "dynamo_start g = (x, g') \<Longrightarrow> dynamo_step ops pj (g, ss) (g', ss)"
| dy_cleanup: "dynamo_step ops pj (g, ss) (dynamo_cleanup g, ss)"
| dy_generate: "dynamo_generate ops opened never now (r :: unit preprocessed_request) g = (Inr s, g') \<Longrightarrow> dynamo_step ops pj (g, ss) (g', ss @ [s])"
| dy_refuse: "dynamo_generate ops opened never now (r :: unit preprocessed_request) g = (Inl e, g') \<Longrightarrow> dynamo_step ops pj (g, ss) (g', ss)"
| dy_poll: "i < length ss \<Longrightarrow> poll_stream ops pj stopped now (ss ! i) = Some (x, s') \<Longrightarrow> dynamo_step ops pj (g, ss) (g, ss[i := s'])"
| dy_end: "i < length ss \<Longrightarrow> poll_stream ops pj stopped now (ss ! i) = None \<Longrightarrow>
    dynamo_step ops pj (g, ss) (guard_drop g, take i ss @ drop (Suc i) ss)"
| dy_drop: "i < length ss \<Longrightarrow> dynamo_step ops pj (g, ss) (guard_drop g, take i ss @ drop (Suc i) ss)"

inductive_cases dynamo_stepE: "dynamo_step ops pj x y"

definition dynamo_init :: "dynamo_engine \<times> (json_map, 't) request_stream list \<Rightarrow> bool" where
  "dynamo_init x \<longleftrightarrow> (\<exists>c. x = (dynamo_new c, []))"

text \<open>The counter is the number of open streams, and each of them is in a state of the life of a request.\<close>

definition dynamo_ok :: "dynamo_engine \<times> (json_map, 't) request_stream list \<Rightarrow> bool" where
  "dynamo_ok x \<longleftrightarrow> active (fst x) = length (snd x) mod 2 ^ 64 \<and> (\<forall>s \<in> set (snd x). \<exists>q l. represents q s l)"

lemma convert_request_active: "convert_request never now r g = (x, g') \<Longrightarrow> active g' = active g"
  by (auto simp: convert_request_def Let_def split: sum.splits if_splits prod.splits)

lemma dynamo_generate_active:
  assumes "dynamo_generate ops opened never now r g = (x, g')"
  shows "(\<exists>e. x = Inl e \<and> active g' = active g) \<or> (\<exists>s q. x = Inr s \<and> active g' = (active g + 1) mod 2 ^ 64 \<and> represents q s (Live []))"
proof (cases "started g")
  case True
  obtain y g1 where c: "convert_request never now r g = (y, g1)" by (cases "convert_request never now r g")
  show ?thesis
  proof (cases y)
    case (Inr q)
    then show ?thesis using assms True c convert_request_active [OF c] start_represents [of ops opened q]
      by (cases "Wire_Stream.start ops opened q") (auto simp: dynamo_generate_def guard_new_def)
  qed (use assms True c convert_request_active [OF c] in \<open>auto simp: dynamo_generate_def\<close>)
qed (use assms in \<open>auto simp: dynamo_generate_def engine_error_def\<close>)

lemma poll_is_a_call: "poll_stream ops pj stopped now s = (case do_call ops pj (poll_call stopped now) s of
    (Inr (Some out), s') \<Rightarrow> Some (Inr (to_dynamo_output out), s') | (Inr None, _) \<Rightarrow> None | (Inl e, s') \<Rightarrow> Some (Inl (transport_failure e), s'))"
  by (simp add: poll_stream_def poll_call_def)

lemma do_call_represents:
  assumes "represents q s l" "do_call ops pj c s = (x, s')"
  shows "\<exists>l'. represents q s' l'"
proof (cases "is_live l")
  case True
  then show ?thesis using do_call_refines(1) [of q s _ ops pj c x s'] assms by (cases l) auto
next
  case False
  then have "terminal s" using assms(1) by (simp add: represents_def)
  then show ?thesis using assms terminal_stays [of s ops pj c] by auto
qed

lemma poll_represents:
  assumes "represents q s l" "poll_stream ops pj stopped now s = Some (x, s')"
  shows "\<exists>l'. represents q s' l'"
proof -
  obtain y where "do_call ops pj (poll_call stopped now) s = (y, s')"
    using assms(2) by (auto simp: poll_is_a_call split: prod.splits sum.splits option.splits)
  then show ?thesis by (rule do_call_represents [OF assms(1)])
qed

lemma remove_length: "i < length ss \<Longrightarrow> Suc (length (take i ss @ drop (Suc i) ss)) = length ss"
  by simp

lemma counter_down: "(Suc n mod 2 ^ 64 + (2 ^ 64 - 1)) mod 2 ^ 64 = (n mod 2 ^ 64 :: nat)"
proof -
  have "(Suc n mod 2 ^ 64 + (2 ^ 64 - 1)) mod 2 ^ 64 = (Suc n + (2 ^ 64 - 1)) mod (2 ^ 64 :: nat)" by (rule mod_add_left_eq)
  also have "Suc n + (2 ^ 64 - 1) = n + (2 ^ 64 :: nat)" by simp
  finally show ?thesis by simp
qed

lemma drop_ok:
  assumes "dynamo_ok (g, ss)" "i < length ss"
  shows "dynamo_ok (guard_drop g, take i ss @ drop (Suc i) ss)"
  using assms remove_length [OF assms(2)] counter_down [of "length (take i ss @ drop (Suc i) ss)"]
  by (auto simp: dynamo_ok_def guard_drop_def dest: in_set_takeD in_set_dropD)

lemma dynamo_step_ok:
  assumes "dynamo_ok x" "dynamo_step ops pj x y"
  shows "dynamo_ok y"
  using assms(2)
proof (cases rule: dynamo_step.cases)
  case (dy_start g x g' ss)
  then show ?thesis using assms(1) by (auto simp: dynamo_ok_def dynamo_start_def split: if_splits)
next
  case (dy_generate opened never now r g s g' ss)
  then show ?thesis using assms(1) dynamo_generate_active [OF dy_generate(3)] by (auto simp: dynamo_ok_def mod_Suc_eq)
next
  case (dy_refuse opened never now r g e g' ss)
  then show ?thesis using assms(1) dynamo_generate_active [OF dy_refuse(3)] by (auto simp: dynamo_ok_def)
next
  case (dy_poll i ss stopped now x' s' g)
  obtain q l where "represents q (ss ! i) l" using assms(1) dy_poll(1,3) by (force simp: dynamo_ok_def)
  from poll_represents [OF this dy_poll(4)] show ?thesis using assms(1) dy_poll(1,2)
    by (auto simp: dynamo_ok_def dest!: set_update_subset_insert [THEN subsetD])
next
  case (dy_cleanup g ss)
  then show ?thesis using assms(1) by (simp add: dynamo_ok_def dynamo_cleanup_def)
next
  case (dy_end i ss stopped now g)
  then show ?thesis using assms(1) drop_ok by blast
next
  case (dy_drop i ss g)
  then show ?thesis using assms(1) drop_ok by blast
qed

interpretation dynamo_sys: invariant_system dynamo_init "dynamo_step ops pj" dynamo_ok
proof
  show "dynamo_ok x" if "dynamo_init x" for x :: "dynamo_engine \<times> (json_map, 'a) request_stream list"
    using that by (auto simp: dynamo_init_def dynamo_ok_def dynamo_new_def)
  show "dynamo_ok y" if "dynamo_ok x" "dynamo_step ops pj x y" for x y using dynamo_step_ok that .
qed

text \<open>C18. The engine says it is quiescent exactly when no stream is open. Whatever the runtime calls in whatever order -
  starting and cleaning up, requests accepted or refused, polls with or without a stop, streams that end and
  streams dropped in the middle - the counter of active requests is the number of streams handed out and not yet dropped, and
  never wraps below zero.\<close>

theorem quiescent_iff_no_open_stream:
  assumes "dynamo_init x0" "(dynamo_step ops pj)\<^sup>*\<^sup>* x0 (g, ss)" "length ss < 2 ^ 64"
  shows "active g = length ss \<and> is_quiescent g = (ss = [])"
  using dynamo_sys.reachable_inv [OF assms(1,2)] assms(3) by (simp add: dynamo_ok_def is_quiescent_def)

subsection \<open>What the runtime gets\<close>

fun to_dynamo_result :: "stream_result \<Rightarrow> dynamo_error + engine_output" where
  "to_dynamo_result (Inr (Some out)) = Inr (to_dynamo_output out)"
| "to_dynamo_result (Inl e) = Inl (transport_failure e)"
| "to_dynamo_result (Inr None) = Inl (UnknownBackend, [])"

lemma poll_all_calls:
  "fst (poll_all ops pj ps s) =
    map to_dynamo_result (takeWhile (\<lambda>x. x \<noteq> Inr None) (fst (stream_calls ops pj (map (\<lambda>(b, t). poll_call b t) ps) s)))"
proof (induction ps arbitrary: s)
  case (Cons p ps)
  obtain b t where p: "p = (b, t)" by (cases p)
  obtain x s' where x: "do_call ops pj (poll_call b t) s = (x, s')" by (cases "do_call ops pj (poll_call b t) s")
  show ?case using Cons.IH [of s'] x by (cases x rule: to_dynamo_result.cases) (auto simp: p poll_is_a_call split: prod.splits)
qed simp

text \<open>Tokens, then at most one other output or error.\<close>

fun ends_once :: "(dynamo_error + engine_output) list \<Rightarrow> bool" where
  "ends_once [] = True"
| "ends_once (x # xs) = ((\<exists>tok w. x = Inr (TokenOutput tok w)) \<and> ends_once xs \<or> xs = [])"

lemma well_ended_ends_once: "well_ended rs \<Longrightarrow> ends_once (map to_dynamo_result (takeWhile (\<lambda>x. x \<noteq> Inr None) rs))"
proof (induction rs rule: well_ended.induct)
  case (3 reason rs)
  then show ?case by (cases rs) simp_all
next
  case (4 e rs)
  then show ?case by (cases rs) simp_all
qed simp_all

lemma poll_all_over: "snd (poll_all ops pj ps s) = None \<longleftrightarrow> Inr None \<in> set (fst (stream_calls ops pj (map (\<lambda>(b, t). poll_call b t) ps) s))"
proof (induction ps arbitrary: s)
  case (Cons p ps)
  obtain b t where p: "p = (b, t)" by (cases p)
  obtain x s' where x: "do_call ops pj (poll_call b t) s = (x, s')" by (cases "do_call ops pj (poll_call b t) s")
  show ?case using Cons.IH [of s'] x by (cases x rule: to_dynamo_result.cases) (auto simp: p poll_is_a_call split: prod.splits)
qed simp

lemma stream_calls_snoc: "fst (stream_calls ops pj (cs @ [c]) s)
    = fst (stream_calls ops pj cs s) @ [fst (do_call ops pj c (snd (stream_calls ops pj cs s)))]"
  by (induction cs arbitrary: s) (simp_all add: case_prod_unfold)

lemma last_after_terminal:
  "well_ended (map (\<lambda>(_, tok, w). Inr (Some (Token tok w))) toks @ [Inr (Some (Terminal reason)), x]) \<Longrightarrow> x = Inr None"
  by (induction toks) auto

lemma convert_never: "req_id q = dy_next_request_id g" "prompt q = token_ids r" if "convert_request never now r g = (Inr q, g')"
  using that by (auto simp: convert_request_def Let_def next_id_def split: sum.splits if_splits prod.splits)

text \<open>C17. Dynamo gets what the worker sent. A started engine that accepts a request posts its token ids to the worker under the next
  request number. When the worker answers one frame per token and a frame with its reason, cut anywhere by the network, the
  stream the runtime polls yields exactly those tokens in order, then the output of that reason, and then
  ends; and whatever the worker answers and whenever the runtime stops the request, the stream
  never yields anything after its first output that is not a token.\<close>

theorem dynamo_gets_what_the_worker_sent:
  assumes ok: "started g" "convert_request never now r g = (Inr q, g1)"
    and answer: "serve url (from_request q) = Streaming (map Inr cs)"
    and bytes: "concat cs = server_bytes (map fst toks @ [fin])"
    and token: "\<forall>(d, tok, w) \<in> set toks. payload_line d \<and> pj d = Inr (token_json tok w)"
    and fin: "payload_line fin" "pj fin = Inr (finish_json reason)"
    and len: "length ts = length toks"
  shows "\<exists>s. dynamo_generate (http_ops pj serve) (Inr (http_open url)) never now r g = (Inr s, guard_new g1)
    \<and> tr_request_id (from_request q) = request_id_str (dy_next_request_id g) \<and> prompt_token_ids (from_request q) = token_ids r
    \<and> poll_all (http_ops pj serve) pj (map (Pair False) (ts @ [fin_at, end_at])) s
        = (map (\<lambda>(_, tok, w). Inr (TokenOutput tok w)) toks @ [Inr (to_dynamo_output (Terminal reason))], None)
    \<and> (\<forall>ps. ends_once (fst (poll_all (http_ops pj serve) pj ps s)))"
proof -
  let ?ops = "http_ops pj serve" and ?out = "map (\<lambda>(_, tok, w). Inr (Some (Token tok w))) toks @ [Inr (Some (Terminal reason))]"
  obtain s where s: "start ?ops (Inr (http_open url)) q = Inr s"
    using start_http [where serve = serve and url = url and r = q and pj = pj, OF answer] by blast
  have gen: "dynamo_generate ?ops (Inr (http_open url)) never now r g = (Inr s, guard_new g1)"
    using ok s by (simp add: dynamo_generate_def)
  have wf: "well_ended (fst (stream_calls ?ops pj calls s))" for calls
    using stream_calls_refine [OF start_represents [OF s], of ?ops pj calls] by (cases "stream_calls ?ops pj calls s") auto
  let ?calls = "map NextAt (ts @ [fin_at]) @ [NextAt end_at]"
  have out: "fst (stream_calls ?ops pj (map NextAt (ts @ [fin_at])) s) = ?out"
    by (rule delivered_results [OF answer bytes token fin len s])
  obtain x where all: "fst (stream_calls ?ops pj ?calls s) = ?out @ [x]" unfolding stream_calls_snoc out by blast
  then have x: "x = Inr None" using last_after_terminal [of toks reason x] wf [of ?calls] by simp
  have calls: "map (\<lambda>(b, t). poll_call b t) (map (Pair False) (ts @ [fin_at, end_at])) = ?calls" by (simp add: poll_call_def)
  have "fst (poll_all ?ops pj (map (Pair False) (ts @ [fin_at, end_at])) s) = map to_dynamo_result ?out"
    unfolding poll_all_calls calls all x by (induction toks) auto
  also have "\<dots> = map (\<lambda>(_, tok, w). Inr (TokenOutput tok w)) toks @ [Inr (to_dynamo_output (Terminal reason))]"
    by (auto simp del: to_dynamo_output.simps(2))
  finally have polled: "poll_all ?ops pj (map (Pair False) (ts @ [fin_at, end_at])) s
      = (map (\<lambda>(_, tok, w). Inr (TokenOutput tok w)) toks @ [Inr (to_dynamo_output (Terminal reason))], None)"
    using poll_all_over [of ?ops pj "map (Pair False) (ts @ [fin_at, end_at])" s] unfolding calls all x
    by (intro prod_eqI) simp_all
  have "ends_once (fst (poll_all ?ops pj ps s))" for ps unfolding poll_all_calls by (rule well_ended_ends_once [OF wf])
  then show ?thesis using gen polled convert_never [OF ok(2)] by (auto simp: from_request_def)
qed

subsection \<open>A concrete exchange\<close>

definition demo_preprocessed :: "unit preprocessed_request" where
  "demo_preprocessed = \<lparr>token_ids = [1, 2, 3],
     pr_stop_conditions = \<lparr>sc_max_tokens = Some 9, stop = Some [''END''], stop_token_ids = Some [9], stop_token_ids_hidden = Some [10],
       stop_token_ids_visible = None, min_tokens = Some 2, max_thinking_tokens = None, sc_ignore_eos = Some False\<rparr>,
     pr_sampling_options = \<lparr>so_n = None, best_of = None, use_beam_search = None, length_penalty = None, guided_decoding = None,
       so_temperature = None, so_top_p = None, so_top_k = Some 8, so_seed = Some 4, repetition_penalty = None, presence_penalty = None,
       frequency_penalty = None, min_p = None, include_stop_str_in_output = Some True\<rparr>,
     pr_output_options = \<lparr>logprobs = None, prompt_logprobs = None, skip_special_tokens = Some False, formatted_prompt = None,
       return_tokens_as_token_ids = None\<rparr>,
     request_timestamp_ms = Some 5, unsupported_fields = replicate 9 None\<rparr>"

definition demo_engine :: dynamo_engine where
  "demo_engine = (dynamo_new default_dynamo_config)\<lparr>started := True\<rparr>"

definition demo_worker :: "string \<Rightarrow> json_map transport_request \<Rightarrow> http_response" where
  "demo_worker url q = Streaming (map Inr (map (\<lambda>c. [c]) (server_bytes [''five'', ''eos''])))"

lemma demo_converts: "\<exists>q g. convert_request 0 1 demo_preprocessed demo_engine = (Inr q, g)"
  by (simp add: convert_request_def reject_unsupported_request_def demo_preprocessed_def demo_engine_def Let_def next_id_def)

lemma demo_dynamo_start: "dynamo_start (dynamo_new default_dynamo_config) =
    (Inr \<lparr>er_model = ''trtllm'', er_served_model_name = None\<rparr>, demo_engine)"
  by (simp add: dynamo_start_def dynamo_new_def default_dynamo_config_def demo_engine_def)

lemma demo_accepted:
  "\<exists>s g. dynamo_generate (http_ops demo_parse demo_worker) (Inr (http_open ''u'')) 0 1 demo_preprocessed demo_engine = (Inr s, g)"
proof -
  obtain q g where q: "convert_request 0 1 demo_preprocessed demo_engine = (Inr q, g)" using demo_converts by blast
  have "\<exists>s. start (http_ops demo_parse demo_worker) (Inr (http_open ''u'')) q = Inr s"
    using start_http [where serve = demo_worker and url = "''u''" and r = q and pj = demo_parse] by (auto simp: demo_worker_def)
  then show ?thesis using q by (auto simp: dynamo_generate_def demo_engine_def)
qed

theorem dynamo_gets_what_the_worker_sent_witness:
  "\<exists>s g. dynamo_generate (http_ops demo_parse demo_worker) (Inr (http_open ''u'')) 0 1 demo_preprocessed demo_engine = (Inr s, g)
    \<and> poll_all (http_ops demo_parse demo_worker) demo_parse [(False, 1), (False, 2), (False, 3)] s
      = ([Inr (TokenOutput 5 ''a''), Inr EosOutput], None)"
proof -
  obtain q g where q: "convert_request 0 1 demo_preprocessed demo_engine = (Inr q, g)" using demo_converts by blast
  have "started demo_engine" by (simp add: demo_engine_def)
  from dynamo_gets_what_the_worker_sent [OF this q, of demo_worker "''u''" "map (\<lambda>c. [c]) (server_bytes [''five'', ''eos''])"
      "[(''five'', 5, ''a'')]" "''eos''" demo_parse "''eos''" "[1]" 2 3] demo_lines
  show ?thesis by (auto simp: demo_worker_def demo_parse_def)
qed

theorem quiescent_iff_no_open_stream_witness:
  "\<exists>g s. (dynamo_step (http_ops demo_parse demo_worker) demo_parse)\<^sup>*\<^sup>* (dynamo_new default_dynamo_config, []) (g, [s])
    \<and> active g = 1 \<and> \<not> is_quiescent g"
proof -
  let ?step = "dynamo_step (http_ops demo_parse demo_worker) demo_parse"
  have "?step (dynamo_new default_dynamo_config, []) (demo_engine, [])" by (rule dy_start [OF demo_dynamo_start])
  moreover obtain s g where "dynamo_generate (http_ops demo_parse demo_worker) (Inr (http_open ''u'')) 0 1 demo_preprocessed demo_engine = (Inr s, g)"
    using demo_accepted by blast
  then have "?step (demo_engine, []) (g, [s])" using dy_generate [where ss = "[]"] by fastforce
  ultimately have run: "?step\<^sup>*\<^sup>* (dynamo_new default_dynamo_config, []) (g, [s])" by simp
  have "dynamo_init (dynamo_new default_dynamo_config, [])" by (auto simp: dynamo_init_def)
  from quiescent_iff_no_open_stream [OF this run] run show ?thesis by auto
qed

end
