(* ===== verification/Py_Host.thy ===== *)
theory Py_Host
  imports Prelude
begin

text \<open>
  \<open>crates/pyhost/src/lib.rs\<close>: the thread that owns an embedded Python interpreter and answers commands of the tasks of the
  control plane.

  The interpreter is a parameter: the record \<open>python\<close> of the operations the host calls, on a state \<open>'g\<close> that stands for the process-wide
  interpreter with the host's namespace, and objects \<open>'o\<close>. An error is the chain of its contexts, the cause last. A channel is
  the list of what was sent and not received yet.
\<close>

subsection \<open>The interpreter\<close>

record ('g, 'o) python =
  py_import :: "string \<Rightarrow> 'g \<Rightarrow> (string + 'o) \<times> 'g"
  py_getattr :: "'o \<Rightarrow> string \<Rightarrow> 'g \<Rightarrow> (string + 'o) \<times> 'g"
  py_call :: "'o \<Rightarrow> 'o list \<Rightarrow> 'g \<Rightarrow> (string + 'o) \<times> 'g"
  py_eval :: "string \<Rightarrow> 'g \<Rightarrow> (string + 'o) \<times> 'g"
  py_run :: "string \<Rightarrow> 'g \<Rightarrow> (string + unit) \<times> 'g"
  extract_int :: "'o \<Rightarrow> 'g \<Rightarrow> string + int"
  extract_str :: "'o \<Rightarrow> 'g \<Rightarrow> string + string"
  extract_bool :: "'o \<Rightarrow> 'g \<Rightarrow> string + bool"
  of_python_int :: "int \<Rightarrow> 'o"
  of_python_str :: "string \<Rightarrow> 'o"

type_synonym host_error = "string list"

text \<open>\<open>.context(c)?\<close> on a call, on an extraction, and the sequence of two steps.\<close>

definition context_of :: "string \<Rightarrow> (string + 'a) \<times> 'g \<Rightarrow> (host_error + 'a) \<times> 'g" where
  "context_of c r = (case r of (Inl e, g) \<Rightarrow> (Inl [c, e], g) | (Inr x, g) \<Rightarrow> (Inr x, g))"

definition and_then_py :: "(host_error + 'a) \<times> 'g \<Rightarrow> ('a \<Rightarrow> 'g \<Rightarrow> (host_error + 'b) \<times> 'g) \<Rightarrow> (host_error + 'b) \<times> 'g" where
  "and_then_py r f = (case r of (Inl e, g) \<Rightarrow> (Inl e, g) | (Inr x, g) \<Rightarrow> f x g)"

definition getattr_ctx :: "('g, 'o) python \<Rightarrow> string \<Rightarrow> 'o \<Rightarrow> string \<Rightarrow> 'g \<Rightarrow> (host_error + 'o) \<times> 'g" where
  "getattr_ctx py c obj name g = context_of c (py_getattr py obj name g)"

text \<open>\<open>call_method\<close>: an attribute, called; both failures have the context of the call.\<close>

definition call_method :: "('g, 'o) python \<Rightarrow> string \<Rightarrow> 'o \<Rightarrow> string \<Rightarrow> 'o list \<Rightarrow> 'g \<Rightarrow> (host_error + 'o) \<times> 'g" where
  "call_method py c obj name args g =
    and_then_py (context_of c (py_getattr py obj name g)) (\<lambda>f g. context_of c (py_call py f args g))"

definition extract_ctx :: "string \<Rightarrow> ('o \<Rightarrow> 'g \<Rightarrow> string + 'a) \<Rightarrow> 'o \<Rightarrow> 'g \<Rightarrow> (host_error + 'a) \<times> 'g" where
  "extract_ctx c ex x g = context_of c (ex x g, g)"

subsection \<open>Commands\<close>

datatype cmd = Eval string | EvalStr string | Exec string | Call string string int | Ping | Shutdown

datatype answer = IntAnswer int | StrAnswer string | UnitAnswer

text \<open>\<open>CString::new\<close> refuses a text with a NUL byte and says where the first one is; the context shows the code as \<open>Debug\<close> prints a text: in
  quotes, with quotes, backslashes and control characters escaped. Bytes outside ASCII are shown as they are, which is what the
  standard library does with the characters it takes for printable.\<close>

definition hex_digit :: "nat \<Rightarrow> char" where
  "hex_digit n = ''0123456789abcdef'' ! n"

definition debug_char :: "char \<Rightarrow> string" where
  "debug_char c =
    (if c = CHR 0x00 then [CHR 0x5C, CHR ''0'']
     else if c = CHR 0x09 then [CHR 0x5C, CHR ''t'']
     else if c = CHR 0x0A then [CHR 0x5C, CHR ''n'']
     else if c = CHR 0x0D then [CHR 0x5C, CHR ''r'']
     else if c \<in> {CHR 0x22, CHR 0x5C} then [CHR 0x5C, c]
     else let n = of_char c :: nat in
       if n < 16 then [CHR 0x5C] @ ''u{'' @ [hex_digit n] @ ''}''
       else if n < 32 \<or> n = 127 then [CHR 0x5C] @ ''u{'' @ [hex_digit (n div 16), hex_digit (n mod 16)] @ ''}''
       else [c])"

definition debug_str :: "string \<Rightarrow> string" where
  "debug_str s = CHR 0x22 # concat (map debug_char s) @ [CHR 0x22]"

definition c_string :: "string \<Rightarrow> string \<Rightarrow> 'g \<Rightarrow> (host_error + string) \<times> 'g" where
  "c_string what code g =
    (if CHR 0x00 \<in> set code
     then (Inl [what @ '' code contained an embedded NUL byte: '' @ debug_str code,
                ''nul byte found in provided data at position: '' @ nat_str (length (takeWhile (\<lambda>c. c \<noteq> CHR 0x00) code))], g)
     else (Inr code, g))"

lemma debug_shows_the_code: "debug_str (''a'' @ [CHR 0x00, CHR 0x22, CHR 0x1F]) = CHR 0x22 # ''a'' @ [CHR 0x5C] @ ''0'' @ [CHR 0x5C, CHR 0x22, CHR 0x5C] @ ''u{1f}'' @ [CHR 0x22]"
  by code_simp

definition eval_expr :: "('g, 'o) python \<Rightarrow> string \<Rightarrow> 'g \<Rightarrow> (host_error + int) \<times> 'g" where
  "eval_expr py code g =
    and_then_py (c_string ''eval'' code g) (\<lambda>c g.
    and_then_py (context_of ''Python::eval'' (py_eval py c g)) (extract_ctx ''eval result did not extract as i64'' (extract_int py)))"

definition eval_str_expr :: "('g, 'o) python \<Rightarrow> string \<Rightarrow> 'g \<Rightarrow> (host_error + string) \<times> 'g" where
  "eval_str_expr py code g =
    and_then_py (c_string ''eval'' code g) (\<lambda>c g.
    and_then_py (context_of ''Python::eval'' (py_eval py c g)) (extract_ctx ''eval result did not extract as String'' (extract_str py)))"

definition exec_stmt :: "('g, 'o) python \<Rightarrow> string \<Rightarrow> 'g \<Rightarrow> (host_error + unit) \<times> 'g" where
  "exec_stmt py code g = and_then_py (c_string ''exec'' code g) (\<lambda>c g. context_of ''Python::run'' (py_run py c g))"

definition int_str :: "int \<Rightarrow> string" where
  "int_str i = (if i < 0 then ''-'' @ nat_str (nat (- i)) else nat_str (nat i))"

definition call_func :: "('g, 'o) python \<Rightarrow> string \<Rightarrow> string \<Rightarrow> int \<Rightarrow> 'g \<Rightarrow> (host_error + int) \<times> 'g" where
  "call_func py modul func arg g =
    (let shown = modul @ ''.'' @ func @ ''('' @ int_str arg @ '')''
     in and_then_py (context_of (''import '' @ modul) (py_import py modul g)) (\<lambda>m g.
        and_then_py (getattr_ctx py (modul @ ''.'' @ func) m func g) (\<lambda>f g.
        and_then_py (context_of shown (py_call py f [of_python_int py arg] g))
          (extract_ctx (shown @ '' did not return an int'') (extract_int py)))))"

text \<open>The order of the imports is what makes the second one succeed.\<close>

definition insert_path :: "('g, 'o) python \<Rightarrow> string option \<Rightarrow> 'g \<Rightarrow> (host_error + unit) \<times> 'g" where
  "insert_path py site_packages g =
    (case site_packages of None \<Rightarrow> (Inr (), g)
     | Some p \<Rightarrow>
        and_then_py (context_of ''import sys'' (py_import py ''sys'' g)) (\<lambda>sys g.
        and_then_py (getattr_ctx py ''sys.path'' sys ''path'' g) (\<lambda>path g.
        and_then_py (call_method py ''sys.path.insert(0, site_packages)'' path ''insert'' [of_python_int py 0, of_python_str py p] g)
          (\<lambda>_ g. (Inr (), g)))))"

definition set_device :: "('g, 'o) python \<Rightarrow> nat \<Rightarrow> 'o \<Rightarrow> bool \<Rightarrow> 'g \<Rightarrow> (host_error + unit) \<times> 'g" where
  "set_device py rank cuda available g =
    (if available then and_then_py (call_method py (''torch.cuda.set_device('' @ nat_str rank @ '')'') cuda ''set_device'' [of_python_int py (int rank)] g)
        (\<lambda>_ g. (Inr (), g))
     else (Inr (), g))"

definition initialize :: "('g, 'o) python \<Rightarrow> nat \<Rightarrow> string option \<Rightarrow> 'g \<Rightarrow> (host_error + string) \<times> 'g" where
  "initialize py rank site_packages g =
    and_then_py (insert_path py site_packages g) (\<lambda>_ g.
    and_then_py (context_of ''import torch'' (py_import py ''torch'' g)) (\<lambda>torch g.
    and_then_py (getattr_ctx py ''torch.cuda'' torch ''cuda'' g) (\<lambda>cuda g.
    and_then_py (call_method py ''torch.cuda.is_available()'' cuda ''is_available'' [] g) (\<lambda>av g.
    and_then_py (extract_ctx ''torch.cuda.is_available() did not return a bool'' (extract_bool py) av g) (\<lambda>available g.
    and_then_py (set_device py rank cuda available g) (\<lambda>_ g.
    and_then_py (context_of ''import tensorrt_llm'' (py_import py ''tensorrt_llm'' g)) (\<lambda>trt g.
    and_then_py (getattr_ctx py ''tensorrt_llm.__version__'' trt ''__version__'' g)
      (extract_ctx ''tensorrt_llm.__version__ was not a string'' (extract_str py)))))))))"

definition as_answer :: "('a \<Rightarrow> answer) \<Rightarrow> (host_error + 'a) \<times> 'g \<Rightarrow> (host_error + answer) \<times> 'g" where
  "as_answer f r = (case r of (Inl e, g) \<Rightarrow> (Inl e, g) | (Inr x, g) \<Rightarrow> (Inr (f x), g))"

text \<open>The arms of the loop other than \<open>Shutdown\<close>, which sends no reply.\<close>

fun answer_cmd :: "('g, 'o) python \<Rightarrow> cmd \<Rightarrow> 'g \<Rightarrow> (host_error + answer) \<times> 'g" where
  "answer_cmd py Ping g = (Inr UnitAnswer, g)"
| "answer_cmd py (Eval code) g = as_answer IntAnswer (eval_expr py code g)"
| "answer_cmd py (EvalStr code) g = as_answer StrAnswer (eval_str_expr py code g)"
| "answer_cmd py (Exec code) g = as_answer (\<lambda>_. UnitAnswer) (exec_stmt py code g)"
| "answer_cmd py (Call modul func arg) g = as_answer IntAnswer (call_func py modul func arg g)"
| "answer_cmd py Shutdown g = (Inr UnitAnswer, g)"

subsection \<open>The host\<close>

text \<open>Each sent command has a ticket, the number of commands sent before it; \<open>replies\<close> holds what its sender has received: the answer, or
  the error of a reply channel that was dropped.\<close>

record 'g py_host =
  interp :: 'g
  ph_running :: bool
  ph_queue :: "(nat \<times> cmd) list"
  sent :: nat
  replies :: "(nat \<times> (host_error + answer)) list"
  trtllm_version :: string

definition host_start :: "('g, 'o) python \<Rightarrow> nat \<Rightarrow> string option \<Rightarrow> 'g \<Rightarrow> host_error + 'g py_host" where
  "host_start py rank site_packages g =
    (case initialize py rank site_packages g of
       (Inl e, _) \<Rightarrow> Inl e
     | (Inr v, g') \<Rightarrow> Inr \<lparr>interp = g', ph_running = True, ph_queue = [], sent = 0, replies = [], trtllm_version = v\<rparr>)"

text \<open>\<open>PyHost::call\<close> up to its await: the ticket, or the error when the thread is gone.\<close>

definition send_cmd :: "cmd \<Rightarrow> 'g py_host \<Rightarrow> (host_error + nat) \<times> 'g py_host" where
  "send_cmd c h =
    (if \<not> ph_running h then (Inl [''pyhost worker thread has exited''], h)
     else (Inr (sent h), h\<lparr>ph_queue := ph_queue h @ [(sent h, c)], sent := sent h + 1\<rparr>))"

text \<open>The methods, up to the await.\<close>

definition ping :: "'g py_host \<Rightarrow> (host_error + nat) \<times> 'g py_host" where
  "ping = send_cmd Ping"

definition eval_int :: "string \<Rightarrow> 'g py_host \<Rightarrow> (host_error + nat) \<times> 'g py_host" where
  "eval_int code = send_cmd (Eval code)"

definition call_int :: "string \<Rightarrow> string \<Rightarrow> int \<Rightarrow> 'g py_host \<Rightarrow> (host_error + nat) \<times> 'g py_host" where
  "call_int modul func arg = send_cmd (Call modul func arg)"

definition eval_str :: "string \<Rightarrow> 'g py_host \<Rightarrow> (host_error + nat) \<times> 'g py_host" where
  "eval_str code = send_cmd (EvalStr code)"

definition exec :: "string \<Rightarrow> 'g py_host \<Rightarrow> (host_error + nat) \<times> 'g py_host" where
  "exec code = send_cmd (Exec code)"

text \<open>One turn of the loop. After \<open>Shutdown\<close> the thread ends: its receiver is dropped with the commands still queued, and with
  them their reply channels.\<close>

definition host_turn :: "('g, 'o) python \<Rightarrow> 'g py_host \<Rightarrow> 'g py_host" where
  "host_turn py h =
    (case ph_queue h of [] \<Rightarrow> h
     | (k, c) # q \<Rightarrow>
        if c = Shutdown then h\<lparr>ph_running := False, ph_queue := [],
            replies := replies h @ map (\<lambda>(k, _). (k, Inl [''pyhost worker thread dropped the reply channel''])) q\<rparr>
        else (case answer_cmd py c (interp h) of (r, g) \<Rightarrow> h\<lparr>interp := g, ph_queue := q, replies := replies h @ [(k, r)]\<rparr>))"

text \<open>\<open>Drop\<close>: the last sender asks the thread to end and waits for it.\<close>

definition host_drop :: "('g, 'o) python \<Rightarrow> 'g py_host \<Rightarrow> 'g py_host" where
  "host_drop py h = (let h1 = snd (send_cmd Shutdown h) in (host_turn py ^^ length (ph_queue h1)) h1)"

subsection \<open>One interpreter, in the order of the commands\<close>

text \<open>What the senders are promised: the answers of an interpreter that runs the commands one after the other in the order in
  which they were sent, and an error for every command sent before the thread ended but after the shutdown.\<close>

fun serve_log :: "('g, 'o) python \<Rightarrow> nat \<Rightarrow> cmd list \<Rightarrow> 'g \<Rightarrow> (nat \<times> (host_error + answer)) list" where
  "serve_log py k [] g = []"
| "serve_log py k (c # cs) g =
    (if c = Shutdown then map (\<lambda>j. (j, Inl [''pyhost worker thread dropped the reply channel''])) [Suc k..<Suc k + length cs]
     else (k, fst (answer_cmd py c g)) # serve_log py (Suc k) cs (snd (answer_cmd py c g)))"

definition run_log :: "('g, 'o) python \<Rightarrow> cmd list \<Rightarrow> 'g \<Rightarrow> 'g" where
  "run_log py cs g = fold (\<lambda>c g. snd (answer_cmd py c g)) cs g"

lemma serve_log_append:
  "Shutdown \<notin> set past \<Longrightarrow> serve_log py k (past @ rest) g = serve_log py k past g @ serve_log py (k + length past) rest (run_log py past g)"
  by (induction past arbitrary: k g) (auto simp: run_log_def)

text \<open>Sends by any task and turns of the thread, in any order, with the commands sent so far.\<close>

inductive host_step :: "('g, 'o) python \<Rightarrow> 'g py_host \<times> cmd list \<Rightarrow> 'g py_host \<times> cmd list \<Rightarrow> bool" for py :: "('g, 'o) python" where
  ph_send: "send_cmd c h = (Inr k, h') \<Longrightarrow> host_step py (h, cmds) (h', cmds @ [c])"
| ph_refuse: "send_cmd c h = (Inl e, h') \<Longrightarrow> host_step py (h, cmds) (h', cmds)"
| ph_turn: "host_step py (h, cmds) (host_turn py h, cmds)"

inductive_cases host_stepE: "host_step py x y"

definition host_init :: "'g \<Rightarrow> 'g py_host \<times> cmd list \<Rightarrow> bool" where
  "host_init g x \<longleftrightarrow> snd x = [] \<and> interp (fst x) = g \<and> ph_running (fst x) \<and> ph_queue (fst x) = [] \<and> sent (fst x) = 0 \<and> replies (fst x) = []"

definition host_ok :: "('g, 'o) python \<Rightarrow> 'g \<Rightarrow> 'g py_host \<times> cmd list \<Rightarrow> bool" where
  "host_ok py g x \<longleftrightarrow> (let h = fst x; cmds = snd x in
     if ph_running h then \<exists>past. cmds = past @ map snd (ph_queue h) \<and> Shutdown \<notin> set past \<and> replies h = serve_log py 0 past g
        \<and> interp h = run_log py past g \<and> sent h = length cmds \<and> map fst (ph_queue h) = [length past..<length cmds]
     else ph_queue h = [] \<and> replies h = serve_log py 0 cmds g)"

lemma send_ok:
  assumes "host_ok py g (h, cmds)" "send_cmd c h = (Inr k, h')"
  shows "host_ok py g (h', cmds @ [c])"
proof -
  have h: "ph_running h" "h' = h\<lparr>ph_queue := ph_queue h @ [(sent h, c)], sent := sent h + 1\<rparr>"
    using assms(2) by (auto simp: send_cmd_def split: if_splits)
  obtain past where d: "cmds = past @ map snd (ph_queue h)" "Shutdown \<notin> set past" "replies h = serve_log py 0 past g"
    "interp h = run_log py past g" "sent h = length cmds" "map fst (ph_queue h) = [length past..<length cmds]"
    using assms(1) h(1) by (auto simp: host_ok_def)
  have "length past \<le> length cmds" using d(1) by simp
  then show ?thesis using d h by (auto simp: host_ok_def intro!: exI [of _ past])
qed

lemma turn_ok:
  assumes "host_ok py g (h, cmds)"
  shows "host_ok py g (host_turn py h, cmds)"
proof (cases "ph_queue h")
  case (Cons kc q)
  obtain k c where kc: "kc = (k, c)" by (cases kc)
  have run: "ph_running h" using assms Cons by (auto simp: host_ok_def split: if_splits)
  then obtain past where d: "cmds = past @ map snd (ph_queue h)" "Shutdown \<notin> set past" "replies h = serve_log py 0 past g"
    "interp h = run_log py past g" "sent h = length cmds" "map fst (ph_queue h) = [length past..<length cmds]"
    using assms by (auto simp: host_ok_def)
  have lt: "length past < length cmds" using d(1) Cons by simp
  then have tickets: "k = length past" "map fst q = [Suc (length past)..<length cmds]"
    using d(6) Cons kc by (auto simp: upt_conv_Cons)
  show ?thesis
  proof (cases "c = Shutdown")
    case True
    have "map (\<lambda>(k, _). (k, Inl m)) q = map (\<lambda>j. (j, Inl m)) [Suc (length past)..<length cmds]" for m :: host_error
      unfolding tickets(2) [symmetric] by (simp add: case_prod_unfold)
    moreover have "length cmds = Suc (length past) + length q" using d(1) Cons by simp
    ultimately show ?thesis using True Cons kc d(1-3) serve_log_append [OF d(2), of py 0 "map snd (ph_queue h)" g]
      by (simp add: host_turn_def host_ok_def del: upt_Suc)
  next
    case False
    let ?past = "past @ [c]"
    obtain r g' where a: "answer_cmd py c (interp h) = (r, g')" by (cases "answer_cmd py c (interp h)")
    have "serve_log py 0 ?past g = replies h @ [(k, r)]" "run_log py ?past g = g'"
      using serve_log_append [OF d(2), of py 0 "[c]" g] False a d(3,4) tickets(1) by (simp_all add: run_log_def)
    then show ?thesis using run False Cons kc a d tickets(2) by (auto simp: host_turn_def host_ok_def intro!: exI [of _ ?past])
  qed
qed (use assms in \<open>simp add: host_turn_def\<close>)

lemma host_step_ok: "host_ok py g x \<Longrightarrow> host_step py x y \<Longrightarrow> host_ok py g y"
  by (erule host_stepE) (auto simp: send_ok turn_ok send_cmd_def split: if_splits)

interpretation host_sys: invariant_system "host_init g" "host_step py" "host_ok py g"
proof
  show "host_ok py g x" if "host_init g x" for x using that by (auto simp: host_init_def host_ok_def run_log_def)
  show "host_ok py g y" if "host_ok py g x" "host_step py x y" for x y by (rule host_step_ok [OF that])
qed

text \<open>C19. The embedded interpreter is used by one thread, in order. However the tasks of the control plane and the Python thread
  interleave, what the senders have received is an initial part of the answers a single interpreter gives when it
  runs the commands one after the other as they were sent, from the state initialisation left; an error in one command
  changes nothing for the next; once the queue is empty every command has been answered; and a command that
  was queued behind the shutdown gets an error instead of waiting for ever.\<close>

theorem python_commands_are_serialised:
  assumes "host_start py rank site_packages g0 = Inr h0" "(host_step py)\<^sup>*\<^sup>* (h0, []) (h, cmds)"
  shows "(\<exists>more. serve_log py 0 cmds (interp h0) = replies h @ more) \<and> (ph_queue h = [] \<longrightarrow> replies h = serve_log py 0 cmds (interp h0))"
proof -
  have "host_init (interp h0) (h0, [])" using assms(1) by (auto simp: host_start_def host_init_def split: prod.splits sum.splits)
  from host_sys.reachable_inv [OF this assms(2)] have ok: "host_ok py (interp h0) (h, cmds)" .
  show ?thesis
  proof (cases "ph_running h")
    case True
    then obtain past where "cmds = past @ map snd (ph_queue h)" "Shutdown \<notin> set past" "replies h = serve_log py 0 past (interp h0)"
      using ok by (auto simp: host_ok_def)
    then show ?thesis using serve_log_append [of past py 0 "map snd (ph_queue h)" "interp h0"] by auto
  qed (use ok in \<open>simp add: host_ok_def\<close>)
qed

subsection \<open>Replies and the end of a host\<close>

text \<open>A reply has the type of its command's channel.\<close>

fun answer_typed :: "cmd \<Rightarrow> answer \<Rightarrow> bool" where
  "answer_typed (Eval _) a = (\<exists>i. a = IntAnswer i)"
| "answer_typed (Call _ _ _) a = (\<exists>i. a = IntAnswer i)"
| "answer_typed (EvalStr _) a = (\<exists>s. a = StrAnswer s)"
| "answer_typed (Exec _) a = (a = UnitAnswer)"
| "answer_typed Ping a = (a = UnitAnswer)"
| "answer_typed Shutdown a = True"

lemma answer_cmd_typed: "answer_cmd py c g = (Inr a, g') \<Longrightarrow> answer_typed c a"
  by (cases c) (auto simp: as_answer_def split: prod.splits sum.splits)

lemma serve_log_typed:
  "(k, Inr a) \<in> set (serve_log py n cs g) \<Longrightarrow> n \<le> k \<and> k < n + length cs \<and> answer_typed (cs ! (k - n)) a"
proof (induction cs arbitrary: n g)
  case (Cons c cs)
  show ?case
  proof (cases "c \<noteq> Shutdown \<and> (k, Inr a) = (n, fst (answer_cmd py c g))")
    case True
    then show ?thesis using answer_cmd_typed [of py c g a "snd (answer_cmd py c g)"] by (simp add: prod_eq_iff)
  next
    case False
    then have "(k, Inr a) \<in> set (serve_log py (Suc n) cs (snd (answer_cmd py c g)))"
      using Cons.prems by (auto split: if_splits)
    from Cons.IH [OF this] show ?thesis by (auto simp: nth_Cons split: nat.split)
       (metis Suc_diff_Suc Suc_le_lessD Suc_inject diff_Suc_Suc)
  qed
qed simp

lemma turns_reach_shutdown:
  assumes "Shutdown \<in> snd ` set (ph_queue h)"
  shows "\<not> ph_running ((host_turn py ^^ length (ph_queue h)) h)"
  using assms
proof (induction "ph_queue h" arbitrary: h)
  case (Cons kc q)
  have stopped: "\<not> ph_running ((host_turn py ^^ n) x) " if "\<not> ph_running x" "ph_queue x = []" for n and x :: "'a py_host"
    using that by (induction n) (simp_all add: host_turn_def funpow_swap1)
  obtain k c where kc: "kc = (k, c)" by (cases kc)
  have l: "(host_turn py ^^ length (ph_queue h)) h = (host_turn py ^^ length q) (host_turn py h)"
    unfolding Cons.hyps(2) [symmetric] by (simp add: funpow_swap1)
  show ?case
  proof (cases "c = Shutdown")
    case True
    then have "\<not> ph_running (host_turn py h)" "ph_queue (host_turn py h) = []"
      using kc by (simp_all add: host_turn_def Cons.hyps(2) [symmetric])
    then show ?thesis unfolding l by (rule stopped)
  next
    case False
    then have q: "ph_queue (host_turn py h) = q"
      using kc by (simp add: host_turn_def Cons.hyps(2) [symmetric] split: prod.split)
    have "Shutdown \<in> snd ` set q" using Cons.prems False kc unfolding Cons.hyps(2) [symmetric] by auto
    then show ?thesis unfolding l using Cons.hyps(1) [of "host_turn py h"] q by simp
  qed
qed simp

text \<open>Dropping the host ends its thread, and answers before that every command that was still queued: the replies are then all
  those of the one interpreter, and each has the type of its command.\<close>

theorem dropped_host_has_answered:
  assumes "host_start py rank site_packages g0 = Inr h0" "(host_step py)\<^sup>*\<^sup>* (h0, []) (h, cmds)" "ph_running h" "Shutdown \<notin> set cmds"
  shows "\<not> ph_running (host_drop py h) \<and> replies (host_drop py h) = serve_log py 0 cmds (interp h0)
    \<and> (\<forall>k a. (k, Inr a) \<in> set (replies (host_drop py h)) \<longrightarrow> k < length cmds \<and> answer_typed (cmds ! k) a)"
proof -
  have "host_init (interp h0) (h0, [])" using assms(1) by (auto simp: host_start_def host_init_def split: prod.splits sum.splits)
  from host_sys.reachable_inv [OF this assms(2)] have ok: "host_ok py (interp h0) (h, cmds)" .
  let ?h1 = "snd (send_cmd Shutdown h)"
  have s: "send_cmd Shutdown h = (Inr (sent h), ?h1)" "Shutdown \<in> snd ` set (ph_queue ?h1)" using assms(3) by (simp_all add: send_cmd_def image_Un)
  have turns: "host_ok py (interp h0) ((host_turn py ^^ n) ?h1, cmds @ [Shutdown])" for n
    by (induction n) (simp_all add: send_ok [OF ok s(1)] turn_ok)
  have stop: "\<not> ph_running (host_drop py h)" unfolding host_drop_def Let_def by (rule turns_reach_shutdown [OF s(2)])
  then have "replies (host_drop py h) = serve_log py 0 (cmds @ [Shutdown]) (interp h0)"
    using turns [of "length (ph_queue ?h1)"] by (simp add: host_ok_def host_drop_def Let_def)
  then have r: "replies (host_drop py h) = serve_log py 0 cmds (interp h0)" using serve_log_append [OF assms(4), of py 0 "[Shutdown]" "interp h0"] by simp
  show ?thesis using stop serve_log_typed unfolding r by fastforce
qed

subsection \<open>A loader that needs \<open>torch\<close> first\<close>

text \<open>An interpreter of numbers: modules load in order, and \<open>tensorrt_llm\<close> only after \<open>torch\<close>. Objects are numbers; an attribute is the
  object itself, a call returns its first argument.\<close>

definition demo_python :: "(string list, int) python" where
  "demo_python = \<lparr>
     py_import = (\<lambda>m loaded. if m = ''tensorrt_llm'' \<and> ''torch'' \<notin> set loaded then (Inl ''ImportError'', loaded) else (Inr 0, m # loaded)),
     py_getattr = (\<lambda>x name loaded. (Inr x, loaded)),
     py_call = (\<lambda>f args loaded. (Inr (case args of [] \<Rightarrow> f | a # _ \<Rightarrow> a), loaded)),
     py_eval = (\<lambda>code loaded. if code = ''1/0'' then (Inl ''ZeroDivisionError'', loaded) else (Inr (int (length loaded)), loaded)),
     py_run = (\<lambda>code loaded. (Inr (), code # loaded)),
     extract_int = (\<lambda>x _. Inr x), extract_str = (\<lambda>x _. Inr (int_str x)), extract_bool = (\<lambda>x _. Inr (x \<noteq> 0)),
     of_python_int = id, of_python_str = (\<lambda>s. int (length s))\<rparr>"

definition demo_host :: "string list py_host" where
  "demo_host = \<lparr>interp = [''tensorrt_llm'', ''torch''], ph_running = True, ph_queue = [], sent = 0, replies = [], trtllm_version = ''0''\<rparr>"

lemma demo_host_start: "host_start demo_python 0 None [] = Inr demo_host"
  by (simp add: host_start_def initialize_def insert_path_def and_then_py_def context_of_def getattr_ctx_def call_method_def extract_ctx_def
      set_device_def demo_python_def demo_host_def int_str_def nat_str.simps char_of_def bit_0)

theorem python_commands_are_serialised_witness:
  "\<exists>h. (host_step demo_python)\<^sup>*\<^sup>* (demo_host, []) (h, [Eval ''1/0'', Eval ''n''])
    \<and> replies h = [(0, Inl [''Python::eval'', ''ZeroDivisionError'']), (1, Inr (IntAnswer 2))]"
proof -
  let ?py = demo_python
  have s1: "host_step ?py (demo_host, []) (demo_host\<lparr>ph_queue := [(0, Eval ''1/0'')], sent := 1\<rparr>, [Eval ''1/0''])" (is "host_step _ _ (?h1, _)")
    using ph_send [of "Eval ''1/0''" demo_host 0 ?h1 ?py "[]"] by (simp add: send_cmd_def demo_host_def)
  have s2: "host_step ?py (?h1, [Eval ''1/0'']) (?h1\<lparr>ph_queue := [(0, Eval ''1/0''), (1, Eval ''n'')], sent := 2\<rparr>, [Eval ''1/0'', Eval ''n''])"
      (is "host_step _ _ (?h2, ?cmds)")
    using ph_send [of "Eval ''n''" ?h1 1 ?h2 ?py "[Eval ''1/0'']"] by (simp add: send_cmd_def demo_host_def)
  let ?h = "host_turn ?py (host_turn ?py ?h2)"
  have run: "(host_step ?py)\<^sup>*\<^sup>* (demo_host, []) (?h, ?cmds)"
    using s1 s2 ph_turn [of ?py ?h2 ?cmds] ph_turn [of ?py "host_turn ?py ?h2" ?cmds]
    by (meson converse_rtranclp_into_rtranclp r_into_rtranclp)
  have empty: "ph_queue ?h = []"
    by (simp add: host_turn_def case_prod_unfold)
  have "replies ?h = serve_log ?py 0 ?cmds (interp demo_host)"
    using python_commands_are_serialised [OF demo_host_start run] empty by blast
  then show ?thesis using run
    by (auto simp: demo_host_def demo_python_def eval_expr_def c_string_def and_then_py_def context_of_def as_answer_def extract_ctx_def)
qed

end
