(* ===== verification/Capacity_Target.thy ===== *)
theory Capacity_Target
  imports Capacity
begin

text \<open>
  \<open>crates/core/src/capacity.rs\<close>, from \<open>TargetGap\<close> on: working backwards from a goodput, and the ceiling of a
  card shared by prefill and decode.

  Rates, factors and their products are \<open>f64\<close> values, as in \<open>Capacity\<close>.
\<close>

subsection \<open>What a goodput requires\<close>

record target_gap =
  target_goodput :: real
  required_req_s :: real
  tg_prefill_req_s :: f64
  tg_decode_req_s :: f64
  xfer_req_s :: f64
  prefill_factor :: f64
  decode_factor :: f64
  xfer_factor :: f64
  mfu_now :: real
  mfu_required :: f64

definition envelope :: "mfu_breakdown \<Rightarrow> f64" where
  "envelope b = f_mul (f_mul (f_of_ext (duty_cycle_worth b)) (Num (allreduce_worth b))) (f_of_ext (compute_mfu_worth b (50 / 100)))"

definition within_the_envelope :: "target_gap \<Rightarrow> mfu_breakdown \<Rightarrow> bool" where
  "within_the_envelope g b \<longleftrightarrow> f_le (prefill_factor g) (envelope b)"

text \<open>The closure \<open>f\<close> of \<open>target_gap\<close>.\<close>

definition factor_needed :: "real \<Rightarrow> f64 \<Rightarrow> f64" where
  "factor_needed required have' = (if f_lt (Num 0) have' then f_div (Num required) have' else PosInf)"

definition target_gap_of :: "capacity_model \<Rightarrow> pd_split \<Rightarrow> real \<Rightarrow> target_gap" where
  "target_gap_of m split target =
    (let required = target / max (cm_good_frac m) (1 / 10 ^ 9); b = mfu_breakdown_of (cm_prefill m);
         f = factor_needed required (prefill_req_s split)
     in \<lparr>target_goodput = target, required_req_s = required, tg_prefill_req_s = prefill_req_s split, tg_decode_req_s = decode_req_s split,
         xfer_req_s = pd_transfer_req_s split, prefill_factor = f, decode_factor = factor_needed required (decode_req_s split),
         xfer_factor = factor_needed required (pd_transfer_req_s split), mfu_now = overall b,
         mfu_required = f_mul (Num (overall b)) (f_max f (Num 1))\<rparr>)"

definition factor_of :: "target_gap \<Rightarrow> bottleneck \<Rightarrow> f64" where
  "factor_of g b = (case b of PrefillBound \<Rightarrow> prefill_factor g | DecodeBound \<Rightarrow> decode_factor g | KvTransfer \<Rightarrow> xfer_factor g)"

subsection \<open>A shared card\<close>

definition in_card_pd_req_s :: "capacity_model \<Rightarrow> nat \<Rightarrow> real \<Rightarrow> real \<Rightarrow> f64" where
  "in_card_pd_req_s m gpus prefill_tok_s decode_tok_s =
    (if prefill_tok_s \<le> 0 \<or> decode_tok_s \<le> 0 then Num 0
     else let per_request_gpu_s = real (cm_isl m) / prefill_tok_s + real (cm_osl m) / decode_tok_s
          in f_div (Num (real gpus)) (Num per_request_gpu_s))"

definition prefill_share :: "capacity_model \<Rightarrow> real \<Rightarrow> real \<Rightarrow> f64" where
  "prefill_share m prefill_tok_s decode_tok_s =
    (let p = real (cm_isl m) / max prefill_tok_s (1 / 10 ^ 9); d = real (cm_osl m) / max decode_tok_s (1 / 10 ^ 9)
     in f_div (Num p) (Num (p + d)))"

subsection \<open>The gap agrees with the evaluation\<close>

lemma f_le_zero_cases:
  assumes "r \<noteq> NaN"
  obtains x where "r = Num x" "0 < x" | "r = PosInf" | "\<not> f_lt (Num 0) r"
proof (cases r)
  case (Num x)
  then show ?thesis using that by (cases "0 < x") simp_all
qed (use assms that in \<open>auto simp: f_lt_def less_f64_def\<close>)

lemma factor_reached:
  assumes "0 < required" "r \<noteq> NaN"
  shows "f_le (factor_needed required r) (Num 1) \<longleftrightarrow> f_le (Num required) r"
proof (rule f_le_zero_cases [OF assms(2)])
  fix x assume "r = Num x" "0 < x"
  then show ?thesis using assms(1) by (simp add: factor_needed_def f64_eval field_simps)
next
  assume "r = PosInf"
  then show ?thesis using assms(1) by (simp add: factor_needed_def f_div_def f_lt_def less_f64_def signed_zero_def)
next
  assume n: "\<not> f_lt (Num 0) r"
  then have "\<not> f_le (Num required) r"
    using assms by (cases r) (auto simp: f_lt_def f_le_def less_f64_def less_eq_f64_def split: if_splits)
  then show ?thesis using n by (simp add: factor_needed_def f_le_def less_eq_f64_def)
qed

lemma factor_antimono:
  assumes "0 < required" "f_le a b"
  shows "f_le (factor_needed required b) (factor_needed required a)"
proof -
  have nn: "a \<noteq> NaN" "b \<noteq> NaN" using assms(2) by (auto simp: f_le_def)
  have top: "factor_needed required b \<noteq> NaN" by (cases b) (auto simp: factor_needed_def f_div_nan_iff f_lt_def)
  show ?thesis
  proof (rule f_le_zero_cases [OF nn(1)])
    fix x assume x: "a = Num x" "0 < x"
    then show ?thesis using assms nn
      by (cases b) (auto simp: factor_needed_def f64_eval f_div_def f_le_def f_lt_def less_f64_def less_eq_f64_def signed_zero_def
          divide_left_mono divide_less_0_iff split: if_splits)
  next
    assume "a = PosInf"
    then have "b = PosInf" using assms(2) by (cases b) (auto simp: f_le_def less_eq_f64_def split: if_splits)
    then show ?thesis using \<open>a = PosInf\<close> top by (simp add: f_le_def)
  next
    assume "\<not> f_lt (Num 0) a"
    then show ?thesis using top by (simp add: factor_needed_def [of required a])
  qed
qed

lemma goodput_reached:
  assumes "0 < target" "0 < g" "r \<noteq> NaN"
  shows "f_le (Num target) (f_mul r (Num g)) \<longleftrightarrow> f_le (Num (target / g)) r"
proof (cases r)
  case (Num x)
  then show ?thesis
    using assms by (cases "x = 0") (auto simp: f64_eval pos_divide_le_eq divide_le_0_iff)
qed (use assms in \<open>auto simp: f_mul_def signed_inf_def signed_zero_def f_le_def less_eq_f64_def divide_le_0_iff divide_less_0_iff\<close>)

text \<open>Working backwards agrees with working forwards. For a split the model evaluates and a positive target, the split's goodput
  reaches the target exactly when the gap says that prefill, decode and handoff are all there already; and when it does not, the resource
  that the evaluation names as the bottleneck is one whose factor exceeds one, and no other needs a larger factor.\<close>

theorem target_gap_is_exact:
  assumes "evaluate m pg dg ptp dtp = Some s" "0 < target" "1 / 10 ^ 9 \<le> cm_good_frac m"
  shows "(f_le (Num target) (pd_goodput_req_s s) \<longleftrightarrow> (\<forall>b. f_le (factor_of (target_gap_of m s target) b) (Num 1)))
    \<and> (\<not> f_le (Num target) (pd_goodput_req_s s) \<longrightarrow> f_lt (Num 1) (factor_of (target_gap_of m s target) (pd_bottleneck s))
        \<and> (\<forall>b. f_le (factor_of (target_gap_of m s target) b) (factor_of (target_gap_of m s target) (pd_bottleneck s))))"
proof -
  let ?factor = "factor_of (target_gap_of m s target)" and ?x = "sustainable_req_s s"
  define q where "q = target / cm_good_frac m"
  have gf: "0 < cm_good_frac m" using assms(3) by (rule less_le_trans [rotated]) simp
  then have q: "0 < q" using assms(2) by (simp add: q_def)
  have req: "target / max (cm_good_frac m) (1 / 10 ^ 9) = q" using assms(3) by (simp add: q_def max_absorb1)
  have fac: "?factor b = factor_needed q (rate_of s b)" for b
    unfolding factor_of_def target_gap_of_def Let_def rate_of_def req by (cases b) simp_all
  have x: "rate_of s (pd_bottleneck s) = ?x" "f_le ?x (rate_of s b)" "pd_goodput_req_s s = f_mul ?x (Num (cm_good_frac m))" for b
    using evaluate_names_the_bottleneck [OF assms(1)] by blast+
  have nn: "rate_of s b \<noteq> NaN" for b by (rule evaluate_fields(6) [OF assms(1)])
  have good: "f_le (Num target) (pd_goodput_req_s s) \<longleftrightarrow> f_le (Num q) ?x"
    using goodput_reached [OF assms(2) gf] nn x(1) unfolding x(3) q_def by metis
  have "(\<forall>b. f_le (?factor b) (Num 1)) \<longleftrightarrow> (\<forall>b. f_le (Num q) (rate_of s b))" by (simp add: fac factor_reached [OF q nn])
  also have "\<dots> \<longleftrightarrow> f_le (Num q) ?x" using x(1,2) f_le_trans by metis
  finally have "f_le (Num target) (pd_goodput_req_s s) \<longleftrightarrow> (\<forall>b. f_le (?factor b) (Num 1))" using good by simp
  moreover have most: "f_le (?factor b) (?factor (pd_bottleneck s))" for b unfolding fac x(1) by (rule factor_antimono [OF q x(2)])
  moreover have "f_lt (Num 1) (?factor (pd_bottleneck s))" if "\<not> f_le (Num q) ?x"
    using factor_reached [OF q nn, of "pd_bottleneck s"] that most unfolding fac x(1) by (auto simp: f_lt_iff f_le_def)
  ultimately show ?thesis using good by blast
qed

theorem target_gap_is_exact_witness:
  "\<exists>s. evaluate default_capacity_model 8 8 4 4 = Some s
    \<and> f_le (Num 38) (pd_goodput_req_s s) = (f_le (prefill_factor (target_gap_of default_capacity_model s 38)) (Num 1)
        \<and> f_le (decode_factor (target_gap_of default_capacity_model s 38)) (Num 1)
        \<and> f_le (xfer_factor (target_gap_of default_capacity_model s 38)) (Num 1))"
proof -
  obtain s where s: "evaluate default_capacity_model 8 8 4 4 = Some s" using evaluate_total [OF default_plannable, of 8 8 4 4] by auto
  have all: "(\<forall>b :: bottleneck. P b) \<longleftrightarrow> P PrefillBound \<and> P DecodeBound \<and> P KvTransfer" for P by (metis bottleneck.exhaust)
  from target_gap_is_exact [OF s, of 38] show ?thesis using s by (simp add: all factor_of_def default_capacity_model_def)
qed

subsection \<open>Sharing a card is never worse than cutting the machine\<close>

text \<open>The ceiling of a shared card is what the best division of the GPUs, fractions allowed, would reach: no division of the GPUs into
  a prefill and a decode part sustains more requests, and the division by \<open>prefill_share\<close> sustains exactly that many on both sides.\<close>

theorem in_card_is_the_best_division:
  assumes "1 / 10 ^ 9 \<le> pr" "1 / 10 ^ 9 \<le> dr" "0 < cm_isl m" "0 < cm_osl m"
  shows "\<exists>rate share. in_card_pd_req_s m gpus pr dr = Num rate \<and> prefill_share m pr dr = Num share
    \<and> (\<forall>p d. 0 \<le> p \<and> 0 \<le> d \<and> p + d \<le> real gpus \<longrightarrow> min (p * pr / real (cm_isl m)) (d * dr / real (cm_osl m)) \<le> rate)
    \<and> (let p = share * real gpus in p * pr / real (cm_isl m) = rate \<and> (real gpus - p) * dr / real (cm_osl m) = rate)"
proof -
  define a where "a = real (cm_isl m) / pr"
  define c where "c = real (cm_osl m) / dr"
  have eps: "(0 :: real) < 1 / 10 ^ 9" by simp
  have r: "0 < pr" "0 < dr" using assms(1,2) eps by linarith+
  have pos: "0 < a" "0 < c" using r assms(3,4) by (simp_all add: a_def c_def)
  have T: "in_card_pd_req_s m gpus pr dr = Num (real gpus / (a + c))"
    using r pos by (simp add: in_card_pd_req_s_def a_def [symmetric] c_def [symmetric] Let_def f64_eval)
  have S: "prefill_share m pr dr = Num (a / (a + c))"
    using assms(1,2) pos by (simp add: prefill_share_def a_def [symmetric] c_def [symmetric] max_absorb1 Let_def f64_eval)
  have A: "p * pr / real (cm_isl m) = p / a" and D: "p * dr / real (cm_osl m) = p / c" for p by (simp_all add: a_def c_def)
  have "min (p / a) (d / c) \<le> real gpus / (a + c)" if "p + d \<le> real gpus" for p d
  proof (rule ccontr)
    let ?t = "real gpus / (a + c)"
    assume "\<not> min (p / a) (d / c) \<le> ?t"
    then have "?t * a < p" "?t * c < d" using pos by (simp_all only: min_le_iff_disj de_Morgan_disj not_le pos_less_divide_eq)
    then have "?t * (a + c) < p + d" by (simp only: distrib_left)
    moreover have "?t * (a + c) = real gpus" using pos by simp
    ultimately show False using that by linarith
  qed
  moreover have "(a / (a + c) * real gpus) / a = real gpus / (a + c)" using pos by simp
  moreover have "(real gpus - a / (a + c) * real gpus) / c = real gpus / (a + c)"
  proof -
    have "real gpus - a / (a + c) * real gpus = c * real gpus / (a + c)" using pos by (simp add: field_simps)
    then show ?thesis using pos by simp
  qed
  ultimately show ?thesis unfolding T S A D Let_def by (intro exI [of _ "real gpus / (a + c)"] exI [of _ "a / (a + c)"]) simp
qed

theorem in_card_is_the_best_division_witness:
  "\<exists>rate. in_card_pd_req_s default_capacity_model 16 6804 726 = Num rate \<and> min (8 * 6804 / 4000) (8 * 726 / 200) \<le> rate"
proof -
  obtain rate where "in_card_pd_req_s default_capacity_model 16 6804 726 = Num rate"
    "min (8 * 6804 / real (cm_isl default_capacity_model)) (8 * 726 / real (cm_osl default_capacity_model)) \<le> rate"
    using in_card_is_the_best_division [of 6804 726 default_capacity_model 16] by (force simp: default_capacity_model_def)
  then show ?thesis by (simp add: default_capacity_model_def)
qed

end
