(* ===== verification/Cli_Plan.thy ===== *)
theory Cli_Plan
  imports Tuner_Plan Advice Capacity_Target
begin

text \<open>
  \<open>crates/cli/src/main.rs\<close>: the commands \<open>plan\<close> and \<open>verdict\<close>, line by line, and the summary of
  \<open>core/src/verdict.rs\<close>.

  The result of a command is the lines it prints; \<open>None\<close> is a panic.
\<close>

subsection \<open>Numbers\<close>

fun ext_fixed :: "nat \<Rightarrow> ext \<Rightarrow> string" where
  "ext_fixed k (Fin x) = fixed_str k x"
| "ext_fixed k Infinite = ''inf''"

fun bottleneck_str :: "bottleneck \<Rightarrow> string" where
  "bottleneck_str PrefillBound = ''Prefill''"
| "bottleneck_str DecodeBound = ''Decode''"
| "bottleneck_str KvTransfer = ''KvTransfer''"

definition percent_str :: "f64 \<Rightarrow> string" where
  "percent_str q = f_fixed 0 (f_mul q (Num 100))"

fun diagnosis_summary :: "assessment \<Rightarrow> diagnosis \<Rightarrow> string" where
  "diagnosis_summary v Met = ''MET: '' @ fixed_str 2 (mr_goodput_req_s (measured v)) @ '' against '' @ f_fixed 2 (predicted_goodput_req_s v)
     @ '' req/s predicted ('' @ percent_str (ratio v) @ ''%)''"
| "diagnosis_summary v NothingServed = ''NOTHING SERVED: this measured a failure, not the deployment''"
| "diagnosis_summary v (ItlGate m b) = ''ITL GATE: '' @ fixed_str 1 m @ '' ms against a '' @ fixed_str 0 b @ '' ms budget ('' @ fixed_str 1 (m / b)
     @ ''x over). Requests were served and were too slow between tokens; TTFT was not the problem.''"
| "diagnosis_summary v (TtftGate m b) = ''TTFT GATE: p90 '' @ fixed_str 0 m @ '' ms against a '' @ fixed_str 0 b
     @ '' ms budget. Tokens came fast enough once they started.''"
| "diagnosis_summary v (BothGates itl ib ttft tb) = ''BOTH GATES: ITL '' @ fixed_str 1 itl @ '' ms against '' @ fixed_str 0 ib @ '' (''
     @ fixed_str 2 (itl / ib) @ ''x over) and TTFT p90 '' @ fixed_str 0 ttft @ '' ms against '' @ fixed_str 0 tb @ '' ('' @ fixed_str 2 (ttft / tb)
     @ ''x over). Neither side is fine; the larger miss is '' @ (if ttft / tb > itl / ib then ''prefill'' else ''decode'') @ ''.''"
| "diagnosis_summary v (ThroughputShortfall m p b) = ''SHORTFALL: '' @ fixed_str 2 m @ '' against '' @ f_fixed 2 p
     @ '' req/s with both gates passing, which points at '' @ bottleneck_str b @ '' rather than at a latency.''"

definition verdict_summary :: "assessment \<Rightarrow> string" where
  "verdict_summary v = diagnosis_summary v (diagnosed v)"

definition SCRIPT :: string where
  "SCRIPT = ''scripts/stage-d-235b-disagg.sbatch''"

definition indent :: "string \<Rightarrow> string" where
  "indent s = replicate 15 (CHR '' '') @ s"

definition continued :: "string \<Rightarrow> string" where
  "continued s = replicate 20 (CHR '' '') @ s"

subsection \<open>Plan\<close>

definition plan_intro :: "capacity_model \<Rightarrow> string list" where
  "plan_intro m =
    (let p = cm_prefill m; b = mfu_breakdown_of p; (lever, worth) = largest_lever b (50 / 100)
     in [''Qwen-shape capacity model  ISL '' @ nat_str (cm_isl m) @ ''  OSL '' @ nat_str (cm_osl m) @ ''  TTFT<='' @ fixed_str 0 (slo_ttft_ms (cm_slo m))
           @ ''ms  ITL<='' @ fixed_str 0 (slo_itl_ms (cm_slo m)) @ ''ms  assumed good_frac '' @ fixed_str 2 (cm_good_frac m),
         ''prefill calibration '' @ fixed_str 0 (tok_s_per_gpu p) @ '' tok/s/GPU at TP'' @ nat_str (tp_ref p) @ '', ''
           @ fixed_str 0 (tp_allreduce_frac p * 100) @ ''% of GPU time in TP all-reduce'',
         continued (fixed_str 0 (achieved_tflops_per_gpu p) @ '' TFLOP/s of '' @ fixed_str 0 (peak_tflops_per_gpu p) @ '' peak = MFU ''
           @ fixed_str 1 (mfu p * 100) @ ''%. Reaching 35% would be '' @ fixed_str 2 ((35 / 100) / max (mfu p) (1 / 10 ^ 9)) @ ''x this prefill throughput,''),
         continued (''of which '' @ fixed_str 0 ((1 - duty_cycle p) * 100) @ ''% of wall time is outside the forward pass (''
           @ ext_fixed 2 (duty_cycle_worth b) @ ''x), '' @ fixed_str 0 (tp_allreduce_frac p * 100) @ ''% of kernel''),
         continued (''time is TP all-reduce ('' @ fixed_str 2 (allreduce_worth b) @ ''x), and the remaining compute runs at ''
           @ fixed_str 1 (compute_mfu b * 100) @ ''% MFU ('' @ ext_fixed 2 (compute_mfu_worth b (50 / 100)) @ ''x to 50%).''),
         continued (''Largest lever: '' @ lever @ '' at '' @ ext_fixed 2 worth @ ''x. This is a kernel question, not a topology one -''),
         continued ''no P/D split changes MFU.'', []])"

definition plan_columns :: string where
  "plan_columns = pad_left 5 ''P gpu'' @ '' '' @ pad_left 5 ''D gpu'' @ '' '' @ pad_left 7 ''P tp'' @ '' '' @ pad_left 7 ''D tp'' @ '' ''
     @ pad_left 9 ''P workers'' @ '' '' @ pad_left 12 ''prefill r/s'' @ '' '' @ pad_left 11 ''decode r/s'' @ '' '' @ pad_left 10 ''xfer r/s'' @ '' ''
     @ pad_left 10 ''goodput'' @ '' '' @ pad_right 11 ''binds on'' @ '' '' @ pad_left 8 ''headroom''"

definition plan_row :: "pd_split \<Rightarrow> string" where
  "plan_row s = pad_left 5 (nat_str (prefill_gpus s)) @ '' '' @ pad_left 5 (nat_str (decode_gpus s)) @ '' '' @ pad_left 7 (nat_str (prefill_tp s)) @ '' ''
     @ pad_left 7 (nat_str (decode_tp s)) @ '' '' @ pad_left 9 (nat_str (prefill_workers s)) @ '' '' @ pad_left 12 (f_fixed 2 (prefill_req_s s)) @ '' ''
     @ pad_left 11 (f_fixed 2 (decode_req_s s)) @ '' '' @ pad_left 10 (f_fixed 2 (pd_transfer_req_s s)) @ '' ''
     @ pad_left 10 (f_fixed 2 (pd_goodput_req_s s)) @ '' '' @ pad_right 11 (bottleneck_str (pd_bottleneck s)) @ '' ''
     @ pad_left 7 (f_fixed 1 (headroom_ratio s)) @ ''x''"

definition multiplier_str :: "ext \<Rightarrow> string" where
  "multiplier_str x = (case x of Fin y \<Rightarrow> if \<bar>y - 1\<bar> < 1 / 10 ^ 9 then ''unblocks'' else fixed_str 2 y @ ''x'' | Infinite \<Rightarrow> ''infx'')"

definition plan_remedy_lines :: "remedy \<Rightarrow> string list" where
  "plan_remedy_lines r = [''  '' @ pad_right 12 (evidence_label (rm_evidence r)) @ '' '' @ pad_left 9 (multiplier_str (multiplier r)) @ ''  ''
     @ knob r @ ''='' @ setting r, indent (because r), indent (command r SCRIPT)]"

definition plan_advice :: "capacity_model \<Rightarrow> engine_config \<Rightarrow> pd_split \<Rightarrow> string list" where
  "plan_advice m applied s =
    (let rs = remedies_given m s applied
     in [[], if rs = [] then ''Best split binds on '' @ bottleneck_str (pd_bottleneck s) @ '', and every remedy this model knows is already applied.''
             else ''Best split binds on '' @ bottleneck_str (pd_bottleneck s) @ ''. Ordered by how well each is backed, not by size:'']
        @ concat (map plan_remedy_lines rs))"

definition target_line :: "string \<Rightarrow> f64 \<Rightarrow> f64 \<Rightarrow> string" where
  "target_line name have' factor = ''  '' @ pad_right 9 name @ '' '' @ pad_left 7 (f_fixed 2 have') @ '' req/s   ''
     @ (if f_le factor (Num 1) then ''already there'' else ''needs '' @ f_fixed 2 factor @ ''x'')"

definition target_lines :: "capacity_model \<Rightarrow> pd_split \<Rightarrow> real \<Rightarrow> string list" where
  "target_lines m s t =
    (let g = target_gap_of m s t; b = mfu_breakdown_of (cm_prefill m)
     in [[], ''To reach goodput '' @ fixed_str 1 (target_goodput g) @ '' at good_frac '' @ fixed_str 2 (cm_good_frac m)
           @ '', the deployment must sustain '' @ fixed_str 2 (required_req_s g) @ '' req/s:'',
         target_line ''prefill'' (tg_prefill_req_s g) (prefill_factor g),
         target_line ''decode'' (tg_decode_req_s g) (decode_factor g),
         target_line ''transfer'' (xfer_req_s g) (xfer_factor g),
         ''  prefill MFU '' @ fixed_str 1 (mfu_now g * 100) @ ''% today, ''
           @ f_fixed 1 (f_mul (mfu_required g) (Num 100)) @ ''% required'',
         if within_the_envelope g b
         then ''  Inside the envelope: the three levers multiply to '' @ f_fixed 2 (envelope b) @ ''x and '' @ f_fixed 2 (prefill_factor g) @ ''x is needed.''
         else ''  OUTSIDE the envelope: the three known levers multiply to '' @ f_fixed 2 (envelope b) @ ''x and '' @ f_fixed 2 (prefill_factor g)
           @ ''x is needed. Reaching it needs something not in this model.''])"

definition plan_note :: "string list" where
  "plan_note = [[], ''Note: the decode column extrapolates an ITL-versus-concurrency curve fitted to ONE '' @ [LF]
     @ ''saturated measurement. Treat it as a shortlist, not a prediction - run `sim` next.'']"

definition cmd_plan :: "config \<Rightarrow> nat \<Rightarrow> nat list \<Rightarrow> nat list \<Rightarrow> nat \<Rightarrow> real option \<Rightarrow> string list option" where
  "cmd_plan cfg budget ptps dtps n target =
    (let m = config_capacity_model cfg
     in case search m budget ptps dtps of None \<Rightarrow> None
        | Some splits \<Rightarrow> Some (plan_intro m @ [plan_columns] @ map plan_row (take n splits)
            @ (case splits of [] \<Rightarrow> [] | s # _ \<Rightarrow> plan_advice m (cfg_engine cfg) s)
            @ (case target of None \<Rightarrow> [] | Some t \<Rightarrow> (case splits of [] \<Rightarrow> [] | s # _ \<Rightarrow> target_lines m s t))
            @ plan_note))"

subsection \<open>Verdict\<close>

datatype verdict_error = CannotRead string string | NotJson string | BadExport string string

definition configured_split :: "config \<Rightarrow> pd_split option" where
  "configured_split cfg = (let t = cfg_topology cfg in
     evaluate (config_capacity_model cfg) (tc_prefill_workers t * tc_prefill_tp t mod 2 ^ 32) (tc_decode_workers t * tc_decode_tp t mod 2 ^ 32)
       (tc_prefill_tp t) (tc_decode_tp t))"

definition verdict_lines :: "config \<Rightarrow> assessment \<Rightarrow> string list" where
  "verdict_lines cfg v = (let t = cfg_topology cfg; m = measured v in
     [verdict_summary v, [],
      ''  assuming '' @ nat_str (tc_prefill_workers t) @ ''P'' @ nat_str (tc_decode_workers t) @ ''D, prefill TP'' @ nat_str (tc_prefill_tp t)
        @ '', decode TP'' @ nat_str (tc_decode_tp t) @ '' -- pass --expect if the run was something else'', [],
      ''  goodput      '' @ pad_left 8 (fixed_str 2 (mr_goodput_req_s m)) @ '' measured   '' @ pad_left 8 (f_fixed 2 (predicted_goodput_req_s v)) @ '' predicted'',
      ''  throughput   '' @ pad_left 8 (fixed_str 2 (request_throughput_req_s m)) @ '' req/s      '' @ pad_left 8 (fixed_str 0 (output_token_throughput m))
        @ '' tok/s output'',
      ''  TTFT         '' @ pad_left 8 (fixed_str 0 (ttft_avg_ms m)) @ '' avg ms     '' @ pad_left 8 (fixed_str 0 (ttft_p90_ms m)) @ '' p90 ms   budget ''
        @ fixed_str 0 (slo_ttft_ms (cfg_slo cfg)),
      ''  ITL          '' @ pad_left 8 (fixed_str 1 (itl_avg_ms m)) @ '' avg ms                  budget '' @ fixed_str 0 (slo_itl_ms (cfg_slo cfg)),
      ''  requests     '' @ pad_left 8 (fixed_str 0 (request_count m))])"

definition verdict_remedy_lines :: "remedy \<Rightarrow> string list" where
  "verdict_remedy_lines r = [''  '' @ pad_right 12 (evidence_label (rm_evidence r)) @ '' '' @ knob r @ ''='' @ setting r, indent (command r SCRIPT)]"

definition next_steps :: "capacity_model \<Rightarrow> engine_config \<Rightarrow> pd_split \<Rightarrow> diagnosis \<Rightarrow> string list" where
  "next_steps m applied split d =
    (case implicates d of None \<Rightarrow> []
     | Some b \<Rightarrow>
        let rs = remedies_given m (split\<lparr>pd_bottleneck := b\<rparr>) applied
        in if rs = [] then [[], ''Every remedy this model knows for '' @ bottleneck_str b @ '' is already applied.'']
           else [[], ''Next, for '' @ bottleneck_str b @ '', strongest evidence first:''] @ concat (map verdict_remedy_lines rs))"

definition cmd_verdict :: "(string \<Rightarrow> string + string) \<Rightarrow> (string \<Rightarrow> string + json) \<Rightarrow> config \<Rightarrow> string \<Rightarrow> real option \<Rightarrow> real \<Rightarrow>
    (verdict_error + string list) option" where
  "cmd_verdict read_file parse_json cfg path expect tolerance =
    (case read_file path of Inl e \<Rightarrow> Some (Inl (CannotRead path e))
     | Inr body_text \<Rightarrow> (case parse_json body_text of Inl e \<Rightarrow> Some (Inl (NotJson e))
     | Inr doc \<Rightarrow> (case from_aiperf_json doc of Inl e \<Rightarrow> Some (Inl (BadExport path e))
     | Inr m \<Rightarrow> (case configured_split cfg of None \<Rightarrow> None
     | Some split \<Rightarrow>
        let predicted = (case expect of None \<Rightarrow> pd_goodput_req_s split | Some x \<Rightarrow> Num x);
            v = assess m predicted (cfg_slo cfg) (pd_bottleneck split) tolerance
        in Some (Inr (verdict_lines cfg v @ next_steps (config_capacity_model cfg) (cfg_engine cfg) split (diagnosed v)))))))"

subsection \<open>What they say\<close>

lemma search_total:
  "plannable m \<Longrightarrow> \<forall>ptp \<in> set ptps. \<forall>dtp \<in> set dtps. budget + ptp + dtp < 2 ^ 32 \<Longrightarrow> search m budget ptps dtps \<noteq> None"
  using search_pairs_spec [of m "List.product ptps dtps" budget] by (auto simp: search_def)

lemma configured_split_total:
  assumes "plannable (config_capacity_model cfg)" "0 < tc_decode_workers (cfg_topology cfg) * tc_decode_tp (cfg_topology cfg) mod 2 ^ 32"
  shows "\<exists>s. configured_split cfg = Some s"
  unfolding configured_split_def Let_def using evaluate_total [OF assms] by blast

text \<open>A command asks only for what the deployment lacks. With a plannable calibration and a decode side of at least one GPU, \<open>verdict\<close> on a readable export
  never panics; it compares with the goodput of the configured deployment; when a gate was missed it lists, strongest evidence first, exactly the remedies
  of the side that gate belongs to that are not applied yet, and when the run met its prediction or served nothing it lists none.\<close>

theorem verdict_lists_what_is_missing:
  assumes "plannable (config_capacity_model cfg)" "0 < tc_decode_workers (cfg_topology cfg) * tc_decode_tp (cfg_topology cfg) mod 2 ^ 32"
    "read_file path = Inr body_text" "parse_json body_text = Inr doc" "from_aiperf_json doc = Inr m"
  shows "\<exists>split v steps rs. configured_split cfg = Some split
    \<and> v = assess m (pd_goodput_req_s split) (cfg_slo cfg) (pd_bottleneck split) tolerance
    \<and> cmd_verdict read_file parse_json cfg path None tolerance = Some (Inr (verdict_lines cfg v @ steps))
    \<and> sorted_wrt outranks rs
    \<and> (case implicates (diagnosed v) of
         None \<Rightarrow> steps = []
       | Some b \<Rightarrow> mset rs = filter_mset (\<lambda>r. \<not> already_applied (config_capacity_model cfg) (split\<lparr>pd_bottleneck := b\<rparr>) (cfg_engine cfg) r)
             (mset (remedies_for (config_capacity_model cfg) b))
           \<and> (rs \<noteq> [] \<longrightarrow> drop 2 steps = concat (map verdict_remedy_lines rs)))"
proof -
  obtain s where s: "configured_split cfg = Some s" using configured_split_total [OF assms(1,2)] by blast
  let ?v = "assess m (pd_goodput_req_s s) (cfg_slo cfg) (pd_bottleneck s) tolerance" and ?m = "config_capacity_model cfg"
  have c: "cmd_verdict read_file parse_json cfg path None tolerance
      = Some (Inr (verdict_lines cfg ?v @ next_steps ?m (cfg_engine cfg) s (diagnosed ?v)))"
    using assms(3-5) s by (simp add: cmd_verdict_def Let_def)
  show ?thesis
  proof (cases "implicates (diagnosed ?v)")
    case None
    then show ?thesis using s c by (intro exI [of _ s] exI [of _ ?v] exI [of _ "[]"]) (simp add: next_steps_def)
  next
    case (Some b)
    let ?rs = "remedies_given ?m (s\<lparr>pd_bottleneck := b\<rparr>) (cfg_engine cfg)"
    have r: "mset ?rs = filter_mset (\<lambda>r. \<not> already_applied ?m (s\<lparr>pd_bottleneck := b\<rparr>) (cfg_engine cfg) r) (mset (remedies_for ?m b))"
        "sorted_wrt outranks ?rs"
      using remedies_complete_and_ranked [of ?m "s\<lparr>pd_bottleneck := b\<rparr>" "cfg_engine cfg"] by simp_all
    show ?thesis using s c r Some
      by (intro exI [of _ s] exI [of _ ?v] exI [of _ "next_steps ?m (cfg_engine cfg) s (diagnosed ?v)"] exI [of _ ?rs])
        (simp add: next_steps_def Let_def)
  qed
qed

end
