(* ===== verification/Cli.thy ===== *)
theory Cli
  imports Cli_Plan In_Process Serving
begin

text \<open>
  \<open>crates/cli/src/main.rs\<close>: the commands that run the simulator, the tuner and the deployments, and the dispatch of \<open>main\<close>; and the
  one-line summary of \<open>sim/src/report.rs\<close> that they print.

  A command's result is what it prints or starts, with its error; \<open>None\<close> is a panic. The record \<open>world\<close> holds the
  code of others: files, the parsers and printers of TOML and JSON, derived \<open>Debug\<close> output, socket addresses and the tokenizer library.
  The command is a value here: clap parses it.
\<close>

subsection \<open>Summaries\<close>

definition report_summary :: "sim_report \<Rightarrow> string" where
  "report_summary r = (let g = goodput r; d = sim_diagnostics r in
     ''goodput '' @ pad_left 6 (fixed_str 2 (goodput_req_s g)) @ '' req/s | good '' @ pad_left 5 (fixed_str 1 (good_frac g * 100))
     @ ''% | req/s '' @ pad_left 6 (fixed_str 2 (req_per_s g)) @ '' | TTFT p99 '' @ pad_left 7 (fixed_str 1 (p99 (ttft_stats g)))
     @ '' ms | ITL mean '' @ pad_left 5 (fixed_str 2 (ls_mean (itl_stats g))) @ '' ms | decode C '' @ pad_left 5 (fixed_str 1 (mean_decode_concurrency d))
     @ '' | batch '' @ fixed_str 2 (mean_prefill_batch_seqs d) @ '' seq'')"

definition caveats :: "sim_report \<Rightarrow> string list" where
  "caveats r = (let g = goodput r; d = sim_diagnostics r in
     (if extrapolated_beyond_calibration d
      then [''decode ran at up to '' @ nat_str (peak_decode_concurrency d) @ '' concurrent sequences but the ITL curve is calibrated at ''
        @ fixed_str 0 (diag_calibrated_concurrency d)
        @ ''; the goodput above is an extrapolation of an unidentified curve, not a prediction''] else [])
     @ (if total_requests g < 100
        then [''only '' @ nat_str (total_requests g) @ '' requests fell inside the scored window; widen benchmark_s before comparing runs''] else []))"

subsection \<open>Simulating\<close>

datatype cli_error = UnknownPolicy string | Refused error | NoCandidates string | NeedsTokenizer
  | LoadingConfig string error | PrintingToml string | BadAddress string | VerdictFailed verdict_error

definition parse_policy :: "string \<Rightarrow> cli_error + prefill_policy" where
  "parse_policy s =
    (let p = map (\<lambda>c. if c = CHR ''_'' then CHR ''-'' else c) (lowercase (trim s))
     in if p = ''fcfs'' then Inr Fcfs else if p = ''edf'' then Inr Edf
        else if p = ''moore-hodgson'' \<or> p = ''mh'' then Inr MooreHodgson else Inl (UnknownPolicy p))"

definition simulate :: "config \<Rightarrow> sim_report option" where
  "simulate c = (case sim_new c of None \<Rightarrow> None
     | Some s \<Rightarrow> (case run_for (run_budget c) (begin_run s) of Ended s' \<Rightarrow> Some (finish_run s') | _ \<Rightarrow> None))"

definition set_concurrency :: "nat \<Rightarrow> config \<Rightarrow> config" where
  "set_concurrency n c = c\<lparr>workload := (workload c)\<lparr>wl_concurrency := n\<rparr>\<rparr>"

definition override_topology :: "(topology_config \<Rightarrow> topology_config) \<Rightarrow> config \<Rightarrow> config" where
  "override_topology f c = c\<lparr>cfg_topology := f (cfg_topology c)\<rparr>"

definition apply_opt :: "('a \<Rightarrow> 'b \<Rightarrow> 'b) \<Rightarrow> 'a option \<Rightarrow> 'b \<Rightarrow> 'b" where
  "apply_opt f v x = (case v of None \<Rightarrow> x | Some a \<Rightarrow> f a x)"

definition cmd_sim :: "config \<Rightarrow> nat option \<Rightarrow> nat option \<Rightarrow> nat option \<Rightarrow> (cli_error + topology_config \<times> sim_report) option" where
  "cmd_sim cfg conc ptp pw =
    (let c1 = apply_opt set_concurrency conc cfg;
         c2 = apply_opt (\<lambda>tp. override_topology (\<lambda>t. t\<lparr>tc_prefill_tp := tp\<rparr>)) ptp c1;
         c = apply_opt (\<lambda>w. override_topology (\<lambda>t. t\<lparr>tc_prefill_workers := w\<rparr>)) pw c2
     in case config_validate c of Inl e \<Rightarrow> Some (Inl (Refused e)) | Inr _ \<Rightarrow> map_option (\<lambda>r. Inr (cfg_topology c, r)) (simulate c))"

text \<open>What is printed without \<open>--json\<close>; \<open>debug\<close> is the derived text of the diagnostics.\<close>

definition sim_lines :: "(diagnostics \<Rightarrow> string) \<Rightarrow> topology_config \<Rightarrow> sim_report \<Rightarrow> string list" where
  "sim_lines debug t r =
    [''topology: '' @ nat_str (tc_prefill_workers t) @ ''x prefill TP'' @ nat_str (tc_prefill_tp t) @ '' + '' @ nat_str (tc_decode_workers t)
       @ ''x decode TP'' @ nat_str (tc_decode_tp t) @ ''  ('' @ nat_str (used_gpus t) @ '' GPUs)'',
     report_summary r, [], debug (sim_diagnostics r)] @ map (\<lambda>c. [LF] @ ''CAVEAT: '' @ c) (caveats r)"

definition sweep_header :: string where
  "sweep_header = pad_right 16 ''policy'' @ '' '' @ pad_left 5 ''N'' @ '' '' @ pad_left 10 ''goodput'' @ '' '' @ pad_left 8 ''good%'' @ '' ''
     @ pad_left 10 ''TTFT p99'' @ '' '' @ pad_left 10 ''ITL mean'' @ '' '' @ pad_left 8 ''batch''"

definition sweep_line :: "string \<times> nat \<Rightarrow> sim_report \<Rightarrow> string" where
  "sweep_line pn r = (let g = goodput r in
     pad_right 16 (fst pn) @ '' '' @ pad_left 5 (nat_str (snd pn)) @ '' '' @ pad_left 10 (fixed_str 2 (goodput_req_s g)) @ '' ''
     @ pad_left 7 (fixed_str 1 (good_frac g * 100)) @ ''% '' @ pad_left 9 (fixed_str 0 (p99 (ttft_stats g))) @ ''ms ''
     @ pad_left 9 (fixed_str 2 (ls_mean (itl_stats g))) @ ''ms '' @ pad_left 8 (fixed_str 2 (mean_prefill_batch_seqs (sim_diagnostics r))))"

definition sweep_config :: "config \<Rightarrow> prefill_policy \<Rightarrow> nat \<Rightarrow> config" where
  "sweep_config cfg pol n = (set_concurrency n cfg)\<lparr>scheduler := (scheduler cfg)\<lparr>sc_prefill_policy := pol\<rparr>\<rparr>"

type_synonym printed = "string list \<times> (cli_error + unit)"

definition print_line :: "string \<Rightarrow> printed \<Rightarrow> printed" where
  "print_line l p = (l # fst p, snd p)"

fun sweep_points :: "config \<Rightarrow> string \<Rightarrow> prefill_policy \<Rightarrow> nat list \<Rightarrow> printed option" where
  "sweep_points cfg p pol [] = Some ([], Inr ())"
| "sweep_points cfg p pol (n # ns) =
    (case config_validate (sweep_config cfg pol n) of
       Inl e \<Rightarrow> Some ([], Inl (Refused e))
     | Inr _ \<Rightarrow> (case simulate (sweep_config cfg pol n) of None \<Rightarrow> None
        | Some r \<Rightarrow> map_option (print_line (sweep_line (p, n) r)) (sweep_points cfg p pol ns)))"

fun sweep_policies :: "config \<Rightarrow> nat list \<Rightarrow> string list \<Rightarrow> printed option" where
  "sweep_policies cfg ns [] = Some ([], Inr ())"
| "sweep_policies cfg ns (p # ps) =
    (case parse_policy p of Inl e \<Rightarrow> Some ([], Inl e)
     | Inr pol \<Rightarrow> (case sweep_points cfg p pol ns of
          None \<Rightarrow> None
        | Some (ls, Inl e) \<Rightarrow> Some (ls, Inl e)
        | Some (ls, Inr _) \<Rightarrow> map_option (\<lambda>(ls', r). (ls @ ls', r)) (sweep_policies cfg ns ps)))"

definition cmd_sweep :: "config \<Rightarrow> nat list \<Rightarrow> string list \<Rightarrow> printed option" where
  "cmd_sweep cfg ns ps = map_option (print_line sweep_header) (sweep_policies cfg ns ps)"

subsection \<open>Tuning\<close>

text \<open>The two commands that are printed, and, when there is a result directory, the number of its candidates and their scored plan.\<close>

definition cmd_tune :: "(string \<Rightarrow> string) \<Rightarrow> config \<Rightarrow> (string \<times> (string \<times> entry) list) option \<Rightarrow> string \<Rightarrow> string \<Rightarrow>
    ((string \<times> string) \<times> (cli_error + (nat \<times> tuning_plan) option)) option" where
  "cmd_tune os_error cfg save sys be =
    (let dir = (case save of None \<Rightarrow> ''./aic-results'' | Some (p, _) \<Rightarrow> p);
         run = run_from_config cfg sys be dir;
         commands = (shell (support_command run), shell (search_command run))
     in case save of None \<Rightarrow> Some (commands, Inr None)
        | Some (p, es) \<Rightarrow>
           (case load_candidates os_error p es of None \<Rightarrow> None
            | Some (Inl e) \<Rightarrow> Some (commands, Inl (Refused e))
            | Some (Inr as) \<Rightarrow>
               if as = [] then Some (commands, Inl (NoCandidates p))
               else map_option (\<lambda>plan. (commands, Inr (Some (length as, plan)))) (plan_evaluate as cfg)))"

definition tune_intro :: "string \<times> string \<Rightarrow> string list" where
  "tune_intro commands = [''# 1. confirm the combination is inside AIConfigurator's support matrix.'',
     ''#    Outside it, AIConfigurator falls back to weaker modelling *silently*.'', fst commands, [],
     ''# 2. search the layout space.'', snd commands, []]"

definition tune_hint :: "string list" where
  "tune_hint = [''# 3. re-run this command with --save-dir ./aic-results to score the candidates'',
     ''#    ranked by official score: good_output_tok_s (good output tokens from good requests per benchmark window);'',
     ''#    good_frac is only the passing-request fraction, not the ranked metric.'',
     ''#    which AIConfigurator does not model.'']"

definition plan_text :: "(tuning_plan \<Rightarrow> string) \<Rightarrow> bool \<Rightarrow> tuning_plan \<Rightarrow> string list" where
  "plan_text plan_json json p =
    (if json then [plan_json p]
     else plan_table p # (case best p of None \<Rightarrow> []
       | Some r \<Rightarrow> [''best: '' @ tr_label r, ''  official score: '' @ fixed_str 2 (good_output_tok_s (tr_score r)) @ '' good output tokens/s'',
           ''  cross-check vs AIConfigurator: '' @ cc_verdict (tr_cross_check r) @ '' - '' @ cc_note (tr_cross_check r)]))"

definition tune_printed :: "(tuning_plan \<Rightarrow> string) \<Rightarrow> bool \<Rightarrow> (string \<times> string) \<times> (cli_error + (nat \<times> tuning_plan) option) \<Rightarrow> printed" where
  "tune_printed plan_json json r = (case r of (commands, res) \<Rightarrow>
    case res of Inl e \<Rightarrow> (tune_intro commands, Inl e)
    | Inr None \<Rightarrow> (tune_intro commands @ tune_hint, Inr ())
    | Inr (Some (n, scored)) \<Rightarrow> (tune_intro commands @ [''# 3. '' @ nat_str n @ '' candidate layouts, scored in simulation:''] @ plan_text plan_json json scored, Inr ()))"

subsection \<open>Serving\<close>

definition prefill_gpu_ids :: "topology_config \<Rightarrow> nat \<Rightarrow> nat list" where
  "prefill_gpu_ids t i = map (\<lambda>g. (i * tc_prefill_tp t + g) mod 2 ^ 32) [0..<tc_prefill_tp t]"

definition decode_gpu_ids :: "topology_config \<Rightarrow> nat \<Rightarrow> nat list" where
  "decode_gpu_ids t j = (let first = tc_prefill_workers t * tc_prefill_tp t + j * tc_decode_tp t
     in map (\<lambda>g. (first + g) mod 2 ^ 32) [0..<tc_decode_tp t])"

definition serve_cost :: "config \<Rightarrow> cost_model" where
  "serve_cost c = (let t = cfg_topology c in
     cost_model_new (prefill_curve_for_worker (cal_prefill (calibration c)) (tc_prefill_tp t) (tc_prefill_tp t))
       (from_calibration (cal_decode (calibration c)) (tc_decode_tp t)) 0)"

definition mock_prefills :: "config \<Rightarrow> mock_engine list" where
  "mock_prefills c = (let t = cfg_topology c in
     map (\<lambda>i. mock_prefill_worker (mc_name (cfg_model c)) (prefill_gpu_ids t i) (tc_prefill_tp t) (serve_cost c) WallTime) [0..<tc_prefill_workers t])"

definition mock_decodes :: "config \<Rightarrow> mock_engine list" where
  "mock_decodes c = (let t = cfg_topology c in
     map (\<lambda>j. mock_decode_worker (mc_name (cfg_model c)) (decode_gpu_ids t j) (tc_decode_tp t) (kc_num_blocks (kv c)) (serve_cost c) WallTime)
       [0..<tc_decode_workers t])"

text \<open>What \<open>cmd_serve\<close> puts behind the frontend without \<open>--worker\<close>, and \<open>cmd_serve_real\<close> with it.\<close>

definition cmd_serve_mock :: "config \<Rightarrow> (error + mock_engine deployment) option" where
  "cmd_serve_mock c = (case config_validate c of Inl e \<Rightarrow> Some (Inl e) | Inr _ \<Rightarrow> dep_spawn c (mock_prefills c) (mock_decodes c))"

definition STALE_AFTER_MS :: real where
  "STALE_AFTER_MS = 5000"

definition cmd_serve_real :: "(string \<Rightarrow> string + hf_library) \<Rightarrow> config \<Rightarrow> string list \<Rightarrow> string option \<Rightarrow> string option \<Rightarrow>
    cli_error + tokenizer \<times> serving_deployment" where
  "cmd_serve_real load_file c urls path served =
    (case path of None \<Rightarrow> Inl NeedsTokenizer
     | Some p \<Rightarrow> (case hf_from_file load_file p of Inl e \<Rightarrow> Inl (Refused e)
     | Inr h \<Rightarrow> (case aggregated urls (case served of None \<Rightarrow> mc_name (cfg_model c) | Some n \<Rightarrow> n) (default_router_tuning\<lparr>kv_transfer_ms := 0\<rparr>)
         (slo_ttft_ms (cfg_slo c)) (real (min (kc_num_blocks (kv c)) 4096)) STALE_AFTER_MS of
       Inl e \<Rightarrow> Inl (Refused e) | Inr s \<Rightarrow> Inr (hf_as_tokenizer h, s))))"

datatype backend_started = MockBackend tokenizer "mock_engine deployment" | RealBackend tokenizer serving_deployment

definition cmd_serve :: "(string \<Rightarrow> string + 'a) \<Rightarrow> (string \<Rightarrow> string + hf_library) \<Rightarrow> config \<Rightarrow> string \<Rightarrow> string list \<Rightarrow> string option \<Rightarrow>
    string option \<Rightarrow> (cli_error + backend_started \<times> 'a) option" where
  "cmd_serve parse_addr load_file c addr urls path served =
    (case config_validate c of Inl e \<Rightarrow> Some (Inl (Refused e))
     | Inr _ \<Rightarrow> (case parse_addr addr of Inl e \<Rightarrow> Some (Inl (BadAddress e))
     | Inr a \<Rightarrow>
        if urls \<noteq> [] then Some (case cmd_serve_real load_file c urls path served of Inl e \<Rightarrow> Inl e | Inr (t, s) \<Rightarrow> Inr (RealBackend t s, a))
        else map_option (\<lambda>r. case r of Inl e \<Rightarrow> Inl (Refused e) | Inr d \<Rightarrow> Inr (MockBackend synthetic_tokenizer d, a)) (cmd_serve_mock c)))"

subsection \<open>Dispatch\<close>

datatype subcommand =
    ConfigCmd bool
  | PlanCmd nat "nat list" "nat list" nat "real option"
  | VerdictCmd string "real option" real
  | SimCmd "nat option" "nat option" "nat option" bool
  | SweepCmd "nat list" "string list"
  | TuneCmd "string option" string string bool
  | ServeCmd string "string list" "string option" "string option"

record 'a world =
  w_read_file :: "string \<Rightarrow> string + string"
  w_list_dir :: "string \<Rightarrow> (string \<times> entry) list"
  w_os_error :: "string \<Rightarrow> string"
  w_parse_toml :: "string \<Rightarrow> string + config"
  w_print_toml :: "config \<Rightarrow> string + string"
  w_parse_json :: "string \<Rightarrow> string + json"
  w_report_json :: "sim_report \<Rightarrow> string"
  w_plan_json :: "tuning_plan \<Rightarrow> string"
  w_debug :: "diagnostics \<Rightarrow> string"
  w_parse_addr :: "string \<Rightarrow> string + 'a"
  w_load_tokenizer :: "string \<Rightarrow> string + hf_library"

definition load_config :: "'a world \<Rightarrow> string option \<Rightarrow> cli_error + config" where
  "load_config w path = (case path of None \<Rightarrow> Inr default_config
     | Some p \<Rightarrow> (case config_load (w_read_file w) (w_parse_toml w) p of Inl e \<Rightarrow> Inl (LoadingConfig p e) | Inr c \<Rightarrow> Inr c))"

type_synonym 'a ran = "string list \<times> (cli_error + (backend_started \<times> 'a) option)"

definition only_prints :: "printed \<Rightarrow> 'a ran" where
  "only_prints p = (fst p, case snd p of Inl e \<Rightarrow> Inl e | Inr _ \<Rightarrow> Inr None)"

fun run_command :: "'a world \<Rightarrow> config \<Rightarrow> subcommand \<Rightarrow> 'a ran option" where
  "run_command w c (ConfigCmd emit_env) =
    Some (only_prints (if emit_env then ([to_env c], Inr ())
      else case w_print_toml w c of Inl e \<Rightarrow> ([], Inl (PrintingToml e)) | Inr t \<Rightarrow> ([t], Inr ())))"
| "run_command w c (PlanCmd gpus ptps dtps n target) = map_option (\<lambda>ls. only_prints (ls, Inr ())) (cmd_plan c gpus ptps dtps n target)"
| "run_command w c (VerdictCmd path expect tolerance) =
    map_option (\<lambda>r. only_prints (case r of Inl e \<Rightarrow> ([], Inl (VerdictFailed e)) | Inr ls \<Rightarrow> (ls, Inr ())))
      (cmd_verdict (w_read_file w) (w_parse_json w) c path expect tolerance)"
| "run_command w c (SimCmd conc ptp pw json) =
    map_option (\<lambda>r. only_prints (case r of Inl e \<Rightarrow> ([], Inl e)
      | Inr (t, rep) \<Rightarrow> (if json then [w_report_json w rep] else sim_lines (w_debug w) t rep, Inr ()))) (cmd_sim c conc ptp pw)"
| "run_command w c (SweepCmd ns ps) = map_option only_prints (cmd_sweep c ns ps)"
| "run_command w c (TuneCmd dir sys be json) =
    map_option (\<lambda>r. only_prints (tune_printed (w_plan_json w) json r))
      (cmd_tune (w_os_error w) c (map_option (\<lambda>p. (p, w_list_dir w p)) dir) sys be)"
| "run_command w c (ServeCmd addr urls path served) =
    map_option (\<lambda>r. case r of Inl e \<Rightarrow> ([], Inl e) | Inr b \<Rightarrow> ([], Inr (Some b)))
      (cmd_serve (w_parse_addr w) (w_load_tokenizer w) c addr urls path served)"

definition cli_main :: "'a world \<Rightarrow> string option \<Rightarrow> subcommand \<Rightarrow> 'a ran option" where
  "cli_main w path c = (case load_config w path of Inl e \<Rightarrow> Some ([], Inl e) | Inr cfg \<Rightarrow> run_command w cfg c)"

subsection \<open>A sweep covers its grid\<close>

definition grid :: "nat list \<Rightarrow> string list \<Rightarrow> (string \<times> nat) list" where
  "grid ns ps = concat (map (\<lambda>p. map (Pair p) ns) ps)"

text \<open>The report of a complete run of one point.\<close>

definition point_report :: "config \<Rightarrow> string \<times> nat \<Rightarrow> sim_report \<Rightarrow> bool" where
  "point_report cfg pn r \<longleftrightarrow> (\<exists>pol s0 s k. parse_policy (fst pn) = Inr pol \<and> sim_new (sweep_config cfg pol (snd pn)) = Some s0
     \<and> run_for k (begin_run s0) = Ended s \<and> r = finish_run s)"

lemma sweep_config_valid: "config_validate (sweep_config cfg pol n) = config_validate cfg"
  by (cases "engine_validate (cfg_engine cfg)") (simp_all add: sweep_config_def set_concurrency_def config_validate_def Let_def)

lemma sweep_config_frame:
  "config_validate (sweep_config cfg pol n) = config_validate cfg" "cfg_topology (sweep_config cfg pol n) = cfg_topology cfg"
  "calibration (sweep_config cfg pol n) = calibration cfg" "max_decode_seqs (scheduler (sweep_config cfg pol n)) = max_decode_seqs (scheduler cfg)"
  by (rule sweep_config_valid) (simp_all add: sweep_config_def set_concurrency_def)

lemma point_simulates:
  assumes "tunable cfg" "simulatable cfg" "0 < tc_prefill_tp (cfg_topology cfg)" "parse_policy p = Inr pol"
  shows "\<exists>r. simulate (sweep_config cfg pol n) = Some r \<and> point_report cfg (p, n) r"
proof -
  let ?c = "sweep_config cfg pol n"
  have "simulatable ?c" using assms(2) by (simp add: simulatable_def sweep_config_frame)
  moreover have "positive_costs ?c" using assms(1,3) by (intro tunable_positive [of cfg]) (simp_all add: sweep_config_frame)
  moreover obtain s0 where s0: "sim_new ?c = Some s0"
    using sim_new_total [of ?c] assms(1) by (auto simp: sweep_config_frame tunable_def)
  ultimately obtain s where s: "run_for (run_budget ?c) (begin_run s0) = Ended s" using simulation_scores by blast
  then have "point_report cfg (p, n) (finish_run s)" using assms(4) s0 by (auto simp: point_report_def)
  then show ?thesis using s0 s by (simp add: simulate_def)
qed

lemma sweep_points_rows:
  assumes "tunable cfg" "simulatable cfg" "0 < tc_prefill_tp (cfg_topology cfg)" "parse_policy p = Inr pol"
  shows "\<exists>rs. list_all2 (point_report cfg) (map (Pair p) ns) rs \<and> sweep_points cfg p pol ns = Some (map2 sweep_line (map (Pair p) ns) rs, Inr ())"
proof (induction ns)
  case (Cons n ns)
  then obtain rs where rs: "list_all2 (point_report cfg) (map (Pair p) ns) rs" "sweep_points cfg p pol ns = Some (map2 sweep_line (map (Pair p) ns) rs, Inr ())"
    by blast
  obtain r where r: "simulate (sweep_config cfg pol n) = Some r" "point_report cfg (p, n) r" using point_simulates [OF assms] by blast
  have "config_validate (sweep_config cfg pol n) = Inr ()" using assms(2) by (simp add: sweep_config_frame simulatable_def)
  then show ?case using rs r by (intro exI [of _ "r # rs"]) (simp add: print_line_def)
qed simp

lemma sweep_policies_rows:
  assumes "tunable cfg" "simulatable cfg" "0 < tc_prefill_tp (cfg_topology cfg)" "\<forall>p \<in> set ps. \<exists>pol. parse_policy p = Inr pol"
  shows "\<exists>rs. list_all2 (point_report cfg) (grid ns ps) rs \<and> sweep_policies cfg ns ps = Some (map2 sweep_line (grid ns ps) rs, Inr ())"
  using assms(4)
proof (induction ps)
  case (Cons p ps)
  then obtain pol where pol: "parse_policy p = Inr pol" by auto
  obtain rs where rs: "list_all2 (point_report cfg) (map (Pair p) ns) rs" "sweep_points cfg p pol ns = Some (map2 sweep_line (map (Pair p) ns) rs, Inr ())"
    using sweep_points_rows [OF assms(1-3) pol] by blast
  obtain qs where qs: "list_all2 (point_report cfg) (grid ns ps) qs" "sweep_policies cfg ns ps = Some (map2 sweep_line (grid ns ps) qs, Inr ())"
    using Cons by auto
  have "length rs = length ns" using list_all2_lengthD [OF rs(1)] by simp
  then show ?case using pol rs qs by (intro exI [of _ "rs @ qs"]) (simp add: grid_def list_all2_appendI)
qed (simp add: grid_def)

text \<open>A sweep prints one line per policy and concurrency, in the order they were given, and each is the report of a complete simulated run of
  the configuration with that policy and concurrency: over an accepted configuration with positive costs no point of the
  grid is skipped, and none panics or runs for ever.\<close>

theorem sweep_covers_the_grid:
  assumes "tunable cfg" "simulatable cfg" "0 < tc_prefill_tp (cfg_topology cfg)" "\<forall>p \<in> set ps. \<exists>pol. parse_policy p = Inr pol"
  shows "\<exists>rs. list_all2 (point_report cfg) (grid ns ps) rs
    \<and> cmd_sweep cfg ns ps = Some (sweep_header # map2 sweep_line (grid ns ps) rs, Inr ())"
  using sweep_policies_rows [OF assms, of ns] by (auto simp: cmd_sweep_def print_line_def)

theorem sweep_covers_the_grid_witness:
  "\<exists>rs. length rs = 6 \<and> cmd_sweep default_config [32, 48] [''moore-hodgson'', ''fcfs'', ''edf'']
    = Some (sweep_header # map2 sweep_line (grid [32, 48] [''moore-hodgson'', ''fcfs'', ''edf'']) rs, Inr ())"
proof -
  let ?ps = "[''moore-hodgson'', ''fcfs'', ''edf'']"
  have clean: "trim s = s \<and> lowercase s = s" if "s \<in> set ?ps" for s
    using that by (auto simp: printable_def lowercase_def ascii_lower_def byte_in_def intro!: trim_printable)
  have "\<forall>p \<in> set ?ps. \<exists>pol. parse_policy p = Inr pol" using clean by (simp add: parse_policy_def Let_def)
  moreover have "0 < tc_prefill_tp (cfg_topology default_config)" by (simp add: default_config_def default_topology_config_def)
  ultimately obtain rs where "list_all2 (point_report default_config) (grid [32, 48] ?ps) rs"
    "cmd_sweep default_config [32, 48] ?ps = Some (sweep_header # map2 sweep_line (grid [32, 48] ?ps) rs, Inr ())"
    using sweep_covers_the_grid [OF default_tunable default_simulatable, of ?ps "[32, 48]"] by blast
  moreover have "length (grid [32, 48] ?ps) = 6" by (simp add: grid_def)
  ultimately show ?thesis using list_all2_lengthD by fastforce
qed

subsection \<open>GPUs\<close>

lemma consecutive_blocks: "concat (map (\<lambda>i. map (\<lambda>g. a + i * k + g) [0..<k]) [0..<n]) = [a..<a + n * k]"
proof (induction n)
  case (Suc n)
  have "map (\<lambda>g. a + n * k + g) [0..<k] = [a + n * k..<a + n * k + k]" by (simp add: map_add_upt add.commute)
  then show ?case using Suc upt_add_eq_append [of a "a + n * k" k] by (simp add: algebra_simps)
qed simp

lemma small_ids:
  assumes "a + n * k \<le> 2 ^ 32"
  shows "concat (map (\<lambda>i. map (\<lambda>g. (a + i * k + g) mod 2 ^ 32) [0..<k]) [0..<n]) = [a..<a + n * k]"
proof -
  have "(a + i * k + g) mod 2 ^ 32 = a + i * k + g" if "i < n" "g < k" for i g
  proof -
    have "i * k + g < Suc i * k" using that(2) by simp
    also have "\<dots> \<le> n * k" using that(1) by (intro mult_le_mono1) simp
    finally have "i * k + g < n * k" .
    then show ?thesis using assms by simp
  qed
  then have "map (\<lambda>i. map (\<lambda>g. (a + i * k + g) mod 2 ^ 32) [0..<k]) [0..<n] = map (\<lambda>i. map (\<lambda>g. a + i * k + g) [0..<k]) [0..<n]" by simp
  then show ?thesis using consecutive_blocks [of a k n] by metis
qed

lemma accepted_deployment_starts:
  assumes ok: "config_validate c = Inr ()" "8 \<le> max_decode_seqs (scheduler c)" "tc_prefill_workers (cfg_topology c) \<le> DEP_DECODE_ID_BASE"
    and small: "tc_prefill_workers (cfg_topology c) * tc_prefill_tp (cfg_topology c) + tc_decode_workers (cfg_topology c) * tc_decode_tp (cfg_topology c) \<le> u32_max"
  shows "\<exists>s. cmd_serve_mock c = Some (Inr s) \<and> dep_init s \<and> length (dp_prefill s) = tc_prefill_workers (cfg_topology c)
    \<and> length (dp_decode s) = tc_decode_workers (cfg_topology c)
    \<and> concat (map (\<lambda>e. gpu_ids (me_info e)) (mock_prefills c @ mock_decodes c)) = [0..<used_gpus (cfg_topology c)]"
proof -
  let ?t = "cfg_topology c"
  let ?p = "tc_prefill_workers ?t * tc_prefill_tp ?t" and ?d = "tc_decode_workers ?t * tc_decode_tp ?t"
  have le: "?p + ?d < 2 ^ 32" using small by (simp add: u32_max_def)
  have "concat (map (\<lambda>e. gpu_ids (me_info e)) (mock_prefills c)) = [0..<?p]"
    using small_ids [of 0 "tc_prefill_workers ?t" "tc_prefill_tp ?t"] le
    by (simp add: mock_prefills_def mock_prefill_worker_def mock_new_def prefill_gpu_ids_def Let_def comp_def)
  moreover have "concat (map (\<lambda>e. gpu_ids (me_info e)) (mock_decodes c)) = [?p..<?p + ?d]"
    using small_ids [of ?p "tc_decode_workers ?t" "tc_decode_tp ?t"] le
    by (simp add: mock_decodes_def mock_decode_worker_def mock_new_def decode_gpu_ids_def Let_def comp_def)
  moreover have "used_gpus ?t = ?p + ?d" using le by (simp add: used_gpus_def)
  ultimately have gpus: "concat (map (\<lambda>e. gpu_ids (me_info e)) (mock_prefills c @ mock_decodes c)) = [0..<used_gpus ?t]"
    using upt_add_eq_append [of 0 ?p ?d] by simp
  have len: "length (mock_prefills c) = tc_prefill_workers ?t" "length (mock_decodes c) = tc_decode_workers ?t"
    by (simp_all add: mock_prefills_def mock_decodes_def Let_def)
  have pos: "mock_prefills c \<noteq> []" "mock_decodes c \<noteq> []" using ok(1) len by (auto simp: config_validate_iff)
  obtain s where s: "dep_spawn c (mock_prefills c) (mock_decodes c) = Some (Inr s)" "length (dp_prefill s) = length (mock_prefills c)"
      "length (dp_decode s) = length (mock_decodes c)"
    using ok(1,2) pos by (simp add: dep_spawn_def itl_new_def Let_def)
  moreover have "dep_init s" unfolding dep_init_def using s(1) ok(3) len(1) by (metis)
  ultimately show ?thesis using ok(1) gpus len by (simp add: cmd_serve_mock_def)
qed

text \<open>C28. Serving with mock engines starts exactly when it can, and gives every GPU of the deployment to exactly one engine. A configuration that \<open>validate\<close> refuses
  is answered with its error. An accepted one panics exactly when it allows fewer than 8 sequences per decode worker, because \<open>validate\<close> does
  not check the bound that the controller's \<open>clamp\<close> needs. An accepted one that allows at least 8, with at most a thousand prefill workers and
  a GPU count that fits 32 bits, is spawned with the configured number of workers, and the GPU numbers of its prefill engines followed by those
  of its decode engines are \<open>0, 1, 2, \<dots>\<close> up to the number of GPUs used.\<close>

theorem serve_gives_each_gpu_to_one_engine:
  "case config_validate c of
     Inl e \<Rightarrow> cmd_serve_mock c = Some (Inl e)
   | Inr _ \<Rightarrow> (cmd_serve_mock c = None \<longleftrightarrow> max_decode_seqs (scheduler c) < 8)
       \<and> (8 \<le> max_decode_seqs (scheduler c) \<and> tc_prefill_workers (cfg_topology c) \<le> DEP_DECODE_ID_BASE
          \<and> tc_prefill_workers (cfg_topology c) * tc_prefill_tp (cfg_topology c) + tc_decode_workers (cfg_topology c) * tc_decode_tp (cfg_topology c) \<le> u32_max
          \<longrightarrow> (\<exists>s. cmd_serve_mock c = Some (Inr s) \<and> dep_init s \<and> length (dp_prefill s) = tc_prefill_workers (cfg_topology c)
            \<and> length (dp_decode s) = tc_decode_workers (cfg_topology c)
            \<and> concat (map (\<lambda>e. gpu_ids (me_info e)) (mock_prefills c @ mock_decodes c)) = [0..<used_gpus (cfg_topology c)]))"
proof (cases "config_validate c")
  case (Inl e)
  then show ?thesis by (simp add: cmd_serve_mock_def)
next
  case (Inr u)
  then have ok: "config_validate c = Inr ()" by simp
  then have "mock_prefills c \<noteq> []" "mock_decodes c \<noteq> []"
    by (auto simp: mock_prefills_def mock_decodes_def Let_def config_validate_iff)
  then have "cmd_serve_mock c = None \<longleftrightarrow> max_decode_seqs (scheduler c) < 8"
    using ok by (simp add: cmd_serve_mock_def dep_spawn_def itl_new_def Let_def)
  then show ?thesis using ok accepted_deployment_starts [OF ok] by auto
qed

theorem serve_gives_each_gpu_to_one_engine_witness:
  "\<exists>s. cmd_serve_mock default_config = Some (Inr s) \<and> length (dp_prefill s) = 4
    \<and> cmd_serve_mock (default_config\<lparr>scheduler := default_scheduler_config\<lparr>max_decode_seqs := 4\<rparr>\<rparr>) = None"
proof -
  let ?small = "default_config\<lparr>scheduler := default_scheduler_config\<lparr>max_decode_seqs := 4\<rparr>\<rparr>"
  have ok: "config_validate default_config = Inr ()" using default_simulatable by (simp add: simulatable_def)
  then have "config_validate ?small = Inr ()" by (simp add: config_validate_iff)
  then have "cmd_serve_mock ?small = None" using serve_gives_each_gpu_to_one_engine [of ?small] by simp
  moreover have "8 \<le> max_decode_seqs (scheduler default_config)" "tc_prefill_workers (cfg_topology default_config) = 4"
    "tc_prefill_workers (cfg_topology default_config) * tc_prefill_tp (cfg_topology default_config)
      + tc_decode_workers (cfg_topology default_config) * tc_decode_tp (cfg_topology default_config) \<le> u32_max"
    by (simp_all add: default_config_def default_scheduler_config_def default_topology_config_def u32_max_def)
  ultimately show ?thesis using serve_gives_each_gpu_to_one_engine [of default_config] ok by (auto simp: DEP_DECODE_ID_BASE_def)
qed

subsection \<open>What is put behind a socket\<close>

lemma only_serve_starts: "run_command w c cmd = Some (ls, Inr (Some b)) \<Longrightarrow> \<exists>addr urls path served. cmd = ServeCmd addr urls path served"
proof -
  assume r: "run_command w c cmd = Some (ls, Inr (Some b))"
  have "only_prints p \<noteq> (ls, Inr (Some b))" for p by (cases "snd p") (simp_all add: only_prints_def)
  then show ?thesis using r by (cases cmd) auto
qed

lemma serve_real_starts:
  assumes "cmd_serve_real load_file c urls path served = Inr (t, s)"
  shows "\<exists>p lib. path = Some p \<and> load_file p = Inr lib \<and> t = hf_as_tokenizer \<lparr>hf_inner = lib, hf_name = p\<rparr>"
  using assms by (auto simp: cmd_serve_real_def hf_from_file_def split: option.splits sum.splits)

text \<open>Nothing is served that was not asked for. When the program starts a deployment, the command was \<open>serve\<close>, the configuration loaded and was accepted and the
  address parsed; without engine endpoints the deployment is the mock one of that configuration; with endpoints it is never
  the mock one, and its tokenizer is the one loaded from the given file, never the byte-level stand-in.\<close>

theorem serving_is_what_was_asked:
  assumes "cli_main w path cmd = Some (ls, Inr (Some (b, a)))"
  shows "\<exists>c addr urls tok served. cmd = ServeCmd addr urls tok served \<and> load_config w path = Inr c \<and> config_validate c = Inr ()
    \<and> w_parse_addr w addr = Inr a
    \<and> (if urls = [] then \<exists>d. b = MockBackend synthetic_tokenizer d \<and> dep_spawn c (mock_prefills c) (mock_decodes c) = Some (Inr d)
       else \<exists>s p lib. b = RealBackend (hf_as_tokenizer \<lparr>hf_inner = lib, hf_name = p\<rparr>) s \<and> tok = Some p \<and> w_load_tokenizer w p = Inr lib)"
proof -
  obtain c where c: "load_config w path = Inr c" "run_command w c cmd = Some (ls, Inr (Some (b, a)))"
    using assms by (auto simp: cli_main_def split: sum.splits)
  obtain addr urls tok served where cmd: "cmd = ServeCmd addr urls tok served" using only_serve_starts [OF c(2)] by blast
  then have sv: "cmd_serve (w_parse_addr w) (w_load_tokenizer w) c addr urls tok served = Some (Inr (b, a))"
    using c(2) by (cases "cmd_serve (w_parse_addr w) (w_load_tokenizer w) c addr urls tok served") (auto split: sum.split_asm)
  then have ok: "config_validate c = Inr ()" "w_parse_addr w addr = Inr a"
    by (auto simp: cmd_serve_def split: sum.splits if_splits option.splits) (metis sum.exhaust)+
  show ?thesis
  proof (cases "urls = []")
    case True
    then have "\<exists>d. b = MockBackend synthetic_tokenizer d \<and> dep_spawn c (mock_prefills c) (mock_decodes c) = Some (Inr d)"
      using sv ok by (auto simp: cmd_serve_def cmd_serve_mock_def split: sum.splits) (metis sum.exhaust)
    then show ?thesis using cmd c(1) ok True by auto
  next
    case False
    then obtain t s where "b = RealBackend t s" "cmd_serve_real (w_load_tokenizer w) c urls tok served = Inr (t, s)"
      using sv ok by (auto simp: cmd_serve_def split: sum.splits)
    then show ?thesis using serve_real_starts cmd c(1) ok False by (metis (no_types, lifting))
  qed
qed

end
