(* ===== verification/Spec2Isabelle.thy ===== *)
theory Spec2Isabelle
  imports Prefix_Cache Prefill_Sched Decode_Sched Decide Kv_Transfer Scoring Router Capacity Engine_Mock
    Decode_Worker Prefill_Worker Wire_Stream Advice Serving In_Process Tuner_Plan Dynamo Py_Host Cli
begin

text \<open>
  Verification of trt-llm-rs, a control plane for disaggregated LLM serving (\<open>src/crates\<close>).

  \<^bold>\<open>The program.\<close> Requests reach an OpenAI-compatible frontend (\<open>frontend\<close>), are routed (\<open>router\<close>) to a prefill and
  a decode worker (\<open>worker\<close>), prefilled in batches planned against the deadline of the first token
  (\<open>sched/prefill\<close>), handed over with their KV pages (\<open>kvcache\<close>, \<open>transfer\<close>) and decoded under a concurrency controller
  (\<open>sched/decode\<close>). An engine is a mock with a cost model (\<open>engine\<close>) or a process behind HTTP and server-sent events
  (\<open>wire\<close>, \<open>worker/serving\<close>, \<open>dynamo\<close>); \<open>pyext\<close> offers the schedulers to TensorRT-LLM itself. A simulator (\<open>sim\<close>) runs the same
  schedulers and router in virtual time, the capacity model and its advice (\<open>core\<close>) predict what a deployment can do, and the
  tuner (\<open>tuner\<close>) ranks the layouts AIConfigurator proposes by simulated score.

  \<^bold>\<open>Conventions.\<close> A struct is a record, an enum a datatype, a method a function that takes and returns the state, with
  \<open>None\<close> for a panic and the left of a sum for an \<open>Err\<close>. Floating-point numbers are reals without rounding. Where the code compares with or adds to
  \<open>f64::INFINITY\<close> the type is \<open>ext\<close>, and where it can divide by zero it is \<open>f64\<close> (\<open>Float64\<close>), which has both infinities, the negative
  zero and NaN, so that the planner's panic on a rate that is not a number is a branch of the model. Unsigned integers are naturals where the code cannot overflow
  them and are reduced where a release build wraps; token ids are 32-bit words, since they are computed with. Hash maps are
  association lists with distinct keys and an interface locale (\<open>Prelude\<close>). Strings are their UTF-8 bytes. Time is an argument, as in
  most of the code. A loop is structural recursion, or \<open>function\<close> with a measure; the simulator's event loop takes a number of steps
  and is shown to need no more than a bound computed from the configuration.

  \<^bold>\<open>Theories.\<close>

  \<^item> \<open>Prelude\<close>: clamps, rounding, \<open>ext\<close>, hash maps, the locale \<open>invariant_system\<close> from which every invariant of reachable states is
    obtained.
  \<^item> \<open>Float64\<close>: 64-bit floats by cases, their arithmetic at zero and infinity and their total order.
  \<^item> \<open>Block_Pool\<close>, \<open>Kv_Holdings\<close>, \<open>Prefix_Cache\<close>, \<open>Radix_Index\<close> (\<open>kvcache\<close>): reference-counted pages (counts of 32 bits), the holdings of a
    worker, chained block hashes and the radix tree of prompts. Pages are neither lost nor handed out twice. Under an owner that has the
    cache forget the pages it reallocates, lookups return the longest prefix of recorded blocks with live pages that hold those blocks; without
    it they do not, which is shown too. The radix tree gives every worker it knows its longest prefix, 0 without overlap.
  \<^item> \<open>Job_Policy\<close>, \<open>Prefill_Sched\<close>, \<open>Decode_Sched\<close> (\<open>sched\<close>): Moore-Hodgson ordering is optimal, plans stay in their budgets and
    conserve work, draining leaves only what cannot be planned, the decode scheduler's invariant holds in every reachable state, and admission spoils
    nobody.
  \<^item> \<open>Decide\<close> (\<open>pyext\<close>): the decision TensorRT-LLM asks for partitions its requests and respects every budget.
  \<^item> \<open>Kv_Transfer\<close> (\<open>transfer\<close>), \<open>Scoring\<close> (\<open>core/{request,slo,stats,ids}\<close>), \<open>Capacity\<close>, \<open>Capacity_Target\<close> and \<open>Advice\<close>
    (\<open>core/{capacity,remedy,verdict}\<close>), \<open>Deployment_Config\<close> (\<open>core/{config,engine_config}\<close>): resharding plans, scoring of requests,
    the capacity search with its panic, what a target would need, the remedies, and loading and validation of configurations.
  \<^item> \<open>Router\<close>, \<open>Fleet\<close> (\<open>router\<close>): the decision minimises the predicted time to the first token, errors are exact, and fresh loads on
    every worker make routing succeed.
  \<^item> \<open>Engine_Mock\<close> (\<open>engine\<close>), \<open>Decode_Worker\<close>, \<open>Prefill_Worker\<close> (\<open>worker\<close>): the engine interface and its mock; the workers account for
    every page and their books agree with the engine's.
  \<^item> \<open>Wire_Sse\<close>, \<open>Wire_Stream\<close> (\<open>wire\<close>): framing is independent of how the network cuts bytes; a request stream refines a
    three-phase life, cancels its transport once and delivers what the server wrote.
  \<^item> \<open>Frontend\<close>, \<open>Tokenizers\<close>, \<open>Serving\<close>, \<open>In_Process\<close> (\<open>frontend\<close>, \<open>worker/{tokenizer,serving,deployment}\<close>): the endpoints, the
    tokenizers, the deployment in front of engine processes and the one with workers in process. Tasks interleave as the steps of a relation.
    A client gets exactly the tokens its engines returned, answers are well formed and valid UTF-8, and the load a router sees is the
    number of open streams.
  \<^item> \<open>Dynamo\<close> (\<open>dynamo\<close>): requests converted for the wire, outputs converted back, and a counter of open streams that is right
    whatever the runtime calls.
  \<^item> \<open>Simulator\<close>, \<open>Sim_Invariant\<close>, \<open>Sim_Run\<close>, \<open>Sim_Termination\<close> (\<open>sim\<close>): the discrete-event simulator. A run of a simulator
    that could be constructed, with at most 1000 prefill workers and positive finite costs, never panics, loses no request, client, page or
    transfer buffer, and ends; constructing it panics when \<open>max_decode_seqs\<close> is below 8, which validation accepts.
  \<^item> \<open>Tuner_Csv\<close>, \<open>Tuner\<close>, \<open>Tuner_Plan\<close> (\<open>tuner\<close>): tables that follow RFC 4180 are read back, layouts parse back from their spelling,
    every candidate is scored or listed as skipped, rows are ranked by score alone, and tuning ends.
  \<^item> \<open>Py_Host\<close> (\<open>pyhost\<close>): the thread that owns an embedded Python interpreter answers commands as one interpreter that runs them in
    the order sent, and dropping the host answers what is queued.
  \<^item> \<open>Cli_Plan\<close>, \<open>Cli\<close> (\<open>cli\<close>): the commands, the lines they print and the dispatch of \<open>main\<close>. A verdict lists what the missed gate's
    side lacks, a sweep covers its grid, serving starts an accepted configuration or panics on its sequence limit and gives every GPU to one engine, and engine endpoints never get mock engines.
  \<^item> This theory: a chat completion through frontend, router, transport, relay and collector.

  \<^bold>\<open>Interfaces.\<close> Locales state what one part relies on of another, and each is interpreted on the definitions of the part
  that provides it: the hash map, the pool of pages, the engine, the transport, the answer of a deployment, the text of a
  decoder, and systems with an invariant.

  \<^bold>\<open>Bounds.\<close> The simulator's bound is the work of the clients' first requests plus, for each decode worker, the passes of at least 12 ms
  that fit before the horizon, each of which can complete, and so restart, at most every client
  (\<open>Sim_Termination\<close>); \<open>Tuner_Plan\<close> runs it with exactly that number. Counters of 32 and 64 bits wrap where the code lets them, and
  the statements that need it assume fewer streams or tokens than that.

  \<^bold>\<open>Parameters.\<close> Code that is not of this repository is an argument: the JSON and TOML parsers, the web framework, the HTTP server
  of an engine process, the operations of an engine, the tokenizer library, the embedded Python interpreter, the judge of a tuning run, the texts of operating-system errors. Assumptions
  about them say that they return what they were given, and a witness instantiates them.

  \<^bold>\<open>Not modelled.\<close> Parsing of the command line is clap's, the texts of JSON, TOML and derived \<open>Debug\<close> output are those of their libraries, and
  the Python bindings of \<open>pyext\<close> around the modelled decision are pyo3's. Sockets, tokio's scheduling and the depth of its channels, logging,
  the benchmark of a call into Python and the accessors that only return a field are left out; where tasks run
  concurrently, every interleaving of their steps is considered instead, a step being one message or one request
  handled (\<open>In_Process\<close> and \<open>Serving\<close> say what is finer in the code). Rounding of floating-point numbers is not modelled.
\<close>

section \<open>A chat completion, end to end\<close>

text \<open>
  \<open>crates/worker/src/serving.rs\<close>, \<open>impl Completions for ServingDeployment\<close>: what the frontend calls. The task that
  \<open>generate\<close> spawns runs to its end, with the clock readings \<open>its\<close>, while the client listens; the tokenizer is a
  parameter. A panic of the router, which no reachable state has, is an error here.
\<close>

definition serving_ops :: "(string \<Rightarrow> string + json) \<Rightarrow> 'x http_server \<Rightarrow> (string \<Rightarrow> token_id list) \<Rightarrow> (token_id list \<Rightarrow> string) \<Rightarrow>
    millis \<Rightarrow> (millis \<times> bool) list \<Rightarrow> ('x, serving_deployment) completions_ops" where
  "serving_ops pj serve enc dec now its = \<lparr>
     op_generate = (\<lambda>r s. case serving_generate pj serve now r s of
         None \<Rightarrow> (Inl (Engine ''routing panicked''), s)
       | Some (Inl e, s1) \<Rightarrow> (Inl e, s1)
       | Some (Inr t, s1) \<Rightarrow> (case relay pj serve its t s1 of (cs, _, s2) \<Rightarrow> (Inr cs, s2))),
     op_model_name = sd_model_name, op_encode = enc, op_decode = dec\<rparr>"

lemma relay_inflight:
  "relay pj serve its t s = (c, None, s') \<Longrightarrow>
   inflight \<circ> observed_of s' = (inflight \<circ> observed_of s)(tk_slot t := inflight (observed_of s (tk_slot t)) - 1)"
proof (induction its arbitrary: t s c)
  case (Cons it its)
  obtain now l where it: "it = (now, l)" by (cases it)
  obtain c1 t1 s1 where r: "relay_step pj serve now l t s = (c1, t1, s1)" by (metis prod_cases3)
  show ?case
  proof (cases t1)
    case None
    then show ?thesis using Cons.prems r it relay_step_ends [of pj serve now l t s] by auto
  next
    case (Some t2)
    note go = relay_step_goes_on [OF r [unfolded Some]]
    obtain c2 where "relay pj serve its t2 s1 = (c2, None, s')"
      using Cons.prems r it Some by (auto split: prod.splits)
    from Cons.IH [OF this] go show ?thesis by (metis comp_apply)
  qed
qed simp

lemma generate_answers:
  assumes ok: "sd_ok s" and up: "\<And>url q. prompt_token_ids q = gr_prompt r \<Longrightarrow> serve url q = Streaming bs"
  shows "\<exists>t s' url q. serving_generate pj serve now r s = Some (Inr t, s') \<and> start (http_ops pj serve) (Inr (http_open url)) q = Inr (tk_stream t)
    \<and> serve url (from_request q) = Streaming bs
    \<and> inflight \<circ> observed_of s' = (inflight \<circ> observed_of s)(tk_slot t := inflight (observed_of s (tk_slot t)) + 1)"
proof -
  obtain d w where d: "route (sd_router (refresh_load now s)) (gr_prompt r) now (ttft_budget_ms (refresh_load now s)) = Some (Inr d)"
      "hm_get (sd_workers (refresh_load now s)) (rd_decode d) = Some w"
    using refreshed [OF ok, of now "gr_prompt r" "ttft_budget_ms (refresh_load now s)"] by (auto simp: refresh_load_def)
  let ?s = "refresh_load now s"
  let ?q = "core_request (fst (next_id (sd_next_id ?s))) (ttft_budget_ms ?s) r" and ?url = "factory_url (sw_endpoint w)"
  have a: "serve ?url (from_request ?q) = Streaming bs" by (rule up) (simp add: from_request_def core_request_def)
  obtain st where st: "start (http_ops pj serve) (Inr (http_open ?url)) ?q = Inr st"
    using start_http [where serve = serve and url = ?url and r = ?q and pj = pj, OF a] by blast
  have obs: "observed_of (?s\<lparr>sd_next_id := n\<rparr>) = observed_of s" for n by (rule ext) (simp add: observed_of_def refresh_load_def)
  let ?t = "\<lparr>tk_slot = slot w, tk_stream = st, tk_last_token_ms = None\<rparr>"
  let ?s' = "observe_slot (slot w) (\<lambda>o'. o'\<lparr>inflight := inflight o' + 1\<rparr>) (?s\<lparr>sd_next_id := snd (next_id (sd_next_id ?s))\<rparr>)"
  have "serving_generate pj serve now r s = Some (Inr ?t, ?s')"
    using d st by (simp add: serving_generate_def Let_def case_prod_unfold)
  moreover have "inflight \<circ> observed_of ?s' = (inflight \<circ> observed_of s)(slot w := inflight (observed_of s (slot w)) + 1)"
    by (auto simp: obs)
  ultimately show ?thesis using st a by fastforce
qed

text \<open>C9. A chat completion end to end. In any state the deployment reaches with streams open on it, a chat request that does not ask
  for streaming is routed to a process, posted to it, relayed and collected: when the process answers with one frame per
  token and a frame with its reason, in chunks cut anywhere, the response has the concatenated texts, the
  model's name, the reason, the tokens of the prompt and of the completion, and the request's own number; and afterwards every process
  is charged for exactly the streams that were open before.\<close>

theorem chat_completion_end_to_end:
  assumes reach: "serving_init x0" "(serving_step pj serve)\<^sup>*\<^sup>* x0 (app_state.backend a, ts)"
    and ops: "backend_ops a = serving_ops pj serve enc dec now (map (\<lambda>at'. (at', True)) (reads @ [fin_at]))"
    and req: "ccr_messages r \<noteq> []" "ccr_stream r \<noteq> Some True"
    and answer: "\<And>url q. prompt_token_ids q = enc (flatten_prompt r) \<Longrightarrow> serve url q = Streaming (map Inr cs)"
    and bytes: "concat cs = server_bytes (map fst toks @ [fin])"
    and token: "\<forall>(d, tok, w) \<in> set toks. payload_line d \<and> pj d = Inr (token_json tok w)"
    and fin: "payload_line fin" "pj fin = Inr (finish_json reason)"
    and len: "length reads = length toks" and small: "length toks + length (enc (flatten_prompt r)) < 2 ^ 32"
  shows "\<exists>a'. chat_completions no_extra now created r a = (Completion \<lparr>cr_id = request_id_str (app_next_id a), cr_object = ''chat.completion'',
      cr_created = created, cr_model = or_default (ccr_model r) (sd_model_name (app_state.backend a)),
      cr_choices = [\<lparr>cc_index = 0, cc_role = ''assistant'', cc_content = concat (map (\<lambda>(_, _, w). w) toks), cc_finish_reason = leak_reason reason\<rparr>],
      cr_usage = \<lparr>us_prompt_tokens = length (enc (flatten_prompt r)), us_completion_tokens = length toks,
        us_total_tokens = length (enc (flatten_prompt r)) + length toks\<rparr>\<rparr>, a')
    \<and> (\<forall>i. inflight (observed_of (app_state.backend a') i) = tasks_on i ts)"
proof -
  let ?rid = "fst (next_id (app_next_id a))" and ?n = "length (enc (flatten_prompt r))"
  let ?g = "\<lparr>gr_id = ?rid, gr_prompt = enc (flatten_prompt r), gr_prompt_text = flatten_prompt r, gr_params = Frontend.sampling no_extra r,
    gr_arrival_ms = now, gr_stream = False\<rparr>"
  have ok: "serving_ok (app_state.backend a, ts)" by (rule serving_sys.reachable_inv [OF reach])
  then have "sd_ok (app_state.backend a)" by (simp add: serving_ok_def)
  from generate_answers [OF this, of ?g serve "map Inr cs" pj now] answer obtain t s1 url q where
    g: "serving_generate pj serve now ?g (app_state.backend a) = Some (Inr t, s1)" "start (http_ops pj serve) (Inr (http_open url)) q = Inr (tk_stream t)"
      "serve url (from_request q) = Streaming (map Inr cs)"
      "inflight \<circ> observed_of s1 = (inflight \<circ> observed_of (app_state.backend a))(tk_slot t := inflight (observed_of (app_state.backend a) (tk_slot t)) + 1)"
    by auto
  let ?its = "map (\<lambda>at'. (at', True)) (reads @ [fin_at])"
  obtain c t' s2 where rel: "relay pj serve ?its t s1 = (c, t', s2)" by (metis prod_cases3)
  note results = delivered_results [OF g(3) bytes token fin len g(2), of fin_at]
  have "stream_over (map (\<lambda>(_ :: bytes, tok, w). Inr (Some (Token tok w))) xs @ [Inr (Some (Terminal reason))])" for xs by (induction xs) auto
  then have "t' = None" using relay_results [of pj serve "reads @ [fin_at]" t s1] results rel by simp
  then have "inflight \<circ> observed_of s2 = inflight \<circ> observed_of (app_state.backend a)"
    using relay_inflight [of pj serve ?its t s1 c s2] rel g(4) by (auto simp: fun_eq_iff)
  then have load: "inflight (observed_of s2 i) = tasks_on i ts" for i
    using ok by (metis comp_apply serving_ok_def fst_conv snd_conv)
  note reply = completed_answer [OF g(3) bytes token fin len g(2), of ?n ?rid created _ fin_at s1]
  have "chat_completions no_extra now created r a = (collect_response ?rid created (or_default (ccr_model r) (sd_model_name (app_state.backend a))) ?n c,
      a\<lparr>app_next_id := snd (next_id (app_next_id a)), app_state.backend := s2\<rparr>)"
    using req small g(1) rel by (auto simp: chat_completions_def dispatch_def Let_def ops serving_ops_def or_default_def case_prod_unfold split: option.splits)
  then show ?thesis using reply small rel load by (simp add: next_id_def)
qed

definition demo_app :: "(unit, serving_deployment) app_state" where
  "demo_app = app_new (serving_ops demo_parse demo_serve synthetic_encode synthetic_decode 0 (map (\<lambda>at'. (at', True)) [1, 2])) demo_fleet"

definition demo_chat :: chat_completion_request where
  "demo_chat = \<lparr>ccr_model = None, ccr_messages = [\<lparr>cm_role = ''user'', cm_content = ''hi''\<rparr>], ccr_max_tokens = None,
     ccr_max_completion_tokens = None, ccr_temperature = None, ccr_top_p = None, ccr_stream = None, ccr_seed = None, ccr_ignore_eos = None\<rparr>"

theorem chat_completion_end_to_end_witness:
  "\<exists>a'. chat_completions () 0 0 demo_chat demo_app = (Completion \<lparr>cr_id = request_id_str 0, cr_object = ''chat.completion'', cr_created = 0,
      cr_model = ''m'', cr_choices = [\<lparr>cc_index = 0, cc_role = ''assistant'', cc_content = ''a'', cc_finish_reason = ''eos''\<rparr>],
      cr_usage = \<lparr>us_prompt_tokens = 8, us_completion_tokens = 1, us_total_tokens = 9\<rparr>\<rparr>, a')"
proof -
  have init: "serving_init (demo_fleet, [] :: unit relay_task list)" by (rule demo_fleet_init)
  have run: "(serving_step demo_parse demo_serve)\<^sup>*\<^sup>* (demo_fleet, []) (app_state.backend demo_app, [])" by (simp add: demo_app_def app_new_def)
  have ops: "backend_ops demo_app = serving_ops demo_parse demo_serve synthetic_encode synthetic_decode 0 (map (\<lambda>at'. (at', True)) ([1] @ [2]))"
    by (simp add: demo_app_def app_new_def)
  have n: "length (synthetic_encode (flatten_prompt demo_chat)) = 8" by (simp add: synthetic_encode_def flatten_prompt_def demo_chat_def)
  from chat_completion_end_to_end [OF init run ops, of demo_chat "map (\<lambda>c. [c]) (server_bytes [''five'', ''eos''])"
      "[(''five'', 5, ''a'')]" "''eos''" "''eos''" "()" 0] demo_lines n
  show ?thesis by (auto simp: demo_serve_def demo_parse_def demo_chat_def demo_app_def app_new_def demo_fleet_def aggregated_def Let_def leak_reason_def or_default_def)
qed

end
